(* ===== verification/Prelude.thy ===== *)
theory Prelude
  imports
    Complex_Main
    "HOL-Library.AList"
    "HOL-Library.Char_ord"
    "HOL-Library.List_Lexorder"
    "HOL-Library.Multiset"
begin

text \<open>
  What every component of the model shares: error values and their sequencing, JavaScript
  strings, numbers, sets, maps and sorting.

  A TypeScript function that may throw is a HOL function into \<open>'e + 'a\<close>; the left summand
  is the thrown error, one constructor per \<open>throw\<close> of the source. A \<open>Map\<close> or a plain object is
  an association list in insertion order (\<open>AList.update\<close> replaces in place and appends a new key
  at the end, as \<open>Map.set\<close> does); a \<open>Set\<close> is a duplicate-free list in insertion order.
  Strings are lists of code units below 256. \<open>Array.prototype.sort\<close> without an argument orders
  by code units, which is the lexicographic order of lists of characters;
  \<open>localeCompare\<close> depends on the host's collation and is a parameter of the
  definitions that use it.
\<close>

section \<open>Error values\<close>

named_theorems result_simps \<open>rewriting and inversion of computations that may throw\<close>

definition result_bind :: "'e + 'a \<Rightarrow> ('a \<Rightarrow> 'e + 'b) \<Rightarrow> 'e + 'b" where
  "result_bind r f = (case r of Inl e \<Rightarrow> Inl e | Inr x \<Rightarrow> f x)"

lemma result_bind_simps [simp]:
  "result_bind (Inl e) f = Inl e"
  "result_bind (Inr x) f = f x"
  by (simp_all add: result_bind_def)

lemma result_bind_Inr_iff [result_simps]:
  "result_bind r f = Inr y \<longleftrightarrow> (\<exists>x. r = Inr x \<and> f x = Inr y)"
  by (cases r) auto

lemma result_bind_Inl_iff [result_simps]:
  "result_bind r f = Inl e \<longleftrightarrow> r = Inl e \<or> (\<exists>x. r = Inr x \<and> f x = Inl e)"
  by (cases r) auto

lemma if_throw_Inr_iff [result_simps]:
  "(if c then Inl e else r) = Inr x \<longleftrightarrow> \<not> c \<and> r = Inr x"
  by simp

lemma result_cases_Inr_iff [result_simps]:
  "(case r of Inl e \<Rightarrow> Inl (g e) | Inr x \<Rightarrow> f x) = Inr y \<longleftrightarrow> (\<exists>x. r = Inr x \<and> f x = Inr y)"
  by (cases r) auto

text \<open>\<open>require c e\<close> is \<open>if (!c) throw e\<close>.\<close>

definition require :: "bool \<Rightarrow> 'e \<Rightarrow> 'e + unit" where
  "require c e = (if c then Inr () else Inl e)"

lemma require_Inr_iff [simp]: "require c e = Inr u \<longleftrightarrow> c"
  by (simp add: require_def)

lemma require_Inl_iff [simp]: "require c e = Inl e' \<longleftrightarrow> \<not> c \<and> e' = e"
  by (auto simp: require_def)

text \<open>A loop whose body may throw, over a state.\<close>

fun result_fold :: "('a \<Rightarrow> 's \<Rightarrow> 'e + 's) \<Rightarrow> 'a list \<Rightarrow> 's \<Rightarrow> 'e + 's" where
  "result_fold f [] s = Inr s"
| "result_fold f (x # xs) s = result_bind (f x s) (result_fold f xs)"

text \<open>\<open>Array.prototype.map\<close> with a callback that may throw: the first error wins.\<close>

fun result_map :: "('a \<Rightarrow> 'e + 'b) \<Rightarrow> 'a list \<Rightarrow> 'e + 'b list" where
  "result_map f [] = Inr []"
| "result_map f (x # xs) =
     result_bind (f x) (\<lambda>y. result_bind (result_map f xs) (\<lambda>ys. Inr (y # ys)))"

lemma result_fold_append:
  "result_fold f (xs @ ys) s = result_bind (result_fold f xs s) (result_fold f ys)"
  by (induction xs arbitrary: s) (auto simp: result_bind_def split: sum.splits)

lemma result_fold_cong [fundef_cong]:
  "xs = ys \<Longrightarrow> s = t \<Longrightarrow> (\<And>x u. x \<in> set ys \<Longrightarrow> f x u = g x u) \<Longrightarrow>
     result_fold f xs s = result_fold g ys t"
  by (induction xs arbitrary: ys s t) (auto simp: result_bind_def split: sum.splits)

lemma result_fold_invariant:
  assumes "result_fold f xs s = Inr t" "I s"
    and "\<And>x u v. x \<in> set xs \<Longrightarrow> I u \<Longrightarrow> f x u = Inr v \<Longrightarrow> I v"
  shows "I t"
  using assms by (induction xs arbitrary: s) (auto simp: result_simps)

lemma result_map_Inr_iff: "result_map f xs = Inr ys \<longleftrightarrow> list_all2 (\<lambda>x y. f x = Inr y) xs ys"
proof (induction xs arbitrary: ys)
  case Nil
  then show ?case by auto
next
  case (Cons x xs)
  then show ?case by (cases ys) (auto simp: result_simps)
qed

lemma list_all2_origin: "list_all2 P xs ys \<Longrightarrow> y \<in> set ys \<Longrightarrow> \<exists>x \<in> set xs. P x y"
  by (induction rule: list_all2_induct) auto

lemma list_all2_image: "list_all2 P xs ys \<Longrightarrow> x \<in> set xs \<Longrightarrow> \<exists>y \<in> set ys. P x y"
  by (induction rule: list_all2_induct) auto

lemma list_all2_map_eq: "list_all2 P xs ys \<Longrightarrow> (\<And>x y. P x y \<Longrightarrow> f x = g y) \<Longrightarrow> map f xs = map g ys"
  by (induction rule: list_all2_induct) auto

lemma result_map_Inr_length: "result_map f xs = Inr ys \<Longrightarrow> length ys = length xs"
  by (auto simp: result_map_Inr_iff dest: list_all2_lengthD)

lemma result_map_total: "(\<And>x. x \<in> set xs \<Longrightarrow> f x = Inr (g x)) \<Longrightarrow> result_map f xs = Inr (map g xs)"
  by (induction xs) auto

section \<open>Strings\<close>

text \<open>White space of \<open>String.prototype.trim\<close>, among the code units below 256.\<close>

definition is_space :: "char \<Rightarrow> bool" where
  "is_space c \<longleftrightarrow> of_char c \<in> {9, 10, 11, 12, 13, 32, 160 :: nat}"

text \<open>\<open>s.trim() === ""\<close>\<close>

definition blank :: "string \<Rightarrow> bool" where
  "blank s \<longleftrightarrow> list_all is_space s"

definition starts_with :: "string \<Rightarrow> string \<Rightarrow> bool" where
  "starts_with p s \<longleftrightarrow> take (length p) s = p"

definition ends_with :: "string \<Rightarrow> string \<Rightarrow> bool" where
  "ends_with p s \<longleftrightarrow> starts_with (rev p) (rev s)"

text \<open>\<open>s.split(sep)\<close> for a one-character separator: always at least one part.\<close>

fun split_on :: "char \<Rightarrow> string \<Rightarrow> string list" where
  "split_on c [] = [[]]"
| "split_on c (x # xs) =
     (if x = c then [] # split_on c xs
      else case split_on c xs of p # ps \<Rightarrow> (x # p) # ps | [] \<Rightarrow> [[x]])"

fun join_with :: "string \<Rightarrow> string list \<Rightarrow> string" where
  "join_with sep [] = []"
| "join_with sep [p] = p"
| "join_with sep (p # q # ps) = p @ sep @ join_with sep (q # ps)"

lemma blank_Nil [simp]: "blank []"
  by (simp add: blank_def)

lemma starts_with_iff: "starts_with p s \<longleftrightarrow> (\<exists>r. s = p @ r)"
  unfolding starts_with_def by (metis append_eq_conv_conj append_take_drop_id)

lemma starts_with_append [simp]: "starts_with p (p @ s)"
  by (simp add: starts_with_def)

lemma split_on_neq_Nil [simp]: "split_on c s \<noteq> []"
  by (induction s) (auto split: list.splits)

lemma join_split_on: "join_with [c] (split_on c s) = s"
proof (induction s)
  case Nil
  then show ?case by simp
next
  case (Cons x xs)
  obtain p ps where ps: "split_on c xs = p # ps" by (cases "split_on c xs") auto
  with Cons show ?case by (cases ps) auto
qed

text \<open>\<open>s.includes(p)\<close>, and lower case of ASCII letters.\<close>

fun contains_text :: "string \<Rightarrow> string \<Rightarrow> bool" where
  "contains_text p [] = (p = [])"
| "contains_text p (c # s) = (starts_with p (c # s) \<or> contains_text p s)"

definition ascii_lower :: "string \<Rightarrow> string" where
  "ascii_lower s = map (\<lambda>c. let n = of_char c :: nat in if 65 \<le> n \<and> n \<le> 90 then char_of (n + 32) else c) s"

text \<open>\<open>toLowerCase\<close> on the code units below 256, and \<open>trim\<close>.\<close>

definition to_lower :: "string \<Rightarrow> string" where
  "to_lower s = map (\<lambda>c. let n = of_char c :: nat in
     if 65 \<le> n \<and> n \<le> 90 \<or> 192 \<le> n \<and> n \<le> 222 \<and> n \<noteq> 215 then char_of (n + 32) else c) s"

definition trim :: "string \<Rightarrow> string" where
  "trim s = rev (dropWhile is_space (rev (dropWhile is_space s)))"

text \<open>\<open>s.split("/", 1)[0]\<close>\<close>

definition first_part :: "char \<Rightarrow> string \<Rightarrow> string" where
  "first_part c s = takeWhile (\<lambda>x. x \<noteq> c) s"

lemma hd_split_on: "hd (split_on c s) = first_part c s"
  by (induction s) (auto simp: first_part_def split: list.splits)

text \<open>Decimal notation of a natural number, as in a template literal.\<close>

fun nat_string :: "nat \<Rightarrow> string" where
  "nat_string n = (if n < 10 then [char_of (48 + n)] else nat_string (n div 10) @ [char_of (48 + n mod 10)])"

declare nat_string.simps [simp del]

definition digits_value :: "string \<Rightarrow> nat" where
  "digits_value s = foldl (\<lambda>a c. 10 * a + (of_char c - 48)) 0 s"

lemma digits_value_nat_string: "digits_value (nat_string n) = n"
proof (induction n rule: nat_string.induct)
  case (1 n)
  have digit: "(of_char (char_of (48 + k) :: char) :: nat) = 48 + k" if "k < 10" for k :: nat
    using that by (simp add: of_char_of)
  show ?case
  proof (cases "n < 10")
    case True
    then show ?thesis using digit [of n] by (subst nat_string.simps) (simp add: digits_value_def)
  next
    case False
    then have "digits_value (nat_string n) = 10 * digits_value (nat_string (n div 10)) + n mod 10"
      using digit [of "n mod 10"] by (subst nat_string.simps) (simp add: digits_value_def)
    with 1 False show ?thesis by simp
  qed
qed

lemma inj_nat_string: "inj nat_string"
  by (rule inj_on_inverseI [where g = digits_value]) (rule digits_value_nat_string)

section \<open>Numbers\<close>

text \<open>
  A JavaScript number: a finite value, an infinity or not-a-number. Finite values are
  rationals; the code's arithmetic on them stays within the safe integers.
\<close>

datatype number = Fin rat | PosInf | NegInf | NaN

definition max_safe :: int where
  "max_safe = 9007199254740991"

text \<open>\<open>Number.isSafeInteger\<close>\<close>

fun safe_integer :: "number \<Rightarrow> bool" where
  "safe_integer (Fin r) \<longleftrightarrow> of_int \<lfloor>r\<rfloor> = r \<and> \<bar>\<lfloor>r\<rfloor>\<bar> \<le> max_safe"
| "safe_integer _ \<longleftrightarrow> False"

fun int_of_number :: "number \<Rightarrow> int" where
  "int_of_number (Fin r) = \<lfloor>r\<rfloor>"
| "int_of_number _ = 0"

definition num :: "int \<Rightarrow> number" where
  "num i = Fin (of_int i)"

fun num_less :: "number \<Rightarrow> number \<Rightarrow> bool" where
  "num_less NaN _ = False"
| "num_less _ NaN = False"
| "num_less PosInf _ = False"
| "num_less _ NegInf = False"
| "num_less NegInf _ = True"
| "num_less _ PosInf = True"
| "num_less (Fin a) (Fin b) = (a < b)"

fun num_finite :: "number \<Rightarrow> bool" where
  "num_finite (Fin _) = True"
| "num_finite _ = False"

definition num_le :: "number \<Rightarrow> number \<Rightarrow> bool" where
  "num_le a b \<longleftrightarrow> num_less a b \<or> (a = b \<and> a \<noteq> NaN)"

lemma safe_integer_num [simp]: "safe_integer (num i) \<longleftrightarrow> \<bar>i\<bar> \<le> max_safe"
  by (simp add: num_def)

lemma int_of_num [simp]: "int_of_number (num i) = i"
  by (simp add: num_def)

lemma num_less_num [simp]: "num_less (num i) (num j) \<longleftrightarrow> i < j"
  by (simp add: num_def)

lemma num_le_num [simp]: "num_le (num i) (num j) \<longleftrightarrow> i \<le> j"
  by (auto simp: num_le_def num_def)

lemma num_finite_num [simp]: "num_finite (num i)"
  by (simp add: num_def)

lemma safe_integerE:
  assumes "safe_integer n"
  obtains i where "n = num i" "\<bar>i\<bar> \<le> max_safe"
  using assms by (cases n) (auto simp: num_def)

lemma num_inject [simp]: "num i = num j \<longleftrightarrow> i = j"
  by (simp add: num_def)

lemma num_neq_NaN [simp]: "num i \<noteq> NaN" "num i \<noteq> PosInf" "num i \<noteq> NegInf"
  by (simp_all add: num_def)

section \<open>Sets and maps in insertion order\<close>

text \<open>\<open>Set.add\<close> and \<open>[...new Set(xs)]\<close>\<close>

definition set_add :: "'a \<Rightarrow> 'a list \<Rightarrow> 'a list" where
  "set_add x xs = (if x \<in> set xs then xs else xs @ [x])"

definition uniq :: "'a list \<Rightarrow> 'a list" where
  "uniq xs = fold set_add xs []"

lemma set_set_add [simp]: "set (set_add x xs) = insert x (set xs)"
  by (auto simp: set_add_def)

lemma distinct_set_add [simp]: "distinct (set_add x xs) \<longleftrightarrow> distinct xs"
  by (auto simp: set_add_def)

lemma set_fold_set_add: "set (fold set_add xs ys) = set xs \<union> set ys"
  by (induction xs arbitrary: ys) auto

lemma distinct_fold_set_add: "distinct (fold set_add xs ys) \<longleftrightarrow> distinct ys"
  by (induction xs arbitrary: ys) auto

lemma set_uniq [simp]: "set (uniq xs) = set xs"
  by (simp add: uniq_def set_fold_set_add)

lemma distinct_uniq [simp]: "distinct (uniq xs)"
  by (simp add: uniq_def distinct_fold_set_add)

lemma length_uniq_le: "length (uniq xs) \<le> length xs"
  by (metis distinct_card distinct_uniq card_length set_uniq)

lemma length_uniq_card: "length (uniq xs) = card (set xs)"
  by (metis distinct_card distinct_uniq set_uniq)

text \<open>\<open>new Set(xs).size !== xs.length\<close> detects a repetition.\<close>

lemma length_uniq_eq_iff: "length (uniq xs) = length xs \<longleftrightarrow> distinct xs"
  by (metis length_uniq_card card_distinct distinct_card)

text \<open>\<open>Map.set\<close> is \<open>AList.update\<close>, \<open>Map.delete\<close> is \<open>AList.delete\<close>, \<open>Map.get\<close> is \<open>map_of\<close>.\<close>

lemma map_of_update [simp]: "map_of (AList.update k v m) = (map_of m)(k \<mapsto> v)"
  by (rule update_conv')

lemma map_of_delete [simp]: "map_of (AList.delete k m) = (map_of m)(k := None)"
  by (rule delete_conv')

lemma distinct_keys_update [simp]: "distinct (map fst m) \<Longrightarrow> distinct (map fst (AList.update k v m))"
  by (rule distinct_update)

lemma distinct_keys_delete [simp]: "distinct (map fst m) \<Longrightarrow> distinct (map fst (AList.delete k m))"
  by (rule distinct_delete)

lemma keys_update [simp]: "set (map fst (AList.update k v m)) = insert k (set (map fst m))"
  by (induction m) auto

lemma keys_update_image [simp]: "fst ` set (AList.update k v m) = insert k (fst ` set m)"
  using keys_update [of k v m] by (simp only: set_map)

lemma map_of_SomeD_key: "map_of m k = Some v \<Longrightarrow> k \<in> fst ` set m"
  by (force dest: map_of_SomeD)

text \<open>Updating an existing key keeps the order of the keys.\<close>

lemma map_fst_update_in: "k \<in> fst ` set m \<Longrightarrow> map fst (AList.update k v m) = map fst m"
  by (induction m) auto

lemma map_fst_update_notin: "k \<notin> fst ` set m \<Longrightarrow> AList.update k v m = m @ [(k, v)]"
  by (induction m) auto

section \<open>Sorting\<close>

text \<open>
  \<open>Array.prototype.sort\<close> with a comparator is stable. \<open>sort_by le\<close> is the stable sort
  for the comparator with \<open>le a b\<close> iff \<open>compare(a, b) <= 0\<close>.
\<close>

fun insort_by :: "('a \<Rightarrow> 'a \<Rightarrow> bool) \<Rightarrow> 'a \<Rightarrow> 'a list \<Rightarrow> 'a list" where
  "insort_by le x [] = [x]"
| "insort_by le x (y # ys) = (if le x y then x # y # ys else y # insort_by le x ys)"

definition sort_by :: "('a \<Rightarrow> 'a \<Rightarrow> bool) \<Rightarrow> 'a list \<Rightarrow> 'a list" where
  "sort_by le xs = foldr (insort_by le) xs []"

lemma sort_by_simps [simp]:
  "sort_by le [] = []"
  "sort_by le (x # xs) = insort_by le x (sort_by le xs)"
  by (simp_all add: sort_by_def)

lemma mset_insort_by [simp]: "mset (insort_by le x xs) = add_mset x (mset xs)"
  by (induction xs) auto

lemma mset_sort_by [simp]: "mset (sort_by le xs) = mset xs"
  by (induction xs) auto

lemma set_sort_by [simp]: "set (sort_by le xs) = set xs"
  by (metis mset_sort_by set_mset_mset)

lemma length_sort_by [simp]: "length (sort_by le xs) = length xs"
  by (metis mset_sort_by size_mset)

lemma distinct_sort_by [simp]: "distinct (sort_by le xs) \<longleftrightarrow> distinct xs"
  by (metis mset_sort_by mset_eq_imp_distinct_iff)

lemma distinct_map_sort_by [simp]: "distinct (map f (sort_by le xs)) \<longleftrightarrow> distinct (map f xs)"
  by (metis mset_eq_imp_distinct_iff mset_map mset_sort_by)

lemma map_of_sort_by:
  assumes "distinct (map fst xs)"
  shows "map_of (sort_by le xs) = map_of xs"
proof
  fix k
  show "map_of (sort_by le xs) k = map_of xs k"
    using assms
    by (metis (no_types) distinct_map_sort_by map_of_eq_Some_iff option.exhaust set_sort_by)
qed

text \<open>
  What sorting relies on: the comparator is a total preorder. ECMA-402 requires it of
  \<open>localeCompare\<close>; two different strings may compare equal.
\<close>

locale total_preorder =
  fixes le :: "'a \<Rightarrow> 'a \<Rightarrow> bool"
  assumes total: "le x y \<or> le y x"
    and trans: "le x y \<Longrightarrow> le y z \<Longrightarrow> le x z"
begin

lemma refl: "le x x"
  using total by blast

lemma sorted_insort_by: "sorted_wrt le xs \<Longrightarrow> sorted_wrt le (insort_by le x xs)"
proof (induction xs)
  case Nil
  then show ?case by simp
next
  case (Cons y ys)
  have "set (insort_by le x ys) = insert x (set ys)"
    by (metis mset_insort_by set_mset_add_mset_insert set_mset_mset)
  with Cons show ?case using total trans by auto
qed

lemma sorted_sort_by: "sorted_wrt le (sort_by le xs)"
  by (induction xs) (auto intro: sorted_insort_by)

lemma insort_by_min: "\<forall>y \<in> set xs. le x y \<Longrightarrow> insort_by le x xs = x # xs"
  by (cases xs) auto

lemma sort_by_sorted: "sorted_wrt le xs \<Longrightarrow> sort_by le xs = xs"
  by (induction xs) (auto simp: insort_by_min)

lemma sort_by_idem: "sort_by le (sort_by le xs) = sort_by le xs"
  by (rule sort_by_sorted) (rule sorted_sort_by)

end

text \<open>Sorting records by a key inherits the order of the keys.\<close>

definition on_key :: "('k \<Rightarrow> 'k \<Rightarrow> bool) \<Rightarrow> ('a \<Rightarrow> 'k) \<Rightarrow> 'a \<Rightarrow> 'a \<Rightarrow> bool" where
  "on_key le f x y = le (f x) (f y)"

locale keyed_preorder = total_preorder le for le :: "'k \<Rightarrow> 'k \<Rightarrow> bool" +
  fixes key :: "'a \<Rightarrow> 'k"
begin

lemma sorted_keys: "sorted_wrt le (map key (sort_by (on_key le key) xs))"
proof -
  have "total_preorder (on_key le key)"
    by unfold_locales (use total trans in \<open>auto simp: on_key_def\<close>)
  then have "sorted_wrt (on_key le key) (sort_by (on_key le key) xs)"
    by (rule total_preorder.sorted_sort_by)
  then show ?thesis by (simp add: sorted_wrt_map on_key_def [abs_def])
qed

end

interpretation code_units: total_preorder "(\<le>) :: string \<Rightarrow> string \<Rightarrow> bool"
  by unfold_locales auto

interpretation code_unit_keys: keyed_preorder "(\<le>) :: string \<Rightarrow> string \<Rightarrow> bool" "key :: 'a \<Rightarrow> string"
  for key
  by unfold_locales

text \<open>\<open>Array.prototype.sort()\<close> on strings, by code units.\<close>

definition sort_strings :: "string list \<Rightarrow> string list" where
  "sort_strings xs = sort_by (\<le>) xs"

lemma set_sort_strings [simp]: "set (sort_strings xs) = set xs"
  by (simp add: sort_strings_def)

lemma distinct_sort_strings [simp]: "distinct (sort_strings xs) \<longleftrightarrow> distinct xs"
  by (simp add: sort_strings_def)

lemma sorted_sort_strings: "sorted (sort_strings xs)"
  unfolding sort_strings_def by (rule code_units.sorted_sort_by)

text \<open>Two lists with the same elements sort to the same list: the order is antisymmetric.\<close>

lemma sort_strings_mset: "mset xs = mset ys \<Longrightarrow> sort_strings xs = sort_strings ys"
  by (metis mset_sort_by properties_for_sort sort_strings_def sorted_sort_strings)

end
