(* ===== verification/Journal.thy ===== *)
theory Journal
  imports Prelude
begin

text \<open>
  The records of a run's journal and what a restart recovers from them:
  \<open>packages/core/src/activity.ts\<close> (records), \<open>runner/events.ts\<close> (run states and events),
  \<open>runner/state-projection.ts\<close> and the projection of
  \<open>packages/persistence/src/journal-load.ts\<close>. A journal is the list of its records, oldest first.
\<close>

section \<open>Records\<close>

datatype run_state =
    CREATED | SNAPSHOTTED | PREFLIGHT_COMPLETE | DISCOVERY_RUNNING | DISCOVERY_COMPLETE
  | CLUSTERED | PEER_REVIEW_RUNNING | CONSENSUS_PRELIMINARY | VERIFYING | CONSENSUS_COMPLETE
  | PLANNING | PLAN_REVIEW | PLAN_REVISION | COMPILED | COMPLETED | FAILED | BLOCKED | CANCELLED
  | SUSPENDED_BUDGET | SUSPENDED_RATE_LIMIT

record artifact_ref =
  ref_hash :: string
  ref_length :: nat
  ref_extension :: string
  ref_path :: string

text \<open>
  \<open>ActivityRecord\<close> and \<open>RunEvent\<close>. The optional fields are options; \<open>at\<close>, which the store
  adds when it writes an event, is left to the store and is not part of a record here.
\<close>

datatype journal_record =
    AttemptStart string nat "string option"
  | AttemptError string nat string
  | AttemptEnd string nat artifact_ref
  | RunTransition string run_state "string option"
  | NodeDispatched string string string
  | NodeCompleted string string string bool
  | HostSuspended string string string

section \<open>Projections\<close>

record runner_projection =
  proj_state :: run_state
  proj_completed :: "(string \<times> artifact_ref) list"
  proj_attempts :: "(string \<times> nat) list"
  proj_nodes :: "string list"

fun next_run_state :: "journal_record \<Rightarrow> run_state \<Rightarrow> run_state" where
  "next_run_state (RunTransition _ st _) s = st"
| "next_run_state _ s = s"

definition project_run_state :: "journal_record list \<Rightarrow> run_state" where
  "project_run_state rs = fold next_run_state rs CREATED"

definition get_or :: "'v \<Rightarrow> ('k \<times> 'v) list \<Rightarrow> 'k \<Rightarrow> 'v" where
  "get_or d m k = (case map_of m k of None \<Rightarrow> d | Some v \<Rightarrow> v)"

fun note_attempt :: "journal_record \<Rightarrow> (string \<times> nat) list \<Rightarrow> (string \<times> nat) list" where
  "note_attempt (AttemptStart i n _) m = AList.update i (max (get_or 0 m i) n) m"
| "note_attempt _ m = m"

fun note_end :: "journal_record \<Rightarrow> (string \<times> artifact_ref) list \<Rightarrow> (string \<times> artifact_ref) list" where
  "note_end (AttemptEnd i _ a) m = AList.update i a m"
| "note_end _ m = m"

fun note_node :: "journal_record \<Rightarrow> string list \<Rightarrow> string list" where
  "note_node (NodeCompleted _ n _ _) ns = set_add n ns"
| "note_node _ ns = ns"

definition project_runner :: "journal_record list \<Rightarrow> runner_projection" where
  "project_runner rs =
     \<lparr>proj_state = project_run_state rs,
      proj_completed = fold note_end rs [],
      proj_attempts = fold note_attempt rs [],
      proj_nodes = fold note_node rs []\<rparr>"

text \<open>
  \<open>projectJournal\<close> of the persistence package: the same loop with an \<open>if/else if\<close> chain
  over the activity records only.
\<close>

definition project_journal ::
  "journal_record list \<Rightarrow> (string \<times> artifact_ref) list \<times> (string \<times> nat) list" where
  "project_journal rs =
     fold (\<lambda>r (completed, attempts).
       (case r of
          AttemptStart i n _ \<Rightarrow> (completed, AList.update i (max (get_or 0 attempts i) n) attempts)
        | AttemptEnd i _ a \<Rightarrow> (AList.update i a completed, attempts)
        | _ \<Rightarrow> (completed, attempts))) rs ([], [])"

section \<open>What the projections compute\<close>

text \<open>The values a record gives the key \<open>i\<close>, as lists over the journal.\<close>

fun attempt_of :: "string \<Rightarrow> journal_record \<Rightarrow> nat option" where
  "attempt_of i (AttemptStart j n _) = (if j = i then Some n else None)"
| "attempt_of _ _ = None"

fun end_of :: "string \<Rightarrow> journal_record \<Rightarrow> artifact_ref option" where
  "end_of i (AttemptEnd j _ a) = (if j = i then Some a else None)"
| "end_of _ _ = None"

fun transition_of :: "journal_record \<Rightarrow> run_state option" where
  "transition_of (RunTransition _ st _) = Some st"
| "transition_of _ = None"

fun completed_node_of :: "journal_record \<Rightarrow> string option" where
  "completed_node_of (NodeCompleted _ n _ _) = Some n"
| "completed_node_of _ = None"

definition last_or :: "'a \<Rightarrow> 'a list \<Rightarrow> 'a" where
  "last_or d xs = (if xs = [] then d else last xs)"

lemma last_or_simps [simp]: "last_or d [] = d" "last_or d (xs @ [x]) = x"
  by (simp_all add: last_or_def)

lemma last_or_Cons: "last_or d (x # xs) = last_or x xs"
  by (simp add: last_or_def)

lemma fold_next_run_state: "fold next_run_state rs s = last_or s (List.map_filter transition_of rs)"
proof (induction rs arbitrary: s)
  case Nil
  then show ?case by (simp add: List.map_filter_simps)
next
  case (Cons r rs)
  then show ?case by (cases r) (simp_all add: List.map_filter_simps last_or_Cons)
qed

lemma project_run_state_append:
  "project_run_state (rs @ qs) = last_or (project_run_state rs) (List.map_filter transition_of qs)"
  by (simp add: project_run_state_def fold_next_run_state [of qs])

lemma Max_insert_max: "finite A \<Longrightarrow> Max (insert (max a b) A) = Max (insert a (insert b A))"
  for a b :: nat
  by (cases "A = {}") (simp_all add: max.assoc)

lemma get_or_note_attempt:
  "get_or 0 (note_attempt r m) i =
     (case attempt_of i r of None \<Rightarrow> get_or 0 m i | Some n \<Rightarrow> max (get_or 0 m i) n)"
  by (cases r) (auto simp: get_or_def)

lemma note_attempt_get:
  "get_or 0 (fold note_attempt rs m) i = Max (insert (get_or 0 m i) (set (List.map_filter (attempt_of i) rs)))"
proof (induction rs arbitrary: m)
  case Nil
  then show ?case by (simp add: List.map_filter_simps)
next
  case (Cons r rs)
  show ?case
  proof (cases "attempt_of i r")
    case None
    then show ?thesis by (simp add: Cons.IH get_or_note_attempt List.map_filter_simps)
  next
    case (Some n)
    then have "get_or 0 (fold note_attempt (r # rs) m) i
        = Max (insert (max (get_or 0 m i) n) (set (List.map_filter (attempt_of i) rs)))"
      by (simp add: Cons.IH get_or_note_attempt)
    also have "\<dots> = Max (insert (get_or 0 m i) (insert n (set (List.map_filter (attempt_of i) rs))))"
      by (rule Max_insert_max) simp
    finally show ?thesis using Some by (simp add: List.map_filter_simps)
  qed
qed

lemma note_end_get:
  "map_of (fold note_end rs m) i =
     (let es = List.map_filter (end_of i) rs in if es = [] then map_of m i else Some (last es))"
proof (induction rs arbitrary: m)
  case Nil
  then show ?case by (simp add: List.map_filter_simps)
next
  case (Cons r rs)
  then show ?case by (cases r) (auto simp: List.map_filter_simps Let_def)
qed

lemma note_node_set: "set (fold note_node rs ns) = set ns \<union> set (List.map_filter completed_node_of rs)"
proof (induction rs arbitrary: ns)
  case Nil
  then show ?case by (simp add: List.map_filter_simps)
next
  case (Cons r rs)
  then show ?case by (cases r) (auto simp: List.map_filter_simps)
qed

text \<open>A completion is known exactly when the journal holds an end record.\<close>

lemma completed_iff_end:
  "i \<in> dom (map_of (proj_completed (project_runner rs))) \<longleftrightarrow> (\<exists>n a. AttemptEnd i n a \<in> set rs)"
proof -
  have "List.map_filter (end_of i) rs = [] \<longleftrightarrow> (\<forall>n a. AttemptEnd i n a \<notin> set rs)"
  proof (induction rs)
    case Nil
    then show ?case by (simp add: List.map_filter_simps)
  next
    case (Cons r rs)
    then show ?case by (cases r) (auto simp: List.map_filter_simps)
  qed
  then show ?thesis by (auto simp: project_runner_def note_end_get Let_def)
qed

lemma project_journal_runner:
  "project_journal rs = (proj_completed (project_runner rs), proj_attempts (project_runner rs))"
proof -
  let ?step = "\<lambda>r (completed, attempts).
       (case r of
          AttemptStart i n x \<Rightarrow> (completed, AList.update i (max (get_or 0 attempts i) n) attempts)
        | AttemptEnd i n a \<Rightarrow> (AList.update i a completed, attempts)
        | _ \<Rightarrow> (completed, attempts))"
  have "fold ?step rs (c, a) = (fold note_end rs c, fold note_attempt rs a)" for c a
  proof (induction rs arbitrary: c a)
    case Nil
    then show ?case by simp
  next
    case (Cons r rs)
    then show ?case by (cases r) simp_all
  qed
  then show ?thesis by (simp add: project_journal_def project_runner_def)
qed

end
