(* ===== verification/Json.thy ===== *)
theory Json
  imports Prelude
begin

text \<open>
  JSON values and their canonical text: \<open>packages/persistence/src/canonical-json.ts\<close> and
  the identity serialiser of \<open>packages/core/src/activity-id.ts\<close>, which agree on JSON data.
  Two functions of the host are parameters: \<open>nfc\<close> (\<open>String.prototype.normalize\<close>) and
  \<open>numstr\<close> (the shortest decimal text of a finite number).
\<close>

section \<open>Values\<close>

text \<open>
  \<open>JOther\<close> stands for a value JSON cannot represent: \<open>undefined\<close>, a function, a symbol,
  an array hole or an object that is not plain. An object lists its own enumerable keys
  in insertion order.
\<close>

datatype json =
    JNull
  | JBool bool
  | JNum number
  | JStr string
  | JArr "json list"
  | JObj "(string \<times> json) list"
  | JOther

lemma size_json_list: "x \<in> set xs \<Longrightarrow> size x < Suc (size_list size xs)"
  by (induction xs) auto

lemma size_json_entry: "(k, v) \<in> set es \<Longrightarrow> size v < Suc (size_list (size_prod (\<lambda>_. 0) size) es)"
  by (induction es) auto

section \<open>JSON.stringify of a string\<close>

definition hex_digit :: "nat \<Rightarrow> char" where
  "hex_digit n = (if n < 10 then char_of (48 + n) else char_of (87 + n))"

definition escape_char :: "char \<Rightarrow> string" where
  "escape_char c =
     (let n = of_char c :: nat in
      if n = 34 then [CHR 0x5C, CHR 0x22]
      else if n = 92 then [CHR 0x5C, CHR 0x5C]
      else if n = 8 then [CHR 0x5C, CHR ''b'']
      else if n = 9 then [CHR 0x5C, CHR ''t'']
      else if n = 10 then [CHR 0x5C, CHR ''n'']
      else if n = 12 then [CHR 0x5C, CHR ''f'']
      else if n = 13 then [CHR 0x5C, CHR ''r'']
      else if n < 32 then [CHR 0x5C, CHR ''u'', CHR ''0'', CHR ''0'', hex_digit (n div 16), hex_digit (n mod 16)]
      else [c])"

definition quote :: "string \<Rightarrow> string" where
  "quote s = CHR 0x22 # concat (map escape_char s) @ [CHR 0x22]"

section \<open>Canonical serialisation\<close>

datatype json_error = NonFiniteNumber | NotJson | CollidingKeys

text \<open>Two neighbours of the sorted entries with one key.\<close>

fun adjacent_equal :: "'a list \<Rightarrow> bool" where
  "adjacent_equal (x # y # zs) \<longleftrightarrow> x = y \<or> adjacent_equal (y # zs)"
| "adjacent_equal _ \<longleftrightarrow> False"

definition sorted_entries :: "(string \<Rightarrow> string) \<Rightarrow> (string \<times> 'v) list \<Rightarrow> (string \<times> 'v) list" where
  "sorted_entries nfc es = sort_by (on_key (\<le>) fst) (map (\<lambda>(k, v). (nfc k, v)) es)"

lemma result_map_cong [fundef_cong]:
  "xs = ys \<Longrightarrow> (\<And>x. x \<in> set ys \<Longrightarrow> f x = g x) \<Longrightarrow> result_map f xs = result_map g ys"
  by (induction xs arbitrary: ys) auto

function canon :: "(string \<Rightarrow> string) \<Rightarrow> (number \<Rightarrow> string) \<Rightarrow> json \<Rightarrow> json_error + string" where
  "canon nfc numstr JNull = Inr ''null''"
| "canon nfc numstr (JBool b) = Inr (if b then ''true'' else ''false'')"
| "canon nfc numstr (JNum n) = (if num_finite n then Inr (numstr n) else Inl NonFiniteNumber)"
| "canon nfc numstr (JStr s) = Inr (quote (nfc s))"
| "canon nfc numstr (JArr xs) =
     result_bind (result_map (canon nfc numstr) xs) (\<lambda>ts. Inr (''['' @ join_with '','' ts @ '']''))"
| "canon nfc numstr (JObj es) =
     (let entries = sorted_entries nfc es in
      if adjacent_equal (map fst entries) then Inl CollidingKeys
      else result_bind
        (result_map (\<lambda>e. result_bind (canon nfc numstr (snd e)) (\<lambda>t. Inr (quote (fst e) @ '':'' @ t))) entries)
        (\<lambda>ts. Inr (''{'' @ join_with '','' ts @ ''}'')))"
| "canon nfc numstr JOther = Inl NotJson"
  by pat_completeness auto
termination
proof (relation "measure (\<lambda>(_, _, j). size j)", goal_cases)
  case 1
  then show ?case by simp
next
  case (2 nfc numstr xs x)
  then show ?case by (simp add: size_json_list)
next
  case (3 nfc numstr es entries e)
  then obtain k where "(k, snd e) \<in> set es"
    by (cases e) (auto simp: sorted_entries_def)
  then show ?case by (auto dest: size_json_entry)
qed

section \<open>Reading a quoted string back\<close>

definition hex_value :: "char \<Rightarrow> nat" where
  "hex_value c = (let n = of_char c in if n < 58 then n - 48 else n - 87)"

fun unescape :: "string \<Rightarrow> (char \<times> string) option" where
  "unescape [] = None"
| "unescape (x # xs) =
     (if x = CHR 0x22 then None
      else if x \<noteq> CHR 0x5C then Some (x, xs)
      else case xs of
        [] \<Rightarrow> None
      | y # ys \<Rightarrow>
          if y = CHR ''b'' then Some (char_of (8 :: nat), ys)
          else if y = CHR ''t'' then Some (char_of (9 :: nat), ys)
          else if y = CHR ''n'' then Some (char_of (10 :: nat), ys)
          else if y = CHR ''f'' then Some (char_of (12 :: nat), ys)
          else if y = CHR ''r'' then Some (char_of (13 :: nat), ys)
          else if y = CHR ''u'' then
            (case ys of _ # _ # h # l # r \<Rightarrow> Some (char_of (16 * hex_value h + hex_value l), r) | _ \<Rightarrow> None)
          else Some (y, ys))"

lemma hex_value_digit: "k < 16 \<Longrightarrow> hex_value (hex_digit k) = k"
  by (auto simp: hex_value_def hex_digit_def Let_def)

lemma unescape_escape: "unescape (escape_char c @ r) = Some (c, r)"
proof -
  obtain n where n: "n = (of_char c :: nat)" and c: "c = char_of n" and lt: "n < 256"
    by (metis char_of_char nat_of_char_less_256)
  consider "n \<in> {8, 9, 10, 12, 13, 34, 92}" | "n < 32" "n \<notin> {8, 9, 10, 12, 13, 34, 92}"
    | "n \<ge> 32" "n \<notin> {34, 92}" by fastforce
  then show ?thesis
  proof cases
    case 1
    moreover have "char_of (34 :: nat) = CHR 0x22" "char_of (92 :: nat) = CHR 0x5C"
      by code_simp+
    ultimately show ?thesis unfolding c by (auto simp: escape_char_def)
  next
    case 2
    then have "hex_value (hex_digit (n div 16)) = n div 16" "hex_value (hex_digit (n mod 16)) = n mod 16"
      by (simp_all add: hex_value_digit)
    moreover have "16 * (n div 16) + n mod 16 = n" by simp
    moreover have "escape_char c
        = [CHR 0x5C, CHR ''u'', CHR ''0'', CHR ''0'', hex_digit (n div 16), hex_digit (n mod 16)]"
      using 2 n by (simp add: escape_char_def Let_def)
    ultimately show ?thesis using c by simp
  next
    case 3
    then have "escape_char c = [c]" using n by (simp add: escape_char_def)
    moreover have "c \<noteq> CHR 0x22" "c \<noteq> CHR 0x5C" using 3 n by auto
    ultimately show ?thesis by simp
  qed
qed

fun unescape_all :: "string \<Rightarrow> string \<Rightarrow> string \<Rightarrow> bool" where
  "unescape_all [] r w \<longleftrightarrow> w = CHR 0x22 # r"
| "unescape_all (c # cs) r w \<longleftrightarrow> (\<exists>w'. unescape w = Some (c, w') \<and> unescape_all cs r w')"

lemma unescape_all_escape: "unescape_all s r (concat (map escape_char s) @ CHR 0x22 # r)"
  by (induction s) (simp_all add: unescape_escape)

lemma unescape_all_unique: "unescape_all s r w \<Longrightarrow> unescape_all t q w \<Longrightarrow> s = t \<and> r = q"
proof (induction s arbitrary: t w)
  case Nil
  then show ?case by (cases t) auto
next
  case (Cons c cs)
  then show ?case by (cases t) auto
qed

lemma quote_append_inject: "quote s @ r = quote t @ q \<longleftrightarrow> s = t \<and> r = q"
proof
  assume "quote s @ r = quote t @ q"
  then have "concat (map escape_char s) @ CHR 0x22 # r = concat (map escape_char t) @ CHR 0x22 # q"
    by (simp add: quote_def)
  then show "s = t \<and> r = q"
    using unescape_all_escape unescape_all_unique by metis
qed simp

lemma quote_inject [simp]: "quote s = quote t \<longleftrightarrow> s = t"
  using quote_append_inject [of s "[]" t "[]"] by simp


section \<open>Key order does not matter\<close>

lemma adjacent_equal_sorted:
  fixes xs :: "string list"
  assumes "sorted xs"
  shows "adjacent_equal xs \<longleftrightarrow> \<not> distinct xs"
  using assms
proof (induction xs rule: adjacent_equal.induct)
  case (1 x y zs)
  then show ?case by (auto simp: order_le_less dest: order_antisym)
qed auto

lemma sorted_entries_keys: "sorted (map fst (sorted_entries nfc es))"
  unfolding sorted_entries_def by (rule code_unit_keys.sorted_keys)

lemma sorted_entries_unique:
  assumes "mset es = mset fs" "distinct (map fst (sorted_entries nfc es))"
  shows "sorted_entries nfc es = sorted_entries nfc fs"
proof -
  have m: "mset (sorted_entries nfc es) = mset (sorted_entries nfc fs)"
    using assms(1) by (simp add: sorted_entries_def)
  then have "distinct (map fst (sorted_entries nfc fs))"
    using assms(2) by (metis mset_eq_imp_distinct_iff mset_map)
  moreover have "map fst (sorted_entries nfc es) = map fst (sorted_entries nfc fs)"
    using m sorted_entries_keys by (metis mset_map properties_for_sort)
  ultimately show ?thesis
    using m assms(2)
    by (metis (no_types, lifting) distinct_map inj_onD list.inj_map_strong mset_eq_setD)
qed

text \<open>A value has canonical text when its parts have, and then its parts have.\<close>

lemma canon_arr_iff: "(\<exists>t. canon nfc numstr (JArr xs) = Inr t) \<longleftrightarrow> (\<forall>x \<in> set xs. \<exists>t. canon nfc numstr x = Inr t)"
proof
  assume "\<exists>t. canon nfc numstr (JArr xs) = Inr t"
  then show "\<forall>x \<in> set xs. \<exists>t. canon nfc numstr x = Inr t" by (auto simp: result_simps result_map_Inr_iff dest: list_all2_image)
next
  assume "\<forall>x \<in> set xs. \<exists>t. canon nfc numstr x = Inr t"
  then obtain f where "\<And>x. x \<in> set xs \<Longrightarrow> canon nfc numstr x = Inr (f x)" by metis
  then show "\<exists>t. canon nfc numstr (JArr xs) = Inr t" by (simp add: result_map_total)
qed

lemma canon_obj_part: "canon nfc numstr (JObj es) = Inr t \<Longrightarrow> (k, v) \<in> set es \<Longrightarrow> \<exists>u. canon nfc numstr v = Inr u"
proof -
  assume a: "canon nfc numstr (JObj es) = Inr t" "(k, v) \<in> set es"
  then have "(nfc k, v) \<in> set (sorted_entries nfc es)" by (force simp: sorted_entries_def)
  with a(1) show ?thesis by (auto simp: Let_def result_simps result_map_Inr_iff split: if_splits dest!: list_all2_image)
qed

lemma canon_obj_total:
  assumes "distinct (map (\<lambda>e. nfc (fst e)) es)" "\<And>e. e \<in> set es \<Longrightarrow> \<exists>u. canon nfc numstr (snd e) = Inr u"
  shows "\<exists>t. canon nfc numstr (JObj es) = Inr t"
proof -
  have keys: "mset (map fst (sorted_entries nfc es)) = mset (map (\<lambda>e. nfc (fst e)) es)"
    by (simp add: sorted_entries_def split_beta image_mset.compositionality comp_def)
  then have "distinct (map fst (sorted_entries nfc es))" using assms(1) by (metis mset_eq_imp_distinct_iff)
  then have "\<not> adjacent_equal (map fst (sorted_entries nfc es))" using adjacent_equal_sorted sorted_entries_keys by metis
  moreover have "\<exists>u. canon nfc numstr (snd e) = Inr u" if "e \<in> set (sorted_entries nfc es)" for e
    using that assms(2) by (auto simp: sorted_entries_def)
  then obtain f where "\<And>e. e \<in> set (sorted_entries nfc es) \<Longrightarrow> canon nfc numstr (snd e) = Inr (f e)" by metis
  then have "result_map (\<lambda>e. result_bind (canon nfc numstr (snd e)) (\<lambda>t. Inr (quote (fst e) @ '':'' @ t))) (sorted_entries nfc es)
      = Inr (map (\<lambda>e. quote (fst e) @ '':'' @ f e) (sorted_entries nfc es))"
    by (intro result_map_total) simp
  ultimately show ?thesis by (simp add: Let_def)
qed

text \<open>Two JSON values that differ only in the order of the keys of their objects.\<close>

inductive same_json :: "json \<Rightarrow> json \<Rightarrow> bool" where
  same_refl: "same_json j j"
| same_arr: "list_all2 same_json xs ys \<Longrightarrow> same_json (JArr xs) (JArr ys)"
| same_obj: "list_all2 (\<lambda>e f. fst e = fst f \<and> same_json (snd e) (snd f)) es fs \<Longrightarrow> mset fs = mset gs \<Longrightarrow>
     same_json (JObj es) (JObj gs)"

inductive_cases same_json_objE: "same_json (JObj es) j"

lemma list_all2_insort_by:
  assumes "list_all2 (\<lambda>e f. fst e = fst f \<and> P (snd e) (snd f)) xs ys" "fst e = fst f" "P (snd e) (snd f)"
  shows "list_all2 (\<lambda>e f. fst e = fst f \<and> P (snd e) (snd f))
    (insort_by (on_key le fst) e xs) (insort_by (on_key le fst) f ys)"
  using assms by (induction xs ys rule: list_all2_induct) (auto simp: on_key_def)

lemma list_all2_sorted_entries:
  assumes "list_all2 (\<lambda>e f. fst e = fst f \<and> P (snd e) (snd f)) es fs"
  shows "list_all2 (\<lambda>e f. fst e = fst f \<and> P (snd e) (snd f)) (sorted_entries nfc es) (sorted_entries nfc fs)"
  using assms
  by (induction es fs rule: list_all2_induct)
    (auto simp: sorted_entries_def list_all2_insort_by split_beta)

lemma result_map_list_all2:
  "list_all2 (\<lambda>x y. f x = f y) xs ys \<Longrightarrow> result_map f xs = result_map f ys"
  by (induction xs ys rule: list_all2_induct) auto

lemma canon_obj_permuted:
  assumes "mset es = mset fs"
  shows "canon nfc numstr (JObj es) = canon nfc numstr (JObj fs)"
proof (cases "distinct (map fst (sorted_entries nfc es))")
  case True
  from sorted_entries_unique [OF assms True] show ?thesis by simp
next
  case False
  have "mset (map fst (sorted_entries nfc es)) = mset (map fst (sorted_entries nfc fs))"
    using assms by (simp add: sorted_entries_def)
  then have "\<not> distinct (map fst (sorted_entries nfc fs))"
    using False mset_eq_imp_distinct_iff by blast
  with False show ?thesis by (simp add: adjacent_equal_sorted sorted_entries_keys)
qed

lemma canon_obj_entries:
  assumes "list_all2 (\<lambda>e f. fst e = fst f \<and> canon nfc numstr (snd e) = canon nfc numstr (snd f)) es fs"
  shows "canon nfc numstr (JObj es) = canon nfc numstr (JObj fs)"
proof -
  let ?same = "\<lambda>x y. canon nfc numstr x = canon nfc numstr y"
  have rel: "list_all2 (\<lambda>e f. fst e = fst f \<and> ?same (snd e) (snd f)) (sorted_entries nfc es) (sorted_entries nfc fs)"
    using assms by (rule list_all2_sorted_entries)
  then have "map fst (sorted_entries nfc es) = map fst (sorted_entries nfc fs)"
    by (induction rule: list_all2_induct) auto
  moreover have "result_map (\<lambda>e. result_bind (canon nfc numstr (snd e)) (\<lambda>t. Inr (quote (fst e) @ '':'' @ t)))
      (sorted_entries nfc es)
    = result_map (\<lambda>e. result_bind (canon nfc numstr (snd e)) (\<lambda>t. Inr (quote (fst e) @ '':'' @ t)))
      (sorted_entries nfc fs)"
    by (rule result_map_list_all2) (use rel in \<open>auto elim: list_all2_mono\<close>)
  ultimately show ?thesis by simp
qed

lemma canon_same_json: "same_json i j \<Longrightarrow> canon nfc numstr i = canon nfc numstr j"
proof (induction rule: same_json.induct)
  case (same_refl j)
  show ?case by simp
next
  case (same_arr xs ys)
  then have "list_all2 (\<lambda>x y. canon nfc numstr x = canon nfc numstr y) xs ys"
    by (auto elim: list_all2_mono)
  then show ?case by (simp add: result_map_list_all2)
next
  case (same_obj es fs gs)
  then have "list_all2 (\<lambda>e f. fst e = fst f \<and> canon nfc numstr (snd e) = canon nfc numstr (snd f)) es fs"
    by (auto elim: list_all2_mono)
  then have "canon nfc numstr (JObj es) = canon nfc numstr (JObj fs)" by (rule canon_obj_entries)
  with same_obj(2) show ?case by (metis canon_obj_permuted)
qed

text \<open>The text of an array of strings determines its strings, up to normalisation.\<close>

lemma canon_strings:
  "canon nfc numstr (JArr (map JStr ss)) = Inr (''['' @ join_with '','' (map (\<lambda>s. quote (nfc s)) ss) @ '']'')"
proof -
  have "result_map (canon nfc numstr) (map JStr ss) = Inr (map (\<lambda>s. quote (nfc s)) ss)"
    by (induction ss) simp_all
  then show ?thesis by simp
qed

lemma quote_neq_Nil [simp]: "quote s \<noteq> []" "[] \<noteq> quote s"
  by (simp_all add: quote_def)

lemma join_quotes_inject:
  "join_with '','' (map quote ss) = join_with '','' (map quote ts) \<Longrightarrow> ss = ts"
proof (induction ss arbitrary: ts)
  case Nil
  then show ?case by (cases ts; cases "tl ts") auto
next
  case (Cons s ss)
  have head: "\<exists>r. join_with '','' (map quote (x # xs)) = quote x @ r
      \<and> (r = [] \<longleftrightarrow> xs = []) \<and> (xs \<noteq> [] \<longrightarrow> r = '','' @ join_with '','' (map quote xs))" for x xs
    by (cases xs) auto
  show ?case
  proof (cases ts)
    case Nil
    with Cons.prems head [of s ss] show ?thesis by auto
  next
    case t: (Cons t ts')
    from head [of s ss] obtain r where r: "join_with '','' (map quote (s # ss)) = quote s @ r"
      "r = [] \<longleftrightarrow> ss = []" "ss \<noteq> [] \<longrightarrow> r = '','' @ join_with '','' (map quote ss)" by blast
    from head [of t ts'] obtain q where q: "join_with '','' (map quote (t # ts')) = quote t @ q"
      "q = [] \<longleftrightarrow> ts' = []" "ts' \<noteq> [] \<longrightarrow> q = '','' @ join_with '','' (map quote ts')" by blast
    have "quote s @ r = quote t @ q"
      using Cons.prems t unfolding r(1) [symmetric] q(1) [symmetric] by (simp only:)
    then have "s = t" and rq: "r = q" by (simp_all only: quote_append_inject)
    moreover have "ss = ts'"
    proof (cases "ss = []")
      case True
      with r(2) q(2) rq show ?thesis by simp
    next
      case False
      with r(2,3) q(2,3) rq have "join_with '','' (map quote ss) = join_with '','' (map quote ts')"
        by (metis same_append_eq)
      then show ?thesis by (rule Cons.IH)
    qed
    ultimately show ?thesis using t by simp
  qed
qed

lemma canon_strings_inject:
  assumes "canon nfc numstr (JArr (map JStr ss)) = canon nfc numstr (JArr (map JStr ts))"
  shows "map nfc ss = map nfc ts"
proof -
  from assms have "join_with '','' (map quote (map nfc ss)) = join_with '','' (map quote (map nfc ts))"
    by (simp only: canon_strings) (simp add: comp_def)
  then show ?thesis by (rule join_quotes_inject)
qed

section \<open>The host\<close>

text \<open>
  Functions of the JavaScript host and of \<open>node:crypto\<close> that the components call: Unicode
  normalisation, the text of a number, \<open>localeCompare(a, b) <= 0\<close>, the SHA-256 digest in
  hexadecimal of some bytes, and strict UTF-8 decoding followed by \<open>JSON.parse\<close>
  (\<open>None\<close> where either throws).
\<close>

record js_host =
  nfc :: "string \<Rightarrow> string"
  numstr :: "number \<Rightarrow> string"
  lc :: "string \<Rightarrow> string \<Rightarrow> bool"
  sha256 :: "string \<Rightarrow> string"
  parse_bytes :: "string \<Rightarrow> json option"

text \<open>\<open>TextEncoder.encode\<close>, on code units below 256.\<close>

definition utf8_char :: "char \<Rightarrow> string" where
  "utf8_char c =
     (let n = of_char c :: nat in
      if n < 128 then [c] else [char_of (192 + n div 64), char_of (128 + n mod 64)])"

definition utf8 :: "string \<Rightarrow> string" where
  "utf8 s = concat (map utf8_char s)"

end
