(* ===== verification/Activity.thy ===== *)
theory Activity
  imports Journal Json
begin

text \<open>
  Durable activities: \<open>packages/core/src/activity.ts\<close>. An activity runs a function once per
  identity; its result is stored as an artifact and journaled, and later calls (also those of
  a resumed run) read the artifact back instead of running the function again.

  The runtime reaches the journal and the store through two ports, here a record of
  functions over a world \<open>'w\<close>. The locale \<open>activity_ports\<close> states what the runtime
  relies on; \<open>Run_Store\<close> discharges it for the code's own store.
\<close>

section \<open>Errors a node or a port can throw\<close>

datatype run_error =
    OperatorCheckpoint string      \<comment> \<open>\<open>RunCheckpointError\<close>, with its artifact id\<close>
  | RunSuspended run_state string  \<comment> \<open>\<open>RunSuspendedError\<close>, with its state and detail\<close>
  | MissingFile string             \<comment> \<open>an error whose code is \<open>ENOENT\<close>\<close>
  | NamedError string string       \<comment> \<open>any other \<open>Error\<close>: name and message\<close>
  | Thrown string                  \<comment> \<open>a thrown value that is no \<open>Error\<close>, as text\<close>

fun describe_error :: "run_error \<Rightarrow> string" where
  "describe_error (OperatorCheckpoint a) = ''RunCheckpointError: OPERATOR_CHECKPOINT:'' @ a"
| "describe_error (RunSuspended _ d) = ''RunSuspendedError: '' @ d"
| "describe_error (MissingFile m) = ''Error: '' @ m"
| "describe_error (NamedError n m) = n @ '': '' @ m"
| "describe_error (Thrown s) = s"

section \<open>The runtime\<close>

record 'w ports =
  p_append :: "'w \<Rightarrow> journal_record \<Rightarrow> 'w \<times> (run_error + unit)"
  p_put :: "'w \<Rightarrow> json \<Rightarrow> string \<Rightarrow> 'w \<times> (run_error + artifact_ref)"
  p_get :: "'w \<Rightarrow> artifact_ref \<Rightarrow> run_error + json"

record runtime =
  rt_completed :: "(string \<times> artifact_ref) list"
  rt_attempts :: "(string \<times> nat) list"

text \<open>The options of one call: the extension of the artifact and the provider's request id.\<close>

record activity_options =
  ao_extension :: "string option"
  ao_request :: "string option"

type_synonym 'w work = "'w \<Rightarrow> 'w \<times> (run_error + json)"

text \<open>The body of the \<open>try\<close> block: run, store, journal the end, remember it.\<close>

definition attempt_body ::
  "'w ports \<Rightarrow> 'w \<Rightarrow> runtime \<Rightarrow> string \<Rightarrow> nat \<Rightarrow> 'w work \<Rightarrow> activity_options \<Rightarrow>
     'w \<times> runtime \<times> (run_error + json)" where
  "attempt_body P w rt i n fn opts =
     (case fn w of
        (w1, Inl e) \<Rightarrow> (w1, rt, Inl e)
      | (w1, Inr v) \<Rightarrow>
          (case p_put P w1 v (case ao_extension opts of None \<Rightarrow> ''json'' | Some x \<Rightarrow> x) of
             (w2, Inl e) \<Rightarrow> (w2, rt, Inl e)
           | (w2, Inr ref) \<Rightarrow>
               (case p_append P w2 (AttemptEnd i n ref) of
                  (w3, Inl e) \<Rightarrow> (w3, rt, Inl e)
                | (w3, Inr _) \<Rightarrow> (w3, rt\<lparr>rt_completed := AList.update i ref (rt_completed rt)\<rparr>, Inr v))))"

definition run_attempt ::
  "'w ports \<Rightarrow> 'w \<Rightarrow> runtime \<Rightarrow> string \<Rightarrow> 'w work \<Rightarrow> activity_options \<Rightarrow> 'w \<times> runtime \<times> (run_error + json)" where
  "run_attempt P w rt i fn opts =
     (let n = get_or 0 (rt_attempts rt) i + 1;
          rt1 = rt\<lparr>rt_attempts := AList.update i n (rt_attempts rt)\<rparr> in
      case p_append P w (AttemptStart i n (ao_request opts)) of
        (w1, Inl e) \<Rightarrow> (w1, rt1, Inl e)
      | (w1, Inr _) \<Rightarrow>
          (case attempt_body P w1 rt1 i n fn opts of
             (w2, rt2, Inr v) \<Rightarrow> (w2, rt2, Inr v)
           | (w2, rt2, Inl e) \<Rightarrow>
               (case p_append P w2 (AttemptError i n (describe_error e)) of
                  (w3, Inl e') \<Rightarrow> (w3, rt2, Inl e')
                | (w3, Inr _) \<Rightarrow> (w3, rt2, Inl e))))"

definition activity ::
  "'w ports \<Rightarrow> 'w \<Rightarrow> runtime \<Rightarrow> string \<Rightarrow> 'w work \<Rightarrow> activity_options \<Rightarrow> 'w \<times> runtime \<times> (run_error + json)" where
  "activity P w rt i fn opts =
     (case map_of (rt_completed rt) i of
        None \<Rightarrow> run_attempt P w rt i fn opts
      | Some ref \<Rightarrow>
          (case p_get P w ref of
             Inr v \<Rightarrow> (w, rt, Inr v)
           | Inl (MissingFile _) \<Rightarrow>
               run_attempt P w (rt\<lparr>rt_completed := AList.delete i (rt_completed rt)\<rparr>) i fn opts
           | Inl e \<Rightarrow> (w, rt, Inl e)))"

text \<open>A runtime as the runner builds it from the journal: \<open>completed\<close> and \<open>attempts\<close> of the projection.\<close>

definition recover :: "journal_record list \<Rightarrow> runtime" where
  "recover rs = \<lparr>rt_completed = proj_completed (project_runner rs),
                 rt_attempts = proj_attempts (project_runner rs)\<rparr>"

section \<open>What a runtime knows of its journal\<close>

text \<open>
  A runtime never forgets an attempt the journal holds, and believes an activity completed
  only where the journal says so.
\<close>

definition agrees :: "journal_record list \<Rightarrow> runtime \<Rightarrow> bool" where
  "agrees rs rt \<longleftrightarrow>
     (\<forall>i. get_or 0 (proj_attempts (project_runner rs)) i \<le> get_or 0 (rt_attempts rt) i)
     \<and> (\<forall>i ref. map_of (rt_completed rt) i = Some ref \<longrightarrow>
          map_of (proj_completed (project_runner rs)) i = Some ref)"

definition attempt_numbers :: "string \<Rightarrow> journal_record list \<Rightarrow> nat list" where
  "attempt_numbers i rs = List.map_filter (attempt_of i) rs"

text \<open>Attempt numbers of every activity increase along the journal, so none is used twice.\<close>

definition attempts_increase :: "journal_record list \<Rightarrow> bool" where
  "attempts_increase rs \<longleftrightarrow> (\<forall>i. sorted_wrt (<) (0 # attempt_numbers i rs))"

lemma recover_agrees: "agrees rs (recover rs)"
  by (simp add: agrees_def recover_def)

lemma project_snoc [simp]:
  "proj_completed (project_runner (rs @ [r])) = note_end r (proj_completed (project_runner rs))"
  "proj_attempts (project_runner (rs @ [r])) = note_attempt r (proj_attempts (project_runner rs))"
  by (simp_all add: project_runner_def)

lemma attempt_numbers_append [simp]:
  "attempt_numbers i (rs @ qs) = attempt_numbers i rs @ attempt_numbers i qs"
  by (simp add: attempt_numbers_def List.map_filter_def)

lemma attempt_numbers_simps [simp]:
  "attempt_numbers i [] = []"
  "attempt_numbers i (r # rs) = (case attempt_of i r of None \<Rightarrow> [] | Some n \<Rightarrow> [n]) @ attempt_numbers i rs"
  by (auto simp: attempt_numbers_def List.map_filter_simps split: option.splits)

lemma attempt_number_bound: "n \<in> set (attempt_numbers i rs) \<Longrightarrow> n \<le> get_or 0 (proj_attempts (project_runner rs)) i"
  by (simp add: project_runner_def note_attempt_get attempt_numbers_def)

lemma agrees_start:
  assumes "agrees rs rt" "attempts_increase rs" "n = get_or 0 (rt_attempts rt) i + 1"
  shows "agrees (rs @ [AttemptStart i n q]) (rt\<lparr>rt_attempts := AList.update i n (rt_attempts rt)\<rparr>)"
    and "attempts_increase (rs @ [AttemptStart i n q])"
proof -
  from assms show "agrees (rs @ [AttemptStart i n q]) (rt\<lparr>rt_attempts := AList.update i n (rt_attempts rt)\<rparr>)"
    by (auto simp: agrees_def get_or_note_attempt get_or_def le_Suc_eq split: option.splits)
  have "\<forall>m \<in> set (attempt_numbers i rs). m < n"
    using assms(1,3) attempt_number_bound unfolding agrees_def by (metis add.commute le_trans less_Suc_eq_le plus_1_eq_Suc)
  with assms(2,3) show "attempts_increase (rs @ [AttemptStart i n q])"
    by (auto simp: attempts_increase_def sorted_wrt_append)
qed

lemma agrees_start_failed:
  "agrees rs rt \<Longrightarrow> agrees rs (rt\<lparr>rt_attempts := AList.update i (get_or 0 (rt_attempts rt) i + 1) (rt_attempts rt)\<rparr>)"
  by (auto simp: agrees_def get_or_def le_Suc_eq split: option.splits)

lemma agrees_other:
  assumes "agrees rs rt" "attempts_increase rs" "\<And>j. attempt_of j r = None" "\<And>j. end_of j r = None"
  shows "agrees (rs @ [r]) rt" "attempts_increase (rs @ [r])"
proof -
  have "note_end r m = m" for m using assms(4) [of "case r of AttemptEnd j n a \<Rightarrow> j | _ \<Rightarrow> []"] by (cases r) auto
  moreover have "get_or 0 (note_attempt r m) j = get_or 0 m j" for m j
    by (simp add: get_or_note_attempt assms(3))
  ultimately show "agrees (rs @ [r]) rt" "attempts_increase (rs @ [r])"
    using assms by (auto simp: agrees_def attempts_increase_def)
qed

lemma agrees_end:
  assumes "agrees rs rt" "attempts_increase rs"
  shows "agrees (rs @ [AttemptEnd i n ref]) (rt\<lparr>rt_completed := AList.update i ref (rt_completed rt)\<rparr>)"
    and "attempts_increase (rs @ [AttemptEnd i n ref])"
  using assms by (auto simp: agrees_def attempts_increase_def)

lemma agrees_delete: "agrees rs rt \<Longrightarrow> agrees rs (rt\<lparr>rt_completed := AList.delete i (rt_completed rt)\<rparr>)"
  by (auto simp: agrees_def)

section \<open>The ports and what follows from their laws\<close>

fun activity_record :: "journal_record \<Rightarrow> bool" where
  "activity_record (AttemptStart _ _ _) = True"
| "activity_record (AttemptError _ _ _) = True"
| "activity_record (AttemptEnd _ _ _) = True"
| "activity_record _ = False"

text \<open>
  \<open>journal\<close> is what a restart would load, \<open>kept\<close> says that the artifact of a reference can be
  read, \<open>storable\<close> restricts a value to those whose content address is theirs alone.
  A failed append leaves the journal as it was: the code cuts it back.
\<close>

locale activity_ports =
  fixes P :: "'w ports"
    and journal :: "'w \<Rightarrow> journal_record list"
    and kept :: "'w \<Rightarrow> artifact_ref \<Rightarrow> bool"
    and storable :: "json \<Rightarrow> bool"
  assumes append_ok: "activity_record r \<Longrightarrow> p_append P w r = (w', Inr u) \<Longrightarrow> journal w' = journal w @ [r]"
    and append_failed: "activity_record r \<Longrightarrow> p_append P w r = (w', Inl e) \<Longrightarrow> journal w' = journal w"
    and append_kept: "kept w ref \<Longrightarrow> kept (fst (p_append P w r)) ref"
    and put_journal: "journal (fst (p_put P w v x)) = journal w"
    and put_kept: "storable v \<Longrightarrow> p_put P w v x = (w', Inr ref) \<Longrightarrow> kept w' ref"
    and put_keeps: "storable v \<Longrightarrow> kept w ref \<Longrightarrow> kept (fst (p_put P w v x)) ref"
    and get_value: "p_get P w ref = Inr v \<Longrightarrow> kept w ref"
    and get_missing: "p_get P w ref = Inl (MissingFile m) \<Longrightarrow> \<not> kept w ref"
begin

text \<open>Work that leaves the journal to the runtime and removes no artifact.\<close>

definition clean_work :: "'w work \<Rightarrow> bool" where
  "clean_work fn \<longleftrightarrow>
     (\<forall>w. journal (fst (fn w)) = journal w \<and> (\<forall>ref. kept w ref \<longrightarrow> kept (fst (fn w)) ref)
        \<and> (\<forall>v. snd (fn w) = Inr v \<longrightarrow> storable v))"

lemma clean_workD:
  "clean_work fn \<Longrightarrow> fn w = (w', r) \<Longrightarrow> journal w' = journal w"
  "clean_work fn \<Longrightarrow> fn w = (w', r) \<Longrightarrow> kept w ref \<Longrightarrow> kept w' ref"
  "clean_work fn \<Longrightarrow> fn w = (w', Inr v) \<Longrightarrow> storable v"
  unfolding clean_work_def by (metis fst_conv snd_conv)+

lemma put_journalD: "p_put P w v x = (w', r) \<Longrightarrow> journal w' = journal w"
  by (metis fst_conv put_journal)

lemma put_keepsD: "p_put P w v x = (w', r) \<Longrightarrow> storable v \<Longrightarrow> kept w ref \<Longrightarrow> kept w' ref"
  by (metis fst_conv put_keeps)

lemma append_keptD: "p_append P w r = (w', u) \<Longrightarrow> kept w ref \<Longrightarrow> kept w' ref"
  by (metis fst_conv append_kept)

text \<open>A completed activity whose artifact is there is read back: nothing runs and nothing changes.\<close>

lemma activity_replays:
  assumes "map_of (rt_completed rt) i = Some ref" "kept w ref"
  shows "activity P w rt i fn opts = (w, rt, p_get P w ref)"
  using assms get_missing by (auto simp: activity_def split: sum.splits run_error.splits)

text \<open>The three shapes of the body of an attempt.\<close>

lemma attempt_body_cases:
  assumes "attempt_body P w rt i n fn opts = (w', rt', r)" "clean_work fn"
  shows "(\<exists>e. r = Inl e \<and> rt' = rt \<and> journal w' = journal w)
    \<or> (\<exists>v ref. r = Inr v \<and> rt' = rt\<lparr>rt_completed := AList.update i ref (rt_completed rt)\<rparr>
         \<and> journal w' = journal w @ [AttemptEnd i n ref] \<and> kept w' ref)"
proof -
  obtain w1 r1 where fn: "fn w = (w1, r1)" by (cases "fn w")
  note j1 = clean_workD(1) [OF assms(2) fn]
  show ?thesis
  proof (cases r1)
    case (Inl e)
    with assms(1) fn j1 show ?thesis by (auto simp: attempt_body_def)
  next
    case (Inr v)
    obtain w2 r2 where put: "p_put P w1 v (case ao_extension opts of None \<Rightarrow> ''json'' | Some x \<Rightarrow> x) = (w2, r2)"
      by (metis surj_pair)
    note j2 = put_journalD [OF put]
    show ?thesis
    proof (cases r2)
      case (Inl e)
      with assms(1) fn put j1 j2 \<open>r1 = Inr v\<close> show ?thesis by (auto simp: attempt_body_def)
    next
      case ref: (Inr ref)
      obtain w3 r3 where app: "p_append P w2 (AttemptEnd i n ref) = (w3, r3)" by (metis surj_pair)
      have "kept w2 ref" using put_kept put ref clean_workD(3) [OF assms(2)] fn Inr by blast
      then have "kept w3 ref" by (rule append_keptD [OF app])
      with assms(1) fn put app j1 j2 Inr ref show ?thesis
        by (cases r3) (auto simp: attempt_body_def dest: append_ok [rotated] append_failed [rotated])
    qed
  qed
qed

text \<open>An attempt keeps the runtime and the journal in agreement, whatever fails.\<close>

lemma attempt_body_agrees:
  assumes "attempt_body P w rt i n fn opts = (w', rt', r)" "clean_work fn"
    and "agrees (journal w) rt" "attempts_increase (journal w)"
  shows "agrees (journal w') rt' \<and> attempts_increase (journal w')"
  using attempt_body_cases [OF assms(1,2)] assms(3,4) agrees_end by auto

lemma run_attempt_agrees:
  assumes run: "run_attempt P w rt i fn opts = (w', rt', r)" and clean: "clean_work fn"
    and agr: "agrees (journal w) rt" and inc: "attempts_increase (journal w)"
  shows "agrees (journal w') rt' \<and> attempts_increase (journal w')"
proof -
  define n where "n = get_or 0 (rt_attempts rt) i + 1"
  define rt1 where "rt1 = rt\<lparr>rt_attempts := AList.update i n (rt_attempts rt)\<rparr>"
  obtain w1 r1 where app: "p_append P w (AttemptStart i n (ao_request opts)) = (w1, r1)" by (metis surj_pair)
  obtain w2 rt2 r2 where body: "attempt_body P w1 rt1 i n fn opts = (w2, rt2, r2)" by (metis surj_pair)
  obtain w3 r3 where err: "p_append P w2 (AttemptError i n (describe_error (projl r2))) = (w3, r3)" by (metis surj_pair)
  note unfolded = run [unfolded run_attempt_def Let_def, folded n_def, folded rt1_def]
  show ?thesis
  proof (cases r1)
    case (Inl e)
    with unfolded app have "journal w' = journal w" "rt' = rt1" by (auto dest: append_failed [rotated])
    then show ?thesis using agr inc agrees_start_failed by (simp add: rt1_def n_def)
  next
    case (Inr u)
    then have j1: "journal w1 = journal w @ [AttemptStart i n (ao_request opts)]"
      using append_ok app by simp
    have "agrees (journal w1) rt1" "attempts_increase (journal w1)"
      unfolding j1 rt1_def using agrees_start [OF agr inc] n_def by blast+
    then have agr2: "agrees (journal w2) rt2 \<and> attempts_increase (journal w2)"
      by (rule attempt_body_agrees [OF body clean])
    show ?thesis
    proof (cases r2)
      case r2: (Inl e)
      have "journal w3 = journal w2 \<or> journal w3 = journal w2 @ [AttemptError i n (describe_error e)]"
        using err r2 by (cases r3) (auto dest: append_ok [rotated] append_failed [rotated])
      moreover have "w' = w3 \<and> rt' = rt2"
        using unfolded app Inr body r2 err by (auto split: sum.splits)
      ultimately show ?thesis using agr2 agrees_other by fastforce
    next
      case (Inr v)
      with unfolded app \<open>r1 = Inr u\<close> body agr2 show ?thesis by auto
    qed
  qed
qed

lemma activity_agrees:
  assumes act: "activity P w rt i fn opts = (w', rt', r)" and clean: "clean_work fn"
    and agr: "agrees (journal w) rt" and inc: "attempts_increase (journal w)"
  shows "agrees (journal w') rt' \<and> attempts_increase (journal w')"
proof -
  have run: "run_attempt P w rt i fn opts = (w', rt', r)
      \<or> run_attempt P w (rt\<lparr>rt_completed := AList.delete i (rt_completed rt)\<rparr>) i fn opts = (w', rt', r)
      \<or> w' = w \<and> rt' = rt"
    using act by (auto simp: activity_def split: option.splits sum.splits run_error.splits)
  then show ?thesis
    using run_attempt_agrees [OF _ clean] agr inc agrees_delete [OF agr] by blast
qed

text \<open>After a success the activity is complete and its artifact is there.\<close>

lemma run_attempt_success:
  assumes run: "run_attempt P w rt i fn opts = (w', rt', Inr v)" and clean: "clean_work fn"
  shows "\<exists>ref. map_of (rt_completed rt') i = Some ref \<and> kept w' ref
    \<and> journal w' = journal w @ [AttemptStart i (get_or 0 (rt_attempts rt) i + 1) (ao_request opts),
                                AttemptEnd i (get_or 0 (rt_attempts rt) i + 1) ref]"
proof -
  define n where "n = get_or 0 (rt_attempts rt) i + 1"
  define rt1 where "rt1 = rt\<lparr>rt_attempts := AList.update i n (rt_attempts rt)\<rparr>"
  note unfolded = run [unfolded run_attempt_def Let_def, folded n_def, folded rt1_def]
  obtain w1 u where app: "p_append P w (AttemptStart i n (ao_request opts)) = (w1, Inr u)"
    and body: "attempt_body P w1 rt1 i n fn opts = (w', rt', Inr v)"
    using unfolded by (auto split: prod.splits sum.splits)
  from append_ok [OF _ app] have "journal w1 = journal w @ [AttemptStart i n (ao_request opts)]" by simp
  with attempt_body_cases [OF body clean] show ?thesis unfolding n_def by auto
qed

lemma activity_success:
  assumes act: "activity P w rt i fn opts = (w', rt', Inr v)" and clean: "clean_work fn"
  shows "\<exists>ref. map_of (rt_completed rt') i = Some ref \<and> kept w' ref"
proof (cases "map_of (rt_completed rt) i")
  case None
  with act have "run_attempt P w rt i fn opts = (w', rt', Inr v)" by (simp add: activity_def)
  then show ?thesis using run_attempt_success clean by blast
next
  case (Some ref)
  then consider "w' = w" "rt' = rt" "p_get P w ref = Inr v"
    | "run_attempt P w (rt\<lparr>rt_completed := AList.delete i (rt_completed rt)\<rparr>) i fn opts = (w', rt', Inr v)"
    using act by (auto simp: activity_def split: sum.splits run_error.splits)
  then show ?thesis
  proof cases
    case 1
    with Some get_value show ?thesis by blast
  next
    case 2
    then show ?thesis using run_attempt_success clean by blast
  qed
qed

text \<open>
  At most one success: once an activity returned, neither this runtime nor one recovered
  from a journal that contains this one runs it again while its artifact is kept.
\<close>

lemma activity_once:
  assumes "activity P w rt i fn opts = (w1, rt1, Inr v)" "clean_work fn"
  shows "activity P w1 rt1 i gn opts' = (w1, rt1, p_get P w1 (the (map_of (rt_completed rt1) i)))"
  using activity_success [OF assms] activity_replays by fastforce

lemma activity_once_recovered:
  assumes act: "activity P w rt i fn opts = (w1, rt1, Inr v)" and clean: "clean_work fn"
    and agr: "agrees (journal w) rt" "attempts_increase (journal w)"
    and later: "journal w2 = journal w1 @ qs" "\<forall>n a. AttemptEnd i n a \<notin> set qs" "\<And>ref. kept w1 ref \<Longrightarrow> kept w2 ref"
  shows "activity P w2 (recover (journal w2)) i gn opts'
    = (w2, recover (journal w2), p_get P w2 (the (map_of (rt_completed rt1) i)))"
proof -
  from activity_success [OF act clean] obtain ref where ref: "map_of (rt_completed rt1) i = Some ref" "kept w1 ref"
    by blast
  from activity_agrees [OF act clean agr] ref(1)
  have "map_of (proj_completed (project_runner (journal w1))) i = Some ref" by (simp add: agrees_def)
  moreover have "List.map_filter (end_of i) qs = []"
    using later(2)
  proof (induction qs)
    case (Cons q qs)
    then show ?case by (cases q) (auto simp: List.map_filter_simps)
  qed (simp add: List.map_filter_simps)
  ultimately have "map_of (rt_completed (recover (journal w2))) i = Some ref"
    by (simp add: recover_def project_runner_def later(1) note_end_get [of qs] Let_def)
  then show ?thesis using activity_replays later(3) ref by simp
qed

end

end
