(* ===== verification/Artifact_Store.thy ===== *)
theory Artifact_Store
  imports Journal Json
begin

text \<open>
  The content-addressed artifact store: \<open>packages/persistence/src/artifact-store.ts\<close>.
  The directory is a map from file names to bytes. I/O faults other than a missing file are
  outside the model; another process that writes the same directory between two
  file-system calls of \<open>put\<close> is the argument \<open>race\<close>.
\<close>

section \<open>References\<close>

datatype store_error =
    InvalidExtension string
  | InvalidHash
  | InvalidByteLength
  | PathMismatch
  | ContentAddressMismatch
  | FileMissing
  | NotDecodable
  | NotEncodable json_error

definition is_lower :: "char \<Rightarrow> bool" where
  "is_lower c \<longleftrightarrow> 97 \<le> (of_char c :: nat) \<and> (of_char c :: nat) \<le> 122"

definition is_digit_char :: "char \<Rightarrow> bool" where
  "is_digit_char c \<longleftrightarrow> 48 \<le> (of_char c :: nat) \<and> (of_char c :: nat) \<le> 57"

text \<open>\<open>/^[a-z0-9][a-z0-9_-]*$/\<close> and \<open>/^[a-f0-9]{64}$/\<close>\<close>

fun valid_extension :: "string \<Rightarrow> bool" where
  "valid_extension [] \<longleftrightarrow> False"
| "valid_extension (c # cs) \<longleftrightarrow>
     (is_lower c \<or> is_digit_char c)
     \<and> list_all (\<lambda>d. is_lower d \<or> is_digit_char d \<or> d = CHR ''_'' \<or> d = CHR ''-'') cs"

definition hex_char :: "char \<Rightarrow> bool" where
  "hex_char c \<longleftrightarrow> is_digit_char c \<or> (97 \<le> (of_char c :: nat) \<and> (of_char c :: nat) \<le> 102)"

definition valid_hash :: "string \<Rightarrow> bool" where
  "valid_hash s \<longleftrightarrow> length s = 64 \<and> list_all hex_char s"

definition file_name :: "string \<Rightarrow> string \<Rightarrow> string" where
  "file_name hash ext = hash @ ''.'' @ ext"

definition relative_path :: "string \<Rightarrow> string \<Rightarrow> string" where
  "relative_path hash ext = ''artifacts/'' @ file_name hash ext"

definition encode_artifact :: "js_host \<Rightarrow> json \<Rightarrow> string \<Rightarrow> store_error + artifact_ref \<times> string" where
  "encode_artifact h v ext =
     (if \<not> valid_extension ext then Inl (InvalidExtension ext)
      else case canon (nfc h) (numstr h) v of
        Inl e \<Rightarrow> Inl (NotEncodable e)
      | Inr text \<Rightarrow>
          (let bytes = utf8 text; hash = sha256 h bytes in
           Inr (\<lparr>ref_hash = hash, ref_length = length bytes, ref_extension = ext,
                 ref_path = relative_path hash ext\<rparr>, bytes)))"

text \<open>\<open>contentAddress\<close>: the reference \<open>put\<close> would return.\<close>

definition content_address :: "js_host \<Rightarrow> json \<Rightarrow> string \<Rightarrow> store_error + artifact_ref" where
  "content_address h v ext = result_bind (encode_artifact h v ext) (\<lambda>(ref, bytes). Inr ref)"

definition matches :: "js_host \<Rightarrow> string \<Rightarrow> string \<Rightarrow> bool" where
  "matches h existing expected \<longleftrightarrow>
     length existing = length expected \<and> sha256 h existing = sha256 h expected"

section \<open>Writing\<close>

type_synonym files = "string \<rightharpoonup> string"

text \<open>The name of a staging file: the process and a counter keep it apart from every other.\<close>

definition staging_name :: "string \<Rightarrow> string \<Rightarrow> nat \<Rightarrow> string" where
  "staging_name path pid sequence = path @ ''.'' @ pid @ ''-'' @ nat_string sequence @ ''.tmp''"

definition link_file :: "files \<Rightarrow> string \<Rightarrow> string \<Rightarrow> files option" where
  "link_file fs from path = (if path \<in> dom fs then None else Some (fs(path := fs from)))"

definition rename_file :: "files \<Rightarrow> string \<Rightarrow> string \<Rightarrow> files" where
  "rename_file fs from path = (fs(path := fs from))(from := None)"

text \<open>
  After the staging file is written: publish it by a hard link when the name was free,
  accept what another writer published first when it has the right content, and replace
  it otherwise. The staging file is removed in every case (\<open>finally\<close>).
\<close>

definition publish :: "js_host \<Rightarrow> (files \<Rightarrow> files) \<Rightarrow> files \<Rightarrow> string \<Rightarrow> string \<Rightarrow> string \<Rightarrow> files" where
  "publish h race fs path staging bytes =
     (let fs1 = race (fs(staging \<mapsto> bytes));
          fs2 = (if fs path = None
                 then case link_file fs1 staging path of
                     Some linked \<Rightarrow> linked
                   | None \<Rightarrow>
                       (case fs1 path of
                          Some published \<Rightarrow>
                            if matches h published bytes then fs1 else rename_file fs1 staging path
                        | None \<Rightarrow> rename_file fs1 staging path)
                 else rename_file fs1 staging path)
      in fs2(staging := None))"

definition store_put ::
  "js_host \<Rightarrow> (files \<Rightarrow> files) \<Rightarrow> string \<Rightarrow> files \<times> nat \<Rightarrow> json \<Rightarrow> string \<Rightarrow>
     (files \<times> nat) \<times> (store_error + artifact_ref)" where
  "store_put h race pid w v ext =
     (case encode_artifact h v ext of
        Inl e \<Rightarrow> (w, Inl e)
      | Inr (ref, bytes) \<Rightarrow>
          (let path = file_name (ref_hash ref) ext; (fs, sequence) = w in
           case fs path of
             Some existing \<Rightarrow>
               if matches h existing bytes then (w, Inr ref)
               else ((publish h race fs path (staging_name path pid (sequence + 1)) bytes, sequence + 1), Inr ref)
           | None \<Rightarrow>
               ((publish h race fs path (staging_name path pid (sequence + 1)) bytes, sequence + 1), Inr ref)))"

section \<open>Reading\<close>

definition validate_ref :: "artifact_ref \<Rightarrow> store_error + unit" where
  "validate_ref ref =
     (if \<not> valid_hash (ref_hash ref) then Inl InvalidHash
      else if int (ref_length ref) > max_safe then Inl InvalidByteLength
      else if \<not> valid_extension (ref_extension ref) then Inl (InvalidExtension (ref_extension ref))
      else Inr ())"

definition store_get :: "js_host \<Rightarrow> files \<Rightarrow> artifact_ref \<Rightarrow> store_error + json" where
  "store_get h fs ref =
     result_bind (validate_ref ref) (\<lambda>_.
     if ref_path ref \<noteq> relative_path (ref_hash ref) (ref_extension ref) then Inl PathMismatch
     else case fs (file_name (ref_hash ref) (ref_extension ref)) of
         None \<Rightarrow> Inl FileMissing
       | Some bytes \<Rightarrow>
           if length bytes \<noteq> ref_length ref \<or> sha256 h bytes \<noteq> ref_hash ref then Inl ContentAddressMismatch
           else (case parse_bytes h bytes of None \<Rightarrow> Inl NotDecodable | Some v \<Rightarrow> Inr v))"

text \<open>
  \<open>getByRelativePath\<close>: the path is matched against \<open>/^artifacts\/([a-f0-9]{64})\.([a-z0-9][a-z0-9_-]*)$/u\<close>, never
  followed.
\<close>

datatype path_error = InvalidArtifactReference | ReferencedFileMissing | ReferencedContentMismatch | ReferencedNotDecodable

definition parse_relative_path :: "string \<Rightarrow> (string \<times> string) option" where
  "parse_relative_path path =
     (let body = drop 10 path; hash = take 64 body; ext = drop 65 body in
      if starts_with ''artifacts/'' path \<and> valid_hash hash \<and> take 1 (drop 64 body) = ''.'' \<and> valid_extension ext
      then Some (hash, ext) else None)"

definition store_get_by_path :: "js_host \<Rightarrow> files \<Rightarrow> string \<Rightarrow> path_error + json" where
  "store_get_by_path h fs path =
     (case parse_relative_path path of
        None \<Rightarrow> Inl InvalidArtifactReference
      | Some (hash, ext) \<Rightarrow>
          (case fs (file_name hash ext) of
             None \<Rightarrow> Inl ReferencedFileMissing
           | Some bytes \<Rightarrow>
               if sha256 h bytes \<noteq> hash then Inl ReferencedContentMismatch
               else (case parse_bytes h bytes of None \<Rightarrow> Inl ReferencedNotDecodable | Some v \<Rightarrow> Inr v)))"

lemma parse_relative_path_relative:
  "valid_hash hash \<Longrightarrow> valid_extension ext \<Longrightarrow> parse_relative_path (relative_path hash ext) = Some (hash, ext)"
  by (simp add: parse_relative_path_def relative_path_def file_name_def valid_hash_def starts_with_def Let_def)

text \<open>What a reference gives, its path alone gives.\<close>

lemma store_get_path:
  assumes "store_get h fs ref = Inr v"
  shows "store_get_by_path h fs (ref_path ref) = Inr v"
  using assms
  by (auto simp: store_get_def store_get_by_path_def validate_ref_def parse_relative_path_relative result_simps
      split: if_splits option.splits)

text \<open>The file a reference names is present with the content it promises.\<close>

definition available :: "js_host \<Rightarrow> files \<Rightarrow> artifact_ref \<Rightarrow> bool" where
  "available h fs ref \<longleftrightarrow>
     (\<exists>bytes. fs (file_name (ref_hash ref) (ref_extension ref)) = Some bytes
        \<and> length bytes = ref_length ref \<and> sha256 h bytes = ref_hash ref)"

section \<open>Lemmas\<close>

lemma encode_artifact_Inr:
  "encode_artifact h v ext = Inr (ref, bytes) \<longleftrightarrow>
     valid_extension ext \<and> (\<exists>text. canon (nfc h) (numstr h) v = Inr text \<and> bytes = utf8 text)
     \<and> ref = \<lparr>ref_hash = sha256 h bytes, ref_length = length bytes, ref_extension = ext,
              ref_path = relative_path (sha256 h bytes) ext\<rparr>"
  by (auto simp: encode_artifact_def Let_def split: sum.splits)

lemma staging_neq_path: "staging_name path pid n \<noteq> path"
  by (simp add: staging_name_def)

text \<open>
  What another process may do meanwhile: it never removes a complete file, and the names
  of our staging files are ours.
\<close>

definition fair_race :: "js_host \<Rightarrow> string \<Rightarrow> (files \<Rightarrow> files) \<Rightarrow> bool" where
  "fair_race h pid race \<longleftrightarrow>
     (\<forall>fs ref. available h fs ref \<longrightarrow> available h (race fs) ref)
     \<and> (\<forall>fs path n. race fs (staging_name path pid n) = fs (staging_name path pid n))"

lemma fair_race_id [simp]: "fair_race h pid (\<lambda>fs. fs)"
  by (simp add: fair_race_def)

text \<open>A staging file never has the name of an artifact: its name ends in another extension.\<close>

lemma valid_extension_chars: "valid_extension ext \<Longrightarrow> CHR ''.'' \<notin> set ext"
  by (cases ext) (auto simp: is_lower_def is_digit_char_def list_all_iff)

lemma publish_result:
  assumes race: "fair_race h pid race"
    and path: "path = file_name (sha256 h bytes) ext"
    and torn: "\<And>old. fs path = Some old \<Longrightarrow> \<not> matches h old bytes"
  shows "\<exists>b. publish h race fs path (staging_name path pid n) bytes path = Some b \<and> matches h b bytes"
proof -
  let ?staging = "staging_name path pid n"
  let ?fs1 = "race (fs(?staging \<mapsto> bytes))"
  have st: "?fs1 ?staging = Some bytes" using race by (simp add: fair_race_def)
  then show ?thesis
    using staging_neq_path [of path pid n]
    by (auto simp: publish_def Let_def link_file_def rename_file_def matches_def domIff
        split: option.splits)
qed


lemma last_split_inject:
  "c \<notin> set e \<Longrightarrow> c \<notin> set f \<Longrightarrow> x @ c # e = y @ c # f \<Longrightarrow> x = y \<and> e = f"
proof (induction x arbitrary: y)
  case Nil
  then show ?case by (cases y) auto
next
  case (Cons a x)
  then show ?case by (cases y) auto
qed

lemma file_name_inject:
  assumes "valid_extension e" "valid_extension f" "file_name x e = file_name y f"
  shows "x = y \<and> e = f"
  using assms by (intro last_split_inject [of "CHR ''.''"]) (auto simp: file_name_def dest: valid_extension_chars)

lemma valid_extension_tmp: "valid_extension ''tmp''"
  by (simp add: is_lower_def)

lemma valid_hash_no_dot: "valid_hash s \<Longrightarrow> CHR ''.'' \<notin> set s"
  by (auto simp: valid_hash_def hex_char_def is_digit_char_def list_all_iff)

lemma staging_not_artifact:
  assumes "valid_hash hash" "valid_extension ext"
  shows "staging_name (file_name x e) pid n \<noteq> file_name hash ext"
proof
  assume "staging_name (file_name x e) pid n = file_name hash ext"
  then have "file_name (x @ ''.'' @ e @ ''.'' @ pid @ ''-'' @ nat_string n) ''tmp'' = file_name hash ext"
    by (simp add: staging_name_def file_name_def)
  then have "hash = x @ ''.'' @ e @ ''.'' @ pid @ ''-'' @ nat_string n"
    using file_name_inject [OF _ assms(2)] by (metis valid_extension_tmp)
  with valid_hash_no_dot [OF assms(1)] show False by simp
qed

text \<open>No other bytes have the digest of these: what a content address assumes of SHA-256.\<close>

definition no_collision :: "js_host \<Rightarrow> string \<Rightarrow> bool" where
  "no_collision h bytes \<longleftrightarrow> (\<forall>b. sha256 h b = sha256 h bytes \<longrightarrow> b = bytes)"

definition good_ref :: "artifact_ref \<Rightarrow> bool" where
  "good_ref ref \<longleftrightarrow> valid_hash (ref_hash ref) \<and> valid_extension (ref_extension ref)"

lemma publish_keeps_available:
  assumes race: "fair_race h pid race" and ext: "valid_extension ext"
    and path: "path = file_name (sha256 h bytes) ext" and nc: "no_collision h bytes"
    and torn: "\<And>old. fs path = Some old \<Longrightarrow> \<not> matches h old bytes"
    and good: "good_ref ref" and av: "available h fs ref"
  shows "available h (publish h race fs path (staging_name path pid n) bytes) ref"
proof -
  let ?name = "file_name (ref_hash ref) (ref_extension ref)"
  let ?staging = "staging_name path pid n"
  have ns: "?name \<noteq> ?staging" using staging_not_artifact good path unfolding good_ref_def by metis
  have np: "?name \<noteq> path"
  proof
    assume eq: "?name = path"
    then have "ref_hash ref = sha256 h bytes" using file_name_inject ext good path good_ref_def by blast
    with av eq nc obtain b where "fs path = Some b" "b = bytes"
      by (auto simp: available_def no_collision_def)
    with torn show False by (auto simp: matches_def)
  qed
  have "available h (fs(?staging \<mapsto> bytes)) ref" using av ns by (simp add: available_def)
  then have "available h (race (fs(?staging \<mapsto> bytes))) ref" using race by (simp add: fair_race_def)
  then show ?thesis
    using ns np by (auto simp: available_def publish_def Let_def link_file_def rename_file_def split: option.splits)
qed

section \<open>What the store promises\<close>

text \<open>A put that returns leaves its reference available, whatever another writer did meanwhile.\<close>

lemma store_put_available:
  assumes "store_put h race pid (fs, s) v ext = ((fs', s'), Inr ref)" "fair_race h pid race"
  shows "\<exists>bytes b. encode_artifact h v ext = Inr (ref, bytes)
    \<and> fs' (file_name (ref_hash ref) ext) = Some b \<and> matches h b bytes"
    and "available h fs' ref"
proof -
  from assms(1) obtain bytes where enc: "encode_artifact h v ext = Inr (ref, bytes)"
    by (auto simp: store_put_def Let_def split: sum.splits option.splits if_splits)
  let ?path = "file_name (ref_hash ref) ext"
  have hash: "ref_hash ref = sha256 h bytes" using enc by (auto simp: encode_artifact_Inr)
  have "\<exists>b. fs' ?path = Some b \<and> matches h b bytes"
  proof (cases "\<exists>old. fs ?path = Some old \<and> matches h old bytes")
    case True
    with assms(1) enc show ?thesis by (auto simp: store_put_def Let_def)
  next
    case False
    then have fs': "fs' = publish h race fs ?path (staging_name ?path pid (s + 1)) bytes"
      using assms(1) enc by (auto simp: store_put_def Let_def split: option.splits if_splits)
    show ?thesis unfolding fs'
      by (rule publish_result [OF assms(2)]) (use False hash in auto)
  qed
  with enc show "\<exists>bytes b. encode_artifact h v ext = Inr (ref, bytes)
    \<and> fs' (file_name (ref_hash ref) ext) = Some b \<and> matches h b bytes" by blast
  then show "available h fs' ref" by (auto simp: available_def encode_artifact_Inr matches_def)
qed

lemma store_put_keeps:
  assumes "store_put h race pid (fs, s) v ext = ((fs', s'), r)" "fair_race h pid race"
    and "good_ref ref" "available h fs ref"
    and "\<And>q bytes. encode_artifact h v ext = Inr (q, bytes) \<Longrightarrow> no_collision h bytes"
  shows "available h fs' ref"
proof (cases "encode_artifact h v ext")
  case (Inl e)
  with assms(1,4) show ?thesis by (simp add: store_put_def)
next
  case (Inr x)
  then obtain q bytes where enc: "encode_artifact h v ext = Inr (q, bytes)" by (cases x) auto
  let ?path = "file_name (ref_hash q) ext"
  have hash: "ref_hash q = sha256 h bytes" and ext: "valid_extension ext"
    using enc by (auto simp: encode_artifact_Inr)
  show ?thesis
  proof (cases "\<exists>old. fs ?path = Some old \<and> matches h old bytes")
    case True
    with assms(1,4) enc show ?thesis by (auto simp: store_put_def Let_def)
  next
    case False
    then have fs': "fs' = publish h race fs ?path (staging_name ?path pid (s + 1)) bytes"
      using assms(1) enc by (auto simp: store_put_def Let_def split: option.splits if_splits)
    show ?thesis unfolding fs'
      by (rule publish_keeps_available [OF assms(2) ext]) (use False hash assms enc in auto)
  qed
qed

text \<open>Reading back what was put: the value of the canonical text.\<close>

lemma store_get_put:
  assumes put: "store_put h race pid (fs, s) v ext = ((fs', s'), Inr ref)" and race: "fair_race h pid race"
    and enc: "encode_artifact h v ext = Inr (ref, bytes)" and nc: "no_collision h bytes"
    and ref: "valid_hash (sha256 h bytes)" "int (length bytes) \<le> max_safe"
    and parse: "parse_bytes h bytes = Some u"
  shows "store_get h fs' ref = Inr u"
proof -
  from store_put_available(1) [OF put race] obtain b where "fs' (file_name (ref_hash ref) ext) = Some b"
    "matches h b bytes" using enc by auto
  moreover from this nc have "b = bytes" by (simp add: matches_def no_collision_def)
  ultimately show ?thesis
    using enc ref parse by (auto simp: store_get_def validate_ref_def encode_artifact_Inr)
qed

text \<open>A read returns a value only from bytes with the digest and length the reference names.\<close>

lemma store_get_checked: "store_get h fs ref = Inr v \<Longrightarrow> available h fs ref \<and> good_ref ref"
  by (auto simp: store_get_def validate_ref_def available_def good_ref_def result_simps
      split: if_splits option.splits)

lemma store_get_missing: "store_get h fs ref = Inl FileMissing \<Longrightarrow> \<not> available h fs ref"
  by (auto simp: store_get_def validate_ref_def available_def result_simps split: if_splits option.splits)

lemma store_put_pure:
  "store_put h race pid w v ext = (w', Inr ref) \<Longrightarrow> content_address h v ext = Inr ref"
  by (auto simp: store_put_def content_address_def Let_def split: sum.splits option.splits if_splits prod.splits)

end
