(* ===== verification/Run_Store.thy ===== *)
theory Run_Store
  imports Activity Artifact_Store
begin

text \<open>
  A run's directory: \<open>packages/runtime/src/run-store.ts\<close> over the journal of
  \<open>packages/persistence/src/journal.ts\<close> and the artifact store. Activity records and run
  events are two files; the artifact index names the newest artifact of each kind; a
  create-once record is written at most once. The theory discharges the ports of \<open>Activity\<close>.
\<close>

section \<open>State\<close>

record descriptor =
  ds_artifact_id :: string
  ds_kind :: string
  ds_bytes :: nat
  ds_node :: "string option"
  ds_ref :: artifact_ref

text \<open>
  \<open>wd_faults\<close> is the fate of the coming appends: a \<open>True\<close> is a write or sync that fails and
  is cut back, as both journals do. \<open>wd_once\<close> holds the create-once records by path.
\<close>

record world =
  wd_files :: files
  wd_sequence :: nat
  wd_activity :: "journal_record list"
  wd_events :: "journal_record list"
  wd_index :: "descriptor list"
  wd_once :: "string list \<rightharpoonup> json"
  wd_faults :: "bool list"

section \<open>Appending\<close>

text \<open>
  \<open>isRunEvent\<close> on a typed record: the checks that the type does not settle. \<open>date_ok\<close> is
  \<open>!Number.isNaN(Date.parse(time))\<close>.
\<close>

fun is_run_event :: "(string \<Rightarrow> bool) \<Rightarrow> journal_record \<Rightarrow> bool" where
  "is_run_event date_ok (RunTransition run _ _) \<longleftrightarrow> run \<noteq> []"
| "is_run_event date_ok (NodeDispatched run n i) \<longleftrightarrow> run \<noteq> [] \<and> n \<noteq> [] \<and> i \<noteq> []"
| "is_run_event date_ok (NodeCompleted run n i _) \<longleftrightarrow> run \<noteq> [] \<and> n \<noteq> [] \<and> i \<noteq> []"
| "is_run_event date_ok (HostSuspended run from to) \<longleftrightarrow> run \<noteq> [] \<and> date_ok from \<and> date_ok to"
| "is_run_event date_ok _ \<longleftrightarrow> False"

fun event_run :: "journal_record \<Rightarrow> string" where
  "event_run (RunTransition run _ _) = run"
| "event_run (NodeDispatched run _ _) = run"
| "event_run (NodeCompleted run _ _ _) = run"
| "event_run (HostSuspended run _ _) = run"
| "event_run _ = []"

text \<open>\<open>validateRecord\<close> of the activity journal; an event has no \<open>id\<close>, whose length it would read.\<close>

fun validate_record :: "journal_record \<Rightarrow> run_error option" where
  "validate_record (AttemptStart i n _) =
     (if i = [] then Some (NamedError ''TypeError'' ''Journal activity id must not be empty'')
      else if int n > max_safe \<or> n < 1
      then Some (NamedError ''TypeError'' ''Journal attempt must be a positive safe integer'') else None)"
| "validate_record (AttemptError i n _) =
     (if i = [] then Some (NamedError ''TypeError'' ''Journal activity id must not be empty'')
      else if int n > max_safe \<or> n < 1
      then Some (NamedError ''TypeError'' ''Journal attempt must be a positive safe integer'') else None)"
| "validate_record (AttemptEnd i n _) =
     (if i = [] then Some (NamedError ''TypeError'' ''Journal activity id must not be empty'')
      else if int n > max_safe \<or> n < 1
      then Some (NamedError ''TypeError'' ''Journal attempt must be a positive safe integer'') else None)"
| "validate_record _ = Some (NamedError ''TypeError'' ''Cannot read properties of undefined'')"

definition write_fault :: run_error where
  "write_fault = NamedError ''Error'' ''EIO''"

definition next_fault :: "world \<Rightarrow> bool \<times> world" where
  "next_fault w = (case wd_faults w of [] \<Rightarrow> (False, w) | b # bs \<Rightarrow> (b, w\<lparr>wd_faults := bs\<rparr>))"

definition append_activity :: "world \<Rightarrow> journal_record \<Rightarrow> world \<times> (run_error + unit)" where
  "append_activity w r =
     (case validate_record r of
        Some e \<Rightarrow> (w, Inl e)
      | None \<Rightarrow>
          (case next_fault w of
             (True, w') \<Rightarrow> (w', Inl write_fault)
           | (False, w') \<Rightarrow> (w'\<lparr>wd_activity := wd_activity w' @ [r]\<rparr>, Inr ())))"

definition append_event :: "(string \<Rightarrow> bool) \<Rightarrow> string \<Rightarrow> world \<Rightarrow> journal_record \<Rightarrow> world \<times> (run_error + unit)" where
  "append_event date_ok run w r =
     (if \<not> is_run_event date_ok r \<or> event_run r \<noteq> run
      then (w, Inl (NamedError ''Error'' (''INVALID_RUN_EVENT:'' @ run)))
      else case next_fault w of
          (True, w') \<Rightarrow> (w', Inl write_fault)
        | (False, w') \<Rightarrow> (w'\<lparr>wd_events := wd_events w' @ [r]\<rparr>, Inr ()))"

text \<open>\<open>journalPort().append\<close>\<close>

definition store_append :: "(string \<Rightarrow> bool) \<Rightarrow> string \<Rightarrow> world \<Rightarrow> journal_record \<Rightarrow> world \<times> (run_error + unit)" where
  "store_append date_ok run w r =
     (if is_run_event date_ok r then append_event date_ok run w r else append_activity w r)"

section \<open>Artifacts\<close>

fun store_run_error :: "store_error \<Rightarrow> run_error" where
  "store_run_error FileMissing = MissingFile ''ENOENT''"
| "store_run_error (InvalidExtension x) = NamedError ''TypeError'' (''Invalid artifact extension: '' @ x)"
| "store_run_error InvalidHash = NamedError ''TypeError'' ''Invalid artifact hash''"
| "store_run_error InvalidByteLength = NamedError ''TypeError'' ''Invalid artifact byte length''"
| "store_run_error PathMismatch = NamedError ''Error'' ''Artifact reference path does not match its hash and extension''"
| "store_run_error ContentAddressMismatch = NamedError ''Error'' ''Artifact failed its content-address check''"
| "store_run_error NotDecodable = NamedError ''SyntaxError'' ''Unexpected token''"
| "store_run_error (NotEncodable _) = NamedError ''TypeError'' ''contains a value that JSON cannot represent''"

definition map_error :: "('e \<Rightarrow> 'f) \<Rightarrow> 'e + 'a \<Rightarrow> 'f + 'a" where
  "map_error f r = (case r of Inl e \<Rightarrow> Inl (f e) | Inr x \<Rightarrow> Inr x)"

definition world_put :: "js_host \<Rightarrow> string \<Rightarrow> world \<Rightarrow> json \<Rightarrow> string \<Rightarrow> world \<times> (run_error + artifact_ref)" where
  "world_put h pid w v ext =
     (case store_put h (\<lambda>fs. fs) pid (wd_files w, wd_sequence w) v ext of
        ((fs, s), r) \<Rightarrow> (w\<lparr>wd_files := fs, wd_sequence := s\<rparr>, map_error store_run_error r))"

definition world_get :: "js_host \<Rightarrow> world \<Rightarrow> artifact_ref \<Rightarrow> run_error + json" where
  "world_get h w ref = map_error store_run_error (store_get h (wd_files w) ref)"

definition run_ports :: "js_host \<Rightarrow> string \<Rightarrow> (string \<Rightarrow> bool) \<Rightarrow> string \<Rightarrow> world ports" where
  "run_ports h pid date_ok run =
     \<lparr>p_append = store_append date_ok run, p_put = world_put h pid, p_get = world_get h\<rparr>"

text \<open>
  \<open>publish\<close>: the value is redacted (\<open>redact\<close>, \<open>None\<close> where it is no JSON), stored, and its
  descriptor replaces the one of the same kind in the index.
\<close>

definition publish_artifact ::
  "js_host \<Rightarrow> string \<Rightarrow> (json \<Rightarrow> json option) \<Rightarrow> world \<Rightarrow> string \<Rightarrow> json \<Rightarrow> string option \<Rightarrow>
     world \<times> (run_error + descriptor)" where
  "publish_artifact h pid redact w kind v node =
     (case redact v of
        None \<Rightarrow> (w, Inl (NamedError ''Error'' ''ARTIFACT_VALUE_NOT_JSON''))
      | Some clean \<Rightarrow>
          (case world_put h pid w clean ''json'' of
             (w1, Inl e) \<Rightarrow> (w1, Inl e)
           | (w1, Inr ref) \<Rightarrow>
               (let d = \<lparr>ds_artifact_id = kind @ ''-'' @ take 16 (ref_hash ref), ds_kind = kind,
                         ds_bytes = ref_length ref, ds_node = node, ds_ref = ref\<rparr> in
                (w1\<lparr>wd_index := filter (\<lambda>item. ds_kind item \<noteq> kind) (wd_index w1) @ [d]\<rparr>, Inr d))))"

text \<open>\<open>createOnce\<close>: a hard link fails where the record exists. \<open>readOnce\<close> reads it.\<close>

definition once_first :: "char \<Rightarrow> bool" where
  "once_first c \<longleftrightarrow> is_digit_char c \<or> is_lower c \<or> (65 \<le> (of_char c :: nat) \<and> (of_char c :: nat) \<le> 90)"

fun once_segment :: "string \<Rightarrow> bool" where
  "once_segment [] \<longleftrightarrow> False"
| "once_segment (c # cs) \<longleftrightarrow>
     once_first c \<and> length cs \<le> 127 \<and> list_all (\<lambda>d. once_first d \<or> d = CHR ''.'' \<or> d = CHR ''_'' \<or> d = CHR ''-'') cs"

definition once_path :: "string list \<Rightarrow> run_error + string list" where
  "once_path path =
     (if path = [] \<or> (\<exists>s \<in> set path. \<not> once_segment s)
      then Inl (NamedError ''Error'' ''INVALID_RUN_RECORD_PATH'') else Inr path)"

definition create_once :: "world \<Rightarrow> string list \<Rightarrow> json \<Rightarrow> world \<times> (run_error + bool)" where
  "create_once w segments v =
     (case once_path segments of
        Inl e \<Rightarrow> (w, Inl e)
      | Inr path \<Rightarrow>
          if wd_once w path \<noteq> None then (w, Inr False)
          else (w\<lparr>wd_once := (wd_once w)(path \<mapsto> v)\<rparr>, Inr True))"

definition read_once :: "world \<Rightarrow> string list \<Rightarrow> run_error + json option" where
  "read_once w segments = result_bind (once_path segments) (\<lambda>path. Inr (wd_once w path))"

section \<open>The store keeps the laws of the activity ports\<close>

text \<open>The bytes of a value have a digest of their own, in the digest's format.\<close>

definition addressable :: "js_host \<Rightarrow> json \<Rightarrow> bool" where
  "addressable h v \<longleftrightarrow>
     (\<forall>x ref b. encode_artifact h v x = Inr (ref, b) \<longrightarrow> no_collision h b \<and> valid_hash (sha256 h b))"

definition world_keeps :: "js_host \<Rightarrow> world \<Rightarrow> artifact_ref \<Rightarrow> bool" where
  "world_keeps h w ref \<longleftrightarrow> good_ref ref \<and> available h (wd_files w) ref"

lemma next_faultD: "next_fault w = (b, w') \<Longrightarrow> \<exists>f. w' = w\<lparr>wd_faults := f\<rparr>"
  by (cases "wd_faults w") (auto simp: next_fault_def intro: exI [of _ "wd_faults w"] exI [of _ "tl (wd_faults w)"])

lemma activity_record_no_event: "activity_record r \<Longrightarrow> \<not> is_run_event d r"
  by (cases r) auto

lemma store_append_journal:
  assumes "activity_record r" "store_append d run w r = (w', res)"
  shows "wd_activity w' = wd_activity w @ (case res of Inl _ \<Rightarrow> [] | Inr _ \<Rightarrow> [r])" "wd_events w' = wd_events w"
  using assms activity_record_no_event [OF assms(1)]
  by (auto simp: store_append_def append_activity_def split: option.splits prod.splits bool.splits dest!: next_faultD)

lemma store_append_event:
  assumes "is_run_event d r" "store_append d run w r = (w', res)"
  shows "wd_events w' = wd_events w @ (case res of Inl _ \<Rightarrow> [] | Inr _ \<Rightarrow> [r])" "wd_activity w' = wd_activity w"
  using assms
  by (auto simp: store_append_def append_event_def split: prod.splits bool.splits if_splits dest!: next_faultD)

lemma store_append_files: "wd_files (fst (store_append d run w r)) = wd_files w"
  by (auto simp: store_append_def append_activity_def append_event_def split: option.splits prod.splits bool.splits
      dest!: next_faultD)

lemma map_error_simps [simp]: "map_error f (Inl e) = Inl (f e)" "map_error f (Inr x) = Inr x"
  by (simp_all add: map_error_def)

lemma map_error_Inr_iff [simp]: "map_error f r = Inr x \<longleftrightarrow> r = Inr x"
  by (cases r) auto

lemma world_put_state:
  "wd_activity (fst (world_put h pid w v x)) = wd_activity w" "wd_once (fst (world_put h pid w v x)) = wd_once w"
  "wd_index (fst (world_put h pid w v x)) = wd_index w" "wd_events (fst (world_put h pid w v x)) = wd_events w"
  by (simp_all add: world_put_def split: prod.splits)

lemma world_put_keeps:
  assumes "addressable h v" "world_put h pid w v x = (w', r)"
  shows "world_keeps h w ref \<Longrightarrow> world_keeps h w' ref" "r = Inr q \<Longrightarrow> world_keeps h w' q"
proof -
  obtain fs s r' where put: "store_put h (\<lambda>fs. fs) pid (wd_files w, wd_sequence w) v x = ((fs, s), r')"
    by (metis surj_pair)
  with assms(2) have w': "wd_files w' = fs" and r: "r = map_error store_run_error r'"
    by (auto simp: world_put_def)
  show "world_keeps h w' ref" if "world_keeps h w ref"
    using store_put_keeps [OF put fair_race_id] that assms(1) w' by (auto simp: world_keeps_def addressable_def)
  assume "r = Inr q"
  with r put have ok: "store_put h (\<lambda>fs. fs) pid (wd_files w, wd_sequence w) v x = ((fs, s), Inr q)"
    by (metis map_error_Inr_iff)
  from store_put_available [OF this fair_race_id] obtain b where
    "encode_artifact h v x = Inr (q, b)" "available h fs q" by blast
  with assms(1) w' show "world_keeps h w' q"
    by (auto simp: world_keeps_def good_ref_def addressable_def encode_artifact_Inr)
qed

lemma world_get_value: "world_get h w ref = Inr v \<Longrightarrow> world_keeps h w ref"
  by (auto simp: world_get_def world_keeps_def dest: store_get_checked)

lemma store_run_error_missing: "store_run_error e = MissingFile m \<Longrightarrow> e = FileMissing"
  by (cases e) auto

lemma world_get_missing: "world_get h w ref = Inl (MissingFile m) \<Longrightarrow> \<not> world_keeps h w ref"
  by (cases "store_get h (wd_files w) ref")
    (auto simp: world_get_def world_keeps_def dest: store_run_error_missing store_get_missing)

interpretation stored: activity_ports "run_ports h pid date_ok run" wd_activity "world_keeps h" "addressable h"
  for h pid date_ok run
proof
  show "activity_record r \<Longrightarrow> p_append (run_ports h pid date_ok run) w r = (w', Inr u) \<Longrightarrow> wd_activity w' = wd_activity w @ [r]"
    for r w w' u by (simp add: run_ports_def store_append_journal)
  show "activity_record r \<Longrightarrow> p_append (run_ports h pid date_ok run) w r = (w', Inl e) \<Longrightarrow> wd_activity w' = wd_activity w"
    for r w w' e by (simp add: run_ports_def store_append_journal)
  show "world_keeps h w ref \<Longrightarrow> world_keeps h (fst (p_append (run_ports h pid date_ok run) w r)) ref" for w ref r
    by (simp add: run_ports_def world_keeps_def store_append_files)
  show "wd_activity (fst (p_put (run_ports h pid date_ok run) w v x)) = wd_activity w" for w v x
    by (simp add: run_ports_def world_put_state)
  show "addressable h v \<Longrightarrow> p_put (run_ports h pid date_ok run) w v x = (w', Inr ref) \<Longrightarrow> world_keeps h w' ref"
    for v w x w' ref by (auto simp: run_ports_def dest: world_put_keeps(2))
  show "addressable h v \<Longrightarrow> world_keeps h w ref \<Longrightarrow> world_keeps h (fst (p_put (run_ports h pid date_ok run) w v x)) ref"
    for v w ref x using world_put_keeps(1) by (auto simp: run_ports_def) (metis prod.collapse)
  show "p_get (run_ports h pid date_ok run) w ref = Inr v \<Longrightarrow> world_keeps h w ref" for w ref v
    by (simp add: run_ports_def world_get_value)
  show "p_get (run_ports h pid date_ok run) w ref = Inl (MissingFile m) \<Longrightarrow> \<not> world_keeps h w ref" for w ref m
    by (simp add: run_ports_def world_get_missing)
qed

section \<open>Publishing and create-once records\<close>

text \<open>The index has one descriptor per kind: the newest.\<close>

definition one_per_kind :: "world \<Rightarrow> bool" where
  "one_per_kind w \<longleftrightarrow> distinct (map ds_kind (wd_index w))"

lemma publish_index:
  assumes "publish_artifact h pid redact w kind v node = (w', Inr d)"
  shows "wd_index w' = filter (\<lambda>item. ds_kind item \<noteq> kind) (wd_index w) @ [d]" "ds_kind d = kind"
  using assms world_put_state(3) [of h pid w]
  by (auto simp: publish_artifact_def Let_def split: option.splits prod.splits sum.splits) (metis fst_conv)

lemma publish_one_per_kind:
  assumes "publish_artifact h pid redact w kind v node = (w', Inr d)" "one_per_kind w"
  shows "one_per_kind w' \<and> find (\<lambda>item. ds_kind item = kind) (wd_index w') = Some d"
proof -
  have "find (\<lambda>item. ds_kind item = kind) (filter (\<lambda>item. ds_kind item \<noteq> kind) xs @ [d]) = Some d" for xs
    using publish_index(2) [OF assms(1)] by (induction xs) auto
  with assms(2) show ?thesis
    by (auto simp: one_per_kind_def distinct_map_filter publish_index [OF assms(1)])
qed

text \<open>The first write of a record wins; later ones see \<open>False\<close> and change nothing.\<close>

lemma create_once_written:
  "create_once w p v = (w', Inr b) \<Longrightarrow> wd_once w' p \<noteq> None \<and> (b \<longrightarrow> wd_once w p = None \<and> wd_once w' p = Some v)"
  by (auto simp: create_once_def once_path_def split: if_splits)

lemma create_once_keeps: "wd_once w p = Some v \<Longrightarrow> wd_once (fst (create_once w q u)) p = Some v"
  by (auto simp: create_once_def once_path_def)

lemma create_once_second:
  "wd_once w p = Some v \<Longrightarrow> once_path p = Inr p \<Longrightarrow> create_once w p u = (w, Inr False)"
  by (simp add: create_once_def)

end
