(* ===== verification/Graph_Plan.thy ===== *)
theory Graph_Plan
  imports Json
begin

text \<open>
  The runner's plan of a workflow graph: \<open>buildGraphPlan\<close> and \<open>normaliseDefinition\<close> of
  \<open>packages/core/src/runner/workflow-runner.ts\<close>, with the activity identities of
  \<open>packages/core/src/activity-id.ts\<close>. The order \<open>lc\<close> on edge ids is \<open>localeCompare\<close>,
  \<open>sha256\<close> the digest of \<open>node:crypto\<close>.
\<close>

section \<open>Graphs\<close>

datatype node_kind = Deterministic | Model | Gate | Loop | Human | Subgraph

record runner_node =
  nd_id :: string
  nd_kind :: node_kind
  nd_label :: string
  nd_goal :: json
  nd_config :: "(string \<times> json) list option"
  nd_maximum :: "number option"
  nd_purpose :: "string option"

text \<open>\<open>ed_rest\<close>: the other properties of the edge object, such as the contracts of an authored edge, which its identity includes.\<close>

record runner_edge =
  ed_id :: string
  ed_from :: string
  ed_to :: string
  ed_rest :: "(string \<times> json) list"

record runner_graph =
  gr_schema :: number
  gr_id :: string
  gr_entry :: string
  gr_nodes :: "runner_node list"
  gr_edges :: "runner_edge list"

datatype plan_error =
    UnknownEntryNode string
  | EdgeTargetsUnknownNode string
  | GraphContainsCycle
  | UnknownNode string
  | IdentityNotJson json_error
  | InvalidConcurrencyLimit

section \<open>Activity identities\<close>

text \<open>The JSON view of a node and of an edge, as the identity serialises them.\<close>

fun kind_string :: "node_kind \<Rightarrow> string" where
  "kind_string Deterministic = ''deterministic''"
| "kind_string Model = ''model''"
| "kind_string Gate = ''gate''"
| "kind_string Loop = ''loop''"
| "kind_string Human = ''human''"
| "kind_string Subgraph = ''subgraph''"

definition optional :: "string \<Rightarrow> ('a \<Rightarrow> json) \<Rightarrow> 'a option \<Rightarrow> (string \<times> json) list" where
  "optional k f v = (case v of None \<Rightarrow> [] | Some x \<Rightarrow> [(k, f x)])"

definition json_of_node :: "runner_node \<Rightarrow> json" where
  "json_of_node n = JObj
     ([(''id'', JStr (nd_id n)), (''kind'', JStr (kind_string (nd_kind n))),
       (''label'', JStr (nd_label n)), (''goal'', nd_goal n)]
      @ optional ''config'' JObj (nd_config n) @ optional ''maximum'' JNum (nd_maximum n)
      @ optional ''purpose'' JStr (nd_purpose n))"

definition json_of_edge :: "runner_edge \<Rightarrow> json" where
  "json_of_edge e = JObj ([(''id'', JStr (ed_id e)), (''from'', JStr (ed_from e)), (''to'', JStr (ed_to e))]
     @ ed_rest e)"

definition activity_id ::
  "js_host \<Rightarrow> string \<Rightarrow> string \<Rightarrow> string \<Rightarrow> json \<Rightarrow> string option \<Rightarrow> json_error + string" where
  "activity_id h run node operation input prompt =
     result_bind (canon (nfc h) (numstr h) input) (\<lambda>text.
     result_bind (canon (nfc h) (numstr h)
       (JArr [JStr run, JStr node, JStr operation, JStr text,
              case prompt of None \<Rightarrow> JNull | Some p \<Rightarrow> JStr p])) (\<lambda>identity.
     Inr (sha256 h identity)))"

definition node_activity_id ::
  "js_host \<Rightarrow> string \<Rightarrow> number \<Rightarrow> string \<Rightarrow> runner_node \<Rightarrow> (runner_edge \<times> string) list \<Rightarrow> plan_error + string" where
  "node_activity_id h run schema n node incoming =
     (case activity_id h run n ''workflow_node''
        (JObj [(''graphSchemaVersion'', JNum schema), (''node'', json_of_node node),
               (''incoming'', JArr (map (\<lambda>(e, i).
                  JObj [(''edge'', json_of_edge e), (''activityId'', JStr i)]) incoming))]) None of
        Inl e \<Rightarrow> Inl (IdentityNotJson e) | Inr i \<Rightarrow> Inr i)"

section \<open>The plan\<close>

text \<open>\<open>new Map(graph.nodes.map((node) => [node.id, node]))\<close>: the last node of an id wins.\<close>

definition node_map :: "runner_node list \<Rightarrow> (string \<times> runner_node) list" where
  "node_map ns = fold (\<lambda>n. AList.update (nd_id n) n) ns []"

definition outgoing :: "js_host \<Rightarrow> runner_edge list \<Rightarrow> string \<Rightarrow> string list" where
  "outgoing h es n = map ed_to (sort_by (on_key (lc h) ed_id) (filter (\<lambda>e. ed_from e = n) es))"

text \<open>The breadth-first walk: the queue, and the reachable nodes in the order of their visit.\<close>

function walk ::
  "(string \<times> 'n) list \<Rightarrow> (string \<Rightarrow> string list) \<Rightarrow> string list \<Rightarrow> string list \<Rightarrow> plan_error + string list" where
  "walk nodes succs [] order = Inr order"
| "walk nodes succs (n # queue) order =
     (if n \<in> set order then walk nodes succs queue order
      else if n \<notin> fst ` set nodes then Inl (EdgeTargetsUnknownNode n)
      else walk nodes succs (queue @ succs n) (order @ [n]))"
  by pat_completeness auto
termination
proof (relation "measures [\<lambda>(nodes, succs, queue, order). card (fst ` set nodes - set order),
    \<lambda>(nodes, succs, queue, order). length queue]", goal_cases)
  case (3 nodes succs n queue order)
  then have "fst ` set nodes - set (order @ [n]) \<subset> fst ` set nodes - set order" by auto
  then have "card (fst ` set nodes - set (order @ [n])) < card (fst ` set nodes - set order)"
    by (intro psubset_card_mono) auto
  then show ?case by simp
qed auto

definition incoming_edges :: "runner_edge list \<Rightarrow> string list \<Rightarrow> string \<Rightarrow> runner_edge list" where
  "incoming_edges es order n =
     filter (\<lambda>e. ed_from e \<in> set order \<and> ed_to e \<in> set order \<and> ed_to e = n) es"

definition predecessors :: "runner_edge list \<Rightarrow> string list \<Rightarrow> string \<Rightarrow> string list" where
  "predecessors es order n = map ed_from (incoming_edges es order n)"

text \<open>
  \<open>identify\<close>: the identity of a node from those of its predecessors, memoised in \<open>memo\<close>
  (the source's \<open>activityIds\<close>). The call stack is \<open>visiting\<close>: the source adds a node before
  it descends and removes it after. \<open>identify_all\<close> runs it over a list of edges and
  pairs each with the identity of its source.
\<close>

function identify ::
    "(string \<times> runner_node) list \<Rightarrow> (string \<Rightarrow> runner_edge list) \<Rightarrow>
     (string \<Rightarrow> runner_node \<Rightarrow> (runner_edge \<times> string) list \<Rightarrow> plan_error + string) \<Rightarrow>
     string list \<Rightarrow> string \<Rightarrow> (string \<times> string) list \<Rightarrow> plan_error + string \<times> (string \<times> string) list"
  and identify_all ::
    "(string \<times> runner_node) list \<Rightarrow> (string \<Rightarrow> runner_edge list) \<Rightarrow>
     (string \<Rightarrow> runner_node \<Rightarrow> (runner_edge \<times> string) list \<Rightarrow> plan_error + string) \<Rightarrow>
     string list \<Rightarrow> runner_edge list \<Rightarrow> (string \<times> string) list \<Rightarrow>
     plan_error + (runner_edge \<times> string) list \<times> (string \<times> string) list"
where
  "identify nodes inc act visiting n memo =
     (case map_of memo n of
        Some i \<Rightarrow> Inr (i, memo)
      | None \<Rightarrow>
          if n \<in> set visiting then Inl GraphContainsCycle
          else (case map_of nodes n of
              None \<Rightarrow> Inl (UnknownNode n)
            | Some node \<Rightarrow>
                result_bind (identify_all nodes inc act (n # visiting) (inc n) memo) (\<lambda>(xs, memo').
                result_bind (act n node xs) (\<lambda>i. Inr (i, AList.update n i memo')))))"
| "identify_all nodes inc act visiting [] memo = Inr ([], memo)"
| "identify_all nodes inc act visiting (e # es) memo =
     result_bind (identify nodes inc act visiting (ed_from e) memo) (\<lambda>(i, memo').
     result_bind (identify_all nodes inc act visiting es memo') (\<lambda>(xs, memo'').
     Inr ((e, i) # xs, memo'')))"
  by pat_completeness auto
termination
proof (relation "inv_image (less_than <*lex*> less_than) (\<lambda>x. case x of
      Inl (nodes, inc, act, visiting, n, memo) \<Rightarrow> (card (fst ` set nodes - set visiting), 0)
    | Inr (nodes, inc, act, visiting, es, memo) \<Rightarrow> (card (fst ` set nodes - set visiting), Suc (length es)))",
    goal_cases)
  case (2 nodes inc act visiting n memo node)
  then have "fst ` set nodes - set (n # visiting) \<subset> fst ` set nodes - set visiting"
    by (auto dest: map_of_SomeD_key)
  then have "card (fst ` set nodes - set (n # visiting)) < card (fst ` set nodes - set visiting)"
    by (intro psubset_card_mono) auto
  then show ?case by simp
qed auto

declare identify.simps [simp del] identify_all.simps [simp del] walk.simps [simp del]

record graph_plan =
  pl_order :: "string list"
  pl_nodes :: "(string \<times> runner_node) list"
  pl_predecessors :: "string \<Rightarrow> string list"
  pl_ids :: "(string \<times> string) list"

definition build_graph_plan :: "js_host \<Rightarrow> runner_graph \<Rightarrow> string \<Rightarrow> plan_error + graph_plan" where
  "build_graph_plan h g run =
     (let nodes = node_map (gr_nodes g) in
      if gr_entry g \<notin> fst ` set nodes then Inl (UnknownEntryNode (gr_entry g))
      else
        result_bind (walk nodes (outgoing h (gr_edges g)) [gr_entry g] []) (\<lambda>order.
        let inc = (\<lambda>n. sort_by (on_key (lc h) ed_id) (incoming_edges (gr_edges g) order n));
            act = node_activity_id h run (gr_schema g) in
        result_bind
          (result_fold (\<lambda>n memo. result_bind (identify nodes inc act [] n memo) (\<lambda>(i, memo'). Inr memo')) order [])
          (\<lambda>ids. Inr \<lparr>pl_order = order, pl_nodes = nodes,
                      pl_predecessors = predecessors (gr_edges g) order, pl_ids = ids\<rparr>)))"

text \<open>\<open>normaliseDefinition\<close>\<close>

definition default_concurrency_limit :: int where
  "default_concurrency_limit = 4"

definition normalise_limit :: "number option \<Rightarrow> plan_error + nat" where
  "normalise_limit limit =
     (let l = (case limit of None \<Rightarrow> num default_concurrency_limit | Some l \<Rightarrow> l) in
      if \<not> safe_integer l \<or> num_less l (num 1) then Inl InvalidConcurrencyLimit
      else Inr (nat (int_of_number l)))"

section \<open>The walk finds exactly the reachable nodes\<close>

definition succ_rel :: "(string \<Rightarrow> string list) \<Rightarrow> (string \<times> string) set" where
  "succ_rel succs = {(a, b). b \<in> set (succs a)}"

definition walk_inv ::
  "(string \<times> 'n) list \<Rightarrow> (string \<Rightarrow> string list) \<Rightarrow> string \<Rightarrow> string list \<Rightarrow> string list \<Rightarrow> bool" where
  "walk_inv nodes succs s queue order \<longleftrightarrow>
     distinct order \<and> set order \<subseteq> fst ` set nodes
     \<and> (\<forall>n \<in> set order. set (succs n) \<subseteq> set order \<union> set queue)
     \<and> set order \<union> set queue \<subseteq> (succ_rel succs)\<^sup>* `` {s}"

lemma walk_inv_skip: "walk_inv nodes succs s (n # queue) order \<Longrightarrow> n \<in> set order \<Longrightarrow> walk_inv nodes succs s queue order"
  by (auto simp: walk_inv_def)

lemma walk_inv_visit:
  assumes "walk_inv nodes succs s (n # queue) order" "n \<notin> set order" "n \<in> fst ` set nodes"
  shows "walk_inv nodes succs s (queue @ succs n) (order @ [n])"
proof -
  from assms(1) have "set (succs n) \<subseteq> (succ_rel succs)\<^sup>* `` {s}"
    by (auto simp: walk_inv_def succ_rel_def intro: rtrancl_into_rtrancl)
  with assms show ?thesis by (auto simp: walk_inv_def)
qed

lemma walk_sound:
  "walk nodes succs queue order = Inr r \<Longrightarrow> walk_inv nodes succs s queue order \<Longrightarrow>
     walk_inv nodes succs s [] r \<and> set order \<union> set queue \<subseteq> set r \<and> (\<exists>xs. r = order @ xs)"
proof (induction nodes succs queue order rule: walk.induct)
  case (1 nodes succs order)
  then show ?case by (simp add: walk.simps)
next
  case (2 nodes succs n queue order)
  show ?case
  proof (cases "n \<in> set order")
    case True
    with "2.prems" have "walk nodes succs queue order = Inr r" by (simp add: walk.simps)
    with True "2.IH"(1) "2.prems"(2) show ?thesis by (auto dest: walk_inv_skip)
  next
    case new: False
    with "2.prems"(1) have n: "n \<in> fst ` set nodes" by (auto simp: walk.simps split: if_splits)
    with new "2.prems"(1) have "walk nodes succs (queue @ succs n) (order @ [n]) = Inr r"
      by (simp add: walk.simps)
    with new n "2.prems"(2) have "walk_inv nodes succs s [] r
        \<and> set (order @ [n]) \<union> set (queue @ succs n) \<subseteq> set r \<and> (\<exists>xs. r = (order @ [n]) @ xs)"
      by (intro "2.IH"(2)) (auto dest: walk_inv_visit)
    then show ?thesis by auto
  qed
qed

lemma walk_inv_closed:
  assumes "walk_inv nodes succs s [] r" "s \<in> set r"
  shows "set r = (succ_rel succs)\<^sup>* `` {s}"
proof
  have "t \<in> set r" if "(s, t) \<in> (succ_rel succs)\<^sup>*" for t
    using that assms by (induction rule: rtrancl_induct) (auto simp: walk_inv_def succ_rel_def)
  then show "(succ_rel succs)\<^sup>* `` {s} \<subseteq> set r" by blast
qed (use assms in \<open>simp add: walk_inv_def\<close>)

lemma walk_reachable:
  assumes "walk nodes succs [s] [] = Inr r"
  shows "distinct r" "set r = (succ_rel succs)\<^sup>* `` {s}" "set r \<subseteq> fst ` set nodes" "s \<in> set r"
proof -
  have "walk_inv nodes succs s [s] []" by (simp add: walk_inv_def)
  with assms have *: "walk_inv nodes succs s [] r \<and> s \<in> set r" by (auto dest!: walk_sound)
  then show "set r = (succ_rel succs)\<^sup>* `` {s}" using walk_inv_closed by blast
  from * show "distinct r" "set r \<subseteq> fst ` set nodes" "s \<in> set r" by (auto simp: walk_inv_def)
qed

text \<open>The walk fails only on an edge to a node that does not exist.\<close>

lemma walk_complete:
  assumes "\<forall>n \<in> fst ` set nodes. set (succs n) \<subseteq> fst ` set nodes" "set queue \<subseteq> fst ` set nodes"
  shows "\<exists>r. walk nodes succs queue order = Inr r"
  using assms by (induction nodes succs queue order rule: walk.induct) (auto simp: walk.simps)

section \<open>Identities are assigned in dependency order\<close>

text \<open>
  The memo lists its nodes so that every node comes after its predecessors, and each
  identity is the digest of the node and its predecessors' identities.
\<close>

definition resolve :: "(string \<times> string) list \<Rightarrow> runner_edge list \<Rightarrow> (runner_edge \<times> string) list" where
  "resolve memo es = map (\<lambda>e. (e, the (map_of memo (ed_from e)))) es"

lemma resolve_append:
  "\<forall>e \<in> set es. ed_from e \<in> fst ` set memo \<Longrightarrow> resolve (memo @ xs) es = resolve memo es"
  by (auto simp: resolve_def map_add_def map_of_eq_None_iff split: option.splits)

lemma resolve_simps [simp]:
  "resolve memo [] = []"
  "resolve memo (e # es) = (e, the (map_of memo (ed_from e))) # resolve memo es"
  by (simp_all add: resolve_def)

inductive dependency_order ::
  "(string \<times> runner_node) list \<Rightarrow> (string \<Rightarrow> runner_edge list) \<Rightarrow>
   (string \<Rightarrow> runner_node \<Rightarrow> (runner_edge \<times> string) list \<Rightarrow> plan_error + string) \<Rightarrow> (string \<times> string) list \<Rightarrow> bool"
  for nodes inc act where
  empty: "dependency_order nodes inc act []"
| snoc: "dependency_order nodes inc act memo \<Longrightarrow> n \<notin> fst ` set memo \<Longrightarrow>
     \<forall>e \<in> set (inc n). ed_from e \<in> fst ` set memo \<Longrightarrow> map_of nodes n = Some node \<Longrightarrow>
     act n node (resolve memo (inc n)) = Inr i \<Longrightarrow>
     dependency_order nodes inc act (memo @ [(n, i)])"

lemma map_of_append_keep: "map_of xs k = Some v \<Longrightarrow> map_of (xs @ ys) k = Some v"
  by (simp add: map_add_def)

lemma identify_order:
  "(identify nodes inc act visiting n memo = Inr (i, memo') \<longrightarrow>
      dependency_order nodes inc act memo \<longrightarrow> set visiting \<inter> fst ` set memo = {} \<longrightarrow>
      dependency_order nodes inc act memo' \<and> set visiting \<inter> fst ` set memo' = {}
      \<and> (\<exists>xs. memo' = memo @ xs) \<and> map_of memo' n = Some i)"
  "(identify_all nodes inc act visiting es memo = Inr (xs, memo') \<longrightarrow>
      dependency_order nodes inc act memo \<longrightarrow> set visiting \<inter> fst ` set memo = {} \<longrightarrow>
      dependency_order nodes inc act memo' \<and> set visiting \<inter> fst ` set memo' = {}
      \<and> (\<exists>ys. memo' = memo @ ys) \<and> (\<forall>e \<in> set es. ed_from e \<in> fst ` set memo')
      \<and> xs = resolve memo' es)"
proof (induction nodes inc act visiting n memo and nodes inc act visiting es memo
    arbitrary: i memo' and xs memo' rule: identify_identify_all.induct)
  case (1 nodes inc act visiting n memo)
  show ?case
  proof (intro impI)
    assume res: "identify nodes inc act visiting n memo = Inr (i, memo')"
      and dep: "dependency_order nodes inc act memo" and dis: "set visiting \<inter> fst ` set memo = {}"
    show "dependency_order nodes inc act memo' \<and> set visiting \<inter> fst ` set memo' = {}
      \<and> (\<exists>xs. memo' = memo @ xs) \<and> map_of memo' n = Some i"
    proof (cases "map_of memo n")
      case (Some j)
      with res dep dis show ?thesis by (simp add: identify.simps)
    next
      case None
      with res obtain node xs m where node: "map_of nodes n = Some node" and fresh: "n \<notin> set visiting"
        and all: "identify_all nodes inc act (n # visiting) (inc n) memo = Inr (xs, m)"
        and act: "act n node xs = Inr i" and memo': "memo' = AList.update n i m"
        by (auto simp: identify.simps [of _ _ _ _ n] result_simps split: if_splits option.splits)
      have "set (n # visiting) \<inter> fst ` set memo = {}"
        using dis None by (auto simp: map_of_eq_None_iff)
      with 1 None fresh node all dep have IH: "dependency_order nodes inc act m" "n \<notin> fst ` set m"
        "set visiting \<inter> fst ` set m = {}" "\<exists>ys. m = memo @ ys" "\<forall>e \<in> set (inc n). ed_from e \<in> fst ` set m"
        "xs = resolve m (inc n)"
        by auto
      then have upd: "memo' = m @ [(n, i)]" using memo' by (simp add: map_fst_update_notin)
      have "dependency_order nodes inc act (m @ [(n, i)])"
        using IH node act by (intro dependency_order.snoc) auto
      moreover have "map_of (m @ [(n, i)]) n = Some i"
        using IH(2) by (simp add: map_add_def map_of_eq_None_iff [THEN iffD2])
      ultimately show ?thesis using upd IH fresh by auto
    qed
  qed
next
  case (2 nodes inc act visiting memo)
  then show ?case by (simp add: identify_all.simps)
next
  case (3 nodes inc act visiting e es memo)
  show ?case
  proof (intro impI)
    assume res: "identify_all nodes inc act visiting (e # es) memo = Inr (xs, memo')"
      and dep: "dependency_order nodes inc act memo" and dis: "set visiting \<inter> fst ` set memo = {}"
    from res obtain j m1 ys where one: "identify nodes inc act visiting (ed_from e) memo = Inr (j, m1)"
      and rest: "identify_all nodes inc act visiting es m1 = Inr (ys, memo')" and xs: "xs = (e, j) # ys"
      by (auto simp: identify_all.simps result_simps)
    from "3.IH"(1) one dep dis have m1: "dependency_order nodes inc act m1"
      "set visiting \<inter> fst ` set m1 = {}" "\<exists>zs. m1 = memo @ zs" "map_of m1 (ed_from e) = Some j"
      by auto
    from "3.IH"(2) one rest m1 have m2: "dependency_order nodes inc act memo'"
      "set visiting \<inter> fst ` set memo' = {}" "\<exists>zs. memo' = m1 @ zs" "\<forall>e \<in> set es. ed_from e \<in> fst ` set memo'"
      "ys = resolve memo' es" by auto
    from m1(4) m2(3) have j: "map_of memo' (ed_from e) = Some j" by (auto intro: map_of_append_keep)
    then have "ed_from e \<in> fst ` set memo'" by (rule map_of_SomeD_key)
    with m1(3) m2 j xs show "dependency_order nodes inc act memo' \<and> set visiting \<inter> fst ` set memo' = {}
      \<and> (\<exists>ys. memo' = memo @ ys) \<and> (\<forall>e \<in> set (e # es). ed_from e \<in> fst ` set memo')
      \<and> xs = resolve memo' (e # es)"
      by auto
  qed
qed


lemma dependency_order_prefix:
  assumes "dependency_order nodes inc act memo" "memo = us @ (n, i) # vs"
  shows "(\<forall>e \<in> set (inc n). ed_from e \<in> fst ` set us) \<and> n \<notin> fst ` set us
    \<and> (\<exists>node. map_of nodes n = Some node \<and> act n node (resolve memo (inc n)) = Inr i)"
  using assms
proof (induction arbitrary: vs rule: dependency_order.induct)
  case empty
  then show ?case by simp
next
  case (snoc memo m node j)
  show ?case
  proof (cases vs rule: rev_cases)
    case Nil
    with snoc.prems have "us = memo" "m = n" "j = i" by auto
    with snoc.hyps show ?thesis by (auto simp: resolve_append)
  next
    case (snoc vs' v)
    with snoc.prems have memo: "memo = us @ (n, i) # vs'" by auto
    with snoc.IH have IH: "\<forall>e \<in> set (inc n). ed_from e \<in> fst ` set us" "n \<notin> fst ` set us"
      "\<exists>node. map_of nodes n = Some node \<and> act n node (resolve memo (inc n)) = Inr i" by blast+
    then have "resolve (memo @ [(m, j)]) (inc n) = resolve memo (inc n)"
      by (intro resolve_append) (auto simp: memo)
    with IH show ?thesis by simp
  qed
qed

lemma dependency_order_distinct: "dependency_order nodes inc act memo \<Longrightarrow> distinct (map fst memo)"
  by (induction rule: dependency_order.induct) auto

section \<open>The plan is a topological order of the reachable nodes\<close>

definition incoming_sorted :: "js_host \<Rightarrow> runner_graph \<Rightarrow> string list \<Rightarrow> string \<Rightarrow> runner_edge list" where
  "incoming_sorted h g order n = sort_by (on_key (lc h) ed_id) (incoming_edges (gr_edges g) order n)"

lemma identify_fold:
  assumes "result_fold (\<lambda>n memo. result_bind (identify nodes inc act [] n memo) (\<lambda>(i, memo'). Inr memo')) order memo
      = Inr ids" "dependency_order nodes inc act memo"
  shows "dependency_order nodes inc act ids \<and> (\<exists>xs. ids = memo @ xs) \<and> set order \<subseteq> fst ` set ids"
  using assms
proof (induction order arbitrary: memo)
  case Nil
  then show ?case by simp
next
  case (Cons n order)
  from Cons.prems(1) obtain i m where one: "identify nodes inc act [] n memo = Inr (i, m)"
    and rest: "result_fold (\<lambda>n memo. result_bind (identify nodes inc act [] n memo)
      (\<lambda>(i, memo'). Inr memo')) order m = Inr ids"
    by (auto simp: result_simps)
  from identify_order(1) one Cons.prems(2)
  have m: "dependency_order nodes inc act m" "\<exists>xs. m = memo @ xs" and "map_of m n = Some i" by auto
  then have "n \<in> fst ` set m" by (blast intro: map_of_SomeD_key)
  with Cons.IH [OF rest m(1)] m show ?case by auto
qed

lemma identify_keys:
  assumes K: "\<And>k e. e \<in> set (inc k) \<Longrightarrow> ed_from e \<in> K"
  shows "identify nodes inc act visiting n memo = Inr r \<Longrightarrow> n \<in> K \<Longrightarrow> fst ` set memo \<subseteq> K \<Longrightarrow>
      fst ` set (snd r) \<subseteq> K"
    and "identify_all nodes inc act visiting es memo = Inr q \<Longrightarrow> \<forall>e \<in> set es. ed_from e \<in> K \<Longrightarrow>
      fst ` set memo \<subseteq> K \<Longrightarrow> fst ` set (snd q) \<subseteq> K"
  using K
proof (induction nodes inc act visiting n memo and nodes inc act visiting es memo
    arbitrary: r and q rule: identify_identify_all.induct)
  case (1 nodes inc act visiting n memo)
  show ?case
  proof (cases "map_of memo n")
    case (Some j)
    with 1(2) have "r = (j, memo)" by (simp add: identify.simps)
    with 1(4) show ?thesis by simp
  next
    case None
    with 1(2) obtain node xs m i where node: "map_of nodes n = Some node" and fresh: "n \<notin> set visiting"
      and all: "identify_all nodes inc act (n # visiting) (inc n) memo = Inr (xs, m)"
      and r: "r = (i, AList.update n i m)"
      by (auto simp: identify.simps [of _ _ _ _ n] result_simps split: if_splits option.splits)
    have "fst ` set (snd (xs, m)) \<subseteq> K"
      using 1(1) [OF None fresh node all] 1(4,5) by blast
    with r 1(3) show ?thesis by simp
  qed
next
  case (2 nodes inc act visiting memo)
  then have "q = ([], memo)" by (simp add: identify_all.simps)
  with 2(3) show ?case by simp
next
  case (3 nodes inc act visiting e es memo)
  from 3(3) obtain j m1 ys m2 where one: "identify nodes inc act visiting (ed_from e) memo = Inr (j, m1)"
    and rest: "identify_all nodes inc act visiting es m1 = Inr (ys, m2)" and q: "q = ((e, j) # ys, m2)"
    by (auto simp: identify_all.simps result_simps)
  have "fst ` set (snd (j, m1)) \<subseteq> K" using 3(1) [OF one] 3(4-6) by simp
  then have "fst ` set (snd (ys, m2)) \<subseteq> K" using 3(2) [OF rest] 3(4,6) by simp
  with q show ?case by simp
qed


lemma identify_all_edges:
  "identify nodes inc act visiting n memo = r \<Longrightarrow> True"
  "identify_all nodes inc act visiting es memo = Inr (xs, m) \<Longrightarrow> map fst xs = es"
proof (induction nodes inc act visiting n memo and nodes inc act visiting es memo arbitrary: r and xs m
    rule: identify_identify_all.induct)
  case (3 nodes inc act visiting e es memo)
  then show ?case by (auto simp: identify_all.simps result_simps split: prod.splits)
qed (auto simp: identify_all.simps)

lemma identify_succeeds:
  assumes "K \<subseteq> fst ` set nodes"
    and "\<And>n e. n \<in> K \<Longrightarrow> e \<in> set (inc n) \<Longrightarrow> ed_from e \<in> K \<and> rank (ed_from e) < (rank n :: nat)"
    and "\<And>n node xs. map_of nodes n = Some node \<Longrightarrow> map fst xs = inc n \<Longrightarrow> \<exists>i. act n node xs = Inr i"
  shows "n \<in> K \<Longrightarrow> \<forall>v \<in> set visiting. rank n < rank v \<Longrightarrow> \<exists>r. identify nodes inc act visiting n memo = Inr r"
    and "\<forall>e \<in> set es. ed_from e \<in> K \<and> (\<forall>v \<in> set visiting. rank (ed_from e) < rank v) \<Longrightarrow>
      \<exists>q. identify_all nodes inc act visiting es memo = Inr q"
  using assms
proof (induction nodes inc act visiting n memo and nodes inc act visiting es memo
    rule: identify_identify_all.induct)
  case (1 nodes inc act visiting n memo)
  show ?case
  proof (cases "map_of memo n")
    case (Some j)
    then show ?thesis by (simp add: identify.simps)
  next
    case None
    from 1(3) have fresh: "n \<notin> set visiting" by blast
    from 1(2,4) obtain node where node: "map_of nodes n = Some node"
      by (metis map_of_eq_None_iff option.exhaust subsetD)
    have "\<exists>q. identify_all nodes inc act (n # visiting) (inc n) memo = Inr q"
    proof (rule 1(1) [OF None fresh node _ 1(4) 1(5) 1(6)])
      show "\<forall>e \<in> set (inc n). ed_from e \<in> K \<and> (\<forall>v \<in> set (n # visiting). rank (ed_from e) < rank v)"
        using 1(2,3) 1(5) by (auto intro: less_trans)
    qed auto
    then obtain xs m where all: "identify_all nodes inc act (n # visiting) (inc n) memo = Inr (xs, m)" by auto
    obtain i where "act n node xs = Inr i" using 1(6) [OF node identify_all_edges(2) [OF all]] by blast
    with all None fresh node show ?thesis by (simp add: identify.simps)
  qed
next
  case (2 nodes inc act visiting memo)
  then show ?case by (simp add: identify_all.simps)
next
  case (3 nodes inc act visiting e es memo)
  have "\<exists>r. identify nodes inc act visiting (ed_from e) memo = Inr r"
    by (rule 3(1)) (use 3(3-6) in auto)
  then obtain j m1 where one: "identify nodes inc act visiting (ed_from e) memo = Inr (j, m1)" by auto
  have "\<exists>q. identify_all nodes inc act visiting es m1 = Inr q"
    by (rule 3(2)) (use 3(3-6) in auto)
  then obtain ys m2 where "identify_all nodes inc act visiting es m1 = Inr (ys, m2)" by auto
  with one show ?case by (simp add: identify_all.simps)
qed

text \<open>What a plan guarantees: its nodes are the reachable ones and each has an identity.\<close>

lemma incoming_edges_source: "e \<in> set (incoming_edges es order n) \<Longrightarrow> ed_from e \<in> set order"
  by (simp add: incoming_edges_def)

lemma build_plan_cases:
  assumes "build_graph_plan h g run = Inr p"
  shows "walk (node_map (gr_nodes g)) (outgoing h (gr_edges g)) [gr_entry g] [] = Inr (pl_order p)"
    "pl_predecessors p = predecessors (gr_edges g) (pl_order p)" "pl_nodes p = node_map (gr_nodes g)"
    "dependency_order (node_map (gr_nodes g)) (incoming_sorted h g (pl_order p))
       (node_activity_id h run (gr_schema g)) (pl_ids p)"
    "fst ` set (pl_ids p) = set (pl_order p)"
proof -
  let ?inc = "incoming_sorted h g"
  let ?nodes = "node_map (gr_nodes g)"
  let ?act = "node_activity_id h run (gr_schema g)"
  let ?step = "\<lambda>order n memo. result_bind (identify ?nodes (?inc order) ?act [] n memo) (\<lambda>(i, memo'). Inr memo')"
  from assms obtain order ids where
    w: "walk ?nodes (outgoing h (gr_edges g)) [gr_entry g] [] = Inr order" and
    f: "result_fold (?step order) order [] = Inr ids" and
    p: "p = \<lparr>pl_order = order, pl_nodes = ?nodes, pl_predecessors = predecessors (gr_edges g) order, pl_ids = ids\<rparr>"
    by (auto simp: build_graph_plan_def Let_def result_simps incoming_sorted_def [abs_def] split: if_splits)
  then show "walk ?nodes (outgoing h (gr_edges g)) [gr_entry g] [] = Inr (pl_order p)"
    "pl_predecessors p = predecessors (gr_edges g) (pl_order p)" "pl_nodes p = ?nodes" by simp_all
  from f have ids: "dependency_order ?nodes (?inc order) ?act ids" "set order \<subseteq> fst ` set ids"
    by (auto dest: identify_fold intro: dependency_order.empty)
  then show "dependency_order ?nodes (?inc (pl_order p)) ?act (pl_ids p)" using p by simp
  have "fst ` set ids \<subseteq> set order"
  proof (rule result_fold_invariant [OF f, where I = "\<lambda>m. fst ` set m \<subseteq> set order"])
    show "fst ` set v \<subseteq> set order"
      if "n \<in> set order" "fst ` set u \<subseteq> set order" "?step order n u = Inr v" for n u v
    proof -
      from that obtain i where "identify ?nodes (?inc order) ?act [] n u = Inr (i, v)"
        by (auto simp: result_simps)
      then have "fst ` set (snd (i, v)) \<subseteq> set order"
        by (rule identify_keys(1) [rotated]) (use that in \<open>auto simp: incoming_sorted_def incoming_edges_def\<close>)
      then show ?thesis by simp
    qed
  qed simp
  with ids(2) p show "fst ` set (pl_ids p) = set (pl_order p)" by auto
qed

lemma plan_order:
  assumes "build_graph_plan h g run = Inr p"
  shows "distinct (pl_order p)" "set (pl_order p) = (succ_rel (outgoing h (gr_edges g)))\<^sup>* `` {gr_entry g}"
    "set (pl_order p) \<subseteq> fst ` set (pl_nodes p)" "gr_entry g \<in> set (pl_order p)"
  using walk_reachable [OF build_plan_cases(1) [OF assms]] build_plan_cases(3) [OF assms] by simp_all

lemma plan_predecessors_in: "build_graph_plan h g run = Inr p \<Longrightarrow> set (pl_predecessors p n) \<subseteq> set (pl_order p)"
  by (auto simp: build_plan_cases predecessors_def incoming_edges_def)

text \<open>The identities are listed in a topological order of the graph.\<close>

lemma plan_topological:
  assumes "build_graph_plan h g run = Inr p" "pl_ids p = us @ (n, i) # vs"
  shows "set (pl_predecessors p n) \<subseteq> fst ` set us" "n \<notin> fst ` set us"
  using dependency_order_prefix [OF build_plan_cases(4) [OF assms(1)] assms(2)]
  by (auto simp: build_plan_cases(2) [OF assms(1)] predecessors_def incoming_sorted_def)

lemma plan_rank:
  assumes "build_graph_plan h g run = Inr p"
  obtains rank :: "string \<Rightarrow> nat"
  where "\<And>n q. n \<in> set (pl_order p) \<Longrightarrow> q \<in> set (pl_predecessors p n) \<Longrightarrow> rank q < rank n"
proof
  let ?rank = "\<lambda>n. length (takeWhile (\<lambda>x. fst x \<noteq> n) (pl_ids p))"
  fix n q
  assume "n \<in> set (pl_order p)" and q: "q \<in> set (pl_predecessors p n)"
  then obtain i where "(n, i) \<in> set (pl_ids p)" using build_plan_cases(5) [OF assms] by force
  then obtain us vs where split: "pl_ids p = us @ (n, i) # vs" by (meson split_list)
  from plan_topological [OF assms split] q have "q \<in> fst ` set us" "n \<notin> fst ` set us" by auto
  have "takeWhile (\<lambda>x. fst x \<noteq> n) (us @ (n, i) # vs) = us"
    using \<open>n \<notin> fst ` set us\<close> by (subst takeWhile_append2) auto
  then have "?rank n = length us" by (simp add: split)
  moreover from \<open>q \<in> fst ` set us\<close> have "?rank q < length us"
  proof -
    obtain x where x: "x \<in> set us" "fst x = q" using \<open>q \<in> fst ` set us\<close> by auto
    then have "takeWhile (\<lambda>x. fst x \<noteq> q) (pl_ids p) = takeWhile (\<lambda>x. fst x \<noteq> q) us"
      using split by (metis (mono_tags, lifting) takeWhile_append1)
    moreover have "takeWhile (\<lambda>x. fst x \<noteq> q) us \<noteq> us"
      using x by (metis (mono_tags, lifting) takeWhile_eq_all_conv)
    moreover have "length (takeWhile (\<lambda>x. fst x \<noteq> q) us) \<le> length us" by (rule length_takeWhile_le)
    ultimately show ?thesis
      by (metis (no_types, lifting) append_eq_append_conv le_neq_implies_less takeWhile_dropWhile_id append.right_neutral)
  qed
  ultimately show "?rank q < ?rank n" by simp
qed

section \<open>Graphs that have a plan\<close>

lemma keys_node_map: "fst ` set (node_map ns) = nd_id ` set ns"
proof -
  have "fst ` set (fold (\<lambda>n. AList.update (nd_id n) n) ns m) = fst ` set m \<union> nd_id ` set ns" for m
    by (induction ns arbitrary: m) auto
  then show ?thesis by (simp add: node_map_def)
qed

lemma node_map_in: "map_of (node_map ns) k = Some n \<Longrightarrow> n \<in> set ns"
proof -
  have "map_of (fold (\<lambda>n. AList.update (nd_id n) n) ns m) k = Some n \<Longrightarrow> map_of m k = Some n \<or> n \<in> set ns" for m
    by (induction ns arbitrary: m) (fastforce split: if_splits)+
  then show "map_of (node_map ns) k = Some n \<Longrightarrow> n \<in> set ns" by (fastforce simp: node_map_def)
qed

text \<open>An acyclic graph with known nodes and computable identities has a plan.\<close>

lemma build_plan_succeeds:
  assumes "gr_entry g \<in> nd_id ` set (gr_nodes g)" and ends: "\<And>e. e \<in> set (gr_edges g) \<Longrightarrow> ed_to e \<in> nd_id ` set (gr_nodes g)"
    and rank: "\<And>e. e \<in> set (gr_edges g) \<Longrightarrow> rank (ed_from e) < (rank (ed_to e) :: nat)"
    and act: "\<And>n node xs. node \<in> set (gr_nodes g) \<Longrightarrow> fst ` set xs \<subseteq> set (gr_edges g) \<Longrightarrow> \<exists>i. node_activity_id h run (gr_schema g) n node xs = Inr i"
  shows "\<exists>p. build_graph_plan h g run = Inr p"
proof -
  let ?nodes = "node_map (gr_nodes g)"
  have "set (outgoing h (gr_edges g) n) \<subseteq> fst ` set ?nodes" for n using ends by (auto simp: outgoing_def keys_node_map)
  then obtain order where order: "walk ?nodes (outgoing h (gr_edges g)) [gr_entry g] [] = Inr order"
    using walk_complete [of ?nodes "outgoing h (gr_edges g)" "[gr_entry g]" "[]"] assms(1) by (auto simp: keys_node_map)
  let ?inc = "\<lambda>n. sort_by (on_key (lc h) ed_id) (incoming_edges (gr_edges g) order n)" and ?act = "node_activity_id h run (gr_schema g)"
  have one: "\<exists>r. identify ?nodes ?inc ?act [] n memo = Inr r" if "n \<in> set order" for n memo
  proof (rule identify_succeeds(1) [where K = "set order" and rank = rank])
    show "set order \<subseteq> fst ` set ?nodes" by (rule walk_reachable(3) [OF order])
    show "ed_from e \<in> set order \<and> rank (ed_from e) < rank k" if "e \<in> set (?inc k)" for k e
      using that rank [of e] by (auto simp: incoming_edges_def)
    show "\<exists>i. ?act k node xs = Inr i" if "map_of ?nodes k = Some node" "map fst xs = ?inc k" for k node xs
    proof (rule act [OF node_map_in [OF that(1)]])
      have "fst ` set xs = set (?inc k)" using that(2) by (metis set_map)
      then show "fst ` set xs \<subseteq> set (gr_edges g)" by (auto simp: incoming_edges_def)
    qed
  qed (use that in auto)
  have "\<exists>ids. result_fold (\<lambda>n memo. result_bind (identify ?nodes ?inc ?act [] n memo) (\<lambda>(i, memo'). Inr memo')) ns memo = Inr ids"
    if "set ns \<subseteq> set order" for ns memo
    using that
  proof (induction ns arbitrary: memo)
    case (Cons n ns)
    then obtain i m where "identify ?nodes ?inc ?act [] n memo = Inr (i, m)" using one by fastforce
    with Cons show ?case by simp
  qed simp
  from this [of order "[]"] show ?thesis using assms(1) order by (auto simp: build_graph_plan_def keys_node_map Let_def)
qed

end
