(* ===== verification/Examples.thy ===== *)
theory Examples
  imports Graph_Plan
begin

text \<open>A host and a two-node graph on which the properties are evaluated.\<close>

definition demo_host :: js_host where
  "demo_host = \<lparr>nfc = (\<lambda>s. s), numstr = (\<lambda>n. ''1''), lc = (\<lambda>a b. True), sha256 = (\<lambda>s. nat_string (length s)), parse_bytes = (\<lambda>_. None)\<rparr>"

definition demo_node :: "string \<Rightarrow> runner_node" where
  "demo_node n = \<lparr>nd_id = n, nd_kind = Model, nd_label = n, nd_goal = JNull, nd_config = None, nd_maximum = None, nd_purpose = None\<rparr>"

definition demo_graph :: runner_graph where
  "demo_graph = \<lparr>gr_schema = num 1, gr_id = ''g'', gr_entry = ''a'', gr_nodes = [demo_node ''a'', demo_node ''b''],
     gr_edges = [\<lparr>ed_id = ''e'', ed_from = ''a'', ed_to = ''b'', ed_rest = []\<rparr>]\<rparr>"

definition demo_plan :: graph_plan where
  "demo_plan = \<lparr>pl_order = [''a'', ''b''], pl_nodes = [(''a'', demo_node ''a''), (''b'', demo_node ''b'')],
     pl_predecessors = predecessors (gr_edges demo_graph) [''a'', ''b''], pl_ids = [(''a'', ''148''), (''b'', ''224'')]\<rparr>"

lemma demo_nodes: "node_map (gr_nodes demo_graph) = [(''a'', demo_node ''a''), (''b'', demo_node ''b'')]"
  by (simp add: node_map_def demo_graph_def demo_node_def)

lemma demo_walk:
  "walk (node_map (gr_nodes demo_graph)) (outgoing demo_host (gr_edges demo_graph)) [''a''] [] = Inr [''a'', ''b'']"
  by code_simp

lemma demo_ids:
  "result_fold (\<lambda>n memo. result_bind
      (identify (node_map (gr_nodes demo_graph))
        (\<lambda>n. sort_by (on_key (lc demo_host) ed_id) (incoming_edges (gr_edges demo_graph) [''a'', ''b''] n))
        (node_activity_id demo_host ''r'' (gr_schema demo_graph)) [] n memo) (\<lambda>(i, memo'). Inr memo'))
    [''a'', ''b''] [] = Inr [(''a'', ''148''), (''b'', ''224'')]"
  by code_simp

lemma demo_plan: "build_graph_plan demo_host demo_graph ''r'' = Inr demo_plan"
proof -
  have "gr_entry demo_graph = ''a''" by (simp add: demo_graph_def)
  then show ?thesis
    unfolding build_graph_plan_def Let_def using demo_walk demo_ids by (simp add: demo_plan_def demo_nodes)
qed

end
