(* ===== verification/Durability.thy ===== *)
theory Durability
  imports Run_Store Examples
begin

text \<open>
  What survives a restart: identities of activities that separate them, an artifact that
  reads back as what was stored, an activity whose success is final, and a plan that
  orders the graph. The properties of the layer below the runner.
\<close>

section \<open>Identities\<close>

lemma identity_text:
  "canon f ns (JArr [JStr a, JStr b, JStr c, JStr d, case p of None \<Rightarrow> JNull | Some q \<Rightarrow> JStr q]) =
     Inr (''['' @ quote (f a) @ '','' @ quote (f b) @ '','' @ quote (f c) @ '','' @ quote (f d) @ '',''
       @ (case p of None \<Rightarrow> ''null'' | Some q \<Rightarrow> quote (f q)) @ '']'')"
  by (cases p) simp_all

lemma prompt_inject:
  assumes "(case p of None \<Rightarrow> ''null'' | Some q \<Rightarrow> quote (f q)) @ '']'' = (case p' of None \<Rightarrow> ''null'' | Some q \<Rightarrow> quote (f q)) @ '']''"
  shows "map_option f p = map_option f p'"
proof (cases "p = None \<or> p' = None")
  case True
  then show ?thesis using assms by (cases p; cases p') (simp_all add: quote_def)
next
  case False
  then obtain a b where "p = Some a" "p' = Some b" by auto
  with assms show ?thesis by (simp only: option.case quote_append_inject) simp
qed

lemma field_inject: "quote s @ '','' @ r = quote t @ '','' @ q \<longleftrightarrow> s = t \<and> r = q"
  by (simp only: quote_append_inject same_append_eq)

lemma activity_id_text:
  "activity_id h run n op input p = Inr i \<longleftrightarrow>
     (\<exists>t. canon (nfc h) (numstr h) input = Inr t
        \<and> i = sha256 h (''['' @ quote (nfc h run) @ '','' @ quote (nfc h n) @ '','' @ quote (nfc h op) @ '',''
            @ quote (nfc h t) @ '','' @ (case p of None \<Rightarrow> ''null'' | Some q \<Rightarrow> quote (nfc h q)) @ '']''))"
  unfolding activity_id_def identity_text by (auto simp: result_bind_Inr_iff result_bind_def split: sum.splits)

text \<open>
  Two activities share an identity only where run, node, operation, prompt and the
  canonical text of the logical input agree up to Unicode normalisation: the fields cannot run into
  each other, whatever characters they hold. SHA-256 is taken to have no collision.
\<close>

theorem activity_id_separates:
  assumes "inj (sha256 h)"
    and "activity_id h run n op input p = Inr i" "activity_id h run' n' op' input' p' = Inr i"
  shows "nfc h run = nfc h run' \<and> nfc h n = nfc h n' \<and> nfc h op = nfc h op' \<and> map_option (nfc h) p = map_option (nfc h) p'
    \<and> map_sum id (nfc h) (canon (nfc h) (numstr h) input) = map_sum id (nfc h) (canon (nfc h) (numstr h) input')"
proof -
  from assms(2,3) obtain t t' where t: "canon (nfc h) (numstr h) input = Inr t" "canon (nfc h) (numstr h) input' = Inr t'"
    and eq: "sha256 h (''['' @ quote (nfc h run) @ '','' @ quote (nfc h n) @ '','' @ quote (nfc h op) @ '',''
            @ quote (nfc h t) @ '','' @ (case p of None \<Rightarrow> ''null'' | Some q \<Rightarrow> quote (nfc h q)) @ '']'')
      = sha256 h (''['' @ quote (nfc h run') @ '','' @ quote (nfc h n') @ '','' @ quote (nfc h op') @ '',''
            @ quote (nfc h t') @ '','' @ (case p' of None \<Rightarrow> ''null'' | Some q \<Rightarrow> quote (nfc h q)) @ '']'')"
    unfolding activity_id_text by blast
  from eq [unfolded inj_eq [OF assms(1)]] have parts: "nfc h run = nfc h run'" "nfc h n = nfc h n'" "nfc h op = nfc h op'" "nfc h t = nfc h t'"
    "(case p of None \<Rightarrow> ''null'' | Some q \<Rightarrow> quote (nfc h q)) @ '']'' = (case p' of None \<Rightarrow> ''null'' | Some q \<Rightarrow> quote (nfc h q)) @ '']''"
    by (simp_all only: same_append_eq field_inject)
  from prompt_inject [OF parts(5)] parts(1-4) show ?thesis by (simp add: t)
qed

definition plain_host :: js_host where
  "plain_host = \<lparr>nfc = (\<lambda>s. s), numstr = (\<lambda>n. ''1''), lc = (\<lambda>a b. True), sha256 = (\<lambda>s. s), parse_bytes = (\<lambda>_. None)\<rparr>"

theorem activity_id_separates_witness:
  "activity_id plain_host ''r'' ''a'' ''op'' JNull None \<noteq> activity_id plain_host ''r'' ''b'' ''op'' JNull None"
proof
  assume eq: "activity_id plain_host ''r'' ''a'' ''op'' JNull None = activity_id plain_host ''r'' ''b'' ''op'' JNull None"
  have "\<exists>i. activity_id plain_host ''r'' ''a'' ''op'' JNull None = Inr i" unfolding activity_id_text by simp
  then obtain i where i: "activity_id plain_host ''r'' ''a'' ''op'' JNull None = Inr i" ..
  have "inj (sha256 plain_host)" by (simp add: plain_host_def inj_def)
  from activity_id_separates [OF this i i [unfolded eq]] show False by (simp add: plain_host_def)
qed

text \<open>
  C9. Canonical JSON ignores the order of object keys at every depth: values that differ only
  there have the same canonical text, or the same error, so the same content address and activity identity.
\<close>

theorem canonical_ignores_key_order:
  assumes "same_json i j"
  shows "canon f ns i = canon f ns j \<and> content_address h i x = content_address h j x
    \<and> activity_id h run n op i p = activity_id h run n op j p"
  using canon_same_json [OF assms] by (simp_all add: content_address_def encode_artifact_def activity_id_def)

theorem canonical_ignores_key_order_witness:
  "canon (\<lambda>s. s) (\<lambda>n. ''1'') (JObj [(''a'', JNull), (''b'', JBool True)])
     = canon (\<lambda>s. s) (\<lambda>n. ''1'') (JObj [(''b'', JBool True), (''a'', JNull)])"
proof -
  have "same_json (JObj [(''a'', JNull), (''b'', JBool True)]) (JObj [(''b'', JBool True), (''a'', JNull)])"
    by (rule same_obj [where fs = "[(''a'', JNull), (''b'', JBool True)]"]) (simp_all add: same_refl add_mset_commute)
  from canonical_ignores_key_order [OF this] show ?thesis by blast
qed

section \<open>The plan\<close>

text \<open>
  The runner's plan: it has every node the edges reach from the entry, once, and a rank that
  every edge between such nodes increases, so it exists only for acyclic reachable graphs; every planned
  node has an identity.
\<close>

theorem plan_orders_graph:
  assumes "build_graph_plan h g run = Inr p"
  shows "distinct (pl_order p) \<and> set (pl_order p) = (succ_rel (outgoing h (gr_edges g)))\<^sup>* `` {gr_entry g}
    \<and> (\<exists>rank. \<forall>n \<in> set (pl_order p). \<forall>q \<in> set (pl_predecessors p n). q \<in> set (pl_order p) \<and> rank q < (rank n :: nat))
    \<and> (\<forall>n \<in> set (pl_order p). map_of (pl_ids p) n \<noteq> None)"
proof -
  obtain rank :: "string \<Rightarrow> nat" where
    "\<And>n q. n \<in> set (pl_order p) \<Longrightarrow> q \<in> set (pl_predecessors p n) \<Longrightarrow> rank q < rank n"
    using plan_rank [OF assms] by blast
  then have "\<exists>rank. \<forall>n \<in> set (pl_order p). \<forall>q \<in> set (pl_predecessors p n). q \<in> set (pl_order p) \<and> rank q < (rank n :: nat)"
    using plan_predecessors_in [OF assms] by blast
  moreover have "\<forall>n \<in> set (pl_order p). map_of (pl_ids p) n \<noteq> None"
    using build_plan_cases(5) [OF assms] by (auto simp: map_of_eq_None_iff)
  ultimately show ?thesis using plan_order(1,2) [OF assms] by blast
qed

theorem plan_orders_graph_witness: "set (pl_order demo_plan) = {''a'', ''b''} \<and> map_of (pl_ids demo_plan) ''b'' \<noteq> None"
proof -
  have "''b'' \<in> set (pl_order demo_plan)" by (simp add: demo_plan_def)
  with plan_orders_graph [OF demo_plan] have "map_of (pl_ids demo_plan) ''b'' \<noteq> None" by blast
  then show ?thesis by (auto simp: demo_plan_def)
qed

section \<open>Artifacts\<close>

text \<open>
  C7. Reading an artifact back: after a put, and after any later put of another value, whatever
  a fair concurrent writer does in between, the reference reads as the value of the canonical text.
\<close>

theorem artifact_survives:
  assumes "store_put h race pid (fs, s) v ext = ((fs1, s1), Inr ref)" "fair_race h pid race"
    and "store_put h race' pid (fs1, s1) u ext' = ((fs2, s2), r)" "fair_race h pid race'"
    and "\<And>q b. encode_artifact h v ext = Inr (q, b) \<Longrightarrow> no_collision h b \<and> valid_hash (sha256 h b)
        \<and> int (length b) \<le> max_safe \<and> parse_bytes h b = Some v'"
    and "\<And>q b. encode_artifact h u ext' = Inr (q, b) \<Longrightarrow> no_collision h b"
  shows "store_get h fs1 ref = Inr v' \<and> store_get h fs2 ref = Inr v'"
proof -
  from store_put_available(1) [OF assms(1,2)] obtain bytes where enc: "encode_artifact h v ext = Inr (ref, bytes)" by blast
  note b = assms(5) [OF enc]
  have ref: "ref_hash ref = sha256 h bytes" "ref_length ref = length bytes" "ref_extension ref = ext" "valid_extension ext"
    "ref_path ref = relative_path (sha256 h bytes) ext"
    using enc by (auto simp: encode_artifact_Inr)
  have first: "store_get h fs1 ref = Inr v'" using store_get_put [OF assms(1,2) enc] b by blast
  have "available h fs1 ref" "good_ref ref" using store_get_checked [OF first] by simp_all
  then have "available h fs2 ref" using store_put_keeps [OF assms(3,4)] assms(6) by blast
  then obtain c where c: "fs2 (file_name (ref_hash ref) ext) = Some c" "sha256 h c = sha256 h bytes"
    by (auto simp: available_def ref)
  then have "c = bytes" using b by (simp add: no_collision_def)
  then have "store_get h fs2 ref = Inr v'"
    using b c ref by (simp add: store_get_def validate_ref_def)
  with first show ?thesis ..
qed

definition store_host :: js_host where
  "store_host = \<lparr>nfc = (\<lambda>s. s), numstr = (\<lambda>n. ''1''), lc = (\<lambda>a b. True),
     sha256 = (\<lambda>s. replicate 64 (if s = ''null'' then CHR ''a'' else if s = ''true'' then CHR ''b'' else CHR ''c'')),
     parse_bytes = (\<lambda>s. if s = ''null'' then Some JNull else None)\<rparr>"

lemma store_host_null: "encode_artifact store_host JNull ''json'' = Inr (q, b) \<Longrightarrow> b = ''null''"
  by (auto simp: encode_artifact_Inr utf8_def utf8_char_def)

lemma store_host_true: "encode_artifact store_host (JBool True) ''json'' = Inr (q, b) \<Longrightarrow> b = ''true''"
  by (auto simp: encode_artifact_Inr utf8_def utf8_char_def)

lemma store_host_collisions: "no_collision store_host ''null''" "no_collision store_host ''true''"
  by (simp_all add: no_collision_def store_host_def)

lemma store_host_put: "\<exists>x ref. store_put store_host (\<lambda>fs. fs) ''1'' (Map.empty, 0) JNull ''json'' = (x, Inr ref)"
proof -
  have "\<exists>ref b. encode_artifact store_host JNull ''json'' = Inr (ref, b)"
    by (simp add: encode_artifact_Inr is_lower_def)
  then obtain ref b where "encode_artifact store_host JNull ''json'' = Inr (ref, b)" by blast
  then show ?thesis by (simp add: store_put_def Let_def)
qed

lemma store_host_hash: "valid_hash (sha256 store_host ''null'')"
  by (simp add: store_host_def valid_hash_def hex_char_def list_all_iff)

theorem artifact_survives_witness:
  "\<exists>fs s ref. store_put store_host (\<lambda>fs. fs) ''1'' (Map.empty, 0) JNull ''json'' = ((fs, s), Inr ref)
     \<and> store_get store_host fs ref = Inr JNull"
proof -
  obtain fs s ref where put: "store_put store_host (\<lambda>fs. fs) ''1'' (Map.empty, 0) JNull ''json'' = ((fs, s), Inr ref)"
    using store_host_put by (metis surj_pair)
  obtain fs2 s2 r where put2: "store_put store_host (\<lambda>fs. fs) ''1'' (fs, s) (JBool True) ''json'' = ((fs2, s2), r)"
    by (metis surj_pair)
  have good: "no_collision store_host b \<and> valid_hash (sha256 store_host b) \<and> int (length b) \<le> max_safe
      \<and> parse_bytes store_host b = Some JNull" if "encode_artifact store_host JNull ''json'' = Inr (q, b)" for q b
  proof -
    have b: "b = ''null''" using store_host_null that .
    have "int (length ''null'') \<le> max_safe" by (simp add: max_safe_def)
    moreover have "parse_bytes store_host ''null'' = Some JNull" by (simp add: store_host_def)
    ultimately show ?thesis using b store_host_collisions(1) store_host_hash by blast
  qed
  have "store_get store_host fs ref = Inr JNull"
  proof (rule conjunct1, rule artifact_survives [OF put fair_race_id put2 fair_race_id])
    show "no_collision store_host b \<and> valid_hash (sha256 store_host b) \<and> int (length b) \<le> max_safe
      \<and> parse_bytes store_host b = Some JNull" if "encode_artifact store_host JNull ''json'' = Inr (q, b)" for q b
      using that by (rule good)
    show "no_collision store_host b" if "encode_artifact store_host (JBool True) ''json'' = Inr (q, b)" for q b
      using store_host_true [OF that] store_host_collisions(2) by simp
  qed
  with put show ?thesis by blast
qed

section \<open>Activities over the run's store\<close>

text \<open>
  C6. An activity that returned is final: on a runtime recovered by a later process from a journal
  that extends this one, while the artifact is kept, the activity reads its result back; its work
  is not run and neither the journal nor the store changes. The work may fail, be retried or be
  anything that leaves the journal to the runtime.
\<close>

theorem activity_final_after_restart:
  assumes "activity (run_ports h pid date_ok run) w rt i fn opts = (w1, rt1, Inr v)"
    and "\<forall>w. wd_activity (fst (fn w)) = wd_activity w \<and> (\<forall>ref. world_keeps h w ref \<longrightarrow> world_keeps h (fst (fn w)) ref)
          \<and> (\<forall>v. snd (fn w) = Inr v \<longrightarrow> addressable h v)"
    and "agrees (wd_activity w) rt" "attempts_increase (wd_activity w)"
    and "wd_activity w2 = wd_activity w1 @ qs" "\<forall>n a. AttemptEnd i n a \<notin> set qs"
    and "\<And>ref. world_keeps h w1 ref \<Longrightarrow> world_keeps h w2 ref"
  shows "\<exists>ref. world_keeps h w2 ref
    \<and> activity (run_ports h pid date_ok run) w2 (recover (wd_activity w2)) i gn opts'
       = (w2, recover (wd_activity w2), world_get h w2 ref)"
proof -
  have clean: "stored.clean_work h fn" using assms(2) by (simp add: stored.clean_work_def)
  obtain ref where ref: "map_of (rt_completed rt1) i = Some ref" "world_keeps h w1 ref"
    using stored.activity_success [OF assms(1) clean] by blast
  from stored.activity_once_recovered [OF assms(1) clean assms(3,4,5,6,7)] ref
  have "activity (run_ports h pid date_ok run) w2 (recover (wd_activity w2)) i gn opts'
       = (w2, recover (wd_activity w2), world_get h w2 ref)" by (simp add: run_ports_def)
  with ref(2) assms(7) show ?thesis by blast
qed

definition empty_world :: world where
  "empty_world = \<lparr>wd_files = Map.empty, wd_sequence = 0, wd_activity = [], wd_events = [], wd_index = [],
     wd_once = Map.empty, wd_faults = []\<rparr>"

definition null_work :: "world work" where
  "null_work w = (w, Inr JNull)"

theorem activity_final_after_restart_witness:
  "\<exists>w1 rt1 ref. activity (run_ports store_host ''1'' (\<lambda>_. True) ''r'') empty_world (recover []) ''i'' null_work
       \<lparr>ao_extension = None, ao_request = None\<rparr> = (w1, rt1, Inr JNull)
     \<and> activity (run_ports store_host ''1'' (\<lambda>_. True) ''r'') w1 (recover (wd_activity w1)) ''i'' null_work
       \<lparr>ao_extension = None, ao_request = None\<rparr> = (w1, recover (wd_activity w1), world_get store_host w1 ref)"
proof -
  let ?P = "run_ports store_host ''1'' (\<lambda>_. True) ''r''"
  let ?o = "\<lparr>ao_extension = None, ao_request = None\<rparr>"
  obtain fs s ref where put: "store_put store_host (\<lambda>fs. fs) ''1'' (Map.empty, 0) JNull ''json'' = ((fs, s), Inr ref)"
    using store_host_put by (metis surj_pair)
  have "\<exists>w1 rt1. activity ?P empty_world (recover []) ''i'' null_work ?o = (w1, rt1, Inr JNull)"
    using put by (simp add: activity_def run_attempt_def attempt_body_def run_ports_def store_append_def append_activity_def
        next_fault_def world_put_def empty_world_def null_work_def recover_def project_runner_def get_or_def max_safe_def)
  then obtain w1 rt1 where act: "activity ?P empty_world (recover []) ''i'' null_work ?o = (w1, rt1, Inr JNull)" by blast
  have "addressable store_host JNull"
    using store_host_collisions(1) store_host_hash
    by (auto simp: addressable_def encode_artifact_Inr utf8_def utf8_char_def)
  then have "\<forall>w. wd_activity (fst (null_work w)) = wd_activity w
      \<and> (\<forall>ref. world_keeps store_host w ref \<longrightarrow> world_keeps store_host (fst (null_work w)) ref)
      \<and> (\<forall>v. snd (null_work w) = Inr v \<longrightarrow> addressable store_host v)" by (simp add: null_work_def)
  from activity_final_after_restart [OF act this, of w1 "[]" null_work ?o] act show ?thesis
    by (auto simp: empty_world_def recover_agrees attempts_increase_def)
qed

end
