(* ===== verification/Runner.thy ===== *)
theory Runner
  imports Graph_Plan Activity
begin

text \<open>
  The workflow runner: \<open>#createHandle\<close> and \<open>#execute\<close> of
  \<open>packages/core/src/runner/workflow-runner.ts\<close> with \<open>runner/cancellation.ts\<close>, as a
  transition function. Every \<open>await\<close> of the code ends one step, so the tasks of a batch
  interleave at their awaits; a \<open>signal\<close> says who moves and how the awaited call answered.
  Tasks that the event loop starts together may here start one by one: the model has every
  interleaving of the code, and some more.
\<close>

section \<open>State\<close>

text \<open>How an awaited call answers: it resolves, it resolves to a value, or it rejects.\<close>

datatype answer = Done | Value json | Fault run_error

text \<open>Where a task of a batch stands: the constructor names what is behind it.\<close>

datatype phase =
    Waiting                          \<comment> \<open>nothing yet\<close>
  | Staged                           \<comment> \<open>the stage transition is appended\<close>
  | Dispatched                       \<comment> \<open>\<open>node_dispatched\<close> is appended\<close>
  | Lost                             \<comment> \<open>the stored artifact was missing\<close>
  | Started nat                      \<comment> \<open>\<open>attempt_start\<close> is appended\<close>
  | Returned nat json                \<comment> \<open>the executor returned\<close>
  | Stored nat json artifact_ref     \<comment> \<open>the artifact is stored\<close>
  | Erred nat run_error              \<comment> \<open>in the \<open>catch\<close> of the activity\<close>
  | Produced                         \<comment> \<open>the output is set, the node no longer pending\<close>
  | Fulfilled
  | Rejected run_error

datatype control =
    Opening                                \<comment> \<open>before the first transition is appended\<close>
  | Looping                                \<comment> \<open>at the head of the loop\<close>
  | Batch                                  \<comment> \<open>in \<open>Promise.allSettled\<close>\<close>
  | Closing run_state "string option"      \<comment> \<open>appending the last transition\<close>
  | Failing run_state "string option"      \<comment> \<open>appending it in the \<open>catch\<close> block\<close>
  | Ended run_state                        \<comment> \<open>the result resolved\<close>
  | Broken run_error                       \<comment> \<open>the result rejected: the last append failed\<close>

record run_env =
  re_run :: string
  re_limit :: nat
  re_plan :: "plan_error + graph_plan"
  re_executor :: "node_kind \<Rightarrow> bool"
  re_stage :: "runner_node \<Rightarrow> run_state option"
  re_address :: "json \<Rightarrow> artifact_ref"
  re_readback :: "json \<Rightarrow> json"
  re_resumed :: bool

text \<open>
  \<open>rn_calls\<close> has every call of an executor with its inputs. \<open>rn_projected\<close> is the
  projection made when the loop begins, \<open>rn_runtime\<close> the runtime built from it.
\<close>

record run =
  rn_control :: control
  rn_log :: "journal_record list"
  rn_live :: run_state
  rn_cancelled :: "string option"
  rn_projected :: "string \<rightharpoonup> artifact_ref"
  rn_runtime :: runtime
  rn_store :: "artifact_ref \<rightharpoonup> json"
  rn_outputs :: "string \<rightharpoonup> json"
  rn_pending :: "string list"
  rn_tasks :: "(string \<times> phase) list"
  rn_calls :: "(string \<times> (string \<times> json option) list) list"

datatype signal = CancelRun "string option" | Tick answer | Task string answer

section \<open>Appending\<close>

text \<open>The live state moves before the record is durable; a failed append leaves the journal as it was.\<close>

definition announce :: "run \<Rightarrow> journal_record \<Rightarrow> run" where
  "announce s r = (case r of RunTransition _ _ _ \<Rightarrow> s\<lparr>rn_live := project_run_state (rn_log s @ [r])\<rparr> | _ \<Rightarrow> s)"

definition append_then ::
  "run \<Rightarrow> journal_record \<Rightarrow> answer \<Rightarrow> (run \<Rightarrow> run) \<Rightarrow> (run \<Rightarrow> run_error \<Rightarrow> run) \<Rightarrow> run option" where
  "append_then s r a ok bad =
     (let s' = announce s r in
      case a of
        Done \<Rightarrow> Some (ok (s'\<lparr>rn_log := rn_log s' @ [r]\<rparr>))
      | Fault e \<Rightarrow> Some (bad s' e)
      | Value _ \<Rightarrow> None)"

section \<open>A task of a batch\<close>

definition the_plan :: "run_env \<Rightarrow> graph_plan" where
  "the_plan env = (case re_plan env of Inr p \<Rightarrow> p
     | Inl _ \<Rightarrow> \<lparr>pl_order = [], pl_nodes = [], pl_predecessors = (\<lambda>_. []), pl_ids = []\<rparr>)"

definition missing_error :: "string \<Rightarrow> run_error" where
  "missing_error m = NamedError ''Error'' m"

definition no_executor :: "runner_node \<Rightarrow> run_error" where
  "no_executor node = NamedError ''Error''
     (''No executor registered for '' @ kind_string (nd_kind node) @ '' node '' @ nd_id node)"

definition set_phase :: "string \<Rightarrow> phase \<Rightarrow> run \<Rightarrow> run" where
  "set_phase n p s = s\<lparr>rn_tasks := AList.update n p (rn_tasks s)\<rparr>"

definition reject_task :: "string \<Rightarrow> run \<Rightarrow> run_error \<Rightarrow> run" where
  "reject_task n s e = set_phase n (Rejected e) s"

text \<open>\<open>new Map(predecessors.map((p) => [p, outputs.get(p)]))\<close>\<close>

definition input_map :: "(string \<rightharpoonup> json) \<Rightarrow> string list \<Rightarrow> (string \<times> json option) list" where
  "input_map outs ps = fold (\<lambda>p. AList.update p (outs p)) ps []"

definition dispatch :: "run_env \<Rightarrow> run \<Rightarrow> string \<Rightarrow> string \<Rightarrow> answer \<Rightarrow> run option" where
  "dispatch env s n i a =
     append_then s (NodeDispatched (re_run env) n i) a (set_phase n Dispatched) (reject_task n)"

text \<open>The stage a node moves the run to: none for a node completed earlier, or where the run is there already.\<close>

definition stage_of :: "run_env \<Rightarrow> run \<Rightarrow> runner_node \<Rightarrow> string \<Rightarrow> run_state option" where
  "stage_of env s node i =
     (if rn_projected s i \<noteq> None then None
      else case re_stage env node of
          None \<Rightarrow> None
        | Some st \<Rightarrow> if st = rn_live s then None else Some st)"

definition begin_attempt :: "run \<Rightarrow> string \<Rightarrow> string \<Rightarrow> answer \<Rightarrow> run option" where
  "begin_attempt s n i a =
     (let m = get_or 0 (rt_attempts (rn_runtime s)) i + 1;
          s' = s\<lparr>rn_runtime := (rn_runtime s)\<lparr>rt_attempts := AList.update i m (rt_attempts (rn_runtime s))\<rparr>\<rparr> in
      append_then s' (AttemptStart i m None) a (set_phase n (Started m)) (reject_task n))"

text \<open>The activity returned: \<open>outputs.set\<close>, \<open>pending.delete\<close>.\<close>

definition produce :: "string \<Rightarrow> json \<Rightarrow> run \<Rightarrow> run" where
  "produce n v s = set_phase n Produced
     (s\<lparr>rn_outputs := (rn_outputs s)(n \<mapsto> v), rn_pending := filter (\<lambda>m. m \<noteq> n) (rn_pending s)\<rparr>)"

definition read_back :: "run \<Rightarrow> string \<Rightarrow> string \<Rightarrow> artifact_ref \<Rightarrow> answer \<Rightarrow> run option" where
  "read_back s n i ref a =
     (case a of
        Fault e \<Rightarrow> (case e of MissingFile _ \<Rightarrow> None | _ \<Rightarrow> Some (reject_task n s e))
      | Done \<Rightarrow>
          (case rn_store s ref of
             Some v \<Rightarrow> Some (produce n v s)
           | None \<Rightarrow> Some (set_phase n Lost
               (s\<lparr>rn_runtime := (rn_runtime s)\<lparr>rt_completed := AList.delete i (rt_completed (rn_runtime s))\<rparr>\<rparr>)))
      | Value _ \<Rightarrow> None)"

definition advance :: "run_env \<Rightarrow> run \<Rightarrow> string \<Rightarrow> runner_node \<Rightarrow> string \<Rightarrow> phase \<Rightarrow> answer \<Rightarrow> run option" where
  "advance env s n node i p a =
     (case p of
        Waiting \<Rightarrow>
          (case stage_of env s node i of
             Some st \<Rightarrow> append_then s (RunTransition (re_run env) st None) a (set_phase n Staged) (reject_task n)
           | None \<Rightarrow> dispatch env s n i a)
      | Staged \<Rightarrow> dispatch env s n i a
      | Dispatched \<Rightarrow>
          if \<not> re_executor env (nd_kind node) then Some (reject_task n s (no_executor node))
          else (case map_of (rt_completed (rn_runtime s)) i of
              Some ref \<Rightarrow> read_back s n i ref a
            | None \<Rightarrow> begin_attempt s n i a)
      | Lost \<Rightarrow> begin_attempt s n i a
      | Started m \<Rightarrow>
          (let s' = s\<lparr>rn_calls := rn_calls s @ [(n, input_map (rn_outputs s) (pl_predecessors (the_plan env) n))]\<rparr> in
           case a of
             Value v \<Rightarrow> Some (set_phase n (Returned m v) s')
           | Fault e \<Rightarrow> Some (set_phase n (Erred m e) s')
           | Done \<Rightarrow> None)
      | Returned m v \<Rightarrow>
          (case a of
             Done \<Rightarrow> Some (set_phase n (Stored m v (re_address env v))
               (s\<lparr>rn_store := (rn_store s)(re_address env v \<mapsto> re_readback env v)\<rparr>))
           | Fault e \<Rightarrow> Some (set_phase n (Erred m e) s)
           | Value _ \<Rightarrow> None)
      | Stored m v ref \<Rightarrow>
          append_then s (AttemptEnd i m ref) a
            (\<lambda>s'. produce n v (s'\<lparr>rn_runtime :=
               (rn_runtime s')\<lparr>rt_completed := AList.update i ref (rt_completed (rn_runtime s'))\<rparr>\<rparr>))
            (\<lambda>s' e. set_phase n (Erred m e) s')
      | Erred m e \<Rightarrow>
          append_then s (AttemptError i m (describe_error e)) a (\<lambda>s'. reject_task n s' e) (reject_task n)
      | Produced \<Rightarrow>
          append_then s (NodeCompleted (re_run env) n i (rn_projected s i \<noteq> None)) a
            (set_phase n Fulfilled) (reject_task n)
      | Fulfilled \<Rightarrow> None
      | Rejected _ \<Rightarrow> None)"

fun settled :: "phase \<Rightarrow> bool" where
  "settled Fulfilled = True"
| "settled (Rejected _) = True"
| "settled _ = False"

definition task_step :: "run_env \<Rightarrow> run \<Rightarrow> string \<Rightarrow> answer \<Rightarrow> run option" where
  "task_step env s n a =
     (case map_of (rn_tasks s) n of
        None \<Rightarrow> None
      | Some p \<Rightarrow>
          if settled p then None
          else if p = Waiting \<and> rn_cancelled s \<noteq> None then Some (set_phase n Fulfilled s)
          else (case map_of (pl_nodes (the_plan env)) n of
              None \<Rightarrow> Some (reject_task n s (missing_error (''Unknown node '' @ n)))
            | Some node \<Rightarrow>
                (case map_of (pl_ids (the_plan env)) n of
                   None \<Rightarrow> Some (reject_task n s (missing_error (''Missing activity id for '' @ n)))
                 | Some i \<Rightarrow> advance env s n node i p a)))"

section \<open>The handle\<close>

fun error_state :: "run_error \<Rightarrow> run_state" where
  "error_state (OperatorCheckpoint _) = BLOCKED"
| "error_state (RunSuspended st _) =
     (if st = SUSPENDED_BUDGET \<or> st = SUSPENDED_RATE_LIMIT then st else FAILED)"
| "error_state _ = FAILED"

text \<open>\<open>cancel(reason = "Cancelled by user")\<close>: only the first call counts.\<close>

definition cancel_run :: "run \<Rightarrow> string option \<Rightarrow> run" where
  "cancel_run s reason =
     (if rn_cancelled s \<noteq> None then s
      else s\<lparr>rn_cancelled := Some (case reason of None \<Rightarrow> ''Cancelled by user'' | Some r \<Rightarrow> r)\<rparr>)"

definition throw :: "run \<Rightarrow> run_error \<Rightarrow> run" where
  "throw s e =
     (case rn_cancelled s of
        Some reason \<Rightarrow> s\<lparr>rn_control := Failing CANCELLED (Some reason)\<rparr>
      | None \<Rightarrow> s\<lparr>rn_control := Failing (error_state e) (Some (describe_error e))\<rparr>)"

fun plan_failure :: "plan_error \<Rightarrow> run_error" where
  "plan_failure (UnknownEntryNode n) = missing_error (''Unknown entry node '' @ n)"
| "plan_failure (EdgeTargetsUnknownNode n) = missing_error (''Edge targets unknown node '' @ n)"
| "plan_failure GraphContainsCycle = missing_error ''Reachable workflow graph contains a cycle''"
| "plan_failure (UnknownNode n) = missing_error (''Unknown node '' @ n)"
| "plan_failure (IdentityNotJson _) = NamedError ''TypeError'' ''Activity identity must be JSON''"
| "plan_failure InvalidConcurrencyLimit = NamedError ''TypeError'' ''concurrencyLimit must be a positive safe integer''"

definition created_record :: "run_env \<Rightarrow> journal_record" where
  "created_record env = RunTransition (re_run env) CREATED (if re_resumed env then Some ''resumed'' else None)"

text \<open>The first part of \<open>#execute\<close>, up to the loop.\<close>

definition open_run :: "run_env \<Rightarrow> run \<Rightarrow> run" where
  "open_run env s =
     (case re_plan env of
        Inl e \<Rightarrow> throw s (plan_failure e)
      | Inr p \<Rightarrow> s\<lparr>rn_control := Looping, rn_projected := map_of (proj_completed (project_runner (rn_log s))),
                   rn_runtime := recover (rn_log s), rn_outputs := Map.empty, rn_pending := pl_order p\<rparr>)"

definition ready_nodes :: "run_env \<Rightarrow> run \<Rightarrow> string list" where
  "ready_nodes env s =
     filter (\<lambda>n. n \<in> set (rn_pending s) \<and> list_all (\<lambda>q. rn_outputs s q \<noteq> None) (pl_predecessors (the_plan env) n))
       (pl_order (the_plan env))"

definition loop_head :: "run_env \<Rightarrow> run \<Rightarrow> run" where
  "loop_head env s =
     (if rn_pending s \<noteq> [] \<and> rn_cancelled s = None then
        (if ready_nodes env s = []
         then throw s (missing_error ''Workflow cannot advance; reachable graph contains a cycle'')
         else s\<lparr>rn_control := Batch, rn_tasks := map (\<lambda>n. (n, Waiting)) (take (re_limit env) (ready_nodes env s))\<rparr>)
      else s\<lparr>rn_control := Closing (if rn_cancelled s = None then COMPLETED else CANCELLED) (rn_cancelled s)\<rparr>)"

fun rejection :: "phase \<Rightarrow> run_error option" where
  "rejection (Rejected e) = Some e"
| "rejection _ = None"

text \<open>
  After \<open>Promise.allSettled\<close> the batch is over: the first failure is thrown, unless the run
  was cancelled.
\<close>

definition settle_batch :: "run \<Rightarrow> run" where
  "settle_batch s =
     (let s' = s\<lparr>rn_tasks := [], rn_control := Looping\<rparr> in
      case List.map_filter (rejection \<circ> snd) (rn_tasks s) of
        e # _ \<Rightarrow> if rn_cancelled s = None then throw s' e else s'
      | [] \<Rightarrow> s')"

definition tick :: "run_env \<Rightarrow> run \<Rightarrow> answer \<Rightarrow> run option" where
  "tick env s a =
     (case rn_control s of
        Opening \<Rightarrow> append_then s (created_record env) a (open_run env) throw
      | Looping \<Rightarrow> Some (loop_head env s)
      | Batch \<Rightarrow> if list_all (settled \<circ> snd) (rn_tasks s) then Some (settle_batch s) else None
      | Closing st reason \<Rightarrow>
          append_then s (RunTransition (re_run env) st reason) a (\<lambda>s'. s'\<lparr>rn_control := Ended st\<rparr>) throw
      | Failing st reason \<Rightarrow>
          append_then s (RunTransition (re_run env) st reason) a (\<lambda>s'. s'\<lparr>rn_control := Ended st\<rparr>)
            (\<lambda>s' e. s'\<lparr>rn_control := Broken e\<rparr>)
      | Ended _ \<Rightarrow> None
      | Broken _ \<Rightarrow> None)"

fun run_step :: "run_env \<Rightarrow> run \<Rightarrow> signal \<Rightarrow> run option" where
  "run_step env s (CancelRun reason) = Some (cancel_run s reason)"
| "run_step env s (Tick a) = tick env s a"
| "run_step env s (Task n a) = (if rn_control s = Batch then task_step env s n a else None)"

fun run_steps :: "run_env \<Rightarrow> run \<Rightarrow> signal list \<Rightarrow> run option" where
  "run_steps env s [] = Some s"
| "run_steps env s (x # xs) = (case run_step env s x of None \<Rightarrow> None | Some s' \<Rightarrow> run_steps env s' xs)"

text \<open>A handle before its first step: \<open>records\<close> is what \<open>loadRecords\<close> returned.\<close>

definition initial_run :: "journal_record list \<Rightarrow> (artifact_ref \<rightharpoonup> json) \<Rightarrow> run" where
  "initial_run records store =
     \<lparr>rn_control = Opening, rn_log = records, rn_live = CREATED, rn_cancelled = None, rn_projected = Map.empty,
      rn_runtime = \<lparr>rt_completed = [], rt_attempts = []\<rparr>, rn_store = store, rn_outputs = Map.empty,
      rn_pending = [], rn_tasks = [], rn_calls = []\<rparr>"

inductive reaches :: "run_env \<Rightarrow> run \<Rightarrow> run \<Rightarrow> bool" for env s0 where
  reaches_refl: "reaches env s0 s0"
| reaches_step: "reaches env s0 s \<Longrightarrow> run_step env s x = Some s' \<Longrightarrow> reaches env s0 s'"

lemma reaches_steps: "reaches env s0 s \<Longrightarrow> run_steps env s xs = Some t \<Longrightarrow> reaches env s0 t"
  by (induction xs arbitrary: s) (auto split: option.splits intro: reaches_step)

lemma steps_append: "run_steps env s (xs @ ys) = (case run_steps env s xs of None \<Rightarrow> None | Some t \<Rightarrow> run_steps env t ys)"
  by (induction xs arbitrary: s) (auto split: option.splits)

lemma reaches_iff_steps: "reaches env s0 s \<longleftrightarrow> (\<exists>xs. run_steps env s0 xs = Some s)"
proof
  show "\<exists>xs. run_steps env s0 xs = Some s" if "reaches env s0 s"
    using that
  proof induction
    case reaches_refl
    show ?case by (rule exI [of _ "[]"]) simp
  next
    case (reaches_step s x s')
    then obtain xs where "run_steps env s0 xs = Some s" by blast
    with reaches_step.hyps(2) have "run_steps env s0 (xs @ [x]) = Some s'" by (simp add: steps_append)
    then show ?case ..
  qed
qed (use reaches_refl reaches_steps in blast)

section \<open>What one task step does\<close>

text \<open>The moves of a task: the phase before and after, and the records it appends.\<close>

inductive moves :: "run_env \<Rightarrow> run \<Rightarrow> string \<Rightarrow> phase \<Rightarrow> phase \<Rightarrow> journal_record list \<Rightarrow> bool" for env s n where
  "rn_cancelled s \<noteq> None \<Longrightarrow> moves env s n Waiting Fulfilled []"
| "rn_cancelled s = None \<Longrightarrow> moves env s n Waiting Staged [RunTransition (re_run env) st None]"
| "map_of (pl_ids (the_plan env)) n = Some i \<Longrightarrow> p = Waiting \<and> rn_cancelled s = None \<or> p = Staged \<Longrightarrow>
     moves env s n p Dispatched [NodeDispatched (re_run env) n i]"
| "map_of (pl_ids (the_plan env)) n = Some i \<Longrightarrow> map_of (rt_completed (rn_runtime s)) i = Some ref \<Longrightarrow>
     rn_store s ref = None \<Longrightarrow> moves env s n Dispatched Lost []"
| "map_of (pl_ids (the_plan env)) n = Some i \<Longrightarrow>
     p = Dispatched \<and> map_of (rt_completed (rn_runtime s)) i = None \<or> p = Lost \<Longrightarrow>
     moves env s n p (Started m) [AttemptStart i m None]"
| "moves env s n Dispatched Produced []"
| "moves env s n (Started m) (Returned m v) []"
| "moves env s n (Started m) (Erred m e) []"
| "moves env s n (Returned m v) (Stored m v ref) []"
| "moves env s n (Returned m v) (Erred m e) []"
| "map_of (pl_ids (the_plan env)) n = Some i \<Longrightarrow> moves env s n (Stored m v ref) Produced [AttemptEnd i m ref]"
| "moves env s n (Stored m v ref) (Erred m e) []"
| "map_of (pl_ids (the_plan env)) n = Some i \<Longrightarrow>
     moves env s n (Erred m e) (Rejected e) [AttemptError i m (describe_error e)]"
| "map_of (pl_ids (the_plan env)) n = Some i \<Longrightarrow>
     moves env s n Produced Fulfilled [NodeCompleted (re_run env) n i (rn_projected s i \<noteq> None)]"
| "\<not> settled p \<Longrightarrow> moves env s n p (Rejected e) []"

lemma announce_simps [simp]:
  "rn_control (announce s r) = rn_control s" "rn_log (announce s r) = rn_log s"
  "rn_cancelled (announce s r) = rn_cancelled s" "rn_projected (announce s r) = rn_projected s"
  "rn_runtime (announce s r) = rn_runtime s" "rn_store (announce s r) = rn_store s"
  "rn_outputs (announce s r) = rn_outputs s" "rn_pending (announce s r) = rn_pending s"
  "rn_tasks (announce s r) = rn_tasks s" "rn_calls (announce s r) = rn_calls s"
  by (cases r; simp add: announce_def)+

lemma append_then_Some:
  "append_then s r a ok bad = Some s' \<longleftrightarrow>
     (a = Done \<and> s' = ok ((announce s r)\<lparr>rn_log := rn_log s @ [r]\<rparr>)) \<or> (\<exists>e. a = Fault e \<and> s' = bad (announce s r) e)"
  by (auto simp: append_then_def Let_def split: answer.splits)

lemma set_phase_simps [simp]:
  "rn_control (set_phase n p s) = rn_control s" "rn_log (set_phase n p s) = rn_log s"
  "rn_cancelled (set_phase n p s) = rn_cancelled s" "rn_projected (set_phase n p s) = rn_projected s"
  "rn_runtime (set_phase n p s) = rn_runtime s" "rn_store (set_phase n p s) = rn_store s"
  "rn_outputs (set_phase n p s) = rn_outputs s" "rn_pending (set_phase n p s) = rn_pending s"
  "rn_tasks (set_phase n p s) = AList.update n p (rn_tasks s)" "rn_calls (set_phase n p s) = rn_calls s"
  "rn_live (set_phase n p s) = rn_live s"
  by (simp_all add: set_phase_def)

text \<open>The rest of the state after a move from \<open>p\<close> to \<open>p'\<close>.\<close>

definition moved :: "run_env \<Rightarrow> run \<Rightarrow> string \<Rightarrow> phase \<Rightarrow> phase \<Rightarrow> journal_record list \<Rightarrow> run \<Rightarrow> bool" where
  "moved env s n p p' rs s' \<longleftrightarrow>
     rn_control s' = rn_control s \<and> rn_cancelled s' = rn_cancelled s \<and> rn_projected s' = rn_projected s
     \<and> rn_log s' = rn_log s @ rs \<and> rn_tasks s' = AList.update n p' (rn_tasks s)
     \<and> (if p' = Produced then rn_outputs s' n \<noteq> None \<and> rn_outputs s' = (rn_outputs s)(n := rn_outputs s' n)
        else rn_outputs s' = rn_outputs s)
     \<and> rn_pending s' = (if p' = Produced then filter (\<lambda>m. m \<noteq> n) (rn_pending s) else rn_pending s)
     \<and> rn_calls s' = rn_calls s @ (case p' of
          Returned _ _ \<Rightarrow> [(n, input_map (rn_outputs s) (pl_predecessors (the_plan env) n))]
        | Erred _ _ \<Rightarrow> (case p of Started _ \<Rightarrow> [(n, input_map (rn_outputs s) (pl_predecessors (the_plan env) n))] | _ \<Rightarrow> [])
        | _ \<Rightarrow> [])
     \<and> (\<forall>ref. rn_store s ref \<noteq> None \<longrightarrow> rn_store s' ref \<noteq> None)
     \<and> (\<forall>m v ref. p' = Stored m v ref \<longrightarrow> rn_store s' ref \<noteq> None)"

lemmas task_defs = dispatch_def begin_attempt_def read_back_def reject_task_def produce_def Let_def append_then_Some

lemma dispatch_moves:
  assumes "dispatch env s n i a = Some s'" "map_of (pl_ids (the_plan env)) n = Some i"
    "p = Waiting \<and> rn_cancelled s = None \<or> p = Staged"
  shows "\<exists>p' rs. moves env s n p p' rs \<and> moved env s n p p' rs s'"
proof (cases "a = Done")
  case True
  with assms(1) have "moved env s n p Dispatched [NodeDispatched (re_run env) n i] s'"
    by (auto simp: task_defs moved_def)
  with moves.intros(3) [OF assms(2,3)] show ?thesis by blast
next
  case False
  with assms(1) obtain e where "moved env s n p (Rejected e) [] s'" by (auto simp: task_defs moved_def)
  moreover have "moves env s n p (Rejected e) []" using assms(3) by (auto intro: moves.intros)
  ultimately show ?thesis by blast
qed

lemma begin_moves:
  assumes "begin_attempt s n i a = Some s'" "map_of (pl_ids (the_plan env)) n = Some i"
    "p = Dispatched \<and> map_of (rt_completed (rn_runtime s)) i = None \<or> p = Lost"
  shows "\<exists>p' rs. moves env s n p p' rs \<and> moved env s n p p' rs s'"
proof (cases "a = Done")
  case True
  with assms(1) obtain m where "moved env s n p (Started m) [AttemptStart i m None] s'"
    by (auto simp: task_defs moved_def)
  with moves.intros(5) [OF assms(2,3)] show ?thesis by blast
next
  case False
  with assms(1) obtain e where "moved env s n p (Rejected e) [] s'" by (auto simp: task_defs moved_def)
  moreover have "moves env s n p (Rejected e) []" using assms(3) by (auto intro: moves.intros)
  ultimately show ?thesis by blast
qed

lemma read_moves:
  assumes "read_back s n i ref a = Some s'" "map_of (pl_ids (the_plan env)) n = Some i"
    "map_of (rt_completed (rn_runtime s)) i = Some ref"
  shows "\<exists>p' rs. moves env s n Dispatched p' rs \<and> moved env s n Dispatched p' rs s'"
proof -
  from assms(1) consider v where "s' = produce n v s" | e where "s' = reject_task n s e"
    | "rn_store s ref = None" "s' = set_phase n Lost
               (s\<lparr>rn_runtime := (rn_runtime s)\<lparr>rt_completed := AList.delete i (rt_completed (rn_runtime s))\<rparr>\<rparr>)"
    by (auto simp: read_back_def split: answer.splits option.splits run_error.splits)
  then show ?thesis
  proof cases
    case 1
    then have "moved env s n Dispatched Produced [] s'" by (auto simp: task_defs moved_def)
    with moves.intros(6) show ?thesis by blast
  next
    case (2 e)
    then have "moved env s n Dispatched (Rejected e) [] s'" by (auto simp: task_defs moved_def)
    moreover have "moves env s n Dispatched (Rejected e) []" by (auto intro: moves.intros)
    ultimately show ?thesis by blast
  next
    case 3
    then have "moved env s n Dispatched Lost [] s'" by (auto simp: task_defs moved_def)
    with moves.intros(4) [OF assms(2,3) 3(1)] show ?thesis by blast
  qed
qed

lemma moveI: "moves env s n p p' rs \<Longrightarrow> moved env s n p p' rs s' \<Longrightarrow> \<exists>p' rs. moves env s n p p' rs \<and> moved env s n p p' rs s'"
  by blast

lemma advance_moves:
  assumes step: "advance env s n node i p a = Some s'" and i: "map_of (pl_ids (the_plan env)) n = Some i"
    and c: "p = Waiting \<longrightarrow> rn_cancelled s = None"
  shows "\<exists>p' rs. moves env s n p p' rs \<and> moved env s n p p' rs s'"
proof (cases p)
  case Waiting
  show ?thesis
  proof (cases "stage_of env s node i")
    case None
    with step Waiting have "dispatch env s n i a = Some s'" by (simp add: advance_def)
    then show ?thesis by (rule dispatch_moves [OF _ i]) (use c Waiting in simp)
  next
    case (Some st)
    with step Waiting consider "moved env s n p Staged [RunTransition (re_run env) st None] s'"
      | e where "moved env s n p (Rejected e) [] s'"
      by (auto simp: advance_def task_defs moved_def)
    then show ?thesis using c Waiting by cases (auto intro: moveI [OF moves.intros(2)] moveI [OF moves.intros(15)])
  qed
next
  case Staged
  with step have "dispatch env s n i a = Some s'" by (simp add: advance_def)
  then show ?thesis by (rule dispatch_moves [OF _ i]) (use Staged in simp)
next
  case Dispatched
  consider e where "s' = reject_task n s e" | ref where "map_of (rt_completed (rn_runtime s)) i = Some ref"
      "read_back s n i ref a = Some s'" | "map_of (rt_completed (rn_runtime s)) i = None" "begin_attempt s n i a = Some s'"
    using step Dispatched by (auto simp: advance_def split: if_splits option.splits)
  then show ?thesis
  proof cases
    case (1 e)
    then have "moved env s n p (Rejected e) [] s'" by (auto simp: task_defs moved_def)
    then show ?thesis by (rule moveI [rotated]) (use Dispatched in \<open>auto intro: moves.intros\<close>)
  next
    case 2
    then show ?thesis using read_moves i Dispatched by blast
  next
    case 3
    show ?thesis by (rule begin_moves [OF 3(2) i]) (use Dispatched 3 in simp)
  qed
next
  case Lost
  with step have "begin_attempt s n i a = Some s'" by (simp add: advance_def)
  then show ?thesis by (rule begin_moves [OF _ i]) (use Lost in simp)
next
  case (Started m)
  with step consider v where "moved env s n p (Returned m v) [] s'" | e where "moved env s n p (Erred m e) [] s'"
    by (auto simp: advance_def Let_def moved_def split: answer.splits)
  then show ?thesis using Started by cases (auto intro: moveI moves.intros)
next
  case (Returned m v)
  with step consider "moved env s n p (Stored m v (re_address env v)) [] s'" | e where "moved env s n p (Erred m e) [] s'"
    by (auto simp: advance_def moved_def split: answer.splits)
  then show ?thesis using Returned by cases (auto intro: moveI moves.intros)
next
  case (Stored m v ref)
  with step consider "moved env s n p Produced [AttemptEnd i m ref] s'" | e where "moved env s n p (Erred m e) [] s'"
    by (auto simp: advance_def task_defs moved_def)
  then show ?thesis using Stored by cases (auto intro: moveI [OF moves.intros(11) [OF i]] moveI [OF moves.intros(12)])
next
  case (Erred m e)
  with step consider "moved env s n p (Rejected e) [AttemptError i m (describe_error e)] s'"
    | e' where "moved env s n p (Rejected e') [] s'"
    by (auto simp: advance_def task_defs moved_def)
  then show ?thesis using Erred by cases (auto intro: moveI [OF moves.intros(13) [OF i]] moveI [OF moves.intros(15)])
next
  case Produced
  with step consider "moved env s n p Fulfilled [NodeCompleted (re_run env) n i (rn_projected s i \<noteq> None)] s'"
    | e where "moved env s n p (Rejected e) [] s'"
    by (auto simp: advance_def task_defs moved_def)
  then show ?thesis using Produced by cases (auto intro: moveI [OF moves.intros(14) [OF i]] moveI [OF moves.intros(15)])
qed (use step in \<open>auto simp: advance_def\<close>)

lemma task_step_moves:
  assumes "task_step env s n a = Some s'"
  obtains p p' rs where "map_of (rn_tasks s) n = Some p" "moves env s n p p' rs" "moved env s n p p' rs s'" "\<not> settled p"
proof -
  from assms obtain p where p: "map_of (rn_tasks s) n = Some p" by (auto simp: task_step_def split: option.splits)
  have unsettled: "\<not> settled p"
    using assms p by (auto simp: task_step_def)
  consider "p = Waiting" "rn_cancelled s \<noteq> None" "s' = set_phase n Fulfilled s" | e where "s' = reject_task n s e"
    | node i where "advance env s n node i p a = Some s'" "map_of (pl_ids (the_plan env)) n = Some i"
        "p = Waiting \<longrightarrow> rn_cancelled s = None"
  proof (cases "p = Waiting \<and> rn_cancelled s \<noteq> None")
    case True
    with assms p that(1) show ?thesis by (simp add: task_step_def)
  next
    case False
    then have "\<not> (p = Waiting \<and> (\<exists>y. rn_cancelled s = Some y))" by simp
    note step = assms [unfolded task_step_def p option.case if_not_P [OF unsettled]]
    show ?thesis
    proof (cases "map_of (pl_nodes (the_plan env)) n")
      case None
      with step False that(2) show ?thesis by (auto split: if_splits)
    next
      case (Some node)
      with step False that(2,3) show ?thesis by (cases "map_of (pl_ids (the_plan env)) n") (auto split: if_splits)
    qed
  qed
  then have "\<exists>p' rs. moves env s n p p' rs \<and> moved env s n p p' rs s'"
  proof cases
    case 1
    then have "moved env s n p Fulfilled [] s'" by (simp add: moved_def)
    with 1 show ?thesis by (auto intro: moveI moves.intros)
  next
    case (2 e)
    then have "moved env s n p (Rejected e) [] s'" by (simp add: moved_def reject_task_def)
    then show ?thesis by (rule moveI [rotated]) (use unsettled in \<open>auto intro: moves.intros\<close>)
  next
    case 3
    then show ?thesis by (rule advance_moves)
  qed
  with p unsettled that show ?thesis by blast
qed

end
