(* ===== verification/Runner_Invariants.thy ===== *)
theory Runner_Invariants
  imports Runner
begin

text \<open>
  What holds in every state of a run: a node is dispatched only after its predecessors
  completed and at most once, the batch keeps the limit, executors see the outputs of the
  predecessors, and \<open>COMPLETED\<close> means that every reachable node completed.
\<close>

section \<open>The invariant\<close>

fun dispatch_of :: "journal_record \<Rightarrow> string option" where
  "dispatch_of (NodeDispatched _ n _) = Some n"
| "dispatch_of _ = None"

definition dispatches :: "journal_record list \<Rightarrow> string list" where
  "dispatches rs = List.map_filter dispatch_of rs"

definition completions :: "journal_record list \<Rightarrow> string list" where
  "completions rs = List.map_filter completed_node_of rs"

text \<open>Every dispatch comes after the completions of the node's predecessors.\<close>

fun ordered :: "(string \<Rightarrow> string list) \<Rightarrow> string set \<Rightarrow> journal_record list \<Rightarrow> bool" where
  "ordered preds seen [] \<longleftrightarrow> True"
| "ordered preds seen (r # rs) \<longleftrightarrow>
     (case dispatch_of r of None \<Rightarrow> True | Some n \<Rightarrow> set (preds n) \<subseteq> seen)
     \<and> ordered preds (case completed_node_of r of None \<Rightarrow> seen | Some n \<Rightarrow> insert n seen) rs"

text \<open>The records this handle appended, after those it loaded.\<close>

definition appended :: "journal_record list \<Rightarrow> run \<Rightarrow> journal_record list" where
  "appended recs s = drop (length recs) (rn_log s)"

fun early :: "phase \<Rightarrow> bool" where
  "early Waiting = True" | "early Staged = True" | "early _ = False"

fun before_call :: "phase \<Rightarrow> bool" where
  "before_call Waiting = True" | "before_call Staged = True" | "before_call Dispatched = True"
| "before_call Lost = True" | "before_call (Started _) = True" | "before_call _ = False"

fun before_output :: "phase \<Rightarrow> bool" where
  "before_output Produced = False" | "before_output Fulfilled = False" | "before_output (Rejected _) = False"
| "before_output _ = True"

definition in_batch :: "run \<Rightarrow> string \<Rightarrow> bool" where
  "in_batch s n \<longleftrightarrow> n \<in> fst ` set (rn_tasks s)"

definition live_control :: "run \<Rightarrow> bool" where
  "live_control s \<longleftrightarrow> rn_control s = Looping \<or> rn_control s = Batch"

definition batch_inv :: "run_env \<Rightarrow> run \<Rightarrow> bool" where
  "batch_inv env s \<longleftrightarrow>
     distinct (map fst (rn_tasks s)) \<and> fst ` set (rn_tasks s) \<subseteq> set (pl_order (the_plan env))
     \<and> length (rn_tasks s) \<le> re_limit env \<and> (rn_tasks s \<noteq> [] \<longrightarrow> rn_control s = Batch)"

definition output_inv :: "run_env \<Rightarrow> run \<Rightarrow> bool" where
  "output_inv env s \<longleftrightarrow>
     dom (rn_outputs s) \<subseteq> set (pl_order (the_plan env))
     \<and> (live_control s \<longrightarrow> rn_pending s = filter (\<lambda>n. rn_outputs s n = None) (pl_order (the_plan env)))
     \<and> (\<forall>n p. map_of (rn_tasks s) n = Some p \<longrightarrow>
          (before_output p \<longrightarrow> rn_outputs s n = None) \<and> (p = Produced \<longrightarrow> rn_outputs s n \<noteq> None)
          \<and> (p = Fulfilled \<and> rn_cancelled s = None \<longrightarrow> rn_outputs s n \<noteq> None))"

definition done_inv :: "run_env \<Rightarrow> journal_record list \<Rightarrow> run \<Rightarrow> bool" where
  "done_inv env recs s \<longleftrightarrow>
     (\<forall>n. in_batch s n \<longrightarrow> (\<forall>q \<in> set (pl_predecessors (the_plan env) n).
        q \<in> set (completions (appended recs s)) \<and> rn_outputs s q \<noteq> None))
     \<and> (\<forall>n. map_of (rn_tasks s) n = Some Fulfilled \<and> rn_cancelled s = None \<longrightarrow> n \<in> set (completions (appended recs s)))
     \<and> (live_control s \<and> rn_cancelled s = None \<longrightarrow>
          (\<forall>n. rn_outputs s n \<noteq> None \<longrightarrow> in_batch s n \<or> n \<in> set (completions (appended recs s))))"

definition dispatch_inv :: "run_env \<Rightarrow> journal_record list \<Rightarrow> run \<Rightarrow> bool" where
  "dispatch_inv env recs s \<longleftrightarrow>
     ordered (pl_predecessors (the_plan env)) {} (appended recs s)
     \<and> distinct (dispatches (appended recs s))
     \<and> (\<forall>n p. map_of (rn_tasks s) n = Some p \<longrightarrow> early p \<longrightarrow> n \<notin> set (dispatches (appended recs s)))
     \<and> (live_control s \<and> rn_cancelled s = None \<longrightarrow>
          (\<forall>n \<in> set (dispatches (appended recs s)). in_batch s n \<or> rn_outputs s n \<noteq> None))"

text \<open>The inputs of a call are the outputs of the node's predecessors, all of them set.\<close>

definition call_inputs :: "run_env \<Rightarrow> run \<Rightarrow> string \<times> (string \<times> json option) list \<Rightarrow> bool" where
  "call_inputs env s c \<longleftrightarrow>
     snd c = input_map (rn_outputs s) (pl_predecessors (the_plan env) (fst c))
     \<and> (\<forall>q \<in> set (pl_predecessors (the_plan env) (fst c)). rn_outputs s q \<noteq> None)"

definition call_inv :: "run_env \<Rightarrow> journal_record list \<Rightarrow> run \<Rightarrow> bool" where
  "call_inv env recs s \<longleftrightarrow>
     distinct (map fst (rn_calls s)) \<and> fst ` set (rn_calls s) \<subseteq> set (dispatches (appended recs s))
     \<and> (\<forall>n p. map_of (rn_tasks s) n = Some p \<longrightarrow> before_call p \<longrightarrow> n \<notin> fst ` set (rn_calls s))
     \<and> (\<forall>n p. map_of (rn_tasks s) n = Some p \<longrightarrow> \<not> early p \<longrightarrow> before_call p \<longrightarrow> n \<in> set (dispatches (appended recs s)))
     \<and> (\<forall>c \<in> set (rn_calls s). call_inputs env s c)"

definition end_inv :: "run_env \<Rightarrow> journal_record list \<Rightarrow> run \<Rightarrow> bool" where
  "end_inv env recs s \<longleftrightarrow>
     ((\<exists>r. rn_control s = Closing COMPLETED r) \<or> rn_control s = Ended COMPLETED \<longrightarrow>
        set (pl_order (the_plan env)) \<subseteq> set (completions (appended recs s)))
     \<and> (\<forall>st r. rn_control s = Failing st r \<longrightarrow> st \<noteq> COMPLETED)"

definition run_inv :: "run_env \<Rightarrow> journal_record list \<Rightarrow> run \<Rightarrow> bool" where
  "run_inv env recs s \<longleftrightarrow>
     (\<exists>app. rn_log s = recs @ app) \<and> batch_inv env s \<and> output_inv env s \<and> done_inv env recs s
     \<and> dispatch_inv env recs s \<and> call_inv env recs s \<and> end_inv env recs s"

section \<open>A task step keeps it\<close>

lemma dispatches_simps [simp]:
  "dispatches [] = []" "dispatches (r # rs) = (case dispatch_of r of None \<Rightarrow> [] | Some n \<Rightarrow> [n]) @ dispatches rs"
  "dispatches (rs @ qs) = dispatches rs @ dispatches qs"
  by (auto simp: dispatches_def List.map_filter_simps split: option.splits) (simp add: List.map_filter_def)

lemma completions_simps [simp]:
  "completions [] = []" "completions (r # rs) = (case completed_node_of r of None \<Rightarrow> [] | Some n \<Rightarrow> [n]) @ completions rs"
  "completions (rs @ qs) = completions rs @ completions qs"
  by (auto simp: completions_def List.map_filter_simps split: option.splits) (simp add: List.map_filter_def)

lemma ordered_append [simp]:
  "ordered preds seen (rs @ qs) \<longleftrightarrow> ordered preds seen rs \<and> ordered preds (seen \<union> set (completions rs)) qs"
  by (induction rs arbitrary: seen) (auto split: option.splits)

lemma ordered_no_dispatch: "dispatches qs = [] \<Longrightarrow> ordered preds seen qs"
  by (induction qs arbitrary: seen) (auto split: option.splits)

lemma moves_facts:
  assumes "moves env s n p p' rs"
  shows "early p' \<Longrightarrow> early p" "before_call p' \<Longrightarrow> before_call p" "before_output p' \<Longrightarrow> before_output p"
    "p' = Produced \<Longrightarrow> before_output p" "p' = Fulfilled \<Longrightarrow> rn_cancelled s = None \<Longrightarrow> p = Produced"
    "\<not> settled p"
    "dispatches rs \<noteq> [] \<Longrightarrow> dispatches rs = [n] \<and> early p \<and> \<not> early p' \<and> before_call p' \<and> completions rs = []"
    "before_call p' \<Longrightarrow> \<not> early p' \<Longrightarrow> early p \<Longrightarrow> dispatches rs = [n]"
    "p' = Fulfilled \<Longrightarrow> rn_cancelled s = None \<Longrightarrow> completions rs = [n]"
    "set (completions rs) \<subseteq> {n}"
  using assms by (cases; auto)+

lemma appended_append: "rn_log s = recs @ app \<Longrightarrow> rn_log s' = rn_log s @ rs \<Longrightarrow> appended recs s' = appended recs s @ rs"
  by (simp add: appended_def)

lemma movedD:
  assumes "moved env s n p p' rs s'"
  shows "rn_control s' = rn_control s" "rn_cancelled s' = rn_cancelled s" "rn_projected s' = rn_projected s"
    "rn_log s' = rn_log s @ rs" "rn_tasks s' = AList.update n p' (rn_tasks s)"
    "p' \<noteq> Produced \<Longrightarrow> rn_outputs s' = rn_outputs s \<and> rn_pending s' = rn_pending s"
    "p' = Produced \<Longrightarrow> rn_outputs s' n \<noteq> None \<and> rn_pending s' = filter (\<lambda>m. m \<noteq> n) (rn_pending s)"
    "m \<noteq> n \<Longrightarrow> rn_outputs s' m = rn_outputs s m"
    "rn_outputs s m \<noteq> None \<Longrightarrow> rn_outputs s' m \<noteq> None"
  using assms unfolding moved_def by (auto split: if_splits simp: fun_upd_def dest: fun_cong [where x = m])

lemma moved_in_batch:
  "moved env s n p p' rs s' \<Longrightarrow> map_of (rn_tasks s) n = Some p \<Longrightarrow> in_batch s' m = in_batch s m"
  by (auto simp: in_batch_def movedD(5) keys_update_image dest: map_of_SomeD_key)

lemma moved_tasks:
  assumes "moved env s n p p' rs s'" "map_of (rn_tasks s) n = Some p"
  shows "map fst (rn_tasks s') = map fst (rn_tasks s)" "length (rn_tasks s') = length (rn_tasks s)"
    "map_of (rn_tasks s') m = (if m = n then Some p' else map_of (rn_tasks s) m)"
proof -
  show "map fst (rn_tasks s') = map fst (rn_tasks s)"
    using assms(2) movedD(5) [OF assms(1)] by (simp add: map_fst_update_in map_of_SomeD_key)
  then show "length (rn_tasks s') = length (rn_tasks s)" by (metis length_map)
  show "map_of (rn_tasks s') m = (if m = n then Some p' else map_of (rn_tasks s) m)"
    by (simp add: movedD(5) [OF assms(1)] map_of_update)
qed

lemma batch_step:
  assumes "moved env s n p p' rs s'" "map_of (rn_tasks s) n = Some p" "batch_inv env s"
  shows "batch_inv env s'"
proof -
  have "fst ` set (rn_tasks s') = fst ` set (rn_tasks s)" "rn_tasks s \<noteq> []"
    using moved_tasks(1) [OF assms(1,2)] assms(2) by (metis list.set_map, auto)
  then show ?thesis
    using assms(3) moved_tasks(1,2) [OF assms(1,2)] movedD(1) [OF assms(1)] by (auto simp: batch_inv_def)
qed

lemma output_step:
  assumes m: "moves env s n p p' rs" and s': "moved env s n p p' rs s'" and n: "map_of (rn_tasks s) n = Some p"
    and inv: "batch_inv env s" "output_inv env s"
  shows "output_inv env s'"
proof -
  note t = moved_tasks(3) [OF s' n] and f = moves_facts [OF m] and d = movedD [OF s']
  have "n \<in> set (pl_order (the_plan env))" using n inv(1) by (auto simp: batch_inv_def dest: map_of_SomeD_key)
  then have dom: "dom (rn_outputs s') \<subseteq> set (pl_order (the_plan env))"
    using inv(2) d(8) unfolding output_inv_def by (metis domIff subset_iff)
  have pend: "rn_pending s' = filter (\<lambda>k. rn_outputs s' k = None) (pl_order (the_plan env))" if "live_control s'"
  proof (cases "p' = Produced")
    case True
    then have "rn_outputs s' n \<noteq> None" "rn_pending s' = filter (\<lambda>m. m \<noteq> n) (rn_pending s)" using d(7) by auto
    moreover have "(rn_outputs s' k = None) = (rn_outputs s k = None \<and> k \<noteq> n)" for k
      using d(8) [of k] calculation(1) by (cases "k = n") auto
    moreover have "rn_pending s = filter (\<lambda>k. rn_outputs s k = None) (pl_order (the_plan env))"
      using inv(2) that d(1) unfolding output_inv_def live_control_def by metis
    ultimately show ?thesis by (simp add: conj_commute)
  next
    case False
    then show ?thesis using d(6) inv(2) that d(1) unfolding output_inv_def live_control_def by metis
  qed
  have "(before_output q \<longrightarrow> rn_outputs s' k = None) \<and> (q = Produced \<longrightarrow> rn_outputs s' k \<noteq> None)
          \<and> (q = Fulfilled \<and> rn_cancelled s' = None \<longrightarrow> rn_outputs s' k \<noteq> None)"
    if k: "map_of (rn_tasks s') k = Some q" for k q
  proof (cases "k = n")
    case True
    then have q: "q = p'" using k t by simp
    show ?thesis
    proof (cases "p' = Produced")
      case True
      then show ?thesis using d(7) q \<open>k = n\<close> by simp
    next
      case False
      then show ?thesis using d(6) f(3,5) n inv(2) q \<open>k = n\<close> d(2) by (fastforce simp: output_inv_def)
    qed
  next
    case False
    then show ?thesis using k t inv(2) d(8) [of k] d(2) by (fastforce simp: output_inv_def)
  qed
  with dom pend show ?thesis by (simp add: output_inv_def)
qed

lemma done_step:
  assumes m: "moves env s n p p' rs" and s': "moved env s n p p' rs s'" and n: "map_of (rn_tasks s) n = Some p"
    and log: "rn_log s = recs @ app" and inv: "output_inv env s" "done_inv env recs s"
  shows "done_inv env recs s'"
proof -
  note t = moved_tasks(3) [OF s' n] and f = moves_facts [OF m] and d = movedD [OF s'] and b = moved_in_batch [OF s' n]
  have a: "appended recs s' = appended recs s @ rs" using appended_append [OF log d(4)] .
  have "k \<in> set (completions (appended recs s'))"
    if "map_of (rn_tasks s') k = Some Fulfilled" "rn_cancelled s' = None" for k
    using that t [of k] f(9) d(2) inv(2) a by (auto simp: done_inv_def split: if_splits)
  moreover have "in_batch s k \<or> k \<in> set (completions (appended recs s'))"
    if "live_control s'" "rn_cancelled s' = None" "rn_outputs s' k \<noteq> None" for k
  proof (cases "k = n")
    case True
    then show ?thesis using n by (auto simp: in_batch_def dest: map_of_SomeD_key)
  next
    case False
    then show ?thesis using inv(2) that d(1,2,8) a by (auto simp: done_inv_def live_control_def)
  qed
  ultimately show ?thesis using inv(2) a d(9) by (auto simp: done_inv_def b)
qed

lemma dispatch_step:
  assumes m: "moves env s n p p' rs" and s': "moved env s n p p' rs s'" and n: "map_of (rn_tasks s) n = Some p"
    and log: "rn_log s = recs @ app" and inv: "done_inv env recs s" "dispatch_inv env recs s"
  shows "dispatch_inv env recs s'"
proof -
  note t = moved_tasks(3) [OF s' n] and f = moves_facts [OF m] and d = movedD [OF s'] and b = moved_in_batch [OF s' n]
  have a: "appended recs s' = appended recs s @ rs" using appended_append [OF log d(4)] .
  have nb: "in_batch s n" using n by (auto simp: in_batch_def dest: map_of_SomeD_key)
  have ord: "ordered (pl_predecessors (the_plan env)) {} (appended recs s')"
  proof (cases "dispatches rs = []")
    case True
    then show ?thesis using inv(2) a by (simp add: dispatch_inv_def ordered_no_dispatch)
  next
    case False
    from m this obtain r i where "rs = [NodeDispatched r n i]" by cases auto
    moreover have "set (pl_predecessors (the_plan env) n) \<subseteq> set (completions (appended recs s))"
      using inv(1) nb by (auto simp: done_inv_def)
    ultimately show ?thesis using inv(2) a by (simp add: dispatch_inv_def)
  qed
  have dist: "distinct (dispatches (appended recs s'))"
    using inv(2) a f(7) n by (cases "dispatches rs = []") (auto simp: dispatch_inv_def)
  have early: "k \<notin> set (dispatches (appended recs s'))" if "map_of (rn_tasks s') k = Some q" "early q" for k q
    using that t [of k] inv(2) a f(1,7) n by (cases "dispatches rs = []") (auto simp: dispatch_inv_def split: if_splits)
  have "in_batch s' k \<or> rn_outputs s' k \<noteq> None"
    if "live_control s'" "rn_cancelled s' = None" "k \<in> set (dispatches (appended recs s'))" for k
    using that inv(2) a f(7) d(1,2) d(9) [of k] nb b
    by (cases "dispatches rs = []") (auto simp: dispatch_inv_def live_control_def)
  with ord dist early show ?thesis by (auto simp: dispatch_inv_def)
qed

lemma output_stable:
  assumes "moves env s n p p' rs" "moved env s n p p' rs s'" "map_of (rn_tasks s) n = Some p" "output_inv env s"
    "rn_outputs s q \<noteq> None"
  shows "rn_outputs s' q = rn_outputs s q"
proof (cases "q = n \<and> p' = Produced")
  case True
  then have "before_output p" using moves_facts(4) [OF assms(1)] by simp
  with assms(3-5) True show ?thesis by (simp add: output_inv_def)
next
  case False
  then show ?thesis using movedD(6) [OF assms(2)] movedD(8) [OF assms(2), of q] by (cases "q = n") auto
qed

lemma input_map_cong: "(\<And>q. q \<in> set ps \<Longrightarrow> f q = g q) \<Longrightarrow> input_map f ps = input_map g ps"
  unfolding input_map_def by (rule fold_cong) auto

lemma calls_moved:
  assumes m: "moves env s n p p' rs" and s': "moved env s n p p' rs s'"
  shows "rn_calls s' = rn_calls s
    \<or> before_call p \<and> \<not> early p \<and> \<not> before_call p' \<and> dispatches rs = []
      \<and> rn_calls s' = rn_calls s @ [(n, input_map (rn_outputs s) (pl_predecessors (the_plan env) n))]"
proof -
  from s' have calls: "rn_calls s' = rn_calls s @ (case p' of
          Returned _ _ \<Rightarrow> [(n, input_map (rn_outputs s) (pl_predecessors (the_plan env) n))]
        | Erred _ _ \<Rightarrow> (case p of Started _ \<Rightarrow> [(n, input_map (rn_outputs s) (pl_predecessors (the_plan env) n))] | _ \<Rightarrow> [])
        | _ \<Rightarrow> [])" by (simp add: moved_def)
  from m show ?thesis by (cases; simp add: calls)
qed

lemma call_step:
  assumes m: "moves env s n p p' rs" and s': "moved env s n p p' rs s'" and n: "map_of (rn_tasks s) n = Some p"
    and log: "rn_log s = recs @ app"
    and inv: "output_inv env s" "done_inv env recs s" "call_inv env recs s"
  shows "call_inv env recs s'"
proof -
  note t = moved_tasks(3) [OF s' n] and f = moves_facts [OF m] and d = movedD [OF s']
  have a: "appended recs s' = appended recs s @ rs" using appended_append [OF log d(4)] .
  have nb: "in_batch s n" using n by (auto simp: in_batch_def dest: map_of_SomeD_key)
  note stable = output_stable [OF m s' n inv(1)]
  have preds: "rn_outputs s q \<noteq> None" if "q \<in> set (pl_predecessors (the_plan env) n)" for q
    using inv(2) nb that by (auto simp: done_inv_def)
  have old: "call_inputs env s' c" if "call_inputs env s c" for c
    using that stable input_map_cong [of _ "rn_outputs s" "rn_outputs s'"] unfolding call_inputs_def by metis
  have "call_inputs env s (n, input_map (rn_outputs s) (pl_predecessors (the_plan env) n))"
    using preds by (simp add: call_inputs_def)
  moreover have "\<forall>c \<in> set (rn_calls s). call_inputs env s c" using inv(3) by (simp add: call_inv_def)
  moreover have "set (rn_calls s') \<subseteq> insert (n, input_map (rn_outputs s) (pl_predecessors (the_plan env) n)) (set (rn_calls s))"
    using calls_moved [OF m s'] by auto
  ultimately have calls: "\<forall>c \<in> set (rn_calls s'). call_inputs env s' c" using old by blast
  have fresh: "before_call p \<Longrightarrow> n \<notin> fst ` set (rn_calls s)" using inv(3) n by (auto simp: call_inv_def)
  have sub: "fst ` set (rn_calls s') \<subseteq> insert n (fst ` set (rn_calls s))" and
    same: "before_call p' \<Longrightarrow> rn_calls s' = rn_calls s"
    using calls_moved [OF m s'] by auto
  have "k \<notin> fst ` set (rn_calls s')" if k: "map_of (rn_tasks s') k = Some q" "before_call q" for k q
  proof (cases "k = n")
    case True
    then have "q = p'" using k t by simp
    then show ?thesis using k(2) same fresh f(2) True by simp
  next
    case False
    then have "map_of (rn_tasks s) k = Some q" using k t by simp
    then have "k \<notin> fst ` set (rn_calls s)" using inv(3) k(2) unfolding call_inv_def by blast
    with sub False show ?thesis by blast
  qed
  moreover have "k \<in> set (dispatches (appended recs s'))"
    if "map_of (rn_tasks s') k = Some q" "\<not> early q" "before_call q" for k q
  proof (cases "k = n")
    case True
    then have "q = p'" using that t by simp
    then show ?thesis using True that(2,3) f(2,8) a n inv(3) by (cases "early p") (auto simp: call_inv_def)
  next
    case False
    then show ?thesis using that t inv(3) a by (auto simp: call_inv_def)
  qed
  moreover have "distinct (map fst (rn_calls s'))"
    using calls_moved [OF m s'] fresh inv(3) by (auto simp: call_inv_def)
  moreover have "fst ` set (rn_calls s') \<subseteq> set (dispatches (appended recs s'))"
  proof (cases "rn_calls s' = rn_calls s")
    case True
    then show ?thesis using inv(3) a unfolding call_inv_def by auto
  next
    case False
    then have "before_call p" "\<not> early p" using calls_moved [OF m s'] by auto
    then have "n \<in> set (dispatches (appended recs s))" using inv(3) n unfolding call_inv_def by blast
    moreover have "fst ` set (rn_calls s) \<subseteq> set (dispatches (appended recs s))" using inv(3) unfolding call_inv_def by blast
    ultimately show ?thesis using sub a by (metis (no_types, lifting) UnI1 dispatches_simps(3) insert_subset order_trans set_append subsetI)
  qed
  ultimately show ?thesis using calls by (auto simp: call_inv_def)
qed

lemma run_invI:
  "rn_log s = recs @ app \<Longrightarrow> batch_inv env s \<Longrightarrow> output_inv env s \<Longrightarrow> done_inv env recs s \<Longrightarrow> dispatch_inv env recs s \<Longrightarrow>
     call_inv env recs s \<Longrightarrow> end_inv env recs s \<Longrightarrow> run_inv env recs s"
  by (simp add: run_inv_def)

lemma run_invD:
  assumes "run_inv env recs s"
  shows "\<exists>app. rn_log s = recs @ app" "batch_inv env s" "output_inv env s" "done_inv env recs s"
    "dispatch_inv env recs s" "call_inv env recs s" "end_inv env recs s"
  using assms by (simp_all add: run_inv_def)

lemma run_inv_task:
  assumes "task_step env s n a = Some s'" "run_inv env recs s"
  shows "run_inv env recs s'"
proof -
  from assms(1) obtain p p' rs where step: "map_of (rn_tasks s) n = Some p" "moves env s n p p' rs"
    "moved env s n p p' rs s'" by (rule task_step_moves)
  note inv = run_invD [OF assms(2)]
  from inv(1) obtain app where log: "rn_log s = recs @ app" by blast
  note d = movedD [OF step(3)]
  have "rn_tasks s \<noteq> []" using step(1) by auto
  then have ctl: "rn_control s = Batch" using inv(2) by (simp add: batch_inv_def)
  show ?thesis
  proof (rule run_invI)
    show "rn_log s' = recs @ (app @ rs)" using log d(4) by simp
    show "batch_inv env s'" by (rule batch_step [OF step(3,1) inv(2)])
    show "output_inv env s'" by (rule output_step [OF step(2,3,1) inv(2,3)])
    show "done_inv env recs s'" by (rule done_step [OF step(2,3,1) log inv(3,4)])
    show "dispatch_inv env recs s'" by (rule dispatch_step [OF step(2,3,1) log inv(4,5)])
    show "call_inv env recs s'" by (rule call_step [OF step(2,3,1) log inv(3,4,6)])
    show "end_inv env recs s'" using ctl d(1) by (simp add: end_inv_def)
  qed
qed

section \<open>A step of the handle keeps it\<close>

lemma cancel_fields [simp]:
  "rn_control (cancel_run s r) = rn_control s" "rn_log (cancel_run s r) = rn_log s"
  "rn_projected (cancel_run s r) = rn_projected s" "rn_runtime (cancel_run s r) = rn_runtime s"
  "rn_store (cancel_run s r) = rn_store s" "rn_outputs (cancel_run s r) = rn_outputs s"
  "rn_pending (cancel_run s r) = rn_pending s" "rn_tasks (cancel_run s r) = rn_tasks s"
  "rn_calls (cancel_run s r) = rn_calls s" "rn_live (cancel_run s r) = rn_live s"
  "rn_cancelled (cancel_run s r) \<noteq> None"
  by (simp_all add: cancel_run_def)

lemma cancel_inv:
  assumes "run_inv env recs s"
  shows "run_inv env recs (cancel_run s r)"
proof -
  note inv = run_invD [OF assms]
  from inv(1) obtain app where log: "rn_log s = recs @ app" by blast
  have c: "rn_cancelled (cancel_run s r) \<noteq> None" by simp
  show ?thesis
  proof (rule run_invI)
    show "rn_log (cancel_run s r) = recs @ app" using log by simp
    show "batch_inv env (cancel_run s r)" using inv(2) by (simp add: batch_inv_def)
    show "output_inv env (cancel_run s r)"
      using inv(3) c unfolding output_inv_def live_control_def cancel_fields by blast
    show "done_inv env recs (cancel_run s r)"
      using inv(4) c unfolding done_inv_def live_control_def in_batch_def appended_def cancel_fields by blast
    show "dispatch_inv env recs (cancel_run s r)"
      using inv(5) c unfolding dispatch_inv_def live_control_def in_batch_def appended_def cancel_fields by blast
    show "call_inv env recs (cancel_run s r)"
      using inv(6) unfolding call_inv_def call_inputs_def appended_def cancel_fields by blast
    show "end_inv env recs (cancel_run s r)"
      using inv(7) unfolding end_inv_def appended_def cancel_fields by blast
  qed
qed

text \<open>A step that leaves the batch and the loop: no tasks, and no more outputs or calls.\<close>

lemma leave_inv:
  assumes run: "run_inv env recs s" and s': "rn_tasks s' = []" "\<not> live_control s'" "rn_log s' = rn_log s @ rs"
    "dispatches rs = []" "rn_outputs s' = rn_outputs s" "rn_calls s' = rn_calls s" "end_inv env recs s'"
  shows "run_inv env recs s'"
proof -
  note inv = run_invD [OF run]
  from inv(1) obtain app where log: "rn_log s = recs @ app" by blast
  have a: "appended recs s' = appended recs s @ rs" using appended_append [OF log s'(3)] .
  have nb: "\<not> in_batch s' n" for n using s'(1) by (simp add: in_batch_def)
  show ?thesis
  proof (rule run_invI)
    show "rn_log s' = recs @ (app @ rs)" using log s'(3) by simp
    show "batch_inv env s'" using s'(1) by (simp add: batch_inv_def)
    show "output_inv env s'" using inv(3) s'(1,2,5) by (simp add: output_inv_def)
    show "done_inv env recs s'" using s'(1,2) nb by (simp add: done_inv_def)
    show "dispatch_inv env recs s'"
      using inv(5) s'(1,2,4) by (simp add: dispatch_inv_def a ordered_no_dispatch)
    show "call_inv env recs s'"
      using inv(6) s'(1,4,5,6) by (simp add: call_inv_def call_inputs_def a)
    show "end_inv env recs s'" by (rule s'(7))
  qed
qed

lemma throw_fields [simp]:
  "rn_tasks (throw s e) = rn_tasks s" "rn_log (throw s e) = rn_log s" "rn_outputs (throw s e) = rn_outputs s"
  "rn_calls (throw s e) = rn_calls s" "rn_runtime (throw s e) = rn_runtime s" "rn_store (throw s e) = rn_store s"
  "rn_projected (throw s e) = rn_projected s" "rn_cancelled (throw s e) = rn_cancelled s"
  "rn_live (throw s e) = rn_live s" "rn_pending (throw s e) = rn_pending s"
  by (simp_all add: throw_def split: option.splits)

lemma throw_control: "\<exists>st r. rn_control (throw s e) = Failing st r \<and> st \<noteq> COMPLETED"
proof -
  have "error_state e \<noteq> COMPLETED" by (cases e) auto
  then show ?thesis by (auto simp: throw_def split: option.splits)
qed

lemma throw_neq [simp]:
  "rn_control (throw s e) \<noteq> Opening" "rn_control (throw s e) \<noteq> Looping" "rn_control (throw s e) \<noteq> Batch"
  "rn_control (throw s e) \<noteq> Closing st r" "rn_control (throw s e) \<noteq> Ended st" "rn_control (throw s e) \<noteq> Broken e'"
  using throw_control [of s e] by auto

lemma throw_end [simp]: "end_inv env recs (throw s e)" "\<not> live_control (throw s e)"
  using throw_control [of s e] by (auto simp: end_inv_def live_control_def)

lemma throw_inv: "run_inv env recs s \<Longrightarrow> rn_tasks s = [] \<Longrightarrow> run_inv env recs (throw (announce s r) e)"
  by (rule leave_inv [where rs = "[]"]) simp_all

text \<open>The handle before the loop has nothing to keep.\<close>

lemma open_inv:
  assumes "rn_tasks s = []" "rn_log s = recs @ app" "dispatches app = []" "rn_calls s = []"
    "rn_outputs s = Map.empty"
  shows "run_inv env recs (open_run env s)"
proof (cases "re_plan env")
  case (Inl e)
  then show ?thesis using assms throw_end(1) [of env recs s "plan_failure e"]
    by (intro run_invI [where app = app])
      (simp_all add: open_run_def batch_inv_def output_inv_def done_inv_def dispatch_inv_def call_inv_def in_batch_def
        appended_def ordered_no_dispatch)
next
  case (Inr p)
  then show ?thesis using assms
    by (intro run_invI [where app = app])
      (simp_all add: open_run_def batch_inv_def output_inv_def done_inv_def dispatch_inv_def call_inv_def in_batch_def
        appended_def ordered_no_dispatch end_inv_def the_plan_def)
qed

text \<open>Starting a batch: its nodes are ready, so their predecessors completed.\<close>

lemma start_batch_inv:
  assumes run: "run_inv env recs s" and ctl: "rn_control s = Looping" "rn_cancelled s = None"
    and order: "distinct (pl_order (the_plan env))"
    and s': "s' = s\<lparr>rn_control := Batch, rn_tasks := map (\<lambda>n. (n, Waiting)) (take (re_limit env) (ready_nodes env s))\<rparr>"
  shows "run_inv env recs s'"
proof -
  note inv = run_invD [OF run]
  from inv(1) obtain app where log: "rn_log s = recs @ app" by blast
  have a: "appended recs s' = appended recs s" by (simp add: appended_def s')
  have empty: "rn_tasks s = []" using inv(2) ctl(1) by (auto simp: batch_inv_def)
  have lc: "live_control s" using ctl(1) by (simp add: live_control_def)
  have complete: "rn_outputs s n \<noteq> None \<Longrightarrow> n \<in> set (completions (appended recs s))" for n
    using inv(4) lc ctl(2) empty unfolding done_inv_def in_batch_def by auto
  have old: "n \<in> set (dispatches (appended recs s)) \<Longrightarrow> rn_outputs s n \<noteq> None" for n
    using inv(5) lc ctl(2) empty unfolding dispatch_inv_def in_batch_def by auto
  have batch: "rn_outputs s n = None \<and> n \<in> set (pl_order (the_plan env))
      \<and> (\<forall>q \<in> set (pl_predecessors (the_plan env) n). rn_outputs s q \<noteq> None)"
    if "n \<in> fst ` set (rn_tasks s')" for n
  proof -
    have "n \<in> set (ready_nodes env s)" using that s' by (auto dest: in_set_takeD)
    moreover have "rn_pending s = filter (\<lambda>n. rn_outputs s n = None) (pl_order (the_plan env))"
      using inv(3) lc by (simp add: output_inv_def)
    ultimately show ?thesis by (auto simp: ready_nodes_def list_all_iff)
  qed
  have waiting: "map_of (rn_tasks s') n = Some p \<Longrightarrow> p = Waiting \<and> n \<in> fst ` set (rn_tasks s')" for n p
    by (rule conjI, (simp add: s', fastforce dest: map_of_SomeD), rule map_of_SomeD_key)
  have fresh: "n \<notin> set (dispatches (appended recs s))" if "n \<in> fst ` set (rn_tasks s')" for n
    using batch [OF that] old by blast
  have same: "rn_outputs s' = rn_outputs s" "rn_calls s' = rn_calls s" "rn_cancelled s' = rn_cancelled s"
    "rn_pending s' = rn_pending s" "rn_log s' = rn_log s" by (simp_all add: s')
  show ?thesis
  proof (rule run_invI)
    show "rn_log s' = recs @ app" using log by (simp add: s')
    have "distinct (ready_nodes env s)" using order by (simp add: ready_nodes_def)
    moreover have "map fst (rn_tasks s') = take (re_limit env) (ready_nodes env s)" by (simp add: s' comp_def)
    moreover have "fst ` set (rn_tasks s') \<subseteq> set (pl_order (the_plan env))" using batch by blast
    ultimately show "batch_inv env s'" by (simp add: batch_inv_def) (simp add: s')
    show "output_inv env s'"
      using inv(3) lc waiting batch unfolding output_inv_def same by (auto dest!: waiting)
    show "done_inv env recs s'"
      using batch complete waiting unfolding done_inv_def same a in_batch_def by (auto dest!: waiting)
    show "dispatch_inv env recs s'"
      using inv(5) waiting fresh old unfolding dispatch_inv_def same a by blast
    have "fst ` set (rn_calls s) \<subseteq> set (dispatches (appended recs s))" using inv(6) by (simp add: call_inv_def)
    then have nc: "n \<notin> fst ` set (rn_calls s)" if "n \<in> fst ` set (rn_tasks s')" for n using fresh [OF that] by blast
    have "early p" if "map_of (rn_tasks s') n = Some p" for n p using waiting [OF that] by simp
    then show "call_inv env recs s'"
      using inv(6) waiting nc unfolding call_inv_def call_inputs_def same a by blast
    show "end_inv env recs s'" by (simp add: end_inv_def s')
  qed
qed

lemma loop_head_inv:
  assumes run: "run_inv env recs s" and ctl: "rn_control s = Looping" and order: "distinct (pl_order (the_plan env))"
  shows "run_inv env recs (loop_head env s)"
proof -
  note inv = run_invD [OF run]
  have empty: "rn_tasks s = []" using inv(2) ctl(1) by (auto simp: batch_inv_def)
  have lc: "live_control s" using ctl(1) by (simp add: live_control_def)
  consider "rn_pending s \<noteq> [] \<and> rn_cancelled s = None" "ready_nodes env s = []"
    | "rn_pending s \<noteq> [] \<and> rn_cancelled s = None" "ready_nodes env s \<noteq> []"
    | "\<not> (rn_pending s \<noteq> [] \<and> rn_cancelled s = None)" by blast
  then show ?thesis
  proof cases
    case 1
    then show ?thesis using empty unfolding loop_head_def
      by (simp add: leave_inv [OF run, where rs = "[]"])
  next
    case 2
    then show ?thesis using start_batch_inv [OF run ctl _ order] by (simp add: loop_head_def)
  next
    case 3
    let ?s = "s\<lparr>rn_control := Closing (if rn_cancelled s = None then COMPLETED else CANCELLED) (rn_cancelled s)\<rparr>"
    have "n \<in> set (completions (appended recs s))" if "rn_cancelled s = None" "n \<in> set (pl_order (the_plan env))" for n
    proof -
      have "rn_pending s = []" using 3 that(1) by simp
      moreover have "rn_pending s = filter (\<lambda>n. rn_outputs s n = None) (pl_order (the_plan env))"
        using inv(3) lc by (simp add: output_inv_def)
      ultimately have "filter (\<lambda>n. rn_outputs s n = None) (pl_order (the_plan env)) = []" by simp
      then have "rn_outputs s n \<noteq> None" using that(2) unfolding filter_empty_conv by blast
      then have "in_batch s n \<or> n \<in> set (completions (appended recs s))"
        using inv(4) lc that(1) unfolding done_inv_def by blast
      with empty show ?thesis by (simp add: in_batch_def)
    qed
    then have "end_inv env recs ?s" by (auto simp: end_inv_def appended_def)
    then have "run_inv env recs ?s"
      using empty by (intro leave_inv [OF run, where rs = "[]"]) (simp_all add: live_control_def)
    then show ?thesis using 3 by (auto simp: loop_head_def)
  qed
qed

lemma settle_inv:
  assumes run: "run_inv env recs s" and ctl: "rn_control s = Batch" and all: "list_all (settled \<circ> snd) (rn_tasks s)"
  shows "run_inv env recs (settle_batch s)"
proof -
  note inv = run_invD [OF run]
  from inv(1) obtain app where log: "rn_log s = recs @ app" by blast
  let ?s = "s\<lparr>rn_tasks := [], rn_control := Looping\<rparr>"
  let ?f = "List.map_filter (rejection \<circ> snd) (rn_tasks s)"
  show ?thesis
  proof (cases "?f \<noteq> [] \<and> rn_cancelled s = None")
    case True
    then obtain e es where f: "?f = e # es" by (meson neq_Nil_conv)
    have "run_inv env recs (throw ?s e)" by (rule leave_inv [OF run, where rs = "[]"]) simp_all
    with True f show ?thesis by (simp add: settle_batch_def)
  next
    case False
    then have "settle_batch s = ?s" by (cases ?f) (auto simp: settle_batch_def)
    have ful: "map_of (rn_tasks s) n = Some Fulfilled" if "rn_cancelled s = None" "in_batch s n" for n
    proof -
      from that(2) obtain p where p: "map_of (rn_tasks s) n = Some p"
        unfolding in_batch_def by (metis map_of_eq_None_iff not_None_eq)
      then have "(n, p) \<in> set (rn_tasks s)" by (rule map_of_SomeD)
      moreover have "?f = []" using False that(1) by simp
      ultimately have "settled p" "rejection p = None"
        using all by (auto simp: list_all_iff List.map_filter_def filter_empty_conv)
      with p show ?thesis by (cases p) auto
    qed
    have lc: "live_control s" using ctl by (simp add: live_control_def)
    have a: "appended recs ?s = appended recs s" by (simp add: appended_def)
    have complete: "n \<in> set (completions (appended recs s))" if "rn_cancelled s = None" "rn_outputs s n \<noteq> None" for n
      using inv(4) lc ful [of n] that unfolding done_inv_def by blast
    have old: "rn_outputs s n \<noteq> None" if "rn_cancelled s = None" "n \<in> set (dispatches (appended recs s))" for n
      using inv(5) inv(3) lc ful [of n] that unfolding dispatch_inv_def output_inv_def by blast
    have "run_inv env recs ?s"
    proof (rule run_invI)
      show "rn_log ?s = recs @ app" using log by simp
      show "batch_inv env ?s" by (simp add: batch_inv_def)
      show "output_inv env ?s" using inv(3) lc by (simp add: output_inv_def)
      show "done_inv env recs ?s" using complete by (simp add: done_inv_def a in_batch_def)
      show "dispatch_inv env recs ?s" using inv(5) old by (simp add: dispatch_inv_def a in_batch_def)
      show "call_inv env recs ?s" using inv(6) by (simp add: call_inv_def call_inputs_def a)
      show "end_inv env recs ?s" by (simp add: end_inv_def)
    qed
    with \<open>settle_batch s = ?s\<close> show ?thesis by simp
  qed
qed

text \<open>The shapes of a step of the handle.\<close>

lemma tick_cases [consumes 1, case_names opened opening_failed looped settled closed closing_failed failed broken]:
  assumes "tick env s a = Some s'"
    and "rn_control s = Opening \<Longrightarrow>
      s' = open_run env ((announce s (created_record env))\<lparr>rn_log := rn_log s @ [created_record env]\<rparr>) \<Longrightarrow> P"
    and "\<And>e. rn_control s = Opening \<Longrightarrow> s' = throw (announce s (created_record env)) e \<Longrightarrow> P"
    and "rn_control s = Looping \<Longrightarrow> s' = loop_head env s \<Longrightarrow> P"
    and "rn_control s = Batch \<Longrightarrow> list_all (settled \<circ> snd) (rn_tasks s) \<Longrightarrow> s' = settle_batch s \<Longrightarrow> P"
    and "\<And>st r. rn_control s = Closing st r \<Longrightarrow>
      s' = (announce s (RunTransition (re_run env) st r))\<lparr>rn_log := rn_log s @ [RunTransition (re_run env) st r],
        rn_control := Ended st\<rparr> \<Longrightarrow> P"
    and "\<And>st r e. rn_control s = Closing st r \<Longrightarrow> s' = throw (announce s (RunTransition (re_run env) st r)) e \<Longrightarrow> P"
    and "\<And>st r. rn_control s = Failing st r \<Longrightarrow>
      s' = (announce s (RunTransition (re_run env) st r))\<lparr>rn_log := rn_log s @ [RunTransition (re_run env) st r],
        rn_control := Ended st\<rparr> \<Longrightarrow> P"
    and "\<And>st r e. rn_control s = Failing st r \<Longrightarrow>
      s' = (announce s (RunTransition (re_run env) st r))\<lparr>rn_control := Broken e\<rparr> \<Longrightarrow> P"
  shows P
  using assms(1)
  by (cases "rn_control s") (auto simp: tick_def append_then_Some intro: assms(2-) split: if_splits)

lemma end_closing:
  "end_inv env recs s \<Longrightarrow> rn_control s = Closing st r \<or> rn_control s = Failing st r \<Longrightarrow>
     appended recs s' = appended recs s @ rs \<Longrightarrow> rn_control s' = Ended st \<Longrightarrow> end_inv env recs s'"
  by (auto simp: end_inv_def)

lemma tick_inv:
  assumes step: "tick env s a = Some s'" and run: "run_inv env recs s"
    and order: "distinct (pl_order (the_plan env))"
    and start: "rn_control s = Opening \<Longrightarrow> rn_log s = recs \<and> rn_tasks s = [] \<and> rn_calls s = [] \<and> rn_outputs s = Map.empty"
  shows "run_inv env recs s'"
proof -
  note inv = run_invD [OF run]
  from inv(1) obtain app where log: "rn_log s = recs @ app" by blast
  have empty: "rn_control s \<noteq> Batch \<Longrightarrow> rn_tasks s = []" using inv(2) by (auto simp: batch_inv_def)
  show ?thesis
    using step
  proof (cases rule: tick_cases)
    case opened
    then show ?thesis using start by (auto intro!: open_inv [where app = "[created_record env]"] simp: created_record_def)
  next
    case (closed st r)
    then have "appended recs s' = appended recs s @ [RunTransition (re_run env) st r]"
      by (intro appended_append [OF log]) simp
    then have "end_inv env recs s'" using end_closing [OF inv(7)] closed by simp
    then show ?thesis
      using closed empty by (intro leave_inv [OF run, where rs = "[RunTransition (re_run env) st r]"]) (simp_all add: live_control_def)
  next
    case (failed st r)
    then have "appended recs s' = appended recs s @ [RunTransition (re_run env) st r]"
      by (intro appended_append [OF log]) simp
    then have "end_inv env recs s'" using end_closing [OF inv(7)] failed by simp
    then show ?thesis
      using failed empty by (intro leave_inv [OF run, where rs = "[RunTransition (re_run env) st r]"]) (simp_all add: live_control_def)
  next
    case (broken st r e)
    then show ?thesis
      using empty by (intro leave_inv [OF run, where rs = "[]"]) (simp_all add: live_control_def end_inv_def)
  qed (use run empty order settle_inv loop_head_inv throw_inv in auto)
qed

section \<open>Every reachable state\<close>

lemma opening_unchanged:
  assumes "reaches env (initial_run recs store) s" "rn_control s = Opening"
  shows "rn_log s = recs \<and> rn_tasks s = [] \<and> rn_calls s = [] \<and> rn_outputs s = Map.empty \<and> rn_live s = CREATED"
  using assms
proof induction
  case reaches_refl
  then show ?case by (simp add: initial_run_def)
next
  case (reaches_step s x s')
  show ?case
  proof (cases x)
    case (CancelRun r)
    with reaches_step show ?thesis by auto
  next
    case (Tick a)
    with reaches_step.hyps have "tick env s a = Some s'" by simp
    then show ?thesis
      using reaches_step.prems
      by (cases rule: tick_cases)
        (auto simp: open_run_def settle_batch_def Let_def loop_head_def split: sum.splits list.splits if_splits)
  next
    case (Task n a)
    with reaches_step.hyps obtain b where "rn_control s = Batch" "task_step env s n a = Some s'" by (auto split: if_splits)
    then show ?thesis using reaches_step.prems by (auto elim!: task_step_moves dest: movedD(1))
  qed
qed

lemma reachable_inv:
  assumes reach: "reaches env (initial_run recs store) s" and order: "distinct (pl_order (the_plan env))"
  shows "run_inv env recs s"
  using reach
proof induction
  case reaches_refl
  show ?case
    by (rule run_invI [where app = "[]"])
      (simp_all add: initial_run_def batch_inv_def output_inv_def done_inv_def dispatch_inv_def call_inv_def end_inv_def
        in_batch_def appended_def live_control_def)
next
  case (reaches_step s x s')
  show ?case
  proof (cases x)
    case (CancelRun r)
    with reaches_step show ?thesis using cancel_inv by auto
  next
    case (Tick a)
    then show ?thesis
      using reaches_step tick_inv [OF _ reaches_step.IH order] opening_unchanged [OF reaches_step.hyps(1)] by auto
  next
    case (Task n a)
    then show ?thesis using reaches_step run_inv_task by (auto split: if_splits)
  qed
qed

end
