(* ===== verification/Runner_Recovery.thy ===== *)
theory Runner_Recovery
  imports Runner_Invariants
begin

text \<open>
  What a run leaves for a later one: its journal and its runtime agree, attempt numbers are
  never reused, an activity whose result is kept is not run again, and every run ends.
\<close>

section \<open>The runtime and the journal\<close>

fun plain_record :: "journal_record \<Rightarrow> bool" where
  "plain_record (AttemptStart _ _ _) = False"
| "plain_record (AttemptEnd _ _ _) = False"
| "plain_record _ = True"

lemma plain_recordD: "plain_record r \<Longrightarrow> attempt_of i r = None" "plain_record r \<Longrightarrow> end_of i r = None"
  by (cases r; simp)+

text \<open>The four things a task step does to the runtime.\<close>

inductive runtime_move :: "run_env \<Rightarrow> run \<Rightarrow> string \<Rightarrow> run \<Rightarrow> bool" for env s n s' where
  quiet: "rn_runtime s' = rn_runtime s \<Longrightarrow> rn_log s' = rn_log s \<or> (\<exists>r. plain_record r \<and> rn_log s' = rn_log s @ [r]) \<Longrightarrow>
     runtime_move env s n s'"
| attempted: "map_of (pl_ids (the_plan env)) n = Some i \<Longrightarrow> m = get_or 0 (rt_attempts (rn_runtime s)) i + 1 \<Longrightarrow>
     rn_runtime s' = (rn_runtime s)\<lparr>rt_attempts := AList.update i m (rt_attempts (rn_runtime s))\<rparr> \<Longrightarrow>
     rn_log s' = rn_log s \<or> rn_log s' = rn_log s @ [AttemptStart i m None] \<Longrightarrow> runtime_move env s n s'"
| lost: "map_of (pl_ids (the_plan env)) n = Some i \<Longrightarrow> map_of (rt_completed (rn_runtime s)) i = Some ref \<Longrightarrow>
     rn_store s ref = None \<Longrightarrow> rn_log s' = rn_log s \<Longrightarrow>
     rn_runtime s' = (rn_runtime s)\<lparr>rt_completed := AList.delete i (rt_completed (rn_runtime s))\<rparr> \<Longrightarrow>
     runtime_move env s n s'"
| completed: "map_of (pl_ids (the_plan env)) n = Some i \<Longrightarrow> map_of (rn_tasks s) n = Some (Stored m v ref) \<Longrightarrow>
     rn_log s' = rn_log s @ [AttemptEnd i m ref] \<Longrightarrow>
     rn_runtime s' = (rn_runtime s)\<lparr>rt_completed := AList.update i ref (rt_completed (rn_runtime s))\<rparr> \<Longrightarrow>
     runtime_move env s n s'"

lemma quiet_moves:
  "append_then s r a (set_phase n p) (reject_task n) = Some s' \<Longrightarrow> plain_record r \<Longrightarrow> runtime_move env s n s'"
  by (rule quiet) (auto simp: append_then_Some reject_task_def)

lemma begin_runtime:
  "begin_attempt s n i a = Some s' \<Longrightarrow> map_of (pl_ids (the_plan env)) n = Some i \<Longrightarrow> runtime_move env s n s'"
  by (erule attempted [where m = "get_or 0 (rt_attempts (rn_runtime s)) i + 1"])
    (auto simp: begin_attempt_def Let_def append_then_Some reject_task_def)

lemma read_runtime:
  assumes "read_back s n i ref a = Some s'" "map_of (pl_ids (the_plan env)) n = Some i"
    "map_of (rt_completed (rn_runtime s)) i = Some ref"
  shows "runtime_move env s n s'"
proof (cases "a = Done \<and> rn_store s ref = None")
  case True
  then show ?thesis using assms by (intro lost [OF assms(2,3)]) (auto simp: read_back_def)
next
  case False
  then show ?thesis using assms(1)
    by (intro quiet) (auto simp: read_back_def reject_task_def produce_def split: answer.splits option.splits run_error.splits)
qed

lemma advance_runtime:
  assumes step: "advance env s n node i p a = Some s'" and i: "map_of (pl_ids (the_plan env)) n = Some i"
    and p: "map_of (rn_tasks s) n = Some p"
  shows "runtime_move env s n s'"
proof (cases p)
  case Waiting
  with step show ?thesis
    by (auto simp: advance_def dispatch_def split: option.splits intro: quiet_moves)
next
  case Staged
  with step show ?thesis by (auto simp: advance_def dispatch_def intro: quiet_moves)
next
  case Dispatched
  with step i show ?thesis
    by (auto simp: advance_def split: if_splits option.splits intro: begin_runtime read_runtime)
      (rule quiet; simp add: reject_task_def)
next
  case Lost
  with step i show ?thesis by (auto simp: advance_def intro: begin_runtime)
next
  case (Started m)
  with step show ?thesis by (intro quiet) (auto simp: advance_def Let_def split: answer.splits)
next
  case (Returned m v)
  with step show ?thesis by (intro quiet) (auto simp: advance_def split: answer.splits)
next
  case (Stored m v ref)
  show ?thesis
  proof (cases "a = Done")
    case True
    then show ?thesis using step Stored
      by (intro completed [OF i p [unfolded Stored]]) (auto simp: advance_def append_then_Some produce_def)
  next
    case False
    then show ?thesis using step Stored by (intro quiet) (auto simp: advance_def append_then_Some)
  qed
next
  case (Erred m e)
  with step show ?thesis by (intro quiet) (auto simp: advance_def append_then_Some reject_task_def)
next
  case Produced
  with step show ?thesis by (auto simp: advance_def intro: quiet_moves)
qed (use step in \<open>auto simp: advance_def\<close>)

lemma task_runtime:
  assumes "task_step env s n a = Some s'"
  shows "runtime_move env s n s'"
proof -
  from assms obtain p where p: "map_of (rn_tasks s) n = Some p" "\<not> settled p" by (rule task_step_moves)
  note step = assms [unfolded task_step_def p option.case if_not_P [OF p(2)]]
  have "runtime_move env s n (set_phase n q s)" for q by (rule quiet) simp_all
  then show ?thesis
    using step p(1) unfolding reject_task_def
    by (auto split: if_splits option.splits intro: advance_runtime)
qed

text \<open>Agreement of the runtime with the whole journal, and of the attempt numbers.\<close>

definition journal_inv :: "run \<Rightarrow> bool" where
  "journal_inv s \<longleftrightarrow> attempts_increase (rn_log s) \<and> (live_control s \<longrightarrow> agrees (rn_log s) (rn_runtime s))"

lemma journal_plain:
  "attempts_increase rs \<Longrightarrow> plain_record r \<Longrightarrow> attempts_increase (rs @ [r])"
  by (simp add: attempts_increase_def plain_recordD(1))

lemma journal_task:
  assumes "runtime_move env s n s'" "rn_control s = Batch" "rn_control s' = Batch" "journal_inv s"
  shows "journal_inv s'"
proof -
  have agr: "agrees (rn_log s) (rn_runtime s)" and inc: "attempts_increase (rn_log s)"
    using assms(2,4) by (simp_all add: journal_inv_def live_control_def)
  from assms(1) have "agrees (rn_log s') (rn_runtime s') \<and> attempts_increase (rn_log s')"
  proof cases
    case quiet
    then show ?thesis using agr inc agrees_other plain_recordD by auto
  next
    case (attempted i m)
    then show ?thesis using agrees_start [OF agr inc attempted(2)] agrees_start_failed [OF agr, of i] inc by auto
  next
    case lost
    then show ?thesis using agr inc agrees_delete by simp
  next
    case completed
    then show ?thesis using agrees_end [OF agr inc] by simp
  qed
  then show ?thesis by (simp add: journal_inv_def)
qed

lemma journal_leave:
  "journal_inv s \<Longrightarrow> \<not> live_control s' \<Longrightarrow> rn_log s' = rn_log s \<or> (\<exists>r. plain_record r \<and> rn_log s' = rn_log s @ [r]) \<Longrightarrow>
     journal_inv s'"
  by (auto simp: journal_inv_def journal_plain)

lemma leaving_controls [simp]:
  "rn_control s = Closing st r \<Longrightarrow> \<not> live_control s" "rn_control s = Failing st r \<Longrightarrow> \<not> live_control s"
  "rn_control s = Ended st \<Longrightarrow> \<not> live_control s" "rn_control s = Broken e \<Longrightarrow> \<not> live_control s"
  "rn_control s = Opening \<Longrightarrow> \<not> live_control s"
  by (simp_all add: live_control_def)

lemma loop_head_fields [simp]:
  "rn_log (loop_head env s) = rn_log s" "rn_runtime (loop_head env s) = rn_runtime s"
  "rn_store (loop_head env s) = rn_store s" "rn_calls (loop_head env s) = rn_calls s"
  "rn_outputs (loop_head env s) = rn_outputs s" "rn_pending (loop_head env s) = rn_pending s"
  "rn_cancelled (loop_head env s) = rn_cancelled s" "rn_projected (loop_head env s) = rn_projected s"
  by (simp_all add: loop_head_def)

lemma settle_batch_fields [simp]:
  "rn_log (settle_batch s) = rn_log s" "rn_runtime (settle_batch s) = rn_runtime s"
  "rn_store (settle_batch s) = rn_store s" "rn_calls (settle_batch s) = rn_calls s"
  "rn_outputs (settle_batch s) = rn_outputs s" "rn_pending (settle_batch s) = rn_pending s"
  "rn_cancelled (settle_batch s) = rn_cancelled s" "rn_projected (settle_batch s) = rn_projected s"
  "rn_tasks (settle_batch s) = []"
  by (simp_all add: settle_batch_def Let_def split: list.splits)

lemma journal_tick:
  assumes "tick env s a = Some s'" "journal_inv s"
  shows "journal_inv s'"
  using assms(1)
proof (cases rule: tick_cases)
  case opened
  let ?s = "(announce s (created_record env))\<lparr>rn_log := rn_log s @ [created_record env]\<rparr>"
  have inc: "attempts_increase (rn_log ?s)" using assms(2) by (simp add: journal_inv_def journal_plain created_record_def)
  then show ?thesis
    using opened by (auto simp: open_run_def journal_inv_def recover_agrees split: sum.splits)
next
  case looped
  then show ?thesis using assms(2) by (simp add: journal_inv_def live_control_def)
next
  case settled
  then show ?thesis using assms(2) by (simp add: journal_inv_def live_control_def)
qed (use assms(2) in \<open>auto intro!: journal_leave [OF assms(2)]\<close>)

lemma reachable_journal:
  assumes reach: "reaches env (initial_run recs store) s" and inc: "attempts_increase recs"
  shows "journal_inv s"
  using reach
proof induction
  case reaches_refl
  show ?case using inc by (simp add: journal_inv_def initial_run_def live_control_def)
next
  case (reaches_step s x s')
  show ?case
  proof (cases x)
    case (CancelRun r)
    with reaches_step show ?thesis by (auto simp: journal_inv_def live_control_def)
  next
    case (Tick a)
    then show ?thesis using reaches_step journal_tick by auto
  next
    case (Task n a)
    then have step: "rn_control s = Batch" "task_step env s n a = Some s'"
      using reaches_step.hyps(2) by (auto split: if_splits)
    then have "rn_control s' = Batch" by (auto elim!: task_step_moves dest: movedD(1))
    then show ?thesis using journal_task [OF task_runtime [OF step(2)]] step(1) reaches_step.IH by blast
  qed
qed

section \<open>Kept results are not computed again\<close>

text \<open>The journal the run loaded ends activity \<open>i\<close> with an artifact that the store still has.\<close>

definition spared :: "journal_record list \<Rightarrow> (artifact_ref \<rightharpoonup> json) \<Rightarrow> string \<Rightarrow> bool" where
  "spared recs store i \<longleftrightarrow> (\<exists>ref. map_of (proj_completed (project_runner recs)) i = Some ref \<and> store ref \<noteq> None)"

fun attempting :: "phase \<Rightarrow> bool" where
  "attempting Lost = True" | "attempting (Started _) = True" | "attempting (Returned _ _) = True"
| "attempting (Stored _ _ _) = True" | "attempting (Erred _ _) = True" | "attempting _ = False"

definition known :: "journal_record list \<Rightarrow> (artifact_ref \<rightharpoonup> json) \<Rightarrow> run \<Rightarrow> bool" where
  "known recs store s \<longleftrightarrow>
     (\<forall>i. spared recs store i \<longrightarrow> (\<exists>ref. map_of (rt_completed (rn_runtime s)) i = Some ref \<and> rn_store s ref \<noteq> None))"

definition spare_tasks :: "run_env \<Rightarrow> journal_record list \<Rightarrow> (artifact_ref \<rightharpoonup> json) \<Rightarrow> run \<Rightarrow> bool" where
  "spare_tasks env recs store s \<longleftrightarrow>
     (\<forall>n p i. map_of (rn_tasks s) n = Some p \<longrightarrow> attempting p \<longrightarrow> map_of (pl_ids (the_plan env)) n = Some i \<longrightarrow>
        \<not> spared recs store i)
     \<and> (\<forall>n m v ref. map_of (rn_tasks s) n = Some (Stored m v ref) \<longrightarrow> rn_store s ref \<noteq> None)"

definition spare_past :: "run_env \<Rightarrow> journal_record list \<Rightarrow> (artifact_ref \<rightharpoonup> json) \<Rightarrow> run \<Rightarrow> bool" where
  "spare_past env recs store s \<longleftrightarrow>
     (\<forall>n \<in> fst ` set (rn_calls s). \<forall>i. map_of (pl_ids (the_plan env)) n = Some i \<longrightarrow> \<not> spared recs store i)
     \<and> (\<forall>i m q. AttemptStart i m q \<in> set (appended recs s) \<longrightarrow> \<not> spared recs store i)"

definition spare_inv :: "run_env \<Rightarrow> journal_record list \<Rightarrow> (artifact_ref \<rightharpoonup> json) \<Rightarrow> run \<Rightarrow> bool" where
  "spare_inv env recs store s \<longleftrightarrow>
     (\<forall>ref. store ref \<noteq> None \<longrightarrow> rn_store s ref \<noteq> None) \<and> (live_control s \<longrightarrow> known recs store s)
     \<and> spare_tasks env recs store s \<and> spare_past env recs store s"

lemma known_step:
  assumes "runtime_move env s n s'" "known recs store s" "spare_tasks env recs store s"
    and keep: "\<And>ref. rn_store s ref \<noteq> None \<Longrightarrow> rn_store s' ref \<noteq> None"
  shows "known recs store s'"
  unfolding known_def
proof (intro allI impI)
  fix i
  assume "spared recs store i"
  then obtain ref where ref: "map_of (rt_completed (rn_runtime s)) i = Some ref" "rn_store s ref \<noteq> None"
    using assms(2) by (auto simp: known_def)
  from assms(1) show "\<exists>ref. map_of (rt_completed (rn_runtime s')) i = Some ref \<and> rn_store s' ref \<noteq> None"
  proof cases
    case quiet
    with ref keep show ?thesis by auto
  next
    case attempted
    with ref keep show ?thesis by auto
  next
    case (lost j ref')
    then have "j \<noteq> i" using ref by auto
    with lost ref keep show ?thesis by (auto simp: delete_conv')
  next
    case (completed j m v ref')
    then have "rn_store s ref' \<noteq> None" using assms(3) by (simp add: spare_tasks_def)
    with completed ref keep show ?thesis by (auto simp: map_of_update)
  qed
qed

lemma moves_attempting:
  assumes "moves env s n p p' rs" "attempting p'" "map_of (pl_ids (the_plan env)) n = Some i" "known recs store s"
    "spared recs store i"
  shows "attempting p"
  using assms by cases (auto simp: known_def)

lemma moves_attempts:
  assumes "moves env s n p p' rs" "AttemptStart i m q \<in> set rs"
  shows "map_of (pl_ids (the_plan env)) n = Some i \<and> attempting p'"
  using assms by cases auto

lemma spare_task:
  assumes step: "task_step env s n a = Some s'" and run: "run_inv env recs s" and inv: "spare_inv env recs store s"
  shows "spare_inv env recs store s'"
proof -
  from step obtain p p' rs where m: "map_of (rn_tasks s) n = Some p" "moves env s n p p' rs" "moved env s n p p' rs s'"
    by (rule task_step_moves)
  have keep: "rn_store s ref \<noteq> None \<Longrightarrow> rn_store s' ref \<noteq> None" for ref using m(3) by (simp add: moved_def)
  have new: "p' = Stored k v ref \<Longrightarrow> rn_store s' ref \<noteq> None" for k v ref using m(3) by (simp add: moved_def)
  note d = movedD [OF m(3)] and t = moved_tasks(3) [OF m(3,1)]
  have "rn_tasks s \<noteq> []" using m(1) by auto
  then have live: "live_control s" using run_invD(2) [OF run] by (simp add: batch_inv_def live_control_def)
  have known: "known recs store s" and tasks: "spare_tasks env recs store s" and past: "spare_past env recs store s"
    using inv live by (simp_all add: spare_inv_def)
  have att: "attempting p' \<Longrightarrow> map_of (pl_ids (the_plan env)) n = Some i \<Longrightarrow> \<not> spared recs store i" for i
    using moves_attempting [OF m(2) _ _ known] tasks m(1) unfolding spare_tasks_def by blast
  from run_invD(1) [OF run] obtain app where "rn_log s = recs @ app" by blast
  from appended_append [OF this d(4)] have a: "appended recs s' = appended recs s @ rs" .
  have "spare_tasks env recs store s'"
    using tasks att keep new unfolding spare_tasks_def t by (metis option.inject)
  moreover have "spare_past env recs store s'"
  proof -
    have "fst ` set (rn_calls s') \<subseteq> fst ` set (rn_calls s) \<union> (if attempting p \<and> attempting p' then {n} else {})"
      using m(2,3) by cases (auto simp: moved_def)
    then have "\<forall>k \<in> fst ` set (rn_calls s'). \<forall>i. map_of (pl_ids (the_plan env)) k = Some i \<longrightarrow> \<not> spared recs store i"
      using past att unfolding spare_past_def by (auto split: if_splits)
    moreover have "\<forall>i m q. AttemptStart i m q \<in> set (appended recs s') \<longrightarrow> \<not> spared recs store i"
      using past att moves_attempts [OF m(2)] unfolding spare_past_def a by auto
    ultimately show ?thesis by (simp add: spare_past_def)
  qed
  moreover have "known recs store s'" by (rule known_step [OF task_runtime [OF step] known tasks keep])
  moreover have "\<forall>ref. store ref \<noteq> None \<longrightarrow> rn_store s' ref \<noteq> None" using inv keep by (simp add: spare_inv_def)
  ultimately show ?thesis by (simp add: spare_inv_def)
qed

lemma spare_leave:
  assumes "spare_inv env recs store s" "\<not> live_control s'" "rn_tasks s' = []" "rn_store s' = rn_store s"
    "rn_calls s' = rn_calls s" "\<And>i m q. AttemptStart i m q \<in> set (appended recs s') \<Longrightarrow> AttemptStart i m q \<in> set (appended recs s)"
  shows "spare_inv env recs store s'"
  using assms by (simp add: spare_inv_def spare_tasks_def spare_past_def) blast

lemma project_created: "proj_completed (project_runner (rs @ [RunTransition run st r])) = proj_completed (project_runner rs)"
  by simp

lemma spare_tick:
  assumes step: "tick env s a = Some s'" and run: "run_inv env recs s" and inv: "spare_inv env recs store s"
    and start: "rn_control s = Opening \<Longrightarrow> rn_log s = recs"
  shows "spare_inv env recs store s'"
proof -
  from run_invD(1) [OF run] obtain app where log: "rn_log s = recs @ app" by blast
  have empty: "rn_control s \<noteq> Batch \<Longrightarrow> rn_tasks s = []" using run_invD(2) [OF run] by (auto simp: batch_inv_def)
  have more: "AttemptStart i m q \<in> set (appended recs t) \<Longrightarrow> AttemptStart i m q \<in> set (appended recs s)"
    if "rn_log t = rn_log s \<or> (\<exists>st r. rn_log t = rn_log s @ [RunTransition (re_run env) st r])" for t i m q
    using that log by (auto simp: appended_def)
  from step show ?thesis
  proof (cases rule: tick_cases)
    case opened
    let ?s = "(announce s (created_record env))\<lparr>rn_log := rn_log s @ [created_record env]\<rparr>"
    note leave = spare_leave [OF inv, of s']
    show ?thesis
    proof (cases "re_plan env")
      case (Inl e)
      with opened empty have "\<not> live_control s'" "rn_tasks s' = []" "rn_store s' = rn_store s" "rn_calls s' = rn_calls s"
        "rn_log s' = rn_log s @ [created_record env]" by (simp_all add: open_run_def)
      then show ?thesis by (intro leave more) (auto simp: created_record_def)
    next
      case (Inr p)
      have "known recs store s'"
        using opened Inr start inv
        by (auto simp: open_run_def known_def spared_def recover_def spare_inv_def created_record_def project_created)
      moreover have "rn_tasks s' = []" "rn_store s' = rn_store s" "rn_calls s' = rn_calls s"
        "appended recs s' = [created_record env]" "appended recs s = []"
        using opened Inr empty start by (simp_all add: open_run_def appended_def)
      ultimately show ?thesis using inv by (simp add: spare_inv_def spare_tasks_def spare_past_def created_record_def)
    qed
  next
    case looped
    have "known recs store (loop_head env s)" "\<And>n p. map_of (rn_tasks (loop_head env s)) n = Some p \<Longrightarrow> p = Waiting"
      using inv looped empty
      by (auto simp: spare_inv_def known_def live_control_def loop_head_def split: if_splits dest!: map_of_SomeD)
    moreover have "appended recs (loop_head env s) = appended recs s" by (simp add: appended_def)
    ultimately show ?thesis using inv looped by (simp add: spare_inv_def spare_tasks_def spare_past_def) (metis attempting.simps phase.distinct(1) phase.distinct)
  next
    case settled
    have "known recs store (settle_batch s)" using inv settled(1) by (auto simp: spare_inv_def known_def live_control_def)
    moreover have "appended recs (settle_batch s) = appended recs s" by (simp add: appended_def)
    ultimately show ?thesis using inv settled(3) by (simp add: spare_inv_def spare_tasks_def spare_past_def)
  next
    case opening_failed
    then show ?thesis using empty by (intro spare_leave [OF inv] more) auto
  next
    case closed
    then show ?thesis using empty by (intro spare_leave [OF inv] more) auto
  next
    case closing_failed
    then show ?thesis using empty by (intro spare_leave [OF inv] more) auto
  next
    case failed
    then show ?thesis using empty by (intro spare_leave [OF inv] more) auto
  next
    case broken
    then show ?thesis using empty by (intro spare_leave [OF inv] more) auto
  qed
qed

lemma reachable_spare:
  assumes reach: "reaches env (initial_run recs store) s" and order: "distinct (pl_order (the_plan env))"
  shows "spare_inv env recs store s"
  using reach
proof induction
  case reaches_refl
  show ?case by (simp add: spare_inv_def initial_run_def live_control_def spare_tasks_def spare_past_def appended_def)
next
  case (reaches_step s x s')
  note run = reachable_inv [OF reaches_step.hyps(1) order]
  show ?case
  proof (cases x)
    case (CancelRun r)
    have "appended recs (cancel_run s r) = appended recs s" by (simp add: appended_def)
    with CancelRun reaches_step show ?thesis
      by (auto simp: spare_inv_def live_control_def known_def spare_tasks_def spare_past_def)
  next
    case (Tick a)
    then show ?thesis
      using reaches_step spare_tick [OF _ run reaches_step.IH] opening_unchanged [OF reaches_step.hyps(1)] by auto
  next
    case (Task n a)
    then show ?thesis using reaches_step spare_task [OF _ run reaches_step.IH] by (auto split: if_splits)
  qed
qed

section \<open>The result is the last state of the journal\<close>

lemma reachable_ended:
  assumes "reaches env (initial_run recs store) s" "rn_control s = Ended st"
  shows "project_run_state (rn_log s) = st \<and> rn_live s = st"
  using assms
proof induction
  case reaches_refl
  then show ?case by (simp add: initial_run_def)
next
  case (reaches_step s x s')
  show ?case
  proof (cases x)
    case (CancelRun r)
    with reaches_step show ?thesis by auto
  next
    case (Tick a)
    with reaches_step.hyps have "tick env s a = Some s'" by simp
    then show ?thesis
      using reaches_step.prems
      by (cases rule: tick_cases)
        (auto simp: open_run_def settle_batch_def Let_def loop_head_def announce_def project_run_state_def
          split: sum.splits list.splits if_splits)
  next
    case (Task n a)
    with reaches_step.hyps obtain b where "rn_control s = Batch" "task_step env s n a = Some s'" by (auto split: if_splits)
    then show ?thesis using reaches_step.prems by (auto elim!: task_step_moves dest: movedD(1))
  qed
qed

end
