(* ===== verification/Runner_Progress.thy ===== *)
theory Runner_Progress
  imports Runner_Recovery
begin

text \<open>
  A run ends: every step of the handle or of a task decreases a measure, so the number of awaits is
  bounded by the size of the plan.
\<close>

section \<open>A measure\<close>

fun remaining :: "phase \<Rightarrow> nat" where
  "remaining Waiting = 9" | "remaining Staged = 8" | "remaining Dispatched = 7" | "remaining Lost = 6"
| "remaining (Started _) = 5" | "remaining (Returned _ _) = 4" | "remaining (Stored _ _ _) = 3"
| "remaining (Erred _ _) = 2" | "remaining Produced = 2" | "remaining Fulfilled = 0" | "remaining (Rejected _) = 0"

definition tasks_left :: "run \<Rightarrow> nat" where
  "tasks_left s = sum_list (map (remaining \<circ> snd) (rn_tasks s))"

text \<open>A batch has at most one task per node of the plan, so it takes fewer than \<open>round_cost\<close> steps.\<close>

definition round_cost :: "run_env \<Rightarrow> nat" where
  "round_cost env = 9 * length (pl_order (the_plan env)) + 2"

definition open_nodes :: "run \<Rightarrow> string set" where
  "open_nodes s = set (rn_pending s) \<union> fst ` set (rn_tasks s)"

fun effort :: "run_env \<Rightarrow> run \<Rightarrow> nat" where
  "effort env s =
     (case rn_control s of
        Opening \<Rightarrow> round_cost env * length (pl_order (the_plan env)) + 4
      | Looping \<Rightarrow> 3 + (if rn_cancelled s = None then round_cost env * length (rn_pending s) else 0)
      | Batch \<Rightarrow> 4 + round_cost env * (card (open_nodes s) - 1) + tasks_left s
      | Closing _ _ \<Rightarrow> 2
      | Failing _ _ \<Rightarrow> 1
      | Ended _ \<Rightarrow> 0
      | Broken _ \<Rightarrow> 0)"

definition run_bound :: "run_env \<Rightarrow> nat" where
  "run_bound env = round_cost env * length (pl_order (the_plan env)) + 4"

declare effort.simps [simp del]

lemma moves_remaining: "moves env s n p p' rs \<Longrightarrow> remaining p' < remaining p"
proof (induction rule: moves.induct)
  case (15 p e)
  then show ?case by (cases p) auto
qed auto

lemma tasks_left_update:
  assumes "map_of ts n = Some p" "distinct (map fst ts)"
  shows "sum_list (map (remaining \<circ> snd) (AList.update n p' ts)) + remaining p
    = sum_list (map (remaining \<circ> snd) ts) + remaining p'"
  using assms
proof (induction ts)
  case (Cons t ts)
  obtain k q where t: "t = (k, q)" by (cases t)
  show ?case
  proof (cases "k = n")
    case True
    with Cons.prems t have "q = p" by simp
    with True t show ?thesis by simp
  next
    case False
    with Cons t show ?thesis by simp
  qed
qed simp

lemma effort_task:
  assumes step: "task_step env s n a = Some s'" and run: "run_inv env recs s" and ctl: "rn_control s = Batch"
  shows "effort env s' < effort env s"
proof -
  from step obtain p p' rs where m: "map_of (rn_tasks s) n = Some p" "moves env s n p p' rs" "moved env s n p p' rs s'"
    by (rule task_step_moves)
  note d = movedD [OF m(3)]
  have dist: "distinct (map fst (rn_tasks s))" using run_invD(2) [OF run] by (simp add: batch_inv_def)
  have "tasks_left s' < tasks_left s"
    using tasks_left_update [OF m(1) dist, of p'] moves_remaining [OF m(2)] by (simp add: tasks_left_def d(5))
  moreover have "open_nodes s' = open_nodes s"
  proof -
    have n: "n \<in> fst ` set (rn_tasks s)" using m(1) by (rule map_of_SomeD_key)
    have "set (rn_pending s') \<union> {n} = set (rn_pending s) \<union> {n}" using d(6,7) by (cases "p' = Produced") auto
    moreover have "fst ` set (rn_tasks s') = fst ` set (rn_tasks s)" using n by (auto simp: d(5))
    ultimately show ?thesis using n by (auto simp: open_nodes_def)
  qed
  ultimately show ?thesis using ctl d(1) by (simp add: effort.simps)
qed

text \<open>A batch is never empty: the limit is positive.\<close>

definition busy :: "run \<Rightarrow> bool" where
  "busy s \<longleftrightarrow> (rn_control s = Batch \<longrightarrow> rn_tasks s \<noteq> [])"

lemma batch_size:
  assumes "batch_inv env s" "distinct (pl_order (the_plan env))"
  shows "tasks_left s \<le> 9 * length (pl_order (the_plan env))"
proof -
  have nine: "remaining p \<le> 9" for p by (cases p) auto
  have "tasks_left s \<le> 9 * length (rn_tasks s)"
    unfolding tasks_left_def using sum_list_mono [of "rn_tasks s" "remaining \<circ> snd" "\<lambda>_. 9"] nine
    by (simp add: sum_list_triv comp_def)
  also have "length (rn_tasks s) = card (fst ` set (rn_tasks s))"
    using assms(1) by (metis batch_inv_def distinct_card length_map list.set_map)
  also have "\<dots> \<le> length (pl_order (the_plan env))"
    using assms(1) card_mono [OF finite_set, of "fst ` set (rn_tasks s)" "pl_order (the_plan env)"]
      card_length [of "pl_order (the_plan env)"] unfolding batch_inv_def by linarith
  finally show ?thesis by simp
qed

lemma throw_failing [simp]: "\<exists>st r. rn_control (throw s e) = Failing st r"
  using throw_control by blast

lemma effort_throw [simp]: "effort env (throw s e) = 1" "busy (throw s e)"
proof -
  from throw_failing [of s e] obtain st r where "rn_control (throw s e) = Failing st r" by blast
  then show "effort env (throw s e) = 1" "busy (throw s e)" by (simp_all add: effort.simps busy_def)
qed

lemma effort_loop:
  assumes run: "run_inv env recs s" and ctl: "rn_control s = Looping" and limit: "0 < re_limit env"
    and order: "distinct (pl_order (the_plan env))"
  shows "effort env (loop_head env s) < effort env s \<and> busy (loop_head env s)"
proof (cases "rn_pending s \<noteq> [] \<and> rn_cancelled s = None \<and> ready_nodes env s \<noteq> []")
  case True
  let ?t = "loop_head env s"
  have t: "rn_control ?t = Batch" "rn_tasks ?t = map (\<lambda>n. (n, Waiting)) (take (re_limit env) (ready_nodes env s))"
    "rn_pending ?t = rn_pending s"
    using True by (simp_all add: loop_head_def)
  have inv: "run_inv env recs ?t" by (rule loop_head_inv [OF run ctl order])
  have pend: "rn_pending s = filter (\<lambda>n. rn_outputs s n = None) (pl_order (the_plan env))"
    using run_invD(3) [OF run] ctl by (simp add: output_inv_def live_control_def)
  have distinct_pending: "distinct (rn_pending s)" using order pend by simp
  have "open_nodes ?t = set (rn_pending s)"
    unfolding open_nodes_def t by (auto simp: ready_nodes_def dest!: in_set_takeD)
  then have "card (open_nodes ?t) = length (rn_pending s)" using distinct_pending by (simp add: distinct_card)
  moreover obtain k where "length (rn_pending s) = Suc k" using True by (cases "rn_pending s") auto
  ultimately have "effort env ?t = 4 + round_cost env * k + tasks_left ?t" "effort env s = 3 + round_cost env * Suc k"
    using t(1) ctl True by (simp_all add: effort.simps)
  moreover have "tasks_left ?t + 1 < round_cost env"
    using batch_size [OF run_invD(2) [OF inv] order] by (simp add: round_cost_def)
  moreover have "rn_tasks ?t \<noteq> []" using True limit by (simp add: t(2))
  ultimately show ?thesis by (simp add: busy_def)
next
  case False
  then have "(\<exists>st r. rn_control (loop_head env s) = Closing st r) \<or> (\<exists>st r. rn_control (loop_head env s) = Failing st r)"
    by (auto simp: loop_head_def)
  then show ?thesis using ctl by (auto simp: effort.simps busy_def)
qed

lemma effort_settle:
  assumes run: "run_inv env recs s" and ctl: "rn_control s = Batch" and busy: "busy s"
    and all: "list_all (settled \<circ> snd) (rn_tasks s)" and order: "distinct (pl_order (the_plan env))"
  shows "effort env (settle_batch s) < effort env s"
proof (cases "rn_control (settle_batch s) = Looping \<and> rn_cancelled s = None")
  case True
  let ?f = "List.map_filter (rejection \<circ> snd) (rn_tasks s)"
  have none: "?f = []" using True by (cases ?f) (auto simp: settle_batch_def Let_def)
  have pend: "rn_pending s = filter (\<lambda>n. rn_outputs s n = None) (pl_order (the_plan env))"
    using run_invD(3) [OF run] ctl by (simp add: output_inv_def live_control_def)
  have out: "rn_outputs s n \<noteq> None" if n: "n \<in> fst ` set (rn_tasks s)" for n
  proof -
    from n obtain p where p: "map_of (rn_tasks s) n = Some p"
      by (metis map_of_eq_None_iff not_None_eq)
    then have "(n, p) \<in> set (rn_tasks s)" by (rule map_of_SomeD)
    then have "settled p" "rejection p = None"
      using all none by (auto simp: list_all_iff List.map_filter_def filter_empty_conv)
    then have "p = Fulfilled" by (cases p) auto
    then show ?thesis using run_invD(3) [OF run] p True unfolding output_inv_def by blast
  qed
  obtain m where m: "m \<in> fst ` set (rn_tasks s)" using busy ctl by (cases "rn_tasks s") (auto simp: busy_def)
  then have "m \<notin> set (rn_pending s)" using out pend by auto
  moreover have "distinct (rn_pending s)" using order pend by simp
  ultimately have "card (insert m (set (rn_pending s))) = Suc (length (rn_pending s))" by (simp add: distinct_card)
  moreover have "card (insert m (set (rn_pending s))) \<le> card (open_nodes s)"
    using m by (intro card_mono) (auto simp: open_nodes_def)
  ultimately have "length (rn_pending s) \<le> card (open_nodes s) - 1" by linarith
  then have "round_cost env * length (rn_pending s) \<le> round_cost env * (card (open_nodes s) - 1)" by simp
  moreover have "effort env (settle_batch s) = 3 + round_cost env * length (rn_pending s)"
    "effort env s = 4 + round_cost env * (card (open_nodes s) - 1) + tasks_left s"
    using True ctl by (simp_all add: effort.simps)
  ultimately show ?thesis by linarith
next
  case False
  have "rn_control (settle_batch s) = Looping \<or> (\<exists>st r. rn_control (settle_batch s) = Failing st r)"
    by (cases "List.map_filter (rejection \<circ> snd) (rn_tasks s)") (simp_all add: settle_batch_def Let_def)
  then show ?thesis using False ctl by (auto simp: effort.simps)
qed

lemma effort_tick:
  assumes step: "tick env s a = Some s'" and run: "run_inv env recs s" and busy: "busy s" and limit: "0 < re_limit env"
    and order: "distinct (pl_order (the_plan env))"
  shows "effort env s' < effort env s \<and> busy s'"
  using step
proof (cases rule: tick_cases)
  case opened
  then show ?thesis
    by (cases "re_plan env") (simp_all add: open_run_def the_plan_def effort.simps [of _ s] , simp_all add: effort.simps busy_def)
next
  case (opening_failed e)
  then show ?thesis by (simp add: effort.simps [of _ s])
next
  case looped
  with effort_loop [OF run _ limit order] show ?thesis by simp
next
  case settled
  then have "rn_control s' \<noteq> Batch" by (auto simp: settle_batch_def Let_def split: list.splits)
  with settled effort_settle [OF run _ busy _ order] show ?thesis by (simp add: busy_def)
next
  case (closing_failed st r e)
  then show ?thesis by (simp add: effort.simps [of _ s])
qed (auto simp: effort.simps busy_def)

lemma effort_cancel: "effort env (cancel_run s r) \<le> effort env s"
  by (auto simp: effort.simps tasks_left_def open_nodes_def split: control.splits)

section \<open>Every run is bounded\<close>

fun is_cancel :: "signal \<Rightarrow> bool" where
  "is_cancel (CancelRun _) = True"
| "is_cancel _ = False"

lemma step_effort:
  assumes "run_step env s x = Some s'" "run_inv env recs s" "busy s" "0 < re_limit env" "distinct (pl_order (the_plan env))"
  shows "effort env s' + (if is_cancel x then 0 else 1) \<le> effort env s \<and> busy s'"
proof (cases x)
  case (CancelRun r)
  with assms effort_cancel show ?thesis by (auto simp: busy_def)
next
  case (Tick a)
  with assms effort_tick [OF _ assms(2-5)] show ?thesis by (auto simp: Suc_le_eq)
next
  case (Task n a)
  with assms(1) have step: "rn_control s = Batch" "task_step env s n a = Some s'" by (auto split: if_splits)
  have "busy s'"
    using step(2) by (auto elim!: task_step_moves simp: busy_def movedD(5) dest!: map_of_SomeD_key)
  then show ?thesis using effort_task [OF step(2) assms(2) step(1)] Task by (simp add: Suc_le_eq)
qed

lemma steps_effort:
  assumes "run_steps env s xs = Some t" "run_inv env recs s" "busy s" "0 < re_limit env"
    "distinct (pl_order (the_plan env))" "reaches env (initial_run recs store) s"
  shows "length (filter (\<lambda>x. \<not> is_cancel x) xs) + effort env t \<le> effort env s"
  using assms
proof (induction xs arbitrary: s)
  case (Cons x xs)
  then obtain s' where s': "run_step env s x = Some s'" "run_steps env s' xs = Some t" by (auto split: option.splits)
  have reach: "reaches env (initial_run recs store) s'" using Cons.prems(6) s'(1) by (rule reaches_step)
  note eff = step_effort [OF s'(1) Cons.prems(2-5)]
  have "length (filter (\<lambda>x. \<not> is_cancel x) xs) + effort env t \<le> effort env s'"
    using Cons.IH [OF s'(2) reachable_inv [OF reach Cons.prems(5)] _ Cons.prems(4,5) reach] eff by blast
  then show ?case using eff by (cases "is_cancel x") simp_all
qed simp

end
