(* ===== verification/Runner_Liveness.thy ===== *)
theory Runner_Liveness
  imports Runner_Progress
begin

text \<open>
  A run whose awaits all succeed completes. In an orderly run nothing is cancelled and no awaited
  call rejects; then no task fails, the plan always offers a ready node while nodes are pending, and
  some await can always be answered. With the measure of \<open>Runner_Progress\<close> the run ends
  \<open>COMPLETED\<close> within the bound, whatever the interleaving.
\<close>

section \<open>Orderly signals and states\<close>

fun smooth :: "signal \<Rightarrow> bool" where
  "smooth (CancelRun _) = False"
| "smooth (Tick a) = (a = Done)"
| "smooth (Task n a) = (a = Done \<or> (\<exists>v. a = Value v))"

fun unfailed :: "phase \<Rightarrow> bool" where
  "unfailed (Erred _ _) = False"
| "unfailed (Rejected _) = False"
| "unfailed _ = True"

text \<open>Every node of the plan has an executor registered for its kind.\<close>

definition equipped :: "run_env \<Rightarrow> bool" where
  "equipped env \<longleftrightarrow> list_all
     (\<lambda>n. case map_of (pl_nodes (the_plan env)) n of None \<Rightarrow> True | Some node \<Rightarrow> re_executor env (nd_kind node)) (pl_order (the_plan env))"

definition orderly :: "run \<Rightarrow> bool" where
  "orderly s \<longleftrightarrow> rn_cancelled s = None \<and> list_all (unfailed \<circ> snd) (rn_tasks s)
     \<and> (rn_control s = Opening \<or> live_control s \<or> rn_control s = Closing COMPLETED None \<or> rn_control s = Ended COMPLETED)"

definition plan_known :: "run_env \<Rightarrow> bool" where
  "plan_known env \<longleftrightarrow> (\<forall>n \<in> set (pl_order (the_plan env)).
     map_of (pl_nodes (the_plan env)) n \<noteq> None \<and> map_of (pl_ids (the_plan env)) n \<noteq> None)"

lemma plan_is_known:
  assumes "re_plan env = Inr p" "build_graph_plan h g r = Inr p"
  shows "plan_known env"
  using plan_order(3) [OF assms(2)] build_plan_cases(5) [OF assms(2)] assms(1)
  by (auto simp: plan_known_def the_plan_def map_of_eq_None_iff)

section \<open>A pending node is ready\<close>

text \<open>The plan is acyclic: among the pending nodes, one of least rank has all its predecessors' outputs.\<close>

lemma pending_ready:
  assumes p: "re_plan env = Inr p" "build_graph_plan h g r = Inr p"
    and run: "run_inv env recs s" and ctl: "rn_control s = Looping" and pend: "rn_pending s \<noteq> []"
  shows "ready_nodes env s \<noteq> []"
proof -
  have plan: "the_plan env = p" using p(1) by (simp add: the_plan_def)
  obtain rank :: "string \<Rightarrow> nat" where rank: "\<And>n q. n \<in> set (pl_order p) \<Longrightarrow> q \<in> set (pl_predecessors p n) \<Longrightarrow> rank q < rank n"
    using plan_rank [OF p(2)] by blast
  have pending: "rn_pending s = filter (\<lambda>n. rn_outputs s n = None) (pl_order p)"
    using run_invD(3) [OF run] ctl by (simp add: output_inv_def live_control_def plan)
  obtain n where n: "n \<in> set (rn_pending s)" "\<And>m. m \<in> set (rn_pending s) \<Longrightarrow> rank n \<le> rank m"
    using pend ex_min_if_finite [of "rank ` set (rn_pending s)"] by (auto simp: not_less) 
  have "rn_outputs s q \<noteq> None" if q: "q \<in> set (pl_predecessors p n)" for q
  proof
    assume "rn_outputs s q = None"
    then have "q \<in> set (rn_pending s)" using q plan_predecessors_in [OF p(2), of n] by (auto simp: pending)
    moreover have "rank q < rank n" using rank n(1) q by (simp add: pending)
    ultimately show False using n(2) [of q] by simp
  qed
  then have "n \<in> set (ready_nodes env s)" using n(1) by (auto simp: ready_nodes_def plan list_all_iff pending)
  then show ?thesis by auto
qed

section \<open>Orderly states stay orderly\<close>

lemma advance_unfailed:
  assumes "advance env s n node i p a = Some s'" "unfailed p" "a = Done \<or> (\<exists>v. a = Value v)" "re_executor env (nd_kind node)"
  shows "\<exists>p'. rn_tasks s' = AList.update n p' (rn_tasks s) \<and> unfailed p'"
  using assms
  by (cases p) (auto simp: advance_def task_defs split: option.splits answer.splits if_splits intro!: exI)

lemma unfailed_rejection: "unfailed p \<Longrightarrow> rejection p = None"
  by (cases p) auto

lemma list_all_update: "list_all (P \<circ> snd) xs \<Longrightarrow> P v \<Longrightarrow> list_all (P \<circ> snd) (AList.update k v xs)"
  by (induction xs) auto

lemma orderly_task:
  assumes s: "orderly s" and step: "task_step env s n a = Some s'" and a: "a = Done \<or> (\<exists>v. a = Value v)"
    and known: "plan_known env" "equipped env" and run: "run_inv env recs s" and ctl: "rn_control s = Batch"
  shows "orderly s'"
proof -
  from step obtain p p' rs where m: "map_of (rn_tasks s) n = Some p" "moved env s n p p' rs s'" "\<not> settled p"
    by (rule task_step_moves)
  have n: "n \<in> set (pl_order (the_plan env))"
    using m(1) run_invD(2) [OF run] by (auto simp: batch_inv_def dest: map_of_SomeD_key)
  then obtain node i where node: "map_of (pl_nodes (the_plan env)) n = Some node" "map_of (pl_ids (the_plan env)) n = Some i"
    using known(1) unfolding plan_known_def by (metis not_None_eq)
  have live: "rn_cancelled s = None" and tasks: "list_all (unfailed \<circ> snd) (rn_tasks s)" using s by (simp_all add: orderly_def)
  have p: "unfailed p" using tasks map_of_SomeD [OF m(1)] by (force simp: list_all_iff)
  have exec: "re_executor env (nd_kind node)" using known(2) n node(1) by (auto simp: equipped_def list_all_iff)
  have "advance env s n node i p a = Some s'" using step m(1,3) node live by (simp add: task_step_def)
  then obtain q where "rn_tasks s' = AList.update n q (rn_tasks s)" "unfailed q"
    using advance_unfailed [OF _ p a exec] by blast
  then have "list_all (unfailed \<circ> snd) (rn_tasks s')" using list_all_update [OF tasks] by metis
  then show ?thesis using live movedD(1,2) [OF m(2)] ctl by (simp add: orderly_def live_control_def)
qed

lemma orderly_tick:
  assumes s: "orderly s" and step: "tick env s Done = Some s'"
    and p: "re_plan env = Inr p" "build_graph_plan h g r = Inr p" and run: "run_inv env recs s"
  shows "orderly s'"
proof -
  have live: "rn_cancelled s = None" and tasks: "list_all (unfailed \<circ> snd) (rn_tasks s)" using s by (simp_all add: orderly_def)
  show ?thesis
  proof (cases "rn_control s")
    case Opening
    then show ?thesis using step live tasks p(1)
      by (auto simp: tick_def append_then_Some open_run_def orderly_def live_control_def)
  next
    case Looping
    then have "rn_tasks s = []" "s' = loop_head env s" using run_invD(2) [OF run] step by (auto simp: batch_inv_def tick_def)
    then show ?thesis using live pending_ready [OF p run Looping]
      by (auto simp: loop_head_def orderly_def live_control_def list_all_iff)
  next
    case Batch
    have "List.map_filter (rejection \<circ> snd) (rn_tasks s) = []"
      using tasks by (auto simp: list_all_iff List.map_filter_def filter_empty_conv intro: unfailed_rejection)
    then show ?thesis using Batch step live
      by (auto simp: tick_def settle_batch_def orderly_def live_control_def split: if_splits)
  next
    case (Closing st r)
    then show ?thesis using step s by (auto simp: tick_def append_then_Some orderly_def live_control_def)
  qed (use step s in \<open>auto simp: tick_def orderly_def live_control_def\<close>)
qed

lemma orderly_step:
  assumes "orderly s" "run_step env s x = Some s'" "smooth x" "re_plan env = Inr p" "build_graph_plan h g r = Inr p"
    "equipped env" "run_inv env recs s"
  shows "orderly s'"
proof (cases x)
  case (Task n a)
  then show ?thesis using assms orderly_task [OF assms(1) _ _ plan_is_known] by (auto split: if_splits)
qed (use assms orderly_tick in auto)

section \<open>Orderly states move\<close>

text \<open>Some answer that is not a failure moves each task that has not settled.\<close>

lemma advance_moves_on:
  assumes "unfailed p" "\<not> settled p"
  shows "\<exists>a s'. (a = Done \<or> (\<exists>v. a = Value v)) \<and> advance env s n node i p a = Some s'"
proof (cases p)
  case (Started m)
  then have "\<exists>s'. advance env s n node i p (Value v) = Some s'" for v by (simp add: advance_def Let_def)
  then show ?thesis by blast
next
  case Dispatched
  then have "\<exists>s'. advance env s n node i p Done = Some s'"
    by (auto simp: advance_def read_back_def begin_attempt_def Let_def append_then_def split: option.splits)
  then show ?thesis by blast
qed (use assms in \<open>auto simp: advance_def dispatch_def begin_attempt_def Let_def append_then_Some split: option.splits\<close>)

lemma orderly_moves:
  assumes s: "orderly s" "rn_control s \<noteq> Ended COMPLETED" and known: "plan_known env" and run: "run_inv env recs s"
  shows "\<exists>x s'. smooth x \<and> run_step env s x = Some s'"
proof -
  have ticks: ?thesis if "tick env s Done = Some s'" for s' using that by (intro exI [of _ "Tick Done"] exI [of _ s']) simp
  show ?thesis
  proof (cases "rn_control s = Batch \<and> \<not> list_all (settled \<circ> snd) (rn_tasks s)")
    case True
    then obtain n p where np: "(n, p) \<in> set (rn_tasks s)" "\<not> settled p" by (auto simp: list_all_iff)
    have batch: "distinct (map fst (rn_tasks s))" "fst ` set (rn_tasks s) \<subseteq> set (pl_order (the_plan env))"
      using run_invD(2) [OF run] by (simp_all add: batch_inv_def)
    have m: "map_of (rn_tasks s) n = Some p" using map_of_is_SomeI [OF batch(1) np(1)] .
    have "n \<in> set (pl_order (the_plan env))" using batch(2) np(1) by force
    then obtain node i where node: "map_of (pl_nodes (the_plan env)) n = Some node" "map_of (pl_ids (the_plan env)) n = Some i"
      using known unfolding plan_known_def by (metis not_None_eq)
    have "\<forall>x \<in> set (rn_tasks s). unfailed (snd x)" and live: "rn_cancelled s = None"
      using s(1) by (simp_all add: orderly_def list_all_iff)
    then have "unfailed p" using np(1) by force
    obtain a s' where a: "a = Done \<or> (\<exists>v. a = Value v)" "advance env s n node i p a = Some s'"
      using advance_moves_on [OF \<open>unfailed p\<close> np(2), of env s n node i] by auto
    have "task_step env s n a = Some s'" using a(2) live m np(2) node by (simp add: task_step_def)
    then have "run_step env s (Task n a) = Some s'" using True by simp
    with a(1) show ?thesis by (intro exI [of _ "Task n a"] exI [of _ s']) simp
  next
    case False
    then have "\<exists>s'. tick env s Done = Some s'"
      using s by (auto simp: orderly_def live_control_def tick_def append_then_def Let_def)
    then show ?thesis using ticks by blast
  qed
qed

section \<open>Orderly runs complete\<close>

lemma smooth_no_cancel: "list_all smooth xs \<Longrightarrow> filter (\<lambda>x. \<not> is_cancel x) xs = xs"
proof (induction xs)
  case (Cons x xs)
  then show ?case by (cases x) auto
qed simp

lemma smooth_not_cancel: "smooth x \<Longrightarrow> \<not> is_cancel x"
  by (cases x) auto

lemma orderly_steps:
  assumes "run_steps env s xs = Some t" "list_all smooth xs" "orderly s" "run_inv env recs s" "busy s"
    "re_plan env = Inr p" "build_graph_plan h g r = Inr p" "equipped env" "0 < re_limit env"
    "reaches env (initial_run recs store) s" "distinct (pl_order (the_plan env))"
  shows "orderly t \<and> run_inv env recs t \<and> busy t"
  using assms
proof (induction xs arbitrary: s)
  case (Cons x xs)
  then obtain s' where s': "run_step env s x = Some s'" "run_steps env s' xs = Some t" by (auto split: option.splits)
  have reach: "reaches env (initial_run recs store) s'" using Cons.prems(10) s'(1) by (rule reaches_step)
  show ?case
  proof (rule Cons.IH [OF s'(2)])
    show "orderly s'" using orderly_step [OF Cons.prems(3) s'(1) _ Cons.prems(6-8,4)] Cons.prems(2) by simp
    show "run_inv env recs s'" by (rule reachable_inv [OF reach Cons.prems(11)])
    show "busy s'" using step_effort [OF s'(1) Cons.prems(4,5,9,11)] by simp
  qed (use Cons.prems reach in auto)
qed simp

lemma orderly_completes:
  assumes "orderly s" "run_inv env recs s" "busy s" "re_plan env = Inr p" "build_graph_plan h g r = Inr p" "equipped env"
    "0 < re_limit env" "reaches env (initial_run recs store) s"
  shows "\<exists>ys t. list_all smooth ys \<and> run_steps env s ys = Some t \<and> rn_control t = Ended COMPLETED"
  using assms
proof (induction "effort env s" arbitrary: s rule: less_induct)
  case less
  have known: "plan_known env" using plan_is_known less.prems(4,5) .
  have order: "distinct (pl_order (the_plan env))" using plan_order(1) [OF less.prems(5)] less.prems(4) by (simp add: the_plan_def)
  show ?case
  proof (cases "rn_control s = Ended COMPLETED")
    case True
    then show ?thesis by (intro exI [of _ "[]"] exI [of _ s]) simp
  next
    case False
    from orderly_moves [OF less.prems(1) False known less.prems(2)] obtain x s'
      where x: "smooth x" "run_step env s x = Some s'" by blast
    have reach: "reaches env (initial_run recs store) s'" using less.prems(8) x(2) by (rule reaches_step)
    have eff: "effort env s' < effort env s" "busy s'"
      using step_effort [OF x(2) less.prems(2,3,7) order] smooth_not_cancel [OF x(1)] by (auto split: if_splits)
    have "\<exists>ys t. list_all smooth ys \<and> run_steps env s' ys = Some t \<and> rn_control t = Ended COMPLETED"
      by (rule less.hyps [OF eff(1) orderly_step [OF less.prems(1) x(2,1) less.prems(4,5,6,2)]
            reachable_inv [OF reach order] eff(2) less.prems(4-7) reach])
    then obtain ys t where "list_all smooth ys" "run_steps env s' ys = Some t" "rn_control t = Ended COMPLETED" by blast
    then show ?thesis using x by (intro exI [of _ "x # ys"] exI [of _ t]) simp
  qed
qed

end
