(* ===== verification/Runner_Properties.thy ===== *)
theory Runner_Properties
  imports Runner_Liveness Examples
begin

text \<open>The runner's properties over the graphs it plans, and a two-node run that shows their hypotheses can hold.\<close>

section \<open>A small run\<close>

definition demo_ref :: "json \<Rightarrow> artifact_ref" where
  "demo_ref v = \<lparr>ref_hash = ''x'', ref_length = 1, ref_extension = ''json'', ref_path = ''x''\<rparr>"

definition demo_env :: run_env where
  "demo_env = \<lparr>re_run = ''r'', re_limit = 2, re_plan = Inr demo_plan,
     re_executor = (\<lambda>_. True), re_stage = (\<lambda>_. Some PLANNING), re_address = demo_ref, re_readback = (\<lambda>v. v),
     re_resumed = False\<rparr>"

definition demo_signals :: "signal list" where
  "demo_signals = [Tick Done, Tick Done,
     Task ''a'' Done, Task ''a'' Done, Task ''a'' Done, Task ''a'' (Value JNull), Task ''a'' Done, Task ''a'' Done,
     Task ''a'' Done, Tick Done, Tick Done,
     Task ''b'' Done, Task ''b'' Done, Task ''b'' (Value (JBool True)), Task ''b'' Done, Task ''b'' Done, Task ''b'' Done,
     Tick Done, Tick Done, Tick Done]"

definition demo_run :: run where
  "demo_run = the (run_steps demo_env (initial_run [] Map.empty) demo_signals)"

lemma demo_steps: "run_steps demo_env (initial_run [] Map.empty) demo_signals \<noteq> None"
  by code_simp

lemma demo_end: "rn_control demo_run = Ended COMPLETED"
  by code_simp

lemma demo_log:
  "rn_log demo_run =
     [RunTransition ''r'' CREATED None, RunTransition ''r'' PLANNING None,
      NodeDispatched ''r'' ''a'' ''148'', AttemptStart ''148'' 1 None, AttemptEnd ''148'' 1 (demo_ref JNull),
      NodeCompleted ''r'' ''a'' ''148'' False,
      NodeDispatched ''r'' ''b'' ''224'', AttemptStart ''224'' 1 None, AttemptEnd ''224'' 1 (demo_ref JNull),
      NodeCompleted ''r'' ''b'' ''224'' False, RunTransition ''r'' COMPLETED None]"
  by code_simp

lemma demo_calls: "rn_calls demo_run = [(''a'', []), (''b'', [(''a'', Some JNull)])]"
  by code_simp

lemma demo_reaches: "reaches demo_env (initial_run [] Map.empty) demo_run"
  using reaches_steps [OF reaches_refl] demo_steps unfolding demo_run_def by (metis option.exhaust_sel)

lemma demo_env_plan: "re_plan demo_env = build_graph_plan demo_host demo_graph (re_run demo_env)"
  by (simp add: demo_env_def demo_plan)

text \<open>A run that resumes with the result of \<open>a\<close> in the journal, while the store lost its artifact.\<close>

definition lost_signals :: "signal list" where
  "lost_signals = [Tick Done, Tick Done,
     Task ''a'' Done, Task ''a'' Done, Task ''a'' Done, Task ''a'' (Value JNull), Task ''a'' Done, Task ''a'' Done, Task ''a'' Done]"

definition lost_journal :: "journal_record list" where
  "lost_journal = [AttemptStart ''148'' 1 None, AttemptEnd ''148'' 1 (demo_ref JNull)]"

text \<open>The same resume with the artifact in place: the node is read back.\<close>

definition kept_signals :: "signal list" where
  "kept_signals = [Tick Done, Tick Done, Task ''a'' Done, Task ''a'' Done, Task ''a'' Done]"

definition kept_run :: "(artifact_ref \<rightharpoonup> json) \<Rightarrow> run" where
  "kept_run store = the (run_steps demo_env (initial_run lost_journal store) kept_signals)"

lemma kept_steps: "run_steps demo_env (initial_run lost_journal (Map.empty(demo_ref JNull \<mapsto> JNull))) kept_signals \<noteq> None"
  by code_simp

lemma kept_reaches:
  "reaches demo_env (initial_run lost_journal (Map.empty(demo_ref JNull \<mapsto> JNull)))
     (kept_run (Map.empty(demo_ref JNull \<mapsto> JNull)))"
  using reaches_steps [OF reaches_refl] kept_steps unfolding kept_run_def by (metis option.exhaust_sel)

lemma kept_projected: "map_of (proj_completed (project_runner lost_journal)) ''148'' = Some (demo_ref JNull)"
  by (simp add: project_runner_def lost_journal_def)

definition lost_run :: "(artifact_ref \<rightharpoonup> json) \<Rightarrow> run option" where
  "lost_run store = run_steps demo_env (initial_run lost_journal store) lost_signals"

section \<open>Properties\<close>

lemma the_plan_Inr: "re_plan env = Inr p \<Longrightarrow> the_plan env = p"
  by (simp add: the_plan_def)

lemma the_plan_Inl: "re_plan env = Inl e \<Longrightarrow> pl_order (the_plan env) = []"
  by (simp add: the_plan_def)

lemma plan_distinct: "re_plan env = build_graph_plan h g (re_run env) \<Longrightarrow> distinct (pl_order (the_plan env))"
  using plan_order(1) [of h g "re_run env"] the_plan_Inl [of env] the_plan_Inr [of env]
  by (metis distinct.simps(1) sum.exhaust)

lemmas planned_inv = reachable_inv [OF _ plan_distinct]
lemmas planned_spare = reachable_spare [OF _ plan_distinct]

lemma completions_iff: "n \<in> set (completions rs) \<longleftrightarrow> (\<exists>run i b. NodeCompleted run n i b \<in> set rs)"
proof (induction rs)
  case (Cons r rs)
  then show ?case by (cases r) auto
qed simp

lemma keys_input_map: "fst ` set (input_map f ps) = set ps"
proof -
  have "fst ` set (fold (\<lambda>p. AList.update p (f p)) ps m) = set ps \<union> fst ` set m" for m
    by (induction ps arbitrary: m) auto
  then show ?thesis by (simp add: input_map_def)
qed

lemma values_input_map: "(q, v) \<in> set (input_map f ps) \<Longrightarrow> v = f q"
proof -
  have "\<forall>(q, v) \<in> set m. v = f q \<Longrightarrow> \<forall>(q, v) \<in> set (fold (\<lambda>p. AList.update p (f p)) ps m). v = f q" for m
  proof (induction ps arbitrary: m)
    case (Cons p ps)
    have "\<forall>(q, v) \<in> set (AList.update p (f p) m). v = f q"
      using Cons.prems by (induction m) auto
    then show ?case using Cons.IH by simp
  qed simp
  from this [of "[]"] show "(q, v) \<in> set (input_map f ps) \<Longrightarrow> v = f q" by (auto simp: input_map_def)
qed

text \<open>
  C1. Dependency order: in everything a run appends, the dispatch of a node comes after the
  completion of every predecessor of the node in the graph's plan, whatever the interleaving of the
  batch, the failures and the cancellations.
\<close>

theorem dispatch_after_predecessors:
  assumes "re_plan env = build_graph_plan h g (re_run env)" "reaches env (initial_run recs store) s"
    and "appended recs s = xs @ NodeDispatched run n i # ys" "q \<in> set (pl_predecessors (the_plan env) n)"
  shows "\<exists>r j b. NodeCompleted r q j b \<in> set xs"
proof -
  have "dispatch_inv env recs s" using run_invD(5) [OF planned_inv [OF assms(2,1)]] .
  then have "q \<in> set (completions xs)" using assms(3,4) by (auto simp: dispatch_inv_def)
  then show ?thesis by (simp add: completions_iff)
qed

theorem dispatch_after_predecessors_witness:
  "\<exists>r j b. NodeCompleted r ''a'' j b \<in> set (take 6 (appended [] demo_run))"
proof (rule dispatch_after_predecessors [OF demo_env_plan demo_reaches])
  show "appended [] demo_run = take 6 (appended [] demo_run) @ NodeDispatched ''r'' ''b'' ''224'' # drop 7 (appended [] demo_run)"
    by (simp add: appended_def demo_log)
  show "''a'' \<in> set (pl_predecessors (the_plan demo_env) ''b'')"
    by (simp add: the_plan_def demo_env_def demo_plan_def predecessors_def incoming_edges_def demo_graph_def)
qed

text \<open>
  A node is dispatched at most once by a handle, and its executor is called at most once, only
  for a dispatched node; a batch never holds more tasks than the concurrency limit, and no node twice.
\<close>

theorem dispatched_once:
  assumes "re_plan env = build_graph_plan h g (re_run env)" "reaches env (initial_run recs store) s"
  shows "distinct (dispatches (appended recs s)) \<and> distinct (map fst (rn_calls s))
    \<and> fst ` set (rn_calls s) \<subseteq> set (dispatches (appended recs s))
    \<and> distinct (map fst (rn_tasks s)) \<and> length (rn_tasks s) \<le> re_limit env"
  using run_invD(2,5,6) [OF planned_inv [OF assms(2,1)]] by (simp add: dispatch_inv_def call_inv_def batch_inv_def)

theorem dispatched_once_witness:
  "distinct (dispatches (appended [] demo_run)) \<and> fst ` set (rn_calls demo_run) = {''a'', ''b''}"
  using dispatched_once [OF demo_env_plan demo_reaches] by (simp add: demo_calls)

text \<open>
  C8. An executor is given exactly the outputs of the node's predecessors: one input per
  predecessor, each the output that predecessor has in the run, none undefined.
\<close>

theorem executor_inputs:
  assumes "re_plan env = build_graph_plan h g (re_run env)" "reaches env (initial_run recs store) s"
    and "(n, inputs) \<in> set (rn_calls s)"
  shows "fst ` set inputs = set (pl_predecessors (the_plan env) n)
    \<and> (\<forall>(q, v) \<in> set inputs. v \<noteq> None \<and> v = rn_outputs s q)"
proof -
  have "call_inputs env s (n, inputs)"
    using run_invD(6) [OF planned_inv [OF assms(2,1)]] assms(3) by (auto simp: call_inv_def)
  then have inputs: "inputs = input_map (rn_outputs s) (pl_predecessors (the_plan env) n)"
    and preds: "\<forall>q \<in> set (pl_predecessors (the_plan env) n). rn_outputs s q \<noteq> None"
    by (simp_all add: call_inputs_def)
  have "v \<noteq> None \<and> v = rn_outputs s q" if "(q, v) \<in> set inputs" for q v
  proof -
    have "q \<in> set (pl_predecessors (the_plan env) n)"
      using that keys_input_map [of "rn_outputs s"] unfolding inputs by (metis fst_conv image_eqI)
    then show ?thesis using preds values_input_map that unfolding inputs by metis
  qed
  then show ?thesis by (auto simp: inputs keys_input_map)
qed

theorem executor_inputs_witness:
  "fst ` set [(''a'', Some JNull)] = set (pl_predecessors (the_plan demo_env) ''b'') \<and> rn_outputs demo_run ''a'' = Some JNull"
  using executor_inputs [OF demo_env_plan demo_reaches, of "''b''" "[(''a'', Some JNull)]"] by (simp add: demo_calls)

text \<open>
  C2. A run that ends \<open>COMPLETED\<close> has recorded the completion of every node that the graph's
  edges reach from the entry node.
\<close>

theorem completed_run_covers_graph:
  assumes "re_plan env = build_graph_plan h g (re_run env)" "re_plan env = Inr p"
    and "reaches env (initial_run recs store) s" "rn_control s = Ended COMPLETED"
    and "(gr_entry g, n) \<in> (succ_rel (outgoing h (gr_edges g)))\<^sup>*"
  shows "\<exists>r i b. NodeCompleted r n i b \<in> set (appended recs s)"
proof -
  have "set (pl_order (the_plan env)) \<subseteq> set (completions (appended recs s))"
    using run_invD(7) [OF planned_inv [OF assms(3,1)]] assms(4) by (simp add: end_inv_def)
  moreover have "n \<in> set (pl_order (the_plan env))"
    using assms(1,5) plan_order(2) [of h g "re_run env" p] the_plan_Inr [OF assms(2)] by (simp add: assms(2))
  ultimately show ?thesis using completions_iff by blast
qed

theorem completed_run_covers_graph_witness:
  "\<exists>r i b. NodeCompleted r ''a'' i b \<in> set (appended [] demo_run)"
proof (rule completed_run_covers_graph [OF demo_env_plan _ demo_reaches demo_end])
  show "re_plan demo_env = Inr demo_plan" by (simp add: demo_env_def)
  show "(gr_entry demo_graph, ''a'') \<in> (succ_rel (outgoing demo_host (gr_edges demo_graph)))\<^sup>*"
    by (simp add: demo_graph_def)
qed

text \<open>
  C3. Replay: an activity that the loaded journal ended with an artifact the store still has is
  never attempted again. No attempt of it is journaled and the executor of its node is never called.
\<close>

theorem kept_activity_not_rerun:
  assumes "re_plan env = build_graph_plan h g (re_run env)" "reaches env (initial_run recs store) s"
    and "map_of (proj_completed (project_runner recs)) i = Some ref" "store ref \<noteq> None"
  shows "(\<forall>m q. AttemptStart i m q \<notin> set (appended recs s))
    \<and> (\<forall>n. map_of (pl_ids (the_plan env)) n = Some i \<longrightarrow> n \<notin> fst ` set (rn_calls s))"
proof -
  have "spared recs store i" using assms(3,4) by (auto simp: spared_def)
  moreover have "spare_past env recs store s" using planned_spare [OF assms(2,1)] by (simp add: spare_inv_def)
  ultimately show ?thesis unfolding spare_past_def by blast
qed

theorem kept_activity_not_rerun_witness:
  "\<forall>m q. AttemptStart ''148'' m q \<notin> set (appended lost_journal (kept_run (Map.empty(demo_ref JNull \<mapsto> JNull))))"
  using kept_activity_not_rerun [OF demo_env_plan kept_reaches, of "''148''" "demo_ref JNull"] kept_projected by simp

text \<open>
  Whatever fails and wherever a run stops, the attempt numbers of each activity increase along
  its journal, so no number is used twice; while the run is live its runtime knows every
  attempt of the journal and believes completed only what the journal ended.
\<close>

theorem attempts_increase_always:
  assumes "reaches env (initial_run recs store) s" "attempts_increase recs"
  shows "attempts_increase (rn_log s) \<and> (rn_control s = Batch \<longrightarrow> agrees (rn_log s) (rn_runtime s))"
  using reachable_journal [OF assms] by (simp add: journal_inv_def live_control_def)

theorem attempts_increase_always_witness: "attempts_increase (rn_log demo_run)"
proof -
  have "attempts_increase []" by (simp add: attempts_increase_def)
  from attempts_increase_always [OF demo_reaches this] show ?thesis ..
qed

lemma steps_bounded:
  assumes "re_plan env = build_graph_plan h g (re_run env)" "0 < re_limit env"
    and "run_steps env (initial_run recs store) xs = Some s"
  shows "length (filter (\<lambda>x. \<not> is_cancel x) xs) \<le> run_bound env"
proof -
  have "run_inv env recs (initial_run recs store)" using planned_inv [OF reaches_refl assms(1)] .
  moreover have "busy (initial_run recs store)" by (simp add: busy_def initial_run_def)
  ultimately have "length (filter (\<lambda>x. \<not> is_cancel x) xs) + effort env s \<le> effort env (initial_run recs store)"
    using steps_effort [OF assms(3) _ _ assms(2) plan_distinct [OF assms(1)] reaches_refl] by simp
  then show ?thesis by (simp add: effort.simps run_bound_def initial_run_def)
qed

text \<open>
  C4. Termination: a handle with a positive limit makes at most \<open>run_bound\<close> steps, cancellations
  aside, a number that depends only on the number of nodes of the plan.
\<close>

theorem run_steps_bounded:
  assumes "re_plan env = build_graph_plan h g (re_run env)" "0 < re_limit env"
    and "run_steps env (initial_run recs store) xs = Some s"
  shows "length (filter (\<lambda>x. \<not> is_cancel x) xs) \<le> run_bound env"
  by (rule steps_bounded [OF assms])

theorem run_steps_bounded_witness: "(20::nat) \<le> run_bound demo_env"
proof -
  have "run_steps demo_env (initial_run [] Map.empty) demo_signals = Some demo_run"
    using demo_steps by (simp add: demo_run_def)
  from run_steps_bounded [OF demo_env_plan _ this] show ?thesis by (simp add: demo_env_def demo_signals_def)
qed

text \<open>
  C5. Orderly runs complete: with a positive limit and an executor for every kind of node of the
  plan, whatever part \<open>xs\<close> of a run has passed without a cancellation and without a failing await,
  in any interleaving of the batches, the rest can pass the same way, and it ends \<open>COMPLETED\<close>
  after at most \<open>run_bound\<close> steps in all. So such a run never deadlocks, never circles without progress
  and is never left with pending nodes of which none is ready.
\<close>

theorem orderly_run_completes:
  assumes "re_plan env = build_graph_plan h g (re_run env)" "re_plan env = Inr p" "0 < re_limit env" "equipped env"
    and "run_steps env (initial_run recs store) xs = Some s" "list_all smooth xs"
  shows "\<exists>ys t. list_all smooth ys \<and> run_steps env s ys = Some t \<and> rn_control t = Ended COMPLETED
    \<and> length xs + length ys \<le> run_bound env"
proof -
  let ?i = "initial_run recs store"
  have plan: "build_graph_plan h g (re_run env) = Inr p" using assms(1,2) by simp
  have init: "orderly ?i" "busy ?i" by (simp_all add: orderly_def busy_def initial_run_def)
  have reach: "reaches env ?i s" by (rule reaches_steps [OF reaches_refl assms(5)])
  have s: "orderly s \<and> run_inv env recs s \<and> busy s"
    by (rule orderly_steps [OF assms(5,6) init(1) planned_inv [OF reaches_refl assms(1)] init(2) assms(2) plan assms(4,3)
          reaches_refl plan_distinct [OF assms(1)]])
  then obtain ys t where ys: "list_all smooth ys" "run_steps env s ys = Some t" "rn_control t = Ended COMPLETED"
    using orderly_completes [OF _ _ _ assms(2) plan assms(4,3) reach] by blast
  have "run_steps env ?i (xs @ ys) = Some t" using assms(5) ys(2) by (simp add: steps_append)
  then have "length (filter (\<lambda>x. \<not> is_cancel x) (xs @ ys)) \<le> run_bound env"
    by (rule steps_bounded [OF assms(1,3)])
  then have "length xs + length ys \<le> run_bound env" using assms(6) ys(1) by (simp add: smooth_no_cancel)
  with ys show ?thesis by blast
qed

theorem orderly_run_completes_witness:
  "\<exists>ys t. list_all smooth ys \<and> run_steps demo_env (initial_run [] Map.empty) (take 6 demo_signals @ ys) = Some t
    \<and> rn_control t = Ended COMPLETED \<and> 6 + length ys \<le> run_bound demo_env"
proof -
  have plan: "re_plan demo_env = Inr demo_plan" by (simp add: demo_env_def)
  have env: "0 < re_limit demo_env" "equipped demo_env" by (simp_all add: demo_env_def equipped_def list_all_iff split: option.splits)
  have "run_steps demo_env (initial_run [] Map.empty) (take 6 demo_signals) \<noteq> None" by code_simp
  then obtain s where s: "run_steps demo_env (initial_run [] Map.empty) (take 6 demo_signals) = Some s" by blast
  have smooth: "list_all smooth (take 6 demo_signals)" and len: "length (take 6 demo_signals) = 6"
    by (simp_all add: demo_signals_def)
  from orderly_run_completes [OF demo_env_plan plan env s smooth] obtain ys t where
    "list_all smooth ys" "run_steps demo_env s ys = Some t" "rn_control t = Ended COMPLETED"
    "6 + length ys \<le> run_bound demo_env" unfolding len by blast
  then show ?thesis using s by (intro exI [of _ ys] exI [of _ t]) (simp add: steps_append)
qed

text \<open>
  The state a run returns is the state its journal projects to and the state the handle shows.
\<close>

theorem result_is_journaled:
  assumes "reaches env (initial_run recs store) s" "rn_control s = Ended st"
  shows "project_run_state (rn_log s) = st \<and> rn_live s = st"
  by (rule reachable_ended [OF assms])

theorem result_is_journaled_witness: "project_run_state (rn_log demo_run) = COMPLETED \<and> rn_live demo_run = COMPLETED"
  by (rule result_is_journaled [OF demo_reaches demo_end])

text \<open>
  A resumed run whose store lost the artifact of a completed activity runs that activity
  again, as the runtime means to; the runner still records the completion as \<open>replayed\<close>, and it
  records no stage transition for the node.
\<close>

lemma lost_artifact_recorded_as_replay:
  "map_option (\<lambda>s. (map fst (rn_calls s), rn_log s)) (lost_run Map.empty) =
    Some ([''a''], lost_journal @ [RunTransition ''r'' CREATED None, NodeDispatched ''r'' ''a'' ''148'',
      AttemptStart ''148'' 2 None, AttemptEnd ''148'' 2 (demo_ref JNull), NodeCompleted ''r'' ''a'' ''148'' True])"
  by code_simp

end
