(* ===== verification/Graph_Schema.thy ===== *)
theory Graph_Schema
  imports Graph_Plan
begin

text \<open>
  The schema of an authored workflow graph: \<open>packages/workflow/src/{graph-schema,edge-contracts,node-kinds,
  context-policy}.ts\<close>. A value of type \<open>unknown\<close> is a JSON value here, and \<open>JOther\<close> is \<open>undefined\<close>. The
  source casts a validated value to \<open>WorkflowGraph\<close>; the cast is \<open>read_workflow\<close>.
\<close>

section \<open>Types\<close>

record goal =
  go_objective :: string
  go_done :: "string list"
  go_stop :: "string list"
  go_blocked :: "string list"

datatype workflow_kind =
  DeterministicNode | ModelNode | GateNode | LoopNode number | HumanNode | SubgraphNode string

record workflow_node =
  wn_id :: string
  wn_kind :: workflow_kind
  wn_label :: string
  wn_goal :: goal
  wn_config :: "(string \<times> json) list option"

datatype context_mode = ModeNone | SelectedArtifacts | SummaryMode | DeltaMode | RecentTurns | FullContext

datatype context_trust = TrustSystem | TrustDerived | TrustUntrusted

record context_policy =
  cx_mode :: context_mode
  cx_trust :: context_trust
  cx_include :: "string list"
  cx_exclude :: "string list"

datatype validation_behaviour = Strict | RepairOnce

record workflow_edge =
  we_id :: string
  we_from :: string
  we_to :: string
  we_artifacts :: "string list"
  we_layers :: "string list"
  we_policy :: context_policy
  we_tokens :: "number option"
  we_schema :: string
  we_fields :: "string list"
  we_behaviour :: validation_behaviour

record workflow_graph =
  wg_id :: string
  wg_goal :: goal
  wg_entry :: string
  wg_nodes :: "workflow_node list"
  wg_edges :: "workflow_edge list"

record diagnostic =
  dg_path :: string
  dg_message :: string

section \<open>Literals\<close>

fun node_kind_of :: "workflow_kind \<Rightarrow> node_kind" where
  "node_kind_of DeterministicNode = Deterministic"
| "node_kind_of ModelNode = Model"
| "node_kind_of GateNode = Gate"
| "node_kind_of (LoopNode _) = Loop"
| "node_kind_of HumanNode = Human"
| "node_kind_of (SubgraphNode _) = Subgraph"

definition node_kinds :: "string list" where
  "node_kinds = [''deterministic'', ''model'', ''gate'', ''loop'', ''human'', ''subgraph'']"

definition is_node_kind :: "json \<Rightarrow> bool" where
  "is_node_kind v \<longleftrightarrow> v \<in> JStr ` set node_kinds"

definition context_modes :: "(string \<times> context_mode) list" where
  "context_modes = [(''none'', ModeNone), (''selected_artifacts'', SelectedArtifacts), (''summary'', SummaryMode), (''delta'', DeltaMode),
     (''recent_turns'', RecentTurns), (''full_context'', FullContext)]"

definition context_trusts :: "(string \<times> context_trust) list" where
  "context_trusts = [(''system'', TrustSystem), (''derived'', TrustDerived), (''untrusted'', TrustUntrusted)]"

definition behaviours :: "(string \<times> validation_behaviour) list" where
  "behaviours = [(''strict'', Strict), (''repair_once'', RepairOnce)]"

text \<open>A string literal of a table, as the code tests it and as the cast reads it.\<close>

definition literal :: "(string \<times> 'a) list \<Rightarrow> json \<Rightarrow> 'a option" where
  "literal table v = (case v of JStr s \<Rightarrow> map_of table s | _ \<Rightarrow> None)"

definition is_context_mode :: "json \<Rightarrow> bool" where
  "is_context_mode v \<longleftrightarrow> literal context_modes v \<noteq> None"

definition is_context_trust :: "json \<Rightarrow> bool" where
  "is_context_trust v \<longleftrightarrow> literal context_trusts v \<noteq> None"

section \<open>Reading a value\<close>

definition is_record :: "json \<Rightarrow> bool" where
  "is_record v \<longleftrightarrow> (case v of JObj es \<Rightarrow> True | _ \<Rightarrow> False)"

text \<open>\<open>value.key\<close> of a record, \<open>undefined\<close> when it has no such key.\<close>

definition field :: "json \<Rightarrow> string \<Rightarrow> json" where
  "field v k = (case v of JObj es \<Rightarrow> (case map_of es k of None \<Rightarrow> JOther | Some x \<Rightarrow> x) | _ \<Rightarrow> JOther)"

definition has_field :: "json \<Rightarrow> string \<Rightarrow> bool" where
  "has_field v k \<longleftrightarrow> (case v of JObj es \<Rightarrow> map_of es k \<noteq> None | _ \<Rightarrow> False)"

definition keys_of :: "json \<Rightarrow> string list" where
  "keys_of v = (case v of JObj es \<Rightarrow> map fst es | _ \<Rightarrow> [])"

fun elements :: "json \<Rightarrow> json list option" where
  "elements (JArr xs) = Some xs"
| "elements _ = None"

fun is_integer :: "json \<Rightarrow> bool" where
  "is_integer (JNum (Fin r)) \<longleftrightarrow> of_int \<lfloor>r\<rfloor> = r"
| "is_integer _ \<longleftrightarrow> False"

fun integer_value :: "json \<Rightarrow> int" where
  "integer_value (JNum n) = int_of_number n"
| "integer_value _ = 0"

fun is_json_value :: "json \<Rightarrow> bool" where
  "is_json_value JNull = True"
| "is_json_value (JBool b) = True"
| "is_json_value (JStr s) = True"
| "is_json_value (JNum n) = num_finite n"
| "is_json_value (JArr xs) = list_all is_json_value xs"
| "is_json_value (JObj es) = list_all (\<lambda>e. is_json_value (snd e)) es"
| "is_json_value JOther = False"

text \<open>\<open>JSON.stringify\<close> in a template literal.\<close>

function json_text :: "(number \<Rightarrow> string) \<Rightarrow> json \<Rightarrow> string" where
  "json_text f JNull = ''null''"
| "json_text f (JBool b) = (if b then ''true'' else ''false'')"
| "json_text f (JStr s) = quote s"
| "json_text f (JNum n) = (if num_finite n then f n else ''null'')"
| "json_text f (JArr xs) = ''['' @ join_with '','' (map (\<lambda>x. if x = JOther then ''null'' else json_text f x) xs) @ '']''"
| "json_text f (JObj es) =
     ''{'' @ join_with '','' (map (\<lambda>e. quote (fst e) @ '':'' @ json_text f (snd e)) (filter (\<lambda>e. snd e \<noteq> JOther) es)) @ ''}''"
| "json_text f JOther = ''undefined''"
  by pat_completeness auto
termination
  by (relation "measure (\<lambda>(_, j). size j)") (auto simp: size_json_list dest: size_json_entry)

section \<open>Diagnostics\<close>

definition diag :: "string \<Rightarrow> string \<Rightarrow> diagnostic" where
  "diag path message = \<lparr>dg_path = path, dg_message = message\<rparr>"

definition unless :: "bool \<Rightarrow> diagnostic \<Rightarrow> diagnostic list" where
  "unless c d = (if c then [] else [d])"

definition indexed :: "string \<Rightarrow> nat \<Rightarrow> string" where
  "indexed s i = s @ ''['' @ nat_string i @ '']''"

definition unknown_keys :: "json \<Rightarrow> string list \<Rightarrow> string \<Rightarrow> diagnostic list" where
  "unknown_keys v allowed path =
     map (\<lambda>k. diag (path @ ''.'' @ k) ''Unknown field.'') (filter (\<lambda>k. k \<notin> set allowed) (keys_of v))"

definition text_ok :: "json \<Rightarrow> bool" where
  "text_ok v \<longleftrightarrow> (case v of JStr s \<Rightarrow> s \<noteq> [] | _ \<Rightarrow> False)"

definition require_string :: "json \<Rightarrow> string \<Rightarrow> diagnostic list" where
  "require_string v path = unless (text_ok v) (diag path ''Expected a non-empty string.'')"

fun is_text :: "json \<Rightarrow> bool" where
  "is_text (JStr s) = True"
| "is_text _ = False"

fun text_entries :: "string \<Rightarrow> nat \<Rightarrow> json list \<Rightarrow> diagnostic list" where
  "text_entries path i [] = []"
| "text_entries path i (x # xs) = unless (is_text x) (diag (indexed path i) ''Expected a string.'') @ text_entries path (Suc i) xs"

definition require_string_array :: "json \<Rightarrow> string \<Rightarrow> diagnostic list" where
  "require_string_array v path =
     (case elements v of None \<Rightarrow> [diag path ''Expected an array of strings.''] | Some xs \<Rightarrow> text_entries path 0 xs)"

section \<open>Validation\<close>

definition validate_goal :: "json \<Rightarrow> string \<Rightarrow> diagnostic list" where
  "validate_goal v path =
     (if \<not> is_record v then [diag path ''Expected a goal object.'']
      else unknown_keys v [''objective'', ''doneWhen'', ''stopWhen'', ''blockedWhen''] path
        @ require_string (field v ''objective'') (path @ ''.objective'')
        @ require_string_array (field v ''doneWhen'') (path @ ''.doneWhen'')
        @ require_string_array (field v ''stopWhen'') (path @ ''.stopWhen'')
        @ require_string_array (field v ''blockedWhen'') (path @ ''.blockedWhen''))"

definition node_fields :: "json \<Rightarrow> string list" where
  "node_fields kind = [''id'', ''kind'', ''label'', ''goal'', ''config'']
     @ (if kind = JStr ''loop'' then [''maximum''] else []) @ (if kind = JStr ''subgraph'' then [''purpose''] else [])"

definition validate_config :: "json \<Rightarrow> string \<Rightarrow> diagnostic list" where
  "validate_config v path =
     (if has_field v ''config'' \<and> \<not> is_record (field v ''config'') then [diag (path @ ''.config'') ''Expected a JSON object.'']
      else if has_field v ''config'' \<and> \<not> is_json_value (field v ''config'')
      then [diag (path @ ''.config'') ''Configuration must contain only JSON values.'']
      else [])"

text \<open>\<open>validateNode\<close> also returns the id of the node, when it is a string.\<close>

definition node_id :: "json \<Rightarrow> string option" where
  "node_id v = (case field v ''id'' of JStr s \<Rightarrow> Some s | _ \<Rightarrow> None)"

definition node_place :: "json \<Rightarrow> nat \<Rightarrow> string" where
  "node_place v i = (case node_id v of None \<Rightarrow> indexed ''nodes'' i | Some s \<Rightarrow> indexed ''nodes'' i @ ''('' @ s @ '')'')"

definition validate_node :: "(number \<Rightarrow> string) \<Rightarrow> json \<Rightarrow> nat \<Rightarrow> diagnostic list" where
  "validate_node f v i =
     (if \<not> is_record v then [diag (indexed ''nodes'' i) ''Expected a node object.'']
      else let path = node_place v i; kind = field v ''kind'' in
        unknown_keys v (node_fields kind) path
        @ require_string (field v ''id'') (path @ ''.id'')
        @ require_string (field v ''label'') (path @ ''.label'')
        @ validate_goal (field v ''goal'') (path @ ''.goal'')
        @ unless (is_node_kind kind) (diag (path @ ''.kind'') (''Unknown node kind '' @ json_text f kind @ ''.''))
        @ validate_config v path
        @ unless (kind = JStr ''loop'' \<longrightarrow> is_integer (field v ''maximum'') \<and> 1 \<le> integer_value (field v ''maximum''))
            (diag (path @ ''.maximum'') ''Loop maximum must be a positive integer.'')
        @ (if kind = JStr ''subgraph'' then require_string (field v ''purpose'') (path @ ''.purpose'') else []))"

definition validate_context_policy :: "json \<Rightarrow> string \<Rightarrow> diagnostic list" where
  "validate_context_policy v path =
     (if \<not> is_record v then [diag path ''Expected a context policy object.'']
      else unknown_keys v [''mode'', ''trust'', ''include'', ''exclude''] path
        @ unless (is_context_mode (field v ''mode'')) (diag (path @ ''.mode'') ''Unknown context mode.'')
        @ unless (is_context_trust (field v ''trust'')) (diag (path @ ''.trust'') ''Unknown trust level.'')
        @ require_string_array (field v ''include'') (path @ ''.include'')
        @ require_string_array (field v ''exclude'') (path @ ''.exclude''))"

text \<open>\<open>requireString(v) && !nodeIds.has(v)\<close>\<close>

definition require_node :: "json \<Rightarrow> string list \<Rightarrow> string \<Rightarrow> string \<Rightarrow> diagnostic list" where
  "require_node v ids path what =
     (if text_ok v then (case v of JStr s \<Rightarrow> unless (s \<in> set ids) (diag path (''Unknown '' @ what @ '' node '' @ s @ ''.'')) | _ \<Rightarrow> [])
      else require_string v path)"

definition validate_input :: "json \<Rightarrow> string \<Rightarrow> diagnostic list" where
  "validate_input v path =
     (if \<not> is_record v then [diag path ''Expected an input contract.'']
      else unknown_keys v [''artifacts''] path @ require_string_array (field v ''artifacts'') (path @ ''.artifacts''))"

definition validate_prompt :: "json \<Rightarrow> string \<Rightarrow> diagnostic list" where
  "validate_prompt v path =
     (if \<not> is_record v then [diag path ''Expected a prompt contract.'']
      else unknown_keys v [''protocolLayers''] path @ require_string_array (field v ''protocolLayers'') (path @ ''.protocolLayers''))"

definition tokens_ok :: "json \<Rightarrow> bool" where
  "tokens_ok v \<longleftrightarrow> v = JNull \<or> is_integer v \<and> 0 \<le> integer_value v"

definition validate_context :: "json \<Rightarrow> string \<Rightarrow> diagnostic list" where
  "validate_context v path =
     (if \<not> is_record v then [diag path ''Expected a context contract.'']
      else unknown_keys v [''policy'', ''tokenEstimate''] path
        @ validate_context_policy (field v ''policy'') (path @ ''.policy'')
        @ unless (tokens_ok (field v ''tokenEstimate'')) (diag (path @ ''.tokenEstimate'') ''Expected null or a non-negative integer.''))"

definition validate_output :: "json \<Rightarrow> string \<Rightarrow> diagnostic list" where
  "validate_output v path =
     (if \<not> is_record v then [diag path ''Expected an output contract.'']
      else unknown_keys v [''schema'', ''requiredFields'', ''validationBehaviour''] path
        @ require_string (field v ''schema'') (path @ ''.schema'')
        @ require_string_array (field v ''requiredFields'') (path @ ''.requiredFields'')
        @ unless (literal behaviours (field v ''validationBehaviour'') \<noteq> None)
            (diag (path @ ''.validationBehaviour'') ''Unknown validation behaviour.''))"

definition validate_edge :: "json \<Rightarrow> nat \<Rightarrow> string list \<Rightarrow> diagnostic list" where
  "validate_edge v i ids =
     (let path = indexed ''edges'' i in
      if \<not> is_record v then [diag path ''Expected an edge object.'']
      else unknown_keys v [''id'', ''from'', ''to'', ''input'', ''prompt'', ''context'', ''output''] path
        @ require_string (field v ''id'') (path @ ''.id'')
        @ require_node (field v ''from'') ids (path @ ''.from'') ''source''
        @ require_node (field v ''to'') ids (path @ ''.to'') ''destination''
        @ validate_input (field v ''input'') (path @ ''.input'')
        @ validate_prompt (field v ''prompt'') (path @ ''.prompt'')
        @ validate_context (field v ''context'') (path @ ''.context'')
        @ validate_output (field v ''output'') (path @ ''.output''))"

text \<open>The loops over the nodes and over the edges, with the ids seen so far.\<close>

fun validate_nodes :: "(number \<Rightarrow> string) \<Rightarrow> nat \<Rightarrow> json list \<Rightarrow> string list \<Rightarrow> diagnostic list \<times> string list" where
  "validate_nodes f i [] seen = ([], seen)"
| "validate_nodes f i (v # vs) seen =
     (let (ds, seen') = (case node_id v of
            None \<Rightarrow> ([], seen)
          | Some k \<Rightarrow> (unless (k \<notin> set seen) (diag (indexed ''nodes'' i @ ''('' @ k @ '').id'') ''Duplicate node id.''), set_add k seen));
          (es, ids) = validate_nodes f (Suc i) vs seen' in
      (validate_node f v i @ ds @ es, ids))"

fun validate_edges :: "string list \<Rightarrow> nat \<Rightarrow> json list \<Rightarrow> string list \<Rightarrow> diagnostic list" where
  "validate_edges ids i [] seen = []"
| "validate_edges ids i (v # vs) seen =
     (let (ds, seen') = (case node_id v of
            None \<Rightarrow> ([], seen)
          | Some k \<Rightarrow> (unless (k \<notin> set seen) (diag (indexed ''edges'' i @ ''.id'') ''Duplicate edge id.''), set_add k seen)) in
      validate_edge v i ids @ ds @ validate_edges ids (Suc i) vs seen')"

definition validate_workflow :: "(number \<Rightarrow> string) \<Rightarrow> json \<Rightarrow> diagnostic list" where
  "validate_workflow f v =
     (if \<not> is_record v then [diag ''$'' ''Expected a workflow object.'']
      else let (ds, ids) = (case elements (field v ''nodes'') of
             None \<Rightarrow> ([diag ''$.nodes'' ''Expected an array of nodes.''], []) | Some ns \<Rightarrow> validate_nodes f 0 ns []) in
        unknown_keys v [''schemaVersion'', ''id'', ''goal'', ''entryNodeId'', ''nodes'', ''edges''] ''$''
        @ unless (field v ''schemaVersion'' = JNum (num 1)) (diag ''$.schemaVersion'' ''Expected schema version 1.'')
        @ require_string (field v ''id'') ''$.id''
        @ validate_goal (field v ''goal'') ''$.goal''
        @ require_string (field v ''entryNodeId'') ''$.entryNodeId''
        @ ds
        @ (if text_ok (field v ''entryNodeId'') then require_node (field v ''entryNodeId'') ids ''$.entryNodeId'' ''entry'' else [])
        @ (case elements (field v ''edges'') of
             None \<Rightarrow> [diag ''$.edges'' ''Expected an array of edges.''] | Some es \<Rightarrow> validate_edges ids 0 es []))"

section \<open>The cast to \<open>WorkflowGraph\<close>\<close>

fun text_of :: "json \<Rightarrow> string option" where
  "text_of (JStr s) = Some s"
| "text_of _ = None"

fun all_some :: "'a option list \<Rightarrow> 'a list option" where
  "all_some [] = Some []"
| "all_some (None # xs) = None"
| "all_some (Some x # xs) = map_option (Cons x) (all_some xs)"

definition texts_of :: "json \<Rightarrow> string list option" where
  "texts_of v = Option.bind (elements v) (\<lambda>xs. all_some (map text_of xs))"

definition read_goal :: "json \<Rightarrow> goal option" where
  "read_goal v =
     Option.bind (text_of (field v ''objective'')) (\<lambda>objective.
     Option.bind (texts_of (field v ''doneWhen'')) (\<lambda>ds.
     Option.bind (texts_of (field v ''stopWhen'')) (\<lambda>ss.
     Option.bind (texts_of (field v ''blockedWhen'')) (\<lambda>bs.
       Some \<lparr>go_objective = objective, go_done = ds, go_stop = ss, go_blocked = bs\<rparr>))))"

definition read_kind :: "json \<Rightarrow> workflow_kind option" where
  "read_kind v =
     (case field v ''kind'' of
        JStr s \<Rightarrow>
          if s = ''deterministic'' then Some DeterministicNode
          else if s = ''model'' then Some ModelNode
          else if s = ''gate'' then Some GateNode
          else if s = ''loop'' then (case field v ''maximum'' of JNum n \<Rightarrow> Some (LoopNode n) | _ \<Rightarrow> None)
          else if s = ''human'' then Some HumanNode
          else if s = ''subgraph'' then map_option SubgraphNode (text_of (field v ''purpose''))
          else None
      | _ \<Rightarrow> None)"

definition read_config :: "json \<Rightarrow> (string \<times> json) list option option" where
  "read_config v = (if \<not> has_field v ''config'' then Some None
     else case field v ''config'' of JObj es \<Rightarrow> Some (Some es) | _ \<Rightarrow> None)"

definition read_node :: "json \<Rightarrow> workflow_node option" where
  "read_node v =
     Option.bind (text_of (field v ''id'')) (\<lambda>i.
     Option.bind (read_kind v) (\<lambda>kind.
     Option.bind (text_of (field v ''label'')) (\<lambda>label.
     Option.bind (read_goal (field v ''goal'')) (\<lambda>g.
     Option.bind (read_config v) (\<lambda>config.
       Some \<lparr>wn_id = i, wn_kind = kind, wn_label = label, wn_goal = g, wn_config = config\<rparr>)))))"

definition read_policy :: "json \<Rightarrow> context_policy option" where
  "read_policy v =
     Option.bind (literal context_modes (field v ''mode'')) (\<lambda>mode.
     Option.bind (literal context_trusts (field v ''trust'')) (\<lambda>trust.
     Option.bind (texts_of (field v ''include'')) (\<lambda>inc.
     Option.bind (texts_of (field v ''exclude'')) (\<lambda>exc.
       Some \<lparr>cx_mode = mode, cx_trust = trust, cx_include = inc, cx_exclude = exc\<rparr>))))"

fun read_tokens :: "json \<Rightarrow> number option option" where
  "read_tokens JNull = Some None"
| "read_tokens (JNum n) = Some (Some n)"
| "read_tokens _ = None"

definition read_edge :: "json \<Rightarrow> workflow_edge option" where
  "read_edge v =
     Option.bind (text_of (field v ''id'')) (\<lambda>i.
     Option.bind (text_of (field v ''from'')) (\<lambda>a.
     Option.bind (text_of (field v ''to'')) (\<lambda>b.
     Option.bind (texts_of (field (field v ''input'') ''artifacts'')) (\<lambda>artifacts.
     Option.bind (texts_of (field (field v ''prompt'') ''protocolLayers'')) (\<lambda>layers.
     Option.bind (read_policy (field (field v ''context'') ''policy'')) (\<lambda>policy.
     Option.bind (read_tokens (field (field v ''context'') ''tokenEstimate'')) (\<lambda>tokens.
     Option.bind (text_of (field (field v ''output'') ''schema'')) (\<lambda>schema.
     Option.bind (texts_of (field (field v ''output'') ''requiredFields'')) (\<lambda>fields.
     Option.bind (literal behaviours (field (field v ''output'') ''validationBehaviour'')) (\<lambda>behaviour.
       Some \<lparr>we_id = i, we_from = a, we_to = b, we_artifacts = artifacts, we_layers = layers, we_policy = policy, we_tokens = tokens,
         we_schema = schema, we_fields = fields, we_behaviour = behaviour\<rparr>))))))))))"

definition read_workflow :: "json \<Rightarrow> workflow_graph option" where
  "read_workflow v =
     Option.bind (text_of (field v ''id'')) (\<lambda>i.
     Option.bind (read_goal (field v ''goal'')) (\<lambda>g.
     Option.bind (text_of (field v ''entryNodeId'')) (\<lambda>entry.
     Option.bind (Option.bind (elements (field v ''nodes'')) (\<lambda>xs. all_some (map read_node xs))) (\<lambda>nodes.
     Option.bind (Option.bind (elements (field v ''edges'')) (\<lambda>xs. all_some (map read_edge xs))) (\<lambda>edges.
       Some \<lparr>wg_id = i, wg_goal = g, wg_entry = entry, wg_nodes = nodes, wg_edges = edges\<rparr>)))))"

text \<open>\<open>parseWorkflow\<close> and \<open>serialiseWorkflow\<close>; \<open>parse\<close> is \<open>JSON.parse\<close>, with the message of its error.\<close>

definition parse_workflow :: "(string \<Rightarrow> string + json) \<Rightarrow> (number \<Rightarrow> string) \<Rightarrow> string \<Rightarrow> diagnostic list + json" where
  "parse_workflow parse f text =
     (case parse text of
        Inl message \<Rightarrow> Inl [diag ''$'' message]
      | Inr v \<Rightarrow> (let ds = validate_workflow f v in if ds \<noteq> [] then Inl ds else Inr v))"

definition serialise_workflow :: "(number \<Rightarrow> string) \<Rightarrow> json \<Rightarrow> diagnostic list + string" where
  "serialise_workflow f v = (let ds = validate_workflow f v in if ds \<noteq> [] then Inl ds else Inr (json_text f v))"

section \<open>What a validated value is\<close>

text \<open>A value that \<open>JSON.parse\<close> returns: every key of an object is there once.\<close>

fun plain_json :: "json \<Rightarrow> bool" where
  "plain_json (JArr xs) = list_all plain_json xs"
| "plain_json (JObj es) = (distinct (map fst es) \<and> list_all (\<lambda>e. plain_json (snd e)) es)"
| "plain_json JOther = False"
| "plain_json _ = True"

definition texts :: "string list \<Rightarrow> json" where
  "texts xs = JArr (map JStr xs)"

definition json_of_goal :: "goal \<Rightarrow> json" where
  "json_of_goal g = JObj [(''objective'', JStr (go_objective g)), (''doneWhen'', texts (go_done g)),
     (''stopWhen'', texts (go_stop g)), (''blockedWhen'', texts (go_blocked g))]"

definition json_of_workflow_node :: "workflow_node \<Rightarrow> json" where
  "json_of_workflow_node n = JObj
     ([(''id'', JStr (wn_id n)), (''kind'', JStr (kind_string (node_kind_of (wn_kind n)))), (''label'', JStr (wn_label n)),
       (''goal'', json_of_goal (wn_goal n))]
      @ optional ''config'' JObj (wn_config n)
      @ (case wn_kind n of LoopNode x \<Rightarrow> [(''maximum'', JNum x)] | SubgraphNode p \<Rightarrow> [(''purpose'', JStr p)] | _ \<Rightarrow> []))"

fun mode_text :: "context_mode \<Rightarrow> string" where
  "mode_text ModeNone = ''none''"
| "mode_text SelectedArtifacts = ''selected_artifacts''"
| "mode_text SummaryMode = ''summary''"
| "mode_text DeltaMode = ''delta''"
| "mode_text RecentTurns = ''recent_turns''"
| "mode_text FullContext = ''full_context''"

fun trust_text :: "context_trust \<Rightarrow> string" where
  "trust_text TrustSystem = ''system''"
| "trust_text TrustDerived = ''derived''"
| "trust_text TrustUntrusted = ''untrusted''"

fun behaviour_text :: "validation_behaviour \<Rightarrow> string" where
  "behaviour_text Strict = ''strict''"
| "behaviour_text RepairOnce = ''repair_once''"

definition json_of_policy :: "context_policy \<Rightarrow> json" where
  "json_of_policy p = JObj [(''mode'', JStr (mode_text (cx_mode p))), (''trust'', JStr (trust_text (cx_trust p))),
     (''include'', texts (cx_include p)), (''exclude'', texts (cx_exclude p))]"

definition json_of_workflow_edge :: "workflow_edge \<Rightarrow> json" where
  "json_of_workflow_edge e = JObj
     [(''id'', JStr (we_id e)), (''from'', JStr (we_from e)), (''to'', JStr (we_to e)),
      (''input'', JObj [(''artifacts'', texts (we_artifacts e))]), (''prompt'', JObj [(''protocolLayers'', texts (we_layers e))]),
      (''context'', JObj [(''policy'', json_of_policy (we_policy e)),
         (''tokenEstimate'', case we_tokens e of None \<Rightarrow> JNull | Some n \<Rightarrow> JNum n)]),
      (''output'', JObj [(''schema'', JStr (we_schema e)), (''requiredFields'', texts (we_fields e)),
         (''validationBehaviour'', JStr (behaviour_text (we_behaviour e)))])]"

definition json_of_workflow :: "workflow_graph \<Rightarrow> json" where
  "json_of_workflow g = JObj
     [(''schemaVersion'', JNum (num 1)), (''id'', JStr (wg_id g)), (''goal'', json_of_goal (wg_goal g)), (''entryNodeId'', JStr (wg_entry g)),
      (''nodes'', JArr (map json_of_workflow_node (wg_nodes g))), (''edges'', JArr (map json_of_workflow_edge (wg_edges g)))]"

definition well_formed_node :: "workflow_node \<Rightarrow> bool" where
  "well_formed_node n \<longleftrightarrow> wn_id n \<noteq> [] \<and> wn_label n \<noteq> [] \<and> go_objective (wn_goal n) \<noteq> []
     \<and> (case wn_kind n of LoopNode x \<Rightarrow> \<exists>i. x = num i \<and> 1 \<le> i | SubgraphNode p \<Rightarrow> p \<noteq> [] | _ \<Rightarrow> True)"

definition well_formed_edge :: "string set \<Rightarrow> workflow_edge \<Rightarrow> bool" where
  "well_formed_edge ids e \<longleftrightarrow> we_id e \<noteq> [] \<and> we_from e \<in> ids \<and> we_to e \<in> ids
     \<and> (case we_tokens e of None \<Rightarrow> True | Some x \<Rightarrow> \<exists>i. x = num i \<and> 0 \<le> i)"

definition well_formed_graph :: "workflow_graph \<Rightarrow> bool" where
  "well_formed_graph g \<longleftrightarrow> wg_id g \<noteq> [] \<and> distinct (map wn_id (wg_nodes g)) \<and> wg_entry g \<in> set (map wn_id (wg_nodes g))
     \<and> distinct (map we_id (wg_edges g)) \<and> list_all well_formed_node (wg_nodes g)
     \<and> list_all (well_formed_edge (set (map wn_id (wg_nodes g)))) (wg_edges g)"

section \<open>Closed records\<close>

lemma unless_Nil [simp]: "unless c d = [] \<longleftrightarrow> c"
  by (simp add: unless_def)

lemma require_string_Nil [simp]: "require_string v path = [] \<longleftrightarrow> (\<exists>s. v = JStr s \<and> s \<noteq> [])"
  by (cases v) (auto simp: require_string_def text_ok_def)

lemma text_entries_Nil: "text_entries path i xs = [] \<longleftrightarrow> (\<exists>ss. xs = map JStr ss)"
proof (induction xs arbitrary: i)
  case (Cons x xs)
  have "is_text x \<longleftrightarrow> (\<exists>s. x = JStr s)" by (cases x) auto
  with Cons show ?case by (auto simp: Cons_eq_map_conv map_eq_Cons_conv)
qed simp

lemma require_string_array_Nil [simp]: "require_string_array v path = [] \<longleftrightarrow> (\<exists>ss. v = texts ss)"
proof (cases "elements v")
  case None
  then show ?thesis by (cases v) (auto simp: require_string_array_def texts_def)
next
  case (Some xs)
  then have "v = JArr xs" by (cases v) auto
  then show ?thesis by (auto simp: require_string_array_def texts_def text_entries_Nil)
qed

lemma all_some_map [simp]: "(\<And>x. x \<in> set xs \<Longrightarrow> f (g x) = Some (h x)) \<Longrightarrow> all_some (map f (map g xs)) = Some (map h xs)"
  by (induction xs) auto

lemma texts_of_texts [simp]: "texts_of (texts ss) = Some ss"
proof -
  have "all_some (map text_of (map JStr ss)) = Some (map id ss)" by (rule all_some_map) simp
  then show ?thesis by (simp add: texts_of_def texts_def)
qed

lemma plain_field: "plain_json v \<Longrightarrow> field v k \<noteq> JOther \<Longrightarrow> plain_json (field v k)"
  by (cases v) (auto simp: field_def list_all_iff split: option.splits dest!: map_of_SomeD)

lemma plain_has_field: "plain_json v \<Longrightarrow> has_field v k \<longleftrightarrow> field v k \<noteq> JOther"
  by (cases v) (auto simp: field_def has_field_def list_all_iff split: option.splits dest!: map_of_SomeD)

lemma image_ident_eq: "(\<And>x. x \<in> A \<Longrightarrow> f x = x) \<Longrightarrow> A = f ` A"
  by force

lemma same_json_record:
  assumes "distinct (map fst es)" "distinct (map fst gs)" "fst ` set es = fst ` set gs"
    and same: "\<And>k x. (k, x) \<in> set gs \<Longrightarrow> same_json (field (JObj es) k) x"
  shows "same_json (JObj es) (JObj gs)"
proof (rule same_obj)
  let ?f = "\<lambda>e. (fst e, the (map_of gs (fst e)))"
  have keys: "map fst (map ?f es) = map fst es" by simp
  have "same_json (snd e) (the (map_of gs (fst e)))" if "e \<in> set es" for e
  proof -
    have "fst e \<in> fst ` set gs" using that assms(3) by blast
    then obtain x where x: "map_of gs (fst e) = Some x" by (metis map_of_eq_None_iff not_None_eq)
    moreover have "map_of es (fst e) = Some (snd e)" using that assms(1) by simp
    ultimately show ?thesis using same [of "fst e" x] by (auto simp: field_def dest: map_of_SomeD)
  qed
  then show "list_all2 (\<lambda>e f. fst e = fst f \<and> same_json (snd e) (snd f)) es (map ?f es)"
    by (auto simp: list_all2_conv_all_nth)
  have "set (map ?f es) = set gs"
  proof -
    have "set gs = (\<lambda>k. (k, the (map_of gs k))) ` (fst ` set gs)"
      unfolding image_image
    proof (rule image_ident_eq)
      fix e
      assume "e \<in> set gs"
      then have "map_of gs (fst e) = Some (snd e)" using assms(2) by simp
      then show "(fst e, the (map_of gs (fst e))) = e" by simp
    qed
    also have "\<dots> = set (map ?f es)" by (simp add: assms(3) [symmetric] image_image)
    finally show ?thesis by simp
  qed
  moreover have "distinct (map ?f es)" using assms(1) by (metis keys distinct_map)
  moreover have "distinct gs" using assms(2) by (simp add: distinct_map)
  ultimately show "mset (map ?f es) = mset gs" by (rule iffD1 [OF set_eq_iff_mset_eq_distinct, rotated 2])
qed

text \<open>A record with no unknown field, whose fields are those of \<open>gs\<close>.\<close>

lemma closed_record:
  assumes "plain_json v" "is_record v" "unknown_keys v allowed path = []" "distinct (map fst gs)"
    and fields: "\<And>k x. (k, x) \<in> set gs \<Longrightarrow> k \<in> set allowed \<and> same_json (field v k) x \<and> field v k \<noteq> JOther"
    and rest: "\<And>k. k \<in> set allowed \<Longrightarrow> k \<notin> fst ` set gs \<Longrightarrow> field v k = JOther"
  shows "same_json v (JObj gs)"
proof -
  obtain es where v: "v = JObj es" using assms(2) by (cases v) (auto simp: is_record_def)
  have present: "k \<in> fst ` set es \<longleftrightarrow> field v k \<noteq> JOther" for k
    using plain_has_field [OF assms(1), of k] by (simp add: v has_field_def map_of_eq_None_iff)
  have "fst ` set es \<subseteq> set allowed" using assms(3) by (auto simp: v unknown_keys_def keys_of_def filter_empty_conv)
  moreover have "k \<in> fst ` set gs" if "k \<in> fst ` set es" "k \<in> set allowed" for k using rest [of k] present [of k] that by blast
  moreover have "k \<in> fst ` set es" if "(k, x) \<in> set gs" for k x using fields [OF that] present by blast
  ultimately have keys: "fst ` set es = fst ` set gs" by (intro equalityI subsetI) auto
  show ?thesis unfolding v
  proof (rule same_json_record [OF _ assms(4) keys])
    show "distinct (map fst es)" using assms(1) by (simp add: v)
    show "same_json (field (JObj es) k) x" if "(k, x) \<in> set gs" for k x using fields [OF that] by (simp add: v)
  qed
qed

section \<open>Each part of a validated graph is typed\<close>

named_theorems typed \<open>a validated part has a value, which is the part\<close>

lemma texts_neq [simp]: "texts ss \<noteq> JOther" "JOther \<noteq> texts ss"
  by (simp_all add: texts_def)

lemma goal_typed:
  assumes "validate_goal v path = []" "plain_json v"
  shows "\<exists>g. read_goal v = Some g \<and> go_objective g \<noteq> [] \<and> same_json v (json_of_goal g)"
proof -
  have r: "is_record v" using assms(1) by (auto simp: validate_goal_def split: if_splits)
  then obtain a ds ss bs where f: "field v ''objective'' = JStr a" "a \<noteq> []" "field v ''doneWhen'' = texts ds"
      "field v ''stopWhen'' = texts ss" "field v ''blockedWhen'' = texts bs"
      and closed: "unknown_keys v [''objective'', ''doneWhen'', ''stopWhen'', ''blockedWhen''] path = []"
    using assms(1) by (auto simp: validate_goal_def)
  let ?g = "\<lparr>go_objective = a, go_done = ds, go_stop = ss, go_blocked = bs\<rparr>"
  have "same_json v (json_of_goal ?g)" unfolding json_of_goal_def
    by (rule closed_record [OF assms(2) r closed]) (auto simp: f same_refl)
  moreover have "read_goal v = Some ?g" by (simp add: read_goal_def f)
  ultimately show ?thesis using f(2) by auto
qed

lemma is_integerE: "is_integer v \<Longrightarrow> \<exists>i. v = JNum (num i) \<and> integer_value v = i"
  by (cases v rule: is_integer.cases) (auto simp: num_def)

lemma literal_Some: "literal table v = Some x \<longleftrightarrow> (\<exists>s. v = JStr s \<and> map_of table s = Some x)"
  by (cases v) (simp_all add: literal_def)

lemma mode_text: "map_of context_modes s = Some m \<Longrightarrow> mode_text m = s"
  by (auto simp: context_modes_def split: if_splits)

lemma trust_text: "map_of context_trusts s = Some m \<Longrightarrow> trust_text m = s"
  by (auto simp: context_trusts_def split: if_splits)

lemma behaviour_text: "map_of behaviours s = Some m \<Longrightarrow> behaviour_text m = s"
  by (auto simp: behaviours_def split: if_splits)

lemma policy_typed:
  assumes "validate_context_policy v path = []" "plain_json v"
  shows "\<exists>q. read_policy v = Some q \<and> same_json v (json_of_policy q)"
proof -
  have r: "is_record v" using assms(1) by (auto simp: validate_context_policy_def split: if_splits)
  then obtain m t ins exs where f: "literal context_modes (field v ''mode'') = Some m" "literal context_trusts (field v ''trust'') = Some t"
      "field v ''include'' = texts ins" "field v ''exclude'' = texts exs"
      and closed: "unknown_keys v [''mode'', ''trust'', ''include'', ''exclude''] path = []"
    using assms(1) by (auto simp: validate_context_policy_def is_context_mode_def is_context_trust_def)
  let ?q = "\<lparr>cx_mode = m, cx_trust = t, cx_include = ins, cx_exclude = exs\<rparr>"
  have l: "field v ''mode'' = JStr (mode_text m)" "field v ''trust'' = JStr (trust_text t)"
    using f(1,2) by (auto simp: literal_Some mode_text trust_text)
  have "same_json v (json_of_policy ?q)" unfolding json_of_policy_def
    by (rule closed_record [OF assms(2) r closed]) (auto simp: f(3,4) l same_refl)
  moreover have "read_policy v = Some ?q" by (simp add: read_policy_def f)
  ultimately show ?thesis by auto
qed

lemma six_literals: "s \<in> set [a, b, c, d, e, f] \<Longrightarrow> s = d \<or> s = f \<or> s \<in> {a, b, c, e}"
  by auto

lemma kind_typed:
  assumes "is_node_kind (field v ''kind'')"
    "field v ''kind'' = JStr ''loop'' \<longrightarrow> is_integer (field v ''maximum'') \<and> 1 \<le> integer_value (field v ''maximum'')"
    "field v ''kind'' = JStr ''subgraph'' \<longrightarrow> require_string (field v ''purpose'') path = []"
  shows "\<exists>kd. read_kind v = Some kd \<and> field v ''kind'' = JStr (kind_string (node_kind_of kd))
    \<and> (case kd of LoopNode x \<Rightarrow> \<exists>i. x = num i \<and> 1 \<le> i \<and> field v ''maximum'' = JNum x
        | SubgraphNode p \<Rightarrow> p \<noteq> [] \<and> field v ''purpose'' = JStr p | _ \<Rightarrow> True)"
proof -
  from assms(1) obtain s where s: "field v ''kind'' = JStr s" "s \<in> set node_kinds" by (auto simp: is_node_kind_def)
  consider "s = ''loop''" | "s = ''subgraph''" | "s \<in> {''deterministic'', ''model'', ''gate'', ''human''}"
    using six_literals [OF s(2) [unfolded node_kinds_def]] by (elim disjE) simp_all
  then show ?thesis
  proof cases
    case 1
    have "is_integer (field v ''maximum'') \<and> 1 \<le> integer_value (field v ''maximum'')"
      by (rule mp [OF assms(2)]) (simp only: s(1) 1)
    with is_integerE obtain i where "field v ''maximum'' = JNum (num i)" "1 \<le> i" by metis
    then show ?thesis by (simp add: read_kind_def s(1) 1)
  next
    case 2
    have "require_string (field v ''purpose'') path = []" by (rule mp [OF assms(3)]) (simp only: s(1) 2)
    then obtain p where "field v ''purpose'' = JStr p" "p \<noteq> []" by auto
    then show ?thesis by (simp add: read_kind_def s(1) 2)
  next
    case 3
    then show ?thesis by (elim insertE emptyE) (simp_all add: read_kind_def s(1))
  qed
qed

lemma node_typed:
  assumes "validate_node f v i = []" "plain_json v"
  shows "\<exists>n. read_node v = Some n \<and> well_formed_node n \<and> node_id v = Some (wn_id n) \<and> same_json v (json_of_workflow_node n)"
proof -
  have r: "is_record v" using assms(1) by (auto simp: validate_node_def split: if_splits)
  note V = assms(1) [unfolded validate_node_def, simplified r, simplified Let_def, simplified]
  obtain a b where f: "field v ''id'' = JStr a" "a \<noteq> []" "field v ''label'' = JStr b" "b \<noteq> []" using V by auto
  have "plain_json (field v ''goal'')" if "field v ''goal'' \<noteq> JOther" using plain_field [OF assms(2)] that by blast
  moreover have "field v ''goal'' \<noteq> JOther" using V by (auto simp: validate_goal_def is_record_def split: if_splits)
  ultimately obtain g where g: "read_goal (field v ''goal'') = Some g" "go_objective g \<noteq> []" "same_json (field v ''goal'') (json_of_goal g)"
      "field v ''goal'' \<noteq> JOther"
    using goal_typed V by blast
  obtain kd where kd: "read_kind v = Some kd" "field v ''kind'' = JStr (kind_string (node_kind_of kd))"
      "case kd of LoopNode x \<Rightarrow> \<exists>i. x = num i \<and> 1 \<le> i \<and> field v ''maximum'' = JNum x
        | SubgraphNode p \<Rightarrow> p \<noteq> [] \<and> field v ''purpose'' = JStr p | _ \<Rightarrow> True"
    using kind_typed [of v "node_place v i @ ''.purpose''"] V by (auto split: if_splits)
  obtain c where c: "read_config v = Some c" "optional ''config'' JObj c = (if has_field v ''config'' then [(''config'', field v ''config'')] else [])"
  proof (cases "has_field v ''config''")
    case True
    with V obtain es where "field v ''config'' = JObj es"
      by (cases "field v ''config''") (auto simp: validate_config_def is_record_def split: if_splits)
    with True show ?thesis by (intro that [of "Some es"]) (simp_all add: read_config_def optional_def)
  qed (use that in \<open>simp add: read_config_def optional_def\<close>)
  let ?n = "\<lparr>wn_id = a, wn_kind = kd, wn_label = b, wn_goal = g, wn_config = c\<rparr>"
  have has: "has_field v k \<longleftrightarrow> field v k \<noteq> JOther" for k by (rule plain_has_field [OF assms(2)])
  have fields: "node_fields (field v ''kind'') = [''id'', ''kind'', ''label'', ''goal'', ''config'']
      @ (case kd of LoopNode x \<Rightarrow> [''maximum''] | SubgraphNode p \<Rightarrow> [''purpose''] | _ \<Rightarrow> [])"
    by (cases kd) (simp_all add: node_fields_def kd(2))
  have "same_json v (json_of_workflow_node ?n)" unfolding json_of_workflow_node_def
  proof (rule closed_record [OF assms(2) r])
    show "unknown_keys v ([''id'', ''kind'', ''label'', ''goal'', ''config'']
        @ (case kd of LoopNode x \<Rightarrow> [''maximum''] | SubgraphNode p \<Rightarrow> [''purpose''] | _ \<Rightarrow> [])) (node_place v i) = []"
      unfolding fields [symmetric] using V by simp
  qed (use kd(3) g(3,4) in \<open>auto simp: f kd(2) c(2) same_refl has split: workflow_kind.splits if_splits\<close>)
  moreover have "read_node v = Some ?n" by (simp add: read_node_def f g kd c)
  moreover have "well_formed_node ?n" using kd(3) by (auto simp: well_formed_node_def f g split: workflow_kind.splits)
  moreover have "node_id v = Some a" by (simp add: node_id_def f)
  ultimately show ?thesis by auto
qed

lemma plain_part: "plain_json v \<Longrightarrow> is_record (field v k) \<Longrightarrow> plain_json (field v k) \<and> field v k \<noteq> JOther"
  using plain_field [of v k] by (cases "field v k") (simp_all add: is_record_def)

lemma one_field:
  assumes "plain_json v" "is_record v" "unknown_keys v [k] path = []" "field v k = texts ss"
  shows "same_json v (JObj [(k, texts ss)])"
  by (rule closed_record [OF assms(1-3)]) (auto simp: assms(4) same_refl)

lemma require_node_Nil: "require_node v ids path what = [] \<longleftrightarrow> (\<exists>s. v = JStr s \<and> s \<noteq> [] \<and> s \<in> set ids)"
  by (cases v) (auto simp: require_node_def text_ok_def)

lemma context_typed:
  assumes "validate_context v path = []" "plain_json v"
  shows "\<exists>q t. read_policy (field v ''policy'') = Some q \<and> read_tokens (field v ''tokenEstimate'') = Some t
    \<and> (case t of None \<Rightarrow> True | Some x \<Rightarrow> \<exists>i. x = num i \<and> 0 \<le> i)
    \<and> same_json v (JObj [(''policy'', json_of_policy q), (''tokenEstimate'', case t of None \<Rightarrow> JNull | Some n \<Rightarrow> JNum n)])"
proof -
  have r: "is_record v" using assms(1) by (auto simp: validate_context_def split: if_splits)
  then have V: "unknown_keys v [''policy'', ''tokenEstimate''] path = []" "validate_context_policy (field v ''policy'') (path @ ''.policy'') = []"
      "tokens_ok (field v ''tokenEstimate'')"
    using assms(1) by (simp_all add: validate_context_def)
  have "is_record (field v ''policy'')" using V(2) by (auto simp: validate_context_policy_def split: if_splits)
  note P = plain_part [OF assms(2) this]
  obtain q where q: "read_policy (field v ''policy'') = Some q" "same_json (field v ''policy'') (json_of_policy q)"
    using policy_typed [OF V(2)] P by blast
  obtain t where t: "read_tokens (field v ''tokenEstimate'') = Some t"
      "field v ''tokenEstimate'' = (case t of None \<Rightarrow> JNull | Some n \<Rightarrow> JNum n)"
      "case t of None \<Rightarrow> True | Some x \<Rightarrow> \<exists>i. x = num i \<and> 0 \<le> i"
  proof (cases "field v ''tokenEstimate'' = JNull")
    case True
    then show ?thesis by (intro that [of None]) simp_all
  next
    case False
    with V(3) obtain i where "field v ''tokenEstimate'' = JNum (num i)" "0 \<le> i" unfolding tokens_ok_def using is_integerE by metis
    then show ?thesis by (intro that [of "Some (num i)"]) simp_all
  qed
  have "same_json v (JObj [(''policy'', json_of_policy q), (''tokenEstimate'', case t of None \<Rightarrow> JNull | Some n \<Rightarrow> JNum n)])"
    by (rule closed_record [OF assms(2) r V(1)]) (use q(2) P t(2) in \<open>auto simp: same_refl split: option.splits\<close>)
  with q(1) t(1,3) show ?thesis by blast
qed

lemma output_typed:
  assumes "validate_output v path = []" "plain_json v"
  shows "\<exists>s fs b. text_of (field v ''schema'') = Some s \<and> texts_of (field v ''requiredFields'') = Some fs
    \<and> literal behaviours (field v ''validationBehaviour'') = Some b
    \<and> same_json v (JObj [(''schema'', JStr s), (''requiredFields'', texts fs), (''validationBehaviour'', JStr (behaviour_text b))])"
proof -
  have r: "is_record v" using assms(1) by (auto simp: validate_output_def split: if_splits)
  then obtain s fs b where f: "field v ''schema'' = JStr s" "field v ''requiredFields'' = texts fs"
      "literal behaviours (field v ''validationBehaviour'') = Some b"
      and closed: "unknown_keys v [''schema'', ''requiredFields'', ''validationBehaviour''] path = []"
    using assms(1) by (auto simp: validate_output_def)
  have b: "field v ''validationBehaviour'' = JStr (behaviour_text b)" using f(3) by (auto simp: literal_Some behaviour_text)
  have "same_json v (JObj [(''schema'', JStr s), (''requiredFields'', texts fs), (''validationBehaviour'', JStr (behaviour_text b))])"
    by (rule closed_record [OF assms(2) r closed]) (auto simp: f(1,2) b same_refl)
  then show ?thesis using f by auto
qed

lemma edge_typed:
  assumes "validate_edge v i ids = []" "plain_json v"
  shows "\<exists>e. read_edge v = Some e \<and> well_formed_edge (set ids) e \<and> node_id v = Some (we_id e) \<and> same_json v (json_of_workflow_edge e)"
proof -
  let ?path = "indexed ''edges'' i"
  have r: "is_record v" using assms(1) by (auto simp: validate_edge_def Let_def split: if_splits)
  note V = assms(1) [unfolded validate_edge_def Let_def, simplified r, simplified]
  obtain k where k: "field v ''id'' = JStr k" "k \<noteq> []" using V by auto
  obtain a where a: "field v ''from'' = JStr a" "a \<in> set ids" using V by (auto simp: require_node_Nil)
  obtain b where b: "field v ''to'' = JStr b" "b \<in> set ids" using V by (auto simp: require_node_Nil)
  have recs: "is_record (field v ''input'')" "is_record (field v ''prompt'')" "is_record (field v ''context'')" "is_record (field v ''output'')"
    using V by (auto simp: validate_input_def validate_prompt_def validate_context_def validate_output_def split: if_splits)
  note P = plain_part [OF assms(2) recs(1)] plain_part [OF assms(2) recs(2)] plain_part [OF assms(2) recs(3)] plain_part [OF assms(2) recs(4)]
  obtain as where as: "field (field v ''input'') ''artifacts'' = texts as" "unknown_keys (field v ''input'') [''artifacts''] (?path @ ''.input'') = []"
    using V recs by (auto simp: validate_input_def)
  obtain ls where ls: "field (field v ''prompt'') ''protocolLayers'' = texts ls"
      "unknown_keys (field v ''prompt'') [''protocolLayers''] (?path @ ''.prompt'') = []"
    using V recs by (auto simp: validate_prompt_def)
  obtain q t where c: "read_policy (field (field v ''context'') ''policy'') = Some q" "read_tokens (field (field v ''context'') ''tokenEstimate'') = Some t"
      "case t of None \<Rightarrow> True | Some x \<Rightarrow> \<exists>i. x = num i \<and> 0 \<le> i"
      "same_json (field v ''context'') (JObj [(''policy'', json_of_policy q), (''tokenEstimate'', case t of None \<Rightarrow> JNull | Some n \<Rightarrow> JNum n)])"
    using context_typed [of "field v ''context''"] V P(3) by blast
  obtain s fs h where o: "text_of (field (field v ''output'') ''schema'') = Some s" "texts_of (field (field v ''output'') ''requiredFields'') = Some fs"
      "literal behaviours (field (field v ''output'') ''validationBehaviour'') = Some h"
      "same_json (field v ''output'') (JObj [(''schema'', JStr s), (''requiredFields'', texts fs), (''validationBehaviour'', JStr (behaviour_text h))])"
    using output_typed [of "field v ''output''"] V P(4) by blast
  let ?e = "\<lparr>we_id = k, we_from = a, we_to = b, we_artifacts = as, we_layers = ls, we_policy = q, we_tokens = t, we_schema = s, we_fields = fs, we_behaviour = h\<rparr>"
  have "same_json v (json_of_workflow_edge ?e)" unfolding json_of_workflow_edge_def
  proof (rule closed_record [OF assms(2) r, of "[''id'', ''from'', ''to'', ''input'', ''prompt'', ''context'', ''output'']"])
    show "unknown_keys v [''id'', ''from'', ''to'', ''input'', ''prompt'', ''context'', ''output''] ?path = []" using V by simp
  qed (use P c(4) o(4) one_field [OF _ recs(1) as(2,1)] one_field [OF _ recs(2) ls(2,1)] in \<open>auto simp: k a b same_refl\<close>)
  moreover have "read_edge v = Some ?e" by (simp add: read_edge_def k a b as ls c o)
  moreover have "well_formed_edge (set ids) ?e" using c(3) by (simp add: well_formed_edge_def k a b)
  moreover have "node_id v = Some k" by (simp add: node_id_def k)
  ultimately show ?thesis by auto
qed

lemma nodes_typed:
  assumes "validate_nodes f i vs seen = ([], ids)" "list_all plain_json vs" "distinct seen"
  shows "\<exists>ns. all_some (map read_node vs) = Some ns \<and> list_all well_formed_node ns \<and> ids = seen @ map wn_id ns \<and> distinct ids
    \<and> list_all2 same_json vs (map json_of_workflow_node ns)"
  using assms
proof (induction vs arbitrary: i seen)
  case Nil
  then show ?case by simp
next
  case (Cons v vs)
  from Cons.prems(1) have "validate_node f v i = []" by (auto simp: Let_def split: prod.splits option.splits)
  with node_typed Cons.prems(2) obtain n where n: "read_node v = Some n" "well_formed_node n" "node_id v = Some (wn_id n)"
      "same_json v (json_of_workflow_node n)" by fastforce
  from Cons.prems(1) have new: "wn_id n \<notin> set seen" and rest: "validate_nodes f (Suc i) vs (seen @ [wn_id n]) = ([], ids)"
    by (auto simp: n(3) set_add_def Let_def split: prod.splits if_splits)
  from Cons.IH [OF rest] Cons.prems(2,3) new n show ?case by auto
qed

lemma edges_typed:
  assumes "validate_edges ids i vs seen = []" "list_all plain_json vs" "distinct seen"
  shows "\<exists>es. all_some (map read_edge vs) = Some es \<and> list_all (well_formed_edge (set ids)) es \<and> distinct (seen @ map we_id es)
    \<and> list_all2 same_json vs (map json_of_workflow_edge es)"
  using assms
proof (induction vs arbitrary: i seen)
  case Nil
  then show ?case by simp
next
  case (Cons v vs)
  from Cons.prems(1) have "validate_edge v i ids = []" by (auto simp: Let_def split: prod.splits option.splits)
  with edge_typed Cons.prems(2) obtain e where e: "read_edge v = Some e" "well_formed_edge (set ids) e" "node_id v = Some (we_id e)"
      "same_json v (json_of_workflow_edge e)" by fastforce
  from Cons.prems(1) have new: "we_id e \<notin> set seen" and rest: "validate_edges ids (Suc i) vs (seen @ [we_id e]) = []"
    by (auto simp: e(3) set_add_def Let_def split: prod.splits if_splits)
  from Cons.IH [OF rest] Cons.prems(2,3) new e show ?case by auto
qed

section \<open>The schema\<close>

text \<open>
  C18. A JSON value that passes \<open>validateWorkflow\<close> is, up to the order of keys, the JSON of the \<open>WorkflowGraph\<close> it is
  cast to: every field has its type, no field is missing or added anywhere, node and edge ids are unique, the entry
  node and both ends of every edge exist, a loop has a positive integer maximum and a token estimate is a natural number.
\<close>
theorem validated_graph_is_typed:
  assumes "plain_json v" "validate_workflow f v = []"
  shows "\<exists>g. read_workflow v = Some g \<and> well_formed_graph g \<and> same_json v (json_of_workflow g)"
proof -
  have r: "is_record v" using assms(2) by (auto simp: validate_workflow_def split: if_splits)
  note V = assms(2) [unfolded validate_workflow_def, simplified r, simplified]
  have "elements (field v ''nodes'') \<noteq> None" "elements (field v ''edges'') \<noteq> None" using V by (auto split: prod.splits option.splits)
  then obtain xs ys where e: "field v ''nodes'' = JArr xs" "field v ''edges'' = JArr ys" by (auto elim!: elements.elims)
  obtain ds ids where loop: "validate_nodes f 0 xs [] = (ds, ids)" by (cases "validate_nodes f 0 xs []")
  note W = V [unfolded e elements.simps option.case loop prod.case, simplified]
  obtain i a where ia: "field v ''id'' = JStr i" "i \<noteq> []" "field v ''entryNodeId'' = JStr a" "a \<noteq> []" using W by auto
  have goal: "is_record (field v ''goal'')" using W by (auto simp: validate_goal_def split: if_splits)
  obtain g where g: "read_goal (field v ''goal'') = Some g" "same_json (field v ''goal'') (json_of_goal g)" "field v ''goal'' \<noteq> JOther"
    using goal_typed [of "field v ''goal''" "''$.goal''"] W plain_part [OF assms(1) goal] by blast
  have plain: "list_all plain_json xs" "list_all plain_json ys"
    using plain_field [OF assms(1), of "''nodes''"] plain_field [OF assms(1), of "''edges''"] e by simp_all
  obtain ns where ns: "all_some (map read_node xs) = Some ns" "list_all well_formed_node ns" "ids = map wn_id ns" "distinct ids"
      "list_all2 same_json xs (map json_of_workflow_node ns)"
    using nodes_typed [of f 0 xs "[]" ids] loop W plain(1) by auto
  obtain es where es: "all_some (map read_edge ys) = Some es" "list_all (well_formed_edge (set ids)) es" "distinct (map we_id es)"
      "list_all2 same_json ys (map json_of_workflow_edge es)"
    using edges_typed [of ids 0 ys "[]"] W plain(2) by auto
  have entry: "a \<in> set ids" using W ia by (simp add: text_ok_def require_node_Nil)
  let ?g = "\<lparr>wg_id = i, wg_goal = g, wg_entry = a, wg_nodes = ns, wg_edges = es\<rparr>"
  have "same_json v (json_of_workflow ?g)" unfolding json_of_workflow_def
    by (rule closed_record [OF assms(1) r, of "[''schemaVersion'', ''id'', ''goal'', ''entryNodeId'', ''nodes'', ''edges'']" "''$''"])
      (use W g ia e ns(5) es(4) in \<open>auto intro: same_refl same_arr\<close>)
  moreover have "read_workflow v = Some ?g" by (simp add: read_workflow_def ia g e ns(1) es(1))
  moreover have "well_formed_graph ?g" using ns es entry ia by (simp add: well_formed_graph_def)
  ultimately show ?thesis by blast
qed

definition goal_example :: json where
  "goal_example = JObj [(''doneWhen'', JArr []), (''objective'', JStr ''o''), (''stopWhen'', JArr []), (''blockedWhen'', JArr [JStr ''b''])]"

definition graph_example :: json where
  "graph_example = JObj [(''schemaVersion'', JNum (num 1)), (''entryNodeId'', JStr ''a''), (''id'', JStr ''g''), (''goal'', goal_example),
     (''nodes'', JArr [
        JObj [(''id'', JStr ''a''), (''kind'', JStr ''deterministic''), (''label'', JStr ''A''), (''goal'', goal_example)],
        JObj [(''id'', JStr ''l''), (''maximum'', JNum (num 2)), (''kind'', JStr ''loop''), (''label'', JStr ''L''), (''goal'', goal_example)]]),
     (''edges'', JArr [
        JObj [(''id'', JStr ''e''), (''from'', JStr ''a''), (''to'', JStr ''l''), (''input'', JObj [(''artifacts'', JArr [])]),
          (''prompt'', JObj [(''protocolLayers'', JArr [])]),
          (''context'', JObj [(''tokenEstimate'', JNull), (''policy'', JObj [(''mode'', JStr ''none''), (''trust'', JStr ''derived''),
             (''include'', JArr []), (''exclude'', JArr [])])]),
          (''output'', JObj [(''schema'', JStr ''json''), (''requiredFields'', JArr []), (''validationBehaviour'', JStr ''strict'')])]])]"

theorem validated_graph_is_typed_witness:
  "(\<exists>g. read_workflow graph_example = Some g \<and> well_formed_graph g \<and> same_json graph_example (json_of_workflow g))
     \<and> map_option (\<lambda>g. (map wn_kind (wg_nodes g), map we_to (wg_edges g))) (read_workflow graph_example)
        = Some ([DeterministicNode, LoopNode (num 2)], [''l''])"
proof
  have "plain_json graph_example" "validate_workflow (\<lambda>n. []) graph_example = []" by code_simp+
  then show "\<exists>g. read_workflow graph_example = Some g \<and> well_formed_graph g \<and> same_json graph_example (json_of_workflow g)"
    by (rule validated_graph_is_typed)
  show "map_option (\<lambda>g. (map wn_kind (wg_nodes g), map we_to (wg_edges g))) (read_workflow graph_example)
        = Some ([DeterministicNode, LoopNode (num 2)], [''l''])" by code_simp
qed

end
