(* ===== verification/Graph_Structure.thy ===== *)
theory Graph_Structure
  imports Graph_Schema
begin

text \<open>
  Structural checks of a schema-valid graph: \<open>packages/workflow/src/graph-structure.ts\<close>, with the depth-first
  search for strongly connected components (\<open>cycles\<close>). The recursion of \<open>visit\<close> takes fuel; as much as there are
  nodes is enough, because every call enters a node for the first time.
\<close>

section \<open>Diagnostics of the edges and of the loops\<close>

record graph_diagnostic =
  gd_code :: string
  gd_path :: string
  gd_message :: string

definition finding :: "string \<Rightarrow> string \<Rightarrow> string \<Rightarrow> graph_diagnostic" where
  "finding code path message = \<lparr>gd_code = code, gd_path = path, gd_message = message\<rparr>"

type_synonym adjacency = "(string \<times> string list) list"

definition workflow_nodes :: "workflow_graph \<Rightarrow> (string \<times> workflow_node) list" where
  "workflow_nodes g = fold (\<lambda>n. AList.update (wn_id n) n) (wg_nodes g) []"

definition no_edges :: "workflow_graph \<Rightarrow> adjacency" where
  "no_edges g = fold (\<lambda>n. AList.update (wn_id n) []) (wg_nodes g) []"

definition neighbours :: "adjacency \<Rightarrow> string \<Rightarrow> string list" where
  "neighbours out n = (case map_of out n of None \<Rightarrow> [] | Some ts \<Rightarrow> ts)"

text \<open>\<open>m.get(k)?.push(v)\<close>\<close>

definition push_to :: "string \<Rightarrow> string \<Rightarrow> adjacency \<Rightarrow> adjacency" where
  "push_to k v m = (case map_of m k of None \<Rightarrow> m | Some vs \<Rightarrow> AList.update k (vs @ [v]) m)"

definition edge_place :: "workflow_edge \<Rightarrow> nat \<Rightarrow> string" where
  "edge_place e i = indexed ''edges'' i @ ''('' @ we_id e @ '')''"

definition edge_pair :: "workflow_edge \<Rightarrow> string" where
  "edge_pair e = we_from e @ CHR 0x00 # we_to e"

definition escalates :: "workflow_graph \<Rightarrow> workflow_edge \<Rightarrow> bool" where
  "escalates g e \<longleftrightarrow> (case map_of (workflow_nodes g) (we_from e) of None \<Rightarrow> False | Some n \<Rightarrow> wn_kind n = ModelNode)
     \<and> cx_trust (we_policy e) = TrustSystem"

text \<open>The loop over the edges: the diagnostics, and the outgoing edges of every node.\<close>

fun structure_edges :: "workflow_graph \<Rightarrow> nat \<Rightarrow> workflow_edge list \<Rightarrow> string list \<Rightarrow> adjacency \<Rightarrow> graph_diagnostic list \<times> adjacency" where
  "structure_edges g i [] pairs out = ([], out)"
| "structure_edges g i (e # es) pairs out =
     (let path = edge_place e i; known = map fst (workflow_nodes g) in
      if we_from e \<notin> set known \<or> we_to e \<notin> set known then structure_edges g (Suc i) es pairs out
      else if we_from e = we_to e then
        (let (ds, out') = structure_edges g (Suc i) es pairs out in
         (finding ''SELF_LOOP'' path (''Edge '' @ we_id e @ '' connects '' @ we_from e
            @ '' to itself; iteration must be a loop node with an explicit maximum.'') # ds, out'))
      else
        (let (ds, out') = structure_edges g (Suc i) es (set_add (edge_pair e) pairs) (push_to (we_from e) (we_to e) out) in
         ((if edge_pair e \<in> set pairs then [finding ''DUPLICATE_EDGE'' path (''A second edge connects '' @ we_from e @ '' to '' @ we_to e @ ''.'')] else [])
          @ (if we_to e = wg_entry g then [finding ''EDGE_INTO_ENTRY'' path (''Edge '' @ we_id e @ '' targets the entry node '' @ we_to e
               @ ''; the entry node has no predecessors.'')] else [])
          @ (if escalates g e then [finding ''CONTEXT_TRUST_ESCALATION'' (path @ ''.context.policy.trust'') (''Edge '' @ we_id e
               @ '' carries model output from '' @ we_from e @ '' as system-trusted context.'')] else [])
          @ ds, out')))"

definition workflow_node_place :: "workflow_node \<Rightarrow> nat \<Rightarrow> string" where
  "workflow_node_place n i = indexed ''nodes'' i @ ''('' @ wn_id n @ '')''"

text \<open>The code prints the two numbers; \<open>numstr\<close> is their decimal text.\<close>

definition loop_finding :: "(number \<Rightarrow> string) \<Rightarrow> int \<Rightarrow> workflow_node \<Rightarrow> nat \<Rightarrow> graph_diagnostic list" where
  "loop_finding f most n i =
     (case wn_kind n of
        LoopNode x \<Rightarrow>
          if num_less (num most) x then
            [finding ''LOOP_BOUND_EXCEEDED'' (workflow_node_place n i @ ''.maximum'')
               (''Loop '' @ wn_id n @ '' allows '' @ f x @ '' iterations; at most '' @ f (num most) @ '' can execute.'')]
          else []
      | _ \<Rightarrow> [])"

text \<open>\<open>xs.forEach((x, index) => diagnostics.push(...))\<close>\<close>

fun for_each :: "('a \<Rightarrow> nat \<Rightarrow> 'd list) \<Rightarrow> nat \<Rightarrow> 'a list \<Rightarrow> 'd list" where
  "for_each f i [] = []"
| "for_each f i (x # xs) = f x i @ for_each f (Suc i) xs"

section \<open>Reachability\<close>

function reach :: "adjacency \<Rightarrow> string list \<Rightarrow> string list \<Rightarrow> string list" where
  "reach out [] seen = seen"
| "reach out (n # queue) seen =
     (if n \<in> set seen then reach out queue seen else reach out (queue @ neighbours out n) (seen @ [n]))"
  by pat_completeness auto
termination
proof (relation "measures [\<lambda>(out, _, seen). card (fst ` set out - set seen), \<lambda>(_, queue, _). length queue]", goal_cases)
  case (3 out n queue seen)
  show ?case
  proof (cases "n \<in> fst ` set out")
    case True
    then have "fst ` set out - set (seen @ [n]) \<subset> fst ` set out - set seen" using 3 by auto
    then show ?thesis by (simp add: psubset_card_mono)
  next
    case False
    then have "fst ` set out - set (seen @ [n]) = fst ` set out - set seen" by auto
    moreover have "neighbours out n = []" using False by (simp add: neighbours_def map_of_eq_None_iff [THEN iffD2])
    ultimately show ?thesis by simp
  qed
qed simp_all

section \<open>Strongly connected components\<close>

text \<open>The closure of \<open>cycles\<close>; the stack has its top first.\<close>

record tarjan =
  tj_index :: "(string \<times> nat) list"
  tj_low :: "(string \<times> nat) list"
  tj_stack :: "string list"
  tj_on_stack :: "string list"
  tj_found :: "string list list"
  tj_counter :: nat

definition got :: "(string \<times> nat) list \<Rightarrow> string \<Rightarrow> nat" where
  "got m k = (case map_of m k of None \<Rightarrow> 0 | Some v \<Rightarrow> v)"

definition enter :: "string \<Rightarrow> tarjan \<Rightarrow> tarjan" where
  "enter x s = s\<lparr>tj_index := AList.update x (tj_counter s) (tj_index s), tj_low := AList.update x (tj_counter s) (tj_low s),
     tj_counter := tj_counter s + 1, tj_stack := x # tj_stack s, tj_on_stack := set_add x (tj_on_stack s)\<rparr>"

definition lower :: "string \<Rightarrow> nat \<Rightarrow> tarjan \<Rightarrow> tarjan" where
  "lower x v s = s\<lparr>tj_low := AList.update x (min (got (tj_low s) x) v) (tj_low s)\<rparr>"

fun visit_loop :: "(string \<Rightarrow> tarjan \<Rightarrow> tarjan option) \<Rightarrow> string \<Rightarrow> string list \<Rightarrow> tarjan \<Rightarrow> tarjan option" where
  "visit_loop v x [] s = Some s"
| "visit_loop v x (y # ys) s =
     (if map_of (tj_index s) y = None then Option.bind (v y s) (\<lambda>t. visit_loop v x ys (lower x (got (tj_low t) y) t))
      else if y \<in> set (tj_on_stack s) then visit_loop v x ys (lower x (got (tj_index s) y) s)
      else visit_loop v x ys s)"

definition leave :: "string list \<Rightarrow> string \<Rightarrow> tarjan \<Rightarrow> tarjan" where
  "leave order x s =
     (if map_of (tj_low s) x \<noteq> map_of (tj_index s) x then s
      else let component = takeWhile (\<lambda>y. y \<noteq> x) (tj_stack s) @ [x] in
        s\<lparr>tj_stack := tl (dropWhile (\<lambda>y. y \<noteq> x) (tj_stack s)), tj_on_stack := filter (\<lambda>y. y \<notin> set component) (tj_on_stack s),
          tj_found := tj_found s @ (if 1 < length component then [filter (\<lambda>y. y \<in> set component) order] else [])\<rparr>)"

primrec visit :: "string list \<Rightarrow> adjacency \<Rightarrow> nat \<Rightarrow> string \<Rightarrow> tarjan \<Rightarrow> tarjan option" where
  "visit order out 0 = (\<lambda>x s. None)"
| "visit order out (Suc n) = (\<lambda>x s. map_option (leave order x) (visit_loop (visit order out n) x (neighbours out x) (enter x s)))"

fun visit_all :: "string list \<Rightarrow> adjacency \<Rightarrow> string list \<Rightarrow> tarjan \<Rightarrow> tarjan option" where
  "visit_all order out [] s = Some s"
| "visit_all order out (x # xs) s =
     (if map_of (tj_index s) x = None then Option.bind (visit order out (length order) x s) (visit_all order out xs)
      else visit_all order out xs s)"

definition no_visits :: tarjan where
  "no_visits = \<lparr>tj_index = [], tj_low = [], tj_stack = [], tj_on_stack = [], tj_found = [], tj_counter = 0\<rparr>"

fun index_of :: "string list \<Rightarrow> string \<Rightarrow> int" where
  "index_of [] x = -1"
| "index_of (y # ys) x = (if y = x then 0 else let i = index_of ys x in if i < 0 then i else i + 1)"

definition cycles :: "string list \<Rightarrow> adjacency \<Rightarrow> string list list option" where
  "cycles order out = map_option (\<lambda>s. sort_by (on_key (\<le>) (\<lambda>c. index_of order (hd c))) (tj_found s)) (visit_all order out order no_visits)"

definition unreachable_nodes :: "workflow_graph \<Rightarrow> adjacency \<Rightarrow> graph_diagnostic list" where
  "unreachable_nodes g out =
     (if wg_entry g \<notin> set (map fst (workflow_nodes g)) then []
      else let seen = reach out [wg_entry g] [] in
        for_each (\<lambda>n i. if wn_id n \<in> set seen then [] else [finding ''UNREACHABLE_NODE'' (workflow_node_place n i)
          (''Node '' @ wn_id n @ '' is not reachable from the entry node '' @ wg_entry g @ ''.'')]) 0 (wg_nodes g))"

definition validate_graph_structure :: "(number \<Rightarrow> string) \<Rightarrow> workflow_graph \<Rightarrow> int \<Rightarrow> graph_diagnostic list option" where
  "validate_graph_structure f g most =
     (let (ds, out) = structure_edges g 0 (wg_edges g) [] (no_edges g) in
      map_option (\<lambda>cs. ds @ for_each (loop_finding f most) 0 (wg_nodes g) @ unreachable_nodes g out
          @ map (\<lambda>c. finding ''UNBOUNDED_CYCLE'' ''$.edges'' (''Nodes '' @ join_with '', '' c
              @ '' form an edge cycle with no explicit bound; express iteration as a loop node with a maximum.'')) cs)
        (cycles (map wn_id (wg_nodes g)) out))"

section \<open>The search returns\<close>

definition entered :: "tarjan \<Rightarrow> string set" where
  "entered s = fst ` set (tj_index s)"

lemma entered_None: "map_of (tj_index s) x = None \<longleftrightarrow> x \<notin> entered s"
  by (simp add: entered_def map_of_eq_None_iff)

lemma entered_simps [simp]:
  "entered (enter x s) = insert x (entered s)" "entered (lower x v s) = entered s" "entered (leave order x s) = entered s"
  by (simp_all add: entered_def enter_def lower_def leave_def Let_def)

lemma visit_loop_total:
  assumes "\<And>y t. y \<in> set ys \<Longrightarrow> E \<subseteq> entered t \<Longrightarrow> y \<notin> entered t \<Longrightarrow> \<exists>u. v y t = Some u \<and> insert y (entered t) \<subseteq> entered u"
    and "E \<subseteq> entered s"
  shows "\<exists>u. visit_loop v x ys s = Some u \<and> entered s \<subseteq> entered u"
  using assms
proof (induction ys arbitrary: s)
  case Nil
  then show ?case by simp
next
  case (Cons y ys)
  show ?case
  proof (cases "y \<in> entered s")
    case True
    then have "map_of (tj_index s) y \<noteq> None" by (simp add: entered_None)
    then show ?thesis using Cons.IH [of "if y \<in> set (tj_on_stack s) then lower x (got (tj_index s) y) s else s"] Cons.prems by auto
  next
    case False
    then obtain u where u: "v y s = Some u" "insert y (entered s) \<subseteq> entered u" using Cons.prems by force
    have "E \<subseteq> entered (lower x (got (tj_low u) y) u)" using u(2) Cons.prems(2) by auto
    with Cons.IH Cons.prems(1) obtain w where "visit_loop v x ys (lower x (got (tj_low u) y) u) = Some w" "entered u \<subseteq> entered w"
      by (metis entered_simps(2) list.set_intros(2))
    with u False show ?thesis by (auto simp: entered_None)
  qed
qed

lemma visit_total:
  assumes "\<And>k. set (neighbours out k) \<subseteq> set order"
  shows "x \<in> set order \<Longrightarrow> x \<notin> entered s \<Longrightarrow> card (set order - entered s) \<le> n \<Longrightarrow>
    \<exists>u. visit order out n x s = Some u \<and> insert x (entered s) \<subseteq> entered u"
proof (induction n arbitrary: x s)
  case 0
  then show ?case by auto
next
  case (Suc n)
  have "\<exists>u. visit order out n y t = Some u \<and> insert y (entered t) \<subseteq> entered u"
    if "y \<in> set (neighbours out x)" "insert x (entered s) \<subseteq> entered t" "y \<notin> entered t" for y t
  proof (rule Suc.IH [OF _ that(3)])
    show "y \<in> set order" using assms that(1) by blast
    have "set order - entered t \<subset> set order - entered s" using that(2) Suc.prems(1,2) by auto
    then have "card (set order - entered t) < card (set order - entered s)" by (simp add: psubset_card_mono)
    then show "card (set order - entered t) \<le> n" using Suc.prems(3) by simp
  qed
  from visit_loop_total [OF this, of "neighbours out x" "insert x (entered s)" "enter x s" x] show ?case by auto
qed

lemma visit_all_total:
  assumes "\<And>k. set (neighbours out k) \<subseteq> set order"
  shows "set xs \<subseteq> set order \<Longrightarrow> \<exists>u. visit_all order out xs s = Some u"
proof (induction xs arbitrary: s)
  case (Cons x xs)
  have "card (set order - entered s) \<le> length order" by (meson card_length card_mono finite_set Diff_subset le_trans)
  with visit_total [OF assms, of x s "length order"] Cons show ?case by (auto simp: entered_None)
qed simp

lemma cycles_total: "(\<And>k. set (neighbours out k) \<subseteq> set order) \<Longrightarrow> \<exists>cs. cycles order out = Some cs"
  using visit_all_total [of out order order no_visits] by (auto simp: cycles_def)

section \<open>Without a component there is no cycle\<close>

definition finished :: "tarjan \<Rightarrow> string set" where
  "finished s = entered s - set (tj_stack s)"

abbreviation number_of :: "tarjan \<Rightarrow> string \<Rightarrow> nat" where
  "number_of s \<equiv> got (tj_index s)"

abbreviation low_of :: "tarjan \<Rightarrow> string \<Rightarrow> nat" where
  "low_of s \<equiv> got (tj_low s)"

text \<open>Of the search so far: the stack, and the finished nodes, which are closed and ranked.\<close>

definition search_inv :: "adjacency \<Rightarrow> tarjan \<Rightarrow> bool" where
  "search_inv out s \<longleftrightarrow> distinct (tj_stack s) \<and> set (tj_stack s) \<subseteq> entered s \<and> set (tj_on_stack s) = set (tj_stack s)
     \<and> fst ` set (tj_low s) = entered s \<and> (\<forall>x \<in> entered s. number_of s x < tj_counter s)
     \<and> sorted_wrt (\<lambda>a b. number_of s b < number_of s a) (tj_stack s)
     \<and> (\<exists>rank :: string \<Rightarrow> nat. \<forall>x \<in> finished s. \<forall>y \<in> set (neighbours out x). y \<in> finished s \<and> rank y < rank x)"

text \<open>What a visit leaves of the state before it.\<close>

definition extends :: "tarjan \<Rightarrow> tarjan \<Rightarrow> string list \<Rightarrow> bool" where
  "extends s t pre \<longleftrightarrow> entered s \<subseteq> entered t \<and> (\<forall>x \<in> entered s. number_of t x = number_of s x)
     \<and> tj_counter s \<le> tj_counter t \<and> tj_stack t = pre @ tj_stack s \<and> set pre \<inter> entered s = {}"

definition visited :: "string \<Rightarrow> tarjan \<Rightarrow> tarjan \<Rightarrow> bool" where
  "visited x s t \<longleftrightarrow> x \<in> entered t \<and> (\<forall>y \<in> entered s. low_of t y = low_of s y)
     \<and> (\<exists>pre. extends s t pre
          \<and> (if pre = [] then low_of t x = tj_counter s
             else x \<in> set pre \<and> (\<exists>y \<in> set (tj_stack s). low_of t x = number_of s y)))"

lemma got_update [simp]: "got (AList.update k v m) x = (if x = k then v else got m x)"
  by (simp add: got_def)

lemma enter_fields [simp]:
  "tj_stack (enter x s) = x # tj_stack s" "tj_counter (enter x s) = tj_counter s + 1"
  "number_of (enter x s) y = (if y = x then tj_counter s else number_of s y)"
  "low_of (enter x s) y = (if y = x then tj_counter s else low_of s y)"
  "tj_found (enter x s) = tj_found s" "set (tj_on_stack (enter x s)) = insert x (set (tj_on_stack s))"
  by (simp_all add: enter_def)

lemma lower_fields [simp]:
  "tj_stack (lower x v s) = tj_stack s" "tj_counter (lower x v s) = tj_counter s" "tj_index (lower x v s) = tj_index s"
  "low_of (lower x v s) y = (if y = x then min (low_of s x) v else low_of s y)"
  "tj_found (lower x v s) = tj_found s" "tj_on_stack (lower x v s) = tj_on_stack s"
  by (simp_all add: lower_def)

lemma finished_simps:
  "x \<notin> entered s \<Longrightarrow> set (tj_stack s) \<subseteq> entered s \<Longrightarrow> finished (enter x s) = finished s"
  "finished (lower x v s) = finished s"
  by (auto simp: finished_def)

lemma search_inv_enter:
  assumes "search_inv out s" "x \<notin> entered s"
  shows "search_inv out (enter x s)"
proof -
  have fin: "finished (enter x s) = finished s" using assms by (intro finished_simps(1)) (simp_all add: search_inv_def)
  have "fst ` set (tj_low (enter x s)) = insert x (fst ` set (tj_low s))" by (simp add: enter_def)
  moreover have "sorted_wrt (\<lambda>a b. number_of (enter x s) b < number_of (enter x s) a) (tj_stack s)"
    by (rule sorted_wrt_mono_rel [of _ "\<lambda>a b. number_of s b < number_of s a"]) (use assms in \<open>auto simp: search_inv_def\<close>)
  ultimately show ?thesis using assms unfolding search_inv_def fin by (auto simp: less_Suc_eq)
qed

lemma search_inv_lower:
  assumes "search_inv out s" "x \<in> entered s"
  shows "search_inv out (lower x v s)"
proof -
  have "fst ` set (tj_low (lower x v s)) = insert x (fst ` set (tj_low s))" by (simp add: lower_def)
  then show ?thesis using assms unfolding search_inv_def finished_simps(2) by auto
qed

lemma extends_trans: "extends s t p \<Longrightarrow> extends t u q \<Longrightarrow> extends s u (q @ p)"
  unfolding extends_def by auto

lemma extends_lower [simp]: "extends s (lower x v t) p = extends s t p"
  by (simp add: extends_def)

lemma extends_enter: "x \<notin> entered s \<Longrightarrow> extends s (enter x s) [x]"
  by (auto simp: extends_def)

text \<open>While \<open>x\<close> runs: entered after \<open>s\<close>, with the nodes \<open>ab\<close> above it on the stack and its successors in \<open>D\<close> seen.\<close>

definition running :: "adjacency \<Rightarrow> string \<Rightarrow> tarjan \<Rightarrow> string set \<Rightarrow> tarjan \<Rightarrow> bool" where
  "running out x s D t \<longleftrightarrow> search_inv out s \<and> search_inv out t \<and> number_of t x = tj_counter s \<and> (\<forall>y \<in> entered s. low_of t y = low_of s y)
     \<and> low_of t x \<le> tj_counter s \<and> (low_of t x = tj_counter s \<or> (\<exists>y \<in> set (tj_stack s). low_of t x = number_of s y))
     \<and> (\<exists>ab. extends s t (ab @ [x])
          \<and> (\<forall>y \<in> D. y \<in> finished t \<or> y \<in> set ab \<or> y \<in> set (tj_stack s) \<and> low_of t x \<le> number_of s y))"

definition good_visitor :: "adjacency \<Rightarrow> (string \<Rightarrow> tarjan \<Rightarrow> tarjan option) \<Rightarrow> bool" where
  "good_visitor out v \<longleftrightarrow> (\<forall>y t u. v y t = Some u \<longrightarrow> (\<exists>zs. tj_found u = tj_found t @ zs)
     \<and> (y \<notin> entered t \<longrightarrow> search_inv out t \<longrightarrow> tj_found u = [] \<longrightarrow> search_inv out u \<and> visited y t u))"

lemma running_facts:
  assumes "search_inv out s" "search_inv out t" "extends s t (ab @ [x])" "number_of t x = tj_counter s"
  shows "x \<in> entered t" "x \<notin> entered s" "y \<in> set ab \<Longrightarrow> tj_counter s < number_of t y" "y \<in> set (tj_stack s) \<Longrightarrow> y \<in> entered s"
    "y \<in> entered s \<Longrightarrow> number_of t y = number_of s y \<and> number_of s y < tj_counter s" "tj_stack t = ab @ x # tj_stack s"
proof -
  show st: "tj_stack t = ab @ x # tj_stack s" using assms(3) by (simp add: extends_def)
  have sorted: "sorted_wrt (\<lambda>a b. number_of t b < number_of t a) (tj_stack t)" using assms(2) by (simp add: search_inv_def)
  show "x \<in> entered t" using assms(2) st by (auto simp: search_inv_def)
  show "x \<notin> entered s" using assms(3) by (auto simp: extends_def)
  show "y \<in> set ab \<Longrightarrow> tj_counter s < number_of t y" using sorted by (auto simp: st sorted_wrt_append assms(4))
  show "y \<in> set (tj_stack s) \<Longrightarrow> y \<in> entered s" using assms(1) by (auto simp: search_inv_def)
  show "y \<in> entered s \<Longrightarrow> number_of t y = number_of s y \<and> number_of s y < tj_counter s"
    using assms(1,3) by (simp add: extends_def search_inv_def)
qed

text \<open>A successor that is already entered.\<close>

lemma running_old:
  assumes run: "running out x s D t" and y: "y \<in> entered t" "y \<noteq> x"
  shows "running out x s (insert y D) (if y \<in> set (tj_on_stack t) then lower x (number_of t y) t else t)"
proof -
  from run obtain ab where R: "search_inv out s" "search_inv out t" "number_of t x = tj_counter s" "extends s t (ab @ [x])"
    and low: "\<And>z. z \<in> entered s \<Longrightarrow> low_of t z = low_of s z" "low_of t x \<le> tj_counter s"
      "low_of t x = tj_counter s \<or> (\<exists>z \<in> set (tj_stack s). low_of t x = number_of s z)"
    and D: "\<And>z. z \<in> D \<Longrightarrow> z \<in> finished t \<or> z \<in> set ab \<or> z \<in> set (tj_stack s) \<and> low_of t x \<le> number_of s z"
    unfolding running_def by blast
  note F = running_facts [OF R(1,2,4,3)]
  have on: "set (tj_on_stack t) = set (tj_stack t)" using R(2) by (simp add: search_inv_def)
  show ?thesis
  proof (cases "y \<in> set (tj_stack t)")
    case False
    then have "y \<in> finished t" using y(1) by (simp add: finished_def)
    then show ?thesis using run False on unfolding running_def by auto
  next
    case True
    let ?u = "lower x (number_of t y) t"
    have low': "low_of ?u x = min (low_of t x) (number_of t y)" by simp
    have inv: "search_inv out ?u" by (rule search_inv_lower [OF R(2) F(1)])
    have keep: "low_of ?u z = low_of s z" if "z \<in> entered s" for z using low(1) [OF that] F(2) that by auto
    have fin: "finished ?u = finished t" by (rule finished_simps(2))
    from True y(2) consider "y \<in> set ab" | "y \<in> set (tj_stack s)" by (auto simp: F(6))
    then have "running out x s (insert y D) ?u"
    proof cases
      case 1
      then have same: "low_of ?u x = low_of t x" using F(3) low(2) by fastforce
      show ?thesis unfolding running_def same fin using R inv keep low(2,3) D 1 by (auto intro!: exI [of _ ab])
    next
      case 2
      then have n: "number_of t y = number_of s y" "number_of s y < tj_counter s" using F(4,5) by blast+
      have "low_of ?u x \<le> tj_counter s" using low(2) by simp
      moreover have "low_of ?u x = tj_counter s \<or> (\<exists>z \<in> set (tj_stack s). low_of ?u x = number_of s z)"
        using low(3) 2 n by (auto simp: min_def)
      moreover have "z \<in> finished t \<or> z \<in> set ab \<or> z \<in> set (tj_stack s) \<and> low_of ?u x \<le> number_of s z" if "z \<in> insert y D" for z
        using D [of z] that 2 n(1) by (auto simp: min_le_iff_disj)
      ultimately show ?thesis unfolding running_def fin using R inv keep by (auto intro!: exI [of _ ab])
    qed
    then show ?thesis using True on by simp
  qed
qed

text \<open>A successor that is entered now.\<close>

lemma running_new:
  assumes run: "running out x s D t" and y: "y \<notin> entered t" and inv: "search_inv out u" and vis: "visited y t u"
  shows "running out x s (insert y D) (lower x (low_of u y) u)"
proof -
  from run obtain ab where R: "search_inv out s" "search_inv out t" "number_of t x = tj_counter s" "extends s t (ab @ [x])"
    and low: "\<And>z. z \<in> entered s \<Longrightarrow> low_of t z = low_of s z" "low_of t x \<le> tj_counter s"
      "low_of t x = tj_counter s \<or> (\<exists>z \<in> set (tj_stack s). low_of t x = number_of s z)"
    and D: "\<And>z. z \<in> D \<Longrightarrow> z \<in> finished t \<or> z \<in> set ab \<or> z \<in> set (tj_stack s) \<and> low_of t x \<le> number_of s z"
    unfolding running_def by blast
  note F = running_facts [OF R(1,2,4,3)]
  from vis obtain pre where V: "y \<in> entered u" "\<And>z. z \<in> entered t \<Longrightarrow> low_of u z = low_of t z" "extends t u pre"
    and p: "if pre = [] then low_of u y = tj_counter t else y \<in> set pre \<and> (\<exists>z \<in> set (tj_stack t). low_of u y = number_of t z)"
    unfolding visited_def by blast
  have st: "entered s \<subseteq> entered t" using R(4) by (simp add: extends_def)
  let ?w = "lower x (low_of u y) u"
  have ext: "extends s u ((pre @ ab) @ [x])" using extends_trans [OF R(4) V(3)] by simp
  have nx: "number_of u x = tj_counter s" using V(3) F(1) R(3) by (simp add: extends_def)
  have lx: "low_of u x = low_of t x" by (rule V(2) [OF F(1)])
  have lw: "low_of ?w x = min (low_of t x) (low_of u y)" by (simp add: lx)
  have keep: "low_of ?w z = low_of s z" if "z \<in> entered s" for z using low(1) [OF that] F(2) V(2) st that by auto
  have xu: "x \<in> entered u" using V(3) F(1) by (auto simp: extends_def)
  have inv': "search_inv out ?w" by (rule search_inv_lower [OF inv xu])
  have fin: "finished ?w = finished u" by (rule finished_simps(2))
  have grow: "finished t \<subseteq> finished u" using V(3) by (auto simp: finished_def extends_def)
  have case_y: "y \<in> finished u \<or> y \<in> set (pre @ ab)"
  proof (cases "pre = []")
    case True
    then have "y \<notin> set (tj_stack u)" using V(3) y R(2) by (auto simp: extends_def search_inv_def)
    then show ?thesis using V(1) by (simp add: finished_def)
  qed (use p in simp)
  have c: "tj_counter s < tj_counter t" using R(2) F(1) R(3) by (auto simp: search_inv_def)
  have lows: "low_of ?w x = low_of t x \<or> (\<exists>z \<in> set (tj_stack s). low_of ?w x = number_of s z)"
  proof (cases "pre = []")
    case True
    then show ?thesis using p low(2) c by (simp add: lx)
  next
    case False
    then obtain z where z: "z \<in> set (ab @ x # tj_stack s)" "low_of u y = number_of t z" using p F(6) by auto
    then consider "tj_counter s \<le> low_of u y" | "z \<in> set (tj_stack s)" using F(3) R(3) by (auto intro: less_imp_le)
    then show ?thesis
    proof cases
      case 1
      then show ?thesis using low(2) by (simp add: lx)
    next
      case 2
      then show ?thesis using z(2) F(4,5) [of z] by (auto simp: lx min_def)
    qed
  qed
  have "low_of ?w x \<le> tj_counter s" using low(2) by (simp add: lx)
  moreover have "low_of ?w x = tj_counter s \<or> (\<exists>z \<in> set (tj_stack s). low_of ?w x = number_of s z)" using lows low(3) by auto
  moreover have "z \<in> finished u \<or> z \<in> set (pre @ ab) \<or> z \<in> set (tj_stack s) \<and> low_of ?w x \<le> number_of s z" if "z \<in> insert y D" for z
    using D [of z] that case_y grow by (auto simp: lx min_le_iff_disj)
  ultimately show ?thesis unfolding running_def fin using R(1) inv' nx keep ext
    by (intro conjI exI [of _ "pre @ ab"]) auto
qed

lemma visit_loop_found:
  assumes "good_visitor out v"
  shows "visit_loop v x ys t = Some u \<Longrightarrow> \<exists>zs. tj_found u = tj_found t @ zs"
proof (induction ys arbitrary: t)
  case (Cons y ys)
  show ?case
  proof (cases "map_of (tj_index t) y = None")
    case True
    with Cons.prems obtain w where w: "v y t = Some w" "visit_loop v x ys (lower x (got (tj_low w) y) w) = Some u"
      by (auto simp: bind_eq_Some_conv)
    with assms Cons.IH [OF w(2)] show ?thesis unfolding good_visitor_def by (metis append.assoc lower_fields(5))
  next
    case False
    then show ?thesis using Cons.prems Cons.IH by (fastforce split: if_splits)
  qed
qed simp

lemma running_loop:
  assumes "good_visitor out v"
  shows "visit_loop v x ys t = Some u \<Longrightarrow> running out x s D t \<Longrightarrow> x \<notin> set ys \<Longrightarrow> tj_found u = [] \<Longrightarrow>
    running out x s (D \<union> set ys) u"
proof (induction ys arbitrary: t D)
  case Nil
  then show ?case by simp
next
  case (Cons y ys)
  have inv: "search_inv out t" using Cons.prems(2) by (simp add: running_def)
  have ne: "y \<noteq> x" "x \<notin> set ys" using Cons.prems(3) by auto
  show ?case
  proof (cases "y \<in> entered t")
    case True
    let ?t = "if y \<in> set (tj_on_stack t) then lower x (number_of t y) t else t"
    have "visit_loop v x ys ?t = Some u" using Cons.prems(1) True by (auto simp: entered_None split: if_splits)
    from Cons.IH [OF this running_old [OF Cons.prems(2) True ne(1)] ne(2) Cons.prems(4)] show ?thesis by simp
  next
    case False
    then obtain w where w: "v y t = Some w" "visit_loop v x ys (lower x (low_of w y) w) = Some u"
      using Cons.prems(1) by (auto simp: entered_None bind_eq_Some_conv)
    have "tj_found w = []" using visit_loop_found [OF assms w(2)] Cons.prems(4) by auto
    with assms w(1) False inv have good: "search_inv out w" "visited y t w" unfolding good_visitor_def by blast+
    from Cons.IH [OF w(2) running_new [OF Cons.prems(2) False good] ne(2) Cons.prems(4)] show ?thesis by simp
  qed
qed

lemma running_enter:
  assumes "search_inv out s" "x \<notin> entered s"
  shows "running out x s {} (enter x s)"
  unfolding running_def using assms search_inv_enter [OF assms] extends_enter [OF assms(2)]
  by (auto intro!: exI [of _ "[]"])

text \<open>When \<open>x\<close> is a component of its own, all its successors are finished.\<close>

lemma leave_alone:
  assumes run: "running out x s (set (neighbours out x)) t" and found: "tj_found (leave order x t) = []"
  shows "search_inv out (leave order x t) \<and> visited x s (leave order x t)"
proof -
  from run obtain ab where R: "search_inv out s" "search_inv out t" "number_of t x = tj_counter s" "extends s t (ab @ [x])"
    and low: "\<And>z. z \<in> entered s \<Longrightarrow> low_of t z = low_of s z" "low_of t x \<le> tj_counter s"
      "low_of t x = tj_counter s \<or> (\<exists>z \<in> set (tj_stack s). low_of t x = number_of s z)"
    and D: "\<And>z. z \<in> set (neighbours out x) \<Longrightarrow> z \<in> finished t \<or> z \<in> set ab \<or> z \<in> set (tj_stack s) \<and> low_of t x \<le> number_of s z"
    unfolding running_def by blast
  note F = running_facts [OF R(1,2,4,3)]
  have maps: "map_of (tj_low t) x = Some (low_of t x)" "map_of (tj_index t) x = Some (number_of t x)"
  proof -
    have "x \<in> fst ` set (tj_low t)" "x \<in> fst ` set (tj_index t)" using R(2) F(1) by (auto simp: search_inv_def entered_def)
    then show "map_of (tj_low t) x = Some (low_of t x)" "map_of (tj_index t) x = Some (number_of t x)"
      by (auto simp: got_def map_of_eq_None_iff split: option.splits)
  qed
  show ?thesis
  proof (cases "low_of t x = tj_counter s")
    case False
    then have same: "leave order x t = t" by (simp add: leave_def maps R(3))
    have "visited x s t" unfolding visited_def using F(1) R(4) low(1,3) False by (auto intro!: exI [of _ "ab @ [x]"])
    then show ?thesis using R(2) by (simp add: same)
  next
    case True
    have x: "x \<notin> set ab" using R(2) F(6) by (auto simp: search_inv_def)
    have take: "takeWhile (\<lambda>y. y \<noteq> x) (tj_stack t) = ab" "dropWhile (\<lambda>y. y \<noteq> x) (tj_stack t) = x # tj_stack s"
      unfolding F(6) using x by (auto simp: takeWhile_append dropWhile_append)
    let ?u = "leave order x t"
    have ab: "ab = []" using found by (auto simp: leave_def maps R(3) True take split: if_splits)
    have u: "tj_stack ?u = tj_stack s" "tj_index ?u = tj_index t" "tj_low ?u = tj_low t" "tj_counter ?u = tj_counter t"
        "set (tj_on_stack ?u) = set (tj_on_stack t) - {x}"
      by (auto simp: leave_def maps R(3) True take ab)
    have st: "tj_stack t = x # tj_stack s" using F(6) by (simp add: ab)
    have fin: "finished ?u = insert x (finished t)" using F(1,2,4) u(1) by (auto simp: finished_def st)
    from R(2) obtain rank :: "string \<Rightarrow> nat" where rank: "\<And>z y. z \<in> finished t \<Longrightarrow> y \<in> set (neighbours out z) \<Longrightarrow> y \<in> finished t \<and> rank y < rank z"
      unfolding search_inv_def by blast
    have succs: "z \<in> finished t" if "z \<in> set (neighbours out x)" for z
      using D [OF that] F(4,5) [of z] True by (auto simp: ab)
    have nx: "x \<notin> finished t" by (simp add: finished_def st)
    let ?rank = "rank(x := Suc (Max (insert 0 (rank ` set (neighbours out x)))))"
    have "y \<in> finished ?u \<and> ?rank y < ?rank z" if "z \<in> finished ?u" "y \<in> set (neighbours out z)" for z y
    proof (cases "z = x")
      case True
      then have "y \<in> finished t" "y \<noteq> x" using succs that(2) nx by auto
      moreover have "rank y \<le> Max (insert 0 (rank ` set (neighbours out x)))" using that(2) True by (intro Max_ge) auto
      ultimately show ?thesis using True by (simp add: fin)
    next
      case False
      then show ?thesis using that rank [of z y] nx by (auto simp: fin)
    qed
    then have ranked: "\<exists>rank :: string \<Rightarrow> nat. \<forall>z \<in> finished ?u. \<forall>y \<in> set (neighbours out z). y \<in> finished ?u \<and> rank y < rank z"
      by (intro exI [of _ ?rank]) blast
    have "search_inv out ?u" unfolding search_inv_def
      by (intro conjI ranked) (use R(2) u in \<open>auto simp: search_inv_def st\<close>)
    moreover have "extends s ?u []" using R(4) u by (auto simp: extends_def)
    then have "visited x s ?u" unfolding visited_def using F(1) low(1) True u by (auto intro!: exI [of _ "[]"])
    ultimately show ?thesis by simp
  qed
qed

lemma leave_found: "\<exists>zs. tj_found (leave order x t) = tj_found t @ zs"
  by (simp add: leave_def Let_def)

lemma visit_good:
  assumes "\<And>k. k \<notin> set (neighbours out k)"
  shows "good_visitor out (visit order out n)"
proof (induction n)
  case 0
  then show ?case by (simp add: good_visitor_def)
next
  case (Suc n)
  show ?case unfolding good_visitor_def
  proof (intro allI impI conjI)
    fix x s u
    assume "visit order out (Suc n) x s = Some u"
    then obtain t where t: "visit_loop (visit order out n) x (neighbours out x) (enter x s) = Some t" "u = leave order x t" by auto
    show "\<exists>zs. tj_found u = tj_found s @ zs"
      using visit_loop_found [OF Suc t(1)] leave_found [of order x t] by (auto simp: t(2))
    assume x: "x \<notin> entered s" "search_inv out s" "tj_found u = []"
    have "tj_found t = []" using leave_found [of order x t] x(3) by (auto simp: t(2))
    then have "running out x s (set (neighbours out x)) t"
      using running_loop [OF Suc t(1) running_enter [OF x(2,1)] assms] by simp
    from leave_alone [OF this] x(3) show "search_inv out u" "visited x s u" by (auto simp: t(2))
  qed
qed

lemma visit_all_clean:
  assumes "\<And>k. k \<notin> set (neighbours out k)"
  shows "visit_all order out xs s = Some u \<Longrightarrow> search_inv out s \<Longrightarrow> tj_stack s = [] \<Longrightarrow> tj_found u = [] \<Longrightarrow>
    search_inv out u \<and> tj_stack u = [] \<and> set xs \<union> entered s \<subseteq> entered u"
proof (induction xs arbitrary: s)
  case Nil
  then show ?case by simp
next
  case (Cons x xs)
  note good = visit_good [OF assms, of order "length order", unfolded good_visitor_def]
  have grows: "visit_all order out xs s = Some u \<Longrightarrow> \<exists>zs. tj_found u = tj_found s @ zs" for xs s
  proof (induction xs arbitrary: s)
    case (Cons x xs)
    then show ?case using good by (fastforce simp: bind_eq_Some_conv split: if_splits)
  qed simp
  show ?case
  proof (cases "x \<in> entered s")
    case True
    then show ?thesis using Cons by (auto simp: entered_None split: if_splits)
  next
    case False
    then obtain t where t: "visit order out (length order) x s = Some t" "visit_all order out xs t = Some u"
      using Cons.prems(1) by (auto simp: entered_None bind_eq_Some_conv)
    have "tj_found t = []" using grows [OF t(2)] Cons.prems(4) by auto
    with good t(1) False Cons.prems(2) have V: "search_inv out t" "visited x s t" by blast+
    then have st: "tj_stack t = []" "insert x (entered s) \<subseteq> entered t"
      using Cons.prems(3) by (auto simp: visited_def extends_def split: if_splits)
    from Cons.IH [OF t(2) V(1) st(1) Cons.prems(4)] st(2) show ?thesis by auto
  qed
qed

lemma no_cycles_rank:
  assumes "\<And>k. k \<notin> set (neighbours out k)" "cycles order out = Some []"
  obtains rank :: "string \<Rightarrow> nat" where "\<And>x y. x \<in> set order \<Longrightarrow> y \<in> set (neighbours out x) \<Longrightarrow> rank y < rank x"
proof -
  from assms(2) obtain u where u: "visit_all order out order no_visits = Some u" "sort_by (on_key (\<le>) (\<lambda>c. index_of order (hd c))) (tj_found u) = []"
    by (auto simp: cycles_def)
  have "tj_found u = []" using u(2) by (metis length_0_conv length_sort_by)
  moreover have "search_inv out no_visits" by (simp add: search_inv_def no_visits_def entered_def finished_def)
  ultimately have "search_inv out u" "tj_stack u = []" "set order \<subseteq> entered u"
    using visit_all_clean [OF assms(1) u(1)] by (auto simp: no_visits_def)
  then show thesis using that unfolding search_inv_def finished_def by (metis Diff_empty list.set(1) subsetD)
qed

section \<open>What an accepted graph is\<close>

definition edge_rel :: "workflow_graph \<Rightarrow> (string \<times> string) set" where
  "edge_rel g = (\<lambda>e. (we_from e, we_to e)) ` set (wg_edges g)"

lemma keys_fold_update: "fst ` set (fold (\<lambda>n. AList.update (k n) (v n)) xs m) = fst ` set m \<union> k ` set xs"
  by (induction xs arbitrary: m) auto

lemma keys_workflow_nodes [simp]: "fst ` set (workflow_nodes g) = wn_id ` set (wg_nodes g)"
  by (simp add: workflow_nodes_def keys_fold_update)

lemma keys_no_edges [simp]: "fst ` set (no_edges g) = wn_id ` set (wg_nodes g)"
  by (simp add: no_edges_def keys_fold_update)

lemma neighbours_no_edges [simp]: "neighbours (no_edges g) k = []"
proof -
  have "map_of (fold (\<lambda>n. AList.update (wn_id n) []) ns m) k = Some ts \<Longrightarrow> map_of m k = Some ts \<or> ts = []" for ns :: "workflow_node list" and m ts
    by (induction ns arbitrary: m) (fastforce split: if_splits)+
  from this [of "wg_nodes g" "[]"] show ?thesis by (auto simp: neighbours_def no_edges_def split: option.splits)
qed

lemma neighbours_push: "neighbours (push_to a b out) k = (if k = a \<and> a \<in> fst ` set out then neighbours out k @ [b] else neighbours out k)"
  by (auto simp: neighbours_def push_to_def map_of_eq_None_iff split: option.splits)
    (metis map_of_eq_None_iff option.distinct(1))+

lemma keys_push [simp]: "fst ` set (push_to a b out) = fst ` set out"
  by (auto simp: push_to_def split: option.splits dest: map_of_SomeD_key)

definition followed :: "workflow_graph \<Rightarrow> workflow_edge \<Rightarrow> bool" where
  "followed g e \<longleftrightarrow> we_from e \<in> wn_id ` set (wg_nodes g) \<and> we_to e \<in> wn_id ` set (wg_nodes g) \<and> we_from e \<noteq> we_to e"

lemma structure_edges_out:
  "structure_edges g i es pairs out = (ds, out') \<Longrightarrow> fst ` set out = wn_id ` set (wg_nodes g) \<Longrightarrow>
    fst ` set out' = wn_id ` set (wg_nodes g)
    \<and> set (neighbours out' k) = set (neighbours out k) \<union> we_to ` {e \<in> set es. we_from e = k \<and> followed g e}"
proof (induction es arbitrary: i pairs out ds)
  case (Cons e es)
  show ?case
  proof (cases "followed g e")
    case True
    with Cons.prems obtain ds' where "structure_edges g (Suc i) es (set_add (edge_pair e) pairs) (push_to (we_from e) (we_to e) out) = (ds', out')"
      by (auto simp: followed_def Let_def split: prod.splits)
    from Cons.IH [OF this] Cons.prems(2) True show ?thesis by (auto simp: neighbours_push followed_def)
  next
    case False
    with Cons.prems obtain ds' where "structure_edges g (Suc i) es pairs out = (ds', out')"
      by (auto simp: followed_def Let_def split: prod.splits if_splits)
    from Cons.IH [OF this] Cons.prems(2) False show ?thesis by auto
  qed
qed simp

lemma structure_edges_ok:
  "structure_edges g i es pairs out = ([], out') \<Longrightarrow> \<forall>e \<in> set es. we_from e \<in> wn_id ` set (wg_nodes g) \<and> we_to e \<in> wn_id ` set (wg_nodes g) \<Longrightarrow>
    (\<forall>e \<in> set es. followed g e \<and> we_to e \<noteq> wg_entry g \<and> \<not> escalates g e)
    \<and> distinct (map edge_pair es) \<and> edge_pair ` set es \<inter> set pairs = {}"
proof (induction es arbitrary: i pairs out)
  case (Cons e es)
  from Cons.prems have e: "we_from e \<noteq> we_to e" "edge_pair e \<notin> set pairs" "we_to e \<noteq> wg_entry g" "\<not> escalates g e"
    and rest: "structure_edges g (Suc i) es (set_add (edge_pair e) pairs) (push_to (we_from e) (we_to e) out) = ([], out')"
    by (auto simp: Let_def split: prod.splits if_splits)
  from Cons.IH [OF rest] Cons.prems(2) e show ?case by (auto simp: followed_def)
qed simp

lemma for_each_Nil: "for_each f i xs = [] \<Longrightarrow> x \<in> set xs \<Longrightarrow> \<exists>j. f x j = []"
  by (induction xs arbitrary: i) auto

lemma reach_sound: "x \<in> set (reach out queue seen) \<Longrightarrow> x \<in> {(a, b). b \<in> set (neighbours out a)}\<^sup>* `` (set queue \<union> set seen)"
proof (induction out queue seen rule: reach.induct)
  case (2 out n queue seen)
  let ?R = "{(a, b). b \<in> set (neighbours out a)}"
  have step: "b \<in> ?R\<^sup>* `` {n}" if "b \<in> set (neighbours out n)" for b using that by auto
  show ?case
  proof (cases "n \<in> set seen")
    case True
    with 2 show ?thesis by auto
  next
    case False
    with 2 have "x \<in> ?R\<^sup>* `` (set (queue @ neighbours out n) \<union> set (seen @ [n]))" by simp
    then show ?thesis using step by (auto intro: rtrancl_trans)
  qed
qed auto

lemma neighbours_of_graph:
  assumes "structure_edges g 0 (wg_edges g) [] (no_edges g) = (ds, out)"
  shows "set (neighbours out k) = we_to ` {e \<in> set (wg_edges g). we_from e = k \<and> followed g e}"
  using structure_edges_out [OF assms] by simp

lemma accepted_structure:
  assumes "well_formed_graph g"
  shows "\<exists>ds. validate_graph_structure f g most = Some ds \<and> (ds = [] \<longrightarrow>
    (\<exists>rank :: string \<Rightarrow> nat. \<forall>a b. (a, b) \<in> edge_rel g \<longrightarrow> rank b < rank a) \<and> (\<forall>n \<in> set (wg_nodes g). (wg_entry g, wn_id n) \<in> (edge_rel g)\<^sup>*)
    \<and> distinct (map (\<lambda>e. (we_from e, we_to e)) (wg_edges g))
    \<and> (\<forall>e \<in> set (wg_edges g). we_to e \<noteq> wg_entry g \<and> \<not> escalates g e)
    \<and> (\<forall>n \<in> set (wg_nodes g). \<forall>x. wn_kind n = LoopNode x \<longrightarrow> \<not> num_less (num most) x))"
proof -
  obtain ds out where E: "structure_edges g 0 (wg_edges g) [] (no_edges g) = (ds, out)" by fastforce
  note N = neighbours_of_graph [OF E]
  have ends: "\<forall>e \<in> set (wg_edges g). we_from e \<in> wn_id ` set (wg_nodes g) \<and> we_to e \<in> wn_id ` set (wg_nodes g)"
    using assms by (auto simp: well_formed_graph_def well_formed_edge_def list_all_iff)
  have "set (neighbours out k) \<subseteq> set (map wn_id (wg_nodes g))" for k using ends by (auto simp: N)
  then obtain cs where cs: "cycles (map wn_id (wg_nodes g)) out = Some cs" using cycles_total by blast
  obtain all where all: "validate_graph_structure f g most = Some all" by (simp add: validate_graph_structure_def E cs)
  have "(\<exists>rank :: string \<Rightarrow> nat. \<forall>a b. (a, b) \<in> edge_rel g \<longrightarrow> rank b < rank a) \<and> (\<forall>n \<in> set (wg_nodes g). (wg_entry g, wn_id n) \<in> (edge_rel g)\<^sup>*)
    \<and> distinct (map (\<lambda>e. (we_from e, we_to e)) (wg_edges g))
    \<and> (\<forall>e \<in> set (wg_edges g). we_to e \<noteq> wg_entry g \<and> \<not> escalates g e)
    \<and> (\<forall>n \<in> set (wg_nodes g). \<forall>x. wn_kind n = LoopNode x \<longrightarrow> \<not> num_less (num most) x)" if "all = []"
  proof (intro conjI)
    have entry: "wg_entry g \<in> fst ` set (workflow_nodes g)" using assms by (simp add: well_formed_graph_def)
    from all that have V: "ds = []" "for_each (loop_finding f most) 0 (wg_nodes g) = []" "cs = []" and U: "unreachable_nodes g out = []"
      by (simp_all add: validate_graph_structure_def E cs)
    note ok = structure_edges_ok [OF E [unfolded V(1)] ends]
    have rel: "(x, y) \<in> edge_rel g \<longleftrightarrow> y \<in> set (neighbours out x)" for x y
      using ok by (force simp: edge_rel_def N image_iff)
    then have R: "{(a, b). b \<in> set (neighbours out a)} = edge_rel g" by auto
    have "k \<notin> set (neighbours out k)" for k by (auto simp: N followed_def)
    from no_cycles_rank [OF this cs [unfolded V(3)]] obtain rank :: "string \<Rightarrow> nat" where
      rank: "\<And>x y. x \<in> set (map wn_id (wg_nodes g)) \<Longrightarrow> y \<in> set (neighbours out x) \<Longrightarrow> rank y < rank x" by blast
    have "rank b < rank a" if ab: "(a, b) \<in> edge_rel g" for a b
    proof (rule rank)
      show "a \<in> set (map wn_id (wg_nodes g))" using ends ab by (auto simp: edge_rel_def)
      show "b \<in> set (neighbours out a)" using ab by (simp add: rel)
    qed
    then show "\<exists>rank :: string \<Rightarrow> nat. \<forall>a b. (a, b) \<in> edge_rel g \<longrightarrow> rank b < rank a" by blast
    show "\<forall>n \<in> set (wg_nodes g). (wg_entry g, wn_id n) \<in> (edge_rel g)\<^sup>*"
    proof
      fix n
      assume "n \<in> set (wg_nodes g)"
      with U entry have "wn_id n \<in> set (reach out [wg_entry g] [])"
        by (auto simp: unreachable_nodes_def Let_def simp del: reach.simps dest!: for_each_Nil split: if_splits)
      from reach_sound [OF this] show "(wg_entry g, wn_id n) \<in> (edge_rel g)\<^sup>*" by (simp add: R)
    qed
    have "map edge_pair (wg_edges g) = map (\<lambda>p. fst p @ CHR 0x00 # snd p) (map (\<lambda>e. (we_from e, we_to e)) (wg_edges g))"
      by (simp add: edge_pair_def)
    moreover have "distinct (map edge_pair (wg_edges g))" using ok by blast
    ultimately have "distinct (map (\<lambda>p. fst p @ CHR 0x00 # snd p) (map (\<lambda>e. (we_from e, we_to e)) (wg_edges g)))" by (simp only:)
    then show "distinct (map (\<lambda>e. (we_from e, we_to e)) (wg_edges g))" unfolding distinct_map [of "\<lambda>p. fst p @ CHR 0x00 # snd p"] by (rule conjunct1)
    show "\<forall>e \<in> set (wg_edges g). we_to e \<noteq> wg_entry g \<and> \<not> escalates g e" using ok by blast
    show "\<forall>n \<in> set (wg_nodes g). \<forall>x. wn_kind n = LoopNode x \<longrightarrow> \<not> num_less (num most) x"
      using for_each_Nil [OF V(2)] by (fastforce simp: loop_finding_def)
  qed
  with all show ?thesis by blast
qed

text \<open>
  C19. On a schema-valid graph the structural check returns, and a graph it has nothing to say about is one the runner
  can execute: its edges have no cycle, every node is reachable from the entry node, no edge leads into the entry
  node, no two edges connect the same pair of nodes, no loop exceeds the bound, and no edge carries the output of a
  model as system-trusted context.
\<close>
theorem accepted_graph_is_acyclic:
  assumes "well_formed_graph g"
  shows "\<exists>ds. validate_graph_structure f g most = Some ds \<and> (ds = [] \<longrightarrow>
    acyclic (edge_rel g) \<and> (\<forall>n \<in> set (wg_nodes g). (wg_entry g, wn_id n) \<in> (edge_rel g)\<^sup>*)
    \<and> distinct (map (\<lambda>e. (we_from e, we_to e)) (wg_edges g))
    \<and> (\<forall>e \<in> set (wg_edges g). we_to e \<noteq> wg_entry g \<and> \<not> escalates g e)
    \<and> (\<forall>n \<in> set (wg_nodes g). \<forall>x. wn_kind n = LoopNode x \<longrightarrow> \<not> num_less (num most) x))"
proof -
  from accepted_structure [OF assms, of f most] obtain ds where ds: "validate_graph_structure f g most = Some ds"
    and A: "ds = [] \<longrightarrow> (\<exists>rank :: string \<Rightarrow> nat. \<forall>a b. (a, b) \<in> edge_rel g \<longrightarrow> rank b < rank a)
      \<and> (\<forall>n \<in> set (wg_nodes g). (wg_entry g, wn_id n) \<in> (edge_rel g)\<^sup>*)
      \<and> distinct (map (\<lambda>e. (we_from e, we_to e)) (wg_edges g))
      \<and> (\<forall>e \<in> set (wg_edges g). we_to e \<noteq> wg_entry g \<and> \<not> escalates g e)
      \<and> (\<forall>n \<in> set (wg_nodes g). \<forall>x. wn_kind n = LoopNode x \<longrightarrow> \<not> num_less (num most) x)" by blast
  have "acyclic (edge_rel g)" if "\<forall>a b. (a, b) \<in> edge_rel g \<longrightarrow> rank b < rank a" for rank :: "string \<Rightarrow> nat"
    by (rule acyclicI_order [where f = rank]) (use that in blast)
  with ds A show ?thesis by blast
qed

definition diamond_edge :: "string \<Rightarrow> string \<Rightarrow> string \<Rightarrow> workflow_edge" where
  "diamond_edge i a b = \<lparr>we_id = i, we_from = a, we_to = b, we_artifacts = [], we_layers = [],
     we_policy = \<lparr>cx_mode = ModeNone, cx_trust = TrustDerived, cx_include = [], cx_exclude = []\<rparr>, we_tokens = None,
     we_schema = ''json'', we_fields = [], we_behaviour = Strict\<rparr>"

definition diamond_node :: "string \<Rightarrow> workflow_kind \<Rightarrow> workflow_node" where
  "diamond_node i k = \<lparr>wn_id = i, wn_kind = k, wn_label = ''l'',
     wn_goal = \<lparr>go_objective = ''o'', go_done = [], go_stop = [], go_blocked = []\<rparr>, wn_config = None\<rparr>"

text \<open>A diamond, and the same graph with an edge back.\<close>

definition diamond :: "workflow_edge list \<Rightarrow> workflow_graph" where
  "diamond extra = \<lparr>wg_id = ''g'', wg_goal = \<lparr>go_objective = ''o'', go_done = [], go_stop = [], go_blocked = []\<rparr>, wg_entry = ''a'',
     wg_nodes = [diamond_node ''a'' DeterministicNode, diamond_node ''b'' ModelNode, diamond_node ''c'' ModelNode, diamond_node ''d'' (LoopNode (num 2))],
     wg_edges = [diamond_edge ''1'' ''a'' ''b'', diamond_edge ''2'' ''a'' ''c'', diamond_edge ''3'' ''b'' ''d'', diamond_edge ''4'' ''c'' ''d''] @ extra\<rparr>"

theorem accepted_graph_is_acyclic_witness:
  "acyclic (edge_rel (diamond [])) \<and> (''a'', ''d'') \<in> (edge_rel (diamond []))\<^sup>*
     \<and> map_option (map gd_code) (validate_graph_structure (\<lambda>n. []) (diamond [diamond_edge ''5'' ''d'' ''b'']) 3) = Some [''UNBOUNDED_CYCLE'']"
proof -
  have wf: "well_formed_graph (diamond [])"
    by (auto simp: well_formed_graph_def diamond_def well_formed_node_def well_formed_edge_def diamond_node_def diamond_edge_def)
  have ok: "validate_graph_structure (\<lambda>n. []) (diamond []) 3 = Some []" by code_simp
  have "wn_id (diamond_node ''d'' (LoopNode (num 2))) = ''d''" "diamond_node ''d'' (LoopNode (num 2)) \<in> set (wg_nodes (diamond []))"
      "wg_entry (diamond []) = ''a''" by (simp_all add: diamond_def diamond_node_def)
  moreover obtain ds where "validate_graph_structure (\<lambda>n. []) (diamond []) 3 = Some ds" and
      D: "ds = [] \<longrightarrow> acyclic (edge_rel (diamond [])) \<and> (\<forall>n \<in> set (wg_nodes (diamond [])). (wg_entry (diamond []), wn_id n) \<in> (edge_rel (diamond []))\<^sup>*)"
    using accepted_graph_is_acyclic [OF wf, of "\<lambda>n. []" 3] by blast
  moreover from this ok have "ds = []" by simp
  ultimately have "acyclic (edge_rel (diamond []))" "(''a'', ''d'') \<in> (edge_rel (diamond []))\<^sup>*" by (metis bspec)+
  moreover have "map_option (map gd_code) (validate_graph_structure (\<lambda>n. []) (diamond [diamond_edge ''5'' ''d'' ''b'']) 3) = Some [''UNBOUNDED_CYCLE'']"
    by code_simp
  ultimately show ?thesis by simp
qed

end
