(* ===== verification/Config_Json.thy ===== *)
theory Config_Json
  imports Json
begin

text \<open>
  The sorted JSON text of \<open>packages/core/src/config/config-store.ts\<close> (\<open>canonicalJson\<close> and its \<open>sort\<close>), which the
  versions of checkpoints are digests of. It is not the canonical text of \<open>persistence\<close> (\<open>Json\<close>): keys are ordered by
  \<open>localeCompare\<close>, no string is normalised, a value without JSON text is left out or becomes \<open>null\<close>, and a line feed
  ends the text. What \<open>JSON.stringify\<close> does is written out.
\<close>

section \<open>Objects and their keys\<close>

text \<open>
  An object lists the keys that are array indices first, by their value, and then the others as they were inserted.
  An array index is the decimal text of an integer below \<open>2 ^ 32 - 1\<close>.
\<close>

definition array_index :: "string \<Rightarrow> nat option" where
  "array_index k =
     (if k = [] \<or> \<not> list_all (\<lambda>c. CHR ''0'' \<le> c \<and> c \<le> CHR ''9'') k \<or> hd k = CHR ''0'' \<and> k \<noteq> ''0'' then None
      else if digits_value k < 4294967295 then Some (digits_value k) else None)"

definition property_order :: "(string \<times> 'v) list \<Rightarrow> (string \<times> 'v) list" where
  "property_order es =
     sort_by (on_key (\<le>) (\<lambda>e. the (array_index (fst e)))) (filter (\<lambda>e. array_index (fst e) \<noteq> None) es)
     @ filter (\<lambda>e. array_index (fst e) = None) es"

lemma mset_property_order [simp]: "mset (property_order es) = mset es"
proof -
  have "mset (filter P es) + mset (filter (\<lambda>e. \<not> P e) es) = mset es" for P by (induction es) auto
  from this [of "\<lambda>e. array_index (fst e) \<noteq> None"] show ?thesis by (simp add: property_order_def)
qed

lemma set_property_order [simp]: "set (property_order es) = set es"
  by (metis mset_property_order set_mset_mset)

section \<open>JSON.stringify\<close>

text \<open>Without indentation; \<open>None\<close> is \<open>undefined\<close>, the text of a value JSON cannot represent.\<close>

fun stringify :: "(number \<Rightarrow> string) \<Rightarrow> json \<Rightarrow> string option"
  and stringify_items :: "(number \<Rightarrow> string) \<Rightarrow> json list \<Rightarrow> string list"
  and stringify_members :: "(number \<Rightarrow> string) \<Rightarrow> (string \<times> json) list \<Rightarrow> string list"
where
  "stringify ns JNull = Some ''null''"
| "stringify ns (JBool b) = Some (if b then ''true'' else ''false'')"
| "stringify ns (JNum n) = Some (if num_finite n then ns n else ''null'')"
| "stringify ns (JStr s) = Some (quote s)"
| "stringify ns (JArr xs) = Some (''['' @ join_with '','' (stringify_items ns xs) @ '']'')"
| "stringify ns (JObj es) = Some (''{'' @ join_with '','' (stringify_members ns es) @ ''}'')"
| "stringify ns JOther = None"
| "stringify_items ns [] = []"
| "stringify_items ns (x # xs) = (case stringify ns x of None \<Rightarrow> ''null'' | Some t \<Rightarrow> t) # stringify_items ns xs"
| "stringify_members ns [] = []"
| "stringify_members ns ((k, v) # es) =
     (case stringify ns v of None \<Rightarrow> stringify_members ns es | Some t \<Rightarrow> (quote k @ '':'' @ t) # stringify_members ns es)"

section \<open>The sorted text\<close>

text \<open>\<open>sort\<close>: \<open>Object.entries\<close>, ordered by key, and \<open>Object.fromEntries\<close> of the sorted children.\<close>

function sort_value :: "(string \<Rightarrow> string \<Rightarrow> bool) \<Rightarrow> json \<Rightarrow> json" where
  "sort_value le (JArr xs) = JArr (map (sort_value le) xs)"
| "sort_value le (JObj es) =
     JObj (property_order (map (\<lambda>e. (fst e, sort_value le (snd e))) (sort_by (on_key le fst) (property_order es))))"
| "sort_value le JNull = JNull"
| "sort_value le (JBool b) = JBool b"
| "sort_value le (JNum n) = JNum n"
| "sort_value le (JStr s) = JStr s"
| "sort_value le JOther = JOther"
  by pat_completeness auto
termination
proof (relation "measure (\<lambda>(_, j). size j)", goal_cases)
  case (3 le es e)
  then have "(fst e, snd e) \<in> set es" by simp
  then show ?case by (simp add: size_json_entry [of "fst e" "snd e" es])
qed (simp_all add: size_json_list)

text \<open>\<open>`${JSON.stringify(sort(value))}\n`\<close>: a value without text is written as \<open>undefined\<close>.\<close>

definition config_canonical :: "js_host \<Rightarrow> json \<Rightarrow> string" where
  "config_canonical h j =
     (case stringify (numstr h) (sort_value (lc h) j) of None \<Rightarrow> ''undefined'' | Some t \<Rightarrow> t) @ [CHR 0x0A]"

section \<open>The order of insertion does not matter\<close>

text \<open>Keys that the order tells apart: no two of them are equal, or compare as equal.\<close>

definition told_apart :: "(string \<Rightarrow> string \<Rightarrow> bool) \<Rightarrow> string list \<Rightarrow> bool" where
  "told_apart le ks \<longleftrightarrow> distinct ks \<and> list_all (\<lambda>a. list_all (\<lambda>b. le a b \<and> le b a \<longrightarrow> a = b) ks) ks"

fun well_keyed :: "(string \<Rightarrow> string \<Rightarrow> bool) \<Rightarrow> json \<Rightarrow> bool" where
  "well_keyed le (JArr xs) \<longleftrightarrow> (\<forall>x \<in> set xs. well_keyed le x)"
| "well_keyed le (JObj es) \<longleftrightarrow> told_apart le (map fst es) \<and> (\<forall>e \<in> set es. well_keyed le (snd e))"
| "well_keyed le _ \<longleftrightarrow> True"

lemma told_apart_mset: "mset ks = mset ls \<Longrightarrow> told_apart le ks \<longleftrightarrow> told_apart le ls"
  using mset_eq_setD [of ks ls] mset_eq_imp_distinct_iff [of ks ls] by (simp add: told_apart_def list_all_iff)

lemma sorted_unique:
  assumes "sorted_wrt r xs" "sorted_wrt r ys" "mset xs = mset ys" "\<And>x y. x \<in> set xs \<Longrightarrow> y \<in> set xs \<Longrightarrow> r x y \<Longrightarrow> r y x \<Longrightarrow> x = y"
  shows "xs = ys"
  using assms
proof (induction xs arbitrary: ys)
  case (Cons x xs)
  from Cons.prems(3) obtain y zs where ys: "ys = y # zs" by (cases ys) auto
  have set: "insert x (set xs) = insert y (set zs)" using Cons.prems(3) unfolding ys by (metis list.set(2) set_mset_mset)
  have "x = y"
  proof (rule ccontr)
    assume ne: "x \<noteq> y"
    then have "y \<in> set xs" "x \<in> set zs" using set by auto
    then have "r x y" "r y x" using Cons.prems(1,2) by (simp_all add: ys)
    then show False using Cons.prems(4) [of x y] \<open>y \<in> set xs\<close> ne by simp
  qed
  moreover have "xs = zs" using Cons.IH [of zs] Cons.prems calculation by (simp add: ys)
  ultimately show ?case by (simp add: ys)
qed simp

lemma sort_by_same_entries:
  assumes le: "total_preorder le" and same: "mset es = mset fs" and keys: "told_apart le (map fst es)"
  shows "sort_by (on_key le fst) es = sort_by (on_key le fst) fs"
proof (rule sorted_unique)
  have entries: "total_preorder (on_key le fst)"
    using le by (auto simp: total_preorder_def on_key_def)
  show "sorted_wrt (on_key le fst) (sort_by (on_key le fst) es)" "sorted_wrt (on_key le fst) (sort_by (on_key le fst) fs)"
    by (rule total_preorder.sorted_sort_by [OF entries])+
  show "x = y" if "x \<in> set (sort_by (on_key le fst) es)" "y \<in> set (sort_by (on_key le fst) es)" "on_key le fst x y" "on_key le fst y x" for x y
  proof -
    have "fst x = fst y" using that keys by (auto simp: told_apart_def list_all_iff on_key_def)
    moreover have "inj_on fst (set es)" using keys by (simp add: told_apart_def distinct_map)
    ultimately show ?thesis using that by (auto dest: inj_onD)
  qed
qed (use same in simp)

text \<open>Sorting by key and listing in property order commute with a change of the values.\<close>

definition on_values :: "('v \<Rightarrow> 'u) \<Rightarrow> (string \<times> 'v) list \<Rightarrow> (string \<times> 'u) list" where
  "on_values f es = map (\<lambda>e. (fst e, f (snd e))) es"

lemma insort_on_values:
  "insort_by (on_key le (\<lambda>e. g (fst e))) (fst e, f (snd e)) (on_values f es) = on_values f (insort_by (on_key le (\<lambda>e. g (fst e))) e es)"
  by (induction es) (auto simp: on_values_def on_key_def)

lemma sort_on_values: "sort_by (on_key le (\<lambda>e. g (fst e))) (on_values f es) = on_values f (sort_by (on_key le (\<lambda>e. g (fst e))) es)"
proof (induction es)
  case (Cons e es)
  have "on_values f (e # es) = (fst e, f (snd e)) # on_values f es" by (simp add: on_values_def)
  with Cons show ?case by (simp add: insort_on_values)
qed (simp add: on_values_def)

lemma property_order_on_values: "property_order (on_values f es) = on_values f (property_order es)"
proof -
  have filtered: "filter (\<lambda>e. P (fst e)) (on_values f es) = on_values f (filter (\<lambda>e. P (fst e)) es)" for P
    by (induction es) (auto simp: on_values_def)
  have sorted: "sort_by (on_key (\<le>) (\<lambda>e. the (array_index (fst e)))) (on_values f xs)
      = on_values f (sort_by (on_key (\<le>) (\<lambda>e. the (array_index (fst e)))) xs)" for xs
    by (rule sort_on_values)
  have joined: "on_values f (xs @ ys) = on_values f xs @ on_values f ys" for xs ys by (simp add: on_values_def)
  show ?thesis
    unfolding property_order_def joined filtered [of "\<lambda>k. array_index k \<noteq> None"] filtered [of "\<lambda>k. array_index k = None"] sorted ..
qed

lemma sort_value_obj:
  "sort_value le (JObj es) = JObj (property_order (sort_by (on_key le fst) (property_order (on_values (sort_value le) es))))"
proof -
  have sorted: "sort_by (on_key le fst) (on_values f xs) = on_values f (sort_by (on_key le fst) xs)" for f :: "json \<Rightarrow> json" and xs
    by (rule sort_on_values [of le "\<lambda>k. k"])
  show ?thesis unfolding property_order_on_values [of "sort_value le" es] sorted by (simp add: on_values_def)
qed

lemma on_values_same:
  "list_all2 (\<lambda>e f. fst e = fst f \<and> F (snd e) = F (snd f)) es fs \<Longrightarrow> on_values F es = on_values F fs"
  by (induction es fs rule: list_all2_induct) (simp_all add: on_values_def)

lemma told_apart_values: "told_apart le (map fst (property_order (on_values F es))) \<longleftrightarrow> told_apart le (map fst es)"
proof (rule told_apart_mset)
  have "mset (map fst (property_order (on_values F es))) = mset (map fst (on_values F es))" by (simp only: mset_map mset_property_order)
  then show "mset (map fst (property_order (on_values F es))) = mset (map fst es)" by (simp add: on_values_def comp_def)
qed

lemma sort_value_permuted:
  assumes "total_preorder le" "on_values (sort_value le) es = on_values (sort_value le) fs" "mset fs = mset gs" "told_apart le (map fst es)"
  shows "sort_value le (JObj es) = sort_value le (JObj gs)"
proof -
  let ?on = "on_values (sort_value le)"
  have "mset (property_order (?on es)) = mset (property_order (?on gs))"
    using assms(2,3) by (simp add: on_values_def)
  then show ?thesis
    using sort_by_same_entries [OF assms(1) _ told_apart_values [THEN iffD2, OF assms(4)]] unfolding sort_value_obj by metis
qed

lemma sort_value_same:
  assumes "same_json i j" "total_preorder le" "well_keyed le i"
  shows "sort_value le i = sort_value le j"
  using assms(1,3)
proof (induction rule: same_json.induct)
  case (same_arr xs ys)
  then have "map (sort_value le) xs = map (sort_value le) ys"
    by (auto simp: list_all2_conv_all_nth intro!: nth_equalityI)
  then show ?case by simp
next
  case (same_obj es fs gs)
  have keyed: "\<And>e. e \<in> set es \<Longrightarrow> well_keyed le (snd e)" using same_obj.prems by simp
  have "list_all2 (\<lambda>e f. fst e = fst f \<and> sort_value le (snd e) = sort_value le (snd f)) es fs"
    by (rule list.rel_mono_strong [OF same_obj(1)]) (use keyed in blast)
  then show ?case
    using sort_value_permuted [OF assms(2) on_values_same same_obj(2)] same_obj.prems by simp
qed simp

lemma sort_value_values: "on_values (sort_value le) es = on_values (sort_value le) fs \<Longrightarrow> sort_value le (JObj es) = sort_value le (JObj fs)"
  unfolding sort_value_obj by simp

text \<open>Entries ordered by key, as a list of pairs.\<close>

definition sorted_pairs :: "(string \<Rightarrow> string \<Rightarrow> bool) \<Rightarrow> (string \<times> json) list \<Rightarrow> json" where
  "sorted_pairs le es = JArr (map (\<lambda>(k, v). JArr [JStr k, v]) (sort_by (on_key le fst) es))"

lemma sorted_pairs_same:
  assumes "total_preorder le" "same_json (JObj es) (JObj gs)" "well_keyed le (JObj es)"
  shows "sort_value le (sorted_pairs le es) = sort_value le (sorted_pairs le gs)"
proof -
  have pairs: "sort_value le (sorted_pairs le es) = JArr (map (\<lambda>(k, v). JArr [JStr k, v]) (sort_by (on_key le fst) (on_values (sort_value le) es)))" for es
    using sort_on_values [of le "\<lambda>k. k" "sort_value le" es] by (simp add: sorted_pairs_def) (simp add: on_values_def split_beta)
  show ?thesis
  proof (cases "gs = es")
    case False
    then obtain fs where fs: "list_all2 (\<lambda>e f. fst e = fst f \<and> same_json (snd e) (snd f)) es fs" "mset fs = mset gs"
      using assms(2) by (auto elim: same_json_objE)
    have keyed: "\<And>e. e \<in> set es \<Longrightarrow> well_keyed le (snd e)" using assms(3) by simp
    have "list_all2 (\<lambda>e f. fst e = fst f \<and> sort_value le (snd e) = sort_value le (snd f)) es fs"
      by (rule list.rel_mono_strong [OF fs(1)]) (use keyed sort_value_same [OF _ assms(1)] in blast)
    then have "on_values (sort_value le) es = on_values (sort_value le) fs" by (rule on_values_same)
    moreover have "mset (on_values (sort_value le) fs) = mset (on_values (sort_value le) gs)" using fs(2) by (simp add: on_values_def)
    moreover have "map fst (on_values (sort_value le) es) = map fst es" by (simp add: on_values_def)
    ultimately have "sort_by (on_key le fst) (on_values (sort_value le) es) = sort_by (on_key le fst) (on_values (sort_value le) gs)"
      using sort_by_same_entries [OF assms(1), of "on_values (sort_value le) es"] assms(3) by simp
    then show ?thesis by (simp add: pairs)
  qed simp
qed

lemma config_canonical_same:
  "same_json i j \<Longrightarrow> total_preorder (lc h) \<Longrightarrow> well_keyed (lc h) i \<Longrightarrow> config_canonical h i = config_canonical h j"
  by (simp add: config_canonical_def sort_value_same)

end
