(* ===== verification/Checkpoints.thy ===== *)
theory Checkpoints
  imports Run_Store Graph_Plan Config_Json
begin

text \<open>
  Gate and human nodes: \<open>packages/core/src/runner/graph-checkpoints.ts\<close> over its store port,
  and the port's provider \<open>packages/runtime/src/graph-checkpoint-store.ts\<close> on the run's
  directory. Policies: \<open>packages/schemas/src/checkpoint-policy.ts\<close>.
\<close>

section \<open>Policies and records\<close>

datatype checkpoint_decision = Approve | Reject

datatype checkpoint_mode = Interactive | Automatic

record checkpoint_policy =
  cp_mode :: checkpoint_mode
  cp_decisions :: "(string \<times> checkpoint_decision) list"

datatype decided_by = Operator | RunPolicy

fun mode_string :: "checkpoint_mode \<Rightarrow> string" where
  "mode_string Interactive = ''interactive''"
| "mode_string Automatic = ''automatic''"

fun decision_string :: "checkpoint_decision \<Rightarrow> string" where
  "decision_string Approve = ''approve''"
| "decision_string Reject = ''reject''"

fun by_string :: "decided_by \<Rightarrow> string" where
  "by_string Operator = ''operator''"
| "by_string RunPolicy = ''run_policy''"

text \<open>A stored record is read back by a cast, so its mode and prompt are whatever the JSON has.\<close>

record checkpoint_record =
  ck_id :: string
  ck_node :: string
  ck_version :: string
  ck_mode :: string
  ck_prompt :: string

record decision_record =
  dr_id :: string
  dr_version :: string
  dr_decision :: checkpoint_decision
  dr_by :: string

record gate_record =
  ge_node :: string
  ge_policy :: string
  ge_passed :: bool
  ge_reasons :: "string list"

definition plan_questions_id :: string where
  "plan_questions_id = ''plan-questions''"

text \<open>\<open>checkpointPolicySchema\<close>: preconfigured decisions only in automatic mode.\<close>

definition valid_checkpoint_policy :: "checkpoint_policy \<Rightarrow> bool" where
  "valid_checkpoint_policy p \<longleftrightarrow>
     list_all (\<lambda>(k, _). once_segment k) (cp_decisions p) \<and> (cp_mode p = Interactive \<longrightarrow> cp_decisions p = [])"

section \<open>The store port\<close>

record 'w checkpoint_port =
  cs_current :: "'w \<Rightarrow> string \<Rightarrow> run_error + checkpoint_record option"
  cs_open :: "'w \<Rightarrow> checkpoint_record \<Rightarrow> 'w \<times> (run_error + unit)"
  cs_decision :: "'w \<Rightarrow> string \<Rightarrow> string \<Rightarrow> run_error + decision_record option"
  cs_decide :: "'w \<Rightarrow> decision_record \<Rightarrow> 'w \<times> (run_error + bool)"
  cs_record_gate :: "'w \<Rightarrow> gate_record \<Rightarrow> 'w \<times> (run_error + unit)"
  cs_gate :: "'w \<Rightarrow> string \<Rightarrow> run_error + gate_record option"

section \<open>Nodes and their policies\<close>

definition plain_error :: "string \<Rightarrow> run_error" where
  "plain_error m = NamedError ''Error'' m"

definition config_value :: "runner_node \<Rightarrow> string \<Rightarrow> json option" where
  "config_value node k = (case nd_config node of None \<Rightarrow> None | Some c \<Rightarrow> map_of c k)"

text \<open>A gate policy: from the world and the inputs, whether it passed and its reasons, or an error.\<close>

type_synonym 'w gate_policy = "'w \<Rightarrow> (string \<times> json) list \<Rightarrow> 'w \<times> (run_error + bool \<times> string list)"

definition gate_policy_for :: "runner_node \<Rightarrow> (string \<rightharpoonup> 'w gate_policy) \<Rightarrow> run_error + string \<times> 'w gate_policy" where
  "gate_policy_for node registry =
     (case config_value node ''policy'' of
        Some (JStr i) \<Rightarrow>
          if blank i then Inl (plain_error (''GATE_POLICY_REQUIRED:'' @ nd_id node))
          else (case registry i of
              None \<Rightarrow> Inl (plain_error (''UNKNOWN_GATE_POLICY:'' @ nd_id node @ '':'' @ i))
            | Some p \<Rightarrow> Inr (i, p))
      | _ \<Rightarrow> Inl (plain_error (''GATE_POLICY_REQUIRED:'' @ nd_id node)))"

definition human_policy :: "runner_node \<Rightarrow> checkpoint_policy option \<Rightarrow> run_error + checkpoint_policy" where
  "human_policy node policy =
     (case policy of
        None \<Rightarrow> Inl (plain_error (''CHECKPOINT_POLICY_REQUIRED:'' @ nd_id node))
      | Some p \<Rightarrow>
          if cp_mode p = Automatic \<and> map_of (cp_decisions p) (nd_id node) = None
          then Inl (plain_error (''AUTOMATIC_CHECKPOINT_DECISION_REQUIRED:'' @ nd_id node))
          else Inr p)"

text \<open>One node of \<open>validateGraphCheckpoints\<close>: adds the id of a human node to \<open>humans\<close>.\<close>

definition validate_checkpoint_node ::
  "checkpoint_policy option \<Rightarrow> (string \<rightharpoonup> 'w gate_policy) \<Rightarrow> runner_node \<Rightarrow> string list \<Rightarrow> run_error + string list" where
  "validate_checkpoint_node policy registry node humans =
     (if nd_kind node \<noteq> Gate \<and> nd_kind node \<noteq> Human then Inr humans
      else if \<not> once_segment (nd_id node) then Inl (plain_error (''INVALID_CHECKPOINT_NODE_ID:'' @ nd_id node))
      else if nd_id node = plan_questions_id then Inl (plain_error (''RESERVED_CHECKPOINT_ID:'' @ nd_id node))
      else if nd_kind node = Gate then result_bind (gate_policy_for node registry) (\<lambda>_. Inr humans)
      else result_bind (human_policy node policy) (\<lambda>_. Inr (set_add (nd_id node) humans)))"

definition validate_graph_checkpoints ::
  "runner_graph \<Rightarrow> checkpoint_policy option \<Rightarrow> (string \<rightharpoonup> 'w gate_policy) \<Rightarrow> run_error + unit" where
  "validate_graph_checkpoints g policy registry =
     result_bind (result_fold (validate_checkpoint_node policy registry) (gr_nodes g) []) (\<lambda>humans.
     result_fold (\<lambda>(k, _) _. if k \<in> set humans then Inr () else Inl (plain_error (''UNKNOWN_CHECKPOINT_NODE:'' @ k)))
       (case policy of None \<Rightarrow> [] | Some p \<Rightarrow> cp_decisions p) ())"

text \<open>
  \<open>checkpointVersion\<close>: the digest of the sorted JSON text of the node and of its inputs, these ordered by their keys. The
  inputs are outputs of nodes, JSON data.
\<close>

definition checkpoint_subject :: "js_host \<Rightarrow> runner_node \<Rightarrow> (string \<times> json) list \<Rightarrow> json" where
  "checkpoint_subject h node inputs =
     JObj [(''node'', json_of_node node), (''inputs'', sorted_pairs (lc h) inputs)]"

definition checkpoint_version :: "js_host \<Rightarrow> runner_node \<Rightarrow> (string \<times> json) list \<Rightarrow> string" where
  "checkpoint_version h node inputs = sha256 h (utf8 (config_canonical h (checkpoint_subject h node inputs)))"

definition prompt_for :: "runner_node \<Rightarrow> string" where
  "prompt_for node =
     (case config_value node ''prompt'' of Some (JStr s) \<Rightarrow> if blank s then nd_label node else s | _ \<Rightarrow> nd_label node)"

section \<open>Executors and responses\<close>

definition rejected_error :: "string \<Rightarrow> run_error" where
  "rejected_error i = NamedError ''CheckpointRejectedError'' (''CHECKPOINT_REJECTED:'' @ i)"

definition gate_failed_error :: "string \<Rightarrow> string list \<Rightarrow> run_error" where
  "gate_failed_error i reasons = NamedError ''GateFailedError'' (''GATE_FAILED:'' @ i @ '':'' @ join_with '','' reasons)"

definition response_error :: "string \<Rightarrow> run_error" where
  "response_error code = NamedError ''CheckpointResponseError'' code"

definition gate_node ::
  "'w checkpoint_port \<Rightarrow> (string \<rightharpoonup> 'w gate_policy) \<Rightarrow> 'w \<Rightarrow> runner_node \<Rightarrow> (string \<times> json) list \<Rightarrow>
     'w \<times> (run_error + gate_record)" where
  "gate_node S registry w node inputs =
     (case gate_policy_for node registry of
        Inl e \<Rightarrow> (w, Inl e)
      | Inr (i, policy) \<Rightarrow>
          (case policy w inputs of
             (w1, Inl e) \<Rightarrow> (w1, Inl e)
           | (w1, Inr (passed, given)) \<Rightarrow>
               (let reasons = (if passed then given else if given = [] then [''gate_policy_failed''] else given);
                    record = \<lparr>ge_node = nd_id node, ge_policy = i, ge_passed = passed, ge_reasons = reasons\<rparr> in
                case cs_record_gate S w1 record of
                  (w2, Inl e) \<Rightarrow> (w2, Inl e)
                | (w2, Inr _) \<Rightarrow>
                    if \<not> passed then (w2, Inl (gate_failed_error (nd_id node) reasons)) else (w2, Inr record))))"

text \<open>The record of a human node's current subject.\<close>

definition human_record :: "js_host \<Rightarrow> checkpoint_policy \<Rightarrow> runner_node \<Rightarrow> string \<Rightarrow> checkpoint_record" where
  "human_record h p node version =
     \<lparr>ck_id = nd_id node, ck_node = nd_id node, ck_version = version, ck_mode = mode_string (cp_mode p),
      ck_prompt = prompt_for node\<rparr>"

definition open_if_new ::
  "'w checkpoint_port \<Rightarrow> 'w \<Rightarrow> checkpoint_record \<Rightarrow> 'w \<times> (run_error + unit)" where
  "open_if_new S w record =
     (case cs_current S w (ck_node record) of
        Inl e \<Rightarrow> (w, Inl e)
      | Inr cur \<Rightarrow>
          (case cur of
             Some c \<Rightarrow>
               if ck_version c \<noteq> ck_version record \<or> ck_mode c \<noteq> ck_mode record then cs_open S w record else (w, Inr ())
           | None \<Rightarrow> cs_open S w record))"

text \<open>Automatic mode records the configured decision; interactive mode records nothing.\<close>

definition configure_decision ::
  "'w checkpoint_port \<Rightarrow> checkpoint_policy \<Rightarrow> 'w \<Rightarrow> string \<Rightarrow> string \<Rightarrow> 'w \<times> (run_error + unit)" where
  "configure_decision S p w node version =
     (if cp_mode p \<noteq> Automatic then (w, Inr ())
      else (case map_of (cp_decisions p) node of
          None \<Rightarrow> (w, Inl (plain_error (''AUTOMATIC_CHECKPOINT_DECISION_REQUIRED:'' @ node)))
        | Some d \<Rightarrow>
            (case cs_decide S w \<lparr>dr_id = node, dr_version = version, dr_decision = d, dr_by = ''run_policy''\<rparr> of
               (w1, Inl e) \<Rightarrow> (w1, Inl e)
             | (w1, Inr _) \<Rightarrow> (w1, Inr ()))))"

definition read_decision ::
  "'w checkpoint_port \<Rightarrow> 'w \<Rightarrow> string \<Rightarrow> string \<Rightarrow> 'w \<times> (run_error + decision_record)" where
  "read_decision S w node version =
     (case cs_decision S w node version of
        Inl e \<Rightarrow> (w, Inl e)
      | Inr None \<Rightarrow> (w, Inl (OperatorCheckpoint (node @ '':'' @ version)))
      | Inr (Some d) \<Rightarrow>
          if dr_decision d = Reject then (w, Inl (rejected_error node)) else (w, Inr d))"

definition human_node ::
  "js_host \<Rightarrow> 'w checkpoint_port \<Rightarrow> checkpoint_policy option \<Rightarrow> 'w \<Rightarrow> runner_node \<Rightarrow> (string \<times> json) list \<Rightarrow>
     'w \<times> (run_error + decision_record)" where
  "human_node h S policy w node inputs =
     (case human_policy node policy of
        Inl e \<Rightarrow> (w, Inl e)
      | Inr p \<Rightarrow>
          (let version = checkpoint_version h node inputs in
           case open_if_new S w (human_record h p node version) of
             (w1, Inl e) \<Rightarrow> (w1, Inl e)
           | (w1, Inr _) \<Rightarrow>
               (case configure_decision S p w1 (nd_id node) version of
                  (w2, Inl e) \<Rightarrow> (w2, Inl e)
                | (w2, Inr _) \<Rightarrow> read_decision S w2 (nd_id node) version)))"

definition respond ::
  "'w checkpoint_port \<Rightarrow> checkpoint_policy option \<Rightarrow> 'w \<Rightarrow> string \<Rightarrow> string \<Rightarrow> checkpoint_decision \<Rightarrow>
     'w \<times> (run_error + decision_record)" where
  "respond S policy w i version d =
     (if map_option cp_mode policy \<noteq> Some Interactive then (w, Inl (response_error ''CHECKPOINT_NOT_INTERACTIVE''))
      else (case cs_current S w i of
          Inl e \<Rightarrow> (w, Inl e)
        | Inr None \<Rightarrow> (w, Inl (response_error ''CHECKPOINT_NOT_FOUND''))
        | Inr (Some c) \<Rightarrow>
            if ck_version c \<noteq> version then (w, Inl (response_error ''STALE_CHECKPOINT''))
            else (let record = \<lparr>dr_id = i, dr_version = version, dr_decision = d, dr_by = ''operator''\<rparr> in
              case cs_decide S w record of
                (w1, Inl e) \<Rightarrow> (w1, Inl e)
              | (w1, Inr created) \<Rightarrow>
                  if created then (w1, Inr record) else (w1, Inl (response_error ''CHECKPOINT_ALREADY_DECIDED'')))))"

section \<open>Views and gate reasons\<close>

fun status_of :: "decision_record option \<Rightarrow> string" where
  "status_of None = ''pending''"
| "status_of (Some d) = (if dr_decision d = Approve then ''approved'' else ''rejected'')"

definition checkpoint_view :: "'w checkpoint_port \<Rightarrow> 'w \<Rightarrow> string \<Rightarrow> run_error + (checkpoint_record \<times> string) list" where
  "checkpoint_view S w i =
     result_bind (cs_current S w i) (\<lambda>cur.
       case cur of
         None \<Rightarrow> Inr []
       | Some c \<Rightarrow> result_bind (cs_decision S w (ck_id c) (ck_version c)) (\<lambda>d. Inr [(c, status_of d)]))"

definition list_checkpoints :: "'w checkpoint_port \<Rightarrow> 'w \<Rightarrow> runner_graph \<Rightarrow> run_error + (checkpoint_record \<times> string) list" where
  "list_checkpoints S w g =
     result_bind (result_map (\<lambda>n. checkpoint_view S w (nd_id n)) (filter (\<lambda>n. nd_kind n = Human) (gr_nodes g)))
       (\<lambda>vs. Inr (concat vs))"

definition gate_reasons :: "'w checkpoint_port \<Rightarrow> 'w \<Rightarrow> runner_graph \<Rightarrow> run_error + string list" where
  "gate_reasons S w g =
     result_bind (list_checkpoints S w g) (\<lambda>views.
     result_bind (result_map (\<lambda>n. result_bind (cs_gate S w (nd_id n)) (\<lambda>e.
         Inr (case e of Some r \<Rightarrow> if ge_passed r then [] else [''gate_failed:'' @ nd_id n] | None \<Rightarrow> [])))
       (filter (\<lambda>n. nd_kind n = Gate) (gr_nodes g))) (\<lambda>gates.
     Inr (concat (map (\<lambda>(c, st). if st = ''pending'' then [''checkpoint_pending:'' @ ck_id c]
             else if st = ''rejected'' then [''checkpoint_rejected:'' @ ck_id c] else []) views) @ concat gates)))"

section \<open>The contract of the store\<close>

text \<open>
  \<open>decided w i v\<close> is the decision that \<open>w\<close> holds for version \<open>v\<close> of checkpoint \<open>i\<close>. It is
  made once: \<open>decide\<close> writes where there is none and tells whether it wrote, and no operation changes
  or removes one. A \<open>decide\<close> that throws may have written.
\<close>

locale checkpoint_store =
  fixes S :: "'w checkpoint_port" and decided :: "'w \<Rightarrow> string \<Rightarrow> string \<Rightarrow> decision_record option"
  assumes decision_reads: "cs_decision S w i v = Inr x \<Longrightarrow> x = decided w i v"
    and decide_wrote: "cs_decide S w r = (w', Inr True) \<Longrightarrow>
      decided w (dr_id r) (dr_version r) = None \<and> decided w' (dr_id r) (dr_version r) = Some r"
    and decide_present: "cs_decide S w r = (w', Inr False) \<Longrightarrow>
      w' = w \<and> (decided w (dr_id r) (dr_version r) \<noteq> None \<or> (\<exists>e. cs_decision S w (dr_id r) (dr_version r) = Inl e))"
    and decide_keeps: "decided w i v = Some d \<Longrightarrow> decided (fst (cs_decide S w r)) i v = Some d"
    and decide_only: "decided (fst (cs_decide S w r)) i v \<noteq> decided w i v \<Longrightarrow>
      i = dr_id r \<and> v = dr_version r \<and> decided (fst (cs_decide S w r)) i v = Some r"
    and open_keeps: "decided (fst (cs_open S w c)) = decided w"
    and gate_keeps: "decided (fst (cs_record_gate S w g)) = decided w"
    and store_errors: "cs_current S w i = Inl e \<Longrightarrow> e \<noteq> OperatorCheckpoint art"
      "cs_open S w c = (w', Inl e) \<Longrightarrow> e \<noteq> OperatorCheckpoint art"
      "cs_decide S w r = (w', Inl e) \<Longrightarrow> e \<noteq> OperatorCheckpoint art"
      "cs_decision S w i v = Inl e \<Longrightarrow> e \<noteq> OperatorCheckpoint art"
begin

lemma open_if_new_decided: "open_if_new S w c = (w', r) \<Longrightarrow> decided w' = decided w"
  using open_keeps by (auto simp: open_if_new_def split: sum.splits option.splits if_splits) (metis fst_conv)+

lemma open_if_new_error: "open_if_new S w c = (w', Inl e) \<Longrightarrow> e \<noteq> OperatorCheckpoint art"
  using store_errors(1,2) by (auto simp: open_if_new_def split: sum.splits option.splits if_splits)

lemma configure_error: "configure_decision S p w n v = (w', Inl e) \<Longrightarrow> e \<noteq> OperatorCheckpoint art"
  using store_errors(3)
  by (auto simp: configure_decision_def plain_error_def split: if_splits option.splits prod.splits sum.splits)

lemma configure_present:
  assumes "configure_decision S p w n v = (w', Inr u)" "cp_mode p = Automatic"
  shows "decided w' n v \<noteq> None \<or> (\<exists>e. cs_decision S w' n v = Inl e)"
proof -
  from assms obtain d b where dec: "cs_decide S w \<lparr>dr_id = n, dr_version = v, dr_decision = d, dr_by = ''run_policy''\<rparr> = (w', Inr b)"
    by (auto simp: configure_decision_def split: option.splits prod.splits sum.splits)
  show ?thesis
  proof (cases b)
    case True
    with decide_wrote [of w _ w'] dec show ?thesis by fastforce
  next
    case False
    then show ?thesis using decide_present [of w _ w'] dec by fastforce
  qed
qed

lemma configure_decided:
  assumes "configure_decision S p w n v = (w', r)" "decided w i u = Some d"
  shows "decided w' i u = Some d"
  using assms decide_keeps
  by (auto simp: configure_decision_def split: if_splits option.splits prod.splits sum.splits) (metis fst_conv)+

lemma configure_new:
  assumes "configure_decision S p w n v = (w', r)" "decided w' i u \<noteq> decided w i u"
  shows "cp_mode p = Automatic \<and> i = n \<and> u = v
    \<and> (\<exists>d. map_of (cp_decisions p) n = Some d
        \<and> decided w' n v = Some \<lparr>dr_id = n, dr_version = v, dr_decision = d, dr_by = ''run_policy''\<rparr>)"
proof -
  from assms obtain d where d: "cp_mode p = Automatic" "map_of (cp_decisions p) n = Some d"
    by (auto simp: configure_decision_def split: if_splits option.splits)
  let ?r = "\<lparr>dr_id = n, dr_version = v, dr_decision = d, dr_by = ''run_policy''\<rparr>"
  from assms(1) d have "w' = fst (cs_decide S w ?r)"
    by (auto simp: configure_decision_def split: prod.splits sum.splits)
  with decide_only [of w ?r i u] assms(2) d show ?thesis by auto
qed

text \<open>The shape of a human node that gets past its policy and version.\<close>

lemma human_cases:
  assumes "human_node h S policy w node inputs = (w', r)" "human_policy node policy = Inr p"
    "checkpoint_version h node inputs = v"
  obtains (stopped) e where "r = Inl e" "\<And>i u d. decided w i u = Some d \<Longrightarrow> decided w' i u = Some d"
      "\<And>art. e \<noteq> OperatorCheckpoint art"
    | (read) w1 where "decided w1 = decided w" "configure_decision S p w1 (nd_id node) v = (w', Inr ())"
      "read_decision S w' (nd_id node) v = (w', r)"
proof -
  obtain w1 r1 where op: "open_if_new S w (human_record h p node v) = (w1, r1)" by (metis surj_pair)
  note d1 = open_if_new_decided [OF op]
  show thesis
  proof (cases r1)
    case (Inl e)
    with assms op have "r = Inl e" "w' = w1" by (simp_all add: human_node_def Let_def)
    show thesis
    proof (rule stopped)
      show "r = Inl e" by fact
      show "decided w' i u = Some d" if "decided w i u = Some d" for i u d using that d1 \<open>w' = w1\<close> by simp
      show "e \<noteq> OperatorCheckpoint art" for art using open_if_new_error op Inl by simp
    qed
  next
    case (Inr u)
    obtain w2 r2 where conf: "configure_decision S p w1 (nd_id node) v = (w2, r2)" by (metis surj_pair)
    show thesis
    proof (cases r2)
      case (Inl e)
      with assms op Inr conf have "r = Inl e" "w' = w2" by (simp_all add: human_node_def Let_def)
      show thesis
      proof (rule stopped)
        show "r = Inl e" by fact
        show "decided w' i u = Some d" if "decided w i u = Some d" for i u d
          using configure_decided [OF conf] that d1 \<open>w' = w2\<close> by simp
        show "e \<noteq> OperatorCheckpoint art" for art using configure_error conf Inl by simp
      qed
    next
      case r2: (Inr x)
      have "fst (read_decision S w2 (nd_id node) v) = w2"
        by (auto simp: read_decision_def split: sum.splits option.splits if_splits)
      moreover have "human_node h S policy w node inputs = read_decision S w2 (nd_id node) v"
        using assms op Inr conf r2 by (simp add: human_node_def Let_def)
      ultimately have "w' = w2" "read_decision S w2 (nd_id node) v = (w', r)" using assms(1) by (metis fst_conv, simp)
      then show thesis using read [of w1] d1 conf r2 by simp
    qed
  qed
qed

text \<open>
  No implicit pass: a human node passes only on an approval of the current version; one that was not
  there before comes from the run policy.
\<close>

lemma human_passes:
  assumes "human_node h S policy w node inputs = (w', Inr d)"
  shows "\<exists>v p. checkpoint_version h node inputs = v \<and> human_policy node policy = Inr p
    \<and> decided w' (nd_id node) v = Some d \<and> dr_decision d = Approve
    \<and> (decided w (nd_id node) v = Some d
       \<or> (cp_mode p = Automatic \<and> map_of (cp_decisions p) (nd_id node) = Some Approve \<and> dr_by d = ''run_policy''))"
proof -
  from assms obtain p v where pv: "human_policy node policy = Inr p" "checkpoint_version h node inputs = v"
    by (auto simp: human_node_def Let_def split: sum.splits)
  from assms pv show ?thesis
  proof (cases rule: human_cases)
    case (read w1)
    then have "decided w' (nd_id node) v = Some d \<and> dr_decision d \<noteq> Reject"
      using decision_reads [of w' "nd_id node" v] by (auto simp: read_decision_def split: sum.splits option.splits if_splits)
    then have d: "decided w' (nd_id node) v = Some d" "dr_decision d = Approve" by (cases "dr_decision d"; simp)+
    show ?thesis
    proof (cases "decided w' (nd_id node) v = decided w (nd_id node) v")
      case True
      with d pv show ?thesis by auto
    next
      case False
      with configure_new [OF read(2)] read(1) have "cp_mode p = Automatic"
        "\<exists>c. map_of (cp_decisions p) (nd_id node) = Some c
          \<and> decided w' (nd_id node) v = Some \<lparr>dr_id = nd_id node, dr_version = v, dr_decision = c, dr_by = ''run_policy''\<rparr>"
        by metis+
      with d pv show ?thesis by auto
    qed
  qed simp
qed

text \<open>An automatic run never waits for an operator.\<close>

lemma automatic_never_waits:
  assumes "human_node h S policy w node inputs = (w', Inl (OperatorCheckpoint x))" "human_policy node policy = Inr p"
  shows "cp_mode p \<noteq> Automatic"
proof
  assume auto: "cp_mode p = Automatic"
  obtain v where v: "checkpoint_version h node inputs = v" by blast
  from assms(1,2) v show False
  proof (cases rule: human_cases)
    case stopped
    then show False by blast
  next
    case (read w1)
    then have "decided w' (nd_id node) v \<noteq> None \<or> (\<exists>e. cs_decision S w' (nd_id node) v = Inl e)"
      using configure_present auto by blast
    with read(3) decision_reads store_errors(4) show False
      by (auto simp: read_decision_def rejected_error_def split: sum.splits option.splits if_splits)
  qed
qed

text \<open>A decision is final: later executions of the node on the same inputs follow it, and no response replaces it.\<close>

lemma human_final:
  assumes "decided w (nd_id node) v = Some d" "checkpoint_version h node inputs = v"
    and "human_node h S policy w node inputs = (w', r)"
  shows "decided w' (nd_id node) v = Some d" "r = Inr d' \<Longrightarrow> d' = d \<and> dr_decision d = Approve"
proof -
  have "decided w' (nd_id node) v = Some d"
  proof (cases "human_policy node policy")
    case (Inl e)
    with assms show ?thesis by (simp add: human_node_def Let_def)
  next
    case (Inr p)
    from assms(3) Inr assms(2) show ?thesis
    proof (cases rule: human_cases)
      case stopped
      with assms(1) show ?thesis by blast
    next
      case (read w1)
      with assms(1) configure_decided show ?thesis by metis
    qed
  qed
  then show "decided w' (nd_id node) v = Some d" "r = Inr d' \<Longrightarrow> d' = d \<and> dr_decision d = Approve"
    using human_passes [of h policy w node inputs w' d'] assms by auto
qed

lemma respond_decided:
  assumes "respond S policy w i v c = (w', r)"
  shows "decided w j u = Some d \<Longrightarrow> decided w' j u = Some d"
    and "r = Inr rec \<Longrightarrow> decided w i v = None \<and> decided w' i v = Some rec \<and> dr_decision rec = c"
    and "decided w i v = Some d \<Longrightarrow> \<exists>e. r = Inl e"
proof -
  let ?r = "\<lparr>dr_id = i, dr_version = v, dr_decision = c, dr_by = ''operator''\<rparr>"
  have cases: "(w' = w \<and> (\<exists>e. r = Inl e)) \<or> (cs_decide S w ?r = (w', Inr True) \<and> r = Inr ?r)
      \<or> (w' = fst (cs_decide S w ?r) \<and> (\<exists>e. r = Inl e))"
    using assms by (auto simp: respond_def Let_def split: if_splits sum.splits option.splits prod.splits)
  show "decided w j u = Some d \<Longrightarrow> decided w' j u = Some d"
    using cases decide_keeps [of w j u d ?r] by auto
  show "r = Inr rec \<Longrightarrow> decided w i v = None \<and> decided w' i v = Some rec \<and> dr_decision rec = c"
    using cases decide_wrote [of w ?r w'] by auto
  show "decided w i v = Some d \<Longrightarrow> \<exists>e. r = Inl e" using cases decide_wrote [of w ?r w'] by auto
qed

end

section \<open>The store on the run's directory\<close>

definition field :: "json \<Rightarrow> string \<Rightarrow> json option" where
  "field j k = (case j of JObj es \<Rightarrow> map_of es k | _ \<Rightarrow> None)"

definition string_field :: "json \<Rightarrow> string \<Rightarrow> string option" where
  "string_field j k = (case field j k of Some (JStr s) \<Rightarrow> Some s | _ \<Rightarrow> None)"

definition text_field :: "json \<Rightarrow> string \<Rightarrow> string" where
  "text_field j k = (case string_field j k of Some s \<Rightarrow> s | None \<Rightarrow> ''undefined'')"

definition json_of_decision :: "decision_record \<Rightarrow> json" where
  "json_of_decision d = JObj [(''checkpointId'', JStr (dr_id d)), (''version'', JStr (dr_version d)),
     (''decision'', JStr (decision_string (dr_decision d))), (''decidedBy'', JStr (dr_by d))]"

definition decision_of_json :: "string \<Rightarrow> string \<Rightarrow> json \<Rightarrow> decision_record option" where
  "decision_of_json i v j =
     (if string_field j ''checkpointId'' \<noteq> Some i \<or> string_field j ''version'' \<noteq> Some v then None
      else if string_field j ''decision'' = Some ''approve''
      then Some \<lparr>dr_id = i, dr_version = v, dr_decision = Approve, dr_by = text_field j ''decidedBy''\<rparr>
      else if string_field j ''decision'' = Some ''reject''
      then Some \<lparr>dr_id = i, dr_version = v, dr_decision = Reject, dr_by = text_field j ''decidedBy''\<rparr>
      else None)"

definition json_of_checkpoint :: "checkpoint_record \<Rightarrow> json" where
  "json_of_checkpoint c = JObj [(''schemaVersion'', JNum (num 1)), (''checkpointId'', JStr (ck_id c)), (''nodeId'', JStr (ck_node c)),
     (''mode'', JStr (ck_mode c)), (''version'', JStr (ck_version c)), (''prompt'', JStr (ck_prompt c)),
     (''decisions'', JArr [JStr ''approve'', JStr ''reject''])]"

definition json_of_gate :: "gate_record \<Rightarrow> json" where
  "json_of_gate g = JObj [(''nodeId'', JStr (ge_node g)), (''policy'', JStr (ge_policy g)), (''passed'', JBool (ge_passed g)),
     (''reasons'', JArr (map JStr (ge_reasons g)))]"

definition read_named :: "js_host \<Rightarrow> world \<Rightarrow> string \<Rightarrow> run_error + json option" where
  "read_named h w kind =
     (case find (\<lambda>d. ds_kind d = kind) (wd_index w) of
        None \<Rightarrow> Inr None
      | Some d \<Rightarrow> result_bind (world_get h w (ds_ref d)) (\<lambda>j. Inr (Some j)))"

definition stored_current :: "js_host \<Rightarrow> world \<Rightarrow> string \<Rightarrow> run_error + checkpoint_record option" where
  "stored_current h w i =
     result_bind (read_named h w (''checkpoint-'' @ i)) (\<lambda>x.
       case x of
         None \<Rightarrow> Inr None
       | Some j \<Rightarrow>
           if string_field j ''checkpointId'' \<noteq> Some i \<or> \<not> (\<exists>v \<in> set_option (string_field j ''version''). valid_hash v)
           then Inl (plain_error (''INVALID_CHECKPOINT_RECORD:'' @ i))
           else Inr (Some \<lparr>ck_id = i, ck_node = text_field j ''nodeId'', ck_version = text_field j ''version'',
                           ck_mode = text_field j ''mode'', ck_prompt = text_field j ''prompt''\<rparr>))"

definition stored_open :: "js_host \<Rightarrow> string \<Rightarrow> (json \<Rightarrow> json option) \<Rightarrow> world \<Rightarrow> checkpoint_record \<Rightarrow> world \<times> (run_error + unit)" where
  "stored_open h pid redact w c =
     (case publish_artifact h pid redact w (''checkpoint-'' @ ck_id c @ ''-version-'' @ take 16 (ck_version c))
        (json_of_checkpoint c) (Some (ck_node c)) of
        (w1, Inl e) \<Rightarrow> (w1, Inl e)
      | (w1, Inr _) \<Rightarrow>
          (case publish_artifact h pid redact w1 (''checkpoint-'' @ ck_id c) (json_of_checkpoint c) (Some (ck_node c)) of
             (w2, Inl e) \<Rightarrow> (w2, Inl e)
           | (w2, Inr _) \<Rightarrow> (w2, Inr ())))"

definition stored_decision :: "world \<Rightarrow> string \<Rightarrow> string \<Rightarrow> run_error + decision_record option" where
  "stored_decision w i v =
     result_bind (read_once w [''checkpoints'', i, v]) (\<lambda>x.
       case x of
         None \<Rightarrow> Inr None
       | Some j \<Rightarrow>
           (case decision_of_json i v j of
              None \<Rightarrow> Inl (plain_error (''INVALID_CHECKPOINT_DECISION_RECORD:'' @ i))
            | Some d \<Rightarrow> Inr (Some d)))"

definition stored_decide ::
  "js_host \<Rightarrow> string \<Rightarrow> (json \<Rightarrow> json option) \<Rightarrow> world \<Rightarrow> decision_record \<Rightarrow> world \<times> (run_error + bool)" where
  "stored_decide h pid redact w d =
     (case create_once w [''checkpoints'', dr_id d, dr_version d] (json_of_decision d) of
        (w1, Inl e) \<Rightarrow> (w1, Inl e)
      | (w1, Inr False) \<Rightarrow> (w1, Inr False)
      | (w1, Inr True) \<Rightarrow>
          (case publish_artifact h pid redact w1 (''checkpoint-'' @ dr_id d @ ''-decision-'' @ take 16 (dr_version d))
             (json_of_decision d) (Some (dr_id d)) of
             (w2, Inl e) \<Rightarrow> (w2, Inl e)
           | (w2, Inr _) \<Rightarrow> (w2, Inr True)))"

definition stored_record_gate ::
  "js_host \<Rightarrow> string \<Rightarrow> (json \<Rightarrow> json option) \<Rightarrow> world \<Rightarrow> gate_record \<Rightarrow> world \<times> (run_error + unit)" where
  "stored_record_gate h pid redact w g =
     (case publish_artifact h pid redact w (''gate-evaluation-'' @ ge_node g) (json_of_gate g) (Some (ge_node g)) of
        (w1, Inl e) \<Rightarrow> (w1, Inl e)
      | (w1, Inr _) \<Rightarrow> (w1, Inr ()))"

definition stored_gate :: "js_host \<Rightarrow> world \<Rightarrow> string \<Rightarrow> run_error + gate_record option" where
  "stored_gate h w n =
     result_bind (read_named h w (''gate-evaluation-'' @ n)) (\<lambda>x. Inr (map_option (\<lambda>j.
       \<lparr>ge_node = text_field j ''nodeId'', ge_policy = text_field j ''policy'',
        ge_passed = (field j ''passed'' = Some (JBool True)),
        ge_reasons = (case field j ''reasons'' of Some (JArr rs) \<Rightarrow> List.map_filter (\<lambda>r. case r of JStr s \<Rightarrow> Some s | _ \<Rightarrow> None) rs
          | _ \<Rightarrow> [])\<rparr>) x))"

definition graph_checkpoint_store :: "js_host \<Rightarrow> string \<Rightarrow> (json \<Rightarrow> json option) \<Rightarrow> world checkpoint_port" where
  "graph_checkpoint_store h pid redact =
     \<lparr>cs_current = stored_current h, cs_open = stored_open h pid redact, cs_decision = stored_decision,
      cs_decide = stored_decide h pid redact, cs_record_gate = stored_record_gate h pid redact, cs_gate = stored_gate h\<rparr>"

definition decided_in :: "world \<Rightarrow> string \<Rightarrow> string \<Rightarrow> decision_record option" where
  "decided_in w i v = (case wd_once w [''checkpoints'', i, v] of None \<Rightarrow> None | Some j \<Rightarrow> decision_of_json i v j)"

lemma decision_roundtrip: "decision_of_json (dr_id d) (dr_version d) (json_of_decision d) = Some d"
  by (cases "dr_decision d")
    (simp_all add: decision_of_json_def json_of_decision_def string_field_def field_def text_field_def)

lemma publish_once: "wd_once (fst (publish_artifact h pid redact w k v n)) = wd_once w"
  using world_put_state(2) [of h pid w]
  by (auto simp: publish_artifact_def Let_def split: option.splits prod.splits sum.splits) (metis fst_conv)+

lemma publish_onceD: "publish_artifact h pid redact w k v n = (w', r) \<Longrightarrow> wd_once w' = wd_once w"
  using publish_once [of h pid redact w k v n] by simp

lemma store_run_error_plain: "store_run_error e \<noteq> OperatorCheckpoint art"
  by (cases e) auto

lemma world_get_plain: "world_get h w ref = Inl e \<Longrightarrow> e \<noteq> OperatorCheckpoint art"
  by (cases "store_get h (wd_files w) ref") (auto simp: world_get_def store_run_error_plain)

lemma publish_plain: "publish_artifact h pid redact w k v n = (w', Inl e) \<Longrightarrow> e \<noteq> OperatorCheckpoint art"
  using store_run_error_plain
  by (auto simp: publish_artifact_def world_put_def map_error_def Let_def split: option.splits prod.splits sum.splits)

lemma decided_cong: "wd_once w = wd_once w' \<Longrightarrow> decided_in w = decided_in w'"
  by (simp add: fun_eq_iff decided_in_def)

lemma stored_decide_once:
  "wd_once (fst (stored_decide h pid redact w d)) = wd_once (fst (create_once w [''checkpoints'', dr_id d, dr_version d] (json_of_decision d)))"
  by (auto simp: stored_decide_def split: prod.splits sum.splits bool.splits dest!: publish_onceD)

lemma create_once_other:
  "wd_once (fst (create_once w p v)) q \<noteq> wd_once w q \<Longrightarrow> q = p \<and> wd_once w q = None \<and> wd_once (fst (create_once w p v)) q = Some v"
  by (auto simp: create_once_def once_path_def split: if_splits)

lemma stored_decide_changes:
  assumes "decided_in (fst (stored_decide h pid redact w d)) i v \<noteq> decided_in w i v"
  shows "i = dr_id d \<and> v = dr_version d \<and> decided_in w i v = None \<and> decided_in (fst (stored_decide h pid redact w d)) i v = Some d"
proof -
  have "wd_once (fst (stored_decide h pid redact w d)) [''checkpoints'', i, v] \<noteq> wd_once w [''checkpoints'', i, v]"
    using assms by (auto simp: decided_in_def)
  from create_once_other [OF this [unfolded stored_decide_once]] show ?thesis
    by (auto simp: decided_in_def stored_decide_once decision_roundtrip)
qed

lemma once_path_cases: "once_path p = Inr p \<or> (\<exists>e. once_path p = Inl (NamedError ''Error'' e))"
  by (simp add: once_path_def)

lemma stored_decision_cases:
  "(\<exists>e. stored_decision w i v = Inl (NamedError ''Error'' e)) \<or> stored_decision w i v = Inr (decided_in w i v)"
  using once_path_cases [of "[''checkpoints'', i, v]"]
  by (auto simp: stored_decision_def read_once_def result_bind_def decided_in_def plain_error_def split: option.splits)

interpretation graph_store: checkpoint_store "graph_checkpoint_store h pid redact" decided_in for h pid redact
proof
  fix w w' :: world and i v r x c g e art
  let ?S = "graph_checkpoint_store h pid redact"
  show "x = decided_in w i v" if "cs_decision ?S w i v = Inr x"
    using that stored_decision_cases [of w i v] by (auto simp: graph_checkpoint_store_def)
  show "decided_in w (dr_id r) (dr_version r) = None \<and> decided_in w' (dr_id r) (dr_version r) = Some r"
    if "cs_decide ?S w r = (w', Inr True)"
  proof -
    from that obtain w1 where c: "create_once w [''checkpoints'', dr_id r, dr_version r] (json_of_decision r) = (w1, Inr True)"
      by (auto simp: graph_checkpoint_store_def stored_decide_def split: prod.splits sum.splits bool.splits)
    from create_once_written [OF c] have "wd_once w [''checkpoints'', dr_id r, dr_version r] = None"
      "wd_once w1 [''checkpoints'', dr_id r, dr_version r] = Some (json_of_decision r)" by auto
    moreover have "wd_once w' = wd_once w1"
      using that stored_decide_once [of h pid redact w r] c by (simp add: graph_checkpoint_store_def)
    ultimately show ?thesis by (simp add: decided_in_def decision_roundtrip)
  qed
  show "w' = w \<and> (decided_in w (dr_id r) (dr_version r) \<noteq> None \<or> (\<exists>e. cs_decision ?S w (dr_id r) (dr_version r) = Inl e))"
    if "cs_decide ?S w r = (w', Inr False)"
  proof -
    from that have c: "create_once w [''checkpoints'', dr_id r, dr_version r] (json_of_decision r) = (w', Inr False)"
      by (auto simp: graph_checkpoint_store_def stored_decide_def split: prod.splits sum.splits bool.splits)
    then have "w' = w" "wd_once w [''checkpoints'', dr_id r, dr_version r] \<noteq> None"
      "once_path [''checkpoints'', dr_id r, dr_version r] = Inr [''checkpoints'', dr_id r, dr_version r]"
      by (auto simp: create_once_def once_path_def split: if_splits)
    then show ?thesis
      by (auto simp: graph_checkpoint_store_def stored_decision_def read_once_def decided_in_def result_bind_def
          split: option.splits)
  qed
  show "decided_in (fst (cs_decide ?S w r)) i v = Some d" if "decided_in w i v = Some d" for d
    using that stored_decide_changes [of h pid redact w r i v] by (auto simp: graph_checkpoint_store_def)
  show "i = dr_id r \<and> v = dr_version r \<and> decided_in (fst (cs_decide ?S w r)) i v = Some r"
    if "decided_in (fst (cs_decide ?S w r)) i v \<noteq> decided_in w i v"
    using stored_decide_changes [of h pid redact w r i v] that
    unfolding graph_checkpoint_store_def checkpoint_port.select_convs by blast
  show "decided_in (fst (cs_open ?S w c)) = decided_in w"
    by (rule decided_cong)
      (auto simp: graph_checkpoint_store_def stored_open_def split: prod.splits sum.splits dest!: publish_onceD)
  show "decided_in (fst (cs_record_gate ?S w g)) = decided_in w"
    by (rule decided_cong)
      (auto simp: graph_checkpoint_store_def stored_record_gate_def split: prod.splits sum.splits dest!: publish_onceD)
  show "e \<noteq> OperatorCheckpoint art" if "cs_current ?S w i = Inl e"
    using that world_get_plain
    by (auto simp: graph_checkpoint_store_def stored_current_def read_named_def plain_error_def result_simps
        split: option.splits if_splits)
  show "e \<noteq> OperatorCheckpoint art" if "cs_open ?S w c = (w', Inl e)"
    using that publish_plain
    by (auto simp: graph_checkpoint_store_def stored_open_def split: prod.splits sum.splits)
  show "e \<noteq> OperatorCheckpoint art" if "cs_decide ?S w r = (w', Inl e)"
    using that publish_plain
    by (auto simp: graph_checkpoint_store_def stored_decide_def create_once_def once_path_def
        split: prod.splits sum.splits bool.splits if_splits)
  show "e \<noteq> OperatorCheckpoint art" if "cs_decision ?S w i v = Inl e"
    using that stored_decision_cases [of w i v] by (auto simp: graph_checkpoint_store_def)
qed

section \<open>Properties\<close>

text \<open>What can happen to the checkpoints of a run, in any order and from any process.\<close>

datatype checkpoint_call =
    RunHuman "checkpoint_policy option" runner_node "(string \<times> json) list"
  | RespondTo "checkpoint_policy option" string string checkpoint_decision

fun after_call :: "js_host \<Rightarrow> string \<Rightarrow> (json \<Rightarrow> json option) \<Rightarrow> checkpoint_call \<Rightarrow> world \<Rightarrow> world" where
  "after_call h pid redact (RunHuman p node inputs) w = fst (human_node h (graph_checkpoint_store h pid redact) p w node inputs)"
| "after_call h pid redact (RespondTo p i v d) w = fst (respond (graph_checkpoint_store h pid redact) p w i v d)"

lemma call_keeps: "decided_in w i v = Some d \<Longrightarrow> decided_in (after_call h pid redact c w) i v = Some d"
proof (cases c)
  case (RespondTo p j u e)
  assume "decided_in w i v = Some d"
  then show ?thesis using graph_store.respond_decided(1) RespondTo by (metis after_call.simps(2) prod.collapse)
next
  case (RunHuman p node inputs)
  assume d: "decided_in w i v = Some d"
  obtain w' r where run: "human_node h (graph_checkpoint_store h pid redact) p w node inputs = (w', r)" by (metis surj_pair)
  have "decided_in w' i v = Some d"
  proof (cases "\<exists>q. human_policy node p = Inr q")
    case True
    then obtain q where q: "human_policy node p = Inr q" by blast
    from run q refl [of "checkpoint_version h node inputs"] show ?thesis
    proof (cases rule: graph_store.human_cases)
      case stopped
      with d show ?thesis by blast
    next
      case (read w1)
      with d graph_store.configure_decided show ?thesis by metis
    qed
  next
    case False
    then have "w' = w" using run by (cases "human_policy node p") (auto simp: human_node_def Let_def)
    with d show ?thesis by simp
  qed
  then show ?thesis using RunHuman run by simp
qed

lemma calls_keep: "decided_in w i v = Some d \<Longrightarrow> decided_in (fold (after_call h pid redact) cs w) i v = Some d"
  by (induction cs arbitrary: w) (simp_all add: call_keeps)

text \<open>
  C10. No implicit pass: a human node succeeds only on an approval recorded for the current version of
  its subject (the node and its inputs); in interactive mode that approval was there before it ran,
  in automatic mode it is the one the operator wrote into the run's policy.
\<close>

theorem human_node_needs_approval:
  assumes "human_node h (graph_checkpoint_store h pid redact) policy w node inputs = (w', Inr d)"
  shows "\<exists>v p. v = checkpoint_version h node inputs \<and> human_policy node policy = Inr p
    \<and> decided_in w' (nd_id node) v = Some d \<and> dr_decision d = Approve
    \<and> (decided_in w (nd_id node) v = Some d
       \<or> (cp_mode p = Automatic \<and> map_of (cp_decisions p) (nd_id node) = Some Approve \<and> dr_by d = ''run_policy''))"
  using graph_store.human_passes [OF assms] by auto

definition gate_host :: js_host where
  "gate_host = \<lparr>nfc = (\<lambda>s. s), numstr = (\<lambda>n. ''1''), lc = (\<lambda>a b. True), sha256 = (\<lambda>s. replicate 64 (CHR ''a'')),
     parse_bytes = (\<lambda>s. None)\<rparr>"

definition human_example :: runner_node where
  "human_example = \<lparr>nd_id = ''h'', nd_kind = Human, nd_label = ''h'', nd_goal = JNull, nd_config = None, nd_maximum = None,
     nd_purpose = None\<rparr>"

definition blank_world :: world where
  "blank_world = \<lparr>wd_files = Map.empty, wd_sequence = 0, wd_activity = [], wd_events = [], wd_index = [],
     wd_once = Map.empty, wd_faults = []\<rparr>"

definition approving_policy :: checkpoint_policy where
  "approving_policy = \<lparr>cp_mode = Automatic, cp_decisions = [(''h'', Approve)]\<rparr>"

lemma example_version: "checkpoint_version gate_host node inputs = replicate 64 (CHR ''a'')"
  by (simp add: checkpoint_version_def gate_host_def)

lemma approving_run:
  "snd (human_node gate_host (graph_checkpoint_store gate_host ''1'' Some) (Some approving_policy) blank_world human_example [])
     = Inr \<lparr>dr_id = ''h'', dr_version = replicate 64 (CHR ''a''), dr_decision = Approve, dr_by = ''run_policy''\<rparr>"
  unfolding human_node_def example_version Let_def by code_simp

theorem human_node_needs_approval_witness:
  "decided_in (fst (human_node gate_host (graph_checkpoint_store gate_host ''1'' Some) (Some approving_policy) blank_world
     human_example [])) ''h'' (replicate 64 (CHR ''a'')) \<noteq> None"
proof -
  let ?run = "human_node gate_host (graph_checkpoint_store gate_host ''1'' Some) (Some approving_policy) blank_world human_example []"
  have run: "?run = (fst ?run, Inr \<lparr>dr_id = ''h'', dr_version = replicate 64 (CHR ''a''), dr_decision = Approve, dr_by = ''run_policy''\<rparr>)"
    using approving_run by (metis prod.collapse)
  from human_node_needs_approval [OF run] obtain v where
    v: "v = checkpoint_version gate_host human_example []" "decided_in (fst ?run) (nd_id human_example) v \<noteq> None" by auto
  then show ?thesis by (simp add: human_example_def example_version)
qed

text \<open>
  C11. A recorded decision is final: after any further executions of human nodes and any responses, with any
  policies, the version still has that decision, a human node on that version passes only by it, and every
  further response to it is refused.
\<close>

theorem checkpoint_decision_final:
  assumes "decided_in w i v = Some d" "w2 = fold (after_call h pid redact) calls w"
  shows "decided_in w2 i v = Some d
    \<and> (\<forall>p c. \<exists>e. snd (respond (graph_checkpoint_store h pid redact) p w2 i v c) = Inl e)
    \<and> (\<forall>p node inputs d'. nd_id node = i \<and> checkpoint_version h node inputs = v
         \<and> snd (human_node h (graph_checkpoint_store h pid redact) p w2 node inputs) = Inr d' \<longrightarrow> d' = d \<and> dr_decision d = Approve)"
proof -
  have d: "decided_in w2 i v = Some d" using assms calls_keep by simp
  moreover have "\<exists>e. snd (respond (graph_checkpoint_store h pid redact) p w2 i v c) = Inl e" for p c
    using graph_store.respond_decided(3) [OF _ d] by (metis prod.collapse)
  moreover have "d' = d \<and> dr_decision d = Approve" if "nd_id node = i" "checkpoint_version h node inputs = v"
    "snd (human_node h (graph_checkpoint_store h pid redact) p w2 node inputs) = Inr d'" for p node inputs d'
    using graph_store.human_final(2) [of w2 node v d h inputs] that d by (metis prod.collapse)
  ultimately show ?thesis by blast
qed

theorem checkpoint_decision_final_witness:
  "\<exists>e. snd (respond (graph_checkpoint_store gate_host ''1'' Some) None
     (blank_world\<lparr>wd_once := Map.empty([''checkpoints'', ''h'', ''v''] \<mapsto>
        json_of_decision \<lparr>dr_id = ''h'', dr_version = ''v'', dr_decision = Reject, dr_by = ''operator''\<rparr>)\<rparr>) ''h'' ''v'' Approve) = Inl e"
proof -
  let ?d = "\<lparr>dr_id = ''h'', dr_version = ''v'', dr_decision = Reject, dr_by = ''operator''\<rparr>"
  let ?w = "blank_world\<lparr>wd_once := Map.empty([''checkpoints'', ''h'', ''v''] \<mapsto> json_of_decision ?d)\<rparr>"
  have "decided_in ?w ''h'' ''v'' = Some ?d"
    using decision_roundtrip [of ?d] by (simp add: decided_in_def)
  from checkpoint_decision_final [OF this, of ?w gate_host "''1''" Some "[]"] show ?thesis by simp
qed

text \<open>
  C12. The version names the content of a checkpoint: a node and inputs that differ from others only in the order in which
  inputs and object keys were inserted, at any depth, have the same version, so a decision on it is found again by a
  process that collected the inputs in another order. The comparison of keys by locale is taken to be a total preorder
  that tells the keys of each object apart.
\<close>

theorem checkpoint_version_of_content:
  assumes "total_preorder (lc h)" "same_json (JObj inputs) (JObj inputs')" "well_keyed (lc h) (JObj inputs)"
    and "same_json (json_of_node node) (json_of_node node')" "well_keyed (lc h) (json_of_node node)"
  shows "checkpoint_version h node inputs = checkpoint_version h node' inputs'"
proof -
  have "sort_value (lc h) (checkpoint_subject h node inputs) = sort_value (lc h) (checkpoint_subject h node' inputs')"
    unfolding checkpoint_subject_def
    by (rule sort_value_values)
      (simp add: on_values_def sorted_pairs_same [OF assms(1-3)] sort_value_same [OF assms(4,1,5)])
  then show ?thesis by (simp add: checkpoint_version_def config_canonical_def)
qed

definition ordered_host :: js_host where
  "ordered_host = gate_host\<lparr>lc := (\<le>), sha256 := (\<lambda>s. s)\<rparr>"

theorem checkpoint_version_of_content_witness:
  "checkpoint_version ordered_host human_example [(''b'', JObj [(''y'', JNull), (''x'', JBool True)]), (''a'', JStr ''v'')]
     = checkpoint_version ordered_host human_example [(''a'', JStr ''v''), (''b'', JObj [(''x'', JBool True), (''y'', JNull)])]"
proof (rule checkpoint_version_of_content)
  show "total_preorder (lc ordered_host)" by (simp add: ordered_host_def code_units.total_preorder_axioms)
  let ?b = "JObj [(''y'', JNull), (''x'', JBool True)]" and ?c = "JObj [(''x'', JBool True), (''y'', JNull)]"
  have "same_json ?b ?c"
    by (rule same_obj [where fs = "[(''y'', JNull), (''x'', JBool True)]"]) (simp_all add: same_refl add_mset_commute)
  then show "same_json (JObj [(''b'', ?b), (''a'', JStr ''v'')]) (JObj [(''a'', JStr ''v''), (''b'', ?c)])"
    by (intro same_obj [where fs = "[(''b'', ?c), (''a'', JStr ''v'')]"]) (simp_all add: same_refl add_mset_commute)
  show "well_keyed (lc ordered_host) (JObj [(''b'', ?b), (''a'', JStr ''v'')])" "well_keyed (lc ordered_host) (json_of_node human_example)"
    by (auto simp: ordered_host_def told_apart_def json_of_node_def human_example_def optional_def)
qed (simp add: same_refl)

text \<open>A run with an automatic policy never stops to wait for an operator.\<close>

theorem automatic_run_never_waits:
  assumes "human_policy node policy = Inr p" "cp_mode p = Automatic"
  shows "snd (human_node h (graph_checkpoint_store h pid redact) policy w node inputs) \<noteq> Inl (OperatorCheckpoint art)"
  using graph_store.automatic_never_waits [OF _ assms(1)] assms(2) by (metis prod.collapse)

theorem automatic_run_never_waits_witness:
  "snd (human_node gate_host (graph_checkpoint_store gate_host ''1'' Some)
     (Some \<lparr>cp_mode = Automatic, cp_decisions = [(''h'', Reject)]\<rparr>) blank_world human_example []) \<noteq> Inl (OperatorCheckpoint ''h'')"
proof (rule automatic_run_never_waits)
  show "human_policy human_example (Some \<lparr>cp_mode = Automatic, cp_decisions = [(''h'', Reject)]\<rparr>)
    = Inr \<lparr>cp_mode = Automatic, cp_decisions = [(''h'', Reject)]\<rparr>" by (simp add: human_policy_def human_example_def)
qed simp

end
