(* ===== verification/Authored_Graphs.thy ===== *)
theory Authored_Graphs
  imports Graph_Structure Checkpoints
begin

text \<open>
  The validator of operator-authored graphs: \<open>packages/runtime/src/authored-graphs.ts\<close>, over the schema, the
  structural check, the checkpoint policies and the runner's plan. Of a run configuration, \<open>run_configuration\<close> holds
  what the code reads, as its schemas parse it.
\<close>

section \<open>Options\<close>

datatype authorization = ControlPlane | WriteAuthority | TestingExecution | ShippedPresetId

fun authorization_text :: "authorization \<Rightarrow> string" where
  "authorization_text ControlPlane = ''control_plane''"
| "authorization_text WriteAuthority = ''write_authority''"
| "authorization_text TestingExecution = ''testing_execution''"
| "authorization_text ShippedPresetId = ''shipped_preset_id''"

definition all_authorizations :: "authorization list" where
  "all_authorizations = [ControlPlane, WriteAuthority, TestingExecution, ShippedPresetId]"

record privileged_change =
  pv_category :: authorization
  pv_path :: string
  pv_message :: string

record authored_validation =
  av_valid :: bool
  av_version :: "string option"
  av_diagnostics :: "graph_diagnostic list"
  av_privileged :: "privileged_change list"
  av_checked :: bool

record run_configuration =
  rc_mode :: string
  rc_models :: "string list"
  rc_roles :: "(string \<times> string) list option"
  rc_checkpoints :: "checkpoint_policy option"

record 'w authored_options =
  ao_gates :: "string \<rightharpoonup> 'w gate_policy"
  ao_authorize :: "authorization list"
  ao_reserved :: "string list"
  ao_configuration :: "run_configuration option"

definition maximum_loop_iterations :: int where
  "maximum_loop_iterations = 3"

section \<open>Patterns\<close>

text \<open>\<open>/^auditor-[a-z0-9][a-z0-9-]{0,63}$/u\<close>\<close>

definition auditor_pattern :: "string \<Rightarrow> bool" where
  "auditor_pattern s \<longleftrightarrow> starts_with ''auditor-'' s \<and>
     (case drop 8 s of
        [] \<Rightarrow> False
      | c # cs \<Rightarrow> (is_lower c \<or> is_digit_char c) \<and> length cs \<le> 63 \<and> list_all (\<lambda>d. is_lower d \<or> is_digit_char d \<or> d = CHR ''-'') cs)"

definition control_plane_keys :: "string \<Rightarrow> bool" where
  "control_plane_keys s \<longleftrightarrow> ascii_lower s \<in> set [''protocol'', ''protocols'', ''protocolsource'', ''protocolsources'', ''protocoloverride'',
     ''protocoloverrides'', ''controlplane'']"

definition write_keys :: "string \<Rightarrow> bool" where
  "write_keys s \<longleftrightarrow> ascii_lower s \<in> set [''write'', ''writes'', ''writeauthority'', ''allowwrites'', ''authorization'', ''authorizations'',
     ''apply'', ''applychanges'']"

definition testing_keys :: "string \<Rightarrow> bool" where
  "testing_keys s \<longleftrightarrow> ascii_lower s \<in> set [''testing'', ''testingexecution'', ''execution'', ''sandbox'']"

section \<open>The graph the runner executes\<close>

text \<open>A cast in the source: the runner reads the saved graph itself, contracts included.\<close>

definition runner_node_of :: "workflow_node \<Rightarrow> runner_node" where
  "runner_node_of n =
     \<lparr>nd_id = wn_id n, nd_kind = node_kind_of (wn_kind n), nd_label = wn_label n, nd_goal = json_of_goal (wn_goal n),
      nd_config = wn_config n, nd_maximum = (case wn_kind n of LoopNode x \<Rightarrow> Some x | _ \<Rightarrow> None),
      nd_purpose = (case wn_kind n of SubgraphNode p \<Rightarrow> Some p | _ \<Rightarrow> None)\<rparr>"

definition runner_edge_of :: "workflow_edge \<Rightarrow> runner_edge" where
  "runner_edge_of e =
     \<lparr>ed_id = we_id e, ed_from = we_from e, ed_to = we_to e,
      ed_rest = (case json_of_workflow_edge e of JObj es \<Rightarrow> drop 3 es | _ \<Rightarrow> [])\<rparr>"

definition runner_graph_of :: "workflow_graph \<Rightarrow> runner_graph" where
  "runner_graph_of g =
     \<lparr>gr_schema = num 1, gr_id = wg_id g, gr_entry = wg_entry g, gr_nodes = map runner_node_of (wg_nodes g),
      gr_edges = map runner_edge_of (wg_edges g)\<rparr>"

definition bounded_rounds :: "runner_graph \<Rightarrow> int \<Rightarrow> int" where
  "bounded_rounds g configured =
     (case find (\<lambda>n. nd_kind n = Loop) (gr_nodes g) of
        None \<Rightarrow> configured
      | Some n \<Rightarrow> (case nd_maximum n of None \<Rightarrow> configured | Some x \<Rightarrow> min configured (int_of_number x)))"

definition default_edge :: "string \<Rightarrow> string \<Rightarrow> string \<Rightarrow> workflow_edge" where
  "default_edge i a b =
     \<lparr>we_id = i, we_from = a, we_to = b, we_artifacts = [], we_layers = [],
      we_policy = \<lparr>cx_mode = SelectedArtifacts, cx_trust = TrustDerived, cx_include = [], cx_exclude = []\<rparr>, we_tokens = None,
      we_schema = ''json'', we_fields = [], we_behaviour = Strict\<rparr>"

definition goal_of :: "string \<Rightarrow> goal" where
  "goal_of objective = \<lparr>go_objective = objective, go_done = [], go_stop = [], go_blocked = []\<rparr>"

definition template_node :: "runner_node \<Rightarrow> workflow_node" where
  "template_node n =
     \<lparr>wn_id = nd_id n,
      wn_kind = (case nd_kind n of
          Deterministic \<Rightarrow> DeterministicNode | Model \<Rightarrow> ModelNode | Gate \<Rightarrow> GateNode | Human \<Rightarrow> HumanNode
        | Loop \<Rightarrow> LoopNode (case nd_maximum n of None \<Rightarrow> num maximum_loop_iterations | Some x \<Rightarrow> x)
        | Subgraph \<Rightarrow> SubgraphNode (case nd_purpose n of None \<Rightarrow> nd_label n | Some p \<Rightarrow> p)),
      wn_label = nd_label n, wn_goal = goal_of (nd_label n), wn_config = nd_config n\<rparr>"

definition template_of :: "runner_graph \<Rightarrow> workflow_graph" where
  "template_of preset =
     \<lparr>wg_id = gr_id preset, wg_goal = goal_of (''Audit the repository with the '' @ gr_id preset @ '' graph''), wg_entry = gr_entry preset,
      wg_nodes = map template_node (gr_nodes preset), wg_edges = map (\<lambda>e. default_edge (ed_id e) (ed_from e) (ed_to e)) (gr_edges preset)\<rparr>"

section \<open>The order of the stages\<close>

definition incoming_sources :: "workflow_graph \<Rightarrow> adjacency" where
  "incoming_sources g = fold (\<lambda>e. push_to (we_to e) (we_from e)) (wg_edges g) (no_edges g)"

text \<open>\<open>ancestorsOf(graph).get(target)?.has(source) === true\<close>\<close>

definition upstream :: "workflow_graph \<Rightarrow> string \<Rightarrow> string \<Rightarrow> bool" where
  "upstream g target source \<longleftrightarrow> target \<in> set (map wn_id (wg_nodes g))
     \<and> source \<in> set (reach (incoming_sources g) (neighbours (incoming_sources g) target) [])"

definition indexed_nodes :: "workflow_graph \<Rightarrow> (workflow_node \<times> nat) list" where
  "indexed_nodes g = zip (wg_nodes g) [0..<length (wg_nodes g)]"

definition place :: "workflow_node \<times> nat \<Rightarrow> string" where
  "place ni = workflow_node_place (fst ni) (snd ni)"

definition is_auditor :: "workflow_node \<Rightarrow> bool" where
  "is_auditor n \<longleftrightarrow> wn_kind n = ModelNode \<and> auditor_pattern (wn_id n)"

definition is_loop :: "workflow_node \<Rightarrow> bool" where
  "is_loop n \<longleftrightarrow> node_kind_of (wn_kind n) = Loop"

definition is_subgraph :: "workflow_node \<Rightarrow> bool" where
  "is_subgraph n \<longleftrightarrow> node_kind_of (wn_kind n) = Subgraph"

definition is_role :: "string \<Rightarrow> workflow_node \<Rightarrow> bool" where
  "is_role r n \<longleftrightarrow> wn_kind n = ModelNode \<and> wn_id n = r"

definition stage_node_findings :: "workflow_graph \<Rightarrow> workflow_node \<times> nat \<Rightarrow> graph_diagnostic list" where
  "stage_node_findings g ni =
     (let n = fst ni in
      (if wn_kind n = DeterministicNode \<and> wn_id n \<noteq> wg_entry g
       then [finding ''UNSUPPORTED_NODE'' (place ni) (''Audit dispatch runs a deterministic node only as the entry preflight; '' @ wn_id n
         @ '' has no executor.'')] else [])
      @ (if wn_kind n = ModelNode \<and> \<not> auditor_pattern (wn_id n) \<and> wn_id n \<noteq> ''planner'' \<and> wn_id n \<noteq> ''critic''
         then [finding ''UNKNOWN_MODEL_ROLE'' (place ni @ ''.id'') (''Model node '' @ wn_id n
           @ '' names no model role; use auditor-<name>, planner or critic.'')] else []))"

definition unsatisfied :: "workflow_node \<times> nat \<Rightarrow> string \<Rightarrow> graph_diagnostic" where
  "unsatisfied ni message = finding ''EDGE_CONTRACT_UNSATISFIED'' (place ni) message"

definition audit_dispatch_contract :: "workflow_graph \<Rightarrow> graph_diagnostic list" where
  "audit_dispatch_contract g =
     (let ns = indexed_nodes g;
          auditors = filter (\<lambda>ni. is_auditor (fst ni)) ns;
          loops = filter (\<lambda>ni. is_loop (fst ni)) ns;
          subgraphs = filter (\<lambda>ni. is_subgraph (fst ni)) ns;
          planner = find (\<lambda>ni. is_role ''planner'' (fst ni)) ns;
          critic = find (\<lambda>ni. is_role ''critic'' (fst ni)) ns;
          loop = (case loops of [] \<Rightarrow> None | l # _ \<Rightarrow> Some l);
          verification = (case subgraphs of [] \<Rightarrow> None | v # _ \<Rightarrow> Some v) in
      (case find (\<lambda>n. wn_id n = wg_entry g) (wg_nodes g) of
         None \<Rightarrow> []
       | Some n \<Rightarrow> if wn_kind n \<noteq> DeterministicNode
           then [finding ''ENTRY_NOT_DETERMINISTIC'' ''$.entryNodeId'' ''The entry node must be the deterministic preflight node.''] else [])
      @ concat (map (stage_node_findings g) ns)
      @ (if auditors = [] then [finding ''AUDITOR_REQUIRED'' ''$.nodes'' ''At least one auditor model node (auditor-<name>) is required.''] else [])
      @ (if length loops \<noteq> 1 then [finding ''CONSENSUS_LOOP_REQUIRED'' ''$.nodes'' (''Exactly one loop node runs consensus; found ''
           @ nat_string (length loops) @ ''.'')] else [])
      @ (if length subgraphs \<noteq> 1 then [finding ''VERIFICATION_SUBGRAPH_REQUIRED'' ''$.nodes'' (''Exactly one subgraph node runs verification; found ''
           @ nat_string (length subgraphs) @ ''.'')] else [])
      @ (case loop of
           None \<Rightarrow> []
         | Some l \<Rightarrow> if length loops \<noteq> 1 then [] else concat (map (\<lambda>a. if upstream g (wn_id (fst l)) (wn_id (fst a)) then []
             else [unsatisfied l (''Consensus '' @ wn_id (fst l) @ '' reads findings from '' @ wn_id (fst a) @ '', which is not upstream of it.'')]) auditors))
      @ (case (loop, verification) of
           (Some l, Some v) \<Rightarrow> if length subgraphs = 1 \<and> \<not> upstream g (wn_id (fst v)) (wn_id (fst l))
             then [unsatisfied v (''Verification '' @ wn_id (fst v) @ '' reads consensus state from '' @ wn_id (fst l) @ '', which is not upstream of it.'')] else []
         | _ \<Rightarrow> [])
      @ (case (planner, verification) of
           (Some p, Some v) \<Rightarrow> if \<not> upstream g (wn_id (fst p)) (wn_id (fst v))
             then [unsatisfied p (''The planner reads canonical issues from '' @ wn_id (fst v) @ '', which is not upstream of it.'')] else []
         | _ \<Rightarrow> [])
      @ (case critic of
           None \<Rightarrow> []
         | Some c \<Rightarrow> if (case planner of None \<Rightarrow> True | Some p \<Rightarrow> \<not> upstream g (wn_id (fst c)) (wn_id (fst p)))
             then [unsatisfied c ''The critic reads the plan, so the planner must be upstream of it.''] else []))"

section \<open>Checkpoints\<close>

fun error_message :: "run_error \<Rightarrow> string" where
  "error_message (OperatorCheckpoint a) = ''OPERATOR_CHECKPOINT:'' @ a"
| "error_message (RunSuspended _ d) = d"
| "error_message (MissingFile m) = m"
| "error_message (NamedError n m) = m"
| "error_message (Thrown s) = s"

definition explained :: "(string \<times> string) list" where
  "explained =
     [(''GATE_POLICY_REQUIRED'', ''A gate node must name a registered deterministic policy in config.policy.''),
      (''UNKNOWN_GATE_POLICY'', ''The gate names a policy that is not registered.''),
      (''CHECKPOINT_POLICY_REQUIRED'', ''A human node needs the run configuration's workflow.checkpoints policy.''),
      (''AUTOMATIC_CHECKPOINT_DECISION_REQUIRED'', ''An automatic checkpoint policy needs an explicit operator decision for every human node.''),
      (''UNKNOWN_CHECKPOINT_NODE'', ''The checkpoint policy decides a human node this graph does not contain.''),
      (''RESERVED_CHECKPOINT_ID'', ''plan-questions is reserved for the checkpoint where an interactive Audit answers its plan's blocking questions.'')]"

definition checkpoint_failure :: "runner_graph \<Rightarrow> checkpoint_policy option \<Rightarrow> (string \<rightharpoonup> 'w gate_policy) \<Rightarrow> (string \<times> string) option" where
  "checkpoint_failure g policy gates =
     (case validate_graph_checkpoints g policy gates of
        Inr _ \<Rightarrow> None
      | Inl e \<Rightarrow>
          (let message = error_message e; code = first_part (CHR '':'') message in
           Some (code, (case map_of explained code of None \<Rightarrow> ''Invalid checkpoint configuration.'' | Some t \<Rightarrow> t) @ '' ('' @ message @ '')'')))"

text \<open>The policy a human node is checked with alone: the decisions of other nodes are left out.\<close>

definition own_policy :: "checkpoint_policy option \<Rightarrow> workflow_node \<Rightarrow> checkpoint_policy option" where
  "own_policy policy n =
     (case policy of
        None \<Rightarrow> None
      | Some p \<Rightarrow> if wn_kind n = GateNode then None else Some (p\<lparr>cp_decisions := filter (\<lambda>(k, _). k = wn_id n) (cp_decisions p)\<rparr>))"

definition checkpoint_node_findings :: "workflow_graph \<Rightarrow> 'w authored_options \<Rightarrow> workflow_node \<times> nat \<Rightarrow> graph_diagnostic list" where
  "checkpoint_node_findings g opts ni =
     (let n = fst ni; policy = Option.bind (ao_configuration opts) rc_checkpoints in
      if wn_kind n \<noteq> GateNode \<and> (wn_kind n \<noteq> HumanNode \<or> ao_configuration opts = None) then []
      else (case checkpoint_failure ((runner_graph_of g)\<lparr>gr_nodes := [runner_node_of n]\<rparr>) (own_policy policy n) (ao_gates opts) of
          None \<Rightarrow> [] | Some (code, message) \<Rightarrow> [finding code (place ni) message]))"

definition checkpoint_contract :: "workflow_graph \<Rightarrow> 'w authored_options \<Rightarrow> graph_diagnostic list" where
  "checkpoint_contract g opts =
     (let ds = concat (map (checkpoint_node_findings g opts) (indexed_nodes g)) in
      if ds = [] \<and> ao_configuration opts \<noteq> None
      then (case checkpoint_failure (runner_graph_of g) (Option.bind (ao_configuration opts) rc_checkpoints) (ao_gates opts) of
          None \<Rightarrow> [] | Some (code, message) \<Rightarrow> [finding code ''$.nodes'' message])
      else ds)"

section \<open>Model roles\<close>

definition default_auditors :: "string list" where
  "default_auditors = [''auditor-a'', ''auditor-b'', ''auditor-c'']"

definition role_findings :: "run_configuration \<Rightarrow> workflow_node \<times> nat \<Rightarrow> graph_diagnostic list" where
  "role_findings c ni =
     (let n = fst ni; scripted = rc_models c = [];
          missing = (\<lambda>message. [finding ''MODEL_ROLE_UNAVAILABLE'' (place ni) message]) in
      if wn_kind n \<noteq> ModelNode then []
      else if auditor_pattern (wn_id n) then
        (if scripted \<and> wn_id n \<notin> set default_auditors
         then missing (wn_id n @ '' has no scripted auditor, and the configuration binds no models.'') else [])
        @ (if \<not> scripted \<and> wn_id n \<notin> set (rc_models c) then missing (wn_id n @ '' has no model profile in the configuration.'') else [])
      else if scripted \<or> (wn_id n \<noteq> ''planner'' \<and> wn_id n \<noteq> ''critic'') then []
      else (case Option.bind (rc_roles c) (\<lambda>m. map_of m (wn_id n)) of
          None \<Rightarrow> missing (''The '' @ wn_id n @ '' role is not bound to a model profile in workflow.modelExecution.roles.'')
        | Some profile \<Rightarrow> if profile \<in> set (rc_models c) then []
            else missing (''The '' @ wn_id n @ '' role is not bound to a model profile in workflow.modelExecution.roles.'')))"

definition model_roles :: "workflow_graph \<Rightarrow> run_configuration \<Rightarrow> graph_diagnostic list" where
  "model_roles g c =
     (if rc_mode c \<noteq> ''audit'' then
        [finding ''CONFIGURATION_MODE_UNSUPPORTED'' ''$'' (''Saved workflow graphs run in audit mode; the configuration is '' @ rc_mode c @ ''.'')]
      else concat (map (role_findings c) (indexed_nodes g)))"

section \<open>Privileged changes\<close>

text \<open>Every key of a configuration at any depth, with its path.\<close>

fun config_keys :: "json \<Rightarrow> string \<Rightarrow> (string \<times> string) list"
  and config_items :: "nat \<Rightarrow> json list \<Rightarrow> string \<Rightarrow> (string \<times> string) list"
  and config_entries :: "(string \<times> json) list \<Rightarrow> string \<Rightarrow> (string \<times> string) list" where
  "config_keys (JArr xs) prefix = config_items 0 xs prefix"
| "config_keys (JObj es) prefix = config_entries es prefix"
| "config_keys _ prefix = []"
| "config_items i [] prefix = []"
| "config_items i (x # xs) prefix = config_keys x (indexed prefix i) @ config_items (Suc i) xs prefix"
| "config_entries [] prefix = []"
| "config_entries ((k, v) # es) prefix =
     (let path = (if prefix = [] then k else prefix @ ''.'' @ k) in (k, path) # config_keys v path @ config_entries es prefix)"

definition change :: "authorization \<Rightarrow> string \<Rightarrow> string \<Rightarrow> privileged_change" where
  "change category path message = \<lparr>pv_category = category, pv_path = path, pv_message = message\<rparr>"

definition key_changes :: "workflow_node \<times> nat \<Rightarrow> string \<times> string \<Rightarrow> privileged_change list" where
  "key_changes ni key =
     (let n = fst ni; path = place ni @ ''.config.'' @ snd key in
      (if control_plane_keys (fst key) then [change ControlPlane path (''Node '' @ wn_id n @ '' sets a control-plane protocol source.'')] else [])
      @ (if write_keys (fst key) then [change WriteAuthority path (''Node '' @ wn_id n @ '' sets write authority.'')] else [])
      @ (if testing_keys (fst key) then [change TestingExecution path (''Node '' @ wn_id n @ '' configures Testing execution.'')] else []))"

definition node_changes :: "workflow_node \<times> nat \<Rightarrow> privileged_change list" where
  "node_changes ni =
     (if wn_id (fst ni) = ''execute'' then [change TestingExecution (place ni @ ''.id'') ''The node ID execute names Testing execution.''] else [])
     @ concat (map (key_changes ni) (config_keys (JObj (case wn_config (fst ni) of None \<Rightarrow> [] | Some es \<Rightarrow> es)) []))"

definition edge_changes :: "workflow_edge \<Rightarrow> nat \<Rightarrow> privileged_change list" where
  "edge_changes e i =
     (if we_layers e \<noteq> []
      then [change ControlPlane (edge_place e i @ ''.prompt.protocolLayers'') (''Edge '' @ we_id e @ '' composes control-plane protocol layers.'')] else [])"

definition privileged_changes :: "workflow_graph \<Rightarrow> string list \<Rightarrow> privileged_change list" where
  "privileged_changes g reserved =
     filter (\<lambda>c. pv_category c \<in> set all_authorizations)
       ((if wg_id g \<in> set reserved then [change ShippedPresetId ''$.id'' (''The graph reuses the shipped preset ID '' @ wg_id g @ ''.'')] else [])
        @ for_each edge_changes 0 (wg_edges g)
        @ concat (map node_changes (indexed_nodes g)))"

section \<open>The validator\<close>

definition unauthorized :: "authorization list \<Rightarrow> privileged_change \<Rightarrow> graph_diagnostic list" where
  "unauthorized granted c =
     (if pv_category c \<in> set granted then []
      else [finding ''UNAUTHORIZED_CHANGE'' (pv_path c) (pv_message c @ '' Requires the explicit '' @ authorization_text (pv_category c) @ '' authorization.'')])"

definition id_findings :: "workflow_graph \<Rightarrow> graph_diagnostic list" where
  "id_findings g =
     (if once_segment (wg_id g) then []
      else [finding ''INVALID_GRAPH_ID'' ''$.id'' ''Graph IDs are 1-128 letters, digits, '.', '_' or '-', starting with a letter or digit.''])
     @ concat (map (\<lambda>ni. if once_segment (wn_id (fst ni)) then []
         else [finding ''INVALID_NODE_ID'' (place ni @ ''.id'') ''Node IDs name artifacts and checkpoints: letters, digits, '.', '_' or '-'.'']) (indexed_nodes g))"

text \<open>
  \<open>None\<close> stands for what cannot happen: a structural check that does not return, or a validated value the cast does
  not type. An error is that of \<open>versionOf\<close>.
\<close>

definition validate_authored_graph :: "js_host \<Rightarrow> json \<Rightarrow> 'w authored_options \<Rightarrow> (store_error + authored_validation) option" where
  "validate_authored_graph h v opts =
     (let schema = validate_workflow (numstr h) v in
      if schema \<noteq> [] then
        Some (Inr \<lparr>av_valid = False, av_version = None, av_diagnostics = map (\<lambda>d. finding ''SCHEMA'' (dg_path d) (dg_message d)) schema,
          av_privileged = [], av_checked = False\<rparr>)
      else Option.bind (read_workflow v) (\<lambda>g.
        Option.bind (validate_graph_structure (numstr h) g maximum_loop_iterations) (\<lambda>structure.
          let privileged = privileged_changes g (ao_reserved opts);
              ds = id_findings g @ structure @ audit_dispatch_contract g @ checkpoint_contract g opts
                @ (case ao_configuration opts of None \<Rightarrow> [] | Some c \<Rightarrow> model_roles g c)
                @ concat (map (unauthorized (ao_authorize opts)) privileged) in
          Some (result_bind (content_address h v ''json'') (\<lambda>ref.
            Inr \<lparr>av_valid = (ds = []), av_version = Some (ref_hash ref), av_diagnostics = ds, av_privileged = privileged,
              av_checked = (ao_configuration opts \<noteq> None)\<rparr>)))))"

section \<open>An accepted graph has a plan\<close>

lemma json_of_runner_node [simp]: "json_of_node (runner_node_of n) = json_of_workflow_node n"
  by (cases "wn_kind n") (simp_all add: json_of_node_def json_of_workflow_node_def runner_node_of_def optional_def)

lemma json_of_runner_edge [simp]: "json_of_edge (runner_edge_of e) = json_of_workflow_edge e"
  by (simp add: json_of_edge_def json_of_workflow_edge_def runner_edge_of_def)

lemma runner_graph_fields [simp]:
  "gr_entry (runner_graph_of g) = wg_entry g" "gr_schema (runner_graph_of g) = num 1"
  "nd_id ` set (gr_nodes (runner_graph_of g)) = wn_id ` set (wg_nodes g)"
  "gr_nodes (runner_graph_of g) = map runner_node_of (wg_nodes g)" "gr_edges (runner_graph_of g) = map runner_edge_of (wg_edges g)"
  by (simp_all add: runner_graph_of_def image_image runner_node_of_def)

definition ascii :: "string \<Rightarrow> bool" where
  "ascii s \<longleftrightarrow> list_all (\<lambda>c. (of_char c :: nat) < 128) s"

text \<open>Unicode normalisation leaves ASCII text alone.\<close>

definition keeps_ascii :: "js_host \<Rightarrow> bool" where
  "keeps_ascii h \<longleftrightarrow> (\<forall>s. ascii s \<longrightarrow> nfc h s = s)"

lemma identity_total:
  assumes nfc: "keeps_ascii h" and "\<exists>u. canon (nfc h) (numstr h) (json_of_node node) = Inr u"
    and edges: "\<And>x. x \<in> set xs \<Longrightarrow> \<exists>u. canon (nfc h) (numstr h) (json_of_edge (fst x)) = Inr u"
  shows "\<exists>i. node_activity_id h run (num 1) n node xs = Inr i"
proof -
  let ?canon = "canon (nfc h) (numstr h)"
  have names: "nfc h ''edge'' = ''edge''" "nfc h ''activityId'' = ''activityId''" "nfc h ''graphSchemaVersion'' = ''graphSchemaVersion''"
      "nfc h ''node'' = ''node''" "nfc h ''incoming'' = ''incoming''"
    using nfc by (simp_all add: keeps_ascii_def ascii_def)
  have one: "\<exists>u. ?canon (JObj [(''edge'', json_of_edge e), (''activityId'', JStr i)]) = Inr u" if "(e, i) \<in> set xs" for e i
    by (rule canon_obj_total) (use edges [OF that] in \<open>auto simp: names\<close>)
  have "\<exists>u. ?canon (JArr (map (\<lambda>(e, i). JObj [(''edge'', json_of_edge e), (''activityId'', JStr i)]) xs)) = Inr u"
    unfolding canon_arr_iff using one by auto
  then have "\<exists>u. ?canon (JObj [(''graphSchemaVersion'', JNum (num 1)), (''node'', json_of_node node),
      (''incoming'', JArr (map (\<lambda>(e, i). JObj [(''edge'', json_of_edge e), (''activityId'', JStr i)]) xs))]) = Inr u"
    by (intro canon_obj_total) (use assms(2) in \<open>auto simp: names\<close>)
  then obtain u where u: "?canon (JObj [(''graphSchemaVersion'', JNum (num 1)), (''node'', json_of_node node),
      (''incoming'', JArr (map (\<lambda>(e, i). JObj [(''edge'', json_of_edge e), (''activityId'', JStr i)]) xs))]) = Inr u" ..
  show ?thesis by (simp add: node_activity_id_def activity_id_def u del: canon.simps(6))
qed

lemma identities_computable:
  assumes nfc: "keeps_ascii h" and encoded: "canon (nfc h) (numstr h) (json_of_workflow g) = Inr t"
    and "node \<in> runner_node_of ` set (wg_nodes g)" "fst ` set xs \<subseteq> runner_edge_of ` set (wg_edges g)"
  shows "\<exists>i. node_activity_id h run (num 1) n node xs = Inr i"
proof (rule identity_total [OF nfc])
  note parts = canon_obj_part [OF encoded [unfolded json_of_workflow_def]]
  show "\<exists>u. canon (nfc h) (numstr h) (json_of_node node) = Inr u"
    using parts [of "''nodes''" "JArr (map json_of_workflow_node (wg_nodes g))"] assms(3) unfolding canon_arr_iff by auto
  show "\<exists>u. canon (nfc h) (numstr h) (json_of_edge (fst x)) = Inr u" if "x \<in> set xs" for x
    using parts [of "''edges''" "JArr (map json_of_workflow_edge (wg_edges g))"] assms(4) that unfolding canon_arr_iff by fastforce
qed

lemma authored_plan:
  assumes nfc: "keeps_ascii h" and encoded: "canon (nfc h) (numstr h) (json_of_workflow g) = Inr t" and wf: "well_formed_graph g"
    and rank: "\<And>a b. (a, b) \<in> edge_rel g \<Longrightarrow> rank b < (rank a :: nat)"
    and reach: "\<And>n. n \<in> set (wg_nodes g) \<Longrightarrow> (wg_entry g, wn_id n) \<in> (edge_rel g)\<^sup>*"
  shows "\<exists>p. build_graph_plan h (runner_graph_of g) run = Inr p \<and> set (pl_order p) = wn_id ` set (wg_nodes g)"
proof -
  let ?r = "runner_graph_of g"
  define top where "top = Max (insert 0 (rank ` wn_id ` set (wg_nodes g)))"
  have ends: "we_from e \<in> wn_id ` set (wg_nodes g)" "we_to e \<in> wn_id ` set (wg_nodes g)" if "e \<in> set (wg_edges g)" for e
    using wf that by (auto simp: well_formed_graph_def well_formed_edge_def list_all_iff)
  have edge: "(ed_from e, ed_to e) \<in> edge_rel g" if "e \<in> set (gr_edges ?r)" for e using that by (auto simp: edge_rel_def runner_edge_of_def)
  have "\<exists>p. build_graph_plan h ?r run = Inr p"
  proof (rule build_plan_succeeds [where rank = "\<lambda>x. top - rank x"])
    show "gr_entry ?r \<in> nd_id ` set (gr_nodes ?r)" using wf by (simp add: well_formed_graph_def image_image runner_node_of_def)
    show "ed_to e \<in> nd_id ` set (gr_nodes ?r)" if "e \<in> set (gr_edges ?r)" for e
      using ends that by (auto simp: image_image runner_node_of_def runner_edge_of_def)
    show "top - rank (ed_from e) < top - rank (ed_to e)" if "e \<in> set (gr_edges ?r)" for e
    proof -
      have "rank (ed_from e) \<le> top" unfolding top_def using ends that by (intro Max_ge) (auto simp: runner_edge_of_def)
      with rank [OF edge [OF that]] show ?thesis by simp
    qed
    show "\<exists>i. node_activity_id h run (gr_schema ?r) n node xs = Inr i"
      if "node \<in> set (gr_nodes ?r)" "fst ` set xs \<subseteq> set (gr_edges ?r)" for n node xs
      using identities_computable [OF nfc encoded] that by simp
  qed
  then obtain p where p: "build_graph_plan h ?r run = Inr p" ..
  have "succ_rel (outgoing h (gr_edges ?r)) = edge_rel g"
    by (auto simp: succ_rel_def outgoing_def edge_rel_def runner_edge_of_def image_image image_iff)
  then have order: "set (pl_order p) = (edge_rel g)\<^sup>* `` {wg_entry g}" using plan_order(2) [OF p] by simp
  have "n \<in> wn_id ` set (wg_nodes g)" if "(wg_entry g, n) \<in> (edge_rel g)\<^sup>*" for n
    using that by (cases rule: rtranclE) (use wf ends in \<open>auto simp: well_formed_graph_def edge_rel_def\<close>)
  with reach have "set (pl_order p) = wn_id ` set (wg_nodes g)" unfolding order by auto
  with p show ?thesis by blast
qed

section \<open>The stages of an accepted graph\<close>

lemma incoming_sub: "set (neighbours (incoming_sources g) k) \<subseteq> {a. (a, k) \<in> edge_rel g}"
proof -
  have "set (neighbours (fold (\<lambda>e. push_to (we_to e) (we_from e)) es m) k) \<subseteq> set (neighbours m k) \<union> {we_from e |e. e \<in> set es \<and> we_to e = k}" for es m
    by (induction es arbitrary: m) (fastforce simp: neighbours_push split: if_splits)+
  from this [of "wg_edges g" "no_edges g"] show ?thesis by (auto simp: incoming_sources_def edge_rel_def)
qed

lemma upstream_path:
  assumes "upstream g target source"
  shows "(source, target) \<in> (edge_rel g)\<^sup>+"
proof -
  let ?R = "{(a, b). b \<in> set (neighbours (incoming_sources g) a)}"
  have sub: "?R \<subseteq> (edge_rel g)\<inverse>" using incoming_sub by fastforce
  from assms have "source \<in> ?R\<^sup>* `` set (neighbours (incoming_sources g) target)" by (auto simp: upstream_def dest: reach_sound)
  then obtain a where "a \<in> set (neighbours (incoming_sources g) target)" "(a, source) \<in> ?R\<^sup>*" by blast
  then have "(a, target) \<in> edge_rel g" "(a, source) \<in> ((edge_rel g)\<inverse>)\<^sup>*"
    using incoming_sub [of g target] rtrancl_mono [OF sub] by blast+
  then show ?thesis by (auto simp: rtrancl_converse intro: rtrancl_into_trancl1)
qed

lemma fst_indexed: "map fst (indexed_nodes g) = wg_nodes g"
  by (simp add: indexed_nodes_def)

lemma filter_indexed: "map fst (filter (\<lambda>ni. P (fst ni)) (indexed_nodes g)) = filter P (wg_nodes g)"
proof -
  have "map fst (filter (\<lambda>ni. P (fst ni)) xs) = filter P (map fst xs)" for xs :: "(workflow_node \<times> nat) list"
    by (induction xs) auto
  then show ?thesis by (simp add: fst_indexed)
qed

lemma in_indexed: "n \<in> set (wg_nodes g) \<Longrightarrow> \<exists>i. (n, i) \<in> set (indexed_nodes g)"
  using fst_indexed [of g] by (metis (no_types, lifting) image_iff list.set_map prod.collapse)

lemma indexed_in: "(n, i) \<in> set (indexed_nodes g) \<Longrightarrow> n \<in> set (wg_nodes g)"
  using fst_indexed [of g] by (metis (no_types, lifting) fst_conv image_eqI list.set_map)

lemma find_indexed:
  assumes "n \<in> set (wg_nodes g)" "P n" "\<And>m. m \<in> set (wg_nodes g) \<Longrightarrow> P m \<Longrightarrow> m = n"
  shows "\<exists>i. find (\<lambda>ni. P (fst ni)) (indexed_nodes g) = Some (n, i)"
proof (cases "find (\<lambda>ni. P (fst ni)) (indexed_nodes g)")
  case None
  then show ?thesis using in_indexed [OF assms(1)] assms(2) by (auto simp: find_None_iff)
next
  case (Some ni)
  then have "ni \<in> set (indexed_nodes g)" "P (fst ni)" by (auto simp: find_Some_iff)
  then have "fst ni = n" using assms(3) indexed_in by (metis prod.collapse)
  with Some show ?thesis by (cases ni) auto
qed

lemma find_found: "find P xs = Some x \<Longrightarrow> x \<in> set xs \<and> P x"
  by (auto simp: find_Some_iff)

definition staged :: "workflow_graph \<Rightarrow> bool" where
  "staged g \<longleftrightarrow> (\<exists>l v. filter is_loop (wg_nodes g) = [l] \<and> filter is_subgraph (wg_nodes g) = [v] \<and> (\<exists>a \<in> set (wg_nodes g). is_auditor a)
     \<and> (\<forall>a \<in> set (wg_nodes g). is_auditor a \<longrightarrow> (wn_id a, wn_id l) \<in> (edge_rel g)\<^sup>+)
     \<and> (wn_id l, wn_id v) \<in> (edge_rel g)\<^sup>+
     \<and> (\<forall>p \<in> set (wg_nodes g). is_role ''planner'' p \<longrightarrow> (wn_id v, wn_id p) \<in> (edge_rel g)\<^sup>+)
     \<and> (\<forall>c \<in> set (wg_nodes g). is_role ''critic'' c \<longrightarrow> (\<exists>p \<in> set (wg_nodes g). is_role ''planner'' p \<and> (wn_id p, wn_id c) \<in> (edge_rel g)\<^sup>+)))"

lemma role_unique:
  assumes "distinct (map wn_id (wg_nodes g))" "n \<in> set (wg_nodes g)" "is_role r n" "m \<in> set (wg_nodes g)" "is_role r m"
  shows "m = n"
  using assms by (auto simp: is_role_def distinct_map inj_on_def)

lemma complaints_Nil: "concat (map (\<lambda>a. if P a then [] else [f a]) xs) = [] \<Longrightarrow> x \<in> set xs \<Longrightarrow> P x"
  by (induction xs) (auto split: if_splits)

lemma contract_staged:
  assumes "audit_dispatch_contract g = []" "distinct (map wn_id (wg_nodes g))"
  shows "staged g"
proof -
  let ?ns = "indexed_nodes g"
  let ?loops = "filter (\<lambda>ni. is_loop (fst ni)) ?ns" and ?subs = "filter (\<lambda>ni. is_subgraph (fst ni)) ?ns"
  let ?planner = "find (\<lambda>ni. is_role ''planner'' (fst ni)) ?ns" and ?critic = "find (\<lambda>ni. is_role ''critic'' (fst ni)) ?ns"
  note A = assms(1) [unfolded audit_dispatch_contract_def Let_def, simplified]
  have "length ?loops = 1" "length ?subs = 1" using A by (auto split: if_splits)
  then obtain l v where l: "?loops = [l]" and v: "?subs = [v]" by (auto simp: length_Suc_conv)
  have loop: "filter is_loop (wg_nodes g) = [fst l]" using arg_cong [OF l, of "map fst"] by (simp only: filter_indexed list.map)
  have sub: "filter is_subgraph (wg_nodes g) = [fst v]" using arg_cong [OF v, of "map fst"] by (simp only: filter_indexed list.map)
  have "filter (\<lambda>ni. is_auditor (fst ni)) ?ns \<noteq> []" using A by (auto split: if_splits)
  then have aud: "\<exists>a \<in> set (wg_nodes g). is_auditor a" using filter_indexed [of is_auditor g]
    by (metis (no_types, lifting) filter_empty_conv list.map_disc_iff)
  have heard: "concat (map (\<lambda>a. if upstream g (wn_id (fst l)) (wn_id (fst a)) then []
      else [unsatisfied l (''Consensus '' @ wn_id (fst l) @ '' reads findings from '' @ wn_id (fst a) @ '', which is not upstream of it.'')])
        (filter (\<lambda>ni. is_auditor (fst ni)) ?ns)) = []"
    using A by (simp only: l list.case option.case list.size simp_thms if_True if_False) simp
  have auditors: "upstream g (wn_id (fst l)) (wn_id a)" if a: "a \<in> set (wg_nodes g)" "is_auditor a" for a
  proof -
    obtain i where "(a, i) \<in> set ?ns" using in_indexed [OF a(1)] by blast
    then have i: "(a, i) \<in> set (filter (\<lambda>ni. is_auditor (fst ni)) ?ns)" using a(2) by simp
    from complaints_Nil [OF heard i] show ?thesis by simp
  qed
  have checked: "upstream g (wn_id (fst v)) (wn_id (fst l))" using A by (auto simp: l v split: if_splits)
  have planners: "upstream g (wn_id p) (wn_id (fst v))" if p: "p \<in> set (wg_nodes g)" "is_role ''planner'' p" for p
  proof -
    obtain i where "?planner = Some (p, i)" using find_indexed [of p g "is_role ''planner''"] role_unique [OF assms(2)] p by blast
    then show ?thesis using A by (auto simp: v split: if_splits)
  qed
  have critics: "\<exists>p \<in> set (wg_nodes g). is_role ''planner'' p \<and> upstream g (wn_id c) (wn_id p)"
    if c: "c \<in> set (wg_nodes g)" "is_role ''critic'' c" for c
  proof -
    obtain i where i: "?critic = Some (c, i)" using find_indexed [of c g "is_role ''critic''"] role_unique [OF assms(2)] c by blast
    then obtain p j where p: "?planner = Some (p, j)" "upstream g (wn_id c) (wn_id p)"
      using A by (cases ?planner) (auto split: if_splits)
    then have "(p, j) \<in> set ?ns" "is_role ''planner'' p" using find_found by fastforce+
    with p(2) show ?thesis using indexed_in by blast
  qed
  show ?thesis unfolding staged_def
  proof (intro exI conjI ballI impI)
    show "filter is_loop (wg_nodes g) = [fst l]" "filter is_subgraph (wg_nodes g) = [fst v]" by (fact loop sub)+
    show "\<exists>a \<in> set (wg_nodes g). is_auditor a" by (rule aud)
    show "(wn_id a, wn_id (fst l)) \<in> (edge_rel g)\<^sup>+" if "a \<in> set (wg_nodes g)" "is_auditor a" for a
      by (rule upstream_path [OF auditors [OF that]])
    show "(wn_id (fst l), wn_id (fst v)) \<in> (edge_rel g)\<^sup>+" by (rule upstream_path [OF checked])
    show "(wn_id (fst v), wn_id p) \<in> (edge_rel g)\<^sup>+" if "p \<in> set (wg_nodes g)" "is_role ''planner'' p" for p
      by (rule upstream_path [OF planners [OF that]])
    show "\<exists>p \<in> set (wg_nodes g). is_role ''planner'' p \<and> (wn_id p, wn_id c) \<in> (edge_rel g)\<^sup>+"
      if "c \<in> set (wg_nodes g)" "is_role ''critic'' c" for c
      using critics [OF that] upstream_path by blast
  qed
qed

section \<open>Keys of a configuration\<close>

text \<open>The key occurs in an object of the value, at any depth.\<close>

fun key_in :: "string \<Rightarrow> json \<Rightarrow> bool" where
  "key_in k (JArr xs) \<longleftrightarrow> list_ex (key_in k) xs"
| "key_in k (JObj es) \<longleftrightarrow> list_ex (\<lambda>e. fst e = k \<or> key_in k (snd e)) es"
| "key_in k _ \<longleftrightarrow> False"

lemma config_keys_complete:
  "key_in k v \<Longrightarrow> k \<in> fst ` set (config_keys v prefix)"
  "list_ex (key_in k) xs \<Longrightarrow> k \<in> fst ` set (config_items i xs prefix)"
  "list_ex (\<lambda>e. fst e = k \<or> key_in k (snd e)) es \<Longrightarrow> k \<in> fst ` set (config_entries es prefix)"
  by (induction v prefix and i xs prefix and es prefix rule: config_keys_config_items_config_entries.induct)
    (auto simp: Let_def image_Un)

section \<open>What acceptance promises\<close>

lemma authored_parts:
  assumes "plain_json v" "validate_authored_graph h v opts = Some (Inr r)" "av_valid r" "read_workflow v = Some g"
  obtains ref where "well_formed_graph g" "same_json v (json_of_workflow g)" "content_address h v ''json'' = Inr ref"
    "validate_graph_structure (numstr h) g maximum_loop_iterations = Some []" "audit_dispatch_contract g = []"
    "concat (map (unauthorized (ao_authorize opts)) (privileged_changes g (ao_reserved opts))) = []"
proof -
  have schema: "validate_workflow (numstr h) v = []" using assms(2,3) by (auto simp: validate_authored_graph_def Let_def split: if_splits)
  from validated_graph_is_typed [OF assms(1) this] assms(4) have "well_formed_graph g" "same_json v (json_of_workflow g)" by auto
  moreover obtain found where st: "validate_graph_structure (numstr h) g maximum_loop_iterations = Some found"
    using assms(2,4) schema by (cases "validate_graph_structure (numstr h) g maximum_loop_iterations") (simp_all add: validate_authored_graph_def)
  moreover obtain ref where ref: "content_address h v ''json'' = Inr ref"
    using assms(2,4) schema st by (cases "content_address h v ''json''") (simp_all add: validate_authored_graph_def Let_def)
  moreover have "found = [] \<and> audit_dispatch_contract g = []
      \<and> concat (map (unauthorized (ao_authorize opts)) (privileged_changes g (ao_reserved opts))) = []"
    using assms(2,3,4) schema st ref by (auto simp: validate_authored_graph_def Let_def)
  ultimately show thesis using that by blast
qed

definition node_config :: "workflow_node \<Rightarrow> json" where
  "node_config n = JObj (case wn_config n of None \<Rightarrow> [] | Some es \<Rightarrow> es)"

lemma unauthorized_Nil: "concat (map (unauthorized granted) cs) = [] \<Longrightarrow> c \<in> set cs \<Longrightarrow> pv_category c \<in> set granted"
  by (induction cs) (auto simp: unauthorized_def split: if_splits)

lemma for_each_member: "x \<in> set xs \<Longrightarrow> \<exists>j. set (f x j) \<subseteq> set (for_each f i xs)"
  by (induction xs arbitrary: i) force+

lemma node_changes_found:
  assumes "n \<in> set (wg_nodes g)"
  obtains i where "set (node_changes (n, i)) \<subseteq> set (privileged_changes g reserved)"
proof -
  obtain i where i: "(n, i) \<in> set (indexed_nodes g)" using in_indexed [OF assms] by blast
  have "pv_category c \<in> set all_authorizations" for c by (cases "pv_category c") (simp_all add: all_authorizations_def)
  then have "set (node_changes (n, i)) \<subseteq> set (privileged_changes g reserved)" using i by (auto simp: privileged_changes_def)
  then show thesis by (rule that)
qed

lemma key_change_found:
  assumes "n \<in> set (wg_nodes g)" "key_in k (node_config n)" "\<And>ni path. \<exists>c \<in> set (key_changes ni (k, path)). pv_category c = a"
    and "concat (map (unauthorized granted) (privileged_changes g reserved)) = []"
  shows "a \<in> set granted"
proof -
  obtain i where i: "set (node_changes (n, i)) \<subseteq> set (privileged_changes g reserved)" by (rule node_changes_found [OF assms(1)])
  obtain path where "(k, path) \<in> set (config_keys (node_config n) [])" using config_keys_complete(1) [OF assms(2)] by force
  moreover obtain c where "c \<in> set (key_changes (n, i) (k, path))" "pv_category c = a" using assms(3) by blast
  ultimately have "c \<in> set (privileged_changes g reserved)" "pv_category c = a"
    using i by (auto simp: node_changes_def node_config_def)
  with unauthorized_Nil [OF assms(4)] show ?thesis by blast
qed

definition key_authorization :: "string \<Rightarrow> authorization \<Rightarrow> bool" where
  "key_authorization k a \<longleftrightarrow>
     (a = ControlPlane \<and> control_plane_keys k) \<or> (a = WriteAuthority \<and> write_keys k) \<or> (a = TestingExecution \<and> testing_keys k)"

lemma authorization_found: "key_authorization k a \<Longrightarrow> \<exists>c \<in> set (key_changes ni (k, path)). pv_category c = a"
  by (cases a) (auto simp: key_authorization_def key_changes_def change_def Let_def)

lemma every_category: "a \<in> set all_authorizations"
  by (cases a) (simp_all add: all_authorizations_def)

lemma layer_change_found:
  assumes "e \<in> set (wg_edges g)" "we_layers e \<noteq> []"
    and "concat (map (unauthorized granted) (privileged_changes g reserved)) = []"
  shows "ControlPlane \<in> set granted"
proof -
  obtain j where j: "set (edge_changes e j) \<subseteq> set (for_each edge_changes 0 (wg_edges g))" by (rule exE [OF for_each_member [OF assms(1)]])
  let ?c = "change ControlPlane (edge_place e j @ ''.prompt.protocolLayers'') (''Edge '' @ we_id e @ '' composes control-plane protocol layers.'')"
  have "?c \<in> set (edge_changes e j)" by (simp add: edge_changes_def assms(2))
  with j have "?c \<in> set (for_each edge_changes 0 (wg_edges g))" by (rule subsetD)
  then have "?c \<in> set (privileged_changes g reserved)" by (simp add: privileged_changes_def every_category)
  from unauthorized_Nil [OF assms(3) this] show ?thesis by (simp add: change_def)
qed

lemma preset_change_found:
  assumes "wg_id g \<in> set reserved" "concat (map (unauthorized granted) (privileged_changes g reserved)) = []"
  shows "ShippedPresetId \<in> set granted"
proof -
  have "change ShippedPresetId ''$.id'' (''The graph reuses the shipped preset ID '' @ wg_id g @ ''.'') \<in> set (privileged_changes g reserved)"
    using assms(1) by (simp add: privileged_changes_def every_category)
  from unauthorized_Nil [OF assms(2) this] show ?thesis by (simp add: change_def)
qed

lemma execute_change_found:
  assumes "n \<in> set (wg_nodes g)" "wn_id n = ''execute''" "concat (map (unauthorized granted) (privileged_changes g reserved)) = []"
  shows "TestingExecution \<in> set granted"
proof -
  obtain i where i: "set (node_changes (n, i)) \<subseteq> set (privileged_changes g reserved)" by (rule node_changes_found [OF assms(1)])
  have "change TestingExecution (place (n, i) @ ''.id'') ''The node ID execute names Testing execution.'' \<in> set (node_changes (n, i))"
    by (simp add: node_changes_def assms(2))
  with i have "change TestingExecution (place (n, i) @ ''.id'') ''The node ID execute names Testing execution.''
      \<in> set (privileged_changes g reserved)" by (rule subsetD)
  from unauthorized_Nil [OF assms(3) this] show ?thesis by (simp add: change_def)
qed

end
