(* ===== verification/Authored_Properties.thy ===== *)
theory Authored_Properties
  imports Authored_Graphs Examples
begin

text \<open>
  What the validator of authored graphs promises: an accepted graph has a plan of staged nodes, and no change of a
  privileged kind passes without its authorization.
\<close>

text \<open>
  C20. A graph the validator accepts is one the shared runner can execute: for every run id the runner builds a plan, of
  all the nodes of the graph, and the edges order the stages as their artifacts flow. There is exactly one consensus
  loop and one verification subgraph, every auditor is upstream of the loop, the loop of the verification, the
  verification of the planner, and a planner of the critic.
\<close>
theorem accepted_graph_dispatches:
  assumes "plain_json v" "keeps_ascii h" "validate_authored_graph h v opts = Some (Inr r)" "av_valid r"
  shows "\<exists>g. read_workflow v = Some g \<and> staged g
    \<and> (\<forall>run. \<exists>p. build_graph_plan h (runner_graph_of g) run = Inr p \<and> set (pl_order p) = wn_id ` set (wg_nodes g))"
proof -
  have "validate_workflow (numstr h) v = []" using assms(3,4) by (auto simp: validate_authored_graph_def Let_def split: if_splits)
  from validated_graph_is_typed [OF assms(1) this] obtain g where g: "read_workflow v = Some g" by blast
  obtain ref where G: "well_formed_graph g" "same_json v (json_of_workflow g)" "content_address h v ''json'' = Inr ref"
    "validate_graph_structure (numstr h) g maximum_loop_iterations = Some []" "audit_dispatch_contract g = []"
    by (rule authored_parts [OF assms(1,3,4) g])
  obtain t where t: "canon (nfc h) (numstr h) (json_of_workflow g) = Inr t"
    using G(3) canon_same_json [OF G(2)] by (auto simp: content_address_def encode_artifact_Inr result_simps)
  obtain rank :: "string \<Rightarrow> nat" where R: "\<And>a b. (a, b) \<in> edge_rel g \<Longrightarrow> rank b < rank a"
    "\<And>n. n \<in> set (wg_nodes g) \<Longrightarrow> (wg_entry g, wn_id n) \<in> (edge_rel g)\<^sup>*"
    using accepted_structure [OF G(1), of "numstr h" maximum_loop_iterations] G(4) by auto
  have "staged g" using contract_staged [OF G(5)] G(1) by (simp add: well_formed_graph_def)
  moreover have "\<exists>p. build_graph_plan h (runner_graph_of g) run = Inr p \<and> set (pl_order p) = wn_id ` set (wg_nodes g)" for run
    by (rule authored_plan [where rank = rank, OF assms(2) t G(1)]) (fact R)+
  ultimately show ?thesis using g by blast
qed


section \<open>A staged graph\<close>

definition audit_node :: "string \<Rightarrow> workflow_kind \<Rightarrow> workflow_node" where
  "audit_node i k = \<lparr>wn_id = i, wn_kind = k, wn_label = i, wn_goal = goal_of i, wn_config = None\<rparr>"

definition audit_graph :: "(string \<times> json) list \<Rightarrow> workflow_graph" where
  "audit_graph config =
     \<lparr>wg_id = ''mine'', wg_goal = goal_of ''x'', wg_entry = ''p'',
      wg_nodes = [audit_node ''p'' DeterministicNode, (audit_node ''auditor-a'' ModelNode)\<lparr>wn_config := Some config\<rparr>,
        audit_node ''l'' (LoopNode (num 2)), audit_node ''v'' (SubgraphNode ''ladder'')],
      wg_edges = [default_edge ''1'' ''p'' ''auditor-a'', default_edge ''2'' ''auditor-a'' ''l'', default_edge ''3'' ''l'' ''v'']\<rparr>"

definition audit_options :: "authorization list \<Rightarrow> unit authored_options" where
  "audit_options granted = \<lparr>ao_gates = Map.empty, ao_authorize = granted, ao_reserved = [''quick''], ao_configuration = None\<rparr>"

lemma audit_graph_accepted:
  "map_option (map_sum (\<lambda>_. ()) av_valid) (validate_authored_graph demo_host (json_of_workflow (audit_graph [])) (audit_options [])) = Some (Inr True)"
  by code_simp

lemma audit_graph_read: "plain_json (json_of_workflow (audit_graph []))" "read_workflow (json_of_workflow (audit_graph [])) = Some (audit_graph [])"
  by code_simp+

lemma audit_graph_valid:
  obtains r where "validate_authored_graph demo_host (json_of_workflow (audit_graph [])) (audit_options []) = Some (Inr r)" "av_valid r"
proof (cases "validate_authored_graph demo_host (json_of_workflow (audit_graph [])) (audit_options [])")
  case None
  with audit_graph_accepted show ?thesis by simp
next
  case (Some x)
  with audit_graph_accepted that show ?thesis by (cases x) auto
qed

theorem accepted_graph_dispatches_witness:
  "\<exists>p. build_graph_plan demo_host (runner_graph_of (audit_graph [])) ''r'' = Inr p \<and> length (pl_order p) \<ge> 4 \<and> ''v'' \<in> set (pl_order p)"
proof -
  obtain r where "validate_authored_graph demo_host (json_of_workflow (audit_graph [])) (audit_options []) = Some (Inr r)" "av_valid r"
    by (rule audit_graph_valid)
  moreover have "keeps_ascii demo_host" by (simp add: keeps_ascii_def demo_host_def)
  ultimately obtain p where p: "build_graph_plan demo_host (runner_graph_of (audit_graph [])) ''r'' = Inr p"
      "set (pl_order p) = wn_id ` set (wg_nodes (audit_graph []))"
    using accepted_graph_dispatches [OF audit_graph_read(1)] audit_graph_read(2) by fastforce
  have "wn_id ` set (wg_nodes (audit_graph [])) = {''p'', ''auditor-a'', ''l'', ''v''}" by (simp add: audit_graph_def audit_node_def)
  moreover have "card {''p'', ''auditor-a'', ''l'', ''v''} = 4" by simp
  ultimately show ?thesis using p card_length [of "pl_order p"] by auto
qed

section \<open>Privileged changes\<close>

text \<open>
  C21. Without the control-plane authorization an accepted graph composes no protocol layers on an edge and sets no
  protocol source in the configuration of a node, at any depth; without write authority no node sets a write key; without
  the testing authorization no node is named execute or configures an execution; and without its authorization no
  shipped preset id is reused.
\<close>
theorem no_unauthorised_change:
  assumes "plain_json v" "validate_authored_graph h v opts = Some (Inr r)" "av_valid r" "read_workflow v = Some g"
  shows "(ControlPlane \<notin> set (ao_authorize opts) \<longrightarrow> (\<forall>e \<in> set (wg_edges g). we_layers e = [])
         \<and> (\<forall>n \<in> set (wg_nodes g). \<forall>k. control_plane_keys k \<longrightarrow> \<not> key_in k (node_config n)))
     \<and> (WriteAuthority \<notin> set (ao_authorize opts) \<longrightarrow> (\<forall>n \<in> set (wg_nodes g). \<forall>k. write_keys k \<longrightarrow> \<not> key_in k (node_config n)))
     \<and> (TestingExecution \<notin> set (ao_authorize opts) \<longrightarrow>
         (\<forall>n \<in> set (wg_nodes g). wn_id n \<noteq> ''execute'' \<and> (\<forall>k. testing_keys k \<longrightarrow> \<not> key_in k (node_config n))))
     \<and> (ShippedPresetId \<notin> set (ao_authorize opts) \<longrightarrow> wg_id g \<notin> set (ao_reserved opts))"
proof -
  have none: "concat (map (unauthorized (ao_authorize opts)) (privileged_changes g (ao_reserved opts))) = []"
    by (rule authored_parts [OF assms])
  note granted = unauthorized_Nil [OF none]
  have edges: "ControlPlane \<in> set (ao_authorize opts)" if e: "e \<in> set (wg_edges g)" "we_layers e \<noteq> []" for e
    using layer_change_found [OF e none] .
  have preset: "ShippedPresetId \<in> set (ao_authorize opts)" if "wg_id g \<in> set (ao_reserved opts)"
    using preset_change_found [OF that none] .
  have execute: "TestingExecution \<in> set (ao_authorize opts)" if n: "n \<in> set (wg_nodes g)" "wn_id n = ''execute''" for n
    using execute_change_found [OF n none] .
  have key: "a \<in> set (ao_authorize opts)"
    if "n \<in> set (wg_nodes g)" "key_in k (node_config n)" "key_authorization k a" for n k a
    using key_change_found [OF that(1,2) authorization_found [OF that(3)] none] .
  show ?thesis using edges preset execute key by (auto simp: key_authorization_def)
qed

theorem no_unauthorised_change_witness:
  "\<not> key_in ''allowWrites'' (node_config ((audit_node ''auditor-a'' ModelNode)\<lparr>wn_config := Some []\<rparr>))
     \<and> map pv_category (privileged_changes (audit_graph [(''x'', JArr [JObj [(''allowWrites'', JBool True)]])]) []) = [WriteAuthority]"
proof
  obtain r where r: "validate_authored_graph demo_host (json_of_workflow (audit_graph [])) (audit_options []) = Some (Inr r)" "av_valid r"
    by (rule audit_graph_valid)
  have "WriteAuthority \<notin> set (ao_authorize (audit_options []))" by (simp add: audit_options_def)
  moreover have "(audit_node ''auditor-a'' ModelNode)\<lparr>wn_config := Some []\<rparr> \<in> set (wg_nodes (audit_graph []))" by (simp add: audit_graph_def)
  moreover have "write_keys ''allowWrites''" by code_simp
  ultimately show "\<not> key_in ''allowWrites'' (node_config ((audit_node ''auditor-a'' ModelNode)\<lparr>wn_config := Some []\<rparr>))"
    using no_unauthorised_change [OF audit_graph_read(1) r audit_graph_read(2)] by blast
  show "map pv_category (privileged_changes (audit_graph [(''x'', JArr [JObj [(''allowWrites'', JBool True)]])]) []) = [WriteAuthority]"
    by code_simp
qed

end
