(* ===== verification/Graph_Store.thy ===== *)
theory Graph_Store
  imports Run_Store Graph_Schema
begin

text \<open>
  Saved versions of authored graphs: \<open>packages/persistence/src/workflow-graph-store.ts\<close>, over the artifact store. A
  version record is a file \<open>versions/<graph>/<version>.json\<close>; its content is what \<open>JSON.parse\<close> makes of it, \<open>None\<close> where it
  throws. The staging file of \<open>createOnce\<close>, whose name no reader takes for a record, is left out; another process that
  writes records before the link is the argument \<open>rival\<close>.
\<close>

datatype graph_store_error =
    InvalidGraphId
  | InvalidGraphVersion
  | ParentVersionAbsent string string
  | VersionAbsent string string
  | InvalidGraphRecord string string
  | GraphContentMismatch string string
  | RecordNotParsed
  | BodyError store_error

record version_summary =
  vs_graph :: string
  vs_version :: string
  vs_parent :: "string option"
  vs_saved :: string
  vs_authorizations :: "string list"

record version_record =
  vr_summary :: version_summary
  vr_graph :: json

record stored_version =
  sv_summary :: version_summary
  sv_ref :: json

type_synonym version_files = "((string \<times> string) \<times> json option) list"

record graph_store =
  gv_files :: files
  gv_sequence :: nat
  gv_versions :: version_files

record save_input =
  si_graph_id :: string
  si_graph :: json
  si_parent :: "string option"
  si_authorizations :: "string list"

definition record_file :: "string \<Rightarrow> string" where
  "record_file version = version @ ''.json''"

definition version_of :: "js_host \<Rightarrow> json \<Rightarrow> store_error + string" where
  "version_of h graph = result_bind (content_address h graph ''json'') (\<lambda>ref. Inr (ref_hash ref))"

section \<open>Records\<close>

definition json_of_ref :: "artifact_ref \<Rightarrow> json" where
  "json_of_ref ref = JObj [(''hash'', JStr (ref_hash ref)), (''byteLength'', JNum (num (int (ref_length ref)))),
     (''extension'', JStr (ref_extension ref)), (''relativePath'', JStr (ref_path ref))]"

definition json_of_stored :: "stored_version \<Rightarrow> json" where
  "json_of_stored st =
     (let s = sv_summary st in
      JObj [(''schemaVersion'', JNum (num 1)), (''graphId'', JStr (vs_graph s)), (''version'', JStr (vs_version s)),
        (''parentVersion'', case vs_parent s of None \<Rightarrow> JNull | Some p \<Rightarrow> JStr p), (''savedAt'', JStr (vs_saved s)),
        (''authorizations'', JArr (map JStr (vs_authorizations s))), (''ref'', sv_ref st)])"

definition valid_parent :: "json \<Rightarrow> bool" where
  "valid_parent v \<longleftrightarrow> (case v of JNull \<Rightarrow> True | JStr s \<Rightarrow> valid_hash s | _ \<Rightarrow> False)"

definition texts_in :: "json \<Rightarrow> string list option" where
  "texts_in v = (case v of JArr xs \<Rightarrow> all_some (map text_of xs) | _ \<Rightarrow> None)"

definition parse_stored :: "json option \<Rightarrow> string \<Rightarrow> string \<Rightarrow> graph_store_error + stored_version" where
  "parse_stored content graph version =
     (case content of
        None \<Rightarrow> Inl RecordNotParsed
      | Some v \<Rightarrow> if v = JNull then Inl RecordNotParsed else
          (case (text_of (field v ''savedAt''), texts_in (field v ''authorizations'')) of
             (Some saved, Some authorizations) \<Rightarrow>
               if field v ''schemaVersion'' = JNum (num 1) \<and> field v ''graphId'' = JStr graph \<and> field v ''version'' = JStr version
                  \<and> field (field v ''ref'') ''hash'' = JStr version \<and> valid_parent (field v ''parentVersion'')
               then Inr \<lparr>sv_summary = \<lparr>vs_graph = graph, vs_version = version, vs_parent = text_of (field v ''parentVersion''), vs_saved = saved,
                   vs_authorizations = authorizations\<rparr>, sv_ref = field v ''ref''\<rparr>
               else Inl (InvalidGraphRecord graph version)
           | _ \<Rightarrow> Inl (InvalidGraphRecord graph version)))"

text \<open>The reference as the artifact store checks it: the hash is known to be text.\<close>

definition read_ref :: "json \<Rightarrow> store_error + artifact_ref" where
  "read_ref v =
     (case (text_of (field v ''hash''), field v ''byteLength'', text_of (field v ''extension''), text_of (field v ''relativePath'')) of
        (Some hash, JNum n, extension, path) \<Rightarrow>
          if \<not> valid_hash hash then Inl InvalidHash
          else if \<not> safe_integer n \<or> int_of_number n < 0 then Inl InvalidByteLength
          else (case (extension, path) of
              (None, _) \<Rightarrow> Inl (InvalidExtension [])
            | (Some e, None) \<Rightarrow> (if valid_extension e then Inl PathMismatch else Inl (InvalidExtension e))
            | (Some e, Some p) \<Rightarrow> Inr \<lparr>ref_hash = hash, ref_length = nat (int_of_number n), ref_extension = e, ref_path = p\<rparr>)
      | (Some hash, _, _, _) \<Rightarrow> (if valid_hash hash then Inl InvalidByteLength else Inl InvalidHash)
      | _ \<Rightarrow> Inl InvalidHash)"

section \<open>Operations\<close>

definition graph_get :: "js_host \<Rightarrow> graph_store \<Rightarrow> string \<Rightarrow> string \<Rightarrow> graph_store_error + version_record option" where
  "graph_get h st graph version =
     (if \<not> once_segment graph then Inl InvalidGraphId
      else if \<not> valid_hash version then Inl InvalidGraphVersion
      else case map_of (gv_versions st) (graph, record_file version) of
        None \<Rightarrow> Inr None
      | Some content \<Rightarrow>
          result_bind (parse_stored content graph version) (\<lambda>stored.
            case result_bind (read_ref (sv_ref stored)) (store_get h (gv_files st)) of
              Inl e \<Rightarrow> Inl (BodyError e)
            | Inr body \<Rightarrow>
                (case version_of h body of
                   Inl e \<Rightarrow> Inl (BodyError e)
                 | Inr v \<Rightarrow> if v \<noteq> version then Inl (GraphContentMismatch graph version)
                     else Inr (Some \<lparr>vr_summary = sv_summary stored, vr_graph = body\<rparr>))))"

text \<open>A hard link: it fails where the name exists.\<close>

definition create_version :: "(version_files \<Rightarrow> version_files) \<Rightarrow> string \<times> string \<Rightarrow> json \<Rightarrow> version_files \<Rightarrow> version_files \<times> bool" where
  "create_version rival path v vs0 =
     (let vs = rival vs0 in
      case map_of vs path of None \<Rightarrow> (AList.update path (Some v) vs, True) | Some _ \<Rightarrow> (vs, False))"

definition stored_of :: "save_input \<Rightarrow> string \<Rightarrow> artifact_ref \<Rightarrow> stored_version" where
  "stored_of input now ref =
     \<lparr>sv_summary = \<lparr>vs_graph = si_graph_id input, vs_version = ref_hash ref, vs_parent = si_parent input, vs_saved = now,
        vs_authorizations = sort_strings (uniq (si_authorizations input))\<rparr>, sv_ref = json_of_ref ref\<rparr>"

definition parent_check :: "js_host \<Rightarrow> save_input \<Rightarrow> graph_store \<Rightarrow> graph_store_error + unit" where
  "parent_check h input st =
     (case si_parent input of
        None \<Rightarrow> Inr ()
      | Some p \<Rightarrow> result_bind (graph_get h st (si_graph_id input) p) (\<lambda>r.
          case r of None \<Rightarrow> Inl (ParentVersionAbsent (si_graph_id input) p) | Some _ \<Rightarrow> Inr ()))"

definition graph_save ::
  "js_host \<Rightarrow> (files \<Rightarrow> files) \<Rightarrow> (version_files \<Rightarrow> version_files) \<Rightarrow> string \<Rightarrow> string \<Rightarrow> save_input \<Rightarrow> graph_store \<Rightarrow>
     graph_store \<times> (graph_store_error + version_record \<times> bool)" where
  "graph_save h race rival pid now input st =
     (let graph = si_graph_id input in
      if \<not> once_segment graph then (st, Inl InvalidGraphId)
      else case parent_check h input st of
        Inl e \<Rightarrow> (st, Inl e)
      | Inr _ \<Rightarrow>
          (case store_put h race pid (gv_files st, gv_sequence st) (si_graph input) ''json'' of
             ((fs, n), Inl e) \<Rightarrow> (st\<lparr>gv_files := fs, gv_sequence := n\<rparr>, Inl (BodyError e))
           | ((fs, n), Inr ref) \<Rightarrow>
               (case create_version rival (graph, record_file (ref_hash ref)) (json_of_stored (stored_of input now ref)) (gv_versions st) of
                  (vs, created) \<Rightarrow>
                    (let st' = \<lparr>gv_files = fs, gv_sequence = n, gv_versions = vs\<rparr> in
                     (st', result_bind (graph_get h st' graph (ref_hash ref)) (\<lambda>r.
                       case r of None \<Rightarrow> Inl (VersionAbsent graph (ref_hash ref)) | Some rec \<Rightarrow> Inr (rec, created)))))))"

definition version_file :: "string \<Rightarrow> string option" where
  "version_file name = (if length name = 69 \<and> valid_hash (take 64 name) \<and> drop 64 name = ''.json'' then Some (take 64 name) else None)"

definition by_saved :: "js_host \<Rightarrow> version_summary \<Rightarrow> version_summary \<Rightarrow> bool" where
  "by_saved h a b \<longleftrightarrow>
     (if lc h (vs_saved a) (vs_saved b) \<and> lc h (vs_saved b) (vs_saved a) then lc h (vs_version a) (vs_version b) else lc h (vs_saved a) (vs_saved b))"

definition summary_at :: "string \<Rightarrow> version_files \<Rightarrow> string \<Rightarrow> graph_store_error + version_summary option" where
  "summary_at graph vs version =
     (case map_of vs (graph, record_file version) of
        None \<Rightarrow> Inr None
      | Some content \<Rightarrow> result_bind (parse_stored content graph version) (\<lambda>stored. Inr (Some (sv_summary stored))))"

definition graph_versions :: "js_host \<Rightarrow> graph_store \<Rightarrow> string \<Rightarrow> graph_store_error + version_summary list" where
  "graph_versions h st graph =
     (if \<not> once_segment graph then Inl InvalidGraphId
      else result_bind (result_map (summary_at graph (gv_versions st))
          (List.map_filter (\<lambda>((g, name), _). if g = graph then version_file name else None) (gv_versions st))) (\<lambda>xs.
        Inr (sort_by (by_saved h) (List.map_filter id xs))))"

definition graph_list :: "js_host \<Rightarrow> graph_store \<Rightarrow> graph_store_error + (string \<times> version_summary list) list" where
  "graph_list h st =
     result_bind (result_map (\<lambda>g. result_bind (graph_versions h st g) (\<lambda>vs. Inr (g, vs)))
         (sort_strings (filter once_segment (uniq (map (fst \<circ> fst) (gv_versions st)))))) (\<lambda>xs.
       Inr (filter (\<lambda>x. snd x \<noteq> []) xs))"

section \<open>Lemmas\<close>

definition fair_rival :: "(version_files \<Rightarrow> version_files) \<Rightarrow> bool" where
  "fair_rival rival \<longleftrightarrow> (\<forall>vs k c. map_of vs k = Some c \<longrightarrow> map_of (rival vs) k = Some c)"

text \<open>No two contents have this digest.\<close>

definition one_content :: "js_host \<Rightarrow> string \<Rightarrow> bool" where
  "one_content h hash \<longleftrightarrow> (\<forall>a b. sha256 h a = hash \<longrightarrow> sha256 h b = hash \<longrightarrow> a = b)"

lemma store_get_kept:
  assumes "store_get h fs ref = Inr v" "available h fs' ref" "one_content h (ref_hash ref)"
  shows "store_get h fs' ref = Inr v"
proof -
  obtain bytes where old: "fs (file_name (ref_hash ref) (ref_extension ref)) = Some bytes" "sha256 h bytes = ref_hash ref" "length bytes = ref_length ref"
    using assms(1) by (auto simp: store_get_def result_simps split: if_splits option.splits)
  obtain b where new: "fs' (file_name (ref_hash ref) (ref_extension ref)) = Some b" "sha256 h b = ref_hash ref"
    using assms(2) by (auto simp: available_def)
  have "b = bytes" using assms(3) old(2) new(2) unfolding one_content_def by blast
  then show ?thesis using assms(1) old new by (auto simp: store_get_def result_simps)
qed

lemma create_version_keeps:
  "fair_rival rival \<Longrightarrow> map_of vs k = Some c \<Longrightarrow> map_of (fst (create_version rival path v vs)) k = Some c"
proof -
  assume "fair_rival rival" "map_of vs k = Some c"
  then have "map_of (rival vs) k = Some c" unfolding fair_rival_def by blast
  then show ?thesis by (cases "k = path") (auto simp: create_version_def Let_def split: option.splits)
qed

lemma parse_stored_Inr:
  "parse_stored content graph version = Inr stored \<Longrightarrow>
     field (sv_ref stored) ''hash'' = JStr version \<and> vs_version (sv_summary stored) = version \<and> vs_graph (sv_summary stored) = graph"
  by (auto simp: parse_stored_def split: option.splits if_splits)

lemma read_ref_hash: "read_ref v = Inr ref \<Longrightarrow> field v ''hash'' = JStr version \<Longrightarrow> ref_hash ref = version"
  by (cases "field v ''byteLength''") (auto simp: read_ref_def split: option.splits if_splits)

lemma parse_stored_ref:
  assumes "parse_stored content graph version = Inr stored" "read_ref (sv_ref stored) = Inr ref"
  shows "ref_hash ref = version" "vs_version (sv_summary stored) = version" "vs_graph (sv_summary stored) = graph"
  using parse_stored_Inr [OF assms(1)] read_ref_hash [OF assms(2)] by auto

lemma graph_get_kept:
  assumes got: "graph_get h st graph version = Inr (Some rec)" and one: "one_content h version"
    and records: "\<And>k c. map_of (gv_versions st) k = Some c \<Longrightarrow> map_of (gv_versions st') k = Some c"
    and files: "\<And>ref. available h (gv_files st) ref \<Longrightarrow> good_ref ref \<Longrightarrow> available h (gv_files st') ref"
  shows "graph_get h st' graph version = Inr (Some rec)"
proof -
  from got obtain content stored ref body where
    c: "map_of (gv_versions st) (graph, record_file version) = Some content" "parse_stored content graph version = Inr stored"
      "read_ref (sv_ref stored) = Inr ref" "store_get h (gv_files st) ref = Inr body"
    and v: "once_segment graph" "valid_hash version" "version_of h body = Inr version" "rec = \<lparr>vr_summary = sv_summary stored, vr_graph = body\<rparr>"
    by (auto simp: graph_get_def result_simps split: option.splits if_splits sum.splits)
  have "ref_hash ref = version" by (rule parse_stored_ref(1) [OF c(2,3)])
  then have "store_get h (gv_files st') ref = Inr body"
    using store_get_kept [OF c(4)] files store_get_checked [OF c(4)] one by blast
  with records [OF c(1)] c v show ?thesis by (simp add: graph_get_def)
qed

text \<open>What a save of another process, or of this one, may assume of the names it writes.\<close>

definition fair_save :: "js_host \<Rightarrow> (files \<Rightarrow> files) \<Rightarrow> (version_files \<Rightarrow> version_files) \<Rightarrow> string \<Rightarrow> save_input \<Rightarrow> bool" where
  "fair_save h race rival pid input \<longleftrightarrow> fair_race h pid race \<and> fair_rival rival
     \<and> (\<forall>q bytes. encode_artifact h (si_graph input) ''json'' = Inr (q, bytes) \<longrightarrow> no_collision h bytes)"

lemma graph_save_keeps:
  assumes fair: "fair_save h race rival pid input"
  shows "map_of (gv_versions st) k = Some c \<Longrightarrow> map_of (gv_versions (fst (graph_save h race rival pid now input st))) k = Some c"
    and "available h (gv_files st) ref \<Longrightarrow> good_ref ref \<Longrightarrow> available h (gv_files (fst (graph_save h race rival pid now input st))) ref"
proof -
  obtain fs n r where put: "store_put h race pid (gv_files st, gv_sequence st) (si_graph input) ''json'' = ((fs, n), r)" by (metis prod.exhaust)
  have f: "fair_race h pid race" "fair_rival rival" "\<And>q bytes. encode_artifact h (si_graph input) ''json'' = Inr (q, bytes) \<Longrightarrow> no_collision h bytes"
    using fair by (auto simp: fair_save_def)
  show "map_of (gv_versions (fst (graph_save h race rival pid now input st))) k = Some c" if "map_of (gv_versions st) k = Some c"
    using that create_version_keeps [OF f(2) that]
    by (auto simp: graph_save_def Let_def put split: sum.splits prod.splits) (metis fst_conv)
  show "available h (gv_files (fst (graph_save h race rival pid now input st))) ref" if "available h (gv_files st) ref" "good_ref ref"
    using that store_put_keeps [OF put f(1) that(2,1) f(3)]
    by (auto simp: graph_save_def Let_def put split: sum.splits prod.splits)
qed

section \<open>Properties\<close>

text \<open>One save after another, by any process: its races, its process, the time and the input.\<close>

type_synonym save_call = "(files \<Rightarrow> files) \<times> (version_files \<Rightarrow> version_files) \<times> string \<times> string \<times> save_input"

definition saves_after :: "js_host \<Rightarrow> save_call list \<Rightarrow> graph_store \<Rightarrow> graph_store" where
  "saves_after h calls st = fold (\<lambda>(race, rival, pid, now, input) s. fst (graph_save h race rival pid now input s)) calls st"

text \<open>
  C27. A saved version is immutable: whatever is saved afterwards, under the same graph or another, by any process, a read of
  the version gives the record and the graph it gave before.
\<close>
theorem saved_version_is_immutable:
  assumes "graph_get h st graph version = Inr (Some rec)" "one_content h version"
    and "list_all (\<lambda>(race, rival, pid, now, input). fair_save h race rival pid input) calls"
  shows "graph_get h (saves_after h calls st) graph version = Inr (Some rec)"
  using assms(1,3)
proof (induction calls arbitrary: st)
  case Nil
  then show ?case by (simp add: saves_after_def)
next
  case (Cons call calls)
  obtain race rival pid now input where call: "call = (race, rival, pid, now, input)" by (cases call) auto
  let ?st = "fst (graph_save h race rival pid now input st)"
  have fair: "fair_save h race rival pid input" using Cons.prems(2) by (simp add: call)
  have "graph_get h ?st graph version = Inr (Some rec)"
    by (rule graph_get_kept [OF Cons.prems(1) assms(2)]) (fact graph_save_keeps [OF fair])+
  from Cons.IH [OF this] Cons.prems(2) show ?case by (simp add: saves_after_def call)
qed

text \<open>
  A save that returns gives the saved graph: the record is read back under the graph and the version that is the content
  address of what was saved, and the graph in it has the same canonical bytes.
\<close>
theorem save_returns_saved_graph:
  assumes "graph_save h race rival pid now input st = (st', Inr (rec, created))"
    and "encode_artifact h (si_graph input) ''json'' = Inr (ref, bytes)" "no_collision h bytes"
  shows "graph_get h st' (si_graph_id input) (ref_hash ref) = Inr (Some rec)
     \<and> (\<exists>q. encode_artifact h (vr_graph rec) ''json'' = Inr (q, bytes)) \<and> vs_version (vr_summary rec) = ref_hash ref"
proof -
  let ?g = "si_graph_id input"
  obtain fs n r where put: "store_put h race pid (gv_files st, gv_sequence st) (si_graph input) ''json'' = ((fs, n), r)" by (metis prod.exhaust)
  have "\<exists>q. r = Inr q" using assms(1) by (cases r) (auto simp: graph_save_def Let_def put split: if_splits sum.splits)
  then obtain q where q: "r = Inr q" by blast
  have "q = ref" using store_put_pure [OF put [unfolded q]] assms(2) by (simp add: content_address_def)
  with q have "r = Inr ref" by simp
  then have got: "graph_get h st' ?g (ref_hash ref) = Inr (Some rec)"
    using assms(1) put by (auto simp: graph_save_def Let_def result_simps split: if_splits sum.splits prod.splits option.splits)
  then obtain content stored q where
    c: "parse_stored content ?g (ref_hash ref) = Inr stored" "read_ref (sv_ref stored) = Inr q"
    and v: "version_of h (vr_graph rec) = Inr (ref_hash ref)" "vr_summary rec = sv_summary stored"
    by (auto simp: graph_get_def result_simps split: option.splits if_splits sum.splits)
  obtain p b where enc: "encode_artifact h (vr_graph rec) ''json'' = Inr (p, b)" and hash: "ref_hash p = ref_hash ref"
    using v(1) by (auto simp: version_of_def content_address_def result_simps)
  have "b = bytes" using enc assms(2,3) hash by (auto simp: encode_artifact_Inr no_collision_def)
  with got enc v(2) parse_stored_ref(2) [OF c] show ?thesis by auto
qed

text \<open>A host with two values and their digests.\<close>

definition graph_host :: js_host where
  "graph_host = \<lparr>nfc = (\<lambda>s. s), numstr = (\<lambda>n. ''1''), lc = (\<lambda>a b. True),
     sha256 = (\<lambda>s. replicate 64 (if s = ''{}'' then CHR ''a'' else if s = ''[]'' then CHR ''b'' else CHR ''c'')),
     parse_bytes = (\<lambda>s. if s = ''{}'' then Some (JObj []) else if s = ''[]'' then Some (JArr []) else None)\<rparr>"

definition empty_store :: graph_store where
  "empty_store = \<lparr>gv_files = Map.empty, gv_sequence = 0, gv_versions = []\<rparr>"

definition save_of :: "json \<Rightarrow> save_input" where
  "save_of graph = \<lparr>si_graph_id = ''g'', si_graph = graph, si_parent = None, si_authorizations = []\<rparr>"

definition first_store :: graph_store where
  "first_store = fst (graph_save graph_host (\<lambda>fs. fs) (\<lambda>vs. vs) ''1'' ''t'' (save_of (JObj [])) empty_store)"

definition first_record :: version_record where
  "first_record = \<lparr>vr_summary = \<lparr>vs_graph = ''g'', vs_version = replicate 64 CHR ''a'', vs_parent = None, vs_saved = ''t'', vs_authorizations = []\<rparr>,
     vr_graph = JObj []\<rparr>"

lemma first_save:
  "snd (graph_save graph_host (\<lambda>fs. fs) (\<lambda>vs. vs) ''1'' ''t'' (save_of (JObj [])) empty_store) = Inr (first_record, True)"
  "graph_get graph_host first_store ''g'' (replicate 64 CHR ''a'') = Inr (Some first_record)"
  by code_simp+

lemma graph_host_digests: "sha256 graph_host b = replicate 64 CHR ''a'' \<Longrightarrow> b = ''{}''" "sha256 graph_host b = replicate 64 CHR ''b'' \<Longrightarrow> b = ''[]''"
  by (auto simp: graph_host_def replicate_eq_replicate split: if_splits)

lemma graph_host_no_collision: "no_collision graph_host ''{}''" "no_collision graph_host ''[]''"
proof -
  have digests: "sha256 graph_host ''{}'' = replicate 64 CHR ''a''" "sha256 graph_host ''[]'' = replicate 64 CHR ''b''" by (simp_all add: graph_host_def)
  show "no_collision graph_host ''{}''" unfolding no_collision_def digests by (intro allI impI graph_host_digests(1))
  show "no_collision graph_host ''[]''" unfolding no_collision_def digests by (intro allI impI graph_host_digests(2))
qed

lemma graph_host_encodes:
  "encode_artifact graph_host (JObj []) ''json'' =
     Inr (\<lparr>ref_hash = replicate 64 CHR ''a'', ref_length = 2, ref_extension = ''json'', ref_path = relative_path (replicate 64 CHR ''a'') ''json''\<rparr>, ''{}'')"
  "encode_artifact graph_host (JArr []) ''json'' =
     Inr (\<lparr>ref_hash = replicate 64 CHR ''b'', ref_length = 2, ref_extension = ''json'', ref_path = relative_path (replicate 64 CHR ''b'') ''json''\<rparr>, ''[]'')"
  by code_simp+

theorem saved_version_is_immutable_witness:
  "graph_get graph_host (saves_after graph_host [(\<lambda>fs. fs, \<lambda>vs. vs, ''2'', ''u'', save_of (JArr [])), (\<lambda>fs. fs, \<lambda>vs. vs, ''2'', ''v'', save_of (JObj []))]
      first_store) ''g'' (replicate 64 CHR ''a'') = Inr (Some first_record)
   \<and> vs_saved (vr_summary first_record) = ''t''"
proof
  have "one_content graph_host (replicate 64 CHR ''a'')" unfolding one_content_def using graph_host_digests(1) by blast
  moreover have "fair_rival (\<lambda>vs. vs)" by (simp add: fair_rival_def)
  ultimately show "graph_get graph_host (saves_after graph_host [(\<lambda>fs. fs, \<lambda>vs. vs, ''2'', ''u'', save_of (JArr [])),
      (\<lambda>fs. fs, \<lambda>vs. vs, ''2'', ''v'', save_of (JObj []))] first_store) ''g'' (replicate 64 CHR ''a'') = Inr (Some first_record)"
    by (intro saved_version_is_immutable first_save(2)) (simp_all add: fair_save_def save_of_def graph_host_encodes graph_host_no_collision)
  show "vs_saved (vr_summary first_record) = ''t''" by (simp add: first_record_def)
qed

theorem save_returns_saved_graph_witness:
  "vs_version (vr_summary first_record) = replicate 64 CHR ''a'' \<and> graph_get graph_host first_store ''g'' (replicate 64 CHR ''a'') = Inr (Some first_record)"
proof -
  have save: "graph_save graph_host (\<lambda>fs. fs) (\<lambda>vs. vs) ''1'' ''t'' (save_of (JObj [])) empty_store = (first_store, Inr (first_record, True))"
    using first_save(1) by (simp add: first_store_def prod_eq_iff)
  have graph: "si_graph (save_of (JObj [])) = JObj []" "si_graph_id (save_of (JObj [])) = ''g''" by (simp_all add: save_of_def)
  from save_returns_saved_graph [OF save _ graph_host_no_collision(1), unfolded graph, OF graph_host_encodes(1)] show ?thesis by simp
qed

end
