(* ===== verification/Token_Budget.thy ===== *)
theory Token_Budget
  imports Prelude
begin

text \<open>
  The run's durable token budget: \<open>packages/providers/src/token-budget.ts\<close>. Its operations run one
  after another (\<open>serial\<close>); a save of the backend may fail, and then nothing changes. Sums of tokens are
  integers; the code's are exact up to \<open>Number.MAX_SAFE_INTEGER\<close>.
\<close>

section \<open>State\<close>

datatype budget_error =
    InvalidTokenBudget | InvalidActivityId | InvalidTokenReservation | UnknownTokenReservation
  | TokenReservationReleased | TokenUsageAlreadyRecorded | InvalidTokenUsage | InvalidTokenReleaseRule
  | InvalidTokenBudgetState | SaveFailed

text \<open>Usage as a transport reports it: a count is a JavaScript number or \<open>null\<close>.\<close>

record usage =
  us_input :: "number option"
  us_output :: "number option"
  us_cache_read :: "number option"
  us_cache_write :: "number option"

record reservation =
  rv_id :: string
  rv_activity :: string
  rv_estimate :: number
  rv_usage :: "usage option"
  rv_released :: "string option"

record budget_state =
  bs_maximum :: number
  bs_reservations :: "reservation list"

text \<open>The object of one process over the run's backend.\<close>

record budget =
  bd_maximum :: number
  bd_state :: "budget_state option"
  bd_backend :: "budget_state option"

section \<open>Validation and charges\<close>

definition positive_integer :: "number \<Rightarrow> bool" where
  "positive_integer n \<longleftrightarrow> safe_integer n \<and> 1 \<le> int_of_number n"

definition valid_count :: "number option \<Rightarrow> bool" where
  "valid_count c \<longleftrightarrow> (case c of None \<Rightarrow> True | Some n \<Rightarrow> safe_integer n \<and> 0 \<le> int_of_number n)"

definition valid_usage :: "usage \<Rightarrow> bool" where
  "valid_usage u \<longleftrightarrow> valid_count (us_input u) \<and> valid_count (us_output u)
     \<and> valid_count (us_cache_read u) \<and> valid_count (us_cache_write u)"

definition tokens :: "number option \<Rightarrow> int" where
  "tokens c = (case c of None \<Rightarrow> 0 | Some n \<Rightarrow> int_of_number n)"

definition charge :: "reservation \<Rightarrow> int" where
  "charge r =
     (if rv_released r \<noteq> None then 0
      else case rv_usage r of
        None \<Rightarrow> max (int_of_number (rv_estimate r)) 0
      | Some u \<Rightarrow>
          if us_input u = None \<or> us_output u = None
          then max (int_of_number (rv_estimate r)) (tokens (us_input u) + tokens (us_output u))
          else tokens (us_input u) + tokens (us_output u))"

definition charged :: "budget_state \<Rightarrow> int" where
  "charged st = sum_list (map charge (bs_reservations st))"

definition reservation_name :: "nat \<Rightarrow> string" where
  "reservation_name k = ''reservation-'' @ nat_string k"

definition valid_reservation :: "nat \<Rightarrow> reservation \<Rightarrow> bool" where
  "valid_reservation k r \<longleftrightarrow>
     rv_id r = reservation_name (k + 1) \<and> \<not> blank (rv_activity r) \<and> positive_integer (rv_estimate r)
     \<and> (case rv_usage r of None \<Rightarrow> True | Some u \<Rightarrow> valid_usage u)
     \<and> (case rv_released r of None \<Rightarrow> True | Some rule \<Rightarrow> \<not> blank rule \<and> rv_usage r = None)"

definition validate_state :: "budget_state \<Rightarrow> number \<Rightarrow> budget_error + unit" where
  "validate_state st maximum =
     (if \<not> safe_integer (bs_maximum st) \<or> num_less maximum (bs_maximum st) then Inl InvalidTokenBudgetState
      else if \<not> list_all (\<lambda>(k, r). valid_reservation k r) (enumerate 0 (bs_reservations st))
      then Inl InvalidTokenBudgetState else Inr ())"

section \<open>Operations\<close>

definition open_budget :: "number \<Rightarrow> budget_state option \<Rightarrow> budget_error + budget" where
  "open_budget maximum backend =
     (if positive_integer maximum then Inr \<lparr>bd_maximum = maximum, bd_state = None, bd_backend = backend\<rparr>
      else Inl InvalidTokenBudget)"

definition load_budget :: "budget \<Rightarrow> budget \<times> (budget_error + budget_state)" where
  "load_budget b =
     (case bd_state b of
        Some st \<Rightarrow> (b, Inr st)
      | None \<Rightarrow>
          (case bd_backend b of
             None \<Rightarrow> (b, Inr \<lparr>bs_maximum = bd_maximum b, bs_reservations = []\<rparr>)
           | Some stored \<Rightarrow>
               (case validate_state stored (bd_maximum b) of
                  Inl e \<Rightarrow> (b, Inl e)
                | Inr _ \<Rightarrow>
                    (let st = stored\<lparr>bs_maximum := bd_maximum b\<rparr> in (b\<lparr>bd_state := Some st\<rparr>, Inr st)))))"

text \<open>\<open>ok\<close> is whether the backend's save resolves.\<close>

definition commit :: "bool \<Rightarrow> budget \<Rightarrow> budget_state \<Rightarrow> 'a \<Rightarrow> budget \<times> (budget_error + 'a)" where
  "commit ok b st x =
     (if ok then (b\<lparr>bd_backend := Some st, bd_state := Some st\<rparr>, Inr x) else (b, Inl SaveFailed))"

text \<open>\<open>reserve\<close>: \<open>Some id\<close> where the estimate fits, \<open>None\<close> where the budget is exhausted.\<close>

definition reserve :: "bool \<Rightarrow> budget \<Rightarrow> string \<Rightarrow> number \<Rightarrow> budget \<times> (budget_error + string option)" where
  "reserve ok b act estimate =
     (if blank act then (b, Inl InvalidActivityId)
      else if \<not> positive_integer estimate then (b, Inl InvalidTokenReservation)
      else case load_budget b of
        (b1, Inl e) \<Rightarrow> (b1, Inl e)
      | (b1, Inr st) \<Rightarrow>
          if int_of_number estimate > int_of_number (bd_maximum b) - charged st then (b1, Inr None)
          else (let name = reservation_name (length (bs_reservations st) + 1) in
            commit ok b1
              (st\<lparr>bs_reservations := bs_reservations st
                 @ [\<lparr>rv_id = name, rv_activity = act, rv_estimate = estimate, rv_usage = None, rv_released = None\<rparr>]\<rparr>)
              (Some name)))"

definition with_reservation ::
  "budget \<Rightarrow> string \<Rightarrow> string \<Rightarrow> (budget \<Rightarrow> budget_state \<Rightarrow> reservation \<Rightarrow> budget \<times> (budget_error + 'a)) \<Rightarrow>
     budget \<times> (budget_error + 'a)" where
  "with_reservation b act name f =
     (case load_budget b of
        (b1, Inl e) \<Rightarrow> (b1, Inl e)
      | (b1, Inr st) \<Rightarrow>
          (case find (\<lambda>r. rv_id r = name) (bs_reservations st) of
             None \<Rightarrow> (b1, Inl UnknownTokenReservation)
           | Some r \<Rightarrow> if rv_activity r \<noteq> act then (b1, Inl UnknownTokenReservation) else f b1 st r))"

definition set_reservation :: "budget_state \<Rightarrow> string \<Rightarrow> (reservation \<Rightarrow> reservation) \<Rightarrow> budget_state" where
  "set_reservation st name f =
     st\<lparr>bs_reservations := map (\<lambda>r. if rv_id r = name then f r else r) (bs_reservations st)\<rparr>"

definition record_actual :: "bool \<Rightarrow> budget \<Rightarrow> string \<Rightarrow> usage \<Rightarrow> string \<Rightarrow> budget \<times> (budget_error + unit)" where
  "record_actual ok b act u name =
     (if \<not> valid_usage u then (b, Inl InvalidTokenUsage)
      else with_reservation b act name (\<lambda>b1 st r.
        if rv_released r \<noteq> None then (b1, Inl TokenReservationReleased)
        else case rv_usage r of
          Some old \<Rightarrow> if old \<noteq> u then (b1, Inl TokenUsageAlreadyRecorded) else (b1, Inr ())
        | None \<Rightarrow> commit ok b1 (set_reservation st name (\<lambda>r. r\<lparr>rv_usage := Some u\<rparr>)) ()))"

definition release_reservation :: "bool \<Rightarrow> budget \<Rightarrow> string \<Rightarrow> string \<Rightarrow> string \<Rightarrow> budget \<times> (budget_error + unit)" where
  "release_reservation ok b act name rule =
     (if blank rule then (b, Inl InvalidTokenReleaseRule)
      else with_reservation b act name (\<lambda>b1 st r.
        if rv_usage r \<noteq> None then (b1, Inl TokenUsageAlreadyRecorded)
        else case rv_released r of
          Some old \<Rightarrow> if old \<noteq> rule then (b1, Inl TokenReservationReleased) else (b1, Inr ())
        | None \<Rightarrow> commit ok b1 (set_reservation st name (\<lambda>r. r\<lparr>rv_released := Some rule\<rparr>)) ()))"

section \<open>The state a process sees\<close>

text \<open>The calls of one process, in the order \<open>serial\<close> runs them.\<close>

datatype budget_call =
    Reserve bool string number
  | Record bool string usage string
  | Release bool string string string

fun budget_step :: "budget_call \<Rightarrow> budget \<Rightarrow> budget" where
  "budget_step (Reserve ok a n) b = fst (reserve ok b a n)"
| "budget_step (Record ok a u name) b = fst (record_actual ok b a u name)"
| "budget_step (Release ok a name rule) b = fst (release_reservation ok b a name rule)"

section \<open>Commitments\<close>

text \<open>What a reservation takes of the budget it was admitted to, and what its actual usage took beyond that.\<close>

definition estimate :: "reservation \<Rightarrow> int" where
  "estimate r = int_of_number (rv_estimate r)"

definition committed :: "budget_state \<Rightarrow> int" where
  "committed st = (\<Sum>r\<leftarrow>bs_reservations st. min (charge r) (estimate r))"

definition overrun :: "budget_state \<Rightarrow> int" where
  "overrun st = (\<Sum>r\<leftarrow>bs_reservations st. max 0 (charge r - estimate r))"

text \<open>A state that a process with limit \<open>m\<close> accepts and that never promised more than the limit.\<close>

definition fits :: "number \<Rightarrow> budget_state \<Rightarrow> bool" where
  "fits m st \<longleftrightarrow> validate_state st m = Inr () \<and> committed st \<le> int_of_number m"

definition budget_inv :: "number \<Rightarrow> budget \<Rightarrow> bool" where
  "budget_inv m b \<longleftrightarrow> bd_maximum b = m \<and> positive_integer m
     \<and> (\<forall>st. bd_backend b = Some st \<longrightarrow> fits m st) \<and> (\<forall>st. bd_state b = Some st \<longrightarrow> fits m st \<and> bs_maximum st = m)"

lemma charged_split: "charged st = committed st + overrun st"
proof -
  have "charge r = min (charge r) (estimate r) + max 0 (charge r - estimate r)" for r by linarith
  then have "map charge rs = map (\<lambda>r. min (charge r) (estimate r) + max 0 (charge r - estimate r)) rs" for rs
    by (rule map_cong [OF refl])
  then show ?thesis unfolding charged_def committed_def overrun_def by (metis sum_list_addf)
qed

lemma overrun_nonneg: "0 \<le> overrun st"
  unfolding overrun_def by (rule sum_list_nonneg) auto

lemma positive_irrefl: "positive_integer n \<Longrightarrow> \<not> num_less n n"
  by (cases n) (auto simp: positive_integer_def)

lemma validate_state_iff:
  "validate_state st m = Inr () \<longleftrightarrow> safe_integer (bs_maximum st) \<and> \<not> num_less m (bs_maximum st)
     \<and> (\<forall>k < length (bs_reservations st). valid_reservation k (bs_reservations st ! k))"
  by (auto simp: validate_state_def list_all_length nth_enumerate_eq)

lemma fits_raise: "fits m st \<Longrightarrow> positive_integer m \<Longrightarrow> fits m (st\<lparr>bs_maximum := m\<rparr>)"
  by (auto simp: fits_def validate_state_iff positive_irrefl committed_def positive_integer_def [of m])

lemma fits_empty: "positive_integer m \<Longrightarrow> fits m \<lparr>bs_maximum = m, bs_reservations = []\<rparr>"
  by (auto simp: fits_def validate_state_iff positive_irrefl committed_def) (auto simp: positive_integer_def)

lemma load_inv:
  assumes "load_budget b = (b1, r)" "budget_inv m b"
  shows "budget_inv m b1 \<and> (\<forall>st. r = Inr st \<longrightarrow> fits m st \<and> bs_maximum st = m)"
proof (cases "bd_state b")
  case (Some st)
  then show ?thesis using assms by (auto simp: load_budget_def budget_inv_def)
next
  case None
  note state = this
  from assms(2) have m: "bd_maximum b = m" "positive_integer m" by (simp_all add: budget_inv_def)
  show ?thesis
  proof (cases "bd_backend b")
    case None
    then show ?thesis using assms state m fits_empty [OF m(2)] by (auto simp: load_budget_def)
  next
    case (Some stored)
    then have "fits m stored" using assms(2) by (simp add: budget_inv_def)
    moreover from this have "validate_state stored m = Inr ()" by (simp add: fits_def)
    ultimately show ?thesis using assms state m Some fits_raise [OF \<open>fits m stored\<close> m(2)]
      by (auto simp: load_budget_def Let_def budget_inv_def)
  qed
qed

lemma commit_inv:
  "budget_inv m b \<Longrightarrow> fits m st \<Longrightarrow> bs_maximum st = m \<Longrightarrow> budget_inv m (fst (commit ok b st x))"
  by (auto simp: commit_def budget_inv_def)

lemma fits_reserve:
  assumes "fits m st" "bs_maximum st = m" "positive_integer e" "\<not> blank act"
    "int_of_number e \<le> int_of_number m - charged st"
  shows "fits m (st\<lparr>bs_reservations := bs_reservations st
     @ [\<lparr>rv_id = reservation_name (length (bs_reservations st) + 1), rv_activity = act, rv_estimate = e, rv_usage = None,
         rv_released = None\<rparr>]\<rparr>)"
  using assms charged_split [of st] overrun_nonneg [of st]
  by (auto simp: fits_def validate_state_iff nth_append valid_reservation_def committed_def charge_def estimate_def
      positive_integer_def less_Suc_eq)

lemma reservation_name_inject: "nat_string k = nat_string l \<Longrightarrow> reservation_name k = reservation_name l"
  by (simp add: reservation_name_def)

lemma fits_set:
  assumes fits: "fits m st"
    and valid: "\<And>k r. r \<in> set (bs_reservations st) \<Longrightarrow> rv_id r = name \<Longrightarrow> valid_reservation k r \<Longrightarrow> valid_reservation k (f r)"
    and less: "\<And>r. r \<in> set (bs_reservations st) \<Longrightarrow> rv_id r = name \<Longrightarrow> min (charge (f r)) (estimate (f r)) \<le> min (charge r) (estimate r)"
  shows "fits m (set_reservation st name f)"
proof -
  have "committed (set_reservation st name f) \<le> committed st"
    unfolding committed_def set_reservation_def
    by (simp add: comp_def) (rule sum_list_mono, use less in auto)
  moreover have "validate_state (set_reservation st name f) m = Inr ()"
    using fits valid by (auto simp: fits_def validate_state_iff set_reservation_def)
  ultimately show ?thesis using fits by (simp add: fits_def)
qed

lemma with_reservation_inv:
  assumes "budget_inv m b"
    and "\<And>b1 st r. budget_inv m b1 \<Longrightarrow> fits m st \<Longrightarrow> bs_maximum st = m \<Longrightarrow>
      find (\<lambda>r. rv_id r = name) (bs_reservations st) = Some r \<Longrightarrow> budget_inv m (fst (f b1 st r))"
  shows "budget_inv m (fst (with_reservation b act name f))"
proof -
  obtain b1 x where l: "load_budget b = (b1, x)" by (metis surj_pair)
  from load_inv [OF l assms(1)] assms(2) show ?thesis
    by (cases x) (auto simp: with_reservation_def l split: option.splits)
qed

lemma unique_name:
  assumes "fits m st" "find (\<lambda>r. rv_id r = name) (bs_reservations st) = Some r" "q \<in> set (bs_reservations st)" "rv_id q = name"
  shows "q = r"
proof -
  from assms(3) obtain k where k: "k < length (bs_reservations st)" "bs_reservations st ! k = q" by (auto simp: in_set_conv_nth)
  from assms(2) obtain l where l: "l < length (bs_reservations st)" "bs_reservations st ! l = r" "rv_id r = name"
    by (auto simp: find_Some_iff)
  from assms(1) k l assms(4) have "reservation_name (k + 1) = reservation_name (l + 1)"
    by (metis fits_def validate_state_iff valid_reservation_def)
  then have "k = l" by (simp add: reservation_name_def inj_eq [OF inj_nat_string])
  with k l show ?thesis by simp
qed

lemma open_charge:
  assumes "fits m st" "r \<in> set (bs_reservations st)" "rv_usage r = None" "rv_released r = None"
  shows "charge r = estimate r"
proof -
  from assms(1,2) obtain k where "valid_reservation k r" by (auto simp: fits_def validate_state_iff in_set_conv_nth)
  then have "0 < estimate r" by (simp add: valid_reservation_def positive_integer_def estimate_def)
  with assms(3,4) show ?thesis by (simp add: charge_def estimate_def)
qed

lemma settled_budget_inv:
  assumes fits: "fits m st" "bs_maximum st = m" and r: "find (\<lambda>r. rv_id r = name) (bs_reservations st) = Some r"
    and fresh: "rv_usage r = None" "rv_released r = None"
    and f: "\<And>k. valid_reservation k r \<Longrightarrow> valid_reservation k (f r)" "rv_estimate (f r) = rv_estimate r"
    and inv: "budget_inv m b"
  shows "budget_inv m (fst (commit ok b (set_reservation st name f) x))"
proof (rule commit_inv [OF inv])
  have only: "q = r" if "q \<in> set (bs_reservations st)" "rv_id q = name" for q
    by (rule unique_name [OF fits(1) r that])
  have "r \<in> set (bs_reservations st)" using r by (auto simp: find_Some_iff)
  then have "charge r = estimate r" using open_charge fits(1) fresh by blast
  then have "min (charge (f r)) (estimate (f r)) \<le> min (charge r) (estimate r)" using f(2) by (simp add: estimate_def)
  with only f(1) show "fits m (set_reservation st name f)" by (intro fits_set [OF fits(1)]) blast+
  show "bs_maximum (set_reservation st name f) = m" using fits(2) by (simp add: set_reservation_def)
qed

lemma step_inv: "budget_inv m b \<Longrightarrow> budget_inv m (budget_step c b)"
proof (cases c)
  case (Reserve ok a n)
  assume inv: "budget_inv m b"
  obtain b1 x where l: "load_budget b = (b1, x)" by (metis surj_pair)
  note load = load_inv [OF l inv]
  have m: "bd_maximum b = m" using inv by (simp add: budget_inv_def)
  show ?thesis
  proof (cases x)
    case (Inl e)
    then show ?thesis using Reserve inv load l by (auto simp: reserve_def)
  next
    case (Inr st)
    then show ?thesis using Reserve inv load l fits_reserve [of m st n a] m
      by (auto simp: reserve_def Let_def intro!: commit_inv)
  qed
next
  case (Record ok a u name)
  assume inv: "budget_inv m b"
  show ?thesis
  proof (cases "valid_usage u")
    case True
    have "budget_inv m (fst (with_reservation b a name (\<lambda>b1 st r.
        if rv_released r \<noteq> None then (b1, Inl TokenReservationReleased)
        else case rv_usage r of
          Some old \<Rightarrow> if old \<noteq> u then (b1, Inl TokenUsageAlreadyRecorded) else (b1, Inr ())
        | None \<Rightarrow> commit ok b1 (set_reservation st name (\<lambda>r. r\<lparr>rv_usage := Some u\<rparr>)) ())))"
    proof (rule with_reservation_inv [OF inv], goal_cases)
      case (1 b1 st r)
      have "budget_inv m (fst (commit ok b1 (set_reservation st name (\<lambda>r. r\<lparr>rv_usage := Some u\<rparr>)) ()))"
        if "rv_usage r = None" "rv_released r = None"
        by (rule settled_budget_inv [OF 1(2-4) that _ _ 1(1)]) (use True that in \<open>simp_all add: valid_reservation_def\<close>)
      with 1(1) show ?case by (cases "rv_usage r"; cases "rv_released r") simp_all
    qed
    then show ?thesis using Record True by (simp add: record_actual_def)
  next
    case False
    then show ?thesis using Record inv by (simp add: record_actual_def)
  qed
next
  case (Release ok a name rule)
  assume inv: "budget_inv m b"
  show ?thesis
  proof (cases "blank rule")
    case True
    then show ?thesis using Release inv by (simp add: release_reservation_def)
  next
    case False
    have "budget_inv m (fst (with_reservation b a name (\<lambda>b1 st r.
        if rv_usage r \<noteq> None then (b1, Inl TokenUsageAlreadyRecorded)
        else case rv_released r of
          Some old \<Rightarrow> if old \<noteq> rule then (b1, Inl TokenReservationReleased) else (b1, Inr ())
        | None \<Rightarrow> commit ok b1 (set_reservation st name (\<lambda>r. r\<lparr>rv_released := Some rule\<rparr>)) ())))"
    proof (rule with_reservation_inv [OF inv], goal_cases)
      case (1 b1 st r)
      have "budget_inv m (fst (commit ok b1 (set_reservation st name (\<lambda>r. r\<lparr>rv_released := Some rule\<rparr>)) ()))"
        if "rv_usage r = None" "rv_released r = None"
        by (rule settled_budget_inv [OF 1(2-4) that _ _ 1(1)]) (use False that in \<open>simp_all add: valid_reservation_def\<close>)
      with 1(1) show ?case by (cases "rv_usage r"; cases "rv_released r") simp_all
    qed
    then show ?thesis using Release False by (simp add: release_reservation_def)
  qed
qed

lemma steps_inv: "budget_inv m b \<Longrightarrow> budget_inv m (fold budget_step cs b)"
  by (induction cs arbitrary: b) (simp_all add: step_inv)

section \<open>Properties\<close>

text \<open>
  C13. The budget is never overcommitted: from a backend that fits the limit, any calls in any order,
  with saves that succeed or fail, leave a backend that a later process with the same limit accepts,
  and that charges at most the limit plus what finished calls used beyond their estimates.
\<close>

theorem budget_never_overcommitted:
  assumes "open_budget m backend = Inr b" "\<And>st. backend = Some st \<Longrightarrow> fits m st"
    and "bd_backend (fold budget_step calls b) = Some st"
  shows "fits m st \<and> validate_state st m = Inr () \<and> charged st \<le> int_of_number m + overrun st"
proof -
  have "budget_inv m b"
    using assms(1,2) by (auto simp: open_budget_def budget_inv_def split: if_splits)
  then have "fits m st" using steps_inv assms(3) unfolding budget_inv_def by blast
  then show ?thesis using charged_split [of st] by (simp add: fits_def)
qed

definition small_usage :: usage where
  "small_usage = \<lparr>us_input = Some (num 4), us_output = Some (num 3), us_cache_read = None, us_cache_write = None\<rparr>"

definition small_budget :: budget where
  "small_budget = \<lparr>bd_maximum = num 10, bd_state = None, bd_backend = None\<rparr>"

definition small_calls :: "budget_call list" where
  "small_calls = [Reserve True ''a'' (num 6), Reserve True ''b'' (num 5), Record True ''a'' small_usage ''reservation-1'']"

lemma small_run:
  "map_option charged (bd_backend (fold budget_step small_calls small_budget)) = Some 7"
  by code_simp

theorem budget_never_overcommitted_witness:
  "\<exists>st. bd_backend (fold budget_step small_calls small_budget) = Some st \<and> charged st \<le> 10 + overrun st"
proof -
  obtain st where st: "bd_backend (fold budget_step small_calls small_budget) = Some st"
    using small_run by auto
  have "open_budget (num 10) None = Inr small_budget"
    by (simp add: open_budget_def positive_integer_def small_budget_def max_safe_def)
  from budget_never_overcommitted [OF this _ st] st show ?thesis by simp
qed

end
