(* ===== verification/Batch_Lane.thy ===== *)
theory Batch_Lane
  imports Token_Budget
begin

text \<open>
  The batch lane: \<open>packages/providers/src/batch/lane.ts\<close>. Its durable state is one record per item and per
  submission, and the run's token budget. Every change runs in a serial section (\<open>#serial\<close>), which reads
  records and saves others one after another; a section is a \<open>block\<close> here, which returns its saves in
  order, so that a fault or a crash after any number of them is a prefix of that list. The process also holds the
  callers that wait, the groups being collected, the queue of serial sections and the submissions whose request
  is on the wire; a crash loses all of it. Loads of the backend succeed. The provider is outside: what it answers
  comes with the events, in the words of \<open>packages/providers/src/batch/contract.ts\<close>.
\<close>

section \<open>Records\<close>

datatype attempt_state = Queued | Sent | Succeeded | Errored | CancelledItem | Expired | Missing | NotSubmitted

datatype submission_state = Prepared | Sending | AtProvider | Uncertain | Refused | Ended | Abandoned

record failure =
  fl_code :: string
  fl_message :: string

record attempt =
  at_number :: nat
  at_custom :: string
  at_reservation :: "string option"
  at_estimate :: number
  at_transferred :: bool
  at_submission :: "string option"
  at_state :: attempt_state
  at_cancel :: bool
  at_late :: bool
  at_body :: "string option"
  at_error :: "failure option"
  at_usage :: "usage option"

record batch_item =
  it_id :: string
  it_activity :: string
  it_trace :: string
  it_fingerprint :: string
  it_endpoint :: string
  it_provider :: string
  it_model :: string
  it_attempts :: "attempt list"

datatype resolution_kind = ByProviderJob | ByNotSubmitted | ByAbandon

record resolution =
  re_kind :: resolution_kind
  re_by :: string
  re_at :: int
  re_version :: string
  re_job :: "string option"

record submission =
  su_id :: string
  su_key :: string
  su_endpoint :: string
  su_driver :: string
  su_model :: string
  su_members :: "(string \<times> string) list"
  su_state :: submission_state
  su_job :: "string option"
  su_status :: "string option"
  su_poll_interval :: int
  su_maximum_wait :: int
  su_prepared_at :: int
  su_sent_at :: "int option"
  su_submitted_at :: "int option"
  su_deadline_at :: "int option"
  su_polled_at :: "int option"
  su_ended_at :: "int option"
  su_cancel_at :: "int option"
  su_cancel_reason :: "string option"
  su_lookups :: nat
  su_last_lookup :: "string option"
  su_resolution :: "resolution option"
  su_error :: "failure option"
  su_anomalies :: "string list"

record lane_settings =
  ls_poll :: number
  ls_wait :: number
  ls_items :: number
  ls_window :: number
  ls_attempts :: number

text \<open>\<open>BatchLaneItem\<close>; of the request only what the lane itself reads.\<close>

record lane_request =
  rq_activity :: string
  rq_trace :: string
  rq_fingerprint :: string
  rq_endpoint :: string
  rq_provider :: string
  rq_model :: string
  rq_request_model :: string
  rq_tools :: nat
  rq_continuation :: bool
  rq_maximum_output :: int
  rq_estimate :: number
  rq_settings :: lane_settings

datatype lane_error =
    InvalidField string | ModelMismatch | SingleShotRequired | ContinuationUnsupported | ReserveMissing
  | InvalidSettings | InputChanged | ItemFailed string bool | StateInconsistent string | BudgetSuspended
  | BudgetFailed budget_error | ItemLost string | SubmissionAbsent string | InvalidItemState string
  | ActorRequired | NotUncertain string | VersionStale string | AlreadyWaiting string

datatype saving = PutItem batch_item | PutSubmission submission | PutBudget budget

record durable =
  ln_items :: "(string \<times> batch_item) list"
  ln_submissions :: "(string \<times> submission) list"
  ln_budget :: budget

text \<open>\<open>digest\<close> of the activity, the id of a submission and the version of a record are hashes of the host.\<close>

record lane_env =
  le_item :: "string \<Rightarrow> string"
  le_submission :: "string \<Rightarrow> string \<Rightarrow> string list \<Rightarrow> string"
  le_driver :: "string \<Rightarrow> string"
  le_version :: "submission \<Rightarrow> string"

section \<open>Serial sections\<close>

type_synonym 'a block = "durable \<Rightarrow> saving list \<times> (lane_error + 'a)"

fun apply_saving :: "saving \<Rightarrow> durable \<Rightarrow> durable" where
  "apply_saving (PutItem r) d = d\<lparr>ln_items := AList.update (it_id r) r (ln_items d)\<rparr>"
| "apply_saving (PutSubmission s) d = d\<lparr>ln_submissions := AList.update (su_id s) s (ln_submissions d)\<rparr>"
| "apply_saving (PutBudget b) d = d\<lparr>ln_budget := b\<rparr>"

definition applied :: "saving list \<Rightarrow> durable \<Rightarrow> durable" where
  "applied ws d = fold apply_saving ws d"

definition give :: "'a \<Rightarrow> 'a block" where
  "give x d = ([], Inr x)"

definition fail :: "lane_error \<Rightarrow> 'a block" where
  "fail e d = ([], Inl e)"

definition seq :: "'a block \<Rightarrow> ('a \<Rightarrow> 'b block) \<Rightarrow> 'b block" where
  "seq b f d =
     (case b d of
        (ws, Inl e) \<Rightarrow> (ws, Inl e)
      | (ws, Inr x) \<Rightarrow> (case f x (applied ws d) of (vs, r) \<Rightarrow> (ws @ vs, r)))"

fun each :: "('a \<Rightarrow> unit block) \<Rightarrow> 'a list \<Rightarrow> unit block" where
  "each f [] = give ()"
| "each f (x # xs) = seq (f x) (\<lambda>_. each f xs)"

definition save_item :: "batch_item \<Rightarrow> unit block" where
  "save_item r d = ([PutItem r], Inr ())"

definition save_submission :: "submission \<Rightarrow> submission block" where
  "save_submission s d = ([PutSubmission s], Inr s)"

definition valid_item :: "string \<Rightarrow> batch_item \<Rightarrow> bool" where
  "valid_item i r \<longleftrightarrow> it_id r = i \<and> map at_number (it_attempts r) = map Suc [0..<length (it_attempts r)]"

definition load_item :: "string \<Rightarrow> batch_item option block" where
  "load_item i d =
     ([], case map_of (ln_items d) i of
        None \<Rightarrow> Inr None
      | Some r \<Rightarrow> if valid_item i r then Inr (Some r) else Inl (InvalidItemState i))"

definition need_item :: "string \<Rightarrow> batch_item block" where
  "need_item i = seq (load_item i) (\<lambda>r. case r of None \<Rightarrow> fail (ItemLost i) | Some x \<Rightarrow> give x)"

definition load_submission :: "string \<Rightarrow> submission block" where
  "load_submission s d =
     ([], case map_of (ln_submissions d) s of None \<Rightarrow> Inl (SubmissionAbsent s) | Some x \<Rightarrow> Inr x)"

text \<open>\<open>LaneIds.custom\<close>\<close>

definition custom_id :: "nat \<Rightarrow> string \<Rightarrow> string" where
  "custom_id n i = ''a'' @ nat_string n @ ''-'' @ i"

definition update_attempts :: "string \<Rightarrow> (attempt \<Rightarrow> attempt) \<Rightarrow> batch_item \<Rightarrow> batch_item" where
  "update_attempts c f r = r\<lparr>it_attempts := map (\<lambda>a. if at_custom a = c then f a else a) (it_attempts r)\<rparr>"

definition update_members :: "submission \<Rightarrow> (attempt \<Rightarrow> attempt) \<Rightarrow> unit block" where
  "update_members s f = each (\<lambda>(i, c). seq (need_item i) (\<lambda>r. save_item (update_attempts c f r))) (su_members s)"

definition when_queued :: "(attempt \<Rightarrow> attempt) \<Rightarrow> attempt \<Rightarrow> attempt" where
  "when_queued f a = (if at_state a = Queued then f a else a)"

definition abandon_unsent :: "string \<Rightarrow> submission block" where
  "abandon_unsent s = seq (load_submission s) (\<lambda>x.
     if su_state x \<noteq> Prepared then give x
     else seq (update_members x (when_queued (\<lambda>a. a\<lparr>at_submission := None\<rparr>))) (\<lambda>_.
       save_submission (x\<lparr>su_state := Abandoned,
         su_error := Some \<lparr>fl_code = ''NEVER_SENT'', fl_message = ''Interrupted before the submission request was sent''\<rparr>\<rparr>)))"

section \<open>Planning\<close>

datatype plan = Deliver attempt | Enqueue attempt | Attach attempt string | Reconcile attempt string

definition reserve_tokens :: "lane_request \<Rightarrow> string block" where
  "reserve_tokens rq d =
     (case reserve True (ln_budget d) (rq_activity rq) (rq_estimate rq) of
        (b, Inl e) \<Rightarrow> ([PutBudget b], Inl (BudgetFailed e))
      | (b, Inr None) \<Rightarrow> ([PutBudget b], Inl BudgetSuspended)
      | (b, Inr (Some r)) \<Rightarrow> ([PutBudget b], Inr r))"

definition last_attempt :: "batch_item option \<Rightarrow> attempt option" where
  "last_attempt r = (case r of None \<Rightarrow> None | Some x \<Rightarrow> if it_attempts x = [] then None else Some (last (it_attempts x)))"

definition attempts_of :: "batch_item option \<Rightarrow> attempt list" where
  "attempts_of r = (case r of None \<Rightarrow> [] | Some x \<Rightarrow> it_attempts x)"

text \<open>The reservation of the next attempt: moved from one that was never sent, or a new one.\<close>

definition next_reservation :: "lane_request \<Rightarrow> attempt list \<Rightarrow> (string option \<times> attempt list) block" where
  "next_reservation rq prior =
     (if prior \<noteq> [] \<and> at_state (last prior) = NotSubmitted \<and> \<not> at_transferred (last prior) \<and> at_reservation (last prior) \<noteq> None
      then give (at_reservation (last prior), butlast prior @ [(last prior)\<lparr>at_transferred := True\<rparr>])
      else seq (reserve_tokens rq) (\<lambda>x. give (Some x, prior)))"

definition new_attempt :: "lane_request \<Rightarrow> string \<Rightarrow> attempt list \<Rightarrow> plan block" where
  "new_attempt rq i prior = seq (next_reservation rq prior) (\<lambda>(res, kept).
     let n = length prior + 1;
         a = \<lparr>at_number = n, at_custom = custom_id n i, at_reservation = res, at_estimate = rq_estimate rq, at_transferred = False,
              at_submission = None, at_state = Queued, at_cancel = False, at_late = False, at_body = None, at_error = None, at_usage = None\<rparr>;
         r = \<lparr>it_id = i, it_activity = rq_activity rq, it_trace = rq_trace rq, it_fingerprint = rq_fingerprint rq,
              it_endpoint = rq_endpoint rq, it_provider = rq_provider rq, it_model = rq_model rq, it_attempts = kept @ [a]\<rparr>
     in seq (save_item r) (\<lambda>_. give (Enqueue a)))"

definition plan_queued :: "string \<Rightarrow> attempt \<Rightarrow> plan block" where
  "plan_queued i a =
     (case at_submission a of
        None \<Rightarrow> give (Enqueue a)
      | Some s \<Rightarrow> seq (load_submission s) (\<lambda>x.
          if su_state x = Prepared then
            seq (abandon_unsent s) (\<lambda>_. seq (load_item i) (\<lambda>r.
              case last_attempt r of None \<Rightarrow> fail (ItemLost i) | Some b \<Rightarrow> give (Enqueue b)))
          else if su_state x \<in> {Sending, Uncertain} then give (Reconcile a s)
          else if su_state x = AtProvider then give (Attach a s)
          else fail (StateInconsistent s)))"

definition input_changed :: "lane_request \<Rightarrow> batch_item option \<Rightarrow> bool" where
  "input_changed rq r \<longleftrightarrow> (case r of None \<Rightarrow> False
     | Some x \<Rightarrow> it_fingerprint x \<noteq> rq_fingerprint rq \<or> it_endpoint x \<noteq> rq_endpoint rq \<or> it_model x \<noteq> rq_model rq)"

definition error_code :: "attempt \<Rightarrow> string" where
  "error_code a = (case at_error a of None \<Rightarrow> ''ERRORED'' | Some f \<Rightarrow> fl_code f)"

definition plan_item :: "lane_env \<Rightarrow> lane_request \<Rightarrow> plan block" where
  "plan_item env rq =
     (let i = le_item env (rq_activity rq) in
      seq (load_item i) (\<lambda>r.
        if input_changed rq r then fail InputChanged
        else case last_attempt r of
          None \<Rightarrow> new_attempt rq i (attempts_of r)
        | Some a \<Rightarrow>
            if at_state a = Succeeded then give (Deliver a)
            else if at_state a = Errored then fail (ItemFailed (error_code a) False)
            else if at_state a = Missing then fail (ItemFailed ''BATCH_RESULT_MISSING'' False)
            else if at_state a = Sent \<and> at_submission a \<noteq> None then give (Attach a (the (at_submission a)))
            else if at_state a = Queued then plan_queued i a
            else if int_of_number (ls_attempts (rq_settings rq)) \<le> int (length (attempts_of r))
            then fail (ItemFailed ''BATCH_ATTEMPTS_EXHAUSTED'' False)
            else new_attempt rq i (attempts_of r)))"

section \<open>Submission\<close>

definition flush_block :: "int \<Rightarrow> submission \<Rightarrow> submission block" where
  "flush_block now x =
     seq (save_submission x) (\<lambda>_. seq (update_members x (\<lambda>a. a\<lparr>at_submission := Some (su_id x)\<rparr>)) (\<lambda>_.
       save_submission (x\<lparr>su_state := Sending, su_sent_at := Some now\<rparr>)))"

definition mark_submitted :: "int \<Rightarrow> submission \<Rightarrow> string \<Rightarrow> resolution option \<Rightarrow> submission block" where
  "mark_submitted now x job res =
     seq (update_members x (when_queued (\<lambda>a. a\<lparr>at_state := Sent\<rparr>))) (\<lambda>_.
       save_submission (x\<lparr>su_state := AtProvider, su_job := Some job, su_submitted_at := Some now,
         su_deadline_at := Some (now + su_maximum_wait x), su_resolution := (if res = None then su_resolution x else res)\<rparr>))"

text \<open>The provider certainly made no work of the request.\<close>

definition refused_block :: "string \<Rightarrow> failure \<Rightarrow> submission block" where
  "refused_block s f = seq (load_submission s) (\<lambda>x.
     seq (update_members x (\<lambda>a. a\<lparr>at_state := NotSubmitted, at_error := Some f\<rparr>)) (\<lambda>_.
       save_submission (x\<lparr>su_state := Refused, su_error := Some f\<rparr>)))"

definition uncertain_block :: "string \<Rightarrow> failure \<Rightarrow> submission block" where
  "uncertain_block s f = seq (load_submission s) (\<lambda>x. save_submission (x\<lparr>su_state := Uncertain, su_error := Some f\<rparr>))"

definition accepted_block :: "int \<Rightarrow> string \<Rightarrow> string \<Rightarrow> submission block" where
  "accepted_block now s job = seq (load_submission s) (\<lambda>x. mark_submitted now x job None)"

section \<open>Reconciliation\<close>

datatype lookup = Found string | NotFound | Inconclusive string | Unsupported string

fun lookup_text :: "lookup \<Rightarrow> string" where
  "lookup_text (Found job) = ''found:'' @ job"
| "lookup_text NotFound = ''not_found''"
| "lookup_text (Inconclusive r) = ''inconclusive:'' @ r"
| "lookup_text (Unsupported r) = ''unsupported:'' @ r"

definition reconciled_block :: "int \<Rightarrow> string \<Rightarrow> lookup \<Rightarrow> submission block" where
  "reconciled_block now s found = seq (load_submission s) (\<lambda>x.
     if su_state x \<notin> {Sending, Uncertain} then give x
     else let y = x\<lparr>su_lookups := su_lookups x + 1, su_last_lookup := Some (lookup_text found)\<rparr> in
       case found of
         Found job \<Rightarrow> mark_submitted now y job None
       | _ \<Rightarrow> save_submission (y\<lparr>su_state := Uncertain\<rparr>))"

section \<open>Results\<close>

datatype item_outcome = ItemSucceeded | ItemErrored | ItemCancelled | ItemExpired

text \<open>\<open>BatchRawItemResult\<close>, with the usage the driver reads from the body.\<close>

record item_result =
  ir_custom :: string
  ir_outcome :: item_outcome
  ir_body :: string
  ir_usage :: "usage option"
  ir_error :: "failure option"

fun outcome_state :: "item_outcome \<Rightarrow> attempt_state" where
  "outcome_state ItemSucceeded = Succeeded"
| "outcome_state ItemErrored = Errored"
| "outcome_state ItemCancelled = CancelledItem"
| "outcome_state ItemExpired = Expired"

text \<open>The results of the members, the first of each, and what matched no member or came twice.\<close>

definition sort_results :: "string list \<Rightarrow> item_result list \<Rightarrow> (string \<times> item_result) list \<times> string list" where
  "sort_results members rs = fold (\<lambda>r (m, anomalies).
     if ir_custom r \<notin> set members then (m, anomalies @ [''unmatched:'' @ ir_custom r])
     else if map_of m (ir_custom r) \<noteq> None then (m, anomalies @ [''duplicate:'' @ ir_custom r])
     else (AList.update (ir_custom r) r m, anomalies)) rs ([], [])"

definition record_usage :: "batch_item \<Rightarrow> attempt \<Rightarrow> usage option \<Rightarrow> unit block" where
  "record_usage r a u d =
     (case (u, at_reservation a) of
        (Some v, Some res) \<Rightarrow>
          (case record_actual True (ln_budget d) (it_activity r) v res of
             (b, Inl e) \<Rightarrow> ([PutBudget b], Inl (BudgetFailed e))
           | (b, Inr _) \<Rightarrow> ([PutBudget b], Inr ()))
      | _ \<Rightarrow> ([], Inr ()))"

definition collected :: "failure option \<Rightarrow> item_result option \<Rightarrow> attempt \<Rightarrow> attempt" where
  "collected job_failure res a =
     (case res of
        Some x \<Rightarrow>
          a\<lparr>at_state := outcome_state (ir_outcome x), at_body := (if ir_outcome x = ItemSucceeded then Some (ir_body x) else None),
            at_error := ir_error x, at_usage := (if ir_outcome x = ItemSucceeded then ir_usage x else None),
            at_late := (at_cancel a \<and> ir_outcome x = ItemSucceeded)\<rparr>
      | None \<Rightarrow>
          a\<lparr>at_state := (if job_failure = None then Missing else Errored), at_body := None,
            at_error := Some (case job_failure of Some f \<Rightarrow> f
              | None \<Rightarrow> \<lparr>fl_code = ''BATCH_RESULT_MISSING'', fl_message = ''No result line for this item''\<rparr>),
            at_usage := None, at_late := False\<rparr>)"

fun collect_attempts :: "batch_item \<Rightarrow> string \<Rightarrow> failure option \<Rightarrow> item_result option \<Rightarrow> attempt list \<Rightarrow> attempt list block" where
  "collect_attempts r c jf res [] = give []"
| "collect_attempts r c jf res (a # as) =
     (if at_custom a \<noteq> c \<or> at_state a \<notin> {Queued, Sent}
      then seq (collect_attempts r c jf res as) (\<lambda>xs. give (a # xs))
      else seq (record_usage r a (case res of Some x \<Rightarrow> if ir_outcome x = ItemSucceeded then ir_usage x else None | None \<Rightarrow> None))
        (\<lambda>_. seq (collect_attempts r c jf res as) (\<lambda>xs. give (collected jf res a # xs))))"

definition collect_member :: "failure option \<Rightarrow> (string \<times> item_result) list \<Rightarrow> string \<times> string \<Rightarrow> unit block" where
  "collect_member jf m ic = seq (need_item (fst ic)) (\<lambda>r.
     seq (collect_attempts r (snd ic) jf (map_of m (snd ic)) (it_attempts r)) (\<lambda>xs. save_item (r\<lparr>it_attempts := xs\<rparr>)))"

definition collect_block :: "int \<Rightarrow> string \<Rightarrow> string \<Rightarrow> failure option \<Rightarrow> item_result list \<Rightarrow> submission block" where
  "collect_block now s status jf rs = seq (load_submission s) (\<lambda>x.
     if su_state x = Ended then give x
     else let (m, anomalies) = sort_results (map snd (su_members x)) rs in
       seq (each (collect_member jf m) (su_members x)) (\<lambda>_.
         save_submission (x\<lparr>su_state := Ended, su_status := Some status, su_polled_at := Some now, su_ended_at := Some now,
           su_anomalies := su_anomalies x @ anomalies\<rparr>)))"

definition polled_block :: "int \<Rightarrow> string \<Rightarrow> string \<Rightarrow> submission block" where
  "polled_block now s status = seq (load_submission s) (\<lambda>x.
     save_submission (x\<lparr>su_status := Some status, su_polled_at := Some now\<rparr>))"

text \<open>What a caller gets of the last attempt: the parsed response, or a code and whether it may retry.\<close>

datatype parse_error = OutputLimit | Malformed

definition result_of :: "(string \<Rightarrow> parse_error + 'r) \<Rightarrow> attempt \<Rightarrow> string \<times> bool + 'r" where
  "result_of parse a =
     (if at_state a \<noteq> Succeeded then
        Inl (if at_state a = CancelledItem then ''BATCH_ITEM_CANCELLED''
             else if at_state a = Expired then ''BATCH_ITEM_EXPIRED''
             else if at_state a = Missing then ''BATCH_RESULT_MISSING''
             else (case at_error a of Some f \<Rightarrow> fl_code f | None \<Rightarrow> ''BATCH_ITEM_ERRORED''),
             at_state a \<in> {CancelledItem, Expired})
      else case parse (case at_body a of Some b \<Rightarrow> b | None \<Rightarrow> []) of
        Inl OutputLimit \<Rightarrow> Inl (''OUTPUT_LIMIT'', False)
      | Inl Malformed \<Rightarrow> Inl (''MALFORMED_RESPONSE'', False)
      | Inr x \<Rightarrow> Inr x)"

section \<open>Cancellation\<close>

text \<open>\<open>unsent\<close>: the item is still being collected into a group.\<close>

definition cancel_block :: "string \<Rightarrow> string \<Rightarrow> bool \<Rightarrow> unit block" where
  "cancel_block i c unsent = seq (load_item i) (\<lambda>r.
     case r of None \<Rightarrow> give ()
     | Some x \<Rightarrow> save_item (update_attempts c (\<lambda>a.
         if unsent \<and> at_submission a = None then a\<lparr>at_cancel := True, at_state := NotSubmitted\<rparr> else a\<lparr>at_cancel := True\<rparr>) x))"

text \<open>\<open>#cancelIfAbandoned\<close>: every unfinished member asked to cancel.\<close>

definition all_cancelled :: "durable \<Rightarrow> submission \<Rightarrow> bool" where
  "all_cancelled d x \<longleftrightarrow> su_state x = AtProvider \<and> su_cancel_at x = None \<and> list_all (\<lambda>(i, c).
     (case map_of (ln_items d) i of None \<Rightarrow> True
      | Some r \<Rightarrow> (case find (\<lambda>a. at_custom a = c) (it_attempts r) of None \<Rightarrow> True
          | Some a \<Rightarrow> at_cancel a \<or> at_state a \<notin> {Queued, Sent}))) (su_members x)"

definition request_cancel_block :: "int \<Rightarrow> string \<Rightarrow> string \<Rightarrow> submission option block" where
  "request_cancel_block now s reason = seq (load_submission s) (\<lambda>x.
     if su_cancel_at x \<noteq> None \<or> su_state x \<noteq> AtProvider then give None
     else seq (save_submission (x\<lparr>su_cancel_at := Some now, su_cancel_reason := Some reason\<rparr>)) (\<lambda>y. give (Some y)))"

definition cancel_failed_block :: "string \<Rightarrow> string \<Rightarrow> submission block" where
  "cancel_failed_block s msg = seq (load_submission s) (\<lambda>x.
     save_submission (x\<lparr>su_error := Some \<lparr>fl_code = ''BATCH_CANCEL_FAILED'', fl_message = msg\<rparr>\<rparr>))"

section \<open>Operator decisions\<close>

datatype decision = BindJob string | DeclareNotSubmitted | AbandonItems

definition undecided :: "lane_env \<Rightarrow> string \<Rightarrow> string \<Rightarrow> submission block" where
  "undecided env s version = seq (load_submission s) (\<lambda>x.
     if su_state x \<notin> {Sending, Uncertain} then fail (NotUncertain s)
     else if le_version env x \<noteq> version then fail (VersionStale s) else give x)"

text \<open>The pattern \<open>/^[A-Za-z0-9][A-Za-z0-9._:/-]{0,255}$/u\<close>.\<close>

definition alphanumeric :: "char \<Rightarrow> bool" where
  "alphanumeric c \<longleftrightarrow> (let n = of_char c :: nat in 48 \<le> n \<and> n \<le> 57 \<or> 65 \<le> n \<and> n \<le> 90 \<or> 97 \<le> n \<and> n \<le> 122)"

definition valid_job :: "string \<Rightarrow> bool" where
  "valid_job j \<longleftrightarrow> j \<noteq> [] \<and> length j \<le> 256 \<and> alphanumeric (hd j)
     \<and> list_all (\<lambda>c. alphanumeric c \<or> c \<in> set ''._:/-'') (tl j)"

text \<open>The checks before the provider is asked for the job's status.\<close>

datatype resolve_refusal = BadJobId | JobBound string

definition job_check :: "durable \<Rightarrow> string \<Rightarrow> decision \<Rightarrow> resolve_refusal + unit" where
  "job_check d s dec =
     (case dec of
        BindJob j \<Rightarrow>
          if \<not> valid_job j then Inl BadJobId
          else (case find (\<lambda>(k, x). k \<noteq> s \<and> su_job x = Some j) (ln_submissions d) of
            Some (k, x) \<Rightarrow> Inl (JobBound k) | None \<Rightarrow> Inr ())
      | _ \<Rightarrow> Inr ())"

definition resolve_block :: "lane_env \<Rightarrow> int \<Rightarrow> string \<Rightarrow> string \<Rightarrow> decision \<Rightarrow> string \<Rightarrow> string option \<Rightarrow> submission block" where
  "resolve_block env now s version dec author status = seq (undecided env s version) (\<lambda>x.
     let done1 = (\<lambda>kind job. Some \<lparr>re_kind = kind, re_by = author, re_at = now, re_version = version, re_job = job\<rparr>) in
     case dec of
       BindJob j \<Rightarrow> mark_submitted now (x\<lparr>su_status := status\<rparr>) j (done1 ByProviderJob (Some j))
     | DeclareNotSubmitted \<Rightarrow>
         seq (update_members x (when_queued (\<lambda>a. a\<lparr>at_state := NotSubmitted\<rparr>))) (\<lambda>_.
           save_submission (x\<lparr>su_state := Abandoned, su_resolution := done1 ByNotSubmitted None\<rparr>))
     | AbandonItems \<Rightarrow>
         seq (update_members x (when_queued (\<lambda>a. a\<lparr>at_state := Errored,
             at_error := Some \<lparr>fl_code = ''BATCH_ABANDONED_BY_OPERATOR'', fl_message = ''Uncertain batch submission '' @ s @ '' abandoned by '' @ author
               @ ''; spend is unknown and the item is not resubmitted''\<rparr>,
             at_usage := None\<rparr>))) (\<lambda>_.
           save_submission (x\<lparr>su_state := Abandoned, su_resolution := done1 ByAbandon None\<rparr>)))"

section \<open>The process\<close>

datatype lane_op =
    DoPlan lane_request
  | DoCancel string string
  | DoFlush submission
  | DoAccepted string string
  | DoRefused string failure
  | DoUncertain string failure
  | DoReconciled string lookup
  | DoPolled string string
  | DoCollect string string "failure option" "item_result list"
  | DoAbandon string
  | DoResolve string string decision string "string option"
  | DoRequestCancel string string
  | DoCancelFailed string string

record collecting =
  cg_endpoint :: string
  cg_model :: string
  cg_settings :: lane_settings
  cg_customs :: "string list"

text \<open>\<open>lp_waiters\<close>: the callers that wait, by custom id, with the item; \<open>lp_flights\<close>: requests on the wire.\<close>

record lane_process =
  lp_waiters :: "(string \<times> string) list"
  lp_groups :: "collecting list"
  lp_queue :: "lane_op list"
  lp_flights :: "string list"

text \<open>\<open>lx_sent\<close> records, for the theorems, the custom ids of every submission whose request may have left.\<close>

record lane =
  lx_durable :: durable
  lx_process :: lane_process
  lx_sent :: "string list list"

definition no_process :: lane_process where
  "no_process = \<lparr>lp_waiters = [], lp_groups = [], lp_queue = [], lp_flights = []\<rparr>"

definition setting_ok :: "number \<Rightarrow> bool" where
  "setting_ok v \<longleftrightarrow> safe_integer v \<and> 1 \<le> int_of_number v"

definition validate_item :: "lane_request \<Rightarrow> lane_error + unit" where
  "validate_item rq =
     result_bind (require (\<not> blank (rq_activity rq)) (InvalidField ''ACTIVITY'')) (\<lambda>_.
     result_bind (require (\<not> blank (rq_trace rq)) (InvalidField ''TRACE'')) (\<lambda>_.
     result_bind (require (\<not> blank (rq_endpoint rq)) (InvalidField ''ENDPOINT'')) (\<lambda>_.
     result_bind (require (\<not> blank (rq_model rq)) (InvalidField ''MODEL'')) (\<lambda>_.
     result_bind (require (\<not> blank (rq_fingerprint rq)) (InvalidField ''FINGERPRINT'')) (\<lambda>_.
     result_bind (require (rq_request_model rq = rq_model rq) ModelMismatch) (\<lambda>_.
     result_bind (require (rq_tools rq = 0) SingleShotRequired) (\<lambda>_.
     result_bind (require (\<not> rq_continuation rq) ContinuationUnsupported) (\<lambda>_.
     result_bind (require (safe_integer (rq_estimate rq) \<and> rq_maximum_output rq \<le> int_of_number (rq_estimate rq)) ReserveMissing) (\<lambda>_.
       require (setting_ok (ls_poll (rq_settings rq)) \<and> setting_ok (ls_wait (rq_settings rq)) \<and> setting_ok (ls_items (rq_settings rq))
         \<and> setting_ok (ls_attempts (rq_settings rq))
         \<and> safe_integer (ls_window (rq_settings rq)) \<and> 0 \<le> int_of_number (ls_window (rq_settings rq))) InvalidSettings)))))))))"

text \<open>\<open>#flush\<close>, up to its serial section: the group is closed, and its waiting members are prepared.\<close>

definition prepared :: "lane_env \<Rightarrow> int \<Rightarrow> collecting \<Rightarrow> (string \<times> string) list \<Rightarrow> submission" where
  "prepared env now g members =
     (let s = le_submission env (cg_endpoint g) (cg_model g) (sort_strings (map snd members)) in
      \<lparr>su_id = s, su_key = ''arbitra-'' @ s, su_endpoint = cg_endpoint g, su_driver = le_driver env (cg_endpoint g), su_model = cg_model g,
       su_members = members, su_state = Prepared, su_job = None, su_status = None,
       su_poll_interval = int_of_number (ls_poll (cg_settings g)), su_maximum_wait = int_of_number (ls_wait (cg_settings g)),
       su_prepared_at = now, su_sent_at = None, su_submitted_at = None, su_deadline_at = None, su_polled_at = None, su_ended_at = None,
       su_cancel_at = None, su_cancel_reason = None, su_lookups = 0, su_last_lookup = None, su_resolution = None, su_error = None,
       su_anomalies = []\<rparr>)"

definition waiting_members :: "lane_process \<Rightarrow> string list \<Rightarrow> (string \<times> string) list" where
  "waiting_members p cs = List.map_filter (\<lambda>c. map_option (\<lambda>i. (i, c)) (map_of (lp_waiters p) c)) cs"

definition close_group :: "lane_env \<Rightarrow> int \<Rightarrow> collecting \<Rightarrow> lane_process \<Rightarrow> lane_process" where
  "close_group env now g p =
     (let rest = p\<lparr>lp_groups := filter (\<lambda>h. \<not> (cg_endpoint h = cg_endpoint g \<and> cg_model h = cg_model g)) (lp_groups p)\<rparr>;
          members = waiting_members p (cg_customs g) in
      if members = [] then rest else rest\<lparr>lp_queue := lp_queue rest @ [DoFlush (prepared env now g members)]\<rparr>)"

text \<open>\<open>#enqueue\<close>: the item joins the group of its endpoint and model, which is flushed when it is full.\<close>

definition in_group :: "lane_request \<Rightarrow> collecting \<Rightarrow> bool" where
  "in_group rq g \<longleftrightarrow> cg_endpoint g = rq_endpoint rq \<and> cg_model g = rq_model rq"

definition enqueue :: "lane_env \<Rightarrow> int \<Rightarrow> lane_request \<Rightarrow> string \<Rightarrow> lane_process \<Rightarrow> lane_process" where
  "enqueue env now rq c p =
     (let g = (case find (in_group rq) (lp_groups p) of Some h \<Rightarrow> h
            | None \<Rightarrow> \<lparr>cg_endpoint = rq_endpoint rq, cg_model = rq_model rq, cg_settings = rq_settings rq, cg_customs = []\<rparr>);
          h = g\<lparr>cg_customs := cg_customs g @ [c]\<rparr>;
          q = p\<lparr>lp_groups := filter (\<lambda>k. \<not> in_group rq k) (lp_groups p) @ [h]\<rparr> in
      if int_of_number (ls_items (cg_settings h)) \<le> int (length (cg_customs h)) then close_group env now h q else q)"

text \<open>\<open>execute\<close>, once its plan is made.\<close>

definition planned :: "lane_env \<Rightarrow> int \<Rightarrow> lane_request \<Rightarrow> plan \<Rightarrow> lane_process \<Rightarrow> lane_process" where
  "planned env now rq pl p =
     (let wait = (\<lambda>a. if map_of (lp_waiters p) (at_custom a) \<noteq> None then None
            else Some (p\<lparr>lp_waiters := AList.update (at_custom a) (le_item env (rq_activity rq)) (lp_waiters p)\<rparr>)) in
      case pl of
        Deliver a \<Rightarrow> p
      | Enqueue a \<Rightarrow> (case wait a of None \<Rightarrow> p | Some q \<Rightarrow> enqueue env now rq (at_custom a) q)
      | Attach a s \<Rightarrow> (case wait a of None \<Rightarrow> p | Some q \<Rightarrow> q)
      | Reconcile a s \<Rightarrow> (case wait a of None \<Rightarrow> p | Some q \<Rightarrow> q))"

definition drop_waiters :: "string list \<Rightarrow> lane_process \<Rightarrow> lane_process" where
  "drop_waiters cs p = p\<lparr>lp_waiters := filter (\<lambda>w. fst w \<notin> set cs) (lp_waiters p)\<rparr>"

definition still_collected :: "lane_process \<Rightarrow> string \<Rightarrow> bool" where
  "still_collected p c \<longleftrightarrow> list_ex (\<lambda>g. c \<in> set (cg_customs g)) (lp_groups p)"

definition uncollect :: "string \<Rightarrow> lane_process \<Rightarrow> lane_process" where
  "uncollect c p = p\<lparr>lp_groups := map (\<lambda>g. g\<lparr>cg_customs := remove1 c (cg_customs g)\<rparr>) (lp_groups p)\<rparr>"

text \<open>A serial section: its saves, and what the process does when it resolves or rejects.\<close>

definition unit_of :: "'a block \<Rightarrow> unit block" where
  "unit_of b = seq b (\<lambda>_. give ())"

definition run_op :: "lane_env \<Rightarrow> int \<Rightarrow> lane_op \<Rightarrow> lane_process \<Rightarrow> durable \<Rightarrow> saving list \<times> (lane_error + lane_process \<times> string list list)" where
  "run_op env now o1 p d =
     (let plain = (\<lambda>b. case unit_of b d of (ws, Inl e) \<Rightarrow> (ws, Inl e) | (ws, Inr _) \<Rightarrow> (ws, Inr (p, []))) in
      case o1 of
        DoPlan rq \<Rightarrow> (case plan_item env rq d of (ws, Inl e) \<Rightarrow> (ws, Inl e) | (ws, Inr pl) \<Rightarrow> (ws, Inr (planned env now rq pl p, [])))
      | DoCancel i c \<Rightarrow> (case cancel_block i c (still_collected p c) d of
          (ws, Inl e) \<Rightarrow> (ws, Inl e) | (ws, Inr _) \<Rightarrow> (ws, Inr (uncollect c p, [])))
      | DoFlush x \<Rightarrow> (case flush_block now x d of
          (ws, Inl e) \<Rightarrow> (ws, Inl e)
        | (ws, Inr _) \<Rightarrow> (ws, Inr (p\<lparr>lp_flights := lp_flights p @ [su_id x]\<rparr>, [map snd (su_members x)])))
      | DoAccepted s job \<Rightarrow> plain (accepted_block now s job)
      | DoRefused s f \<Rightarrow> plain (refused_block s f)
      | DoUncertain s f \<Rightarrow> plain (uncertain_block s f)
      | DoReconciled s l \<Rightarrow> plain (reconciled_block now s l)
      | DoPolled s status \<Rightarrow> plain (polled_block now s status)
      | DoCollect s status jf rs \<Rightarrow> plain (collect_block now s status jf rs)
      | DoAbandon s \<Rightarrow> plain (abandon_unsent s)
      | DoResolve s v dec who status \<Rightarrow> plain (resolve_block env now s v dec who status)
      | DoRequestCancel s reason \<Rightarrow> (case request_cancel_block now s reason d of (ws, Inl e) \<Rightarrow> (ws, Inl e) | (ws, Inr _) \<Rightarrow> (ws, Inr (p, [])))
      | DoCancelFailed s msg \<Rightarrow> plain (cancel_failed_block s msg))"

text \<open>
  A section that fails: a flush rejects its members, a cancellation has taken the item out of its group, and
  the caller of a plan does not wait yet.
\<close>

definition failed_op :: "lane_op \<Rightarrow> lane_process \<Rightarrow> lane_process" where
  "failed_op o1 p =
     (case o1 of DoFlush x \<Rightarrow> drop_waiters (map snd (su_members x)) p | DoCancel i c \<Rightarrow> uncollect c p | _ \<Rightarrow> p)"

section \<open>Events\<close>

text \<open>A waiter is resolved or rejected as a member of a stored submission.\<close>

definition in_submission :: "durable \<Rightarrow> string \<Rightarrow> bool" where
  "in_submission d c \<longleftrightarrow> list_ex (\<lambda>s. case map_of (ln_submissions d) s of None \<Rightarrow> False
     | Some x \<Rightarrow> c \<in> set (map snd (su_members x))) (map fst (ln_submissions d))"

datatype lane_event =
    Execute lane_request
  | AbortItem string
  | WindowCloses int string string
  | Acknowledge string "failure + string" bool
  | Observe lane_op
  | Answer string
  | RunNext int
  | FaultNext int nat
  | CrashNow int nat

text \<open>What the provider, the operator and the pollers may queue at any time.\<close>

fun observation :: "lane_op \<Rightarrow> bool" where
  "observation (DoReconciled _ _) = True"
| "observation (DoPolled _ _) = True"
| "observation (DoCollect _ _ _ _) = True"
| "observation (DoAbandon _) = True"
| "observation (DoResolve _ _ _ _ _) = True"
| "observation (DoRequestCancel _ _) = True"
| "observation (DoCancelFailed _ _) = True"
| "observation _ = False"

definition push :: "lane_op \<Rightarrow> lane \<Rightarrow> lane" where
  "push o1 st = st\<lparr>lx_process := (lx_process st)\<lparr>lp_queue := lp_queue (lx_process st) @ [o1]\<rparr>\<rparr>"

definition acknowledged :: "string \<Rightarrow> failure + string \<Rightarrow> bool \<Rightarrow> lane_op" where
  "acknowledged s answer accepted_no =
     (case answer of Inr job \<Rightarrow> DoAccepted s job | Inl f \<Rightarrow> if accepted_no then DoRefused s f else DoUncertain s f)"

text \<open>\<open>lane_step\<close> is \<open>None\<close> where the event cannot happen.\<close>

definition lane_step :: "lane_env \<Rightarrow> lane_event \<Rightarrow> lane \<Rightarrow> lane option" where
  "lane_step env ev st =
     (let p = lx_process st in
      case ev of
        Execute rq \<Rightarrow> (case validate_item rq of Inl e \<Rightarrow> Some st | Inr _ \<Rightarrow> Some (push (DoPlan rq) st))
      | AbortItem c \<Rightarrow>
          (case map_of (lp_waiters p) c of None \<Rightarrow> Some st
           | Some i \<Rightarrow> Some (push (DoCancel i c) (st\<lparr>lx_process := drop_waiters [c] p\<rparr>)))
      | WindowCloses now e m \<Rightarrow>
          (case find (\<lambda>g. cg_endpoint g = e \<and> cg_model g = m) (lp_groups p) of None \<Rightarrow> None
           | Some g \<Rightarrow> Some (st\<lparr>lx_process := close_group env now g p\<rparr>))
      | Acknowledge s answer accepted_no \<Rightarrow>
          (if s \<in> set (lp_flights p)
           then Some (push (acknowledged s answer accepted_no) (st\<lparr>lx_process := p\<lparr>lp_flights := remove1 s (lp_flights p)\<rparr>\<rparr>))
           else None)
      | Observe o1 \<Rightarrow> if observation o1 then Some (push o1 st) else None
      | Answer c \<Rightarrow> if in_submission (lx_durable st) c then Some (st\<lparr>lx_process := drop_waiters [c] p\<rparr>) else None
      | RunNext now \<Rightarrow>
          (case lp_queue p of [] \<Rightarrow> None
           | o1 # rest \<Rightarrow> let q = p\<lparr>lp_queue := rest\<rparr> in
               (case run_op env now o1 q (lx_durable st) of
                  (ws, Inl e) \<Rightarrow> Some (st\<lparr>lx_durable := applied ws (lx_durable st), lx_process := failed_op o1 q\<rparr>)
                | (ws, Inr (q', sent)) \<Rightarrow>
                    Some (st\<lparr>lx_durable := applied ws (lx_durable st), lx_process := q', lx_sent := lx_sent st @ sent\<rparr>)))
      | FaultNext now k \<Rightarrow>
          (case lp_queue p of [] \<Rightarrow> None
           | o1 # rest \<Rightarrow> let q = p\<lparr>lp_queue := rest\<rparr>; ws = fst (run_op env now o1 q (lx_durable st)) in
               if k < length ws then Some (st\<lparr>lx_durable := applied (take k ws) (lx_durable st), lx_process := failed_op o1 q\<rparr>) else None)
      | CrashNow now k \<Rightarrow>
          (let ws = (case lp_queue p of [] \<Rightarrow> [] | o1 # rest \<Rightarrow> fst (run_op env now o1 (p\<lparr>lp_queue := rest\<rparr>) (lx_durable st))) in
             Some (st\<lparr>lx_durable := applied (take k ws) (lx_durable st), lx_process := no_process\<rparr>)))"

definition lane_run :: "lane_env \<Rightarrow> lane_event list \<Rightarrow> lane \<Rightarrow> lane option" where
  "lane_run env evs st = fold (\<lambda>ev s. case s of None \<Rightarrow> None | Some x \<Rightarrow> lane_step env ev x) evs (Some st)"

text \<open>A lane that starts on an empty backend with a budget.\<close>

definition new_lane :: "budget \<Rightarrow> lane" where
  "new_lane b = \<lparr>lx_durable = \<lparr>ln_items = [], ln_submissions = [], ln_budget = b\<rparr>, lx_process = no_process, lx_sent = []\<rparr>"

end
