(* ===== verification/Batch_Lane_Safety.thy ===== *)
theory Batch_Lane_Safety
  imports Batch_Lane
begin

text \<open>
  No batch item is sent twice under the same attempt. The durable part of the invariant is kept by every single
  save of every serial section, so also by a section that stops half way; it is proved with a small logic of
  pre- and postconditions over sections. The flush is the one section that must not stop half way.
\<close>

section \<open>The durable invariant\<close>

definition item_at :: "durable \<Rightarrow> string \<Rightarrow> batch_item option" where
  "item_at d i = map_of (ln_items d) i"

definition submission_at :: "durable \<Rightarrow> string \<Rightarrow> submission option" where
  "submission_at d s = map_of (ln_submissions d) s"

definition pending :: "attempt \<Rightarrow> bool" where
  "pending a \<longleftrightarrow> at_state a \<in> {Queued, Sent}"

text \<open>The provider, or the operator, said that the attempt was not processed.\<close>

definition unprocessed :: "attempt \<Rightarrow> bool" where
  "unprocessed a \<longleftrightarrow> at_state a \<in> {CancelledItem, Expired, NotSubmitted}"

definition stored_customs :: "durable \<Rightarrow> string set" where
  "stored_customs d = {c. \<exists>s x. submission_at d s = Some x \<and> c \<in> set (map snd (su_members x))}"

lemma stored_customsI: "submission_at d s = Some x \<Longrightarrow> c \<in> set (map snd (su_members x)) \<Longrightarrow> c \<in> stored_customs d"
  unfolding stored_customs_def by blast

lemma stored_customsE:
  assumes "c \<in> stored_customs d"
  obtains s x where "submission_at d s = Some x" "c \<in> set (map snd (su_members x))"
  using assms unfolding stored_customs_def by blast

text \<open>The custom ids that may not be sent any more: those of a stored submission, and those in \<open>L\<close>, sent before.\<close>

definition spent :: "string set \<Rightarrow> durable \<Rightarrow> string set" where
  "spent L d = stored_customs d \<union> L"

definition item_ok :: "string set \<Rightarrow> durable \<Rightarrow> string \<Rightarrow> batch_item \<Rightarrow> bool" where
  "item_ok L d i r \<longleftrightarrow> valid_item i r \<and> (\<forall>a \<in> set (it_attempts r). at_custom a = custom_id (at_number a) i)
     \<and> (\<forall>a \<in> set (butlast (it_attempts r)). unprocessed a)
     \<and> (\<forall>a \<in> set (it_attempts r). at_submission a = None \<longrightarrow> at_state a \<noteq> Sent \<and> (at_state a = Queued \<longrightarrow> at_custom a \<notin> spent L d))"

definition durable_inv :: "string set \<Rightarrow> durable \<Rightarrow> bool" where
  "durable_inv L d \<longleftrightarrow> (\<forall>i r. item_at d i = Some r \<longrightarrow> item_ok L d i r)
     \<and> (\<forall>s x. submission_at d s = Some x \<longrightarrow> su_id x = s \<and> su_state x \<noteq> Prepared)
     \<and> (\<forall>c \<in> spent L d. \<exists>i r. item_at d i = Some r \<and> c \<in> set (map at_custom (it_attempts r)))"

lemma applied_simps [simp]:
  "applied [] d = d" "applied (w # ws) d = applied ws (apply_saving w d)" "applied (ws @ vs) d = applied vs (applied ws d)"
  by (simp_all add: applied_def)

lemma at_simps [simp]:
  "item_at (apply_saving (PutItem r) d) i = (if i = it_id r then Some r else item_at d i)"
  "item_at (apply_saving (PutSubmission x) d) i = item_at d i"
  "item_at (apply_saving (PutBudget b) d) i = item_at d i"
  "submission_at (apply_saving (PutItem r) d) s = submission_at d s"
  "submission_at (apply_saving (PutSubmission x) d) s = (if s = su_id x then Some x else submission_at d s)"
  "submission_at (apply_saving (PutBudget b) d) s = submission_at d s"
  by (simp_all add: item_at_def submission_at_def)

declare apply_saving.simps [simp del]

lemma stored_simps [simp]:
  "stored_customs (apply_saving (PutItem r) d) = stored_customs d"
  "stored_customs (apply_saving (PutBudget b) d) = stored_customs d"
  by (simp_all add: stored_customs_def)

lemma spent_simps [simp]:
  "spent L (apply_saving (PutItem r) d) = spent L d"
  "spent L (apply_saving (PutBudget b) d) = spent L d"
  by (simp_all add: spent_def)

lemma item_ok_simps [simp]:
  "item_ok L (apply_saving (PutItem r) d) i q \<longleftrightarrow> item_ok L d i q"
  "item_ok L (apply_saving (PutBudget b) d) i q \<longleftrightarrow> item_ok L d i q"
  by (simp_all add: item_ok_def)

lemma item_ok_cong: "stored_customs d' = stored_customs d \<Longrightarrow> item_ok L d' i q \<longleftrightarrow> item_ok L d i q"
  by (simp add: item_ok_def spent_def)

section \<open>Saves that keep it\<close>

text \<open>An attempt that one save may replace by another.\<close>

definition gentle :: "attempt \<Rightarrow> attempt \<Rightarrow> bool" where
  "gentle a b \<longleftrightarrow> at_number b = at_number a \<and> at_custom b = at_custom a \<and> at_submission b = at_submission a
     \<and> (at_state b = at_state a \<or> at_state b = NotSubmitted \<or> pending a \<and> \<not> pending b
        \<or> at_state a = Queued \<and> at_state b = Sent \<and> at_submission a \<noteq> None)"

definition gentle_save :: "durable \<Rightarrow> saving \<Rightarrow> bool" where
  "gentle_save d w \<longleftrightarrow> (case w of
     PutItem r \<Rightarrow> (\<exists>q. item_at d (it_id r) = Some q \<and> list_all2 gentle (it_attempts q) (it_attempts r))
   | PutSubmission x \<Rightarrow> su_state x \<noteq> Prepared \<and> (\<exists>y. submission_at d (su_id x) = Some y \<and> su_members y = su_members x)
   | PutBudget b \<Rightarrow> True)"

fun gentle_saves :: "durable \<Rightarrow> saving list \<Rightarrow> bool" where
  "gentle_saves d [] = True"
| "gentle_saves d (w # ws) = (gentle_save d w \<and> gentle_saves (apply_saving w d) ws)"

lemma gentle_saves_append [simp]: "gentle_saves d (ws @ vs) \<longleftrightarrow> gentle_saves d ws \<and> gentle_saves (applied ws d) vs"
  by (induction ws arbitrary: d) auto

lemma gentle_saves_take: "gentle_saves d ws \<Longrightarrow> gentle_saves d (take k ws)"
  by (induction ws arbitrary: d k) (auto simp: take_Cons split: nat.split)

lemma gentle_refl [simp]: "gentle a a"
  by (simp add: gentle_def)

lemma gentle_unprocessed: "gentle a b \<Longrightarrow> unprocessed a \<Longrightarrow> unprocessed b"
  by (auto simp: gentle_def unprocessed_def pending_def)

lemma list_all2_butlast: "list_all2 P xs ys \<Longrightarrow> list_all2 P (butlast xs) (butlast ys)"
  by (auto simp: list_all2_conv_all_nth nth_butlast)

lemma gentle_item_ok:
  assumes "item_ok L d i q" "list_all2 gentle (it_attempts q) (it_attempts r)" "it_id r = i"
  shows "item_ok L d i r"
proof -
  have eq: "length (it_attempts r) = length (it_attempts q)" "map at_number (it_attempts r) = map at_number (it_attempts q)"
    using assms(2) by (auto simp: list_all2_conv_all_nth gentle_def intro: nth_equalityI)
  have origin: "\<exists>b \<in> set (it_attempts q). gentle b a" if "a \<in> set (it_attempts r)" for a
    by (rule list_all2_origin [OF assms(2) that])
  have butl: "\<exists>b \<in> set (butlast (it_attempts q)). gentle b a" if "a \<in> set (butlast (it_attempts r))" for a
    by (rule list_all2_origin [OF list_all2_butlast [OF assms(2)] that])
  have "unprocessed a" if "a \<in> set (butlast (it_attempts r))" for a
    using butl [OF that] assms(1) by (auto simp: item_ok_def intro: gentle_unprocessed)
  moreover have "at_custom a = custom_id (at_number a) i
      \<and> (at_submission a = None \<longrightarrow> at_state a \<noteq> Sent \<and> (at_state a = Queued \<longrightarrow> at_custom a \<notin> spent L d))"
    if "a \<in> set (it_attempts r)" for a
  proof -
    from origin [OF that] obtain b where b: "b \<in> set (it_attempts q)" "gentle b a" by auto
    from b(1) assms(1) have "at_custom b = custom_id (at_number b) i"
      "at_submission b = None \<longrightarrow> at_state b \<noteq> Sent \<and> (at_state b = Queued \<longrightarrow> at_custom b \<notin> spent L d)"
      by (auto simp: item_ok_def)
    with b(2) show ?thesis by (auto simp: gentle_def pending_def)
  qed
  moreover have "valid_item i r" using assms(1,3) eq by (simp add: item_ok_def valid_item_def)
  ultimately show ?thesis unfolding item_ok_def by blast
qed

lemma gentle_save_inv:
  assumes "durable_inv L d" "gentle_save d w"
  shows "durable_inv L (apply_saving w d)" "stored_customs (apply_saving w d) = stored_customs d"
proof -
  have "durable_inv L (apply_saving w d) \<and> stored_customs (apply_saving w d) = stored_customs d"
  proof (cases w)
    case (PutItem r)
    with assms(2) obtain q where q: "item_at d (it_id r) = Some q" "list_all2 gentle (it_attempts q) (it_attempts r)"
      by (auto simp: gentle_save_def)
    have customs: "set (map at_custom (it_attempts r)) = set (map at_custom (it_attempts q))"
    proof -
      have "map at_custom (it_attempts r) = map at_custom (it_attempts q)"
        using q(2) by (auto simp: list_all2_conv_all_nth gentle_def intro: nth_equalityI)
      then show ?thesis by simp
    qed
    have ok: "item_ok L d (it_id r) r"
      by (rule gentle_item_ok [OF _ q(2)]) (use assms(1) q(1) in \<open>auto simp: durable_inv_def\<close>)
    have "\<exists>i x. item_at (apply_saving w d) i = Some x \<and> c \<in> set (map at_custom (it_attempts x))" if "c \<in> spent L d" for c
    proof -
      from that assms(1) obtain i x where "item_at d i = Some x" "c \<in> set (map at_custom (it_attempts x))"
        unfolding durable_inv_def by blast
      then show ?thesis using q(1) customs PutItem by (cases "i = it_id r") auto
    qed
    then show ?thesis using assms(1) ok PutItem by (simp add: durable_inv_def)
  next
    case (PutSubmission x)
    with assms(2) obtain y where y: "su_state x \<noteq> Prepared" "submission_at d (su_id x) = Some y" "su_members y = su_members x"
      by (auto simp: gentle_save_def)
    have "stored_customs (apply_saving w d) = stored_customs d"
    proof (intro set_eqI iffI)
      fix c assume "c \<in> stored_customs (apply_saving w d)"
      then obtain s z where z: "submission_at (apply_saving w d) s = Some z" "c \<in> set (map snd (su_members z))"
        by (rule stored_customsE)
      show "c \<in> stored_customs d"
      proof (cases "s = su_id x")
        case True
        then have "z = x" using z(1) PutSubmission by simp
        with z(2) y(2,3) show ?thesis by (intro stored_customsI [of d "su_id x" y]) simp_all
      next
        case False
        then show ?thesis using z PutSubmission by (intro stored_customsI [of d s z]) simp_all
      qed
    next
      fix c assume "c \<in> stored_customs d"
      then obtain s z where z: "submission_at d s = Some z" "c \<in> set (map snd (su_members z))"
        by (rule stored_customsE)
      show "c \<in> stored_customs (apply_saving w d)"
      proof (cases "s = su_id x")
        case True
        then have "submission_at (apply_saving w d) s = Some x" "c \<in> set (map snd (su_members x))"
          using z y PutSubmission by auto
        then show ?thesis by (rule stored_customsI)
      next
        case False
        then have "submission_at (apply_saving w d) s = Some z" using z PutSubmission by simp
        then show ?thesis using z(2) by (rule stored_customsI)
      qed
    qed
    moreover from this have "spent L (apply_saving w d) = spent L d" by (simp add: spent_def)
    ultimately show ?thesis using assms(1) y PutSubmission item_ok_cong [of "apply_saving w d" d]
      by (simp add: durable_inv_def)
  next
    case (PutBudget b)
    then show ?thesis using assms(1) by (simp add: durable_inv_def)
  qed
  then show "durable_inv L (apply_saving w d)" "stored_customs (apply_saving w d) = stored_customs d" by auto
qed

lemma gentle_saves_inv:
  "durable_inv L d \<Longrightarrow> gentle_saves d ws \<Longrightarrow> durable_inv L (applied ws d) \<and> stored_customs (applied ws d) = stored_customs d"
  by (induction ws arbitrary: d) (simp_all add: gentle_save_inv)

section \<open>Pre- and postconditions of sections\<close>

definition keeps :: "(durable \<Rightarrow> bool) \<Rightarrow> 'a block \<Rightarrow> ('a \<Rightarrow> durable \<Rightarrow> bool) \<Rightarrow> bool" where
  "keeps P b Q \<longleftrightarrow> (\<forall>d. P d \<longrightarrow> gentle_saves d (fst (b d))
     \<and> (\<forall>x. snd (b d) = Inr x \<longrightarrow> Q x (applied (fst (b d)) d)))"

named_theorems keeps_intro \<open>rules for sections that keep the durable invariant\<close>

lemma keepsD: "keeps P b Q \<Longrightarrow> P d \<Longrightarrow> gentle_saves d (fst (b d))"
  by (simp add: keeps_def)

lemma keepsD2: "keeps P b Q \<Longrightarrow> P d \<Longrightarrow> b d = (ws, Inr x) \<Longrightarrow> Q x (applied ws d)"
  unfolding keeps_def by (metis fst_conv snd_conv)

lemma keeps_seq [keeps_intro]:
  assumes "keeps P b Q" "\<And>x. keeps (Q x) (f x) R"
  shows "keeps P (seq b f) R"
  unfolding keeps_def
proof (intro allI impI)
  fix d assume d: "P d"
  obtain ws r where b: "b d = (ws, r)" by (metis surj_pair)
  show "gentle_saves d (fst (seq b f d)) \<and> (\<forall>y. snd (seq b f d) = Inr y \<longrightarrow> R y (applied (fst (seq b f d)) d))"
  proof (cases r)
    case (Inl e)
    then show ?thesis using keepsD [OF assms(1) d] by (simp add: seq_def b)
  next
    case (Inr x)
    have q: "Q x (applied ws d)" by (rule keepsD2 [OF assms(1) d]) (simp add: b Inr)
    obtain vs r' where f: "f x (applied ws d) = (vs, r')" by (metis surj_pair)
    from assms(2) [of x] q f have "gentle_saves (applied ws d) vs" "\<And>y. r' = Inr y \<Longrightarrow> R y (applied vs (applied ws d))"
      unfolding keeps_def by (metis fst_conv, metis fst_conv snd_conv)
    then show ?thesis using keepsD [OF assms(1) d] by (auto simp: seq_def b Inr f)
  qed
qed

lemma keeps_give: "(\<And>d. P d \<Longrightarrow> Q x d) \<Longrightarrow> keeps P (give x) Q"
  by (simp add: keeps_def give_def)

lemma keeps_fail [keeps_intro]: "keeps P (fail e) Q"
  by (simp add: keeps_def fail_def)

lemma keeps_if [keeps_intro]: "(c \<Longrightarrow> keeps P a Q) \<Longrightarrow> (\<not> c \<Longrightarrow> keeps P b Q) \<Longrightarrow> keeps P (if c then a else b) Q"
  by simp

lemma keeps_post: "keeps P b Q \<Longrightarrow> (\<And>x d. Q x d \<Longrightarrow> R x d) \<Longrightarrow> keeps P b R"
  unfolding keeps_def by blast

lemma keeps_pre: "keeps P b Q \<Longrightarrow> (\<And>d. R d \<Longrightarrow> P d) \<Longrightarrow> keeps R b Q"
  unfolding keeps_def by blast

lemma keeps_each: "(\<And>x. x \<in> set xs \<Longrightarrow> keeps P (f x) (\<lambda>_. P)) \<Longrightarrow> keeps P (each f xs) (\<lambda>_. P)"
  by (induction xs) (auto intro!: keeps_seq keeps_give)

lemma keeps_load_submission: "keeps P (load_submission s) (\<lambda>x d. P d \<and> submission_at d s = Some x)"
  by (auto simp: keeps_def load_submission_def submission_at_def split: option.splits)

lemma keeps_load_item: "keeps P (load_item i) (\<lambda>r d. P d \<and> item_at d i = r)"
  by (auto simp: keeps_def load_item_def item_at_def split: option.splits if_splits)

lemma keeps_need_item: "keeps P (need_item i) (\<lambda>r d. P d \<and> item_at d i = Some r)"
  unfolding need_item_def
  by (rule keeps_seq [OF keeps_load_item]) (auto simp: keeps_def give_def fail_def split: option.split)

text \<open>The invariant with a submission that is known to be stored with its members.\<close>

definition holds :: "string set \<Rightarrow> durable \<Rightarrow> bool" where
  "holds L d \<longleftrightarrow> durable_inv L d"

definition knows :: "string set \<Rightarrow> submission \<Rightarrow> durable \<Rightarrow> bool" where
  "knows L x d \<longleftrightarrow> durable_inv L d \<and> (\<exists>y. submission_at d (su_id x) = Some y \<and> su_members y = su_members x)"

lemma knows_load: "keeps (durable_inv L) (load_submission s) (\<lambda>x d. knows L x d \<and> su_id x = s \<and> su_state x \<noteq> Prepared)"
  by (rule keeps_post [OF keeps_load_submission]) (auto simp: knows_def durable_inv_def)

lemma knows_save_submission:
  "su_id y = su_id x \<Longrightarrow> su_members y = su_members x \<Longrightarrow> su_state y \<noteq> Prepared \<Longrightarrow>
     keeps (knows L x) (save_submission y) (\<lambda>_. durable_inv L)"
  unfolding keeps_def save_submission_def
proof (intro allI impI conjI)
  fix d assume eq: "su_id y = su_id x" "su_members y = su_members x" "su_state y \<noteq> Prepared" and d: "knows L x d"
  then have g: "gentle_save d (PutSubmission y)" by (auto simp: gentle_save_def knows_def)
  then show "gentle_saves d (fst ([PutSubmission y], Inr y))" by simp
  fix z assume "snd ([PutSubmission y], Inr y) = Inr z"
  show "durable_inv L (applied (fst ([PutSubmission y], Inr y)) d)"
    using gentle_save_inv(1) [OF _ g] d by (simp add: knows_def)
qed

text \<open>An item is replaced by one whose attempts went a gentle way.\<close>

lemma knows_save_item:
  assumes "\<And>d. P d \<Longrightarrow> knows L x d \<and> (\<exists>q. item_at d (it_id r) = Some q \<and> list_all2 gentle (it_attempts q) (it_attempts r))"
  shows "keeps P (save_item r) (\<lambda>_. knows L x)"
  unfolding keeps_def save_item_def
proof (intro allI impI conjI)
  fix d assume "P d"
  from assms [OF this] have g: "gentle_save d (PutItem r)" and k: "knows L x d" by (auto simp: gentle_save_def)
  then show "gentle_saves d (fst ([PutItem r], Inr ()))" by simp
  fix z :: unit
  show "knows L x (applied (fst ([PutItem r], Inr ())) d)"
    using gentle_save_inv(1) [OF _ g] k by (auto simp: knows_def)
qed

lemma durable_save_item:
  assumes "\<And>d. P d \<Longrightarrow> durable_inv L d \<and> (\<exists>q. item_at d (it_id r) = Some q \<and> list_all2 gentle (it_attempts q) (it_attempts r))"
  shows "keeps P (save_item r) (\<lambda>_. durable_inv L)"
  unfolding keeps_def save_item_def
proof (intro allI impI conjI)
  fix d assume "P d"
  from assms [OF this] have g: "gentle_save d (PutItem r)" and k: "durable_inv L d" by (auto simp: gentle_save_def)
  then show "gentle_saves d (fst ([PutItem r], Inr ()))" by simp
  fix z :: unit
  show "durable_inv L (applied (fst ([PutItem r], Inr ())) d)"
    using gentle_save_inv(1) [OF k g] by simp
qed

text \<open>A member of a stored submission has been given a submission before it was sent.\<close>

lemma member_has_submission:
  assumes "durable_inv L d" "submission_at d s = Some x" "c \<in> set (map snd (su_members x))" "item_at d i = Some r"
    "a \<in> set (it_attempts r)" "at_custom a = c" "at_state a = Queued"
  shows "at_submission a \<noteq> None"
proof -
  have "c \<in> spent L d" using stored_customsI [OF assms(2,3)] by (simp add: spent_def)
  with assms show ?thesis unfolding durable_inv_def item_ok_def by blast
qed

lemma item_id: "durable_inv L d \<Longrightarrow> item_at d i = Some r \<Longrightarrow> it_id r = i"
  by (auto simp: durable_inv_def item_ok_def valid_item_def)

lemma knows_update_members:
  assumes f: "\<And>a. at_submission a \<noteq> None \<or> at_state a \<noteq> Queued \<Longrightarrow> gentle a (f a)"
  shows "keeps (knows L x) (update_members x f) (\<lambda>_. knows L x)"
  unfolding update_members_def
proof (rule keeps_each)
  fix ic assume ic: "ic \<in> set (su_members x)"
  obtain i c where [simp]: "ic = (i, c)" by (cases ic)
  have "keeps (\<lambda>d. knows L x d \<and> item_at d i = Some r) (save_item (update_attempts c f r)) (\<lambda>_. knows L x)" for r
  proof (rule knows_save_item)
    fix d assume d: "knows L x d \<and> item_at d i = Some r"
    then obtain y where y: "durable_inv L d" "submission_at d (su_id x) = Some y" "su_members y = su_members x"
      by (auto simp: knows_def)
    have "gentle a (if at_custom a = c then f a else a)" if "a \<in> set (it_attempts r)" for a
      using f member_has_submission [OF y(1,2), of c i r a] that ic d y(3) by force
    then have "list_all2 gentle (it_attempts r) (it_attempts (update_attempts c f r))"
      by (simp add: update_attempts_def list_all2_conv_all_nth)
    moreover have "it_id r = i" using d y(1) item_id by blast
    ultimately show "knows L x d \<and> (\<exists>q. item_at d (it_id (update_attempts c f r)) = Some q
        \<and> list_all2 gentle (it_attempts q) (it_attempts (update_attempts c f r)))"
      using d by (simp add: update_attempts_def)
  qed
  then show "keeps (knows L x) (case ic of (i, c) \<Rightarrow> seq (need_item i) (\<lambda>r. save_item (update_attempts c f r))) (\<lambda>_. knows L x)"
    by (auto intro: keeps_seq [OF keeps_need_item])
qed

lemma knows_update_save:
  assumes "\<And>a. at_submission a \<noteq> None \<or> at_state a \<noteq> Queued \<Longrightarrow> gentle a (f a)"
    and "su_id y = su_id x" "su_members y = su_members x" "su_state y \<noteq> Prepared"
  shows "keeps (knows L x) (seq (update_members x f) (\<lambda>_. save_submission y)) (\<lambda>_. durable_inv L)"
  using assms by (intro keeps_seq [OF knows_update_members] knows_save_submission) auto

lemma knows_cong: "su_id y = su_id x \<Longrightarrow> su_members y = su_members x \<Longrightarrow> knows L y = knows L x"
  by (auto simp: knows_def fun_eq_iff)

lemma keeps_mark_submitted: "keeps (knows L x) (mark_submitted now x job res) (\<lambda>_. durable_inv L)"
  unfolding mark_submitted_def
  by (rule knows_update_save) (auto simp: when_queued_def gentle_def)

section \<open>Every section but the plan and the flush\<close>

lemma keeps_loaded:
  assumes "\<And>x. su_id x = s \<Longrightarrow> su_state x \<noteq> Prepared \<Longrightarrow> keeps (knows L x) (f x) Q"
  shows "keeps (durable_inv L) (seq (load_submission s) f) Q"
proof (rule keeps_seq [OF knows_load])
  fix x show "keeps (\<lambda>d. knows L x d \<and> su_id x = s \<and> su_state x \<noteq> Prepared) (f x) Q"
    using assms [of x] by (auto simp: keeps_def)
qed

lemma keeps_give_inv: "keeps (knows L x) (give y) (\<lambda>_. durable_inv L)"
  by (rule keeps_give) (simp add: knows_def)

lemma keeps_abandon: "keeps (durable_inv L) (abandon_unsent s) (\<lambda>_. durable_inv L)"
  unfolding abandon_unsent_def by (rule keeps_loaded) (simp add: keeps_give_inv)

lemma keeps_accepted: "keeps (durable_inv L) (accepted_block now s job) (\<lambda>_. durable_inv L)"
  unfolding accepted_block_def by (rule keeps_loaded) (rule keeps_mark_submitted)

lemma keeps_refused: "keeps (durable_inv L) (refused_block s f) (\<lambda>_. durable_inv L)"
  unfolding refused_block_def by (rule keeps_loaded, rule knows_update_save) (auto simp: gentle_def)

lemma keeps_uncertain: "keeps (durable_inv L) (uncertain_block s f) (\<lambda>_. durable_inv L)"
  unfolding uncertain_block_def by (rule keeps_loaded, rule knows_save_submission) auto

lemma keeps_polled: "keeps (durable_inv L) (polled_block now s status) (\<lambda>_. durable_inv L)"
  unfolding polled_block_def by (rule keeps_loaded, rule knows_save_submission) auto

lemma keeps_cancel_failed: "keeps (durable_inv L) (cancel_failed_block s msg) (\<lambda>_. durable_inv L)"
  unfolding cancel_failed_block_def by (rule keeps_loaded, rule knows_save_submission) auto

lemma keeps_request_cancel: "keeps (durable_inv L) (request_cancel_block now s reason) (\<lambda>_. durable_inv L)"
  unfolding request_cancel_block_def
  by (rule keeps_loaded, rule keeps_if)
    (auto intro!: keeps_give_inv keeps_seq [OF knows_save_submission] keeps_give)

lemma keeps_reconciled: "keeps (durable_inv L) (reconciled_block now s found) (\<lambda>_. durable_inv L)"
  unfolding reconciled_block_def
proof (rule keeps_loaded, rule keeps_if)
  fix x
  show "keeps (knows L x) (give x) (\<lambda>_. durable_inv L)" by (rule keeps_give_inv)
  let ?y = "x\<lparr>su_lookups := su_lookups x + 1, su_last_lookup := Some (lookup_text found)\<rparr>"
  have y: "knows L x = knows L ?y" by (rule knows_cong) simp_all
  have save: "keeps (knows L ?y) (save_submission (?y\<lparr>su_state := Uncertain\<rparr>)) (\<lambda>_. durable_inv L)"
    by (rule knows_save_submission) simp_all
  show "keeps (knows L x) (let y = ?y in case found of Found job \<Rightarrow> mark_submitted now y job None
      | _ \<Rightarrow> save_submission (y\<lparr>su_state := Uncertain\<rparr>)) (\<lambda>_. durable_inv L)"
    unfolding y Let_def using keeps_mark_submitted save by (cases found) (simp_all only: lookup.case)
qed

lemma keeps_undecided: "keeps (durable_inv L) (undecided env s v) (\<lambda>x d. knows L x d)"
  unfolding undecided_def
  by (rule keeps_loaded) (auto intro!: keeps_fail keeps_give)

lemma keeps_resolve: "keeps (durable_inv L) (resolve_block env now s v dec who status) (\<lambda>_. durable_inv L)"
  unfolding resolve_block_def
proof (rule keeps_seq [OF keeps_undecided])
  fix x
  have status: "knows L x = knows L (x\<lparr>su_status := status\<rparr>)" by (rule knows_cong) simp_all
  show "keeps (knows L x) (let done1 = \<lambda>kind job. Some \<lparr>re_kind = kind, re_by = who, re_at = now, re_version = v, re_job = job\<rparr> in
     case dec of
       BindJob j \<Rightarrow> mark_submitted now (x\<lparr>su_status := status\<rparr>) j (done1 ByProviderJob (Some j))
     | DeclareNotSubmitted \<Rightarrow>
         seq (update_members x (when_queued (\<lambda>a. a\<lparr>at_state := NotSubmitted\<rparr>))) (\<lambda>_.
           save_submission (x\<lparr>su_state := Abandoned, su_resolution := done1 ByNotSubmitted None\<rparr>))
     | AbandonItems \<Rightarrow>
         seq (update_members x (when_queued (\<lambda>a. a\<lparr>at_state := Errored,
             at_error := Some \<lparr>fl_code = ''BATCH_ABANDONED_BY_OPERATOR'', fl_message = ''Uncertain batch submission '' @ s @ '' abandoned by '' @ who
               @ ''; spend is unknown and the item is not resubmitted''\<rparr>,
             at_usage := None\<rparr>))) (\<lambda>_.
           save_submission (x\<lparr>su_state := Abandoned, su_resolution := done1 ByAbandon None\<rparr>))) (\<lambda>_. durable_inv L)"
  proof (cases dec)
    case (BindJob j)
    then show ?thesis using keeps_mark_submitted [of L "x\<lparr>su_status := status\<rparr>"] by (simp add: status Let_def)
  next
    case DeclareNotSubmitted
    then show ?thesis unfolding Let_def by simp (rule knows_update_save, auto simp: when_queued_def gentle_def)
  next
    case AbandonItems
    then show ?thesis unfolding Let_def by simp (rule knows_update_save, auto simp: when_queued_def gentle_def pending_def)
  qed
qed

lemma keeps_cancel: "keeps (durable_inv L) (cancel_block i c unsent) (\<lambda>_. durable_inv L)"
  unfolding cancel_block_def
proof (rule keeps_seq [OF keeps_load_item])
  let ?f = "\<lambda>a. if unsent \<and> at_submission a = None then a\<lparr>at_cancel := True, at_state := NotSubmitted\<rparr> else a\<lparr>at_cancel := True\<rparr>"
  fix r
  show "keeps (\<lambda>d. durable_inv L d \<and> item_at d i = r) (case r of None \<Rightarrow> give () | Some x \<Rightarrow> save_item (update_attempts c ?f x)) (\<lambda>_. durable_inv L)"
  proof (cases r)
    case None
    then show ?thesis by (auto intro: keeps_give)
  next
    case (Some x)
    have "list_all2 gentle (it_attempts x) (it_attempts (update_attempts c ?f x))"
      by (auto simp: update_attempts_def list_all2_conv_all_nth gentle_def)
    moreover have "it_id (update_attempts c ?f x) = it_id x" by (simp add: update_attempts_def)
    ultimately show ?thesis using Some by (auto intro!: durable_save_item dest: item_id)
  qed
qed

text \<open>Collecting results writes the budget in between.\<close>

definition collecting_item :: "string set \<Rightarrow> string \<Rightarrow> batch_item \<Rightarrow> submission \<Rightarrow> durable \<Rightarrow> bool" where
  "collecting_item L i r x d \<longleftrightarrow> knows L x d \<and> item_at d i = Some r"

lemma keeps_budget:
  assumes "snd (b d) = r" "\<And>d. \<exists>v. fst (b d) = [] \<or> fst (b d) = [PutBudget v]"
  shows "keeps (collecting_item L i q x) b (\<lambda>_. collecting_item L i q x)"
  unfolding keeps_def
proof (intro allI impI)
  fix e assume e: "collecting_item L i q x e"
  have k: "collecting_item L i q x (apply_saving (PutBudget v) e)" for v
    using e gentle_save_inv(1) [of L e "PutBudget v"] by (auto simp: collecting_item_def knows_def gentle_save_def)
  from assms(2) [of e] obtain v where "fst (b e) = [] \<or> fst (b e) = [PutBudget v]" by auto
  then show "gentle_saves e (fst (b e)) \<and> (\<forall>y. snd (b e) = Inr y \<longrightarrow> collecting_item L i q x (applied (fst (b e)) e))"
    using e k by (auto simp: gentle_save_def)
qed

lemma keeps_record_usage: "keeps (collecting_item L i q x) (record_usage r a u) (\<lambda>_. collecting_item L i q x)"
  by (rule keeps_budget [OF HOL.refl]) (auto simp: record_usage_def split: option.splits prod.splits sum.splits)

lemma keeps_collect_attempts:
  "keeps (collecting_item L i q x) (collect_attempts r c jf res as)
     (\<lambda>bs d. collecting_item L i q x d \<and> list_all2 gentle as bs)"
proof (induction as)
  case Nil
  then show ?case by (auto intro: keeps_give)
next
  case (Cons a as)
  have "gentle a (collected jf res a)" if "at_state a \<in> {Queued, Sent}"
    using that by (cases "res"; cases "the res") (auto simp: collected_def gentle_def pending_def elim: outcome_state.elims)
  then show ?case
    by (auto intro!: keeps_seq [OF Cons.IH] keeps_seq [OF keeps_record_usage] keeps_give)
qed

lemma keeps_collect_member: "keeps (knows L x) (collect_member jf m ic) (\<lambda>_. knows L x)"
  unfolding collect_member_def
proof (rule keeps_seq [OF keeps_need_item])
  fix r
  let ?i = "fst ic"
  have pre: "keeps (\<lambda>d. knows L x d \<and> item_at d ?i = Some r) b Q" if "keeps (collecting_item L ?i r x) b Q" for b Q
    using that by (auto simp: keeps_def collecting_item_def)
  show "keeps (\<lambda>d. knows L x d \<and> item_at d ?i = Some r)
      (seq (collect_attempts r (snd ic) jf (map_of m (snd ic)) (it_attempts r)) (\<lambda>xs. save_item (r\<lparr>it_attempts := xs\<rparr>))) (\<lambda>_. knows L x)"
    by (rule pre, rule keeps_seq [OF keeps_collect_attempts], rule knows_save_item)
      (auto simp: collecting_item_def knows_def dest: item_id)
qed

lemma keeps_collect: "keeps (durable_inv L) (collect_block now s status jf rs) (\<lambda>_. durable_inv L)"
  unfolding collect_block_def
  by (rule keeps_loaded, rule keeps_if)
    (auto intro!: keeps_give_inv keeps_seq [OF keeps_each] keeps_collect_member knows_save_submission split: prod.split)

section \<open>Custom ids\<close>

lemma nat_string_digits: "c \<in> set (nat_string n) \<Longrightarrow> c \<noteq> CHR ''-''"
proof (induction n rule: nat_string.induct)
  case (1 n)
  have digit: "char_of (48 + k) \<noteq> CHR ''-''" if "k < 10" for k :: nat
  proof
    assume "char_of (48 + k) = CHR ''-''"
    then have "(of_char (char_of (48 + k) :: char) :: nat) = of_char (CHR ''-'')" by simp
    then show False using that by (simp add: of_char_of)
  qed
  show ?case
  proof (cases "n < 10")
    case True
    then show ?thesis using 1 digit [of n] by (subst (asm) (2) nat_string.simps) simp
  next
    case False
    with 1 digit [of "n mod 10"] show ?thesis by (subst (asm) (2) nat_string.simps) auto
  qed
qed

lemma custom_id_inject: "custom_id n i = custom_id m j \<longleftrightarrow> n = m \<and> i = j"
proof
  assume "custom_id n i = custom_id m j"
  then have eq: "nat_string n @ CHR ''-'' # i = nat_string m @ CHR ''-'' # j" by (simp add: custom_id_def)
  have take: "takeWhile (\<lambda>c. c \<noteq> CHR ''-'') (nat_string k @ CHR ''-'' # x) = nat_string k" for k x
    using nat_string_digits [of _ k] by (subst takeWhile_append2) auto
  from eq take [of n i] take [of m j] have "nat_string n = nat_string m" by simp
  then have "n = m" using inj_nat_string by (simp add: inj_eq)
  with eq show "n = m \<and> i = j" by simp
qed simp

section \<open>Claims\<close>

text \<open>The item has an attempt with that custom id.\<close>

definition claim_ok :: "durable \<Rightarrow> string \<Rightarrow> string \<Rightarrow> bool" where
  "claim_ok d i c \<longleftrightarrow> (\<exists>r. item_at d i = Some r \<and> c \<in> set (map at_custom (it_attempts r)))"

definition grows :: "durable \<Rightarrow> durable \<Rightarrow> bool" where
  "grows d d' \<longleftrightarrow> (\<forall>i c. claim_ok d i c \<longrightarrow> claim_ok d' i c)"

lemma grows_refl [simp]: "grows d d"
  by (simp add: grows_def)

lemma grows_trans: "grows a b \<Longrightarrow> grows b c \<Longrightarrow> grows a c"
  by (simp add: grows_def)

lemma claim_custom: "durable_inv L d \<Longrightarrow> claim_ok d i c \<Longrightarrow> \<exists>n. c = custom_id n i"
  unfolding durable_inv_def claim_ok_def item_ok_def by (metis imageE list.set_map)

lemma claim_unique: "durable_inv L d \<Longrightarrow> claim_ok d i c \<Longrightarrow> claim_ok d j c \<Longrightarrow> i = j"
  by (metis claim_custom custom_id_inject)

lemma gentle_save_grows: "gentle_save d w \<Longrightarrow> grows d (apply_saving w d)"
proof (cases w)
  case (PutItem r)
  assume "gentle_save d w"
  with PutItem obtain q where q: "item_at d (it_id r) = Some q" "list_all2 gentle (it_attempts q) (it_attempts r)"
    by (auto simp: gentle_save_def)
  have "map at_custom (it_attempts q) = map at_custom (it_attempts r)"
    by (rule list_all2_map_eq [OF q(2)]) (simp add: gentle_def)
  then have "set (map at_custom (it_attempts r)) = set (map at_custom (it_attempts q))" by simp
  then show ?thesis using q(1) PutItem by (auto simp: grows_def claim_ok_def)
qed (auto simp: grows_def claim_ok_def)

lemma gentle_saves_grow: "gentle_saves d ws \<Longrightarrow> grows d (applied ws d)"
  by (induction ws arbitrary: d) (auto intro: grows_trans gentle_save_grows)

section \<open>The plan\<close>

text \<open>A section stopped after any number of saves keeps the invariant, what is spent and every claim.\<close>

definition safe_saves :: "string set \<Rightarrow> durable \<Rightarrow> saving list \<Rightarrow> bool" where
  "safe_saves L d ws \<longleftrightarrow> (\<forall>k. durable_inv L (applied (take k ws) d) \<and> stored_customs (applied (take k ws) d) = stored_customs d
     \<and> grows d (applied (take k ws) d))"

lemma gentle_safe: "durable_inv L d \<Longrightarrow> gentle_saves d ws \<Longrightarrow> safe_saves L d ws"
  unfolding safe_saves_def using gentle_saves_inv gentle_saves_take gentle_saves_grow by blast

lemma safe_savesD:
  assumes "safe_saves L d ws"
  shows "durable_inv L (applied (take k ws) d)" "stored_customs (applied (take k ws) d) = stored_customs d"
    "grows d (applied (take k ws) d)"
  using assms by (auto simp: safe_saves_def)

lemma new_item_inv:
  assumes inv: "durable_inv L d" and prior: "attempts_of (item_at d i) = prior" "\<forall>a \<in> set prior. unprocessed a"
    and kept: "list_all2 gentle prior kept"
    and a: "at_number a = length prior + 1" "at_custom a = custom_id (length prior + 1) i" "at_state a = Queued"
    and r: "it_id r = i" "it_attempts r = kept @ [a]"
  shows "durable_inv L (apply_saving (PutItem r) d) \<and> grows d (apply_saving (PutItem r) d) \<and> custom_id (length prior + 1) i \<notin> spent L d"
proof -
  have old: "set (map at_number prior) = {n. 0 < n \<and> n \<le> length prior} \<and> map at_number prior = map Suc [0..<length prior]
    \<and> (\<forall>x \<in> set prior. at_custom x = custom_id (at_number x) i)"
  proof (cases "item_at d i")
    case None
    then show ?thesis using prior(1) by (auto simp: attempts_of_def)
  next
    case (Some q)
    with inv have "item_ok L d i q" by (simp add: durable_inv_def)
    then have "map at_number prior = map Suc [0..<length prior]" "\<forall>x \<in> set prior. at_custom x = custom_id (at_number x) i"
      using prior(1) Some by (auto simp: item_ok_def valid_item_def attempts_of_def)
    moreover from this(1) have "set (map at_number prior) = Suc ` {0..<length prior}" by (simp only: set_map set_upt)
    moreover have "Suc ` {0..<length prior} = {n. 0 < n \<and> n \<le> length prior}" by (auto simp: image_iff Suc_le_eq gr0_conv_Suc)
    ultimately show ?thesis by simp
  qed
  have fresh: "custom_id (length prior + 1) i \<notin> spent L d"
  proof
    assume "custom_id (length prior + 1) i \<in> spent L d"
    with inv obtain j q where q: "item_at d j = Some q" "custom_id (length prior + 1) i \<in> set (map at_custom (it_attempts q))"
      unfolding durable_inv_def by blast
    then have "claim_ok d j (custom_id (length prior + 1) i)" by (auto simp: claim_ok_def)
    from claim_custom [OF inv this] have "j = i" by (auto simp: custom_id_inject)
    with q prior(1) obtain x where "x \<in> set prior" "at_custom x = custom_id (length prior + 1) i"
      by (auto simp: attempts_of_def)
    then have "at_number x \<in> set (map at_number prior)" by simp
    with old have "at_number x \<le> length prior" by blast
    moreover from \<open>x \<in> set prior\<close> \<open>at_custom x = _\<close> old have "length prior + 1 = at_number x"
      by (auto simp: custom_id_inject)
    ultimately show False by simp
  qed
  have numbers: "map at_number kept = map at_number prior" "map at_custom kept = map at_custom prior"
    using list_all2_map_eq [OF kept, of at_number at_number] list_all2_map_eq [OF kept, of at_custom at_custom]
    by (auto simp: gentle_def)
  have len: "length kept = length prior" using kept by (simp add: list_all2_lengthD)
  have un: "unprocessed y \<and> at_custom y = custom_id (at_number y) i \<and> at_state y \<notin> {Queued, Sent}" if "y \<in> set kept" for y
  proof -
    from list_all2_origin [OF kept that] obtain x where "x \<in> set prior" "gentle x y" by auto
    with prior(2) old have "unprocessed y \<and> at_custom y = custom_id (at_number y) i"
      using gentle_unprocessed [of x y] by (auto simp: gentle_def)
    then show ?thesis by (auto simp: unprocessed_def)
  qed
  have "item_ok L d i r"
    unfolding item_ok_def valid_item_def
    using r a numbers(1) len old un fresh by auto
  moreover have grows: "grows d (apply_saving (PutItem r) d)"
  proof -
    have "set (map at_custom prior) \<subseteq> set (map at_custom (it_attempts r))" using r numbers(2) by auto
    then show ?thesis using prior(1) r(1) by (auto simp: grows_def claim_ok_def attempts_of_def split: option.splits)
  qed
  moreover have "\<exists>j q. item_at (apply_saving (PutItem r) d) j = Some q \<and> c \<in> set (map at_custom (it_attempts q))" if "c \<in> spent L d" for c
    using inv that grows unfolding durable_inv_def grows_def claim_ok_def by blast
  ultimately show ?thesis using inv r(1) fresh by (auto simp: durable_inv_def)
qed

text \<open>What a plan leaves: its attempt is claimed, and one to be enqueued may still be sent.\<close>

definition plan_ok :: "string set \<Rightarrow> durable \<Rightarrow> string \<Rightarrow> plan \<Rightarrow> bool" where
  "plan_ok L d i pl \<longleftrightarrow> (case pl of
     Deliver a \<Rightarrow> True
   | Enqueue a \<Rightarrow> claim_ok d i (at_custom a) \<and> at_custom a \<notin> spent L d
   | Attach a s \<Rightarrow> claim_ok d i (at_custom a)
   | Reconcile a s \<Rightarrow> claim_ok d i (at_custom a))"

definition planned_well :: "string set \<Rightarrow> durable \<Rightarrow> string \<Rightarrow> saving list \<times> (lane_error + plan) \<Rightarrow> bool" where
  "planned_well L d i wr \<longleftrightarrow> safe_saves L d (fst wr) \<and> (\<forall>pl. snd wr = Inr pl \<longrightarrow> plan_ok L (applied (fst wr) d) i pl)"

lemma planned_well_give: "durable_inv L d \<Longrightarrow> plan_ok L d i pl \<Longrightarrow> planned_well L d i ([], Inr pl)"
  by (simp add: planned_well_def safe_saves_def)

lemma planned_well_fail: "durable_inv L d \<Longrightarrow> planned_well L d i ([], Inl e)"
  by (simp add: planned_well_def safe_saves_def)

lemma safe_budget: "durable_inv L d \<Longrightarrow> safe_saves L d [PutBudget b]"
  by (rule gentle_safe) (auto simp: gentle_save_def)

lemma safe_append_item:
  assumes "durable_inv L d" "durable_inv L (apply_saving (PutItem r) d)" "grows d (apply_saving (PutItem r) d)"
  shows "safe_saves L d [PutItem r]" "safe_saves L d [PutBudget b, PutItem r]"
proof -
  have swap: "apply_saving (PutItem r) (apply_saving (PutBudget b) d) = apply_saving (PutBudget b) (apply_saving (PutItem r) d)"
    by (simp add: apply_saving.simps)
  have b: "durable_inv L (apply_saving (PutBudget b) e)" "grows e (apply_saving (PutBudget b) e)" if "durable_inv L e" for e
    using gentle_save_inv(1) [OF that, of "PutBudget b"] gentle_save_grows [of e "PutBudget b"] by (simp_all add: gentle_save_def)
  show "safe_saves L d [PutItem r]" using assms by (auto simp: safe_saves_def take_Cons split: nat.split)
  show "safe_saves L d [PutBudget b, PutItem r]"
    using assms b(1) b(2) [OF assms(1)] b(2) [OF assms(2)] grows_trans [OF assms(3)]
    by (auto simp: safe_saves_def take_Cons swap split: nat.split)
qed

lemma new_attempt_well:
  assumes inv: "durable_inv L d" and prior: "attempts_of (item_at d i) = prior" "\<forall>a \<in> set prior. unprocessed a"
  shows "planned_well L d i (new_attempt rq i prior d)"
proof -
  let ?a = "\<lambda>res. \<lparr>at_number = length prior + 1, at_custom = custom_id (length prior + 1) i, at_reservation = res, at_estimate = rq_estimate rq,
    at_transferred = False, at_submission = None, at_state = Queued, at_cancel = False, at_late = False, at_body = None, at_error = None, at_usage = None\<rparr>"
  let ?r = "\<lambda>kept res. \<lparr>it_id = i, it_activity = rq_activity rq, it_trace = rq_trace rq, it_fingerprint = rq_fingerprint rq,
    it_endpoint = rq_endpoint rq, it_provider = rq_provider rq, it_model = rq_model rq, it_attempts = kept @ [?a res]\<rparr>"
  have item: "durable_inv L (apply_saving (PutItem (?r kept res)) d) \<and> grows d (apply_saving (PutItem (?r kept res)) d)
      \<and> custom_id (length prior + 1) i \<notin> spent L d" if "list_all2 gentle prior kept" for kept res
    by (rule new_item_inv [OF inv prior that, where a = "?a res"]) simp_all
  have ok: "plan_ok L (apply_saving (PutItem (?r kept res)) e) i (Enqueue (?a res))"
    if "list_all2 gentle prior kept" "spent L e = spent L d" for kept res e
    using item [OF that(1)] that(2) by (simp add: plan_ok_def claim_ok_def)
  show ?thesis
  proof (cases "prior \<noteq> [] \<and> at_state (last prior) = NotSubmitted \<and> \<not> at_transferred (last prior) \<and> at_reservation (last prior) \<noteq> None")
    case True
    let ?kept = "butlast prior @ [(last prior)\<lparr>at_transferred := True\<rparr>]"
    have "list_all2 gentle (butlast prior @ [last prior]) ?kept"
      by (intro list_all2_appendI) (auto simp: gentle_def list_all2_refl)
    then have kept: "list_all2 gentle prior ?kept" using True by simp
    have "new_attempt rq i prior d = ([PutItem (?r ?kept (at_reservation (last prior)))], Inr (Enqueue (?a (at_reservation (last prior)))))"
      unfolding new_attempt_def next_reservation_def if_P [OF True] by (simp add: seq_def give_def save_item_def Let_def)
    then show ?thesis using safe_append_item(1) [OF inv] item [OF kept] ok [OF kept HOL.refl] by (simp add: planned_well_def)
  next
    case False
    have kept: "list_all2 gentle prior prior" by (simp add: list_all2_refl)
    obtain b res where b: "reserve True (ln_budget d) (rq_activity rq) (rq_estimate rq) = (b, res)" by (metis surj_pair)
    have new: "new_attempt rq i prior d = (case res of Inl e \<Rightarrow> ([PutBudget b], Inl (BudgetFailed e))
      | Inr None \<Rightarrow> ([PutBudget b], Inl BudgetSuspended)
      | Inr (Some x) \<Rightarrow> ([PutBudget b, PutItem (?r prior (Some x))], Inr (Enqueue (?a (Some x)))))"
      unfolding new_attempt_def next_reservation_def if_not_P [OF False]
      by (simp add: seq_def give_def save_item_def reserve_tokens_def b Let_def split: sum.split option.split)
    show ?thesis unfolding new planned_well_def
      using safe_budget [OF inv] safe_append_item(2) [OF inv] item [OF kept] ok [OF kept]
      by (auto split: sum.split option.split)
  qed
qed

lemma plan_well:
  assumes inv: "durable_inv L d"
  shows "planned_well L d (le_item env (rq_activity rq)) (plan_item env rq d)"
proof -
  let ?i = "le_item env (rq_activity rq)"
  have load: "load_item ?i d = ([], Inr (item_at d ?i))"
    using inv by (auto simp: load_item_def item_at_def [symmetric] durable_inv_def item_ok_def split: option.split)
  show ?thesis
  proof (cases "input_changed rq (item_at d ?i)")
    case True
    then show ?thesis using inv by (simp add: plan_item_def Let_def seq_def load fail_def planned_well_fail)
  next
    case False
    note unchanged = this
    show ?thesis
    proof (cases "last_attempt (item_at d ?i)")
      case None
      then have "attempts_of (item_at d ?i) = []" by (auto simp: last_attempt_def attempts_of_def split: option.splits if_splits)
      then show ?thesis using new_attempt_well [OF inv, of ?i "[]" rq] unchanged None
        by (simp add: plan_item_def Let_def seq_def load split: prod.split)
    next
      case (Some a)
      then obtain r where r: "item_at d ?i = Some r" "it_attempts r \<noteq> []" "a = last (it_attempts r)"
        by (auto simp: last_attempt_def split: option.splits if_splits)
      with inv have ok: "item_ok L d ?i r" by (simp add: durable_inv_def)
      have a: "a \<in> set (it_attempts r)" using r by simp
      have claim: "claim_ok d ?i (at_custom a)" using r(1) a by (auto simp: claim_ok_def)
      have plan: "plan_item env rq d = (if at_state a = Succeeded then ([], Inr (Deliver a))
          else if at_state a = Errored then ([], Inl (ItemFailed (error_code a) False))
          else if at_state a = Missing then ([], Inl (ItemFailed ''BATCH_RESULT_MISSING'' False))
          else if at_state a = Sent \<and> at_submission a \<noteq> None then ([], Inr (Attach a (the (at_submission a))))
          else if at_state a = Queued then plan_queued ?i a d
          else if int_of_number (ls_attempts (rq_settings rq)) \<le> int (length (it_attempts r))
          then ([], Inl (ItemFailed ''BATCH_ATTEMPTS_EXHAUSTED'' False))
          else new_attempt rq ?i (it_attempts r) d)"
        using unchanged Some r(1)
        by (cases "at_submission a") (simp_all add: plan_item_def Let_def seq_def load attempts_of_def give_def fail_def split: prod.split)
      have sent: "at_state a \<noteq> Sent \<or> at_submission a \<noteq> None" using ok a by (auto simp: item_ok_def)
      have queued: "planned_well L d ?i (plan_queued ?i a d)" if q: "at_state a = Queued"
      proof (cases "at_submission a")
        case None
        then show ?thesis using ok a q claim inv
          by (auto simp: plan_queued_def give_def item_ok_def plan_ok_def intro!: planned_well_give)
      next
        case (Some s)
        have "su_state x \<noteq> Prepared" if "submission_at d s = Some x" for x using inv that by (auto simp: durable_inv_def)
        then show ?thesis using Some claim inv
          by (auto simp: plan_queued_def seq_def load_submission_def submission_at_def [symmetric] give_def fail_def plan_ok_def
              intro!: planned_well_give planned_well_fail split: option.split)
      qed
      have all: "\<forall>x \<in> set (it_attempts r). unprocessed x" if "unprocessed a"
      proof -
        have "it_attempts r = butlast (it_attempts r) @ [a]" using r by simp
        then have "set (it_attempts r) = set (butlast (it_attempts r)) \<union> {a}" by (metis Un_insert_right list.simps(15) set_append set_empty sup_bot_right list.set(1) insert_is_Un Un_commute)
        then show ?thesis using ok that by (auto simp: item_ok_def)
      qed
      have rest: "unprocessed a" if "at_state a \<notin> {Succeeded, Errored, Missing, Sent, Queued}"
        using that by (cases "at_state a") (auto simp: unprocessed_def)
      show ?thesis unfolding plan
        using inv claim sent queued new_attempt_well [OF inv, of ?i "it_attempts r" rq] all rest r(1)
        by (auto simp: plan_ok_def attempts_of_def intro!: planned_well_give planned_well_fail)
    qed
  qed
qed

section \<open>The flush\<close>

lemma seq_ok: "b d = (ws, Inr x) \<Longrightarrow> f x (applied ws d) = (vs, r) \<Longrightarrow> seq b f d = (ws @ vs, r)"
  by (simp add: seq_def)

definition assign :: "string \<Rightarrow> attempt \<Rightarrow> attempt" where
  "assign s a = a\<lparr>at_submission := Some s\<rparr>"

definition assigned :: "string \<Rightarrow> (string \<times> string) list \<Rightarrow> string \<Rightarrow> batch_item \<Rightarrow> batch_item" where
  "assigned s ms j r = r\<lparr>it_attempts := map (\<lambda>a. if (j, at_custom a) \<in> set ms then assign s a else a) (it_attempts r)\<rparr>"

lemma assign_simps [simp]:
  "at_custom (assign s a) = at_custom a" "at_number (assign s a) = at_number a" "at_state (assign s a) = at_state a"
  "assign s (assign s a) = assign s a" "at_submission (assign s a) = Some s"
  by (simp_all add: assign_def)

lemma flush_members:
  assumes "\<forall>m \<in> set ms. \<exists>r. item_at d (fst m) = Some r \<and> valid_item (fst m) r"
  shows "\<exists>ws. each (\<lambda>(i, c). seq (need_item i) (\<lambda>r. save_item (update_attempts c (assign s) r))) ms d = (ws, Inr ())
    \<and> submission_at (applied ws d) = submission_at d
    \<and> (\<forall>j. item_at (applied ws d) j = map_option (assigned s ms j) (item_at d j))"
  using assms
proof (induction ms arbitrary: d)
  case Nil
  have "assigned s [] j r = r" for j r by (simp add: assigned_def)
  then show ?case by (auto simp: give_def option.map_ident)
next
  case (Cons m ms)
  obtain i c where m: "m = (i, c)" by (cases m)
  from Cons.prems obtain r where r: "item_at d i = Some r" "valid_item i r" by (auto simp: m)
  let ?r = "update_attempts c (assign s) r"
  let ?d = "apply_saving (PutItem ?r) d"
  have id: "it_id ?r = i" using r(2) by (simp add: update_attempts_def valid_item_def)
  have valid: "valid_item i ?r"
  proof -
    have "at_number \<circ> (\<lambda>a. if at_custom a = c then assign s a else a) = at_number" by auto
    then show ?thesis using r(2) by (simp add: update_attempts_def valid_item_def)
  qed
  have first: "seq (need_item i) (\<lambda>r. save_item (update_attempts c (assign s) r)) d = ([PutItem ?r], Inr ())"
    using r by (simp add: seq_def need_item_def load_item_def item_at_def [symmetric] give_def save_item_def)
  have "\<forall>m \<in> set ms. \<exists>q. item_at ?d (fst m) = Some q \<and> valid_item (fst m) q"
    using Cons.prems id valid by auto
  from Cons.IH [OF this] obtain ws where ws:
    "each (\<lambda>(i, c). seq (need_item i) (\<lambda>r. save_item (update_attempts c (assign s) r))) ms ?d = (ws, Inr ())"
    "submission_at (applied ws ?d) = submission_at ?d"
    "\<And>j. item_at (applied ws ?d) j = map_option (assigned s ms j) (item_at ?d j)" by blast
  have "assigned s ms j ?r = assigned s (m # ms) j r" if "j = i" for j
    using that by (auto simp: assigned_def update_attempts_def m)
  moreover have "assigned s ms j q = assigned s (m # ms) j q" if "j \<noteq> i" for j q
    using that by (auto simp: assigned_def m)
  ultimately have "item_at (applied ws ?d) j = map_option (assigned s (m # ms) j) (item_at d j)" for j
    unfolding ws(3) using r(1) id by (cases "j = i"; cases "item_at d j") simp_all
  moreover have "each (\<lambda>(i, c). seq (need_item i) (\<lambda>r. save_item (update_attempts c (assign s) r))) (m # ms) d
    = ([PutItem ?r] @ ws, Inr ())"
    unfolding each.simps m prod.case
    by (rule seq_ok [where b = "seq (need_item i) (\<lambda>r. save_item (update_attempts c (assign s) r))" and x = "()"])
      (use first ws(1) in simp_all)
  moreover have "submission_at (applied ([PutItem ?r] @ ws) d) = submission_at d" using ws(2) by (simp add: fun_eq_iff)
  ultimately show ?case by (intro exI [of _ "[PutItem ?r] @ ws"]) simp
qed

lemma flush_saves:
  assumes inv: "durable_inv L d" and claims: "\<And>i c. (i, c) \<in> set (su_members x) \<Longrightarrow> claim_ok d i c"
  shows "\<exists>ws. flush_block now x d = (ws, Inr (x\<lparr>su_state := Sending, su_sent_at := Some now\<rparr>))
    \<and> submission_at (applied ws d) = (submission_at d)(su_id x \<mapsto> x\<lparr>su_state := Sending, su_sent_at := Some now\<rparr>)
    \<and> (\<forall>j. item_at (applied ws d) j = map_option (assigned (su_id x) (su_members x) j) (item_at d j))"
proof -
  let ?d = "apply_saving (PutSubmission x) d"
  have "\<forall>m \<in> set (su_members x). \<exists>r. item_at ?d (fst m) = Some r \<and> valid_item (fst m) r"
  proof
    fix m assume "m \<in> set (su_members x)"
    then have "claim_ok d (fst m) (snd m)" using claims by (metis prod.collapse)
    with inv show "\<exists>r. item_at ?d (fst m) = Some r \<and> valid_item (fst m) r"
      by (auto simp: claim_ok_def durable_inv_def item_ok_def)
  qed
  from flush_members [where ms = "su_members x" and d = ?d and s = "su_id x", OF this] obtain ws where ws:
    "update_members x (assign (su_id x)) ?d = (ws, Inr ())" "submission_at (applied ws ?d) = submission_at ?d"
    "\<And>j. item_at (applied ws ?d) j = map_option (assigned (su_id x) (su_members x) j) (item_at ?d j)"
    unfolding update_members_def by blast
  have assign: "(\<lambda>a. a\<lparr>at_submission := Some (su_id x)\<rparr>) = assign (su_id x)" by (simp add: assign_def fun_eq_iff)
  show ?thesis
    by (rule exI [of _ "PutSubmission x # ws @ [PutSubmission (x\<lparr>su_state := Sending, su_sent_at := Some now\<rparr>)]"])
      (use ws in \<open>auto simp: flush_block_def seq_def save_submission_def assign fun_eq_iff\<close>)
qed

lemma flush_inv:
  assumes inv: "durable_inv L d" and claims: "\<And>i c. (i, c) \<in> set (su_members x) \<Longrightarrow> claim_ok d i c"
    and ws: "fst (flush_block now x d) = ws"
  shows "durable_inv (L \<union> set (map snd (su_members x))) (applied ws d)"
    "stored_customs (applied ws d) \<subseteq> stored_customs d \<union> set (map snd (su_members x))" "grows d (applied ws d)"
proof -
  let ?cs = "set (map snd (su_members x))" and ?d = "applied ws d"
  from flush_saves [OF inv claims] ws have
    sub: "submission_at ?d = (submission_at d)(su_id x \<mapsto> x\<lparr>su_state := Sending, su_sent_at := Some now\<rparr>)"
    and item: "\<And>j. item_at ?d j = map_option (assigned (su_id x) (su_members x) j) (item_at d j)"
    by (metis fst_conv)+
  show stored: "stored_customs ?d \<subseteq> stored_customs d \<union> ?cs"
  proof
    fix c assume "c \<in> stored_customs ?d"
    then obtain s z where z: "submission_at ?d s = Some z" "c \<in> set (map snd (su_members z))" by (rule stored_customsE)
    show "c \<in> stored_customs d \<union> ?cs"
    proof (cases "s = su_id x")
      case True
      then show ?thesis using z sub by auto
    next
      case False
      then have "submission_at d s = Some z" using z(1) sub by simp
      from stored_customsI [OF this z(2)] show ?thesis by simp
    qed
  qed
  have customs: "map at_custom (it_attempts (assigned s ms j r)) = map at_custom (it_attempts r)" for s ms j r
    by (auto simp: assigned_def)
  have claim: "claim_ok ?d i c \<longleftrightarrow> claim_ok d i c" for i c
    unfolding claim_ok_def item by (cases "item_at d i") (simp_all add: customs del: set_map)
  then show "grows d ?d" by (simp add: grows_def)
  have ok: "item_ok (L \<union> ?cs) ?d j (assigned (su_id x) (su_members x) j r)" if r: "item_at d j = Some r" for j r
  proof -
    from inv r have old: "item_ok L d j r" by (simp add: durable_inv_def)
    have free: "at_custom a \<notin> spent (L \<union> ?cs) ?d"
      if a: "a \<in> set (it_attempts r)" "(j, at_custom a) \<notin> set (su_members x)" "at_submission a = None" "at_state a = Queued" for a
    proof -
      have "at_custom a \<notin> ?cs"
      proof
        assume "at_custom a \<in> ?cs"
        then obtain i where i: "(i, at_custom a) \<in> set (su_members x)" by auto
        have "claim_ok d j (at_custom a)" using a(1) r by (auto simp: claim_ok_def)
        with claims [OF i] have "i = j" by (rule claim_unique [OF inv])
        with i a(2) show False by simp
      qed
      moreover have "at_custom a \<notin> spent L d" using old a by (auto simp: item_ok_def)
      ultimately show ?thesis using stored by (auto simp: spent_def)
    qed
    have numbers: "map at_number (it_attempts (assigned (su_id x) (su_members x) j r)) = map at_number (it_attempts r)"
      by (auto simp: assigned_def)
    show ?thesis
      using old free numbers unfolding item_ok_def valid_item_def
      by (auto simp: assigned_def unprocessed_def map_butlast [symmetric] split: if_splits)
  qed
  have "\<exists>i r. item_at ?d i = Some r \<and> c \<in> set (map at_custom (it_attempts r))" if c: "c \<in> spent (L \<union> ?cs) ?d" for c
  proof -
    have "c \<in> spent L d \<or> c \<in> ?cs" using c stored by (auto simp: spent_def)
    then have "\<exists>i. claim_ok d i c" using inv claims unfolding durable_inv_def claim_ok_def by fastforce
    with claim show ?thesis unfolding claim_ok_def by metis
  qed
  then show "durable_inv (L \<union> ?cs) ?d"
    using inv ok sub item unfolding durable_inv_def by (auto split: if_splits)
qed

end
