(* ===== verification/Batch_Lane_Process.thy ===== *)
theory Batch_Lane_Process
  imports Batch_Lane_Safety
begin

text \<open>
  The process side of the batch lane: who waits, what is being collected, and in which order the queue of serial
  sections holds flushes, cancellations and plans. Its invariant is kept by every orderly event, and gives that
  no attempt is sent twice.
\<close>

section \<open>The invariant of the process\<close>

definition op_members :: "lane_op \<Rightarrow> (string \<times> string) list" where
  "op_members o1 = (case o1 of DoFlush x \<Rightarrow> su_members x | _ \<Rightarrow> [])"

definition group_customs :: "lane_process \<Rightarrow> string list" where
  "group_customs p = concat (map cg_customs (lp_groups p))"

definition queue_customs :: "lane_op list \<Rightarrow> string list" where
  "queue_customs q = map snd (concat (map op_members q))"

definition plans :: "lane_env \<Rightarrow> string \<Rightarrow> lane_op \<Rightarrow> bool" where
  "plans env i o1 \<longleftrightarrow> (case o1 of DoPlan rq \<Rightarrow> le_item env (rq_activity rq) = i | _ \<Rightarrow> False)"

definition cancels :: "string \<Rightarrow> lane_op \<Rightarrow> bool" where
  "cancels c o1 \<longleftrightarrow> (case o1 of DoCancel i e \<Rightarrow> e = c | _ \<Rightarrow> False)"

text \<open>
  A queued plan of an item is the only one; nobody waits for the item; no flush behind it sends the item; and
  where an attempt of the item is still in a group, its cancellation comes first.
\<close>

definition plan_safe :: "lane_env \<Rightarrow> durable \<Rightarrow> lane_process \<Rightarrow> lane_op list \<Rightarrow> string \<Rightarrow> lane_op list \<Rightarrow> bool" where
  "plan_safe env d p xs i ys \<longleftrightarrow> i \<notin> snd ` set (lp_waiters p) \<and> (\<forall>o1 \<in> set xs \<union> set ys. \<not> plans env i o1)
     \<and> (\<forall>o1 \<in> set ys. i \<notin> fst ` set (op_members o1))
     \<and> (\<forall>c \<in> set (group_customs p). claim_ok d i c \<longrightarrow> (\<exists>o1 \<in> set xs. cancels c o1))"

definition process_inv :: "lane_env \<Rightarrow> string set \<Rightarrow> durable \<Rightarrow> lane_process \<Rightarrow> bool" where
  "process_inv env L d p \<longleftrightarrow> distinct (group_customs p @ queue_customs (lp_queue p))
     \<and> (\<forall>c \<in> set (group_customs p) \<union> set (queue_customs (lp_queue p)). c \<notin> spent L d)
     \<and> (\<forall>w \<in> set (lp_waiters p). claim_ok d (snd w) (fst w))
     \<and> (\<forall>o1 \<in> set (lp_queue p). \<forall>m \<in> set (op_members o1). claim_ok d (fst m) (snd m))
     \<and> (\<forall>c \<in> set (group_customs p). (\<exists>i. claim_ok d i c) \<and> (c \<in> fst ` set (lp_waiters p) \<or> (\<exists>o1 \<in> set (lp_queue p). cancels c o1)))
     \<and> (\<forall>xs o1 ys i. lp_queue p = xs @ o1 # ys \<longrightarrow> plans env i o1 \<longrightarrow> plan_safe env d p xs i ys)"

lemma process_invD:
  assumes "process_inv env L d p"
  shows "distinct (group_customs p)" "distinct (queue_customs (lp_queue p))"
    "c \<in> set (group_customs p) \<Longrightarrow> c \<notin> set (queue_customs (lp_queue p))"
    "c \<in> set (group_customs p) \<Longrightarrow> c \<notin> spent L d" "c \<in> set (queue_customs (lp_queue p)) \<Longrightarrow> c \<notin> spent L d"
    "w \<in> set (lp_waiters p) \<Longrightarrow> claim_ok d (snd w) (fst w)"
    "o1 \<in> set (lp_queue p) \<Longrightarrow> m \<in> set (op_members o1) \<Longrightarrow> claim_ok d (fst m) (snd m)"
    "c \<in> set (group_customs p) \<Longrightarrow> \<exists>i. claim_ok d i c"
    "c \<in> set (group_customs p) \<Longrightarrow> c \<in> fst ` set (lp_waiters p) \<or> (\<exists>o1 \<in> set (lp_queue p). cancels c o1)"
    "lp_queue p = xs @ o1 # ys \<Longrightarrow> plans env i o1 \<Longrightarrow> plan_safe env d p xs i ys"
  using assms unfolding process_inv_def by (auto simp: disjoint_iff)

lemma process_invI:
  assumes "distinct (group_customs p)" "distinct (queue_customs (lp_queue p))"
    "\<And>c. c \<in> set (group_customs p) \<Longrightarrow> c \<notin> set (queue_customs (lp_queue p))"
    "\<And>c. c \<in> set (group_customs p) \<or> c \<in> set (queue_customs (lp_queue p)) \<Longrightarrow> c \<notin> spent L d"
    "\<And>w. w \<in> set (lp_waiters p) \<Longrightarrow> claim_ok d (snd w) (fst w)"
    "\<And>o1 m. o1 \<in> set (lp_queue p) \<Longrightarrow> m \<in> set (op_members o1) \<Longrightarrow> claim_ok d (fst m) (snd m)"
    "\<And>c. c \<in> set (group_customs p) \<Longrightarrow> \<exists>i. claim_ok d i c"
    "\<And>c. c \<in> set (group_customs p) \<Longrightarrow> c \<in> fst ` set (lp_waiters p) \<or> (\<exists>o1 \<in> set (lp_queue p). cancels c o1)"
    "\<And>xs o1 ys i. lp_queue p = xs @ o1 # ys \<Longrightarrow> plans env i o1 \<Longrightarrow> plan_safe env d p xs i ys"
  shows "process_inv env L d p"
  using assms unfolding process_inv_def by (auto simp: disjoint_iff)

lemma queue_customs_simps [simp]:
  "queue_customs [] = []" "queue_customs (o1 # q) = map snd (op_members o1) @ queue_customs q"
  "queue_customs (q @ r) = queue_customs q @ queue_customs r"
  by (simp_all add: queue_customs_def)

lemma group_customs_simps [simp]:
  "group_customs (p\<lparr>lp_queue := q\<rparr>) = group_customs p"
  "group_customs (p\<lparr>lp_waiters := w\<rparr>) = group_customs p"
  "group_customs (p\<lparr>lp_flights := f\<rparr>) = group_customs p"
  by (simp_all add: group_customs_def)

lemma process_inv_none: "process_inv env L d no_process"
  by (rule process_invI) (auto simp: no_process_def group_customs_def)

text \<open>The durable state may grow, as long as what is claimed stays unspent.\<close>

lemma process_inv_durable:
  assumes inv: "process_inv env L d p" and d': "durable_inv L' d'" and grows: "grows d d'"
    and unspent: "\<And>c. c \<in> set (group_customs p) \<or> c \<in> set (queue_customs (lp_queue p)) \<Longrightarrow> c \<notin> spent L' d'"
  shows "process_inv env L' d' p"
proof (rule process_invI)
  note D = process_invD [OF inv]
  have up: "claim_ok d i c \<Longrightarrow> claim_ok d' i c" for i c using grows by (simp add: grows_def)
  show "distinct (group_customs p)" "distinct (queue_customs (lp_queue p))" by (fact D)+
  show "c \<notin> set (queue_customs (lp_queue p))" if "c \<in> set (group_customs p)" for c by (rule D(3) [OF that])
  show "c \<notin> spent L' d'" if "c \<in> set (group_customs p) \<or> c \<in> set (queue_customs (lp_queue p))" for c by (rule unspent [OF that])
  show "claim_ok d' (snd w) (fst w)" if "w \<in> set (lp_waiters p)" for w using up D(6) [OF that] by blast
  show "claim_ok d' (fst m) (snd m)" if "o1 \<in> set (lp_queue p)" "m \<in> set (op_members o1)" for o1 m
    using up D(7) [OF that] by blast
  show "\<exists>i. claim_ok d' i c" if "c \<in> set (group_customs p)" for c using up D(8) [OF that] by blast
  show "c \<in> fst ` set (lp_waiters p) \<or> (\<exists>o1 \<in> set (lp_queue p). cancels c o1)" if "c \<in> set (group_customs p)" for c
    by (rule D(9) [OF that])
  fix xs o1 ys i assume q: "lp_queue p = xs @ o1 # ys" "plans env i o1"
  have "claim_ok d i c" if c: "c \<in> set (group_customs p)" "claim_ok d' i c" for c
  proof -
    from D(8) [OF c(1)] obtain j where "claim_ok d j c" by auto
    moreover from this have "j = i" using claim_unique [OF d' up] c(2) by blast
    ultimately show ?thesis by simp
  qed
  with D(10) [OF q] show "plan_safe env d' p xs i ys" unfolding plan_safe_def by blast
qed

section \<open>Taking a section off the queue\<close>

lemma process_inv_pop:
  assumes inv: "process_inv env L d p" and q: "lp_queue p = o1 # rest" and no: "\<And>c. \<not> cancels c o1"
  shows "process_inv env L d (p\<lparr>lp_queue := rest\<rparr>)"
proof (rule process_invI)
  note D = process_invD [OF inv]
  let ?p = "p\<lparr>lp_queue := rest\<rparr>"
  have g [simp]: "group_customs ?p = group_customs p" by (simp add: group_customs_def)
  show "distinct (group_customs ?p)" "distinct (queue_customs (lp_queue ?p))" using D(1,2) by (simp_all add: q)
  show "c \<notin> set (queue_customs (lp_queue ?p))" if "c \<in> set (group_customs ?p)" for c using D(3) [of c] that by (simp add: q)
  show "c \<notin> spent L d" if "c \<in> set (group_customs ?p) \<or> c \<in> set (queue_customs (lp_queue ?p))" for c
    using D(4,5) [of c] that by (auto simp: q)
  show "claim_ok d (snd w) (fst w)" if "w \<in> set (lp_waiters ?p)" for w using D(6) that by simp
  show "claim_ok d (fst m) (snd m)" if "o2 \<in> set (lp_queue ?p)" "m \<in> set (op_members o2)" for o2 m
    using D(7) [of o2 m] that by (simp add: q)
  show "\<exists>i. claim_ok d i c" if "c \<in> set (group_customs ?p)" for c using D(8) that by simp
  show "c \<in> fst ` set (lp_waiters ?p) \<or> (\<exists>o1 \<in> set (lp_queue ?p). cancels c o1)" if "c \<in> set (group_customs ?p)" for c
    using D(9) [of c] that no by (auto simp: q)
  fix xs o2 ys i assume "lp_queue ?p = xs @ o2 # ys" "plans env i o2"
  then have "plan_safe env d p (o1 # xs) i ys" using D(10) [of "o1 # xs" o2 ys i] q by simp
  then show "plan_safe env d ?p xs i ys" using no by (auto simp: plan_safe_def)
qed

lemma distinct_uncollect:
  "distinct (concat xss) \<Longrightarrow> distinct (concat (map (remove1 c) xss)) \<and> set (concat (map (remove1 c) xss)) = set (concat xss) - {c}"
proof (induction xss)
  case Nil
  then show ?case by simp
next
  case (Cons xs xss)
  then have d: "distinct xs" "distinct (concat xss)" "set xs \<inter> set (concat xss) = {}" by auto
  with Cons.IH d(1) show ?case by (auto simp: set_remove1_eq)
qed

lemma uncollect_simps [simp]:
  "lp_queue (uncollect c p) = lp_queue p" "lp_waiters (uncollect c p) = lp_waiters p"
  by (simp_all add: uncollect_def)

lemma process_inv_pop_cancel:
  assumes inv: "process_inv env L d p" and q: "lp_queue p = DoCancel i c # rest"
  shows "process_inv env L d (uncollect c (p\<lparr>lp_queue := rest\<rparr>))"
proof (rule process_invI)
  note D = process_invD [OF inv]
  let ?p = "uncollect c (p\<lparr>lp_queue := rest\<rparr>)"
  have g: "distinct (group_customs ?p)" "set (group_customs ?p) = set (group_customs p) - {c}"
    using distinct_uncollect [of "map cg_customs (lp_groups p)" c] D(1)
    by (simp_all add: group_customs_def uncollect_def comp_def)
  have q': "queue_customs (lp_queue p) = queue_customs rest" by (simp add: q op_members_def)
  show "distinct (group_customs ?p)" "distinct (queue_customs (lp_queue ?p))" using g D(2) q' by simp_all
  show "e \<notin> set (queue_customs (lp_queue ?p))" if "e \<in> set (group_customs ?p)" for e using D(3) [of e] that g q' by simp
  show "e \<notin> spent L d" if "e \<in> set (group_customs ?p) \<or> e \<in> set (queue_customs (lp_queue ?p))" for e
    using D(4,5) [of e] that g q' by auto
  show "claim_ok d (snd w) (fst w)" if "w \<in> set (lp_waiters ?p)" for w using D(6) that by simp
  show "claim_ok d (fst m) (snd m)" if "o2 \<in> set (lp_queue ?p)" "m \<in> set (op_members o2)" for o2 m
    using D(7) [of o2 m] that by (simp add: q)
  show "\<exists>i. claim_ok d i e" if "e \<in> set (group_customs ?p)" for e using D(8) that g by simp
  show "e \<in> fst ` set (lp_waiters ?p) \<or> (\<exists>o1 \<in> set (lp_queue ?p). cancels e o1)" if "e \<in> set (group_customs ?p)" for e
    using D(9) [of e] that g by (auto simp: q cancels_def)
  fix xs o2 ys j assume "lp_queue ?p = xs @ o2 # ys" "plans env j o2"
  then have "plan_safe env d p (DoCancel i c # xs) j ys" using D(10) [of "DoCancel i c # xs" o2 ys j] q by simp
  then show "plan_safe env d ?p xs j ys" using g by (auto simp: plan_safe_def cancels_def)
qed

section \<open>Changes of the waiters and the queue\<close>

lemma drop_waiters_simps [simp]:
  "lp_queue (drop_waiters cs p) = lp_queue p" "group_customs (drop_waiters cs p) = group_customs p"
  "set (lp_waiters (drop_waiters cs p)) = {w \<in> set (lp_waiters p). fst w \<notin> set cs}"
  by (auto simp: drop_waiters_def group_customs_def)

lemma process_inv_drop:
  assumes inv: "process_inv env L d p" and free: "\<And>c. c \<in> set cs \<Longrightarrow> c \<notin> set (group_customs p)"
  shows "process_inv env L d (drop_waiters cs p)"
proof (rule process_invI)
  note D = process_invD [OF inv]
  show "c \<in> fst ` set (lp_waiters (drop_waiters cs p)) \<or> (\<exists>o1 \<in> set (lp_queue (drop_waiters cs p)). cancels c o1)"
    if "c \<in> set (group_customs (drop_waiters cs p))" for c
    using D(9) [of c] free [of c] that by auto
  show "plan_safe env d (drop_waiters cs p) xs i ys" if "lp_queue (drop_waiters cs p) = xs @ o1 # ys" "plans env i o1" for xs o1 ys i
    using D(10) [of xs o1 ys i] that by (auto simp: plan_safe_def)
qed (use process_invD [OF inv] in auto)

lemma snoc_split:
  "q @ [o1] = xs @ o2 # ys \<Longrightarrow> (ys = [] \<and> xs = q \<and> o2 = o1) \<or> (\<exists>zs. ys = zs @ [o1] \<and> q = xs @ o2 # zs)"
  by (cases ys rule: rev_cases) auto

lemma process_inv_push:
  assumes inv: "process_inv env L d p" and o1: "op_members o1 = []" "\<And>i. \<not> plans env i o1"
  shows "process_inv env L d (p\<lparr>lp_queue := lp_queue p @ [o1]\<rparr>)"
proof (rule process_invI)
  note D = process_invD [OF inv]
  let ?p = "p\<lparr>lp_queue := lp_queue p @ [o1]\<rparr>"
  have g [simp]: "group_customs ?p = group_customs p" by (simp add: group_customs_def)
  have k [simp]: "queue_customs (lp_queue ?p) = queue_customs (lp_queue p)" using o1 by simp
  show "claim_ok d (fst m) (snd m)" if "o2 \<in> set (lp_queue ?p)" "m \<in> set (op_members o2)" for o2 m
    using D(7) [of o2 m] that o1 by auto
  show "c \<in> fst ` set (lp_waiters ?p) \<or> (\<exists>o1 \<in> set (lp_queue ?p). cancels c o1)" if "c \<in> set (group_customs ?p)" for c
    using D(9) [of c] that by auto
  show "plan_safe env d ?p xs i ys" if "lp_queue ?p = xs @ o2 # ys" "plans env i o2" for xs o2 ys i
  proof -
    from snoc_split [of "lp_queue p" o1 xs o2 ys] that o1 obtain zs where "ys = zs @ [o1]" "lp_queue p = xs @ o2 # zs" by auto
    with D(10) [of xs o2 zs i] that(2) o1 show ?thesis by (auto simp: plan_safe_def)
  qed
  show "distinct (group_customs ?p)" "distinct (queue_customs (lp_queue ?p))" using D(1,2) o1 by simp_all
  show "c \<notin> set (queue_customs (lp_queue ?p))" if "c \<in> set (group_customs ?p)" for c using D(3) that o1 by simp
  show "c \<notin> spent L d" if "c \<in> set (group_customs ?p) \<or> c \<in> set (queue_customs (lp_queue ?p))" for c using D(4,5) that o1 by auto
  show "claim_ok d (snd w) (fst w)" if "w \<in> set (lp_waiters ?p)" for w using D(6) that by simp
  show "\<exists>i. claim_ok d i c" if "c \<in> set (group_customs ?p)" for c using D(8) that by simp
qed

lemma process_inv_push_plan:
  assumes inv: "process_inv env L d p" and d: "durable_inv L d" and i: "le_item env (rq_activity rq) = i"
    and alone: "i \<notin> snd ` set (lp_waiters p)" "\<And>o1. o1 \<in> set (lp_queue p) \<Longrightarrow> \<not> plans env i o1"
  shows "process_inv env L d (p\<lparr>lp_queue := lp_queue p @ [DoPlan rq]\<rparr>)"
proof (rule process_invI)
  note D = process_invD [OF inv]
  let ?p = "p\<lparr>lp_queue := lp_queue p @ [DoPlan rq]\<rparr>"
  have g [simp]: "group_customs ?p = group_customs p" by (simp add: group_customs_def)
  have m [simp]: "op_members (DoPlan rq) = []" by (simp add: op_members_def)
  show "claim_ok d (fst m) (snd m)" if "o2 \<in> set (lp_queue ?p)" "m \<in> set (op_members o2)" for o2 m
    using D(7) [of o2 m] that by auto
  show "c \<in> fst ` set (lp_waiters ?p) \<or> (\<exists>o1 \<in> set (lp_queue ?p). cancels c o1)" if "c \<in> set (group_customs ?p)" for c
    using D(9) [of c] that by auto
  show "plan_safe env d ?p xs j ys" if "lp_queue ?p = xs @ o2 # ys" "plans env j o2" for xs o2 ys j
  proof -
    from that(1) snoc_split [of "lp_queue p" "DoPlan rq" xs o2 ys]
    consider "ys = []" "xs = lp_queue p" "o2 = DoPlan rq" | zs where "ys = zs @ [DoPlan rq]" "lp_queue p = xs @ o2 # zs" by auto
    then show ?thesis
    proof cases
      case 1
      then have j: "j = i" using that(2) i by (simp add: plans_def)
      have "\<exists>o1 \<in> set (lp_queue p). cancels c o1" if c: "c \<in> set (group_customs p)" "claim_ok d i c" for c
      proof -
        have "c \<notin> fst ` set (lp_waiters p)"
        proof
          assume "c \<in> fst ` set (lp_waiters p)"
          then obtain w where w: "w \<in> set (lp_waiters p)" "fst w = c" by auto
          then have "claim_ok d (snd w) c" using D(6) by blast
          with c(2) have "snd w = i" by (rule claim_unique [OF d, rotated])
          with w alone(1) show False by auto
        qed
        with D(9) [OF c(1)] show ?thesis by blast
      qed
      then show ?thesis using 1 j alone by (auto simp: plan_safe_def)
    next
      case 2
      have "o2 \<in> set (lp_queue p)" using 2(2) by simp
      then have "j \<noteq> i" using alone(2) that(2) by auto
      then have "\<not> plans env j (DoPlan rq)" using i by (simp add: plans_def)
      with D(10) [OF 2(2) that(2)] 2(1) show ?thesis by (auto simp: plan_safe_def)
    qed
  qed
  show "distinct (group_customs ?p)" "distinct (queue_customs (lp_queue ?p))" using D(1,2) by simp_all
  show "c \<notin> set (queue_customs (lp_queue ?p))" if "c \<in> set (group_customs ?p)" for c using D(3) that by simp
  show "c \<notin> spent L d" if "c \<in> set (group_customs ?p) \<or> c \<in> set (queue_customs (lp_queue ?p))" for c using D(4,5) that by auto
  show "claim_ok d (snd w) (fst w)" if "w \<in> set (lp_waiters ?p)" for w using D(6) that by simp
  show "\<exists>i. claim_ok d i c" if "c \<in> set (group_customs ?p)" for c using D(8) that by simp
qed

lemma process_inv_flights: "process_inv env L d p \<Longrightarrow> process_inv env L d (p\<lparr>lp_flights := f\<rparr>)"
  by (simp add: process_inv_def plan_safe_def)

lemma process_inv_wait:
  assumes inv: "process_inv env L d p" and claim: "claim_ok d i c" and new: "map_of (lp_waiters p) c = None"
    and alone: "\<And>o1. o1 \<in> set (lp_queue p) \<Longrightarrow> \<not> plans env i o1"
  shows "process_inv env L d (p\<lparr>lp_waiters := AList.update c i (lp_waiters p)\<rparr>)"
proof (rule process_invI)
  note D = process_invD [OF inv]
  have w: "set (AList.update c i (lp_waiters p)) = insert (c, i) (set (lp_waiters p))"
    using new by (simp add: map_fst_update_notin map_of_eq_None_iff)
  let ?p = "p\<lparr>lp_waiters := AList.update c i (lp_waiters p)\<rparr>"
  show "claim_ok d (snd v) (fst v)" if "v \<in> set (lp_waiters ?p)" for v using D(6) [of v] that claim by (auto simp: w)
  show "e \<in> fst ` set (lp_waiters ?p) \<or> (\<exists>o1 \<in> set (lp_queue ?p). cancels e o1)" if "e \<in> set (group_customs ?p)" for e
    using D(9) [of e] that by (auto simp: w)
  show "plan_safe env d ?p xs j ys" if "lp_queue ?p = xs @ o2 # ys" "plans env j o2" for xs o2 ys j
  proof -
    have "j \<noteq> i" using alone [of o2] that by auto
    with D(10) [of xs o2 ys j] that show ?thesis by (auto simp: plan_safe_def w)
  qed
qed (use process_invD [OF inv] in auto)

section \<open>Groups\<close>

lemma waiting_members_sub: "(i, c) \<in> set (waiting_members p cs) \<Longrightarrow> c \<in> set cs \<and> (c, i) \<in> set (lp_waiters p)"
  by (auto simp: waiting_members_def List.map_filter_def dest: map_of_SomeD)

lemma waiting_customs: "map snd (waiting_members p cs) = filter (\<lambda>c. map_of (lp_waiters p) c \<noteq> None) cs"
  by (induction cs) (auto simp: waiting_members_def map_filter_simps)

lemma distinct_concat_filter: "distinct (concat (map f gs)) \<Longrightarrow> distinct (concat (map f (filter P gs)))"
  by (induction gs) auto

lemma concat_filter_out:
  "distinct (concat (map f gs)) \<Longrightarrow> g \<in> set gs \<Longrightarrow> \<not> P g \<Longrightarrow>
     distinct (concat (map f (filter P gs)) @ f g) \<and> set (concat (map f (filter P gs))) \<subseteq> set (concat (map f gs))"
  by (induction gs) (auto simp: distinct_concat_filter)

lemma close_group_queue:
  "lp_queue (close_group env now g p) =
     (if waiting_members p (cg_customs g) = [] then lp_queue p
      else lp_queue p @ [DoFlush (prepared env now g (waiting_members p (cg_customs g)))])"
  "lp_waiters (close_group env now g p) = lp_waiters p"
  "lp_groups (close_group env now g p) = filter (\<lambda>h. \<not> (cg_endpoint h = cg_endpoint g \<and> cg_model h = cg_model g)) (lp_groups p)"
  by (simp_all add: close_group_def Let_def)

lemma process_inv_close:
  assumes inv: "process_inv env L d p" and g: "g \<in> set (lp_groups p)"
  shows "process_inv env L d (close_group env now g p)"
proof (rule process_invI)
  note D = process_invD [OF inv]
  let ?p = "close_group env now g p" and ?ms = "waiting_members p (cg_customs g)"
  let ?keep = "\<lambda>h. \<not> (cg_endpoint h = cg_endpoint g \<and> cg_model h = cg_model g)"
  have out: "distinct (group_customs ?p @ cg_customs g)" "set (group_customs ?p) \<subseteq> set (group_customs p)"
    using concat_filter_out [of cg_customs "lp_groups p" g ?keep] D(1) g
    by (simp_all add: group_customs_def close_group_queue)
  have gp: "set (cg_customs g) \<subseteq> set (group_customs p)" using g by (auto simp: group_customs_def)
  have members: "op_members (DoFlush (prepared env now g ?ms)) = ?ms" by (simp add: op_members_def prepared_def Let_def)
  have qc: "queue_customs (lp_queue ?p) = queue_customs (lp_queue p) @ map snd ?ms"
    by (simp add: close_group_queue members)
  have ms: "set (map snd ?ms) \<subseteq> set (cg_customs g)" "distinct (map snd ?ms)"
    using out(1) unfolding waiting_customs by auto
  show "distinct (group_customs ?p)" using out(1) by simp
  show "distinct (queue_customs (lp_queue ?p))" unfolding qc using D(2) ms gp D(3) by fastforce
  show "c \<notin> set (queue_customs (lp_queue ?p))" if "c \<in> set (group_customs ?p)" for c
    unfolding qc using D(3) [of c] that out ms(1) by (auto simp: disjoint_iff)
  show "c \<notin> spent L d" if "c \<in> set (group_customs ?p) \<or> c \<in> set (queue_customs (lp_queue ?p))" for c
    using that D(4,5) [of c] out(2) ms(1) gp unfolding qc by auto
  show "claim_ok d (snd w) (fst w)" if "w \<in> set (lp_waiters ?p)" for w using D(6) that by (simp add: close_group_queue)
  show "claim_ok d (fst m) (snd m)" if "o2 \<in> set (lp_queue ?p)" "m \<in> set (op_members o2)" for o2 m
  proof (cases "o2 \<in> set (lp_queue p)")
    case True
    then show ?thesis using D(7) that(2) by simp
  next
    case False
    with that(1) have "o2 = DoFlush (prepared env now g ?ms)" by (auto simp: close_group_queue split: if_splits)
    with that(2) have "m \<in> set ?ms" by (simp add: members)
    then have "(snd m, fst m) \<in> set (lp_waiters p)" using waiting_members_sub [of "fst m" "snd m"] by simp
    from D(6) [OF this] show ?thesis by simp
  qed
  show "\<exists>i. claim_ok d i c" if "c \<in> set (group_customs ?p)" for c using D(8) that out(2) by auto
  show "c \<in> fst ` set (lp_waiters ?p) \<or> (\<exists>o1 \<in> set (lp_queue ?p). cancels c o1)" if "c \<in> set (group_customs ?p)" for c
    using D(9) [of c] that out(2) by (auto simp: close_group_queue)
  show "plan_safe env d ?p xs i ys" if q: "lp_queue ?p = xs @ o2 # ys" "plans env i o2" for xs o2 ys i
  proof (cases "?ms = []")
    case True
    then have "lp_queue p = xs @ o2 # ys" using q(1) by (simp add: close_group_queue)
    from D(10) [OF this q(2)] show ?thesis using out(2) by (auto simp: plan_safe_def close_group_queue)
  next
    case False
    let ?f = "DoFlush (prepared env now g ?ms)"
    have "lp_queue p @ [?f] = xs @ o2 # ys" using q(1) False by (simp add: close_group_queue)
    from snoc_split [OF this] q(2) obtain zs where zs: "ys = zs @ [?f]" "lp_queue p = xs @ o2 # zs"
      by (auto simp: plans_def)
    from D(10) [OF zs(2) q(2)] have safe: "plan_safe env d p xs i zs" .
    have "i \<notin> fst ` set ?ms"
    proof
      assume "i \<in> fst ` set ?ms"
      then obtain c where "(i, c) \<in> set ?ms" by auto
      then have "(c, i) \<in> set (lp_waiters p)" using waiting_members_sub by blast
      then have "i \<in> snd ` set (lp_waiters p)" by (rule rev_image_eqI) simp
      with safe show False by (simp add: plan_safe_def)
    qed
    then show ?thesis using safe out(2) zs(1) by (auto simp: plan_safe_def close_group_queue members plans_def)
  qed
qed

text \<open>Adding an attempt to its group: the group is new, or replaces the old one of the same key.\<close>

lemma process_inv_collect:
  assumes inv: "process_inv env L d p" and c: "c \<notin> set (group_customs p)" "c \<notin> set (queue_customs (lp_queue p))" "c \<notin> spent L d"
    and claim: "claim_ok d i c" and waits: "c \<in> fst ` set (lp_waiters p)" and d: "durable_inv L d"
    and alone: "\<And>o1. o1 \<in> set (lp_queue p) \<Longrightarrow> \<not> plans env i o1"
    and q: "lp_queue q = lp_queue p" "lp_waiters q = lp_waiters p"
    and gq: "distinct (group_customs q)" "set (group_customs q) \<subseteq> insert c (set (group_customs p))"
  shows "process_inv env L d q"
proof (rule process_invI)
  note D = process_invD [OF inv]
  show "distinct (group_customs q)" by (rule gq(1))
  show "distinct (queue_customs (lp_queue q))" using D(2) by (simp add: q)
  show "e \<notin> set (queue_customs (lp_queue q))" if "e \<in> set (group_customs q)" for e using D(3) [of e] that gq(2) c q by auto
  show "e \<notin> spent L d" if "e \<in> set (group_customs q) \<or> e \<in> set (queue_customs (lp_queue q))" for e
    using that D(4,5) [of e] c gq(2) q by auto
  show "claim_ok d (snd w) (fst w)" if "w \<in> set (lp_waiters q)" for w using D(6) that q by simp
  show "claim_ok d (fst m) (snd m)" if "o2 \<in> set (lp_queue q)" "m \<in> set (op_members o2)" for o2 m using D(7) that q by simp
  show "\<exists>i. claim_ok d i e" if "e \<in> set (group_customs q)" for e using D(8) [of e] that gq(2) claim by auto
  show "e \<in> fst ` set (lp_waiters q) \<or> (\<exists>o1 \<in> set (lp_queue q). cancels e o1)" if "e \<in> set (group_customs q)" for e
    using D(9) [of e] that gq(2) waits q by auto
  show "plan_safe env d q xs j ys" if "lp_queue q = xs @ o2 # ys" "plans env j o2" for xs o2 ys j
  proof -
    have "lp_queue p = xs @ o2 # ys" using that(1) q by simp
    from D(10) [OF this that(2)] have safe: "plan_safe env d p xs j ys" .
    have "j \<noteq> i" using alone [of o2] that q by auto
    then have "\<not> claim_ok d j c" using claim_unique [OF d claim] by auto
    then show ?thesis using safe gq(2) q by (auto simp: plan_safe_def)
  qed
qed

lemma process_inv_enqueue:
  assumes inv: "process_inv env L d p" and c: "c \<notin> set (group_customs p)" "c \<notin> set (queue_customs (lp_queue p))" "c \<notin> spent L d"
    and claim: "claim_ok d i c" and waits: "c \<in> fst ` set (lp_waiters p)" and d: "durable_inv L d"
    and alone: "\<And>o1. o1 \<in> set (lp_queue p) \<Longrightarrow> \<not> plans env i o1"
  shows "process_inv env L d (enqueue env now rq c p)"
proof -
  note D = process_invD [OF inv]
  define g where "g = (case find (in_group rq) (lp_groups p) of Some h \<Rightarrow> h
    | None \<Rightarrow> \<lparr>cg_endpoint = rq_endpoint rq, cg_model = rq_model rq, cg_settings = rq_settings rq, cg_customs = []\<rparr>)"
  define h where "h = g\<lparr>cg_customs := cg_customs g @ [c]\<rparr>"
  define q where "q = p\<lparr>lp_groups := filter (\<lambda>k. \<not> in_group rq k) (lp_groups p) @ [h]\<rparr>"
  have old: "distinct (concat (map cg_customs (filter (\<lambda>k. \<not> in_group rq k) (lp_groups p))) @ cg_customs g)
    \<and> set (concat (map cg_customs (filter (\<lambda>k. \<not> in_group rq k) (lp_groups p))) @ cg_customs g) \<subseteq> set (group_customs p)"
  proof (cases "find (in_group rq) (lp_groups p)")
    case None
    then have "filter (\<lambda>k. \<not> in_group rq k) (lp_groups p) = lp_groups p" by (auto simp: find_None_iff filter_id_conv)
    then show ?thesis using D(1) None by (simp add: g_def group_customs_def)
  next
    case (Some k)
    then have k: "k \<in> set (lp_groups p)" "in_group rq k" by (auto simp: find_Some_iff)
    then have "g = k" using Some by (simp add: g_def)
    with concat_filter_out [of cg_customs "lp_groups p" k "\<lambda>k. \<not> in_group rq k"] D(1) k show ?thesis
      by (auto simp: group_customs_def)
  qed
  have "process_inv env L d q"
    by (rule process_inv_collect [OF inv c claim waits d alone])
      (use old c(1) in \<open>auto simp: q_def h_def group_customs_def\<close>)
  moreover have "h \<in> set (lp_groups q)" by (simp add: q_def)
  ultimately have "process_inv env L d (close_group env now h q)" by (rule process_inv_close)
  with \<open>process_inv env L d q\<close> show ?thesis by (simp add: enqueue_def Let_def g_def [symmetric] h_def [symmetric] q_def [symmetric])
qed

section \<open>Steps\<close>

definition sent_customs :: "lane \<Rightarrow> string set" where
  "sent_customs st = set (concat (lx_sent st))"

definition lane_inv :: "lane_env \<Rightarrow> lane \<Rightarrow> bool" where
  "lane_inv env st \<longleftrightarrow> durable_inv (sent_customs st) (lx_durable st)
     \<and> process_inv env (sent_customs st) (lx_durable st) (lx_process st) \<and> distinct (concat (lx_sent st))"

text \<open>
  An orderly event: a caller executes an item only while nobody else does, and the saves of a flush are not cut
  in the middle. Nothing is asked of any other event.
\<close>

definition flush_saves_of :: "lane_env \<Rightarrow> int \<Rightarrow> lane \<Rightarrow> nat option" where
  "flush_saves_of env now st =
     (case lp_queue (lx_process st) of
        DoFlush x # rest \<Rightarrow> Some (length (fst (flush_block now x (lx_durable st))))
      | _ \<Rightarrow> None)"

definition orderly :: "lane_env \<Rightarrow> lane \<Rightarrow> lane_event \<Rightarrow> bool" where
  "orderly env st ev \<longleftrightarrow>
     (case ev of
        Execute rq \<Rightarrow> (let i = le_item env (rq_activity rq) in
          i \<notin> snd ` set (lp_waiters (lx_process st)) \<and> (\<forall>o1 \<in> set (lp_queue (lx_process st)). \<not> plans env i o1))
      | FaultNext now k \<Rightarrow> (case flush_saves_of env now st of None \<Rightarrow> True | Some n \<Rightarrow> k = 0 \<or> n \<le> k)
      | CrashNow now k \<Rightarrow> (case flush_saves_of env now st of None \<Rightarrow> True | Some n \<Rightarrow> k = 0 \<or> n \<le> k)
      | _ \<Rightarrow> True)"

inductive lane_reachable :: "lane_env \<Rightarrow> budget \<Rightarrow> lane \<Rightarrow> bool" for env b where
  Start: "lane_reachable env b (new_lane b)"
| Step: "lane_reachable env b st \<Longrightarrow> orderly env st ev \<Longrightarrow> lane_step env ev st = Some st' \<Longrightarrow> lane_reachable env b st'"

definition op_section :: "lane_env \<Rightarrow> int \<Rightarrow> lane_op \<Rightarrow> lane_process \<Rightarrow> unit block" where
  "op_section env now o1 p =
     (case o1 of
        DoPlan rq \<Rightarrow> unit_of (plan_item env rq)
      | DoCancel i c \<Rightarrow> cancel_block i c (still_collected p c)
      | DoFlush x \<Rightarrow> unit_of (flush_block now x)
      | DoAccepted s job \<Rightarrow> unit_of (accepted_block now s job)
      | DoRefused s f \<Rightarrow> unit_of (refused_block s f)
      | DoUncertain s f \<Rightarrow> unit_of (uncertain_block s f)
      | DoReconciled s l \<Rightarrow> unit_of (reconciled_block now s l)
      | DoPolled s status \<Rightarrow> unit_of (polled_block now s status)
      | DoCollect s status jf rs \<Rightarrow> unit_of (collect_block now s status jf rs)
      | DoAbandon s \<Rightarrow> unit_of (abandon_unsent s)
      | DoResolve s v dec who status \<Rightarrow> unit_of (resolve_block env now s v dec who status)
      | DoRequestCancel s reason \<Rightarrow> unit_of (request_cancel_block now s reason)
      | DoCancelFailed s msg \<Rightarrow> unit_of (cancel_failed_block s msg))"

lemma keeps_unit: "keeps P b (\<lambda>_. durable_inv L) \<Longrightarrow> keeps P (unit_of b) (\<lambda>_. durable_inv L)"
  unfolding unit_of_def by (auto intro: keeps_seq keeps_give)

lemma keeps_section:
  assumes "\<And>rq. o1 \<noteq> DoPlan rq" "\<And>x. o1 \<noteq> DoFlush x"
  shows "keeps (durable_inv L) (op_section env now o1 p) (\<lambda>_. durable_inv L)"
  using assms
  by (cases o1) (auto simp: op_section_def intro!: keeps_unit keeps_cancel keeps_accepted keeps_refused keeps_uncertain keeps_reconciled
    keeps_polled keeps_collect keeps_abandon keeps_resolve keeps_request_cancel keeps_cancel_failed)

lemma unit_of_saves [simp]: "fst (unit_of b d) = fst (b d)"
  by (auto simp: unit_of_def seq_def give_def split: prod.split sum.split)

lemma run_op_saves: "fst (run_op env now o1 p d) = fst (op_section env now o1 p d)"
  by (cases o1) (auto simp: run_op_def op_section_def Let_def split: prod.split sum.split dest: arg_cong [where f = fst])

text \<open>What a section with no plan and no flush leaves of the process.\<close>

lemma run_op_plain:
  assumes "\<And>rq. o1 \<noteq> DoPlan rq" "\<And>x. o1 \<noteq> DoFlush x" "run_op env now o1 p d = (ws, Inr (p', sent))"
  shows "p' = failed_op o1 p \<and> sent = []"
  using assms by (cases o1) (auto simp: run_op_def failed_op_def Let_def split: prod.splits sum.splits)

lemma failed_inv:
  assumes inv: "process_inv env L d p" and q: "lp_queue p = o1 # rest"
  shows "process_inv env L d (failed_op o1 (p\<lparr>lp_queue := rest\<rparr>))"
proof (cases o1)
  case (DoCancel i c)
  then show ?thesis using process_inv_pop_cancel [OF inv] q by (simp add: failed_op_def)
next
  case (DoFlush x)
  have "process_inv env L d (p\<lparr>lp_queue := rest\<rparr>)"
    by (rule process_inv_pop [OF inv q]) (simp add: DoFlush cancels_def)
  moreover have "c \<notin> set (group_customs p)" if "c \<in> set (map snd (su_members x))" for c
    using process_invD(3) [OF inv, of c] that by (auto simp: q DoFlush op_members_def)
  ultimately show ?thesis by (auto simp: failed_op_def DoFlush intro!: process_inv_drop)
qed (use process_inv_pop [OF inv q] in \<open>auto simp: failed_op_def cancels_def\<close>)

text \<open>A section that is not a flush is safe to stop anywhere.\<close>

lemma section_safe:
  assumes "durable_inv L d" "\<And>x. o1 \<noteq> DoFlush x"
  shows "safe_saves L d (fst (run_op env now o1 p d))"
proof (cases "\<exists>rq. o1 = DoPlan rq")
  case True
  then obtain rq where "o1 = DoPlan rq" by auto
  then show ?thesis using plan_well [OF assms(1), of env rq] by (simp add: run_op_saves op_section_def planned_well_def)
next
  case False
  then show ?thesis unfolding run_op_saves
    by (intro gentle_safe assms(1) keepsD [OF keeps_section]) (use assms in auto)
qed

lemma process_inv_safe:
  assumes "process_inv env L d p" "safe_saves L d ws"
  shows "process_inv env L (applied (take k ws) d) p"
proof (rule process_inv_durable [OF assms(1) safe_savesD(1,3) [OF assms(2)]])
  fix c assume "c \<in> set (group_customs p) \<or> c \<in> set (queue_customs (lp_queue p))"
  then have "c \<notin> spent L d" using process_invD(4,5) [OF assms(1)] by blast
  then show "c \<notin> spent L (applied (take k ws) d)" using safe_savesD(2) [OF assms(2)] by (simp add: spent_def)
qed

lemma durable_inv_mono:
  assumes "durable_inv (L \<union> K) d" shows "durable_inv L d"
proof -
  have "spent L d \<subseteq> spent (L \<union> K) d" by (auto simp: spent_def)
  with assms show ?thesis unfolding durable_inv_def item_ok_def by blast
qed

lemma planned_inv:
  assumes inv: "process_inv env L d p" and q: "lp_queue p = DoPlan rq # rest" and d: "durable_inv L d"
    and ok: "plan_ok L d (le_item env (rq_activity rq)) pl"
  shows "process_inv env L d (planned env now rq pl (p\<lparr>lp_queue := rest\<rparr>))"
proof -
  let ?i = "le_item env (rq_activity rq)" and ?p = "p\<lparr>lp_queue := rest\<rparr>"
  have pop: "process_inv env L d ?p" by (rule process_inv_pop [OF inv q]) (simp add: cancels_def)
  have safe: "plan_safe env d p [] ?i rest"
    using process_invD(10) [OF inv, of "[]" "DoPlan rq" rest ?i] q by (simp add: plans_def)
  then have alone: "\<not> plans env ?i o1" if "o1 \<in> set (lp_queue ?p)" for o1 using that by (simp add: plan_safe_def)
  have wait: "process_inv env L d (?p\<lparr>lp_waiters := AList.update c ?i (lp_waiters ?p)\<rparr>)"
    if "claim_ok d ?i c" "map_of (lp_waiters p) c = None" for c
    by (rule process_inv_wait [OF pop that(1) _ alone]) (use that in simp)
  show ?thesis
  proof (cases pl)
    case (Enqueue a)
    let ?c = "at_custom a"
    have claim: "claim_ok d ?i ?c" and free: "?c \<notin> spent L d" using ok by (simp_all add: Enqueue plan_ok_def)
    show ?thesis
    proof (cases "map_of (lp_waiters p) ?c")
      case None
      let ?q = "?p\<lparr>lp_waiters := AList.update ?c ?i (lp_waiters ?p)\<rparr>"
      have "?c \<notin> set (group_customs ?q)" using safe claim by (auto simp: plan_safe_def)
      moreover have "?c \<notin> set (queue_customs (lp_queue ?q))"
      proof
        assume "?c \<in> set (queue_customs (lp_queue ?q))"
        then obtain o1 m where o1: "o1 \<in> set rest" "m \<in> set (op_members o1)" "snd m = ?c" by (auto simp: queue_customs_def)
        then have "claim_ok d (fst m) ?c" using process_invD(7) [OF inv, of o1 m] q by simp
        with claim have "fst m = ?i" by (rule claim_unique [OF d, rotated])
        with safe o1(1,2) show False by (force simp: plan_safe_def)
      qed
      moreover have "?c \<in> fst ` set (lp_waiters ?q)" by simp
      ultimately have "process_inv env L d (enqueue env now rq ?c ?q)"
        using wait [OF claim None] free claim d alone by (intro process_inv_enqueue [where i = ?i]) simp_all
      then show ?thesis using None by (simp add: planned_def Enqueue Let_def)
    qed (use pop in \<open>auto simp: planned_def Enqueue Let_def\<close>)
  next
    case (Attach a s)
    then show ?thesis using ok pop wait [of "at_custom a"]
      by (cases "map_of (lp_waiters p) (at_custom a)") (auto simp: planned_def Let_def plan_ok_def)
  next
    case (Reconcile a s)
    then show ?thesis using ok pop wait [of "at_custom a"]
      by (cases "map_of (lp_waiters p) (at_custom a)") (auto simp: planned_def Let_def plan_ok_def)
  qed (use pop in \<open>simp add: planned_def Let_def\<close>)
qed

lemma flush_parts:
  assumes inv: "process_inv env L d p" and q: "lp_queue p = DoFlush x # rest" and d: "durable_inv L d"
    and k: "k = 0 \<or> length (fst (flush_block now x d)) \<le> k"
  shows "durable_inv L (applied (take k (fst (flush_block now x d))) d)"
    "k = 0 \<Longrightarrow> applied (take k (fst (flush_block now x d))) d = d"
proof -
  have claims: "claim_ok d i c" if "(i, c) \<in> set (su_members x)" for i c
    using process_invD(7) [OF inv, of "DoFlush x" "(i, c)"] that by (simp add: q op_members_def)
  show "durable_inv L (applied (take k (fst (flush_block now x d))) d)"
    using k d durable_inv_mono [OF flush_inv(1) [OF d claims HOL.refl]] by auto
  show "k = 0 \<Longrightarrow> applied (take k (fst (flush_block now x d))) d = d" by simp
qed

lemma flush_done:
  assumes inv: "process_inv env L d p" and q: "lp_queue p = DoFlush x # rest" and d: "durable_inv L d"
    and run: "flush_block now x d = (ws, r)"
  shows "\<exists>y. r = Inr y" "durable_inv (L \<union> set (map snd (su_members x))) (applied ws d)"
    "process_inv env (L \<union> set (map snd (su_members x))) (applied ws d) (p\<lparr>lp_queue := rest\<rparr>)"
    "distinct (map snd (su_members x))" "set (map snd (su_members x)) \<inter> L = {}"
proof -
  let ?cs = "set (map snd (su_members x))"
  have claims: "claim_ok d i c" if "(i, c) \<in> set (su_members x)" for i c
    using process_invD(7) [OF inv, of "DoFlush x" "(i, c)"] that by (simp add: q op_members_def)
  note F = flush_inv [OF d claims, of x now, OF _ arg_cong [OF run, of fst, simplified]]
  show "\<exists>y. r = Inr y" using flush_saves [OF d claims, of x now] run by auto
  show d': "durable_inv (L \<union> ?cs) (applied ws d)" by (rule F(1))
  have members: "map snd (op_members (DoFlush x)) = map snd (su_members x)" by (simp add: op_members_def)
  show "distinct (map snd (su_members x))" using process_invD(2) [OF inv] by (simp add: q op_members_def)
  show "?cs \<inter> L = {}" using process_invD(5) [OF inv] by (auto simp: q op_members_def spent_def)
  have pop: "process_inv env L d (p\<lparr>lp_queue := rest\<rparr>)" by (rule process_inv_pop [OF inv q]) (simp add: cancels_def)
  show "process_inv env (L \<union> ?cs) (applied ws d) (p\<lparr>lp_queue := rest\<rparr>)"
  proof (rule process_inv_durable [OF pop d' F(3)])
    fix c assume c: "c \<in> set (group_customs (p\<lparr>lp_queue := rest\<rparr>)) \<or> c \<in> set (queue_customs (lp_queue (p\<lparr>lp_queue := rest\<rparr>)))"
    then have "c \<notin> spent L d" using process_invD(4,5) [OF pop] by blast
    moreover have "c \<notin> ?cs"
      using c process_invD(2) [OF inv] process_invD(3) [OF inv, of c] by (auto simp: q op_members_def)
    ultimately show "c \<notin> spent (L \<union> ?cs) (applied ws d)" using F(2) by (auto simp: spent_def)
  qed
qed

lemma lane_inv_push:
  assumes "lane_inv env st" "op_members o1 = []" "\<And>i. \<not> plans env i o1"
  shows "lane_inv env (push o1 st)"
  using assms by (simp add: lane_inv_def push_def sent_customs_def process_inv_push)

lemma lane_inv_process:
  assumes "lane_inv env st" "process_inv env (sent_customs st) (lx_durable st) p"
  shows "lane_inv env (st\<lparr>lx_process := p\<rparr>)"
  using assms by (simp add: lane_inv_def sent_customs_def)

lemma lane_inv_durable:
  assumes "lane_inv env st" "durable_inv (sent_customs st) d" "process_inv env (sent_customs st) d p"
  shows "lane_inv env (st\<lparr>lx_durable := d, lx_process := p\<rparr>)"
  using assms by (simp add: lane_inv_def sent_customs_def)

lemma stored_not_collected:
  assumes "process_inv env L d p" "in_submission d c"
  shows "c \<notin> set (group_customs p)"
proof -
  from assms(2) obtain s x where "submission_at d s = Some x" "c \<in> set (map snd (su_members x))"
    by (auto simp: in_submission_def list_ex_iff submission_at_def split: option.splits)
  from stored_customsI [OF this] have "c \<in> spent L d" by (simp add: spent_def)
  then show ?thesis using process_invD(4) [OF assms(1)] by blast
qed

text \<open>The head of the queue runs.\<close>

lemma run_next_inv:
  assumes inv: "lane_inv env st" and q: "lp_queue (lx_process st) = o1 # rest" and step: "lane_step env (RunNext now) st = Some st'"
  shows "lane_inv env st'"
proof -
  let ?L = "sent_customs st" and ?d = "lx_durable st" and ?p = "lx_process st"
  let ?q = "?p\<lparr>lp_queue := rest\<rparr>"
  from inv have I: "durable_inv ?L ?d" "process_inv env ?L ?d ?p" "distinct (concat (lx_sent st))" by (simp_all add: lane_inv_def)
  obtain ws r where run: "run_op env now o1 ?q ?d = (ws, r)" by (metis surj_pair)
  show ?thesis
  proof (cases "\<exists>x. o1 = DoFlush x")
    case True
    then obtain x where x: "o1 = DoFlush x" by auto
    obtain vs t where flush: "flush_block now x ?d = (vs, t)" by (metis surj_pair)
    note F = flush_done [OF I(2) q [unfolded x] I(1) flush]
    from F(1) obtain y where y: "t = Inr y" by auto
    have st': "st' = st\<lparr>lx_durable := applied vs ?d, lx_process := ?q\<lparr>lp_flights := lp_flights ?q @ [su_id x]\<rparr>,
        lx_sent := lx_sent st @ [map snd (su_members x)]\<rparr>"
      using step by (simp add: lane_step_def Let_def q x run_op_def flush y)
    have L: "sent_customs st' = ?L \<union> set (map snd (su_members x))" by (simp add: st' sent_customs_def)
    show ?thesis unfolding lane_inv_def L
      using F(2) process_inv_flights [OF F(3)] F(4,5) I(3) by (auto simp: st' sent_customs_def)
  next
    case False
    then have safe: "safe_saves ?L ?d ws" using section_safe [OF I(1), of o1 env now ?q] by (simp add: run)
    have d': "durable_inv ?L (applied ws ?d)" using safe_savesD(1) [OF safe, of "length ws"] by simp
    have p': "process_inv env ?L (applied ws ?d) ?p" using process_inv_safe [OF I(2) safe, of "length ws"] by simp
    note fail = failed_inv [OF p' q]
    show ?thesis
    proof (cases r)
      case (Inl e)
      then have "st' = st\<lparr>lx_durable := applied ws ?d, lx_process := failed_op o1 ?q\<rparr>"
        using step by (simp add: lane_step_def Let_def q run)
      then show ?thesis using lane_inv_durable [OF inv d' fail] by simp
    next
      case (Inr ps)
      obtain p2 sent where ps: "ps = (p2, sent)" by (cases ps)
      have st': "st' = st\<lparr>lx_durable := applied ws ?d, lx_process := p2, lx_sent := lx_sent st @ sent\<rparr>"
        using step by (simp add: lane_step_def Let_def q run Inr ps)
      have "sent = [] \<and> process_inv env ?L (applied ws ?d) p2"
      proof (cases "\<exists>rq. o1 = DoPlan rq")
        case True
        then obtain rq where rq: "o1 = DoPlan rq" by auto
        with run Inr ps obtain pl where pl: "plan_item env rq ?d = (ws, Inr pl)" "p2 = planned env now rq pl ?q" "sent = []"
          by (auto simp: run_op_def Let_def split: prod.splits sum.splits)
        have "plan_ok ?L (applied ws ?d) (le_item env (rq_activity rq)) pl"
          using plan_well [OF I(1), of env rq] pl(1) by (simp add: planned_well_def)
        from planned_inv [OF p' q [unfolded rq] d' this] pl(2,3) show ?thesis by simp
      next
        case False
        with run_op_plain [of o1 env now ?q ?d ws p2 sent] \<open>\<not> (\<exists>x. o1 = DoFlush x)\<close> run Inr ps
        have "p2 = failed_op o1 ?q \<and> sent = []" by auto
        with fail show ?thesis by simp
      qed
      then show ?thesis using inv d' by (simp add: lane_inv_def st' sent_customs_def)
    qed
  qed
qed

lemma cut_inv:
  assumes inv: "lane_inv env st" and q: "lp_queue (lx_process st) = o1 # rest"
    and k: "\<And>x. o1 = DoFlush x \<Longrightarrow> k = 0 \<or> length (fst (flush_block now x (lx_durable st))) \<le> k"
  shows "durable_inv (sent_customs st)
    (applied (take k (fst (run_op env now o1 (lx_process st\<lparr>lp_queue := rest\<rparr>) (lx_durable st)))) (lx_durable st))"
proof -
  from inv have I: "durable_inv (sent_customs st) (lx_durable st)" "process_inv env (sent_customs st) (lx_durable st) (lx_process st)"
    by (simp_all add: lane_inv_def)
  show ?thesis
  proof (cases "\<exists>x. o1 = DoFlush x")
    case True
    then obtain x where x: "o1 = DoFlush x" by auto
    with flush_parts(1) [OF I(2) q [unfolded x] I(1)] k show ?thesis by (simp add: run_op_saves op_section_def)
  next
    case False
    then show ?thesis by (intro safe_savesD(1) section_safe I(1)) auto
  qed
qed

lemma lane_step_inv:
  assumes inv: "lane_inv env st" and ord: "orderly env st ev" and step: "lane_step env ev st = Some st'"
  shows "lane_inv env st'"
proof -
  let ?L = "sent_customs st" and ?d = "lx_durable st" and ?p = "lx_process st"
  from inv have I: "durable_inv ?L ?d" "process_inv env ?L ?d ?p" by (simp_all add: lane_inv_def)
  show ?thesis
  proof (cases ev)
    case (Execute rq)
    have "process_inv env ?L ?d (?p\<lparr>lp_queue := lp_queue ?p @ [DoPlan rq]\<rparr>)"
      by (rule process_inv_push_plan [OF I(2,1) HOL.refl]) (use ord Execute in \<open>auto simp: orderly_def Let_def\<close>)
    then show ?thesis using step inv Execute
      by (auto simp: lane_step_def Let_def push_def lane_inv_process split: sum.splits)
  next
    case (AbortItem c)
    show ?thesis
    proof (cases "map_of (lp_waiters ?p) c")
      case None
      then show ?thesis using step inv AbortItem by (simp add: lane_step_def Let_def)
    next
      case (Some i)
      have "process_inv env ?L ?d (?p\<lparr>lp_queue := lp_queue ?p @ [DoCancel i c]\<rparr>)"
        by (rule process_inv_push [OF I(2)]) (simp_all add: op_members_def plans_def)
      moreover have "process_inv env ?L ?d ((drop_waiters [c] ?p)\<lparr>lp_queue := lp_queue ?p @ [DoCancel i c]\<rparr>)"
        if P: "process_inv env ?L ?d (?p\<lparr>lp_queue := lp_queue ?p @ [DoCancel i c]\<rparr>)"
      proof (rule process_invI)
        note D = process_invD [OF P]
        let ?p2 = "(drop_waiters [c] ?p)\<lparr>lp_queue := lp_queue ?p @ [DoCancel i c]\<rparr>"
        show "e \<in> fst ` set (lp_waiters ?p2) \<or> (\<exists>o1 \<in> set (lp_queue ?p2). cancels e o1)" if "e \<in> set (group_customs ?p2)" for e
          using D(9) [of e] that by (cases "e = c") (auto simp: cancels_def)
        show "plan_safe env ?d ?p2 xs j ys" if "lp_queue ?p2 = xs @ o2 # ys" "plans env j o2" for xs o2 ys j
          using D(10) [of xs o2 ys j] that by (auto simp: plan_safe_def)
      qed (use process_invD [OF P] in auto)
      ultimately show ?thesis using step inv AbortItem Some
        by (auto simp: lane_step_def Let_def push_def lane_inv_process)
    qed
  next
    case (WindowCloses now e m)
    with step obtain g where g: "find (\<lambda>g. cg_endpoint g = e \<and> cg_model g = m) (lp_groups ?p) = Some g"
      "st' = st\<lparr>lx_process := close_group env now g ?p\<rparr>"
      by (auto simp: lane_step_def Let_def split: option.splits)
    then have "g \<in> set (lp_groups ?p)" by (auto simp: find_Some_iff)
    from process_inv_close [OF I(2) this] show ?thesis by (simp add: g(2) lane_inv_process [OF inv])
  next
    case (Acknowledge s answer no)
    let ?st = "st\<lparr>lx_process := ?p\<lparr>lp_flights := remove1 s (lp_flights ?p)\<rparr>\<rparr>"
    have "lane_inv env ?st" by (rule lane_inv_process [OF inv process_inv_flights [OF I(2)]])
    then have "lane_inv env (push (acknowledged s answer no) ?st)"
      by (rule lane_inv_push) (auto simp: acknowledged_def op_members_def plans_def split: sum.split)
    then show ?thesis using step Acknowledge by (auto simp: lane_step_def Let_def split: if_splits)
  next
    case (Observe o1)
    then have o1: "observation o1" "st' = push o1 st" using step by (auto simp: lane_step_def Let_def split: if_splits)
    show ?thesis unfolding o1(2)
      by (rule lane_inv_push [OF inv]) (use o1(1) in \<open>cases o1; simp add: op_members_def plans_def\<close>)+
  next
    case (Answer c)
    then have c: "in_submission ?d c" "st' = st\<lparr>lx_process := drop_waiters [c] ?p\<rparr>"
      using step by (auto simp: lane_step_def Let_def split: if_splits)
    have "process_inv env ?L ?d (drop_waiters [c] ?p)"
      by (rule process_inv_drop [OF I(2)]) (use stored_not_collected [OF I(2) c(1)] in simp)
    then show ?thesis by (simp add: c(2) lane_inv_process [OF inv])
  next
    case (RunNext now)
    with step obtain o1 rest where q: "lp_queue ?p = o1 # rest" by (auto simp: lane_step_def Let_def split: list.splits)
    show ?thesis by (rule run_next_inv [OF inv q]) (use step RunNext in simp)
  next
    case (FaultNext now k)
    with step obtain o1 rest where q: "lp_queue ?p = o1 # rest" by (auto simp: lane_step_def Let_def split: list.splits)
    let ?q = "?p\<lparr>lp_queue := rest\<rparr>"
    let ?ws = "fst (run_op env now o1 ?q ?d)"
    from step FaultNext q have k: "k < length ?ws" "st' = st\<lparr>lx_durable := applied (take k ?ws) ?d, lx_process := failed_op o1 ?q\<rparr>"
      by (auto simp: lane_step_def Let_def split: if_splits)
    show ?thesis
    proof (cases "\<exists>x. o1 = DoFlush x")
      case True
      then obtain x where x: "o1 = DoFlush x" by auto
      with ord FaultNext q k(1) have "k = 0" by (auto simp: orderly_def flush_saves_of_def run_op_saves op_section_def)
      then show ?thesis using lane_inv_process [OF inv failed_inv [OF I(2) q]] by (simp add: k(2))
    next
      case False
      then have safe: "safe_saves ?L ?d ?ws" using section_safe [OF I(1), of o1 env now ?q] by simp
      show ?thesis unfolding k(2)
        by (rule lane_inv_durable [OF inv safe_savesD(1) [OF safe] failed_inv [OF process_inv_safe [OF I(2) safe] q]])
    qed
  next
    case (CrashNow now k)
    show ?thesis
    proof (cases "lp_queue ?p")
      case Nil
      then have "st' = st\<lparr>lx_durable := ?d, lx_process := no_process\<rparr>" using step CrashNow by (simp add: lane_step_def Let_def)
      then show ?thesis using lane_inv_durable [OF inv I(1) process_inv_none] by simp
    next
      case (Cons o1 rest)
      have "st' = st\<lparr>lx_durable := applied (take k (fst (run_op env now o1 (?p\<lparr>lp_queue := rest\<rparr>) ?d))) ?d, lx_process := no_process\<rparr>"
        using step CrashNow Cons by (simp add: lane_step_def Let_def)
      moreover have "k = 0 \<or> length (fst (flush_block now x ?d)) \<le> k" if "o1 = DoFlush x" for x
        using ord CrashNow Cons that by (auto simp: orderly_def flush_saves_of_def)
      ultimately show ?thesis using lane_inv_durable [OF inv cut_inv [OF inv Cons] process_inv_none] by simp
    qed
  qed
qed

lemma lane_reachable_inv: "lane_reachable env b st \<Longrightarrow> lane_inv env st"
proof (induction rule: lane_reachable.induct)
  case Start
  have "process_inv env {} d no_process" for d by (rule process_inv_none)
  then show ?case
    by (simp add: lane_inv_def new_lane_def sent_customs_def durable_inv_def item_at_def submission_at_def spent_def stored_customs_def)
next
  case (Step st ev st')
  then show ?case by (auto intro: lane_step_inv)
qed

end
