(* ===== verification/Batch_Lane_Properties.thy ===== *)
theory Batch_Lane_Properties
  imports Batch_Lane_Process
begin

text \<open>
  What the batch lane promises, over every orderly history of events: executions, aborts, provider answers,
  faults and crashes. The last theorem shows what the one excluded history, a crash between two saves of a
  flush, can do.
\<close>

section \<open>Histories\<close>

fun orderly_run :: "lane_env \<Rightarrow> lane_event list \<Rightarrow> lane \<Rightarrow> lane option" where
  "orderly_run env [] st = Some st"
| "orderly_run env (ev # evs) st =
     (if orderly env st ev then (case lane_step env ev st of None \<Rightarrow> None | Some x \<Rightarrow> orderly_run env evs x) else None)"

lemma orderly_run_reachable:
  "lane_reachable env b st \<Longrightarrow> orderly_run env evs st = Some st' \<Longrightarrow> lane_reachable env b st'"
  by (induction evs arbitrary: st) (auto split: if_splits option.splits intro: Step)

definition sample_env :: lane_env where
  "sample_env = \<lparr>le_item = (\<lambda>a. a), le_submission = (\<lambda>e m cs. concat cs), le_driver = (\<lambda>e. e), le_version = su_id\<rparr>"

definition sample_request :: "string \<Rightarrow> lane_request" where
  "sample_request a = \<lparr>rq_activity = a, rq_trace = ''t'', rq_fingerprint = ''f'', rq_endpoint = ''e'', rq_provider = ''p'', rq_model = ''m'',
     rq_request_model = ''m'', rq_tools = 0, rq_continuation = False, rq_maximum_output = 1, rq_estimate = num 1,
     rq_settings = \<lparr>ls_poll = num 1, ls_wait = num 1, ls_items = num 2, ls_window = num 1, ls_attempts = num 3\<rparr>\<rparr>"

definition sample_budget :: budget where
  "sample_budget = \<lparr>bd_maximum = num 100, bd_state = None, bd_backend = None\<rparr>"

text \<open>Two items fill a batch, whose request fails for certain; the second attempt of one is accepted.\<close>

definition sample_events :: "lane_event list" where
  "sample_events = [Execute (sample_request ''i''), Execute (sample_request ''j''), RunNext 0, RunNext 0, RunNext 0,
     Acknowledge ''a1-ia1-j'' (Inl \<lparr>fl_code = ''C'', fl_message = ''''\<rparr>) True, RunNext 1, Answer ''a1-j'', CrashNow 1 0,
     Execute (sample_request ''j''), RunNext 2, WindowCloses 2 ''e'' ''m'', RunNext 2, Acknowledge ''a2-j'' (Inr ''job'') False, RunNext 3]"

lemma sample_reachable: "lane_reachable sample_env sample_budget (the (orderly_run sample_env sample_events (new_lane sample_budget)))"
proof -
  have "orderly_run sample_env sample_events (new_lane sample_budget) \<noteq> None" by code_simp
  then show ?thesis using orderly_run_reachable [OF lane_reachable.Start] by force
qed

section \<open>The promises\<close>

text \<open>
  C17. Over every orderly history of the batch lane, one in which no crash and no fault falls between the saves of a
  flush and no item is executed while another call executes it, no attempt of an item is ever in two submission
  requests, and no request names an attempt twice, whatever the provider answers and wherever the other faults and
  crashes fall. In such a history an item gets a new attempt only when the one before can produce no more work: every
  attempt but the last of a stored item was cancelled, expired, or certainly not submitted. Without that order the
  first part fails, as the lemma \<open>cut_flush_sends_twice\<close> below shows.
\<close>
theorem no_attempt_sent_twice:
  assumes "lane_reachable env b st"
  shows "distinct (concat (lx_sent st))
    \<and> (\<forall>i r a. map_of (ln_items (lx_durable st)) i = Some r \<longrightarrow> a \<in> set (butlast (it_attempts r))
         \<longrightarrow> at_state a \<in> {CancelledItem, Expired, NotSubmitted})"
proof (intro conjI allI impI)
  show "distinct (concat (lx_sent st))" using lane_reachable_inv [OF assms] by (simp add: lane_inv_def)
  fix i r a
  assume "map_of (ln_items (lx_durable st)) i = Some r" "a \<in> set (butlast (it_attempts r))"
  then show "at_state a \<in> {CancelledItem, Expired, NotSubmitted}"
    using lane_reachable_inv [OF assms] by (auto simp: lane_inv_def durable_inv_def item_at_def item_ok_def unprocessed_def)
qed

theorem no_attempt_sent_twice_witness:
  "lx_sent (the (orderly_run sample_env sample_events (new_lane sample_budget))) = [[''a1-i'', ''a1-j''], [''a2-j'']]
     \<and> distinct (concat (lx_sent (the (orderly_run sample_env sample_events (new_lane sample_budget)))))
     \<and> (case map_of (ln_items (lx_durable (the (orderly_run sample_env sample_events (new_lane sample_budget))))) ''j'' of
          None \<Rightarrow> False
        | Some r \<Rightarrow> it_attempts r \<noteq> [] \<and> at_state (last (it_attempts r)) = Sent
            \<and> at_state (hd (it_attempts r)) \<in> {CancelledItem, Expired, NotSubmitted})"
proof -
  let ?st = "the (orderly_run sample_env sample_events (new_lane sample_budget))"
  define a where "a = hd (it_attempts (the (map_of (ln_items (lx_durable ?st)) ''j'')))"
  have sent: "lx_sent ?st = [[''a1-i'', ''a1-j''], [''a2-j'']]" by code_simp
  have "case map_of (ln_items (lx_durable ?st)) ''j'' of None \<Rightarrow> False
    | Some r \<Rightarrow> it_attempts r \<noteq> [] \<and> length (it_attempts r) = 2 \<and> at_state (last (it_attempts r)) = Sent" by code_simp
  then obtain r where r: "map_of (ln_items (lx_durable ?st)) ''j'' = Some r" "it_attempts r \<noteq> []" "length (it_attempts r) = 2"
      "at_state (last (it_attempts r)) = Sent"
    by (auto split: option.splits)
  have "hd (it_attempts r) \<in> set (butlast (it_attempts r))" using r(3) by (auto simp: length_Suc_conv numeral_2_eq_2)
  then show ?thesis using no_attempt_sent_twice [OF sample_reachable] r(1,2,4) by (simp add: sent)
qed

section \<open>A crash within a flush\<close>

text \<open>
  The excluded history. A crash cuts the saves of the flush of \<open>i\<close> and \<open>j\<close> after the item of \<open>i\<close>: the submission
  is \<open>Prepared\<close> and names both, but only \<open>i\<close> names it. Executed again, \<open>j\<close> goes out in a submission of its own.
  The next execution of \<open>i\<close> abandons the first submission, and \<open>#abandonUnsent\<close> clears the submission of every
  queued member, also of \<open>j\<close>, whose request is on the wire. After another crash \<open>j\<close> is sent a second time.
\<close>

definition cut_flush_events :: "lane_event list" where
  "cut_flush_events = [Execute (sample_request ''i''), Execute (sample_request ''j''), RunNext 0, RunNext 0, CrashNow 0 2,
     Execute (sample_request ''j''), RunNext 1, WindowCloses 1 ''e'' ''m'', RunNext 1,
     Execute (sample_request ''i''), RunNext 2, CrashNow 2 0,
     Execute (sample_request ''j''), RunNext 3, WindowCloses 3 ''e'' ''m'', RunNext 3]"

text \<open>
  When a crash falls between the item saves of a flush, the lane can send one attempt in two submission requests:
  abandoning the unsent submission also unlinks a member that has been sent in another one since.
\<close>
lemma cut_flush_sends_twice:
  "map_option lx_sent (lane_run sample_env cut_flush_events (new_lane sample_budget)) = Some [[''a1-j''], [''a1-j'']]"
  by code_simp

end
