(* ===== verification/Rate_Scheduler.thy ===== *)
theory Rate_Scheduler
  imports Token_Budget
begin

text \<open>
  Admission of provider calls: \<open>packages/providers/src/scheduler.ts\<close>. A process runs one section of code at a time, from
  an \<open>await\<close> to the next, so a scheduling is a sequence of events, each at a reading of the clock: a call of \<open>acquire\<close>,
  a wait that ends (its timer, or a wake), an abort, a release of a lease, a \<open>respectRetryAfter\<close>. Times are in
  milliseconds.
\<close>

section \<open>State\<close>

datatype scheduler_error =
    InvalidRatePolicy string string | UnknownProviderPolicy string | InvalidEstimatedTokens | RequestExceedsTpm string
  | AdmissionCancelled | InvalidRetryAfter | InvalidTimerDelay

record rate_policy =
  rp_rpm :: number
  rp_tpm :: number
  rp_concurrent :: number

record admission =
  am_at :: rat
  am_tokens :: int

text \<open>A waiter is named by the caller it resolves.\<close>

record provider_state =
  ps_active :: int
  ps_blocked :: rat
  ps_admissions :: "admission list"
  ps_waiters :: "nat list"

text \<open>A call of \<open>acquire\<close> between two looks: its wait, and whether a wake resolved it.\<close>

record caller =
  cl_provider :: string
  cl_tokens :: int
  cl_policy :: rate_policy
  cl_delay :: "rat option"
  cl_woken :: bool
  cl_aborted :: bool

text \<open>A lease that was granted, with the time it was.\<close>

record lease =
  le_provider :: string
  le_tokens :: int
  le_at :: rat
  le_released :: bool

record scheduling =
  sg_policies :: "(string \<times> rate_policy) list"
  sg_states :: "(string \<times> provider_state) list"
  sg_callers :: "(nat \<times> caller) list"
  sg_leases :: "lease list"
  sg_failed :: "(nat \<times> scheduler_error) list"
  sg_next :: nat

section \<open>Policies\<close>

definition maximum_timer_delay :: rat where
  "maximum_timer_delay = 2147483647"

fun bounded_timer_delay :: "number \<Rightarrow> scheduler_error + rat" where
  "bounded_timer_delay (Fin r) = (if r < 0 then Inl InvalidTimerDelay else Inr (min maximum_timer_delay (of_int \<lceil>r\<rceil>)))"
| "bounded_timer_delay _ = Inl InvalidTimerDelay"

definition validate_policy :: "string \<Rightarrow> rate_policy \<Rightarrow> scheduler_error + unit" where
  "validate_policy p pol =
     (if \<not> positive_integer (rp_rpm pol) then Inl (InvalidRatePolicy p ''rpm'')
      else if \<not> positive_integer (rp_tpm pol) then Inl (InvalidRatePolicy p ''tpm'')
      else if \<not> positive_integer (rp_concurrent pol) then Inl (InvalidRatePolicy p ''maxConcurrent'') else Inr ())"

definition new_scheduler :: "(string \<times> rate_policy) list \<Rightarrow> scheduler_error + scheduling" where
  "new_scheduler policies =
     result_bind (result_map (\<lambda>(p, pol). validate_policy p pol) policies) (\<lambda>_.
       Inr \<lparr>sg_policies = policies, sg_states = [], sg_callers = [], sg_leases = [], sg_failed = [], sg_next = 0\<rparr>)"

definition provider_policy :: "scheduling \<Rightarrow> string \<Rightarrow> scheduler_error + rate_policy" where
  "provider_policy s p = (case map_of (sg_policies s) p of None \<Rightarrow> Inl (UnknownProviderPolicy p) | Some pol \<Rightarrow> Inr pol)"

definition fresh_state :: provider_state where
  "fresh_state = \<lparr>ps_active = 0, ps_blocked = 0, ps_admissions = [], ps_waiters = []\<rparr>"

definition state_of :: "scheduling \<Rightarrow> string \<Rightarrow> provider_state" where
  "state_of s p = (case map_of (sg_states s) p of None \<Rightarrow> fresh_state | Some st \<Rightarrow> st)"

definition set_state :: "string \<Rightarrow> provider_state \<Rightarrow> scheduling \<Rightarrow> scheduling" where
  "set_state p st s = s\<lparr>sg_states := AList.update p st (sg_states s)\<rparr>"

section \<open>One look\<close>

definition recent :: "rat \<Rightarrow> admission list \<Rightarrow> admission list" where
  "recent now xs = filter (\<lambda>a. now - 60000 < am_at a) xs"

definition window_tokens :: "admission list \<Rightarrow> int" where
  "window_tokens xs = sum_list (map am_tokens xs)"

definition admissible :: "rate_policy \<Rightarrow> int \<Rightarrow> rat \<Rightarrow> provider_state \<Rightarrow> bool" where
  "admissible pol need now st \<longleftrightarrow>
     ps_blocked st \<le> now \<and> ps_active st < int_of_number (rp_concurrent pol)
     \<and> int (length (ps_admissions st)) < int_of_number (rp_rpm pol)
     \<and> window_tokens (ps_admissions st) + need \<le> int_of_number (rp_tpm pol)"

definition wait_delays :: "rate_policy \<Rightarrow> int \<Rightarrow> rat \<Rightarrow> provider_state \<Rightarrow> rat list" where
  "wait_delays pol need now st =
     (if now < ps_blocked st then [ps_blocked st - now] else [])
     @ (if int_of_number (rp_rpm pol) \<le> int (length (ps_admissions st))
          \<or> int_of_number (rp_tpm pol) < window_tokens (ps_admissions st) + need
        then (case ps_admissions st of [] \<Rightarrow> [] | a # _ \<Rightarrow> [max 1 (am_at a + 60000 - now)]) else [])"

definition shortest :: "rat list \<Rightarrow> rat option" where
  "shortest ds = (case ds of [] \<Rightarrow> None | d # ds' \<Rightarrow> Some (fold min ds' d))"

definition drop_caller :: "nat \<Rightarrow> scheduling \<Rightarrow> scheduling" where
  "drop_caller i s = s\<lparr>sg_callers := AList.delete i (sg_callers s)\<rparr>"

definition fail_caller :: "nat \<Rightarrow> scheduler_error \<Rightarrow> scheduling \<Rightarrow> scheduling" where
  "fail_caller i e s = (drop_caller i s)\<lparr>sg_failed := sg_failed s @ [(i, e)]\<rparr>"

text \<open>The body of the loop, for the caller \<open>c\<close> named \<open>i\<close>: it fails, takes a lease or waits.\<close>

definition look :: "rat \<Rightarrow> nat \<Rightarrow> caller \<Rightarrow> scheduling \<Rightarrow> scheduling" where
  "look now i c s =
     (if cl_aborted c then fail_caller i AdmissionCancelled s
      else let p = cl_provider c; st0 = state_of s p; st = st0\<lparr>ps_admissions := recent now (ps_admissions st0)\<rparr> in
        if admissible (cl_policy c) (cl_tokens c) now st
        then (drop_caller i (set_state p
            (st\<lparr>ps_active := ps_active st + 1, ps_admissions := ps_admissions st @ [\<lparr>am_at = now, am_tokens = cl_tokens c\<rparr>]\<rparr>) s))
          \<lparr>sg_leases := sg_leases s @ [\<lparr>le_provider = p, le_tokens = cl_tokens c, le_at = now, le_released = False\<rparr>]\<rparr>
        else (set_state p (st\<lparr>ps_waiters := set_add i (ps_waiters st)\<rparr>) s)
          \<lparr>sg_callers := AList.update i (c\<lparr>cl_delay := shortest (wait_delays (cl_policy c) (cl_tokens c) now st), cl_woken := False\<rparr>) (sg_callers s)\<rparr>)"

section \<open>Operations\<close>

definition wake :: "string \<Rightarrow> scheduling \<Rightarrow> scheduling" where
  "wake p s =
     (set_state p ((state_of s p)\<lparr>ps_waiters := []\<rparr>) s)
       \<lparr>sg_callers := map (\<lambda>(i, c). (i, if i \<in> set (ps_waiters (state_of s p)) then c\<lparr>cl_woken := True\<rparr> else c)) (sg_callers s)\<rparr>"

definition acquire :: "rat \<Rightarrow> string \<Rightarrow> number \<Rightarrow> bool \<Rightarrow> scheduling \<Rightarrow> scheduling" where
  "acquire now p estimated aborted s0 =
     (let i = sg_next s0; s = s0\<lparr>sg_next := Suc i\<rparr> in
      case provider_policy s p of
        Inl e \<Rightarrow> fail_caller i e s
      | Inr pol \<Rightarrow>
          if \<not> safe_integer estimated \<or> int_of_number estimated < 0 then fail_caller i InvalidEstimatedTokens s
          else if int_of_number (rp_tpm pol) < int_of_number estimated then fail_caller i (RequestExceedsTpm p) s
          else look now i
            \<lparr>cl_provider = p, cl_tokens = int_of_number estimated, cl_policy = pol, cl_delay = None, cl_woken = False, cl_aborted = aborted\<rparr>
            (set_state p (state_of s p) s))"

text \<open>The wait of a caller ends: its waiter is cancelled, and it looks again.\<close>

definition resume :: "rat \<Rightarrow> nat \<Rightarrow> scheduling \<Rightarrow> scheduling" where
  "resume now i s =
     (case map_of (sg_callers s) i of
        None \<Rightarrow> s
      | Some c \<Rightarrow>
          (let p = cl_provider c; st = state_of s p in
           look now i c (set_state p (st\<lparr>ps_waiters := filter (\<lambda>j. j \<noteq> i) (ps_waiters st)\<rparr>) s)))"

definition abort_caller :: "nat \<Rightarrow> scheduling \<Rightarrow> scheduling" where
  "abort_caller i s =
     (case map_of (sg_callers s) i of
        None \<Rightarrow> s
      | Some c \<Rightarrow> wake (cl_provider c) (s\<lparr>sg_callers := AList.update i (c\<lparr>cl_aborted := True\<rparr>) (sg_callers s)\<rparr>))"

definition release_lease :: "nat \<Rightarrow> scheduling \<Rightarrow> scheduling" where
  "release_lease k s =
     (if length (sg_leases s) \<le> k \<or> le_released (sg_leases s ! k) then s
      else let l = sg_leases s ! k; p = le_provider l; st = state_of s p in
        wake p ((set_state p (st\<lparr>ps_active := ps_active st - 1\<rparr>) s)\<lparr>sg_leases := (sg_leases s)[k := l\<lparr>le_released := True\<rparr>]\<rparr>))"

definition respect_retry_after :: "rat \<Rightarrow> string \<Rightarrow> number \<Rightarrow> scheduling \<Rightarrow> scheduler_error + scheduling" where
  "respect_retry_after now p ms s =
     (case ms of
        Fin d \<Rightarrow>
          if d < 0 then Inl InvalidRetryAfter
          else (let st = state_of s p in
            Inr (wake p (set_state p (st\<lparr>ps_blocked := max (ps_blocked st) (now + d)\<rparr>) s)))
      | _ \<Rightarrow> Inl InvalidRetryAfter)"

definition snapshot :: "rat \<Rightarrow> string \<Rightarrow> scheduling \<Rightarrow> int \<times> nat \<times> int \<times> rat" where
  "snapshot now p s =
     (let st = state_of s p; current = recent now (ps_admissions st) in
      (ps_active st, length current, window_tokens current, ps_blocked st))"

datatype scheduler_event =
    Acquire string number bool
  | Resume nat
  | Abort nat
  | ReleaseLease nat
  | RetryAfter string number

fun scheduler_step :: "rat \<times> scheduler_event \<Rightarrow> scheduling \<Rightarrow> scheduling" where
  "scheduler_step (now, Acquire p estimated aborted) s = acquire now p estimated aborted s"
| "scheduler_step (now, Resume i) s = resume now i s"
| "scheduler_step (now, Abort i) s = abort_caller i s"
| "scheduler_step (now, ReleaseLease k) s = release_lease k s"
| "scheduler_step (now, RetryAfter p ms) s = (case respect_retry_after now p ms s of Inl _ \<Rightarrow> s | Inr s' \<Rightarrow> s')"

section \<open>The window\<close>

lemma state_of_set_state [simp]: "state_of (set_state p st s) q = (if q = p then st else state_of s q)"
  by (simp add: state_of_def set_state_def)

lemma set_state_fields [simp]:
  "sg_policies (set_state p st s) = sg_policies s" "sg_callers (set_state p st s) = sg_callers s"
  "sg_leases (set_state p st s) = sg_leases s" "sg_next (set_state p st s) = sg_next s"
  by (simp_all add: set_state_def)

lemma state_of_updates [simp]:
  "state_of (s\<lparr>sg_callers := cs\<rparr>) p = state_of s p" "state_of (s\<lparr>sg_leases := ls\<rparr>) p = state_of s p"
  "state_of (s\<lparr>sg_next := n\<rparr>) p = state_of s p" "state_of (s\<lparr>sg_failed := es\<rparr>) p = state_of s p"
  by (simp_all add: state_of_def)

definition granted :: "scheduling \<Rightarrow> string \<Rightarrow> lease list" where
  "granted s p = filter (\<lambda>l. le_provider l = p) (sg_leases s)"

text \<open>The leases granted in the minute up to \<open>t\<close>.\<close>

definition windowed :: "rat \<Rightarrow> lease list \<Rightarrow> lease list" where
  "windowed t ls = filter (\<lambda>l. t - 60000 < le_at l \<and> le_at l \<le> t) ls"

definition lease_tokens :: "lease list \<Rightarrow> int" where
  "lease_tokens ls = sum_list (map le_tokens ls)"

definition held :: "lease list \<Rightarrow> int" where
  "held ls = int (length (filter (\<lambda>l. \<not> le_released l) ls))"

definition admission_of :: "lease \<Rightarrow> admission" where
  "admission_of l = \<lparr>am_at = le_at l, am_tokens = le_tokens l\<rparr>"

definition tracks :: "rat \<Rightarrow> provider_state \<Rightarrow> lease list \<Rightarrow> bool" where
  "tracks now st ls \<longleftrightarrow>
     (\<exists>c \<le> now - 60000. ps_admissions st = map admission_of (filter (\<lambda>l. c < le_at l) ls))
     \<and> ps_active st = held ls \<and> (\<forall>l \<in> set ls. le_at l \<le> now \<and> 0 \<le> le_tokens l)"

definition valid_policy :: "rate_policy \<Rightarrow> bool" where
  "valid_policy pol \<longleftrightarrow> positive_integer (rp_rpm pol) \<and> positive_integer (rp_tpm pol) \<and> positive_integer (rp_concurrent pol)"

definition within_limits :: "rate_policy \<Rightarrow> lease list \<Rightarrow> bool" where
  "within_limits pol ls \<longleftrightarrow>
     held ls \<le> int_of_number (rp_concurrent pol)
     \<and> (\<forall>t. int (length (windowed t ls)) \<le> int_of_number (rp_rpm pol) \<and> lease_tokens (windowed t ls) \<le> int_of_number (rp_tpm pol))"

lemma tracks_later: "tracks now st ls \<Longrightarrow> now \<le> now' \<Longrightarrow> tracks now' st ls"
  unfolding tracks_def by (meson diff_right_mono order_trans)

lemma lease_tokens_filter: "\<forall>l \<in> set ls. 0 \<le> le_tokens l \<Longrightarrow> lease_tokens (filter P ls) \<le> lease_tokens ls"
  by (induction ls) (auto simp: lease_tokens_def)

lemma tracks_recent:
  assumes "tracks now st ls"
  shows "recent now (ps_admissions st) = map admission_of (filter (\<lambda>l. now - 60000 < le_at l) ls)"
proof -
  obtain c where c: "c \<le> now - 60000" "ps_admissions st = map admission_of (filter (\<lambda>l. c < le_at l) ls)"
    using assms by (auto simp: tracks_def)
  have "filter (\<lambda>l. c < le_at l \<and> now - 60000 < le_at l) ls = filter (\<lambda>l. now - 60000 < le_at l) ls" using c(1) by (intro filter_cong) auto
  then show ?thesis by (simp add: c(2) recent_def filter_map comp_def admission_of_def)
qed

lemma tracks_look: "tracks now st ls \<Longrightarrow> tracks now (st\<lparr>ps_admissions := recent now (ps_admissions st)\<rparr>) ls"
  by (auto simp: tracks_recent) (auto simp: tracks_def)

lemma within_admit:
  assumes tracks: "tracks now st ls" and within: "within_limits pol ls" and need: "0 \<le> need"
    and ok: "admissible pol need now (st\<lparr>ps_admissions := recent now (ps_admissions st)\<rparr>)"
  shows "within_limits pol (ls @ [\<lparr>le_provider = p, le_tokens = need, le_at = now, le_released = False\<rparr>])"
proof -
  let ?l = "\<lparr>le_provider = p, le_tokens = need, le_at = now, le_released = False\<rparr>"
  let ?recent = "filter (\<lambda>l. now - 60000 < le_at l) ls"
  have past: "\<forall>l \<in> set ls. le_at l \<le> now \<and> 0 \<le> le_tokens l" and active: "ps_active st = held ls" using tracks by (auto simp: tracks_def)
  have room: "int (length ?recent) < int_of_number (rp_rpm pol)" "lease_tokens ?recent + need \<le> int_of_number (rp_tpm pol)"
    using ok by (simp_all add: admissible_def tracks_recent [OF tracks] window_tokens_def lease_tokens_def comp_def admission_of_def)
  have "int (length (windowed t (ls @ [?l]))) \<le> int_of_number (rp_rpm pol) \<and> lease_tokens (windowed t (ls @ [?l])) \<le> int_of_number (rp_tpm pol)" for t
  proof (cases "t - 60000 < now \<and> now \<le> t")
    case True
    then have "windowed t ls = filter (\<lambda>l. t - 60000 < le_at l \<and> le_at l \<le> t) ?recent"
      unfolding windowed_def filter_filter by (intro filter_cong) auto
    then have "length (windowed t ls) \<le> length ?recent" "lease_tokens (windowed t ls) \<le> lease_tokens ?recent"
      using lease_tokens_filter [of ?recent] past by (simp_all del: filter_filter)
    moreover have "windowed t (ls @ [?l]) = windowed t ls @ [?l]" using True by (simp add: windowed_def)
    ultimately show ?thesis using room by (simp add: lease_tokens_def)
  next
    case False
    then have "windowed t (ls @ [?l]) = windowed t ls" by (auto simp: windowed_def)
    then show ?thesis using within by (simp add: within_limits_def)
  qed
  moreover have "held (ls @ [?l]) \<le> int_of_number (rp_concurrent pol)" using ok active by (simp add: held_def admissible_def)
  ultimately show ?thesis by (simp add: within_limits_def)
qed

lemma tracks_admit:
  assumes "tracks now st ls" "0 \<le> need"
  shows "tracks now (st\<lparr>ps_active := ps_active st + 1,
      ps_admissions := recent now (ps_admissions st) @ [\<lparr>am_at = now, am_tokens = need\<rparr>]\<rparr>)
    (ls @ [\<lparr>le_provider = p, le_tokens = need, le_at = now, le_released = False\<rparr>])"
  unfolding tracks_def using assms
  by (auto simp: tracks_recent admission_of_def held_def intro!: exI [of _ "now - 60000"]) (auto simp: tracks_def held_def)

text \<open>No delay: only a release can help, and there is a lease to release.\<close>

lemma no_delay_full:
  assumes "valid_policy pol" "need \<le> int_of_number (rp_tpm pol)" "\<not> admissible pol need now st" "shortest (wait_delays pol need now st) = None"
  shows "int_of_number (rp_concurrent pol) \<le> ps_active st"
  using assms
  by (auto simp: valid_policy_def positive_integer_def admissible_def wait_delays_def shortest_def window_tokens_def
      split: list.splits if_splits)

section \<open>Invariants\<close>

definition good_caller :: "scheduling \<Rightarrow> caller \<Rightarrow> bool" where
  "good_caller s c \<longleftrightarrow> map_of (sg_policies s) (cl_provider c) = Some (cl_policy c) \<and> 0 \<le> cl_tokens c
     \<and> cl_tokens c \<le> int_of_number (rp_tpm (cl_policy c))"

definition rates_inv :: "rat \<Rightarrow> scheduling \<Rightarrow> bool" where
  "rates_inv now s \<longleftrightarrow> (\<forall>p. tracks now (state_of s p) (granted s p))
     \<and> (\<forall>p pol. map_of (sg_policies s) p = Some pol \<longrightarrow> valid_policy pol \<and> within_limits pol (granted s p))
     \<and> (\<forall>i c. map_of (sg_callers s) i = Some c \<longrightarrow> good_caller s c)"

text \<open>A caller that nothing woke is among the waiters of its provider, and without a timer the provider is full.\<close>

definition waits :: "scheduling \<Rightarrow> nat \<Rightarrow> caller \<Rightarrow> bool" where
  "waits s i c \<longleftrightarrow> i \<in> set (ps_waiters (state_of s (cl_provider c)))
     \<and> (cl_delay c = None \<longrightarrow> int_of_number (rp_concurrent (cl_policy c)) \<le> ps_active (state_of s (cl_provider c)))"

definition wait_except :: "nat option \<Rightarrow> scheduling \<Rightarrow> bool" where
  "wait_except j s \<longleftrightarrow> (\<forall>i c. map_of (sg_callers s) i = Some c \<longrightarrow> i < sg_next s \<and> (Some i \<noteq> j \<longrightarrow> cl_woken c \<or> waits s i c))"

lemma granted_updates [simp]:
  "granted (s\<lparr>sg_leases := ls @ [l]\<rparr>) p = filter (\<lambda>l. le_provider l = p) ls @ (if le_provider l = p then [l] else [])"
  "granted (s\<lparr>sg_callers := cs\<rparr>) p = granted s p" "granted (s\<lparr>sg_next := n\<rparr>) p = granted s p"
  "granted (s\<lparr>sg_failed := es\<rparr>) p = granted s p" "granted (set_state q st s) p = granted s p"
  by (simp_all add: granted_def)

lemma good_caller_updates [simp]:
  "good_caller (s\<lparr>sg_leases := ls\<rparr>) c = good_caller s c" "good_caller (s\<lparr>sg_callers := cs\<rparr>) c = good_caller s c"
  "good_caller (s\<lparr>sg_next := n\<rparr>) c = good_caller s c" "good_caller (s\<lparr>sg_failed := es\<rparr>) c = good_caller s c"
  "good_caller (set_state q st s) c = good_caller s c"
  "good_caller s (c\<lparr>cl_delay := d, cl_woken := w\<rparr>) = good_caller s c" "good_caller s (c\<lparr>cl_woken := w\<rparr>) = good_caller s c"
  "good_caller s (c\<lparr>cl_delay := d\<rparr>) = good_caller s c"
  "good_caller s (c\<lparr>cl_aborted := a\<rparr>) = good_caller s c"
  by (simp_all add: good_caller_def)

lemma waits_updates [simp]:
  "waits (s\<lparr>sg_leases := ls\<rparr>) i c = waits s i c" "waits (s\<lparr>sg_callers := cs\<rparr>) i c = waits s i c"
  "waits (s\<lparr>sg_next := n\<rparr>) i c = waits s i c" "waits (s\<lparr>sg_failed := es\<rparr>) i c = waits s i c"
  "waits s i (c\<lparr>cl_woken := w\<rparr>) = waits s i c" "waits s i (c\<lparr>cl_aborted := a\<rparr>) = waits s i c"
  by (simp_all add: waits_def)

lemma rates_later: "rates_inv now s \<Longrightarrow> now \<le> now' \<Longrightarrow> rates_inv now' s"
  by (auto simp: rates_inv_def intro: tracks_later)

lemma map_of_map_key: "map_of (map (\<lambda>(i, c). (i, f i c)) cs) i = map_option (f i) (map_of cs i)"
  by (induction cs) auto

lemma tracks_idle [simp]:
  "tracks now (st\<lparr>ps_waiters := ws\<rparr>) ls = tracks now st ls" "tracks now (st\<lparr>ps_blocked := b\<rparr>) ls = tracks now st ls"
  by (simp_all add: tracks_def)

lemma rates_set_state:
  "rates_inv now s \<Longrightarrow> tracks now st (granted s p) \<Longrightarrow> rates_inv now (set_state p st s)"
  by (simp add: rates_inv_def)

lemma rates_callers:
  "rates_inv now s \<Longrightarrow> (\<And>i c. map_of cs i = Some c \<Longrightarrow> good_caller s c) \<Longrightarrow> rates_inv now (s\<lparr>sg_callers := cs\<rparr>)"
  by (simp add: rates_inv_def)

lemma rates_fail: "rates_inv now s \<Longrightarrow> rates_inv now (fail_caller i e s)"
  by (simp add: rates_inv_def fail_caller_def drop_caller_def split: if_splits)

lemma rates_wake:
  assumes "rates_inv now s"
  shows "rates_inv now (wake p s)"
proof -
  have "rates_inv now (set_state p ((state_of s p)\<lparr>ps_waiters := []\<rparr>) s)"
    using assms by (intro rates_set_state) (auto simp: rates_inv_def)
  then show ?thesis unfolding wake_def
    by (rule rates_callers) (use assms in \<open>auto simp: map_of_map_key rates_inv_def split: if_splits\<close>)
qed

lemma rates_look:
  assumes inv: "rates_inv now s" and c: "good_caller s c"
  shows "rates_inv now (look now i c s)"
proof -
  let ?p = "cl_provider c" let ?st = "(state_of s (cl_provider c))\<lparr>ps_admissions := recent now (ps_admissions (state_of s (cl_provider c)))\<rparr>"
  have tracks: "tracks now (state_of s p) (granted s p)" for p using inv by (simp add: rates_inv_def)
  have pol: "map_of (sg_policies s) ?p = Some (cl_policy c)" "0 \<le> cl_tokens c" using c by (simp_all add: good_caller_def)
  show ?thesis
  proof (cases "cl_aborted c")
    case True
    then show ?thesis using inv by (simp add: look_def rates_fail)
  next
    case False
    show ?thesis
    proof (cases "admissible (cl_policy c) (cl_tokens c) now ?st")
      case True
      note admit = tracks_admit [OF tracks pol(2), of ?p ?p] within_admit [OF tracks [of ?p] _ pol(2) True, of ?p]
      have within: "within_limits (cl_policy c) (granted s ?p)" using inv pol(1) by (simp add: rates_inv_def)
      show ?thesis using inv False True admit(1) admit(2) [OF within] pol(1)
        by (auto simp: look_def Let_def drop_caller_def rates_inv_def granted_def [symmetric] split: if_splits)
    next
      case wait: False
      have "rates_inv now (set_state ?p (?st\<lparr>ps_waiters := set_add i (ps_waiters ?st)\<rparr>) s)"
        using inv tracks_look [OF tracks] by (intro rates_set_state) simp_all
      then show ?thesis using False wait c
        by (simp only: look_def Let_def if_False) (rule rates_callers, auto simp: rates_inv_def split: if_splits)
    qed
  qed
qed

lemma rates_acquire:
  assumes "rates_inv now s"
  shows "rates_inv now (acquire now p estimated aborted s)"
proof -
  let ?s = "s\<lparr>sg_next := Suc (sg_next s)\<rparr>"
  have inv: "rates_inv now ?s" using assms by (simp add: rates_inv_def)
  have "rates_inv now (set_state p (state_of ?s p) ?s)" using inv by (intro rates_set_state) (auto simp: rates_inv_def)
  then show ?thesis using inv
    by (auto simp: acquire_def Let_def provider_policy_def good_caller_def intro!: rates_fail rates_look split: option.splits)
qed

lemma rates_resume:
  assumes "rates_inv now s"
  shows "rates_inv now (resume now i s)"
proof (cases "map_of (sg_callers s) i")
  case None
  with assms show ?thesis by (simp add: resume_def)
next
  case (Some c)
  have "rates_inv now (set_state (cl_provider c) ((state_of s (cl_provider c))\<lparr>ps_waiters := w\<rparr>) s)" for w
    using assms by (intro rates_set_state) (auto simp: rates_inv_def)
  moreover have "good_caller s c" using assms Some by (auto simp: rates_inv_def)
  ultimately show ?thesis by (auto simp: resume_def Some Let_def intro!: rates_look)
qed

lemma rates_abort:
  assumes "rates_inv now s"
  shows "rates_inv now (abort_caller i s)"
proof (cases "map_of (sg_callers s) i")
  case None
  with assms show ?thesis by (simp add: abort_caller_def)
next
  case (Some c)
  have "rates_inv now (s\<lparr>sg_callers := AList.update i (c\<lparr>cl_aborted := True\<rparr>) (sg_callers s)\<rparr>)"
    using assms by (rule rates_callers) (use assms Some in \<open>auto simp: rates_inv_def split: if_splits\<close>)
  then show ?thesis by (simp add: abort_caller_def Some rates_wake)
qed

text \<open>A release changes what is held, and no window.\<close>

lemma released_windows:
  assumes "ls = xs @ l # ys" "ls' = xs @ l\<lparr>le_released := True\<rparr> # ys" "\<not> le_released l"
  shows "held ls' = held ls - 1" "length (windowed t ls') = length (windowed t ls)"
    "lease_tokens (windowed t ls') = lease_tokens (windowed t ls)"
    "map admission_of (filter (\<lambda>l. c < le_at l) ls') = map admission_of (filter (\<lambda>l. c < le_at l) ls)"
    "(\<forall>l \<in> set ls'. le_at l \<le> now \<and> 0 \<le> le_tokens l) \<longleftrightarrow> (\<forall>l \<in> set ls. le_at l \<le> now \<and> 0 \<le> le_tokens l)"
  using assms by (auto simp: held_def windowed_def lease_tokens_def admission_of_def)

lemma rates_release:
  assumes inv: "rates_inv now s"
  shows "rates_inv now (release_lease k s)"
proof (cases "length (sg_leases s) \<le> k \<or> le_released (sg_leases s ! k)")
  case True
  then show ?thesis using inv by (simp add: release_lease_def)
next
  case False
  let ?l = "sg_leases s ! k" let ?p = "le_provider ?l" let ?st = "state_of s ?p"
  define ls where "ls = (sg_leases s)[k := ?l\<lparr>le_released := True\<rparr>]"
  let ?s = "(set_state ?p (?st\<lparr>ps_active := ps_active ?st - 1\<rparr>) s)\<lparr>sg_leases := ls\<rparr>"
  define xs ys where "xs = take k (sg_leases s)" and "ys = drop (Suc k) (sg_leases s)"
  have old: "sg_leases s = xs @ ?l # ys" and new: "ls = xs @ ?l\<lparr>le_released := True\<rparr> # ys"
    using False by (simp_all add: xs_def ys_def ls_def id_take_nth_drop upd_conv_take_nth_drop)
  let ?only = "filter (\<lambda>l. le_provider l = ?p)"
  have "?only (sg_leases s) = ?only xs @ ?l # ?only ys" by (subst old) simp
  moreover have "?only ls = ?only xs @ ?l\<lparr>le_released := True\<rparr> # ?only ys" by (simp add: new)
  ultimately have R: "held (?only ls) = held (granted s ?p) - 1" "\<And>t. length (windowed t (?only ls)) = length (windowed t (granted s ?p))"
    "\<And>t. lease_tokens (windowed t (?only ls)) = lease_tokens (windowed t (granted s ?p))"
    "\<And>c. map admission_of (filter (\<lambda>l. c < le_at l) (?only ls)) = map admission_of (filter (\<lambda>l. c < le_at l) (granted s ?p))"
    "(\<forall>l \<in> set (?only ls). le_at l \<le> now \<and> 0 \<le> le_tokens l) \<longleftrightarrow> (\<forall>l \<in> set (granted s ?p). le_at l \<le> now \<and> 0 \<le> le_tokens l)"
    using released_windows [of "granted s ?p" "?only xs" ?l "?only ys" "?only ls"] False by (simp_all add: granted_def)
  have other: "filter (\<lambda>l. le_provider l = q) ls = granted s q" if "q \<noteq> ?p" for q
  proof -
    have "filter (\<lambda>l. le_provider l = q) (sg_leases s) = filter (\<lambda>l. le_provider l = q) xs @ filter (\<lambda>l. le_provider l = q) ys"
      using that by (subst old) simp
    then show ?thesis using that by (simp add: new granted_def)
  qed
  have grants: "granted ?s q = (if q = ?p then ?only ls else granted s q)" for q using other by (simp add: granted_def)
  have tracks: "tracks now (state_of s q) (granted s q)" for q using inv by (simp add: rates_inv_def)
  have "tracks now (?st\<lparr>ps_active := ps_active ?st - 1\<rparr>) (?only ls)"
    unfolding tracks_def R(4,5) using tracks [of ?p] by (simp add: tracks_def R(1))
  moreover have "within_limits pol (?only ls)" if "within_limits pol (granted s ?p)" for pol
    using that by (simp add: within_limits_def R)
  ultimately have "rates_inv now ?s"
    using inv by (simp add: rates_inv_def grants)
  then show ?thesis using False by (simp add: release_lease_def Let_def ls_def rates_wake)
qed

lemma rates_retry:
  assumes "rates_inv now s" "respect_retry_after now p ms s = Inr s'"
  shows "rates_inv now s'"
proof -
  have "rates_inv now (set_state p ((state_of s p)\<lparr>ps_blocked := b\<rparr>) s)" for b
    using assms(1) by (intro rates_set_state) (auto simp: rates_inv_def)
  then show ?thesis using assms(2) by (cases ms) (auto simp: respect_retry_after_def Let_def rates_wake split: if_splits)
qed

lemma rates_step: "rates_inv now s \<Longrightarrow> rates_inv now (scheduler_step (now, ev) s)"
  by (cases ev) (auto simp: rates_acquire rates_resume rates_abort rates_release split: sum.splits intro: rates_retry)

lemma rates_run:
  assumes "rates_inv start s" "sorted (start # map fst run)"
  shows "rates_inv (last (start # map fst run)) (fold scheduler_step run s)"
  using assms
proof (induction run arbitrary: start s)
  case Nil
  then show ?case by simp
next
  case (Cons e run)
  obtain now ev where e: "e = (now, ev)" by (cases e)
  have "rates_inv now (scheduler_step e s)" using Cons.prems rates_later [of start s now] by (simp add: e rates_step)
  from Cons.IH [OF this] Cons.prems(2) show ?case by (simp add: e)
qed

section \<open>Waiting\<close>

lemma wait_wake:
  assumes "\<And>i c. map_of (sg_callers s) i = Some c \<Longrightarrow>
    i < sg_next s \<and> (cl_woken c \<or> waits s i c \<or> cl_provider c = p \<and> i \<in> set (ps_waiters (state_of s p)))"
  shows "wait_except None (wake p s)"
proof -
  have "i < sg_next s \<and> (cl_woken c' \<or> waits (wake p s) i c')" if c': "map_of (sg_callers (wake p s)) i = Some c'" for i c'
  proof -
    obtain c where c: "map_of (sg_callers s) i = Some c" and eq: "c' = (if i \<in> set (ps_waiters (state_of s p)) then c\<lparr>cl_woken := True\<rparr> else c)"
      using c' by (auto simp: wake_def map_of_map_key)
    show ?thesis using assms [OF c] eq by (cases "i \<in> set (ps_waiters (state_of s p))") (auto simp: waits_def wake_def)
  qed
  moreover have "sg_next (wake p s) = sg_next s" by (simp add: wake_def)
  ultimately show ?thesis by (simp add: wait_except_def)
qed

lemma wait_fail: "wait_except j s \<Longrightarrow> j = Some i \<or> j = None \<Longrightarrow> wait_except None (fail_caller i e s)"
  by (auto simp: wait_except_def fail_caller_def drop_caller_def split: if_splits)

lemma wait_look:
  assumes wait: "wait_except (Some i) s" and c: "good_caller s c" and pol: "valid_policy (cl_policy c)" and i: "i < sg_next s"
  shows "wait_except None (look now i c s)"
proof (cases "cl_aborted c")
  case True
  then show ?thesis using wait by (simp add: look_def wait_fail)
next
  case False
  let ?st = "(state_of s (cl_provider c))\<lparr>ps_admissions := recent now (ps_admissions (state_of s (cl_provider c)))\<rparr>"
  have full: "int_of_number (rp_concurrent (cl_policy c)) \<le> ps_active (state_of s (cl_provider c))"
    if "\<not> admissible (cl_policy c) (cl_tokens c) now ?st" "shortest (wait_delays (cl_policy c) (cl_tokens c) now ?st) = None"
    using no_delay_full [OF pol _ that] c by (simp add: good_caller_def)
  have others: "j < sg_next s" "cl_woken d \<or> waits s j d" if "map_of (sg_callers s) j = Some d" "j \<noteq> i" for j d
    using wait that by (auto simp: wait_except_def)
  show ?thesis using False full others i
    by (auto simp: wait_except_def look_def Let_def drop_caller_def waits_def split: if_splits) fastforce+
qed

lemma wait_acquire:
  assumes "wait_except None s" "rates_inv now s"
  shows "wait_except None (acquire now p estimated aborted s)"
proof -
  let ?s = "s\<lparr>sg_next := Suc (sg_next s)\<rparr>"
  have wait: "wait_except None ?s" using assms(1) by (force simp: wait_except_def)
  have "wait_except (Some (sg_next s)) (set_state p (state_of ?s p) ?s)" using assms(1) by (force simp: wait_except_def waits_def)
  moreover have "valid_policy pol" if "map_of (sg_policies s) p = Some pol" for pol using assms(2) that by (simp add: rates_inv_def)
  ultimately show ?thesis using wait
    by (auto simp: acquire_def Let_def provider_policy_def good_caller_def intro!: wait_fail wait_look split: option.splits)
qed

lemma wait_resume:
  assumes "wait_except None s" "rates_inv now s"
  shows "wait_except None (resume now i s)"
proof (cases "map_of (sg_callers s) i")
  case None
  with assms show ?thesis by (simp add: resume_def)
next
  case (Some c)
  let ?st = "state_of s (cl_provider c)"
  have c: "good_caller s c" using assms(2) Some by (auto simp: rates_inv_def)
  then have "valid_policy (cl_policy c)" using assms(2) by (auto simp: rates_inv_def good_caller_def)
  moreover have "wait_except (Some i) (set_state (cl_provider c) (?st\<lparr>ps_waiters := filter (\<lambda>j. j \<noteq> i) (ps_waiters ?st)\<rparr>) s)"
    using assms(1) by (fastforce simp: wait_except_def waits_def)
  moreover have "i < sg_next s" using assms(1) Some by (auto simp: wait_except_def)
  ultimately show ?thesis using c by (auto simp: resume_def Some Let_def intro!: wait_look)
qed

lemma wait_step:
  assumes wait: "wait_except None s" and inv: "rates_inv now s"
  shows "wait_except None (scheduler_step (now, ev) s)"
proof (cases ev)
  case (Acquire p n a)
  then show ?thesis using wait_acquire [OF wait inv] by simp
next
  case (Resume i)
  then show ?thesis using wait_resume [OF wait inv] by simp
next
  case (Abort i)
  show ?thesis
  proof (cases "map_of (sg_callers s) i")
    case None
    with wait Abort show ?thesis by (simp add: abort_caller_def)
  next
    case (Some c)
    have "wait_except None (wake (cl_provider c) (s\<lparr>sg_callers := AList.update i (c\<lparr>cl_aborted := True\<rparr>) (sg_callers s)\<rparr>))"
      by (rule wait_wake) (use wait Some in \<open>fastforce simp: wait_except_def split: if_splits\<close>)
    then show ?thesis using Abort by (simp add: abort_caller_def Some)
  qed
next
  case (ReleaseLease k)
  let ?l = "sg_leases s ! k"
  have "wait_except None (wake (le_provider ?l) ((set_state (le_provider ?l) ((state_of s (le_provider ?l))\<lparr>ps_active := a\<rparr>) s)\<lparr>sg_leases := ls\<rparr>))"
    for a ls
  proof (rule wait_wake, goal_cases)
    case (1 i c)
    then have "i < sg_next s \<and> (cl_woken c \<or> waits s i c)" using wait by (auto simp: wait_except_def)
    then show ?case by (cases "cl_provider c = le_provider ?l") (auto simp: waits_def)
  qed
  then show ?thesis using wait ReleaseLease by (simp add: release_lease_def Let_def)
next
  case (RetryAfter p ms)
  have "wait_except None (wake p (set_state p ((state_of s p)\<lparr>ps_blocked := b\<rparr>) s))" for b
    by (rule wait_wake) (use wait in \<open>auto simp: wait_except_def waits_def split: if_splits\<close>)
  then show ?thesis using RetryAfter wait by (auto simp: respect_retry_after_def Let_def split: number.splits sum.splits if_splits)
qed

lemma wait_run:
  assumes "wait_except None s" "rates_inv start s" "sorted (start # map fst run)"
  shows "wait_except None (fold scheduler_step run s)"
  using assms
proof (induction run arbitrary: start s)
  case Nil
  then show ?case by simp
next
  case (Cons e run)
  obtain now ev where e: "e = (now, ev)" by (cases e)
  have inv: "rates_inv now s" using Cons.prems rates_later [of start s now] by (simp add: e)
  from Cons.IH [of "scheduler_step e s" now] wait_step [OF Cons.prems(1) inv] rates_step [OF inv] Cons.prems(3)
  show ?case by (simp add: e)
qed

section \<open>Properties\<close>

lemma new_scheduler_inv:
  assumes "new_scheduler policies = Inr s"
  shows "rates_inv start s" "wait_except None s" "sg_policies s = policies"
proof -
  have valid: "valid_policy pol" if "map_of policies p = Some pol" for p pol
    using assms map_of_SomeD [OF that]
    by (auto simp: new_scheduler_def result_simps result_map_Inr_iff validate_policy_def valid_policy_def split: if_splits
        dest!: list_all2_image)
  have nonneg: "0 \<le> int_of_number (rp_rpm pol)" "0 \<le> int_of_number (rp_tpm pol)" "0 \<le> int_of_number (rp_concurrent pol)"
    if "map_of policies p = Some pol" for p pol using valid [OF that] by (auto simp: valid_policy_def positive_integer_def)
  have "rates_inv start \<lparr>sg_policies = policies, sg_states = [], sg_callers = [], sg_leases = [], sg_failed = [], sg_next = 0\<rparr>"
    using valid nonneg by (auto simp: rates_inv_def tracks_def granted_def state_of_def fresh_state_def held_def within_limits_def
        windowed_def lease_tokens_def intro!: exI [of _ "start - 60000"])
  then show "rates_inv start s" "wait_except None s" "sg_policies s = policies"
    using assms by (auto simp: new_scheduler_def result_simps wait_except_def)
qed

lemma scheduler_run:
  assumes "new_scheduler policies = Inr s" "sorted (map fst run)"
  obtains now where "rates_inv now (fold scheduler_step run s)" "wait_except None (fold scheduler_step run s)"
proof -
  define start where "start = (case run of [] \<Rightarrow> 0 | e # _ \<Rightarrow> fst e)"
  have "sorted (start # map fst run)" using assms(2) by (cases run) (auto simp: start_def)
  with rates_run wait_run new_scheduler_inv [OF assms(1)] that show thesis by blast
qed

lemma policies_fixed: "sg_policies (fold scheduler_step run s) = sg_policies s"
proof -
  have wake: "sg_policies (wake p s) = sg_policies s" for p s by (simp add: wake_def)
  have look: "sg_policies (look now i c s) = sg_policies s" for now i c s
    by (simp add: look_def Let_def fail_caller_def drop_caller_def)
  have "sg_policies (scheduler_step (now, ev) s) = sg_policies s" for now ev s
    by (cases ev) (auto simp: acquire_def resume_def abort_caller_def release_lease_def respect_retry_after_def Let_def wake look
        fail_caller_def drop_caller_def split: option.splits sum.splits number.splits)
  then show ?thesis by (induction run arbitrary: s) (auto simp: surjective_pairing)
qed

text \<open>
  C22. The limits of a provider hold whatever happens: at most \<open>maxConcurrent\<close> of its leases are held at once, and in
  every minute, wherever it starts, at most \<open>rpm\<close> leases were granted, for at most \<open>tpm\<close> tokens.
\<close>
theorem provider_limits_respected:
  assumes "new_scheduler policies = Inr s" "sorted (map fst run)" "map_of policies p = Some pol"
    and "ls = granted (fold scheduler_step run s) p"
  shows "held ls \<le> int_of_number (rp_concurrent pol) \<and> int (length (windowed t ls)) \<le> int_of_number (rp_rpm pol)
     \<and> lease_tokens (windowed t ls) \<le> int_of_number (rp_tpm pol)"
proof -
  obtain now where "rates_inv now (fold scheduler_step run s)" by (rule scheduler_run [OF assms(1,2)])
  moreover have "sg_policies (fold scheduler_step run s) = policies" using policies_fixed new_scheduler_inv(3) [OF assms(1)] by simp
  ultimately show ?thesis using assms(3) by (simp add: assms(4) rates_inv_def within_limits_def)
qed

definition small_policies :: "(string \<times> rate_policy) list" where
  "small_policies = [(''p'', \<lparr>rp_rpm = num 2, rp_tpm = num 10, rp_concurrent = num 1\<rparr>)]"

definition small_scheduler :: scheduling where
  "small_scheduler = \<lparr>sg_policies = small_policies, sg_states = [], sg_callers = [], sg_leases = [], sg_failed = [], sg_next = 0\<rparr>"

definition small_schedule :: "(rat \<times> scheduler_event) list" where
  "small_schedule = [(0, Acquire ''p'' (num 5) False), (1, Acquire ''p'' (num 3) False)]"

lemma small_scheduler: "new_scheduler small_policies = Inr small_scheduler"
  by (simp add: new_scheduler_def small_policies_def small_scheduler_def validate_policy_def positive_integer_def max_safe_def)

theorem provider_limits_respected_witness:
  "lease_tokens (windowed 3 (granted (fold scheduler_step (small_schedule @ [(2, ReleaseLease 0), (3, Resume 1), (3, Acquire ''p'' (num 3) False)])
       small_scheduler) ''p'')) \<le> 10
   \<and> map le_tokens (granted (fold scheduler_step (small_schedule @ [(2, ReleaseLease 0), (3, Resume 1), (3, Acquire ''p'' (num 3) False)])
       small_scheduler) ''p'') = [5, 3]"
proof
  have "map_of small_policies ''p'' = Some \<lparr>rp_rpm = num 2, rp_tpm = num 10, rp_concurrent = num 1\<rparr>" by (simp add: small_policies_def)
  moreover have "sorted (map fst (small_schedule @ [(2, ReleaseLease 0), (3, Resume 1), (3, Acquire ''p'' (num 3) False)]))"
    by (simp add: small_schedule_def)
  ultimately show "lease_tokens (windowed 3 (granted (fold scheduler_step (small_schedule @ [(2, ReleaseLease 0), (3, Resume 1),
       (3, Acquire ''p'' (num 3) False)]) small_scheduler) ''p'')) \<le> 10"
    using provider_limits_respected [OF small_scheduler _ _ refl, of _ "''p''" _ 3] by fastforce
  show "map le_tokens (granted (fold scheduler_step (small_schedule @ [(2, ReleaseLease 0), (3, Resume 1), (3, Acquire ''p'' (num 3) False)])
       small_scheduler) ''p'') = [5, 3]" by code_simp
qed

text \<open>
  C23. No wakeup is lost: a caller that waits without a timer and was not woken waits for a provider some lease of which is
  held, and a release of any such lease wakes it.
\<close>
theorem waiting_caller_is_woken:
  assumes "new_scheduler policies = Inr s0" "sorted (map fst run)" "s = fold scheduler_step run s0"
    and "map_of (sg_callers s) i = Some c" "cl_delay c = None" "\<not> cl_woken c"
  shows "(\<exists>l \<in> set (sg_leases s). le_provider l = cl_provider c \<and> \<not> le_released l)
     \<and> (\<forall>k < length (sg_leases s). le_provider (sg_leases s ! k) = cl_provider c \<and> \<not> le_released (sg_leases s ! k) \<longrightarrow>
          map_of (sg_callers (release_lease k s)) i = Some (c\<lparr>cl_woken := True\<rparr>))"
proof -
  obtain now where rates: "rates_inv now s" and wait: "wait_except None s" using scheduler_run [OF assms(1,2)] assms(3) by blast
  have w: "i \<in> set (ps_waiters (state_of s (cl_provider c)))" "int_of_number (rp_concurrent (cl_policy c)) \<le> ps_active (state_of s (cl_provider c))"
    using wait assms(4-6) by (auto simp: wait_except_def waits_def)
  have "valid_policy (cl_policy c)" using rates assms(4) by (fastforce simp: rates_inv_def good_caller_def)
  then have "1 \<le> held (granted s (cl_provider c))"
    using rates w(2) by (auto simp: rates_inv_def tracks_def valid_policy_def positive_integer_def)
  then have "filter (\<lambda>l. \<not> le_released l) (granted s (cl_provider c)) \<noteq> []" by (auto simp: held_def)
  then have "\<exists>l \<in> set (sg_leases s). le_provider l = cl_provider c \<and> \<not> le_released l" by (auto simp: granted_def filter_empty_conv)
  moreover have "map_of (sg_callers (release_lease k s)) i = Some (c\<lparr>cl_woken := True\<rparr>)"
    if "k < length (sg_leases s)" "le_provider (sg_leases s ! k) = cl_provider c" "\<not> le_released (sg_leases s ! k)" for k
    using that w(1) assms(4) by (simp add: release_lease_def Let_def wake_def map_of_map_key)
  ultimately show ?thesis by blast
qed

theorem waiting_caller_is_woken_witness:
  "map_option (\<lambda>c. (cl_delay c, cl_woken c)) (map_of (sg_callers (fold scheduler_step small_schedule small_scheduler)) 1) = Some (None, False)
   \<and> map_option cl_woken (map_of (sg_callers (release_lease 0 (fold scheduler_step small_schedule small_scheduler))) 1) = Some True"
proof -
  let ?s = "fold scheduler_step small_schedule small_scheduler"
  have c: "map_option (\<lambda>c. (cl_delay c, cl_woken c)) (map_of (sg_callers ?s) 1) = Some (None, False)" by code_simp
  then obtain c where "map_of (sg_callers ?s) 1 = Some c" "cl_delay c = None" "\<not> cl_woken c" by auto
  moreover have "sorted (map fst small_schedule)" by (simp add: small_schedule_def)
  moreover have "map (\<lambda>l. (le_provider l, le_released l)) (sg_leases ?s) = [(''p'', False)]" "map_option cl_provider (map_of (sg_callers ?s) 1) = Some ''p''"
    by code_simp+
  ultimately have "map_of (sg_callers (release_lease 0 ?s)) 1 = Some (c\<lparr>cl_woken := True\<rparr>)"
    using waiting_caller_is_woken [OF small_scheduler _ refl, of small_schedule 1 c] by (auto simp: length_Suc_conv map_eq_Cons_conv)
  with c show ?thesis by simp
qed

end
