(* ===== verification/Host_Suspends.thy ===== *)
theory Host_Suspends
  imports Prelude
begin

text \<open>
  The watch on the computer's sleep: \<open>packages/providers/src/suspend.ts\<close>. Every look reads a wall and a monotonic
  clock, in milliseconds; a gap between two looks far longer than the heartbeat is a suspend. Promises of \<open>awake\<close>
  and listeners are named by numbers; what they were told is in the monitor.
\<close>

record host_suspend =
  sp_from :: rat
  sp_to :: rat

record suspend_monitor =
  sm_wall :: rat
  sm_monotonic :: rat
  sm_suspends :: "host_suspend list"
  sm_listeners :: "nat list"
  sm_waiters :: "nat list"
  sm_notified :: "(nat \<times> host_suspend) list"
  sm_resolved :: "nat list"
  sm_rejected :: "nat list"

definition suspend_heartbeat :: rat where "suspend_heartbeat = 5000"
definition suspend_gap :: rat where "suspend_gap = 30000"
definition awake_settle :: rat where "awake_settle = 120000"
definition kept_suspends :: nat where "kept_suspends = 256"

definition new_monitor :: "rat \<Rightarrow> rat \<Rightarrow> suspend_monitor" where
  "new_monitor wall monotonic =
     \<lparr>sm_wall = wall, sm_monotonic = monotonic, sm_suspends = [], sm_listeners = [], sm_waiters = [], sm_notified = [],
      sm_resolved = [], sm_rejected = []\<rparr>"

definition calm :: "suspend_monitor \<Rightarrow> bool" where
  "calm m \<longleftrightarrow> sm_suspends m = [] \<or> awake_settle \<le> sm_wall m - sp_to (last (sm_suspends m))"

text \<open>A suspend was seen: it is kept, the oldest of too many is dropped, and every listener is told.\<close>

definition add_suspend :: "host_suspend \<Rightarrow> suspend_monitor \<Rightarrow> suspend_monitor" where
  "add_suspend x m =
     (let xs = sm_suspends m @ [x] in
      m\<lparr>sm_suspends := (if kept_suspends < length xs then tl xs else xs),
        sm_notified := sm_notified m @ map (\<lambda>l. (l, x)) (sm_listeners m)\<rparr>)"

definition wake_settled :: "suspend_monitor \<Rightarrow> suspend_monitor" where
  "wake_settled m = (if calm m then m\<lparr>sm_resolved := sm_resolved m @ sm_waiters m, sm_waiters := []\<rparr> else m)"

definition glance :: "rat \<Rightarrow> rat \<Rightarrow> suspend_monitor \<Rightarrow> suspend_monitor" where
  "glance wall monotonic m =
     (let gap = max (wall - sm_wall m) (monotonic - sm_monotonic m);
          m1 = m\<lparr>sm_wall := wall, sm_monotonic := monotonic\<rparr>;
          m2 = (if suspend_heartbeat + suspend_gap < gap then add_suspend \<lparr>sp_from = sm_wall m, sp_to = wall\<rparr> m1 else m1) in
      wake_settled m2)"

definition suspends_since :: "rat \<Rightarrow> rat \<Rightarrow> rat \<Rightarrow> suspend_monitor \<Rightarrow> suspend_monitor \<times> host_suspend list" where
  "suspends_since wall monotonic since m =
     (let m' = glance wall monotonic m in (m', filter (\<lambda>x. since < sp_to x) (sm_suspends m')))"

text \<open>The promise \<open>i\<close> of \<open>awake\<close>; \<open>aborted\<close> is the state of its signal.\<close>

definition await_awake :: "rat \<Rightarrow> rat \<Rightarrow> nat \<Rightarrow> bool \<Rightarrow> suspend_monitor \<Rightarrow> suspend_monitor" where
  "await_awake wall monotonic i aborted m =
     (let m' = glance wall monotonic m in
      if calm m' then m'\<lparr>sm_resolved := sm_resolved m' @ [i]\<rparr>
      else if aborted then m'\<lparr>sm_rejected := sm_rejected m' @ [i]\<rparr>
      else m'\<lparr>sm_waiters := set_add i (sm_waiters m')\<rparr>)"

definition abort_awake :: "nat \<Rightarrow> suspend_monitor \<Rightarrow> suspend_monitor" where
  "abort_awake i m =
     (if i \<in> set (sm_waiters m)
      then m\<lparr>sm_waiters := filter (\<lambda>j. j \<noteq> i) (sm_waiters m), sm_rejected := sm_rejected m @ [i]\<rparr> else m)"

definition on_suspend :: "nat \<Rightarrow> suspend_monitor \<Rightarrow> suspend_monitor" where
  "on_suspend l m = m\<lparr>sm_listeners := set_add l (sm_listeners m)\<rparr>"

definition off_suspend :: "nat \<Rightarrow> suspend_monitor \<Rightarrow> suspend_monitor" where
  "off_suspend l m = m\<lparr>sm_listeners := filter (\<lambda>k. k \<noteq> l) (sm_listeners m)\<rparr>"

text \<open>The heartbeat and the calls, each with its reading of the clocks.\<close>

datatype monitor_event =
    Heartbeat rat rat
  | AskSuspends rat rat rat
  | AskAwake rat rat nat bool
  | AbortAwake nat
  | AddListener nat
  | RemoveListener nat

fun monitor_step :: "monitor_event \<Rightarrow> suspend_monitor \<Rightarrow> suspend_monitor" where
  "monitor_step (Heartbeat wall tick) m = glance wall tick m"
| "monitor_step (AskSuspends wall tick since) m = fst (suspends_since wall tick since m)"
| "monitor_step (AskAwake wall tick i aborted) m = await_awake wall tick i aborted m"
| "monitor_step (AbortAwake i) m = abort_awake i m"
| "monitor_step (AddListener l) m = on_suspend l m"
| "monitor_step (RemoveListener l) m = off_suspend l m"

fun reading :: "monitor_event \<Rightarrow> rat option" where
  "reading (Heartbeat wall tick) = Some wall"
| "reading (AskSuspends wall tick since) = Some wall"
| "reading (AskAwake wall tick i aborted) = Some wall"
| "reading _ = None"

section \<open>The suspends kept\<close>

text \<open>Spans in order, none in the future.\<close>

definition spans :: "rat \<Rightarrow> host_suspend list \<Rightarrow> bool" where
  "spans now xs \<longleftrightarrow> (\<forall>x \<in> set xs. sp_from x \<le> sp_to x \<and> sp_to x \<le> now) \<and> sorted_wrt (\<lambda>x y. sp_to x \<le> sp_from y) xs"

text \<open>Nobody waits once the computer has settled.\<close>

definition monitor_inv :: "suspend_monitor \<Rightarrow> bool" where
  "monitor_inv m \<longleftrightarrow> spans (sm_wall m) (sm_suspends m) \<and> (calm m \<longrightarrow> sm_waiters m = [])"

lemma spans_add: "spans now xs \<Longrightarrow> now \<le> wall \<Longrightarrow> spans wall (xs @ [\<lparr>sp_from = now, sp_to = wall\<rparr>])"
  by (fastforce simp: spans_def sorted_wrt_append)

lemma spans_tl: "spans now xs \<Longrightarrow> spans now (tl xs)"
  by (cases xs) (auto simp: spans_def)

lemma spans_later: "spans now xs \<Longrightarrow> now \<le> wall \<Longrightarrow> spans wall xs"
  by (fastforce simp: spans_def)

text \<open>The last span ends last.\<close>

lemma spans_last:
  assumes "spans now xs" "x \<in> set xs"
  shows "sp_to x \<le> sp_to (last xs)"
proof -
  obtain ys z where xs: "xs = ys @ [z]" using assms(2) by (cases xs rule: rev_cases) auto
  from assms have "x = z \<or> sp_to x \<le> sp_from z \<and> sp_from z \<le> sp_to z" by (auto simp: xs spans_def sorted_wrt_append)
  then show ?thesis by (auto simp: xs)
qed

lemma settled_all:
  assumes "monitor_inv m" "calm m" "x \<in> set (sm_suspends m)"
  shows "sp_to x + awake_settle \<le> sm_wall m"
  using assms spans_last [of "sm_wall m" "sm_suspends m" x] by (auto simp: monitor_inv_def calm_def)

lemma inv_wake: "spans (sm_wall m) (sm_suspends m) \<Longrightarrow> monitor_inv (wake_settled m)"
  by (auto simp: monitor_inv_def wake_settled_def calm_def)

lemma inv_look:
  assumes "monitor_inv m" "sm_wall m \<le> wall"
  shows "monitor_inv (glance wall tick m)"
  using assms unfolding glance_def Let_def
  by (intro inv_wake) (auto simp: monitor_inv_def add_suspend_def Let_def intro: spans_add spans_tl spans_later)

lemma look_wall [simp]: "sm_wall (glance wall tick m) = wall"
  by (simp add: glance_def Let_def wake_settled_def add_suspend_def)

lemma inv_step:
  assumes "monitor_inv m" "\<And>wall. reading e = Some wall \<Longrightarrow> sm_wall m \<le> wall"
  shows "monitor_inv (monitor_step e m)"
proof (cases e)
  case (AskAwake wall tick i aborted)
  then have "monitor_inv (glance wall tick m)" using assms by (simp add: inv_look)
  then show ?thesis using AskAwake by (auto simp: await_awake_def Let_def monitor_inv_def calm_def)
next
  case (Heartbeat wall tick)
  then show ?thesis using assms by (simp add: inv_look)
next
  case (AskSuspends wall tick since)
  then show ?thesis using assms by (simp add: inv_look suspends_since_def Let_def)
qed (use assms(1) in \<open>auto simp: abort_awake_def on_suspend_def off_suspend_def monitor_inv_def calm_def\<close>)

text \<open>A promise is resolved only by a look that finds the computer settled.\<close>

lemma resolved_look: "i \<in> set (sm_resolved (glance wall tick m)) \<Longrightarrow> i \<notin> set (sm_resolved m) \<Longrightarrow> calm (glance wall tick m)"
  by (auto simp: glance_def Let_def wake_settled_def add_suspend_def calm_def split: if_splits)

lemma resolved_step:
  assumes "i \<in> set (sm_resolved (monitor_step e m))" "i \<notin> set (sm_resolved m)"
  shows "calm (monitor_step e m)"
proof (cases e)
  case (AskAwake wall tick j aborted)
  then show ?thesis using assms resolved_look [of i wall tick m]
    by (auto simp: await_awake_def Let_def calm_def split: if_splits)
qed (use assms resolved_look in \<open>auto simp: suspends_since_def Let_def abort_awake_def on_suspend_def off_suspend_def split: if_splits\<close>)

text \<open>A gap seen by a question is among its answers.\<close>

lemma gap_answered:
  assumes "suspend_heartbeat + suspend_gap < wall - sm_wall m" "since < wall"
  shows "\<lparr>sp_from = sm_wall m, sp_to = wall\<rparr> \<in> set (snd (suspends_since wall tick since m))"
proof -
  have "x \<in> set (tl (xs @ [x]))" if "xs \<noteq> []" for x and xs :: "host_suspend list" using that by (cases xs) auto
  moreover have "xs \<noteq> []" if "kept_suspends < length (xs @ [x])" for x and xs :: "host_suspend list"
    using that by (auto simp: kept_suspends_def)
  ultimately show ?thesis using assms
    by (auto simp: suspends_since_def glance_def Let_def wake_settled_def add_suspend_def)
qed

section \<open>Property\<close>

fun clock_runs :: "rat \<Rightarrow> monitor_event list \<Rightarrow> bool" where
  "clock_runs now [] \<longleftrightarrow> True"
| "clock_runs now (e # es) \<longleftrightarrow> (case reading e of None \<Rightarrow> clock_runs now es | Some wall \<Rightarrow> now \<le> wall \<and> clock_runs wall es)"

lemma step_wall: "sm_wall (monitor_step e m) = (case reading e of None \<Rightarrow> sm_wall m | Some wall \<Rightarrow> wall)"
  by (cases e) (simp_all add: suspends_since_def await_awake_def abort_awake_def on_suspend_def off_suspend_def Let_def)

lemma inv_run: "monitor_inv m \<Longrightarrow> clock_runs (sm_wall m) es \<Longrightarrow> monitor_inv (fold monitor_step es m)"
proof (induction es arbitrary: m)
  case Nil
  then show ?case by simp
next
  case (Cons e es)
  have "monitor_inv (monitor_step e m)" using Cons.prems by (intro inv_step) auto
  moreover have "clock_runs (sm_wall (monitor_step e m)) es" using Cons.prems(2) by (auto simp: step_wall split: option.splits)
  ultimately show ?case using Cons.IH by simp
qed

lemma clock_runs_snoc: "clock_runs now (es @ [e]) \<Longrightarrow> clock_runs now es"
  by (induction es arbitrary: now) (auto split: option.splits)

text \<open>
  C24. Calls start only in a settled wake: a promise of \<open>awake\<close> that an event resolves is resolved at a time at least two
  minutes after every suspend the monitor keeps, the last one among them, and a settled monitor keeps nobody waiting.
\<close>
theorem awake_only_when_settled:
  assumes "clock_runs wall (es @ [e])" "m = fold monitor_step es (new_monitor wall tick)" "m' = monitor_step e m"
    and "i \<in> set (sm_resolved m')" "i \<notin> set (sm_resolved m)"
  shows "list_all (\<lambda>x. sp_to x + awake_settle \<le> sm_wall m') (sm_suspends m') \<and> sm_waiters m' = []"
proof -
  have "monitor_inv (new_monitor wall tick)" by (simp add: monitor_inv_def new_monitor_def spans_def)
  moreover have "sm_wall (new_monitor wall tick) = wall" by (simp add: new_monitor_def)
  ultimately have inv: "monitor_inv m'" using inv_run [of "new_monitor wall tick" "es @ [e]"] assms(1-3) by simp
  have calm: "calm m'" using resolved_step [of i e m] assms(3-5) by simp
  show ?thesis using settled_all [OF inv calm] inv calm by (auto simp: list_all_iff monitor_inv_def)
qed

definition night :: "monitor_event list" where
  "night = [AskAwake 60000 60000 0 False, AskAwake 61000 61000 1 False, Heartbeat 90000 90000, Heartbeat 120000 120000, Heartbeat 150000 150000]"

lemma night_wakes:
  "sm_resolved (fold monitor_step night (new_monitor 0 0)) = []"
  "sm_resolved (monitor_step (Heartbeat 180000 180000) (fold monitor_step night (new_monitor 0 0))) = [0, 1]"
  "map sp_to (sm_suspends (monitor_step (Heartbeat 180000 180000) (fold monitor_step night (new_monitor 0 0)))) = [60000]"
  by code_simp+

theorem awake_only_when_settled_witness:
  "list_all (\<lambda>x. sp_to x + awake_settle \<le> 180000) (sm_suspends (monitor_step (Heartbeat 180000 180000) (fold monitor_step night (new_monitor 0 0))))
     \<and> map sp_to (sm_suspends (monitor_step (Heartbeat 180000 180000) (fold monitor_step night (new_monitor 0 0)))) = [60000]"
proof -
  have "clock_runs 0 (night @ [Heartbeat 180000 180000])" by (simp add: night_def)
  moreover have "0 \<in> set (sm_resolved (monitor_step (Heartbeat 180000 180000) (fold monitor_step night (new_monitor 0 0))))"
    by (simp add: night_wakes del: monitor_step.simps)
  moreover have "sm_wall (monitor_step (Heartbeat 180000 180000) (fold monitor_step night (new_monitor 0 0))) = 180000" by simp
  ultimately show ?thesis
    using awake_only_when_settled [OF _ refl refl, of 0 night "Heartbeat 180000 180000" 0 0] night_wakes by fastforce
qed

end
