(* ===== verification/Continuation.thy ===== *)
theory Continuation
  imports Json
begin

text \<open>
  Session state that a provider wants back: \<open>packages/providers/src/continuation/\<close>. It is kept under the activity it
  belongs to, in base64, and never crosses to another transport or model. Bytes are characters; of UTF-8, the sequences of
  code units below 256 are decoded, and \<open>None\<close> stands for other text.
\<close>

section \<open>Base64\<close>

definition base64_alphabet :: string where
  "base64_alphabet = ''ABCDEFGHIJKLMNOPQRSTUVWXYZabcdefghijklmnopqrstuvwxyz0123456789+/''"

definition base64_digit :: "nat \<Rightarrow> char" where
  "base64_digit n = base64_alphabet ! n"

definition base64_value :: "char \<Rightarrow> nat" where
  "base64_value c = length (takeWhile (\<lambda>d. d \<noteq> c) base64_alphabet)"

definition is_base64_digit :: "char \<Rightarrow> bool" where
  "is_base64_digit c \<longleftrightarrow> c \<in> set base64_alphabet"

abbreviation byte :: "char \<Rightarrow> nat" where
  "byte c \<equiv> of_char c"

text \<open>\<open>Buffer.toString("base64")\<close>\<close>

fun base64 :: "string \<Rightarrow> string" where
  "base64 [] = []"
| "base64 [a] = [base64_digit (byte a div 4), base64_digit (byte a mod 4 * 16), CHR ''='', CHR ''='']"
| "base64 [a, b] = [base64_digit (byte a div 4), base64_digit (byte a mod 4 * 16 + byte b div 16), base64_digit (byte b mod 16 * 4), CHR ''='']"
| "base64 (a # b # c # r) =
     base64_digit (byte a div 4) # base64_digit (byte a mod 4 * 16 + byte b div 16)
     # base64_digit (byte b mod 16 * 4 + byte c div 64) # base64_digit (byte c mod 64) # base64 r"

text \<open>\<open>/^(?:[A-Za-z0-9+/]{4})*(?:[A-Za-z0-9+/]{2}==|[A-Za-z0-9+/]{3}=)?$/u\<close>\<close>

fun base64_shape :: "string \<Rightarrow> bool" where
  "base64_shape [] = True"
| "base64_shape (w # x # y # z # r) =
     (is_base64_digit w \<and> is_base64_digit x
      \<and> (if z = CHR ''='' then r = [] \<and> (y = CHR ''='' \<or> is_base64_digit y)
         else is_base64_digit y \<and> is_base64_digit z \<and> base64_shape r))"
| "base64_shape _ = False"

text \<open>\<open>Buffer.from(value, "base64")\<close> on text of that shape.\<close>

fun unbase64 :: "string \<Rightarrow> string" where
  "unbase64 (w # x # y # z # r) =
     (if y = CHR ''='' then [char_of (base64_value w * 4 + base64_value x div 16)]
      else if z = CHR ''='' then
        [char_of (base64_value w * 4 + base64_value x div 16), char_of (base64_value x mod 16 * 16 + base64_value y div 4)]
      else char_of (base64_value w * 4 + base64_value x div 16) # char_of (base64_value x mod 16 * 16 + base64_value y div 4)
        # char_of (base64_value y mod 4 * 64 + base64_value z) # unbase64 r)"
| "unbase64 _ = []"

text \<open>\<open>Buffer.toString("utf8")\<close>\<close>

fun utf8_decode :: "string \<Rightarrow> string option" where
  "utf8_decode [] = Some []"
| "utf8_decode (c # cs) =
     (if byte c < 128 then map_option (\<lambda>s. c # s) (utf8_decode cs)
      else case cs of
        [] \<Rightarrow> None
      | d # ds \<Rightarrow>
          if (byte c = 194 \<or> byte c = 195) \<and> 128 \<le> byte d \<and> byte d < 192
          then map_option (\<lambda>s. char_of ((byte c - 192) * 64 + (byte d - 128)) # s) (utf8_decode ds)
          else None)"

section \<open>The store\<close>

datatype opaque = OpaqueText string | OpaqueBytes string

record session_continuation =
  sc_transport :: string
  sc_model :: string
  sc_activity :: string
  sc_opaque :: opaque
  sc_expires :: "number option"

text \<open>What the backend holds is read back unchecked.\<close>

record persisted_continuation =
  pc_transport :: json
  pc_model :: json
  pc_activity :: json
  pc_base64 :: json
  pc_encoding :: json
  pc_expires :: json

record continuation_trace =
  ct_hash :: string
  ct_length :: nat
  ct_scope :: string
  ct_provider :: string
  ct_model :: string

datatype continuation_error =
    ContinuationActivityMismatch | TransportBoundaryCrossing | ModelBoundaryCrossing | InvalidPersistedContinuation
  | InvalidContinuationEncoding | InvalidContinuationExpiry | InvalidContinuationBase64 | BackendFailed | TextNotModelled

definition opaque_bytes :: "opaque \<Rightarrow> string" where
  "opaque_bytes x = (case x of OpaqueText s \<Rightarrow> utf8 s | OpaqueBytes b \<Rightarrow> b)"

definition trace_of :: "js_host \<Rightarrow> string \<Rightarrow> string \<Rightarrow> string \<Rightarrow> continuation_trace" where
  "trace_of h bytes provider model =
     \<lparr>ct_hash = sha256 h bytes, ct_length = length bytes, ct_scope = ''session'', ct_provider = provider, ct_model = model\<rparr>"

definition continuation_trace_of :: "js_host \<Rightarrow> session_continuation \<Rightarrow> continuation_trace" where
  "continuation_trace_of h st = trace_of h (opaque_bytes (sc_opaque st)) (sc_transport st) (sc_model st)"

definition present_text :: "json \<Rightarrow> bool" where
  "present_text v \<longleftrightarrow> (case v of JStr s \<Rightarrow> s \<noteq> [] | _ \<Rightarrow> False)"

definition validate_persisted :: "persisted_continuation \<Rightarrow> continuation_error + unit" where
  "validate_persisted v =
     (if \<not> list_all present_text [pc_transport v, pc_model v, pc_activity v] then Inl InvalidPersistedContinuation
      else if pc_encoding v \<noteq> JStr ''utf8'' \<and> pc_encoding v \<noteq> JStr ''bytes'' then Inl InvalidContinuationEncoding
      else if pc_expires v \<noteq> JNull \<and> (case pc_expires v of JNum (Fin t) \<Rightarrow> t < 0 | _ \<Rightarrow> True) then Inl InvalidContinuationExpiry
      else if (case pc_base64 v of JStr _ \<Rightarrow> False | _ \<Rightarrow> True) then Inl InvalidContinuationBase64 else Inr ())"

definition decode_base64 :: "string \<Rightarrow> continuation_error + string" where
  "decode_base64 value =
     (if length value mod 4 \<noteq> 0 \<or> \<not> base64_shape value then Inl InvalidContinuationBase64
      else let bytes = unbase64 value in if base64 bytes \<noteq> value then Inl InvalidContinuationBase64 else Inr bytes)"

definition text_value :: "json \<Rightarrow> string" where
  "text_value v = (case v of JStr s \<Rightarrow> s | _ \<Rightarrow> [])"

definition expiry_value :: "json \<Rightarrow> number option" where
  "expiry_value v = (case v of JNum n \<Rightarrow> Some n | _ \<Rightarrow> None)"

type_synonym continuation_backend = "(string \<times> persisted_continuation) list"

text \<open>\<open>ok\<close> is whether the call of the backend resolves.\<close>

definition save_continuation ::
  "js_host \<Rightarrow> bool \<Rightarrow> bool \<Rightarrow> string \<Rightarrow> session_continuation \<Rightarrow> continuation_backend \<Rightarrow>
     continuation_backend \<times> (continuation_error + continuation_trace option)" where
  "save_continuation h enabled ok activity st backend =
     (if sc_activity st \<noteq> activity then (backend, Inl ContinuationActivityMismatch)
      else if \<not> enabled then (backend, Inr None)
      else let bytes = opaque_bytes (sc_opaque st) in
        if \<not> ok then (backend, Inl BackendFailed)
        else (AList.update activity
            \<lparr>pc_transport = JStr (sc_transport st), pc_model = JStr (sc_model st), pc_activity = JStr activity, pc_base64 = JStr (base64 bytes),
             pc_encoding = JStr (case sc_opaque st of OpaqueText _ \<Rightarrow> ''utf8'' | OpaqueBytes _ \<Rightarrow> ''bytes''),
             pc_expires = (case sc_expires st of None \<Rightarrow> JNull | Some n \<Rightarrow> JNum n)\<rparr> backend,
          Inr (Some (trace_of h bytes (sc_transport st) (sc_model st)))))"

definition restore_continuation :: "rat \<Rightarrow> string \<Rightarrow> string \<Rightarrow> string \<Rightarrow> persisted_continuation \<Rightarrow> continuation_error + session_continuation option" where
  "restore_continuation now activity transport model v =
     result_bind (validate_persisted v) (\<lambda>_.
       if pc_activity v \<noteq> JStr activity then Inl ContinuationActivityMismatch
       else if pc_transport v \<noteq> JStr transport then Inl TransportBoundaryCrossing
       else if pc_model v \<noteq> JStr model then Inl ModelBoundaryCrossing
       else if (case pc_expires v of JNum (Fin t) \<Rightarrow> t \<le> now | _ \<Rightarrow> False) then Inr None
       else result_bind (decode_base64 (text_value (pc_base64 v))) (\<lambda>bytes.
         result_bind (if pc_encoding v = JStr ''utf8''
             then (case utf8_decode bytes of None \<Rightarrow> Inl TextNotModelled | Some s \<Rightarrow> Inr (OpaqueText s)) else Inr (OpaqueBytes bytes)) (\<lambda>x.
           Inr (Some \<lparr>sc_transport = transport, sc_model = model, sc_activity = activity, sc_opaque = x, sc_expires = expiry_value (pc_expires v)\<rparr>))))"

definition load_continuation ::
  "bool \<Rightarrow> bool \<Rightarrow> rat \<Rightarrow> string \<Rightarrow> string \<Rightarrow> string \<Rightarrow> continuation_backend \<Rightarrow> continuation_error + session_continuation option" where
  "load_continuation enabled ok now activity transport model backend =
     (if \<not> enabled then Inr None
      else if \<not> ok then Inl BackendFailed
      else case map_of backend activity of None \<Rightarrow> Inr None | Some v \<Rightarrow> restore_continuation now activity transport model v)"

section \<open>Round trips\<close>

lemma code_less [simp]: "byte c < 256"
  by (rule nat_of_char_less_256)

lemma base64_value_digit [simp]: "n < 64 \<Longrightarrow> base64_value (base64_digit n) = n"
proof -
  have "list_all (\<lambda>n. base64_value (base64_digit n) = n) [0..<64]" by code_simp
  then show "n < 64 \<Longrightarrow> base64_value (base64_digit n) = n" by (simp add: list_all_iff)
qed

lemma is_base64_digit [simp]: "n < 64 \<Longrightarrow> is_base64_digit (base64_digit n)" "n < 64 \<Longrightarrow> base64_digit n \<noteq> CHR ''=''"
proof -
  have "length base64_alphabet = 64" "CHR ''='' \<notin> set base64_alphabet" by code_simp+
  then show "n < 64 \<Longrightarrow> is_base64_digit (base64_digit n)" "n < 64 \<Longrightarrow> base64_digit n \<noteq> CHR ''=''"
    by (auto simp: is_base64_digit_def base64_digit_def in_set_conv_nth)
qed

lemma shares [simp]: "byte a div 4 < 64" "byte a div 16 < 16" "byte a div 64 < 4"
  by (simp_all add: less_mult_imp_div_less)

lemma sextets [simp]:
  "byte a mod 4 * 16 < 64" "byte a mod 4 * 16 + byte b div 16 < 64" "byte b mod 16 * 4 < 64"
  "byte b mod 16 * 4 + byte c div 64 < 64" "byte c mod 64 < 64"
proof -
  have "byte a mod 4 < 4" "byte b mod 16 < 16" by simp_all
  moreover have "byte b div 16 < 16" "byte c div 64 < 4" by (rule shares)+
  ultimately show "byte a mod 4 * 16 < 64" "byte a mod 4 * 16 + byte b div 16 < 64" "byte b mod 16 * 4 < 64"
    "byte b mod 16 * 4 + byte c div 64 < 64" by linarith+
qed simp

lemma unbase64_base64: "unbase64 (base64 bs) = bs"
  by (induction bs rule: base64.induct) simp_all

lemma base64_shape_base64: "base64_shape (base64 bs) \<and> length (base64 bs) mod 4 = 0"
  by (induction bs rule: base64.induct) simp_all

lemma decode_encode: "decode_base64 (base64 bs) = Inr bs"
  using base64_shape_base64 [of bs] by (simp add: decode_base64_def unbase64_base64)

lemma utf8_decode_char: "utf8_decode (utf8_char c @ s) = map_option (\<lambda>t. c # t) (utf8_decode s)"
proof (cases "byte c < 128")
  case True
  then show ?thesis by (simp add: utf8_char_def)
next
  case False
  have "2 \<le> byte c div 64" "byte c div 64 < 4" using False by (simp_all add: less_eq_div_iff_mult_less_eq)
  then have "byte c div 64 = 2 \<or> byte c div 64 = 3" by linarith
  moreover have "byte c div 64 * 64 + byte c mod 64 = byte c" by simp
  ultimately consider "byte c div 64 = 2" "128 + byte c mod 64 = byte c" | "byte c div 64 = 3" "192 + byte c mod 64 = byte c" by linarith
  then show ?thesis
  proof cases
    case 1
    have "char_of (128 + byte c mod 64) = c" by (subst 1(2)) simp
    moreover have "byte c mod 64 < 64" by simp
    then have "byte c < 192" using 1(2) by linarith
    ultimately show ?thesis using 1(1) False by (simp add: utf8_char_def Let_def of_char_of)
  next
    case 2
    have "char_of (192 + byte c mod 64) = c" by (subst 2(2)) simp
    with 2(1) False show ?thesis by (simp add: utf8_char_def Let_def of_char_of)
  qed
qed

lemma utf8_decode_utf8: "utf8_decode (utf8 s) = Some s"
  by (induction s) (simp_all add: utf8_def utf8_decode_char)

section \<open>Property\<close>

text \<open>
  C25. State that was saved is given back intact to the activity, transport and model it was saved for, and to them alone: a
  load for another transport or model is refused.
\<close>
theorem continuation_stays_within:
  assumes "sc_activity st = activity" "activity \<noteq> []" "sc_transport st \<noteq> []" "sc_model st \<noteq> []"
    and "case sc_expires st of None \<Rightarrow> True | Some n \<Rightarrow> \<exists>t. n = Fin t \<and> 0 \<le> t \<and> now < t"
    and "backend' = fst (save_continuation h True True activity st backend)"
  shows "load_continuation True True now activity transport model backend' =
    (if transport \<noteq> sc_transport st then Inl TransportBoundaryCrossing
     else if model \<noteq> sc_model st then Inl ModelBoundaryCrossing else Inr (Some st))"
  using assms
  by (cases st) (auto simp: load_continuation_def restore_continuation_def save_continuation_def Let_def validate_persisted_def
      present_text_def text_value_def expiry_value_def decode_encode opaque_bytes_def utf8_decode_utf8 split: option.splits opaque.splits)

definition session_example :: session_continuation where
  "session_example = \<lparr>sc_transport = ''t'', sc_model = ''m'', sc_activity = ''a'', sc_opaque = OpaqueText ''Man'', sc_expires = Some (num 9)\<rparr>"

definition continuation_host :: js_host where
  "continuation_host = \<lparr>nfc = (\<lambda>s. s), numstr = (\<lambda>n. ''1''), lc = (\<lambda>a b. True), sha256 = (\<lambda>s. replicate 64 (CHR ''a'')),
     parse_bytes = (\<lambda>s. None)\<rparr>"

theorem continuation_stays_within_witness:
  "load_continuation True True 5 ''a'' ''t'' ''m'' (fst (save_continuation continuation_host True True ''a'' session_example [])) = Inr (Some session_example)
   \<and> load_continuation True True 5 ''a'' ''u'' ''m'' (fst (save_continuation continuation_host True True ''a'' session_example [])) = Inl TransportBoundaryCrossing
   \<and> load_continuation True True 9 ''a'' ''t'' ''m'' (fst (save_continuation continuation_host True True ''a'' session_example [])) = Inr None
   \<and> base64 ''Man'' = ''TWFu''"
proof -
  have ok: "sc_activity session_example = ''a''" "''a'' \<noteq> []" "sc_transport session_example \<noteq> []" "sc_model session_example \<noteq> []"
      "case sc_expires session_example of None \<Rightarrow> True | Some n \<Rightarrow> \<exists>t. n = Fin t \<and> 0 \<le> t \<and> 5 < t"
    by (simp_all add: session_example_def num_def)
  have late: "load_continuation True True 9 ''a'' ''t'' ''m'' (fst (save_continuation continuation_host True True ''a'' session_example [])) = Inr None"
    by (simp add: load_continuation_def save_continuation_def restore_continuation_def validate_persisted_def session_example_def
        present_text_def num_def Let_def)
  have "base64 ''Man'' = ''TWFu''" by code_simp
  with late continuation_stays_within [OF ok refl] show ?thesis by (simp add: session_example_def)
qed

end
