(* ===== verification/Provider_Runtime.thy ===== *)
theory Provider_Runtime
  imports Rate_Scheduler Host_Suspends Continuation
begin

text \<open>
  The entry to provider transports: \<open>packages/providers/src/runtime.ts\<close>, over the errors of
  \<open>packages/providers/src/transport-contract.ts\<close>. What the runtime is given (budget, scheduler, continuations, transports,
  timer, the watch on suspends, the signal) is a record of operations on a world \<open>'w\<close>; each may fail.
\<close>

section \<open>Failures\<close>

datatype transport_code =
    Auth | InvalidRequest | MalformedResponse | RateLimit | Quota | TimedOut | CancelledCall | HttpFailure | OutputLimit

fun code_text :: "transport_code \<Rightarrow> string" where
  "code_text Auth = ''AUTH''" | "code_text InvalidRequest = ''INVALID_REQUEST''"
| "code_text MalformedResponse = ''MALFORMED_RESPONSE''" | "code_text RateLimit = ''RATE_LIMIT''" | "code_text Quota = ''QUOTA''"
| "code_text TimedOut = ''TIMEOUT''" | "code_text CancelledCall = ''CANCELLED''" | "code_text HttpFailure = ''HTTP''"
| "code_text OutputLimit = ''OUTPUT_LIMIT''"

datatype usage_evidence = NoUsage string | UsageUnknown

text \<open>The trace of a stream, as its transport renders it.\<close>

type_synonym stream_trace = string

record transport_error =
  te_code :: transport_code
  te_message :: string
  te_retryable :: bool
  te_retry_after :: "number option"
  te_evidence :: usage_evidence
  te_stream :: "stream_trace option"

datatype thrown = TransportFailure transport_error | TypeFailure string | OtherFailure string

definition plain_failure :: "transport_code \<Rightarrow> string \<Rightarrow> bool \<Rightarrow> thrown" where
  "plain_failure code message retryable =
     TransportFailure \<lparr>te_code = code, te_message = message, te_retryable = retryable, te_retry_after = None, te_evidence = UsageUnknown, te_stream = None\<rparr>"

definition process_tree_not_terminated :: string where
  "process_tree_not_terminated = ''CLI_PROCESS_TREE_NOT_TERMINATED''"

fun left_processes_running :: "thrown \<Rightarrow> bool" where
  "left_processes_running (TransportFailure e) = starts_with process_tree_not_terminated (te_message e)"
| "left_processes_running _ = False"

text \<open>\<open>summary\<close> is \<open>streamSummary\<close>.\<close>

definition with_stream_trace :: "(stream_trace \<Rightarrow> string) \<Rightarrow> transport_error \<Rightarrow> stream_trace \<Rightarrow> transport_error" where
  "with_stream_trace summary e stream =
     e\<lparr>te_message := (if te_code e = TimedOut then te_message e @ ''; '' @ summary stream else te_message e), te_stream := Some stream\<rparr>"

section \<open>What the runtime is given\<close>

record invocation_context =
  ic_activity :: string
  ic_provider :: string
  ic_transport :: string
  ic_model :: string
  ic_estimated :: number
  ic_retries :: number
  ic_timeout :: number
  ic_retry_timeouts :: bool

record budget_reservation =
  br_allowed :: bool
  br_reason :: "string option"
  br_id :: "string option"

record transport_request =
  tq_model :: string
  tq_body :: string
  tq_continuation :: "string option"

record transport_response =
  tr_usage :: usage
  tr_continuation :: "string option"
  tr_body :: string

datatype trace_outcome = TraceCompleted | TraceRetry | TraceFailed

record invocation_trace =
  it_activity :: string
  it_provider :: string
  it_model :: string
  it_transport :: string
  it_attempt :: nat
  it_outcome :: trace_outcome
  it_error :: "string option"
  it_usage :: "usage option"
  it_released :: "string option"
  it_suspended :: "host_suspend option"
  it_stream :: "stream_trace option"

text \<open>What happens after a request was sent, in order. No more happenings: the timers run out.\<close>

datatype happening = Responded transport_response | Rejected thrown | TimeUp | StopBound | AbortedNow

record 'w runtime_ports =
  rt_aborted :: "'w \<Rightarrow> bool"
  rt_transports :: "string list"
  rt_load :: "string \<Rightarrow> string \<Rightarrow> string \<Rightarrow> 'w \<Rightarrow> 'w \<times> (thrown + opaque option)"
  rt_awake :: "'w \<Rightarrow> 'w \<times> (thrown + unit)"
  rt_reserve :: "string \<Rightarrow> number \<Rightarrow> 'w \<Rightarrow> 'w \<times> (thrown + budget_reservation)"
  rt_acquire :: "string \<Rightarrow> number \<Rightarrow> 'w \<Rightarrow> 'w \<times> (thrown + unit)"
  rt_free :: "'w \<Rightarrow> 'w"
  rt_now :: "'w \<Rightarrow> rat"
  rt_send :: "string \<Rightarrow> transport_request \<Rightarrow> 'w \<Rightarrow> 'w \<times> happening list"
  rt_record :: "string \<Rightarrow> usage \<Rightarrow> string option \<Rightarrow> 'w \<Rightarrow> 'w \<times> (thrown + unit)"
  rt_release :: "(string \<Rightarrow> string \<Rightarrow> string \<Rightarrow> 'w \<Rightarrow> 'w \<times> (thrown + unit)) option"
  rt_save :: "string \<Rightarrow> session_continuation \<Rightarrow> 'w \<Rightarrow> 'w \<times> (thrown + unit)"
  rt_trace :: "invocation_trace \<Rightarrow> 'w \<Rightarrow> 'w"
  rt_suspends :: "rat \<Rightarrow> 'w \<Rightarrow> 'w \<times> host_suspend list"
  rt_retry_after :: "string \<Rightarrow> rat \<Rightarrow> 'w \<Rightarrow> 'w"
  rt_sleep :: "rat \<Rightarrow> 'w \<Rightarrow> 'w \<times> (thrown + unit)"
  rt_backoff :: rat
  rt_summary :: "stream_trace \<Rightarrow> string"
  rt_date :: "rat \<Rightarrow> string"

section \<open>Errors of an invocation\<close>

datatype invocation_error =
    InvalidContext string
  | ModelMismatch
  | UnknownTransport string
  | BudgetSuspended string
  | InvocationFailure string nat string "string option"
  | UsageLimitReached string nat
  | HostSlept string nat string host_suspend
  | TimeLimitReached string nat
  | Propagated thrown

definition cancelled :: "nat \<Rightarrow> invocation_error" where
  "cancelled attempts = InvocationFailure ''Provider request cancelled before dispatch'' attempts ''CANCELLED'' None"

definition validate_invocation :: "invocation_context \<Rightarrow> invocation_error + unit" where
  "validate_invocation c =
     (if blank (ic_activity c) then Inl (InvalidContext ''INVALID_ACTIVITY_ID'')
      else if blank (ic_provider c) then Inl (InvalidContext ''INVALID_PROVIDER_ID'')
      else if blank (ic_transport c) then Inl (InvalidContext ''INVALID_TRANSPORT_ID'')
      else if blank (ic_model c) then Inl (InvalidContext ''INVALID_MODEL_ID'')
      else if \<not> safe_integer (ic_estimated c) \<or> int_of_number (ic_estimated c) < 0 then Inl (InvalidContext ''INVALID_ESTIMATED_TOKENS'')
      else if \<not> safe_integer (ic_retries c) \<or> int_of_number (ic_retries c) < 0 \<or> max_safe \<le> int_of_number (ic_retries c)
      then Inl (InvalidContext ''INVALID_MAXIMUM_RETRIES'')
      else if \<not> safe_integer (ic_timeout c) \<or> int_of_number (ic_timeout c) < 1 then Inl (InvalidContext ''INVALID_STAGE_TIMEOUT'')
      else Inr ())"

text \<open>\<open>/^Provider HTTP (\d{3})\b/u\<close> and \<open>/^([A-Z][A-Z0-9]*(?:_[A-Z0-9]+)+)(?::|$)/u\<close> on a message.\<close>

definition digit_char :: "char \<Rightarrow> bool" where
  "digit_char c \<longleftrightarrow> CHR ''0'' \<le> c \<and> c \<le> CHR ''9''"

definition upper_char :: "char \<Rightarrow> bool" where
  "upper_char c \<longleftrightarrow> CHR ''A'' \<le> c \<and> c \<le> CHR ''Z''"

definition word_char :: "char \<Rightarrow> bool" where
  "word_char c \<longleftrightarrow> digit_char c \<or> upper_char c \<or> CHR ''a'' \<le> c \<and> c \<le> CHR ''z'' \<or> c = CHR ''_''"

definition http_status :: "string \<Rightarrow> string option" where
  "http_status message =
     (let d = drop 14 message in
      if starts_with ''Provider HTTP '' message \<and> length (take 3 d) = 3 \<and> list_all digit_char (take 3 d)
         \<and> (case drop 3 d of [] \<Rightarrow> True | c # _ \<Rightarrow> \<not> word_char c)
      then Some (take 3 d) else None)"

definition leading_code :: "string \<Rightarrow> string option" where
  "leading_code message =
     (let run = takeWhile (\<lambda>c. upper_char c \<or> digit_char c \<or> c = CHR ''_'') message; parts = split_on CHR ''_'' run in
      if 2 \<le> length parts \<and> list_all (\<lambda>p. p \<noteq> []) parts \<and> (case run of [] \<Rightarrow> False | c # _ \<Rightarrow> upper_char c)
         \<and> (case drop (length run) message of [] \<Rightarrow> True | c # _ \<Rightarrow> c = CHR '':'')
      then Some run else None)"

definition transport_code_of :: "transport_error \<Rightarrow> string option" where
  "transport_code_of e =
     (case http_status (te_message e) of Some status \<Rightarrow> Some (''HTTP_'' @ status) | None \<Rightarrow> leading_code (te_message e))"

section \<open>A request and its time limit\<close>

definition milliseconds :: "invocation_context \<Rightarrow> string" where
  "milliseconds c = nat_string (nat (int_of_number (ic_timeout c))) @ ''ms''"

definition time_out :: "invocation_context \<Rightarrow> transport_error" where
  "time_out c = \<lparr>te_code = TimedOut, te_message = ''Provider stage timed out after '' @ milliseconds c, te_retryable = True,
     te_retry_after = None, te_evidence = UsageUnknown, te_stream = None\<rparr>"

definition still_running :: "invocation_context \<Rightarrow> thrown" where
  "still_running c = plain_failure TimedOut
     (''Provider stage timed out after '' @ milliseconds c @ '', and the call had not stopped 30000ms after it was cancelled'') False"

definition call_cancelled :: thrown where
  "call_cancelled = plain_failure CancelledCall ''Provider request cancelled'' False"

fun timed_out_send :: "(stream_trace \<Rightarrow> string) \<Rightarrow> invocation_context \<Rightarrow> happening list \<Rightarrow> thrown" where
  "timed_out_send summary c [] = still_running c"
| "timed_out_send summary c (Responded _ # _) = TransportFailure (time_out c)"
| "timed_out_send summary c (Rejected e # _) =
     (if left_processes_running e then e
      else case e of
        TransportFailure t \<Rightarrow> (case te_stream t of None \<Rightarrow> TransportFailure (time_out c)
          | Some stream \<Rightarrow> TransportFailure (with_stream_trace summary (time_out c) stream))
      | _ \<Rightarrow> TransportFailure (time_out c))"
| "timed_out_send summary c (StopBound # _) = still_running c"
| "timed_out_send summary c (AbortedNow # _) = call_cancelled"
| "timed_out_send summary c (TimeUp # hs) = timed_out_send summary c hs"

fun race :: "(stream_trace \<Rightarrow> string) \<Rightarrow> invocation_context \<Rightarrow> happening list \<Rightarrow> thrown + transport_response" where
  "race summary c [] = Inl (timed_out_send summary c [])"
| "race summary c (Responded r # _) = Inr r"
| "race summary c (Rejected e # _) = Inl e"
| "race summary c (TimeUp # hs) = Inl (timed_out_send summary c hs)"
| "race summary c (AbortedNow # _) = Inl call_cancelled"
| "race summary c (StopBound # hs) = race summary c hs"

definition send_with_timeout ::
  "'w runtime_ports \<Rightarrow> invocation_context \<Rightarrow> transport_request \<Rightarrow> 'w \<Rightarrow> 'w \<times> (thrown + transport_response)" where
  "send_with_timeout P c q w =
     (if rt_aborted P w then (w, Inl (plain_failure CancelledCall ''Provider request cancelled before dispatch'' False))
      else case rt_send P (ic_transport c) q w of (w', hs) \<Rightarrow> (w', race (rt_summary P) c hs))"

section \<open>Judging a failure\<close>

fun time_limited :: "invocation_context \<Rightarrow> thrown \<Rightarrow> bool" where
  "time_limited c (TransportFailure e) \<longleftrightarrow> \<not> ic_retry_timeouts c \<and> te_code e = TimedOut \<and> te_retryable e"
| "time_limited c _ \<longleftrightarrow> False"

fun sleep_explains :: "thrown \<Rightarrow> bool" where
  "sleep_explains (TransportFailure e) \<longleftrightarrow>
     (if te_code e = TimedOut \<or> te_code e = MalformedResponse then te_retryable e
      else te_code e = HttpFailure \<and> te_evidence e = UsageUnknown \<and> \<not> left_processes_running (TransportFailure e))"
| "sleep_explains (TypeFailure _) \<longleftrightarrow> True"
| "sleep_explains (OtherFailure _) \<longleftrightarrow> False"

definition span :: "host_suspend list \<Rightarrow> host_suspend option" where
  "span xs =
     (case xs of
        [] \<Rightarrow> None
      | x # ys \<Rightarrow> Some \<lparr>sp_from = fold min (map sp_from ys) (sp_from x), sp_to = fold max (map sp_to ys) (sp_to x)\<rparr>)"

definition merge_slept :: "host_suspend option \<Rightarrow> host_suspend option \<Rightarrow> host_suspend option" where
  "merge_slept slept interruption =
     (case interruption of
        None \<Rightarrow> slept
      | Some x \<Rightarrow> Some (case slept of None \<Rightarrow> x
          | Some y \<Rightarrow> \<lparr>sp_from = min (sp_from y) (sp_from x), sp_to = max (sp_to y) (sp_to x)\<rparr>))"

definition maximum_suspend_resends :: nat where
  "maximum_suspend_resends = 3"

text \<open>Which usage a failed attempt provably did not consume, by which rule.\<close>

fun release_rule :: "bool \<Rightarrow> thrown \<Rightarrow> string option" where
  "release_rule False _ = Some ''not_dispatched''"
| "release_rule True (TransportFailure e) = (case te_evidence e of NoUsage rule \<Rightarrow> Some rule | UsageUnknown \<Rightarrow> None)"
| "release_rule True _ = None"

definition error_text :: "thrown \<Rightarrow> string" where
  "error_text e = (case e of TransportFailure t \<Rightarrow> code_text (te_code t) | _ \<Rightarrow> ''UNKNOWN'')"

definition retries_of :: "invocation_context \<Rightarrow> nat" where
  "retries_of c = nat (int_of_number (ic_retries c))"

definition retryable_error :: "invocation_context \<Rightarrow> thrown \<Rightarrow> bool" where
  "retryable_error c e \<longleftrightarrow> (case e of TransportFailure t \<Rightarrow> te_retryable t | _ \<Rightarrow> False) \<and> \<not> time_limited c e"

definition retry_hint :: "thrown \<Rightarrow> number option" where
  "retry_hint e = (case e of TransportFailure t \<Rightarrow> te_retry_after t | _ \<Rightarrow> None)"

definition retry_delay :: "'w runtime_ports \<Rightarrow> nat \<Rightarrow> thrown \<Rightarrow> scheduler_error + rat" where
  "retry_delay P attempt e =
     bounded_timer_delay (case retry_hint e of Some n \<Rightarrow> n | None \<Rightarrow> Fin (min (rt_backoff P) (1000 * 2 ^ (attempt - 1))))"

section \<open>One attempt\<close>

record loop_state =
  lp_attempt :: nat
  lp_attempts :: nat
  lp_resent :: nat
  lp_slept :: "host_suspend option"
  lp_cut :: bool
  lp_last :: "thrown option"

datatype loop_step =
    Returned transport_response
  | Threw invocation_error
  | Again loop_state
  | GaveUp loop_state

text \<open>How far the \<open>try\<close> came: the lease, the request and the time it was sent.\<close>

record sent_call =
  dp_leased :: bool
  dp_sent :: bool
  dp_started :: rat

definition trace_of_attempt :: "invocation_context \<Rightarrow> nat \<Rightarrow> trace_outcome \<Rightarrow> string option \<Rightarrow> usage option \<Rightarrow> invocation_trace" where
  "trace_of_attempt c attempt outcome err used =
     \<lparr>it_activity = ic_activity c, it_provider = ic_provider c, it_model = ic_model c, it_transport = ic_transport c,
      it_attempt = attempt, it_outcome = outcome, it_error = err, it_usage = used, it_released = None, it_suspended = None, it_stream = None\<rparr>"

definition session_state :: "invocation_context \<Rightarrow> string \<Rightarrow> session_continuation" where
  "session_state c text =
     \<lparr>sc_transport = ic_transport c, sc_model = ic_model c, sc_activity = ic_activity c, sc_opaque = OpaqueText text, sc_expires = None\<rparr>"

definition settle_response ::
  "'w runtime_ports \<Rightarrow> invocation_context \<Rightarrow> nat \<Rightarrow> budget_reservation \<Rightarrow> transport_response \<Rightarrow> 'w \<Rightarrow> 'w \<times> (thrown + transport_response)" where
  "settle_response P c attempt r response w =
     (case rt_record P (ic_activity c) (tr_usage response) (br_id r) w of
        (w1, Inl e) \<Rightarrow> (w1, Inl e)
      | (w1, Inr _) \<Rightarrow>
          (case (case tr_continuation response of None \<Rightarrow> (w1, Inr ()) | Some text \<Rightarrow> rt_save P (ic_activity c) (session_state c text) w1) of
             (w2, Inl e) \<Rightarrow> (w2, Inl e)
           | (w2, Inr _) \<Rightarrow>
               (rt_trace P (trace_of_attempt c attempt TraceCompleted None (Some (tr_usage response))) w2, Inr response)))"

definition try_dispatch ::
  "'w runtime_ports \<Rightarrow> invocation_context \<Rightarrow> transport_request \<Rightarrow> nat \<Rightarrow> budget_reservation \<Rightarrow> 'w \<Rightarrow>
     'w \<times> sent_call \<times> (thrown + transport_response)" where
  "try_dispatch P c q attempt r w =
     (case rt_acquire P (ic_provider c) (ic_estimated c) w of
        (w1, Inl e) \<Rightarrow> (w1, \<lparr>dp_leased = False, dp_sent = False, dp_started = 0\<rparr>, Inl e)
      | (w1, Inr _) \<Rightarrow>
          if rt_aborted P w1
          then (w1, \<lparr>dp_leased = True, dp_sent = False, dp_started = 0\<rparr>,
            Inl (plain_failure CancelledCall ''Provider request cancelled before dispatch'' False))
          else (let d = \<lparr>dp_leased = True, dp_sent = True, dp_started = rt_now P w1\<rparr> in
            case send_with_timeout P c q w1 of
              (w2, Inl e) \<Rightarrow> (w2, d, Inl e)
            | (w2, Inr response) \<Rightarrow> (case settle_response P c attempt r response w2 of (w3, x) \<Rightarrow> (w3, d, x))))"

definition give_back ::
  "'w runtime_ports \<Rightarrow> invocation_context \<Rightarrow> budget_reservation \<Rightarrow> string option \<Rightarrow> 'w \<Rightarrow> 'w \<times> string option" where
  "give_back P c r rule w =
     (case (rule, br_id r, rt_release P) of
        (Some text, Some i, Some release) \<Rightarrow>
          (case release (ic_activity c) i text w of (w', Inl _) \<Rightarrow> (w', None) | (w', Inr _) \<Rightarrow> (w', Some text))
      | _ \<Rightarrow> (w, None))"

definition free_lease :: "'w runtime_ports \<Rightarrow> sent_call \<Rightarrow> 'w \<Rightarrow> 'w" where
  "free_lease P d w = (if dp_leased d then rt_free P w else w)"

definition sleep_unless_aborted :: "'w runtime_ports \<Rightarrow> rat \<Rightarrow> 'w \<Rightarrow> 'w \<times> (thrown + unit)" where
  "sleep_unless_aborted P delay w = (if rt_aborted P w then (w, Inl call_cancelled) else rt_sleep P delay w)"

text \<open>The \<open>catch\<close> and \<open>finally\<close> of an attempt that failed with \<open>e\<close>, and the backoff.\<close>

definition back_off ::
  "'w runtime_ports \<Rightarrow> invocation_context \<Rightarrow> loop_state \<Rightarrow> sent_call \<Rightarrow> thrown \<Rightarrow> 'w \<Rightarrow> 'w \<times> loop_step" where
  "back_off P c L d e w =
     (case retry_delay P (lp_attempt L) e of
        Inl _ \<Rightarrow> (free_lease P d w, Threw (Propagated (OtherFailure ''INVALID_TIMER_DELAY'')))
      | Inr delay \<Rightarrow>
          (let w1 = (if error_text e = ''RATE_LIMIT'' then rt_retry_after P (ic_provider c) delay w else w) in
           case sleep_unless_aborted P delay (free_lease P d w1) of
             (w2, Inl e') \<Rightarrow> (w2, GaveUp (L\<lparr>lp_last := Some e', lp_cut := False\<rparr>))
           | (w2, Inr _) \<Rightarrow> (w2, Again (L\<lparr>lp_attempt := lp_attempt L + 1\<rparr>))))"

definition interrupted :: "'w runtime_ports \<Rightarrow> sent_call \<Rightarrow> thrown \<Rightarrow> 'w \<Rightarrow> 'w \<times> host_suspend option" where
  "interrupted P d e w =
     (if dp_sent d \<and> sleep_explains e then (case rt_suspends P (dp_started d) w of (w', xs) \<Rightarrow> (w', span xs)) else (w, None))"

definition recover_attempt ::
  "'w runtime_ports \<Rightarrow> invocation_context \<Rightarrow> loop_state \<Rightarrow> budget_reservation \<Rightarrow> sent_call \<Rightarrow> thrown \<Rightarrow> 'w \<Rightarrow> 'w \<times> loop_step" where
  "recover_attempt P c L0 r d e w =
     (case interrupted P d e w of
        (w1, interruption) \<Rightarrow>
          (let L = L0\<lparr>lp_attempts := (if dp_sent d then lp_attempt L0 else lp_attempts L0), lp_last := Some e, lp_cut := interruption \<noteq> None,
                 lp_slept := merge_slept (lp_slept L0) interruption\<rparr>;
               resend = (interruption \<noteq> None \<and> lp_resent L < maximum_suspend_resends \<and> \<not> rt_aborted P w1);
               retryable = (\<not> resend \<and> lp_attempt L \<le> retries_of c \<and> (interruption \<noteq> None \<or> retryable_error c e)) in
           case give_back P c r (release_rule (dp_sent d) e) w1 of
             (w2, released) \<Rightarrow>
               (let w3 = rt_trace P
                     ((trace_of_attempt c (lp_attempt L) (if resend \<or> retryable then TraceRetry else TraceFailed) (Some (error_text e)) None)
                        \<lparr>it_released := released, it_suspended := interruption,
                         it_stream := (case e of TransportFailure t \<Rightarrow> te_stream t | _ \<Rightarrow> None)\<rparr>) w2 in
                if resend then (free_lease P d w3, Again (L\<lparr>lp_resent := lp_resent L + 1\<rparr>))
                else if \<not> retryable then (free_lease P d w3, GaveUp L)
                else back_off P c L d e w3)))"

definition one_attempt ::
  "'w runtime_ports \<Rightarrow> invocation_context \<Rightarrow> transport_request \<Rightarrow> loop_state \<Rightarrow> 'w \<Rightarrow> 'w \<times> loop_step" where
  "one_attempt P c q L w =
     (if rt_aborted P w then (w, Threw (cancelled (lp_attempts L)))
      else case rt_awake P w of
        (w1, Inl e) \<Rightarrow> (w1, Threw (if rt_aborted P w1 then cancelled (lp_attempts L) else Propagated e))
      | (w1, Inr _) \<Rightarrow>
          (case rt_reserve P (ic_activity c) (ic_estimated c) w1 of
             (w2, Inl e) \<Rightarrow> (w2, Threw (Propagated e))
           | (w2, Inr r) \<Rightarrow>
               if \<not> br_allowed r
               then (w2, Threw (BudgetSuspended (case br_reason r of None \<Rightarrow> ''Provider budget preflight refused dispatch'' | Some s \<Rightarrow> s)))
               else (case try_dispatch P c q (lp_attempt L) r w2 of
                  (w3, d, Inr response) \<Rightarrow> (free_lease P d w3, Returned response)
                | (w3, d, Inl e) \<Rightarrow> recover_attempt P c L r d e w3)))"

section \<open>The invocation\<close>

definition lost_to_sleep :: "'w runtime_ports \<Rightarrow> invocation_context \<Rightarrow> host_suspend \<Rightarrow> string \<Rightarrow> string" where
  "lost_to_sleep P c slept detail =
     ''The computer slept from '' @ rt_date P (sp_from slept) @ '' to '' @ rt_date P (sp_to slept) @ '' while a call to '' @ ic_provider c
     @ '' was in flight, and the call could not finish across it ('' @ detail @ ''). The sleep stopped it, not '' @ ic_provider c
     @ '': keep the computer awake while the run works, then resume it; completed artifacts are preserved.''"

definition failed_invocation :: "'w runtime_ports \<Rightarrow> invocation_context \<Rightarrow> loop_state \<Rightarrow> invocation_error" where
  "failed_invocation P c L =
     (let failure = (case lp_last L of Some (TransportFailure t) \<Rightarrow> Some t | _ \<Rightarrow> None);
          err = (case failure of Some t \<Rightarrow> code_text (te_code t) | None \<Rightarrow> ''UNKNOWN'');
          detail = err @ (case failure of Some t \<Rightarrow> '': '' @ take 300 (te_message t) | None \<Rightarrow> []);
          n = lp_attempts L in
      if err = ''QUOTA'' then
        UsageLimitReached (''Provider '' @ ic_provider c @ '' reached its usage limit ('' @ detail
          @ ''); the run pauses with its completed work kept and goes on when resumed after the reset.'') n
      else case (lp_cut L, lp_slept L) of
        (True, Some slept) \<Rightarrow> HostSlept (lost_to_sleep P c slept detail) n err slept
      | _ \<Rightarrow>
          if (case lp_last L of None \<Rightarrow> False | Some e \<Rightarrow> time_limited c e) then
            TimeLimitReached (''Provider '' @ ic_provider c @ '': the call ran past its time limit of ''
              @ nat_string (nat (int_of_number (ic_timeout c))) @ '' ms and stopped ('' @ detail
              @ ''); it is not sent again, since its stage sends less work instead.'') n
          else InvocationFailure (''Provider '' @ ic_provider c @ '' failed after '' @ nat_string n @ '' attempt'' @ (if n = 1 then [] else ''s'')
            @ '' ('' @ detail @ ''); completed artifacts are preserved and the run may resume with degraded completeness.'') n err
            (case failure of Some t \<Rightarrow> transport_code_of t | None \<Rightarrow> None))"

lemma again_progress:
  assumes "one_attempt P c q L w = (w', Again L')"
  shows "lp_attempt L' = lp_attempt L \<and> lp_resent L' = Suc (lp_resent L) \<and> lp_resent L < maximum_suspend_resends
    \<or> lp_attempt L' = Suc (lp_attempt L) \<and> lp_resent L' = lp_resent L \<and> lp_attempt L \<le> retries_of c"
  using assms
  by (auto simp: one_attempt_def recover_attempt_def back_off_def Let_def split: if_splits prod.splits sum.splits)

function run_attempts ::
  "'w runtime_ports \<Rightarrow> invocation_context \<Rightarrow> transport_request \<Rightarrow> loop_state \<Rightarrow> 'w \<Rightarrow> 'w \<times> (invocation_error + transport_response)" where
  "run_attempts P c q L w =
     (if retries_of c + 1 < lp_attempt L then (w, Inl (failed_invocation P c L))
      else case one_attempt P c q L w of
        (w', Returned response) \<Rightarrow> (w', Inr response)
      | (w', Threw e) \<Rightarrow> (w', Inl e)
      | (w', GaveUp L') \<Rightarrow> (w', Inl (failed_invocation P c L'))
      | (w', Again L') \<Rightarrow> run_attempts P c q L' w')"
  by pat_completeness auto
termination
proof (relation "measure (\<lambda>(P, c, q, L, w). (retries_of c + 2 - lp_attempt L) + (maximum_suspend_resends - lp_resent L))", goal_cases)
  case 1
  show ?case by simp
next
  case 2
  then show ?case by (auto dest!: sym [of "(_, _)"] dest: again_progress)
qed

declare run_attempts.simps [simp del]

definition backoff_limit :: "number option \<Rightarrow> string + rat" where
  "backoff_limit configured =
     (case bounded_timer_delay (case configured of None \<Rightarrow> Fin 30000 | Some n \<Rightarrow> n) of
        Inl _ \<Rightarrow> Inl ''INVALID_TIMER_DELAY''
      | Inr d \<Rightarrow> if d < 1 then Inl ''INVALID_MAXIMUM_BACKOFF'' else Inr d)"

definition first_loop :: loop_state where
  "first_loop = \<lparr>lp_attempt = 1, lp_attempts = 0, lp_resent = 0, lp_slept = None, lp_cut = False, lp_last = None\<rparr>"

definition invoke ::
  "'w runtime_ports \<Rightarrow> transport_request \<Rightarrow> invocation_context \<Rightarrow> 'w \<Rightarrow> 'w \<times> (invocation_error + transport_response)" where
  "invoke P q c w =
     (case validate_invocation c of
        Inl e \<Rightarrow> (w, Inl e)
      | Inr _ \<Rightarrow>
          if tq_model q \<noteq> ic_model c then (w, Inl ModelMismatch)
          else if rt_aborted P w then (w, Inl (cancelled 0))
          else if ic_transport c \<notin> set (rt_transports P) then (w, Inl (UnknownTransport (ic_transport c)))
          else (case rt_load P (ic_activity c) (ic_transport c) (ic_model c) w of
             (w1, Inl e) \<Rightarrow> (w1, Inl (Propagated e))
           | (w1, Inr restored) \<Rightarrow>
               run_attempts P c
                 (case restored of
                    None \<Rightarrow> q
                  | Some (OpaqueText text) \<Rightarrow> q\<lparr>tq_continuation := Some text\<rparr>
                  | Some (OpaqueBytes bytes) \<Rightarrow> q\<lparr>tq_continuation := Some (base64 bytes)\<rparr>) first_loop w1))"

end
