(* ===== verification/Provider_Protocol.thy ===== *)
theory Provider_Protocol
  imports Provider_Runtime
begin

text \<open>
  What an invocation promises to the budget, the scheduler and the provider: an abstract protocol of their calls, which
  every run of the loop follows, and the bound on the requests sent. The calls are observed by ports that write a log.
\<close>

section \<open>The protocol\<close>

datatype call =
    CalledReserve "string option"
  | CalledAcquire bool
  | CalledSend "happening list"
  | CalledRecord "string option" usage
  | CalledRelease string string
  | CalledFree
  | CalledSleep

text \<open>
  \<open>Leased i\<close>: a lease is held under the reservation \<open>i\<close>, and nothing was sent. \<open>Closed leased i rule\<close>: the attempt is over;
  the reservation \<open>i\<close> may be released by \<open>rule\<close>, if there is one.
\<close>

datatype call_phase =
    Idle
  | Admitted "string option"
  | Leased "string option"
  | Answered "string option" usage
  | Closed bool "string option" "string option"

definition idle :: "call_phase \<Rightarrow> bool" where
  "idle ph \<longleftrightarrow> (case ph of Idle \<Rightarrow> True | Closed leased _ _ \<Rightarrow> \<not> leased | _ \<Rightarrow> False)"

fun protocol_step :: "(stream_trace \<Rightarrow> string) \<Rightarrow> invocation_context \<Rightarrow> call_phase \<Rightarrow> call \<Rightarrow> call_phase option" where
  "protocol_step summary c ph (CalledReserve i) = (if idle ph then Some (Admitted i) else None)"
| "protocol_step summary c (Admitted i) (CalledAcquire ok) = Some (if ok then Leased i else Closed False i (Some ''not_dispatched''))"
| "protocol_step summary c (Leased i) (CalledSend hs) =
     Some (case race summary c hs of Inr response \<Rightarrow> Answered i (tr_usage response) | Inl e \<Rightarrow> Closed True i (release_rule True e))"
| "protocol_step summary c (Answered i u) (CalledRecord j v) = (if j = i \<and> v = u then Some (Closed True None None) else None)"
| "protocol_step summary c (Leased i) (CalledRelease j rule) =
     (if i = Some j \<and> rule = ''not_dispatched'' then Some (Closed True None None) else None)"
| "protocol_step summary c (Closed leased i r) (CalledRelease j rule) =
     (if i = Some j \<and> r = Some rule then Some (Closed leased None None) else None)"
| "protocol_step summary c (Leased i) CalledFree = Some Idle"
| "protocol_step summary c (Closed leased i r) CalledFree = (if leased then Some Idle else None)"
| "protocol_step summary c ph CalledSleep = (if idle ph then Some ph else None)"
| "protocol_step summary c _ _ = None"

fun protocol :: "(stream_trace \<Rightarrow> string) \<Rightarrow> invocation_context \<Rightarrow> call_phase \<Rightarrow> call list \<Rightarrow> call_phase option" where
  "protocol summary c ph [] = Some ph"
| "protocol summary c ph (x # xs) = Option.bind (protocol_step summary c ph x) (\<lambda>ph'. protocol summary c ph' xs)"

definition sends :: "call list \<Rightarrow> nat" where
  "sends xs = length (filter (\<lambda>x. case x of CalledSend _ \<Rightarrow> True | _ \<Rightarrow> False) xs)"

section \<open>Ports that write a log\<close>

type_synonym 'w logged = "call list \<times> 'w"

definition quiet :: "('w \<Rightarrow> 'w \<times> 'r) \<Rightarrow> 'w logged \<Rightarrow> 'w logged \<times> 'r" where
  "quiet f lw = (case f (snd lw) of (w, x) \<Rightarrow> ((fst lw, w), x))"

definition noted :: "('r \<Rightarrow> call list) \<Rightarrow> ('w \<Rightarrow> 'w \<times> 'r) \<Rightarrow> 'w logged \<Rightarrow> 'w logged \<times> 'r" where
  "noted note f lw = (case f (snd lw) of (w, x) \<Rightarrow> ((fst lw @ note x, w), x))"

definition note_reserve :: "thrown + budget_reservation \<Rightarrow> call list" where
  "note_reserve x = (case x of Inr r \<Rightarrow> if br_allowed r then [CalledReserve (br_id r)] else [] | Inl _ \<Rightarrow> [])"

definition note_acquire :: "thrown + unit \<Rightarrow> call list" where
  "note_acquire x = [CalledAcquire (case x of Inr _ \<Rightarrow> True | Inl _ \<Rightarrow> False)]"

definition logged_ports :: "'w runtime_ports \<Rightarrow> 'w logged runtime_ports" where
  "logged_ports P =
     \<lparr>rt_aborted = (\<lambda>lw. rt_aborted P (snd lw)), rt_transports = rt_transports P,
      rt_load = (\<lambda>a t m. quiet (rt_load P a t m)), rt_awake = quiet (rt_awake P),
      rt_reserve = (\<lambda>a n. noted note_reserve (rt_reserve P a n)), rt_acquire = (\<lambda>p n. noted note_acquire (rt_acquire P p n)),
      rt_free = (\<lambda>lw. (fst lw @ [CalledFree], rt_free P (snd lw))), rt_now = (\<lambda>lw. rt_now P (snd lw)),
      rt_send = (\<lambda>t q. noted (\<lambda>hs. [CalledSend hs]) (rt_send P t q)),
      rt_record = (\<lambda>a u i. noted (\<lambda>_. [CalledRecord i u]) (rt_record P a u i)),
      rt_release = map_option (\<lambda>f a i rule. noted (\<lambda>_. [CalledRelease i rule]) (f a i rule)) (rt_release P),
      rt_save = (\<lambda>a st. quiet (rt_save P a st)), rt_trace = (\<lambda>t lw. (fst lw, rt_trace P t (snd lw))),
      rt_suspends = (\<lambda>t. quiet (rt_suspends P t)), rt_retry_after = (\<lambda>p d lw. (fst lw, rt_retry_after P p d (snd lw))),
      rt_sleep = (\<lambda>d. noted (\<lambda>_. [CalledSleep]) (rt_sleep P d)), rt_backoff = rt_backoff P, rt_summary = rt_summary P, rt_date = rt_date P\<rparr>"

text \<open>The budget and the continuation store fail with errors of their own, which prove nothing about usage.\<close>

definition own_errors :: "'w runtime_ports \<Rightarrow> bool" where
  "own_errors P \<longleftrightarrow> (\<forall>a u i w w' e. rt_record P a u i w = (w', Inl e) \<longrightarrow> release_rule True e = None)
     \<and> (\<forall>a st w w' e. rt_save P a st w = (w', Inl e) \<longrightarrow> release_rule True e = None)"

section \<open>Every step of the loop follows the protocol\<close>

lemma protocol_append:
  "protocol summary c ph (xs @ ys) = Option.bind (protocol summary c ph xs) (\<lambda>ph'. protocol summary c ph' ys)"
  by (induction xs arbitrary: ph) (auto split: Option.bind_splits)

lemma sends_append [simp]: "sends (xs @ ys) = sends xs + sends ys"
  by (simp add: sends_def)

lemma sends_simps [simp]:
  "sends [] = 0" "sends (CalledReserve i # xs) = sends xs" "sends (CalledAcquire b # xs) = sends xs"
  "sends (CalledSend hs # xs) = Suc (sends xs)" "sends (CalledRecord i u # xs) = sends xs"
  "sends (CalledRelease j r # xs) = sends xs" "sends (CalledFree # xs) = sends xs" "sends (CalledSleep # xs) = sends xs"
  by (simp_all add: sends_def)

text \<open>The log so far leads from \<open>Idle\<close> to a call_phase.\<close>

definition stands :: "'w runtime_ports \<Rightarrow> invocation_context \<Rightarrow> 'w logged \<Rightarrow> call_phase \<Rightarrow> bool" where
  "stands P c lw ph \<longleftrightarrow> protocol (rt_summary P) c Idle (fst lw) = Some ph"

lemma stands_append:
  "stands P c (l, w) ph \<Longrightarrow> protocol_step (rt_summary P) c ph x = Some ph' \<Longrightarrow> stands P c (l @ [x], w') ph'"
  by (simp add: stands_def protocol_append)

lemma stands_world: "stands P c (l, w) ph \<Longrightarrow> stands P c (l, w') ph"
  by (simp add: stands_def)

definition failing :: "bool \<Rightarrow> string option \<Rightarrow> string option \<Rightarrow> call_phase \<Rightarrow> bool" where
  "failing leased i rule ph \<longleftrightarrow> leased \<and> ph = Leased i \<and> (rule = None \<or> rule = Some ''not_dispatched'')
     \<or> (\<exists>j r. ph = Closed leased j r \<and> (rule = None \<or> j = i \<and> r = rule))"

definition holding :: "bool \<Rightarrow> call_phase \<Rightarrow> bool" where
  "holding leased ph \<longleftrightarrow> (leased \<and> (\<exists>i. ph = Leased i)) \<or> (\<exists>j r. ph = Closed leased j r)"

lemma failing_holding: "failing leased i rule ph \<Longrightarrow> holding leased ph"
  by (auto simp: failing_def holding_def)

text \<open>A step from a world with a call_phase to one with another, with at most \<open>n\<close> requests sent.\<close>

definition moves :: "'w runtime_ports \<Rightarrow> invocation_context \<Rightarrow> nat \<Rightarrow> 'w logged \<Rightarrow> 'w logged \<Rightarrow> (call_phase \<Rightarrow> bool) \<Rightarrow> bool" where
  "moves P c n lw lw' Q \<longleftrightarrow> sends (fst lw') \<le> sends (fst lw) + n \<and> (\<exists>ph. stands P c lw' ph \<and> Q ph)"

lemma settle_moves:
  assumes "settle_response (logged_ports P) c attempt r response (l, w) = (lw', x)" "stands P c (l, w) (Answered (br_id r) (tr_usage response))"
    and "own_errors P"
  shows "moves P c 0 (l, w) lw' (\<lambda>ph. ph = Closed True None None)" "x = Inl e \<Longrightarrow> release_rule True e = None"
  using assms stands_append [OF assms(2), of "CalledRecord (br_id r) (tr_usage response)" "Closed True None None"]
  by (auto simp: settle_response_def logged_ports_def noted_def quiet_def moves_def own_errors_def stands_def split: prod.splits sum.splits option.splits)

lemma try_moves:
  assumes run: "try_dispatch (logged_ports P) c q attempt r (l, w) = (lw', d, x)" and at: "stands P c (l, w) (Admitted (br_id r))"
    and own: "own_errors P"
  shows "moves P c 1 (l, w) lw' (\<lambda>ph. case x of Inr _ \<Rightarrow> dp_leased d \<and> ph = Closed True None None
      | Inl e \<Rightarrow> failing (dp_leased d) (br_id r) (release_rule (dp_sent d) e) ph)"
proof -
  obtain w1 got where acquire: "rt_acquire P (ic_provider c) (ic_estimated c) w = (w1, got)" by (rule prod.exhaust)
  show ?thesis
  proof (cases got)
    case (Inl e)
    then show ?thesis using run acquire stands_append [OF at, of "CalledAcquire False"]
      by (auto simp: try_dispatch_def logged_ports_def noted_def note_acquire_def moves_def failing_def)
  next
    case (Inr u)
    have leased: "stands P c (l @ [CalledAcquire True], w') (Leased (br_id r))" for w' by (rule stands_append [OF at]) simp
    show ?thesis
    proof (cases "rt_aborted P w1")
      case True
      then show ?thesis using run acquire Inr leased [of w1]
        by (auto simp: try_dispatch_def logged_ports_def noted_def note_acquire_def moves_def failing_def)
    next
      case False
      obtain w2 hs where send: "rt_send P (ic_transport c) q w1 = (w2, hs)" by (rule prod.exhaust)
      let ?l = "l @ [CalledAcquire True] @ [CalledSend hs]"
      show ?thesis
      proof (cases "race (rt_summary P) c hs")
        case (Inl e)
        have "stands P c (?l, w2) (Closed True (br_id r) (release_rule True e))"
          using stands_append [OF leased, of "CalledSend hs"] Inl by simp
        moreover have "lw' = (?l, w2)" "x = Inl e" "dp_leased d" "dp_sent d" using run acquire Inr False send Inl
          by (auto simp: try_dispatch_def send_with_timeout_def logged_ports_def noted_def note_acquire_def Let_def)
        ultimately show ?thesis by (auto simp: moves_def failing_def)
      next
        case answer: (Inr response)
        have at2: "stands P c (?l, w2) (Answered (br_id r) (tr_usage response))"
          using stands_append [OF leased, of "CalledSend hs"] answer by simp
        obtain lw3 y where settle: "settle_response (logged_ports P) c attempt r response (?l, w2) = (lw3, y)" by (rule prod.exhaust)
        have "lw' = lw3" "x = y" "dp_leased d" "dp_sent d"
          using run acquire Inr False send answer settle
          by (auto simp: try_dispatch_def send_with_timeout_def logged_ports_def noted_def note_acquire_def Let_def)
        with settle_moves [OF settle at2 own] show ?thesis
          by (cases y) (auto simp: moves_def failing_def)
      qed
    qed
  qed
qed

lemma give_back_moves:
  assumes "give_back (logged_ports P) c r rule (l, w) = (lw', released)" "stands P c (l, w) ph" "failing leased (br_id r) rule ph"
  shows "moves P c 0 (l, w) lw' (holding leased)"
proof (cases "rule = None \<or> br_id r = None \<or> rt_release P = None")
  case True
  then show ?thesis using assms failing_holding [OF assms(3)]
    by (auto simp: give_back_def logged_ports_def moves_def split: option.splits)
next
  case False
  then obtain why i f where r: "rule = Some why" "br_id r = Some i" "rt_release P = Some f" by auto
  obtain w1 x where f: "f (ic_activity c) i why w = (w1, x)" by (rule prod.exhaust)
  have "lw' = (l @ [CalledRelease i why], w1)" using assms(1) f
    by (auto simp: give_back_def logged_ports_def noted_def r split: sum.splits)
  moreover obtain ph' where "protocol_step (rt_summary P) c ph (CalledRelease i why) = Some ph'" "holding leased ph'"
    using assms(3) by (auto simp: failing_def r holding_def)
  ultimately show ?thesis using stands_append [OF assms(2), of "CalledRelease i why" ph' w1] by (auto simp: moves_def)
qed

lemma free_moves:
  assumes "stands P c lw ph" "holding (dp_leased d) ph"
  shows "moves P c 0 lw (free_lease (logged_ports P) d lw) idle"
proof (cases "dp_leased d")
  case True
  obtain l w where lw: "lw = (l, w)" by (rule prod.exhaust)
  have "protocol_step (rt_summary P) c ph CalledFree = Some Idle" using assms(2) True by (auto simp: holding_def)
  from stands_append [OF assms(1) [unfolded lw] this] have "stands P c (l @ [CalledFree], rt_free P w) Idle" .
  moreover have "idle Idle" by (simp add: idle_def)
  ultimately show ?thesis by (auto simp: free_lease_def True logged_ports_def lw moves_def)
next
  case False
  then show ?thesis using assms by (auto simp: free_lease_def moves_def holding_def idle_def)
qed

lemma idle_step: "idle ph \<Longrightarrow> protocol_step summary c ph CalledSleep = Some ph" "idle ph \<Longrightarrow> protocol_step summary c ph (CalledReserve i) = Some (Admitted i)"
  by (cases ph; simp)+

lemma sleep_moves:
  assumes "sleep_unless_aborted (logged_ports P) delay lw = (lw', x)" "stands P c lw ph" "idle ph"
  shows "moves P c 0 lw lw' idle"
proof -
  obtain l w where lw: "lw = (l, w)" by (rule prod.exhaust)
  show ?thesis using assms stands_append [OF assms(2) [unfolded lw] idle_step(1) [OF assms(3)]]
    by (auto simp: sleep_unless_aborted_def logged_ports_def noted_def lw moves_def split: if_splits prod.splits)
qed

lemma moves_trans:
  assumes "moves P c m a b Q" "\<And>ph. stands P c b ph \<Longrightarrow> Q ph \<Longrightarrow> moves P c n b d R"
  shows "moves P c (m + n) a d R"
  using assms by (fastforce simp: moves_def)

lemma back_off_moves:
  assumes "back_off (logged_ports P) c L d e lw = (lw', st)" "stands P c lw ph" "holding (dp_leased d) ph"
  shows "moves P c 0 lw lw' idle"
proof -
  let ?P = "logged_ports P"
  define retry where "retry delay = (if error_text e = ''RATE_LIMIT'' then rt_retry_after ?P (ic_provider c) delay lw else lw)" for delay
  have free: "moves P c 0 lw (free_lease ?P d (retry delay)) idle" for delay
  proof -
    have log: "fst (retry delay) = fst lw" by (simp add: retry_def logged_ports_def)
    then have "stands P c (retry delay) ph" using assms(2) by (simp add: stands_def)
    from free_moves [OF this assms(3)] show ?thesis by (simp add: moves_def log)
  qed
  show ?thesis
  proof (cases "retry_delay ?P (lp_attempt L) e")
    case (Inl a)
    then show ?thesis using assms(1) free_moves [OF assms(2,3)] by (simp add: back_off_def)
  next
    case (Inr delay)
    obtain lw2 y where sleep: "sleep_unless_aborted ?P delay (free_lease ?P d (retry delay)) = (lw2, y)" by (rule prod.exhaust)
    have "lw' = lw2" using assms(1) Inr sleep by (auto simp: back_off_def retry_def Let_def split: sum.splits)
    moreover have "moves P c (0 + 0) lw lw2 idle" by (rule moves_trans [OF free]) (rule sleep_moves [OF sleep])
    ultimately show ?thesis by simp
  qed
qed

lemma recover_attempt_moves:
  assumes run: "recover_attempt (logged_ports P) c L0 r d e lw = (lw', st)" and at: "stands P c lw ph"
    and failing: "failing (dp_leased d) (br_id r) (release_rule (dp_sent d) e) ph"
  shows "moves P c 0 lw lw' idle"
proof -
  let ?P = "logged_ports P"
  obtain lw1 interruption where i: "interrupted ?P d e lw = (lw1, interruption)" by (rule prod.exhaust)
  have log1: "fst lw1 = fst lw" using i by (auto simp: interrupted_def logged_ports_def quiet_def split: if_splits prod.splits)
  obtain lw2 released where g: "give_back ?P c r (release_rule (dp_sent d) e) lw1 = (lw2, released)" by (rule prod.exhaust)
  have "stands P c (fst lw1, snd lw1) ph" using at log1 by (simp add: stands_def)
  from give_back_moves [OF _ this failing] g have "moves P c 0 lw1 lw2 (holding (dp_leased d))" by simp
  then obtain ph2 where ph2: "stands P c lw2 ph2" "holding (dp_leased d) ph2" and sent2: "sends (fst lw2) \<le> sends (fst lw)"
    by (auto simp: moves_def log1)
  have after: "moves P c 0 lw lw' idle" if "moves P c 0 (rt_trace ?P t lw2) lw' idle" for t
    using that sent2 by (auto simp: moves_def logged_ports_def)
  have traced: "stands P c (rt_trace ?P t lw2) ph2" for t using ph2(1) by (simp add: stands_def logged_ports_def)
  have "\<exists>t L. lw' = free_lease ?P d (rt_trace ?P t lw2) \<or> back_off ?P c L d e (rt_trace ?P t lw2) = (lw', st)"
    using run unfolding recover_attempt_def i g prod.case Let_def by (metis prod.inject)
  then obtain t L where "lw' = free_lease ?P d (rt_trace ?P t lw2) \<or> back_off ?P c L d e (rt_trace ?P t lw2) = (lw', st)" by blast
  then have "moves P c 0 (rt_trace ?P t lw2) lw' idle"
    using free_moves [OF traced ph2(2)] back_off_moves [OF _ traced ph2(2)] by blast
  then show ?thesis by (rule after)
qed

lemma attempt_moves:
  assumes run: "one_attempt (logged_ports P) c q L lw = (lw', st)" and at: "stands P c lw ph" "idle ph" and own: "own_errors P"
  shows "moves P c 1 lw lw' idle"
proof -
  let ?P = "logged_ports P"
  have stay: "moves P c 1 lw lw2 idle" if "fst lw2 = fst lw" for lw2 using that at by (auto simp: moves_def stands_def)
  obtain lw1 x where awake: "rt_awake ?P lw = (lw1, x)" by (rule prod.exhaust)
  have log1: "fst lw1 = fst lw" using awake by (auto simp: logged_ports_def quiet_def split: prod.splits)
  obtain w2 y where reserve: "rt_reserve P (ic_activity c) (ic_estimated c) (snd lw1) = (w2, y)" by (rule prod.exhaust)
  have reserved: "rt_reserve ?P (ic_activity c) (ic_estimated c) lw1 = ((fst lw @ note_reserve y, w2), y)"
    using reserve log1 by (simp add: logged_ports_def noted_def)
  show ?thesis
  proof (cases "rt_aborted ?P lw \<or> (\<exists>e. x = Inl e) \<or> (\<exists>e. y = Inl e) \<or> (\<exists>r. y = Inr r \<and> \<not> br_allowed r)")
    case True
    then have "fst lw' = fst lw" using run awake reserved log1
      by (auto simp: one_attempt_def note_reserve_def split: if_splits sum.splits)
    then show ?thesis by (rule stay)
  next
    case False
    then obtain r where r: "\<not> rt_aborted ?P lw" "x = Inr ()" "y = Inr r" "br_allowed r" by (cases x; cases y) auto
    let ?lw2 = "(fst lw @ [CalledReserve (br_id r)], w2)"
    have at2: "stands P c ?lw2 (Admitted (br_id r))"
      using stands_append [of P c "fst lw" "snd lw" ph] at idle_step(2) [OF at(2)] by simp
    obtain lw3 d z where try_it: "try_dispatch ?P c q (lp_attempt L) r ?lw2 = (lw3, d, z)" by (metis prod.exhaust)
    note moved = try_moves [OF try_it at2 own]
    have "moves P c (1 + 0) ?lw2 lw' idle"
    proof (rule moves_trans [OF moved])
      fix ph3
      assume at3: "stands P c lw3 ph3" "case z of Inr _ \<Rightarrow> dp_leased d \<and> ph3 = Closed True None None
        | Inl e \<Rightarrow> failing (dp_leased d) (br_id r) (release_rule (dp_sent d) e) ph3"
      show "moves P c 0 lw3 lw' idle"
      proof (cases z)
        case (Inl e)
        then have "recover_attempt ?P c L r d e lw3 = (lw', st)" using run awake reserved r try_it by (simp add: one_attempt_def note_reserve_def)
        then show ?thesis using recover_attempt_moves [OF _ at3(1)] at3(2) Inl by simp
      next
        case (Inr response)
        then have "lw' = free_lease ?P d lw3" using run awake reserved r try_it by (simp add: one_attempt_def note_reserve_def)
        moreover have "holding (dp_leased d) ph3" using at3(2) Inr by (simp add: holding_def)
        ultimately show ?thesis using free_moves [OF at3(1)] by simp
      qed
    qed
    then show ?thesis by (simp add: moves_def)
  qed
qed

definition attempts_left :: "invocation_context \<Rightarrow> loop_state \<Rightarrow> nat" where
  "attempts_left c L = (retries_of c + 2 - lp_attempt L) + (maximum_suspend_resends - lp_resent L)"

lemma run_moves:
  assumes "run_attempts (logged_ports P) c q L lw = (lw', x)" "stands P c lw ph" "idle ph" and own: "own_errors P"
  shows "moves P c (attempts_left c L) lw lw' idle"
  using assms(1-3)
proof (induction "logged_ports P" c q L lw arbitrary: ph rule: run_attempts.induct)
  case (1 c q L lw)
  let ?P = "logged_ports P"
  have stay: "moves P c (attempts_left c L) lw lw idle" using "1.prems"(2,3) by (auto simp: moves_def)
  show ?case
  proof (cases "retries_of c + 1 < lp_attempt L")
    case True
    then show ?thesis using "1.prems"(1) stay by (simp add: run_attempts.simps)
  next
    case False
    obtain lw1 st where attempt: "one_attempt ?P c q L lw = (lw1, st)" by (rule prod.exhaust)
    note moved = attempt_moves [OF attempt "1.prems"(2,3) own]
    show ?thesis
    proof (cases "\<exists>L'. st = Again L'")
      case True
      then obtain L' where st: "st = Again L'" ..
      have rest: "run_attempts ?P c q L' lw1 = (lw', x)" using "1.prems"(1) False attempt st by (simp add: run_attempts.simps)
      have "moves P c (1 + attempts_left c L') lw lw' idle"
        by (rule moves_trans [OF moved]) (rule "1.hyps" [OF False attempt [symmetric] st rest])
      moreover have "1 + attempts_left c L' \<le> attempts_left c L"
        using again_progress [OF attempt [unfolded st]] False by (auto simp: attempts_left_def)
      ultimately show ?thesis by (auto simp: moves_def)
    next
      case final: False
      then have "lw' = lw1" using "1.prems"(1) False attempt by (cases st) (simp_all add: run_attempts.simps)
      moreover have "1 \<le> attempts_left c L" using False by (simp add: attempts_left_def)
      ultimately show ?thesis using moved by (auto simp: moves_def)
    qed
  qed
qed

section \<open>Property\<close>

text \<open>
  C26. Every invocation follows the protocol: a request is sent only under an admitted reservation and a lease of the
  scheduler; the lease is given back before the next reservation, a backoff, and the end, so no request runs beside another
  of the same call; the usage recorded is that of the answer; and a reservation is released only if its request was not
  sent or its failure proves that nothing was consumed. At most \<open>maximumRetries + 4\<close> requests are sent.
\<close>
theorem invocation_follows_protocol:
  assumes "own_errors P" "invoke (logged_ports P) q c ([], w) = ((calls, w'), x)"
  shows "(\<exists>ph. protocol (rt_summary P) c Idle calls = Some ph \<and> idle ph) \<and> sends calls \<le> retries_of c + 1 + maximum_suspend_resends"
proof -
  let ?P = "logged_ports P"
  have start: "stands P c ([], v) Idle" "idle Idle" for v :: 'a by (simp_all add: stands_def idle_def)
  have "moves P c (attempts_left c first_loop) ([], w) (calls, w') idle"
  proof (cases "\<exists>q' w1. run_attempts ?P c q' first_loop ([], w1) = ((calls, w'), x)")
    case True
    then obtain q' w1 where "run_attempts ?P c q' first_loop ([], w1) = ((calls, w'), x)" by blast
    from run_moves [OF this start assms(1)] show ?thesis by (simp add: moves_def)
  next
    case False
    then have "calls = []" using assms(2)
      by (auto simp: invoke_def logged_ports_def quiet_def split: sum.splits if_splits prod.splits option.splits opaque.splits)
    then show ?thesis using start by (auto simp: moves_def)
  qed
  moreover have "attempts_left c first_loop = retries_of c + 1 + maximum_suspend_resends" by (simp add: attempts_left_def first_loop_def)
  ultimately show ?thesis by (auto simp: moves_def stands_def)
qed

text \<open>A provider whose connection fails once.\<close>

definition flaky_ports :: "nat runtime_ports" where
  "flaky_ports =
     \<lparr>rt_aborted = (\<lambda>_. False), rt_transports = [''t''], rt_load = (\<lambda>_ _ _ w. (w, Inr None)), rt_awake = (\<lambda>w. (w, Inr ())),
      rt_reserve = (\<lambda>_ _ w. (w, Inr \<lparr>br_allowed = True, br_reason = None, br_id = Some ''r''\<rparr>)), rt_acquire = (\<lambda>_ _ w. (w, Inr ())),
      rt_free = (\<lambda>w. w), rt_now = (\<lambda>_. 0),
      rt_send = (\<lambda>_ _ w. (Suc w, if w = 0
          then [Rejected (TransportFailure \<lparr>te_code = HttpFailure, te_message = ''down'', te_retryable = True, te_retry_after = None,
            te_evidence = NoUsage ''connection_refused'', te_stream = None\<rparr>)]
          else [Responded \<lparr>tr_usage = small_usage, tr_continuation = None, tr_body = []\<rparr>])),
      rt_record = (\<lambda>_ _ _ w. (w, Inr ())), rt_release = Some (\<lambda>_ _ _ w. (w, Inr ())), rt_save = (\<lambda>_ _ w. (w, Inr ())),
      rt_trace = (\<lambda>_ w. w), rt_suspends = (\<lambda>_ w. (w, [])), rt_retry_after = (\<lambda>_ _ w. w), rt_sleep = (\<lambda>_ w. (w, Inr ())),
      rt_backoff = 30000, rt_summary = (\<lambda>_. []), rt_date = (\<lambda>_. [])\<rparr>"

definition one_retry :: invocation_context where
  "one_retry = \<lparr>ic_activity = ''a'', ic_provider = ''p'', ic_transport = ''t'', ic_model = ''m'', ic_estimated = num 5, ic_retries = num 1,
     ic_timeout = num 9, ic_retry_timeouts = True\<rparr>"

definition plain_request :: transport_request where
  "plain_request = \<lparr>tq_model = ''m'', tq_body = [], tq_continuation = None\<rparr>"

definition call_name :: "call \<Rightarrow> string" where
  "call_name x = (case x of CalledReserve _ \<Rightarrow> ''reserve'' | CalledAcquire _ \<Rightarrow> ''acquire'' | CalledSend _ \<Rightarrow> ''send'' | CalledRecord _ _ \<Rightarrow> ''record''
     | CalledRelease _ _ \<Rightarrow> ''release'' | CalledFree \<Rightarrow> ''free'' | CalledSleep \<Rightarrow> ''sleep'')"

lemma flaky_run:
  "map call_name (fst (fst (invoke (logged_ports flaky_ports) plain_request one_retry ([], 0)))) =
     [''reserve'', ''acquire'', ''send'', ''release'', ''free'', ''sleep'', ''reserve'', ''acquire'', ''send'', ''record'', ''free'']"
  by code_simp

theorem invocation_follows_protocol_witness:
  "\<exists>calls. map call_name calls =
       [''reserve'', ''acquire'', ''send'', ''release'', ''free'', ''sleep'', ''reserve'', ''acquire'', ''send'', ''record'', ''free'']
     \<and> sends calls \<le> 5 \<and> (\<exists>ph. protocol (\<lambda>_. []) one_retry Idle calls = Some ph \<and> idle ph)"
proof -
  obtain calls w x where run: "invoke (logged_ports flaky_ports) plain_request one_retry ([], 0) = ((calls, w), x)" by (metis prod.exhaust)
  have "own_errors flaky_ports" by (simp add: own_errors_def flaky_ports_def)
  from invocation_follows_protocol [OF this run]
  have "(\<exists>ph. protocol (\<lambda>_. []) one_retry Idle calls = Some ph \<and> idle ph) \<and> sends calls \<le> 5"
    by (simp add: flaky_ports_def one_retry_def retries_of_def maximum_suspend_resends_def)
  with flaky_run run show ?thesis by (intro exI [of _ calls]) auto
qed

end
