(* ===== verification/Provider_Budget.thy ===== *)
theory Provider_Budget
  imports Provider_Protocol
begin

text \<open>
  The provider runtime over the durable token budget: \<open>DurableTokenBudget\<close> is the \<open>InvocationBudget\<close> of
  \<open>packages/providers/src/runtime.ts\<close>. What every port keeps, an invocation keeps; the budget keeps its invariant.
\<close>

section \<open>What the ports keep\<close>

locale kept_by_ports =
  fixes P :: "'w runtime_ports" and I :: "'w \<Rightarrow> bool"
  assumes load: "I w \<Longrightarrow> I (fst (rt_load P a t m w))"
    and awake: "I w \<Longrightarrow> I (fst (rt_awake P w))"
    and reserve: "I w \<Longrightarrow> I (fst (rt_reserve P a n w))"
    and acquire: "I w \<Longrightarrow> I (fst (rt_acquire P p n w))"
    and free: "I w \<Longrightarrow> I (rt_free P w)"
    and send: "I w \<Longrightarrow> I (fst (rt_send P t q w))"
    and record_usage: "I w \<Longrightarrow> I (fst (rt_record P a u i w))"
    and release: "rt_release P = Some f \<Longrightarrow> I w \<Longrightarrow> I (fst (f a j rule w))"
    and save: "I w \<Longrightarrow> I (fst (rt_save P a st w))"
    and trace: "I w \<Longrightarrow> I (rt_trace P x w)"
    and suspends: "I w \<Longrightarrow> I (fst (rt_suspends P since w))"
    and retry_after: "I w \<Longrightarrow> I (rt_retry_after P p d w)"
    and sleep: "I w \<Longrightarrow> I (fst (rt_sleep P d w))"
begin

lemma send_keeps: "I w \<Longrightarrow> send_with_timeout P c q w = (w', x) \<Longrightarrow> I w'"
  using send [of w "ic_transport c" q] by (auto simp: send_with_timeout_def split: if_splits prod.splits)

lemma settle_keeps: "I w \<Longrightarrow> settle_response P c n r response w = (w', x) \<Longrightarrow> I w'"
  using record_usage [of w "ic_activity c" "tr_usage response" "br_id r"] save
  by (auto simp: settle_response_def split: prod.splits sum.splits option.splits intro!: trace) (metis fst_conv)+

lemma dispatch_keeps: "I w \<Longrightarrow> try_dispatch P c q n r w = (w', d, x) \<Longrightarrow> I w'"
  using acquire [of w "ic_provider c" "ic_estimated c"]
  by (auto simp: try_dispatch_def Let_def split: prod.splits sum.splits if_splits dest: send_keeps settle_keeps)

lemma give_back_keeps: "I w \<Longrightarrow> give_back P c r rule w = (w', x) \<Longrightarrow> I w'"
  using release by (auto simp: give_back_def split: prod.splits sum.splits option.splits) (metis fst_conv)+

lemma free_keeps: "I w \<Longrightarrow> I (free_lease P d w)"
  by (simp add: free_lease_def free)

lemma sleep_keeps: "I w \<Longrightarrow> sleep_unless_aborted P delay w = (w', x) \<Longrightarrow> I w'"
  using sleep [of w delay] by (auto simp: sleep_unless_aborted_def split: if_splits)

lemma back_off_keeps: "I w \<Longrightarrow> back_off P c L d e w = (w', st) \<Longrightarrow> I w'"
  by (auto simp: back_off_def Let_def split: sum.splits prod.splits if_splits dest!: sleep_keeps [rotated] intro: free_keeps retry_after)

lemma recover_keeps: "I w \<Longrightarrow> recover_attempt P c L r d e w = (w', st) \<Longrightarrow> I w'"
  using suspends [of w "dp_started d"]
  by (auto simp: recover_attempt_def interrupted_def Let_def split: prod.splits if_splits
      dest!: give_back_keeps [rotated] intro: back_off_keeps free_keeps trace)

lemma attempt_keeps: "I w \<Longrightarrow> one_attempt P c q L w = (w', st) \<Longrightarrow> I w'"
  using awake [of w] reserve
  by (auto simp: one_attempt_def split: if_splits prod.splits sum.splits dest!: dispatch_keeps [rotated] intro: recover_keeps free_keeps)
    (metis fst_conv)+

lemma run_keeps: "I w \<Longrightarrow> I (fst (run_attempts P c q L w))"
proof (induction "attempts_left c L" arbitrary: L w rule: less_induct)
  case less
  obtain w1 st where attempt: "one_attempt P c q L w = (w1, st)" by (rule prod.exhaust)
  have w1: "I w1" by (rule attempt_keeps [OF less.prems attempt])
  show ?case
  proof (cases "retries_of c + 1 < lp_attempt L")
    case True
    then show ?thesis using less.prems by (simp add: run_attempts.simps)
  next
    case False
    show ?thesis
    proof (cases st)
      case (Again L')
      have "attempts_left c L' < attempts_left c L"
        using again_progress [OF attempt [unfolded Again]] False by (auto simp: attempts_left_def)
      from less.hyps [OF this w1] show ?thesis using False attempt Again by (simp add: run_attempts.simps [of P c q L])
    qed (use False attempt w1 in \<open>simp_all add: run_attempts.simps\<close>)
  qed
qed

lemma invoke_keeps: "I w \<Longrightarrow> I (fst (invoke P q c w))"
  using load [of w "ic_activity c" "ic_transport c" "ic_model c"]
  by (auto simp: invoke_def split: prod.splits sum.splits option.splits opaque.splits intro!: run_keeps)

end

section \<open>The durable budget as the budget of a runtime\<close>

fun budget_message :: "budget_error \<Rightarrow> string" where
  "budget_message InvalidTokenBudget = ''INVALID_TOKEN_BUDGET''"
| "budget_message InvalidActivityId = ''INVALID_ACTIVITY_ID''"
| "budget_message InvalidTokenReservation = ''INVALID_TOKEN_RESERVATION''"
| "budget_message UnknownTokenReservation = ''UNKNOWN_TOKEN_RESERVATION''"
| "budget_message TokenReservationReleased = ''TOKEN_RESERVATION_RELEASED''"
| "budget_message TokenUsageAlreadyRecorded = ''TOKEN_USAGE_ALREADY_RECORDED''"
| "budget_message InvalidTokenUsage = ''INVALID_TOKEN_USAGE''"
| "budget_message InvalidTokenReleaseRule = ''INVALID_TOKEN_RELEASE_RULE''"
| "budget_message InvalidTokenBudgetState = ''INVALID_TOKEN_BUDGET_STATE''"
| "budget_message SaveFailed = ''SAVE_FAILED''"

definition as_thrown :: "budget \<times> (budget_error + 'a) \<Rightarrow> 'w \<Rightarrow> (budget \<times> 'w) \<times> (thrown + 'a)" where
  "as_thrown bx w = (case bx of (b, x) \<Rightarrow> ((b, w), map_sum (\<lambda>e. OtherFailure (budget_message e)) id x))"

definition admission_result :: "string option \<Rightarrow> budget_reservation" where
  "admission_result i =
     (case i of
        None \<Rightarrow> \<lparr>br_allowed = False, br_reason = Some ''Run token budget exhausted'', br_id = None\<rparr>
      | Some name \<Rightarrow> \<lparr>br_allowed = True, br_reason = None, br_id = Some name\<rparr>)"

definition beside :: "('w \<Rightarrow> 'w \<times> 'r) \<Rightarrow> budget \<times> 'w \<Rightarrow> (budget \<times> 'w) \<times> 'r" where
  "beside f bw = (case f (snd bw) of (w, x) \<Rightarrow> ((fst bw, w), x))"

text \<open>The ports \<open>P\<close> with the durable budget in place of theirs; \<open>ok w\<close> is whether its backend saves.\<close>

definition over_budget :: "('w \<Rightarrow> bool) \<Rightarrow> 'w runtime_ports \<Rightarrow> (budget \<times> 'w) runtime_ports" where
  "over_budget ok P =
     \<lparr>rt_aborted = (\<lambda>bw. rt_aborted P (snd bw)), rt_transports = rt_transports P,
      rt_load = (\<lambda>a t m. beside (rt_load P a t m)), rt_awake = beside (rt_awake P),
      rt_reserve = (\<lambda>a n bw. map_prod id (map_sum id admission_result) (as_thrown (reserve (ok (snd bw)) (fst bw) a n) (snd bw))),
      rt_acquire = (\<lambda>p n. beside (rt_acquire P p n)), rt_free = (\<lambda>bw. (fst bw, rt_free P (snd bw))),
      rt_now = (\<lambda>bw. rt_now P (snd bw)), rt_send = (\<lambda>t q. beside (rt_send P t q)),
      rt_record = (\<lambda>a u i bw. as_thrown (record_actual (ok (snd bw)) (fst bw) a u (case i of None \<Rightarrow> [] | Some name \<Rightarrow> name)) (snd bw)),
      rt_release = Some (\<lambda>a name rule bw. as_thrown (release_reservation (ok (snd bw)) (fst bw) a name rule) (snd bw)),
      rt_save = (\<lambda>a st. beside (rt_save P a st)), rt_trace = (\<lambda>t bw. (fst bw, rt_trace P t (snd bw))),
      rt_suspends = (\<lambda>t. beside (rt_suspends P t)), rt_retry_after = (\<lambda>p d bw. (fst bw, rt_retry_after P p d (snd bw))),
      rt_sleep = (\<lambda>d. beside (rt_sleep P d)), rt_backoff = rt_backoff P, rt_summary = rt_summary P, rt_date = rt_date P\<rparr>"

lemma as_thrown_budget [simp]: "fst (fst (as_thrown bx w)) = fst bx"
  by (simp add: as_thrown_def split: prod.splits)

lemma beside_budget [simp]: "fst (fst (beside f bw)) = fst bw"
  by (simp add: beside_def split: prod.splits)

lemma map_prod_budget [simp]: "fst (map_prod id g x) = fst x"
  by (cases x) simp

lemma budget_kept:
  assumes "budget_inv m b"
  shows "budget_inv m (fst (reserve ok b a n))" "budget_inv m (fst (record_actual ok b a u i))"
    "budget_inv m (fst (release_reservation ok b a i rule))"
  using step_inv [OF assms, of "Reserve ok a n"] step_inv [OF assms, of "Record ok a u i"] step_inv [OF assms, of "Release ok a i rule"]
  by simp_all

interpretation durable: kept_by_ports "over_budget ok P" "\<lambda>bw. budget_inv m (fst bw)" for ok P m
  by unfold_locales (auto simp: over_budget_def budget_kept)

text \<open>Its errors prove nothing about usage, so the invocations over it follow the protocol.\<close>

lemma budget_own_errors:
  assumes "\<And>a st w w' e. rt_save P a st w = (w', Inl e) \<Longrightarrow> release_rule True e = None"
  shows "own_errors (over_budget ok P)"
  using assms
  by (auto simp: own_errors_def over_budget_def as_thrown_def beside_def map_sum_def split: prod.splits sum.splits)

section \<open>Property\<close>

text \<open>Invocations one after another, whatever the provider does.\<close>

definition invocations :: "'w runtime_ports \<Rightarrow> (transport_request \<times> invocation_context) list \<Rightarrow> 'w \<Rightarrow> 'w" where
  "invocations P qs w = fold (\<lambda>(q, c) v. fst (invoke P q c v)) qs w"

lemma invocations_keep: "budget_inv m (fst bw) \<Longrightarrow> budget_inv m (fst (invocations (over_budget ok P) qs bw))"
proof (induction qs arbitrary: bw)
  case Nil
  then show ?case by (simp add: invocations_def)
next
  case (Cons qc qs)
  obtain q c where qc: "qc = (q, c)" by (rule prod.exhaust)
  have "budget_inv m (fst (fst (invoke (over_budget ok P) q c bw)))" by (rule durable.invoke_keeps [OF Cons.prems])
  from Cons.IH [OF this] show ?case by (simp add: invocations_def qc)
qed

text \<open>
  A run whose provider calls go through the runtime keeps its token budget: whatever the providers, the timers, the
  scheduler and the backend's saves do, the budget that is left is one a later process accepts, and it charges at most the
  limit plus what finished calls used beyond their estimates.
\<close>
lemma invocations_keep_budget:
  assumes "open_budget m backend = Inr b" "\<And>st. backend = Some st \<Longrightarrow> fits m st"
    and "bd_backend (fst (invocations (over_budget ok P) qs (b, w))) = Some st"
  shows "validate_state st m = Inr () \<and> charged st \<le> int_of_number m + overrun st"
proof -
  have "budget_inv m b" using assms(1,2) by (auto simp: open_budget_def budget_inv_def split: if_splits)
  then have "budget_inv m (fst (invocations (over_budget ok P) qs (b, w)))" by (intro invocations_keep) simp
  then have "fits m st" using assms(3) by (simp add: budget_inv_def)
  then show ?thesis using charged_split [of st] by (simp add: fits_def)
qed

theorem invocations_keep_budget_witness:
  "\<exists>st. bd_backend (fst (invocations (over_budget (\<lambda>_. True) flaky_ports) [(plain_request, one_retry)] (small_budget, 0))) = Some st
     \<and> charged st = 7 \<and> map rv_released (bs_reservations st) = [Some ''connection_refused'', None] \<and> charged st \<le> 10 + overrun st"
proof -
  let ?b = "bd_backend (fst (invocations (over_budget (\<lambda>_. True) flaky_ports) [(plain_request, one_retry)] (small_budget, 0)))"
  have run: "map_option (\<lambda>st. (charged st, map rv_released (bs_reservations st))) ?b = Some (7, [Some ''connection_refused'', None])" by code_simp
  then obtain st where st: "?b = Some st" by (cases ?b) auto
  have "open_budget (num 10) None = Inr small_budget"
    by (simp add: open_budget_def positive_integer_def small_budget_def max_safe_def)
  from invocations_keep_budget [OF this _ st] st run show ?thesis by auto
qed

end
