(* ===== verification/Issue_Board.thy ===== *)
theory Issue_Board
  imports Prelude
begin

text \<open>
  The issue board: the checks of an operation (\<open>packages/core/src/issue-board/operations.ts\<close> with the shape
  of \<open>packages/schemas/src/board-operation.ts\<close>), the projection of an operation log
  (\<open>packages/core/src/issue-board/projection.ts\<close>) and the controller that appends to it. The candidates of
  the projection are mutable objects shared between the map and the local variables of a case; here the
  map holds their values and every case writes them back. An error abandons the whole projection.
\<close>

section \<open>Operations\<close>

datatype severity = Critical | High | Medium | Low | Informational

record evidence =
  ev_id :: string
  ev_text :: string
  ev_locations :: "string list"

record candidate_seed =
  sd_id :: string
  sd_title :: string
  sd_description :: string
  sd_findings :: "string list"
  sd_severity :: severity
  sd_blocker :: bool

datatype disposition = Accept | Reject | NeedsVerification

text \<open>\<open>boardVerificationSchema\<close>; the result and method literals are checked by the type.\<close>

record board_verification =
  bv_evidence :: "string list"
  bv_artifacts :: "string list"
  bv_tools :: "string list"
  bv_activity :: string
  bv_confidence :: "number option"

datatype operation_kind =
    AddCandidate candidate_seed
  | AddMissing candidate_seed "evidence list"
  | CastVote disposition string "board_verification option"
  | MergeInto "string list" candidate_seed
  | SplitInto "candidate_seed list" string
  | AddEvidence evidence
  | AddCounter evidence
  | ChangeSeverity severity string
  | ChangeBlocker bool string
  | SupplementRemediation string
  | SupplementVerification string

record issue_operation =
  op_id :: string
  op_candidate :: string
  op_author :: string
  op_round :: number
  op_cited :: "string list"
  op_kind :: operation_kind

datatype board_error =
    InvalidShape | InvalidField string | RequiresEvidence | InvalidSeed | MissingFindingRequiresEvidence
  | InvalidMergeSources | InvalidSplitTargets | EvidenceNotCited
  | DuplicateOperation string | DuplicateCandidate string | UnknownCandidate string | RetiredCandidate string
  | ConflictingEvidence string | RoundRegression | SinkFailed

section \<open>Checks of an operation\<close>

definition valid_seed_shape :: "candidate_seed \<Rightarrow> bool" where
  "valid_seed_shape s \<longleftrightarrow> \<not> blank (sd_id s) \<and> \<not> blank (sd_title s) \<and> \<not> blank (sd_description s)
     \<and> sd_findings s \<noteq> [] \<and> list_all (\<lambda>i. \<not> blank i) (sd_findings s)"

definition valid_evidence_shape :: "evidence \<Rightarrow> bool" where
  "valid_evidence_shape e \<longleftrightarrow> \<not> blank (ev_id e) \<and> ev_text e \<noteq> [] \<and> ev_locations e \<noteq> []
     \<and> list_all (\<lambda>i. \<not> blank i) (ev_locations e)"

definition valid_verification_shape :: "board_verification \<Rightarrow> bool" where
  "valid_verification_shape v \<longleftrightarrow> list_all (\<lambda>i. \<not> blank i) (bv_evidence v) \<and> list_all (\<lambda>i. \<not> blank i) (bv_artifacts v)
     \<and> list_all (\<lambda>i. \<not> blank i) (bv_tools v) \<and> \<not> blank (bv_activity v)
     \<and> (case bv_confidence v of None \<Rightarrow> True | Some c \<Rightarrow> num_le (num 0) c \<and> num_le c (num 1))"

fun valid_kind_shape :: "operation_kind \<Rightarrow> bool" where
  "valid_kind_shape (AddCandidate s) = valid_seed_shape s"
| "valid_kind_shape (AddMissing s es) = (valid_seed_shape s \<and> es \<noteq> [] \<and> list_all valid_evidence_shape es)"
| "valid_kind_shape (CastVote d r v) = (\<not> blank r \<and> (case v of None \<Rightarrow> True | Some b \<Rightarrow> valid_verification_shape b))"
| "valid_kind_shape (MergeInto ids s) = (2 \<le> length ids \<and> list_all (\<lambda>i. \<not> blank i) ids \<and> valid_seed_shape s)"
| "valid_kind_shape (SplitInto ss r) = (2 \<le> length ss \<and> list_all valid_seed_shape ss \<and> \<not> blank r)"
| "valid_kind_shape (AddEvidence e) = valid_evidence_shape e"
| "valid_kind_shape (AddCounter e) = valid_evidence_shape e"
| "valid_kind_shape (ChangeSeverity s r) = (\<not> blank r)"
| "valid_kind_shape (ChangeBlocker b r) = (\<not> blank r)"
| "valid_kind_shape (SupplementRemediation t) = (\<not> blank t)"
| "valid_kind_shape (SupplementVerification t) = (\<not> blank t)"

definition valid_operation_shape :: "issue_operation \<Rightarrow> bool" where
  "valid_operation_shape o1 \<longleftrightarrow> \<not> blank (op_id o1) \<and> \<not> blank (op_candidate o1) \<and> \<not> blank (op_author o1)
     \<and> safe_integer (op_round o1) \<and> 0 \<le> int_of_number (op_round o1) \<and> list_all (\<lambda>i. \<not> blank i) (op_cited o1)
     \<and> valid_kind_shape (op_kind o1)"

fun evidence_required :: "operation_kind \<Rightarrow> bool" where
  "evidence_required (AddCandidate _) = False"
| "evidence_required (MergeInto _ _) = False"
| "evidence_required (SplitInto _ _) = False"
| "evidence_required (SupplementRemediation _) = False"
| "evidence_required (SupplementVerification _) = False"
| "evidence_required _ = True"

definition assert_candidate :: "candidate_seed \<Rightarrow> string \<Rightarrow> board_error + unit" where
  "assert_candidate s expected =
     require (sd_id s = expected \<and> \<not> blank (sd_title s) \<and> \<not> blank (sd_description s) \<and> sd_findings s \<noteq> []) InvalidSeed"

fun assert_kind :: "issue_operation \<Rightarrow> operation_kind \<Rightarrow> board_error + unit" where
  "assert_kind o1 (AddCandidate s) = assert_candidate s (op_candidate o1)"
| "assert_kind o1 (AddMissing s es) =
     result_bind (assert_candidate s (op_candidate o1)) (\<lambda>_. require (es \<noteq> []) MissingFindingRequiresEvidence)"
| "assert_kind o1 (CastVote d r v) = require (\<not> blank r) (InvalidField ''reason'')"
| "assert_kind o1 (MergeInto ids s) =
     result_bind (assert_candidate s (op_candidate o1)) (\<lambda>_.
       require (2 \<le> length ids \<and> length (uniq ids) = length ids) InvalidMergeSources)"
| "assert_kind o1 (SplitInto ss r) =
     result_bind (require (2 \<le> length ss \<and> length (uniq (map sd_id ss)) = length ss) InvalidSplitTargets) (\<lambda>_.
       result_bind (result_map (\<lambda>s. assert_candidate s (sd_id s)) ss) (\<lambda>_. require (\<not> blank r) (InvalidField ''reason'')))"
| "assert_kind o1 (AddEvidence e) = require (ev_id e \<in> set (op_cited o1)) EvidenceNotCited"
| "assert_kind o1 (AddCounter e) = require (ev_id e \<in> set (op_cited o1)) EvidenceNotCited"
| "assert_kind o1 (ChangeSeverity s r) = require (\<not> blank r) (InvalidField ''reason'')"
| "assert_kind o1 (ChangeBlocker b r) = require (\<not> blank r) (InvalidField ''reason'')"
| "assert_kind o1 (SupplementRemediation t) = require (\<not> blank t) (InvalidField ''text'')"
| "assert_kind o1 (SupplementVerification t) = require (\<not> blank t) (InvalidField ''text'')"

definition assert_operation :: "issue_operation \<Rightarrow> board_error + unit" where
  "assert_operation o1 =
     result_bind (require (valid_operation_shape o1) InvalidShape) (\<lambda>_.
     result_bind (require (\<not> blank (op_id o1)) (InvalidField ''operationId'')) (\<lambda>_.
     result_bind (require (\<not> blank (op_candidate o1)) (InvalidField ''candidateId'')) (\<lambda>_.
     result_bind (require (\<not> blank (op_author o1)) (InvalidField ''authorId'')) (\<lambda>_.
     result_bind (require (safe_integer (op_round o1) \<and> 0 \<le> int_of_number (op_round o1)) (InvalidField ''round'')) (\<lambda>_.
     result_bind (require (\<not> (evidence_required (op_kind o1) \<and> op_cited o1 = [])) RequiresEvidence) (\<lambda>_.
       assert_kind o1 (op_kind o1)))))))"

section \<open>The projected board\<close>

datatype candidate_status = OpenStatus | Accepted | Rejected | Unverified | Merged | Split

record issue_vote =
  iv_author :: string
  iv_disposition :: disposition
  iv_reason :: string
  iv_round :: int
  iv_cited :: "string list"

record issue_candidate =
  ic_id :: string
  ic_title :: string
  ic_description :: string
  ic_findings :: "string list"
  ic_evidence :: "evidence list"
  ic_counter :: "evidence list"
  ic_severity :: severity
  ic_blocker :: bool
  ic_votes :: "issue_vote list"
  ic_remediation :: "string list"
  ic_verification :: "string list"
  ic_parents :: "string list"
  ic_children :: "string list"
  ic_first :: int
  ic_last :: int
  ic_status :: candidate_status

type_synonym candidates = "(string \<times> issue_candidate) list"

record issue_board =
  ib_candidates :: candidates
  ib_operations :: "string list"

definition fresh_candidate :: "candidate_seed \<Rightarrow> int \<Rightarrow> string list \<Rightarrow> issue_candidate" where
  "fresh_candidate s n parents =
     \<lparr>ic_id = sd_id s, ic_title = sd_title s, ic_description = sd_description s, ic_findings = sd_findings s,
      ic_evidence = [], ic_counter = [], ic_severity = sd_severity s, ic_blocker = sd_blocker s, ic_votes = [],
      ic_remediation = [], ic_verification = [], ic_parents = parents, ic_children = [], ic_first = n,
      ic_last = n, ic_status = OpenStatus\<rparr>"

text \<open>\<open>add\<close>: the fresh candidate, refused where its id is taken.\<close>

definition add_new :: "candidates \<Rightarrow> candidate_seed \<Rightarrow> int \<Rightarrow> string list \<Rightarrow> board_error + issue_candidate" where
  "add_new m s n parents =
     (if map_of m (sd_id s) \<noteq> None then Inl (DuplicateCandidate (sd_id s)) else Inr (fresh_candidate s n parents))"

definition require_candidate :: "candidates \<Rightarrow> string \<Rightarrow> board_error + issue_candidate" where
  "require_candidate m i =
     (case map_of m i of
        None \<Rightarrow> Inl (UnknownCandidate i)
      | Some c \<Rightarrow> if ic_status c \<in> {Merged, Split} then Inl (RetiredCandidate i) else Inr c)"

definition changed :: "issue_candidate \<Rightarrow> int \<Rightarrow> board_error + issue_candidate" where
  "changed c n = (if n < ic_last c then Inl RoundRegression else Inr (c\<lparr>ic_last := n\<rparr>))"

section \<open>Inheritance of context\<close>

definition conflicts :: "evidence \<Rightarrow> evidence \<Rightarrow> bool" where
  "conflicts p e \<longleftrightarrow> ev_text p \<noteq> ev_text e \<or> sort_strings (ev_locations p) \<noteq> sort_strings (ev_locations e)"

definition collect_step :: "evidence \<Rightarrow> (string \<times> evidence) list \<Rightarrow> board_error + (string \<times> evidence) list" where
  "collect_step e m =
     (case map_of m (ev_id e) of
        Some p \<Rightarrow> if conflicts p e then Inl (ConflictingEvidence (ev_id e)) else Inr (AList.update (ev_id e) e m)
      | None \<Rightarrow> Inr (AList.update (ev_id e) e m))"

definition collect_evidence :: "evidence list \<Rightarrow> board_error + evidence list" where
  "collect_evidence es = result_bind (result_fold collect_step es []) (\<lambda>m. Inr (map snd m))"

definition inherit_context :: "issue_candidate \<Rightarrow> issue_candidate list \<Rightarrow> board_error + issue_candidate" where
  "inherit_context target sources =
     result_bind (collect_evidence (concat (map ic_evidence sources))) (\<lambda>ev.
     result_bind (collect_evidence (concat (map ic_counter sources))) (\<lambda>ce.
       Inr (target\<lparr>ic_findings := uniq (ic_findings target @ concat (map ic_findings sources)),
         ic_evidence := ev, ic_counter := ce,
         ic_remediation := uniq (concat (map ic_remediation sources)),
         ic_verification := uniq (concat (map ic_verification sources))\<rparr>)))"

section \<open>Projection\<close>

text \<open>A case that changes one live candidate and marks it changed.\<close>

definition edit :: "candidates \<Rightarrow> string \<Rightarrow> int \<Rightarrow> (issue_candidate \<Rightarrow> issue_candidate) \<Rightarrow> board_error + candidates" where
  "edit m i n f =
     result_bind (require_candidate m i) (\<lambda>c. result_bind (changed (f c) n) (\<lambda>c'. Inr (AList.update i c' m)))"

fun voted_status :: "disposition \<Rightarrow> candidate_status" where
  "voted_status Accept = Accepted"
| "voted_status Reject = Rejected"
| "voted_status NeedsVerification = Unverified"

text \<open>One source of a merge: marked, linked to the target and changed.\<close>

definition retire_source :: "string \<Rightarrow> int \<Rightarrow> string \<Rightarrow> candidates \<Rightarrow> board_error + candidates" where
  "retire_source target n i m =
     (case map_of m i of
        None \<Rightarrow> Inl (UnknownCandidate i)
      | Some c \<Rightarrow> result_bind (changed (c\<lparr>ic_status := Merged, ic_children := ic_children c @ [target]\<rparr>) n)
          (\<lambda>c'. Inr (AList.update i c' m)))"

text \<open>One seed of a split of the candidate \<open>i\<close>: its target, added to the source's children.\<close>

definition split_off :: "string \<Rightarrow> int \<Rightarrow> candidate_seed \<Rightarrow> candidates \<times> issue_candidate \<Rightarrow> board_error + candidates \<times> issue_candidate" where
  "split_off i n s mc =
     result_bind (add_new (fst mc) s n [i]) (\<lambda>t.
     result_bind (inherit_context t [snd mc]) (\<lambda>t'.
       let c = (snd mc)\<lparr>ic_children := ic_children (snd mc) @ [sd_id s]\<rparr>
       in Inr (AList.update i c (AList.update (sd_id s) t' (fst mc)), c)))"

fun apply_kind :: "issue_operation \<Rightarrow> int \<Rightarrow> candidates \<Rightarrow> operation_kind \<Rightarrow> board_error + candidates" where
  "apply_kind o1 n m (AddCandidate s) = result_bind (add_new m s n []) (\<lambda>c. Inr (AList.update (sd_id s) c m))"
| "apply_kind o1 n m (AddMissing s es) =
     result_bind (add_new m s n []) (\<lambda>c. Inr (AList.update (sd_id s) (c\<lparr>ic_evidence := es\<rparr>) m))"
| "apply_kind o1 n m (CastVote d r v) = edit m (op_candidate o1) n (\<lambda>c. c
     \<lparr>ic_votes := ic_votes c @ [\<lparr>iv_author = op_author o1, iv_disposition = d, iv_reason = r, iv_round = n, iv_cited = op_cited o1\<rparr>],
      ic_status := voted_status d\<rparr>)"
| "apply_kind o1 n m (MergeInto ids s) =
     result_bind (result_map (require_candidate m) ids) (\<lambda>sources.
     result_bind (add_new m s n ids) (\<lambda>t.
     result_bind (inherit_context t sources) (\<lambda>t'.
       result_fold (retire_source (sd_id s) n) ids (AList.update (sd_id s) t' m))))"
| "apply_kind o1 n m (SplitInto ss r) =
     result_bind (require_candidate m (op_candidate o1)) (\<lambda>c0.
       let c = c0\<lparr>ic_status := Split\<rparr> in
       result_bind (result_fold (split_off (op_candidate o1) n) ss (AList.update (op_candidate o1) c m, c)) (\<lambda>mc.
       result_bind (changed (snd mc) n) (\<lambda>c'. Inr (AList.update (op_candidate o1) c' (fst mc)))))"
| "apply_kind o1 n m (AddEvidence e) = edit m (op_candidate o1) n (\<lambda>c. c\<lparr>ic_evidence := ic_evidence c @ [e]\<rparr>)"
| "apply_kind o1 n m (AddCounter e) = edit m (op_candidate o1) n (\<lambda>c. c\<lparr>ic_counter := ic_counter c @ [e]\<rparr>)"
| "apply_kind o1 n m (ChangeSeverity s r) = edit m (op_candidate o1) n (\<lambda>c. c\<lparr>ic_severity := s\<rparr>)"
| "apply_kind o1 n m (ChangeBlocker b r) = edit m (op_candidate o1) n (\<lambda>c. c\<lparr>ic_blocker := b\<rparr>)"
| "apply_kind o1 n m (SupplementRemediation t) = edit m (op_candidate o1) n (\<lambda>c. c\<lparr>ic_remediation := ic_remediation c @ [t]\<rparr>)"
| "apply_kind o1 n m (SupplementVerification t) = edit m (op_candidate o1) n (\<lambda>c. c\<lparr>ic_verification := ic_verification c @ [t]\<rparr>)"

definition project_step :: "issue_operation \<Rightarrow> candidates \<times> string list \<Rightarrow> board_error + candidates \<times> string list" where
  "project_step o1 s =
     result_bind (assert_operation o1) (\<lambda>_.
       if op_id o1 \<in> set (snd s) then Inl (DuplicateOperation (op_id o1))
       else result_bind (apply_kind o1 (int_of_number (op_round o1)) (fst s) (op_kind o1))
         (\<lambda>m. Inr (m, snd s @ [op_id o1])))"

definition project_board :: "(string \<Rightarrow> string \<Rightarrow> bool) \<Rightarrow> issue_operation list \<Rightarrow> board_error + issue_board" where
  "project_board le ops =
     result_bind (result_fold project_step ops ([], [])) (\<lambda>s.
       Inr \<lparr>ib_candidates = sort_by (on_key le fst) (fst s), ib_operations = snd s\<rparr>)"

definition board_delta :: "(string \<Rightarrow> string \<Rightarrow> bool) \<Rightarrow> issue_board \<Rightarrow> number \<Rightarrow> board_error + issue_candidate list" where
  "board_delta le b since =
     (if \<not> safe_integer since \<or> int_of_number since < - 1 then Inl (InvalidField ''deltaRound'')
      else Inr (sort_by (on_key le ic_id) (filter (\<lambda>c. ic_last c > int_of_number since) (map snd (ib_candidates b)))))"

section \<open>Controller\<close>

definition open_controller :: "(string \<Rightarrow> string \<Rightarrow> bool) \<Rightarrow> issue_operation list \<Rightarrow> board_error + issue_operation list" where
  "open_controller le initial = result_bind (project_board le initial) (\<lambda>_. Inr initial)"

text \<open>\<open>sink\<close> is what the sink holds and \<open>ok\<close> is whether its append resolves.\<close>

definition controller_append ::
  "(string \<Rightarrow> string \<Rightarrow> bool) \<Rightarrow> bool \<Rightarrow> issue_operation \<Rightarrow> issue_operation list \<times> issue_operation list \<Rightarrow>
     (issue_operation list \<times> issue_operation list) \<times> (board_error + unit)" where
  "controller_append le ok o1 st =
     (case assert_operation o1 of
        Inl e \<Rightarrow> (st, Inl e)
      | Inr _ \<Rightarrow>
          (case project_board le (fst st @ [o1]) of
             Inl e \<Rightarrow> (st, Inl e)
           | Inr _ \<Rightarrow> if ok then ((fst st @ [o1], snd st @ [o1]), Inr ()) else (st, Inl SinkFailed)))"

section \<open>What a step does to the candidates\<close>

definition same_evidence :: "evidence \<Rightarrow> evidence \<Rightarrow> bool" where
  "same_evidence e f \<longleftrightarrow> ev_id e = ev_id f \<and> ev_text e = ev_text f \<and> set (ev_locations e) = set (ev_locations f)"

definition all_in :: "evidence list \<Rightarrow> evidence list \<Rightarrow> bool" where
  "all_in es fs \<longleftrightarrow> (\<forall>e \<in> set es. \<exists>f \<in> set fs. same_evidence e f)"

text \<open>The candidate \<open>t\<close> has all the context of \<open>c\<close>.\<close>

definition inherits :: "issue_candidate \<Rightarrow> issue_candidate \<Rightarrow> bool" where
  "inherits c t \<longleftrightarrow> set (ic_findings c) \<subseteq> set (ic_findings t) \<and> all_in (ic_evidence c) (ic_evidence t)
     \<and> all_in (ic_counter c) (ic_counter t) \<and> set (ic_remediation c) \<subseteq> set (ic_remediation t)
     \<and> set (ic_verification c) \<subseteq> set (ic_verification t)"

definition live :: "issue_candidate \<Rightarrow> bool" where
  "live c \<longleftrightarrow> ic_status c \<notin> {Merged, Split}"

definition vote_of :: "issue_operation \<Rightarrow> issue_vote \<Rightarrow> bool" where
  "vote_of o1 v \<longleftrightarrow> (\<exists>x. op_kind o1 = CastVote (iv_disposition v) (iv_reason v) x) \<and> iv_author v = op_author o1
     \<and> iv_round v = int_of_number (op_round o1) \<and> iv_cited v = op_cited o1"

lemma all_in_refl [simp]: "all_in es es"
  by (auto simp: all_in_def same_evidence_def)

lemma all_in_append [simp]: "all_in es (es @ fs)"
  by (auto simp: all_in_def same_evidence_def)

lemma all_in_Nil [simp]: "all_in [] fs"
  by (simp add: all_in_def)

lemma all_in_trans: "all_in a b \<Longrightarrow> all_in b c \<Longrightarrow> all_in a c"
  unfolding all_in_def same_evidence_def by metis

lemma inherits_refl [simp]: "inherits c c"
  by (simp add: inherits_def)

lemma inherits_trans: "inherits a b \<Longrightarrow> inherits b c \<Longrightarrow> inherits a c"
  unfolding inherits_def by (meson all_in_trans subset_trans)

inductive board_move ::
  "issue_operation \<Rightarrow> (string \<rightharpoonup> issue_candidate) \<Rightarrow> (string \<rightharpoonup> issue_candidate) \<Rightarrow> bool" for o1 where
  Edit: "M i = Some c \<Longrightarrow> live c \<Longrightarrow> inherits c c1 \<Longrightarrow> ic_parents c1 = ic_parents c \<Longrightarrow> ic_children c1 = ic_children c \<Longrightarrow>
     ic_id c1 = ic_id c \<Longrightarrow> ic_votes c1 = ic_votes c \<or> i = op_candidate o1 \<and> (\<exists>v. vote_of o1 v \<and> ic_votes c1 = ic_votes c @ [v]) \<Longrightarrow>
     board_move o1 M (M(i \<mapsto> c1))"
| Add: "M i = None \<Longrightarrow> ic_id t = i \<Longrightarrow> ic_children t = [] \<Longrightarrow> ic_votes t = [] \<Longrightarrow> board_move o1 M (M(i \<mapsto> t))"
| Merge: "M i = None \<Longrightarrow> ic_id t = i \<Longrightarrow> ic_children t = [] \<Longrightarrow> ic_votes t = [] \<Longrightarrow> ic_parents t = ids \<Longrightarrow>
     (\<And>k. k \<in> set ids \<Longrightarrow> \<exists>c. M k = Some c \<and> live c \<and> inherits c t) \<Longrightarrow>
     M' = (\<lambda>k. if k \<in> set ids
       then map_option (\<lambda>c. c\<lparr>ic_status := Merged, ic_children := ic_children c @ [i], ic_last := n\<rparr>) (M k)
       else (M(i \<mapsto> t)) k) \<Longrightarrow>
     board_move o1 M M'"
| Split: "M i = Some c \<Longrightarrow> live c \<Longrightarrow> M' i = Some (c\<lparr>ic_status := Split, ic_children := ic_children c @ ds, ic_last := n\<rparr>) \<Longrightarrow>
     (\<And>d. d \<in> set ds \<Longrightarrow> M d = None \<and> (\<exists>t. M' d = Some t \<and> ic_id t = d \<and> ic_children t = [] \<and> ic_votes t = []
        \<and> ic_parents t = [i] \<and> inherits c t)) \<Longrightarrow>
     (\<And>k. k \<noteq> i \<Longrightarrow> k \<notin> set ds \<Longrightarrow> M' k = M k) \<Longrightarrow>
     board_move o1 M M'"

lemma require_candidate_Inr [simp]: "require_candidate m i = Inr c \<longleftrightarrow> map_of m i = Some c \<and> live c"
  by (auto simp: require_candidate_def live_def split: option.splits)

lemma changed_Inr [simp]: "changed c n = Inr c' \<longleftrightarrow> ic_last c \<le> n \<and> c' = c\<lparr>ic_last := n\<rparr>"
  by (auto simp: changed_def)

lemma add_new_Inr [simp]: "add_new m s n ps = Inr c \<longleftrightarrow> map_of m (sd_id s) = None \<and> c = fresh_candidate s n ps"
  by (auto simp: add_new_def)

lemma collect_fold:
  assumes "result_fold collect_step es m0 = Inr m" "\<And>k e. map_of m0 k = Some e \<Longrightarrow> ev_id e = k"
  shows "(\<forall>k e. map_of m0 k = Some e \<longrightarrow> (\<exists>f. map_of m k = Some f \<and> same_evidence e f))
    \<and> (\<forall>e \<in> set es. \<exists>f. map_of m (ev_id e) = Some f \<and> same_evidence e f)"
  using assms
proof (induction es arbitrary: m0)
  case Nil
  then show ?case by (auto simp: same_evidence_def)
next
  case (Cons e es)
  from Cons.prems(1) obtain m1 where step: "collect_step e m0 = Inr m1" and rest: "result_fold collect_step es m1 = Inr m"
    by (auto simp: result_simps)
  from step have m1: "m1 = AList.update (ev_id e) e m0" and old: "\<And>p. map_of m0 (ev_id e) = Some p \<Longrightarrow> \<not> conflicts p e"
    by (auto simp: collect_step_def split: option.splits if_splits)
  have ids: "ev_id f = k" if "map_of m1 k = Some f" for k f
    using that Cons.prems(2) by (auto simp: m1 split: if_splits)
  have IH: "\<exists>f. map_of m k = Some f \<and> same_evidence p f" if "map_of m1 k = Some p" for k p
    using Cons.IH [OF rest] ids that by blast
  have IHs: "\<forall>p \<in> set es. \<exists>f. map_of m (ev_id p) = Some f \<and> same_evidence p f"
    using Cons.IH [OF rest] ids by blast
  have same: "same_evidence p e" if "map_of m0 (ev_id e) = Some p" for p
    using old [OF that] Cons.prems(2) [OF that] by (auto simp: conflicts_def same_evidence_def) (metis set_sort_strings)+
  have "\<exists>f. map_of m k = Some f \<and> same_evidence p f" if "map_of m0 k = Some p" for k p
  proof (cases "k = ev_id e")
    case True
    have "map_of m1 (ev_id e) = Some e" by (simp add: m1)
    from IH [OF this] True obtain f where "map_of m k = Some f" "same_evidence e f" by auto
    moreover have "same_evidence p e" using same that True by simp
    ultimately show ?thesis by (auto simp: same_evidence_def)
  next
    case False
    with that IH [of k p] m1 show ?thesis by auto
  qed
  moreover have "\<exists>f. map_of m (ev_id e) = Some f \<and> same_evidence e f" using IH [of "ev_id e" e] m1 by simp
  ultimately show ?case using IHs by simp
qed

lemma collect_evidence_all: "collect_evidence es = Inr fs \<Longrightarrow> all_in es fs"
proof -
  assume "collect_evidence es = Inr fs"
  then obtain m where m: "result_fold collect_step es [] = Inr m" "fs = map snd m"
    by (auto simp: collect_evidence_def result_simps)
  have "\<forall>e \<in> set es. \<exists>f. map_of m (ev_id e) = Some f \<and> same_evidence e f"
    by (rule conjunct2 [OF collect_fold [OF m(1)]]) simp
  then show "all_in es fs"
    unfolding all_in_def m(2) by (metis map_of_SomeD nth_mem image_eqI set_map snd_conv)
qed

lemma inherit_context_Inr:
  assumes "inherit_context t cs = Inr t'"
  shows "\<exists>fs es rs ce vs. t' = t\<lparr>ic_findings := fs, ic_evidence := es, ic_counter := ce, ic_remediation := rs, ic_verification := vs\<rparr>"
    and "\<And>c. c \<in> set cs \<Longrightarrow> inherits c t'"
proof -
  from assms obtain ev ce where c: "collect_evidence (concat (map ic_evidence cs)) = Inr ev"
    "collect_evidence (concat (map ic_counter cs)) = Inr ce"
    "t' = t\<lparr>ic_findings := uniq (ic_findings t @ concat (map ic_findings cs)), ic_evidence := ev, ic_counter := ce,
      ic_remediation := uniq (concat (map ic_remediation cs)), ic_verification := uniq (concat (map ic_verification cs))\<rparr>"
    by (auto simp: inherit_context_def result_simps)
  then show "\<exists>fs es rs ce vs. t' = t\<lparr>ic_findings := fs, ic_evidence := es, ic_counter := ce, ic_remediation := rs, ic_verification := vs\<rparr>"
    by blast
  from c(1,2) [THEN collect_evidence_all] c(3) show "inherits c t'" if "c \<in> set cs" for c
    using that by (force simp: inherits_def all_in_def)
qed

lemma retire_fold:
  assumes "result_fold (retire_source s n) ids m = Inr m'" "distinct ids"
  shows "map_of m' = (\<lambda>k. if k \<in> set ids
    then map_option (\<lambda>c. c\<lparr>ic_status := Merged, ic_children := ic_children c @ [s], ic_last := n\<rparr>) (map_of m k) else map_of m k)"
  using assms
proof (induction ids arbitrary: m)
  case Nil
  then show ?case by auto
next
  case (Cons i ids)
  from Cons.prems obtain c where c: "map_of m i = Some c"
    "result_fold (retire_source s n) ids
       (AList.update i (c\<lparr>ic_status := Merged, ic_children := ic_children c @ [s], ic_last := n\<rparr>) m) = Inr m'"
    by (auto simp: result_simps retire_source_def [of s n i] split: option.splits)
  from Cons.IH [OF c(2)] Cons.prems(2) c(1) show ?case by auto
qed

definition split_inv ::
  "string \<Rightarrow> (string \<rightharpoonup> issue_candidate) \<Rightarrow> issue_candidate \<Rightarrow> string list \<Rightarrow> candidates \<times> issue_candidate \<Rightarrow> bool" where
  "split_inv i M c ds mc \<longleftrightarrow> map_of (fst mc) i = Some (snd mc)
     \<and> snd mc = c\<lparr>ic_status := Split, ic_children := ic_children c @ ds\<rparr>
     \<and> (\<forall>d \<in> set ds. M d = None \<and> (\<exists>t. map_of (fst mc) d = Some t \<and> ic_id t = d \<and> ic_children t = [] \<and> ic_votes t = []
          \<and> ic_parents t = [i] \<and> inherits c t))
     \<and> (\<forall>k. k \<noteq> i \<longrightarrow> k \<notin> set ds \<longrightarrow> map_of (fst mc) k = M k)"

lemma split_step:
  assumes "split_inv i M c ds mc" "split_off i n s mc = Inr mc'" "M i = Some c"
  shows "split_inv i M c (ds @ [sd_id s]) mc'"
proof -
  let ?c = "(snd mc)\<lparr>ic_children := ic_children (snd mc) @ [sd_id s]\<rparr>"
  from assms(2) obtain t' where t: "map_of (fst mc) (sd_id s) = None"
    "inherit_context (fresh_candidate s n [i]) [snd mc] = Inr t'"
    "mc' = (AList.update i ?c (AList.update (sd_id s) t' (fst mc)), ?c)"
    by (auto simp: split_off_def result_simps Let_def)
  have "inherits c t'"
    using inherit_context_Inr(2) [OF t(2), of "snd mc"] assms(1) by (auto simp: split_inv_def inherits_def)
  moreover have "ic_id t' = sd_id s \<and> ic_children t' = [] \<and> ic_votes t' = [] \<and> ic_parents t' = [i]"
    using inherit_context_Inr(1) [OF t(2)] by (auto simp: fresh_candidate_def)
  moreover from t(1) assms(1) have "sd_id s \<noteq> i" "sd_id s \<notin> set ds" by (auto simp: split_inv_def)
  moreover from this t(1) assms(1) have "M (sd_id s) = None" by (simp add: split_inv_def)
  moreover from assms(1,3) have "i \<notin> set ds" by (auto simp: split_inv_def)
  ultimately show ?thesis using assms(1) unfolding split_inv_def t(3) by auto
qed

lemma split_fold:
  assumes "result_fold (split_off i n) ss mc = Inr mc'" "split_inv i M c ds mc" "M i = Some c"
  shows "split_inv i M c (ds @ map sd_id ss) mc'"
  using assms
proof (induction ss arbitrary: mc ds)
  case Nil
  then show ?case by simp
next
  case (Cons s ss)
  then show ?case by (fastforce simp: result_simps dest: split_step)
qed

lemma move_edit:
  assumes "edit m i n f = Inr m'" "\<And>c. inherits c ((f c)\<lparr>ic_last := n\<rparr>)" "\<And>c. ic_parents (f c) = ic_parents c"
    "\<And>c. ic_children (f c) = ic_children c" "\<And>c. ic_id (f c) = ic_id c"
    "\<And>c. ic_votes (f c) = ic_votes c \<or> i = op_candidate o1 \<and> (\<exists>v. vote_of o1 v \<and> ic_votes (f c) = ic_votes c @ [v])"
  shows "board_move o1 (map_of m) (map_of m')"
proof -
  from assms(1) obtain c where c: "map_of m i = Some c" "live c" "m' = AList.update i ((f c)\<lparr>ic_last := n\<rparr>) m"
    by (auto simp: edit_def result_simps)
  show ?thesis unfolding c(3) map_of_update
    by (rule board_move.Edit [where M = "map_of m" and i = i and c = c]) (use c assms(2-) in auto)
qed

lemma move_add:
  "map_of m i = None \<Longrightarrow> ic_id t = i \<Longrightarrow> ic_children t = [] \<Longrightarrow> ic_votes t = [] \<Longrightarrow>
     board_move o1 (map_of m) (map_of (AList.update i t m))"
  by (auto intro: board_move.Add)


lemma move_merge:
  assumes "apply_kind o1 n m (MergeInto ids s) = Inr m'" "distinct ids"
  shows "board_move o1 (map_of m) (map_of m')"
proof -
  from assms(1) obtain cs t where t: "result_map (require_candidate m) ids = Inr cs" "map_of m (sd_id s) = None"
    "inherit_context (fresh_candidate s n ids) cs = Inr t"
    "result_fold (retire_source (sd_id s) n) ids (AList.update (sd_id s) t m) = Inr m'"
    by (auto simp: result_simps)
  have sources: "\<exists>c. map_of m k = Some c \<and> live c \<and> inherits c t" if "k \<in> set ids" for k
  proof -
    from t(1) that obtain c where "c \<in> set cs" "require_candidate m k = Inr c"
      by (auto simp: result_map_Inr_iff list_all2_conv_all_nth in_set_conv_nth) (metis nth_mem)
    with inherit_context_Inr(2) [OF t(3)] show ?thesis by auto
  qed
  have shape: "ic_id t = sd_id s" "ic_children t = []" "ic_votes t = []" "ic_parents t = ids"
    using inherit_context_Inr(1) [OF t(3)] by (auto simp: fresh_candidate_def)
  have m': "map_of m' = (\<lambda>k. if k \<in> set ids
    then map_option (\<lambda>c. c\<lparr>ic_status := Merged, ic_children := ic_children c @ [sd_id s], ic_last := n\<rparr>) (map_of m k)
    else ((map_of m)(sd_id s \<mapsto> t)) k)"
    using sources t(2) by (force simp: retire_fold [OF t(4) assms(2)])
  show ?thesis by (rule board_move.Merge [OF t(2) shape sources m'])
qed

lemma move_split:
  assumes "apply_kind o1 n m (SplitInto ss r) = Inr m'"
  shows "board_move o1 (map_of m) (map_of m')"
proof -
  let ?i = "op_candidate o1"
  from assms obtain c mc where c: "map_of m ?i = Some c" "live c"
    "result_fold (split_off ?i n) ss (AList.update ?i (c\<lparr>ic_status := Split\<rparr>) m, c\<lparr>ic_status := Split\<rparr>) = Inr mc"
    "m' = AList.update ?i ((snd mc)\<lparr>ic_last := n\<rparr>) (fst mc)"
    by (auto simp: result_simps Let_def)
  have "split_inv ?i (map_of m) c [] (AList.update ?i (c\<lparr>ic_status := Split\<rparr>) m, c\<lparr>ic_status := Split\<rparr>)"
    by (simp add: split_inv_def)
  from split_fold [OF c(3) this c(1)] have inv: "split_inv ?i (map_of m) c (map sd_id ss) mc" by simp
  have i: "?i \<notin> set (map sd_id ss)" using inv c(1) by (auto simp: split_inv_def)
  show ?thesis
    by (rule board_move.Split [where i = ?i and c = c and ds = "map sd_id ss" and n = n])
      (use inv i c(1,2,4) in \<open>auto simp: split_inv_def\<close>)
qed

lemma project_move:
  assumes "project_step o1 s = Inr s'"
  shows "board_move o1 (map_of (fst s)) (map_of (fst s'))" "snd s' = snd s @ [op_id o1]" "op_id o1 \<notin> set (snd s)"
proof -
  let ?n = "int_of_number (op_round o1)"
  from assms have ok: "assert_kind o1 (op_kind o1) = Inr ()" and step: "apply_kind o1 ?n (fst s) (op_kind o1) = Inr (fst s')"
    by (auto simp: project_step_def assert_operation_def result_simps split: if_splits)
  show "board_move o1 (map_of (fst s)) (map_of (fst s'))"
  proof (cases "op_kind o1")
    case (AddCandidate sd)
    with step have "map_of (fst s) (sd_id sd) = None" "fst s' = AList.update (sd_id sd) (fresh_candidate sd ?n []) (fst s)"
      by (auto simp: result_simps)
    then show ?thesis by (simp add: board_move.Add fresh_candidate_def)
  next
    case (AddMissing sd es)
    with step have "map_of (fst s) (sd_id sd) = None"
      "fst s' = AList.update (sd_id sd) ((fresh_candidate sd ?n [])\<lparr>ic_evidence := es\<rparr>) (fst s)"
      by (auto simp: result_simps)
    then show ?thesis by (simp add: board_move.Add fresh_candidate_def)
  next
    case (MergeInto ids sd)
    with ok have "length (uniq ids) = length ids" by (auto simp: result_simps)
    then have "distinct ids" by (simp only: length_uniq_eq_iff)
    with step MergeInto show ?thesis by (simp add: move_merge del: apply_kind.simps)
  next
    case (SplitInto ss r)
    with step show ?thesis by (simp add: move_split del: apply_kind.simps)
  qed (use step in \<open>auto simp: inherits_def vote_of_def intro: move_edit\<close>)
  from assms show "snd s' = snd s @ [op_id o1]" "op_id o1 \<notin> set (snd s)"
    by (auto simp: project_step_def result_simps split: if_splits)
qed

section \<open>Invariants of a projection\<close>

definition linked :: "(string \<rightharpoonup> issue_candidate) \<Rightarrow> bool" where
  "linked M \<longleftrightarrow> (\<forall>k c. M k = Some c \<longrightarrow> ic_id c = k \<and> (\<forall>d \<in> set (ic_children c). \<not> live c
     \<and> (\<exists>t. M d = Some t \<and> k \<in> set (ic_parents t) \<and> inherits c t)))"

definition votes_in :: "issue_operation list \<Rightarrow> (string \<rightharpoonup> issue_candidate) \<Rightarrow> bool" where
  "votes_in ops M \<longleftrightarrow> (\<forall>k c. M k = Some c \<longrightarrow> (\<forall>v \<in> set (ic_votes c). \<exists>o1 \<in> set ops. op_candidate o1 = k \<and> vote_of o1 v))"

lemma linkedD:
  assumes "linked M" "M k = Some c"
  shows "ic_id c = k" "d \<in> set (ic_children c) \<Longrightarrow> \<exists>t. M d = Some t \<and> k \<in> set (ic_parents t) \<and> inherits c t"
    "live c \<Longrightarrow> ic_children c = []"
  using assms by (fastforce simp: linked_def)+

lemma move_linked:
  assumes "board_move o1 M M'" "linked M"
  shows "linked M'"
  using assms
proof (cases rule: board_move.cases)
  case (Edit i c c1)
  show ?thesis unfolding linked_def
  proof (intro allI impI conjI ballI)
    fix k x assume x: "M' k = Some x"
    show "ic_id x = k" using x Edit linkedD(1) [OF assms(2)] by (auto split: if_splits)
    fix d assume d: "d \<in> set (ic_children x)"
    have k: "k \<noteq> i" "M k = Some x" using x d Edit linkedD(3) [OF assms(2), of i c] by (auto split: if_splits)
    show "\<not> live x" using linkedD(3) [OF assms(2) k(2)] d by auto
    from linkedD(2) [OF assms(2) k(2) d] obtain t where t: "M d = Some t" "k \<in> set (ic_parents t)" "inherits x t" by auto
    show "\<exists>t. M' d = Some t \<and> k \<in> set (ic_parents t) \<and> inherits x t"
      using t Edit by (cases "d = i") (auto intro: inherits_trans)
  qed
next
  case (Add i t)
  then show ?thesis using assms(2) by (fastforce simp: linked_def split: if_splits)
next
  case (Merge i t ids n)
  show ?thesis unfolding linked_def
  proof (intro allI impI conjI ballI)
    fix k x assume x: "M' k = Some x"
    show "ic_id x = k" using x Merge linkedD(1) [OF assms(2)] by (auto split: if_splits)
    have i: "i \<notin> set ids" using Merge by force
    fix d assume d: "d \<in> set (ic_children x)"
    have "\<not> live x \<and> (\<exists>t. M' d = Some t \<and> k \<in> set (ic_parents t) \<and> inherits x t)"
    proof (cases "k \<in> set ids")
      case True
      from Merge(6) [OF this] obtain c where c: "M k = Some c" "live c" "inherits c t" by auto
      with x True Merge(7) have x': "x = c\<lparr>ic_status := Merged, ic_children := ic_children c @ [i], ic_last := n\<rparr>" by simp
      with d linkedD(3) [OF assms(2) c(1,2)] have "d = i" by simp
      with c Merge(5,7) i True show ?thesis by (auto simp: x' live_def inherits_def)
    next
      case False
      with x d Merge(3,7) have k: "M k = Some x" by (auto split: if_splits)
      from linkedD(2) [OF assms(2) k d] obtain u where u: "M d = Some u" "k \<in> set (ic_parents u)" "inherits x u" by auto
      have "d \<noteq> i" using u Merge(1) by auto
      then have "\<exists>t. M' d = Some t \<and> k \<in> set (ic_parents t) \<and> inherits x t"
        using u Merge(7) by (auto simp: inherits_def)
      then show ?thesis using linkedD(3) [OF assms(2) k] d by auto
    qed
    then show "\<not> live x" "\<exists>t. M' d = Some t \<and> k \<in> set (ic_parents t) \<and> inherits x t" by auto
  qed
next
  case (Split i c n ds)
  have i: "i \<notin> set ds" using Split(1,4) by force
  show ?thesis unfolding linked_def
  proof (intro allI impI conjI ballI)
    fix k x assume x: "M' k = Some x"
    show "ic_id x = k"
    proof (cases "k = i \<or> k \<in> set ds")
      case True
      with Split(3) Split(4) [of k] x linkedD(1) [OF assms(2) Split(1)] show ?thesis by auto
    next
      case False
      with Split(5) [of k] x linkedD(1) [OF assms(2)] show ?thesis by simp
    qed
    fix d assume d: "d \<in> set (ic_children x)"
    have "\<not> live x \<and> (\<exists>t. M' d = Some t \<and> k \<in> set (ic_parents t) \<and> inherits x t)"
    proof (cases "k = i")
      case True
      with x Split(3) have x': "x = c\<lparr>ic_status := Split, ic_children := ic_children c @ ds, ic_last := n\<rparr>" by simp
      with d linkedD(3) [OF assms(2) Split(1,2)] have "d \<in> set ds" by simp
      from Split(4) [OF this] True show ?thesis by (auto simp: x' live_def inherits_def)
    next
      case False
      have "k \<notin> set ds" using x d Split(4) by force
      with False Split(5) x have k: "M k = Some x" by simp
      from linkedD(2) [OF assms(2) k d] obtain u where u: "M d = Some u" "k \<in> set (ic_parents u)" "inherits x u" by auto
      have "d \<notin> set ds" using u Split(4) by force
      then have "\<exists>t. M' d = Some t \<and> k \<in> set (ic_parents t) \<and> inherits x t"
        using u Split(1,3,5) by (cases "d = i") (auto simp: inherits_def)
      then show ?thesis using linkedD(3) [OF assms(2) k] d by auto
    qed
    then show "\<not> live x" "\<exists>t. M' d = Some t \<and> k \<in> set (ic_parents t) \<and> inherits x t" by auto
  qed
qed

lemma move_votes:
  assumes "board_move o1 M M'" "M' k = Some x" "v \<in> set (ic_votes x)"
  shows "(\<exists>c. M k = Some c \<and> v \<in> set (ic_votes c)) \<or> op_candidate o1 = k \<and> vote_of o1 v"
  using assms
proof (cases rule: board_move.cases)
  case (Split i c n ds)
  show ?thesis
  proof (cases "k = i \<or> k \<in> set ds")
    case True
    with Split(1,3) Split(4) [of k] assms(2,3) show ?thesis by auto
  next
    case False
    with Split(5) [of k] assms(2,3) show ?thesis by auto
  qed
qed (auto split: if_splits)

lemma move_votes_in: "board_move o1 M M' \<Longrightarrow> votes_in ops M \<Longrightarrow> votes_in (ops @ [o1]) M'"
  unfolding votes_in_def using move_votes by (metis UnI1 UnI2 list.set_intros(1) set_append)

lemma project_fold:
  assumes "result_fold project_step ops s = Inr s'" "linked (map_of (fst s))" "votes_in done1 (map_of (fst s))"
    "snd s = map op_id done1" "distinct (snd s)"
  shows "linked (map_of (fst s')) \<and> votes_in (done1 @ ops) (map_of (fst s'))
    \<and> snd s' = map op_id (done1 @ ops) \<and> distinct (map op_id (done1 @ ops))"
  using assms
proof (induction ops arbitrary: s done1)
  case Nil
  then show ?case by simp
next
  case (Cons o1 ops)
  from Cons.prems(1) obtain s1 where s1: "project_step o1 s = Inr s1" "result_fold project_step ops s1 = Inr s'"
    by (auto simp: result_simps)
  note m = project_move [OF s1(1)]
  show ?case
    using Cons.IH [OF s1(2), of "done1 @ [o1]"] move_linked [OF m(1)] move_votes_in [OF m(1)] m(2,3) Cons.prems by simp
qed

lemma keys_edit: "distinct (map fst m) \<Longrightarrow> edit m i n f = Inr m' \<Longrightarrow> distinct (map fst m')"
  by (auto simp: edit_def result_simps)

lemma keys_apply:
  assumes "apply_kind o1 n m kd = Inr m'" "distinct (map fst m)"
  shows "distinct (map fst m')"
proof -
  have merge: "distinct (map fst m2)" if "result_fold (retire_source i n) ids m1 = Inr m2" "distinct (map fst m1)" for i ids m1 m2
    using that(1) by (rule result_fold_invariant [where I = "\<lambda>m. distinct (map fst m)"])
      (use that(2) in \<open>auto simp: retire_source_def result_simps split: option.splits\<close>)
  have split: "distinct (map fst (fst mc2))" if "result_fold (split_off i n) ss mc1 = Inr mc2" "distinct (map fst (fst mc1))" for i ss mc1 mc2
    using that(1) by (rule result_fold_invariant [where I = "\<lambda>mc. distinct (map fst (fst mc))"])
      (use that(2) in \<open>auto simp: split_off_def Let_def result_simps\<close>)
  show ?thesis using assms
    by (cases kd) (auto simp: result_simps Let_def intro: keys_edit dest!: merge split)
qed

lemma project_keys:
  assumes "result_fold project_step ops ([], []) = Inr s"
  shows "distinct (map fst (fst s))"
  by (rule result_fold_invariant [OF assms, where I = "\<lambda>s. distinct (map fst (fst s))"])
    (auto simp: project_step_def result_simps intro: keys_apply split: if_splits)

lemma project_board_inv:
  assumes "project_board le ops = Inr b"
  shows "linked (map_of (ib_candidates b))" "votes_in ops (map_of (ib_candidates b))"
    "ib_operations b = map op_id ops" "distinct (map op_id ops)"
proof -
  from assms obtain s where s: "result_fold project_step ops ([], []) = Inr s" "ib_operations b = snd s"
    "ib_candidates b = sort_by (on_key le fst) (fst s)"
    by (auto simp: project_board_def result_simps)
  have "map_of (ib_candidates b) = map_of (fst s)"
    unfolding s(3) by (rule map_of_sort_by) (rule project_keys [OF s(1)])
  with project_fold [OF s(1), of "[]"] s(2) show "linked (map_of (ib_candidates b))" "votes_in ops (map_of (ib_candidates b))"
    "ib_operations b = map op_id ops" "distinct (map op_id ops)"
    by (auto simp: linked_def votes_in_def)
qed

section \<open>Appending\<close>

definition append_all ::
  "(string \<Rightarrow> string \<Rightarrow> bool) \<Rightarrow> (bool \<times> issue_operation) list \<Rightarrow> issue_operation list \<times> issue_operation list \<Rightarrow>
     issue_operation list \<times> issue_operation list" where
  "append_all le calls st = fold (\<lambda>(ok, o1) st. fst (controller_append le ok o1 st)) calls st"

lemma controller_append_inv:
  assumes "fst st = snd st" "project_board le (fst st) = Inr b" "controller_append le ok o1 st = (st', r)"
  shows "fst st' = snd st' \<and> (\<exists>b'. project_board le (fst st') = Inr b') \<and> (\<exists>new. fst st' = fst st @ new)"
  using assms by (auto simp: controller_append_def split: sum.splits if_splits)

lemma append_all_inv:
  assumes "fst st = snd st" "\<exists>b. project_board le (fst st) = Inr b"
  shows "fst (append_all le calls st) = snd (append_all le calls st)
    \<and> (\<exists>b. project_board le (fst (append_all le calls st)) = Inr b) \<and> (\<exists>new. fst (append_all le calls st) = fst st @ new)"
  using assms
proof (induction calls arbitrary: st)
  case Nil
  then show ?case by (simp add: append_all_def)
next
  case (Cons x calls)
  obtain ok o1 where x: "x = (ok, o1)" by (cases x)
  obtain st' r where st': "controller_append le ok o1 st = (st', r)" by (metis surj_pair)
  from Cons.prems(2) obtain b where "project_board le (fst st) = Inr b" by auto
  from controller_append_inv [OF Cons.prems(1) this st'] Cons.IH [of st'] show ?case
    by (auto simp: append_all_def x st') (metis append.assoc)
qed

section \<open>Properties\<close>

text \<open>
  C14. Restructuring loses nothing: whatever the operations that follow, a merged or split candidate is
  linked to candidates that name it as a parent and hold all its source findings, its evidence, its
  counter-evidence and its supplements; and nothing but a retirement links candidates.
\<close>

theorem merged_context_kept:
  assumes "project_board le ops = Inr b" "map_of (ib_candidates b) k = Some c" "d \<in> set (ic_children c)"
  shows "ic_status c \<in> {Merged, Split} \<and> (\<exists>t. map_of (ib_candidates b) d = Some t \<and> k \<in> set (ic_parents t)
    \<and> set (ic_findings c) \<subseteq> set (ic_findings t) \<and> all_in (ic_evidence c) (ic_evidence t) \<and> all_in (ic_counter c) (ic_counter t)
    \<and> set (ic_remediation c) \<subseteq> set (ic_remediation t) \<and> set (ic_verification c) \<subseteq> set (ic_verification t))"
  using project_board_inv(1) [OF assms(1)] assms(2,3) unfolding linked_def inherits_def live_def by blast

definition seed_example :: "string \<Rightarrow> candidate_seed" where
  "seed_example i = \<lparr>sd_id = i, sd_title = ''t'', sd_description = ''d'', sd_findings = [''a/'' @ i], sd_severity = High, sd_blocker = False\<rparr>"

definition operation_example :: "string \<Rightarrow> string \<Rightarrow> operation_kind \<Rightarrow> issue_operation" where
  "operation_example i c kd =
     \<lparr>op_id = i, op_candidate = c, op_author = ''a'', op_round = num 1, op_cited = [''e1''], op_kind = kd\<rparr>"

definition merge_example :: "issue_operation list" where
  "merge_example =
     [operation_example ''o1'' ''x'' (AddMissing (seed_example ''x'') [\<lparr>ev_id = ''e1'', ev_text = ''t'', ev_locations = [''l'']\<rparr>]),
      operation_example ''o2'' ''y'' (AddCandidate (seed_example ''y'')),
      operation_example ''o3'' ''y'' (CastVote Accept ''r'' None),
      operation_example ''o4'' ''z'' (MergeInto [''x'', ''y''] (seed_example ''z''))]"

lemma merge_example_board:
  "\<exists>b c. project_board (\<le>) merge_example = Inr b \<and> map_of (ib_candidates b) ''y'' = Some c \<and> ''z'' \<in> set (ic_children c)
     \<and> ic_votes c \<noteq> []"
proof -
  have "case project_board (\<le>) merge_example of Inl e \<Rightarrow> False
    | Inr b \<Rightarrow> (case map_of (ib_candidates b) ''y'' of None \<Rightarrow> False | Some c \<Rightarrow> ''z'' \<in> set (ic_children c) \<and> ic_votes c \<noteq> [])"
    by code_simp
  then show ?thesis by (auto split: sum.splits option.splits)
qed

theorem merged_context_kept_witness:
  "\<exists>b t. project_board (\<le>) merge_example = Inr b \<and> map_of (ib_candidates b) ''z'' = Some t \<and> ''y'' \<in> set (ic_parents t)"
proof -
  from merge_example_board obtain b c where "project_board (\<le>) merge_example = Inr b"
    "map_of (ib_candidates b) ''y'' = Some c" "''z'' \<in> set (ic_children c)" by auto
  from merged_context_kept [OF this] this(1) show ?thesis by auto
qed

text \<open>
  Votes stay with the claim they were cast on: every vote of a candidate is the vote of an operation of the
  log on that candidate, by the same author in the same round, so no candidate made by a merge or a split
  starts with a vote; and the log holds every operation id once, in order.
\<close>

theorem votes_stay_with_claim:
  assumes "project_board le ops = Inr b" "map_of (ib_candidates b) k = Some c" "v \<in> set (ic_votes c)"
  shows "(\<exists>o1 \<in> set ops. op_candidate o1 = k \<and> (\<exists>x. op_kind o1 = CastVote (iv_disposition v) (iv_reason v) x)
      \<and> iv_author v = op_author o1 \<and> iv_round v = int_of_number (op_round o1) \<and> iv_cited v = op_cited o1)
    \<and> ib_operations b = map op_id ops \<and> distinct (map op_id ops)"
  using project_board_inv(2-4) [OF assms(1)] assms(2,3) unfolding votes_in_def vote_of_def by blast

theorem votes_stay_with_claim_witness: "\<exists>o1 \<in> set merge_example. op_candidate o1 = ''y'' \<and> op_author o1 = ''a''"
proof -
  from merge_example_board obtain b c where b: "project_board (\<le>) merge_example = Inr b"
    "map_of (ib_candidates b) ''y'' = Some c" "ic_votes c \<noteq> []" by auto
  then obtain v where "v \<in> set (ic_votes c)" by (meson hd_in_set)
  from votes_stay_with_claim [OF b(1,2) this] obtain o1 where "o1 \<in> set merge_example" "op_candidate o1 = ''y''" by auto
  then show ?thesis by (auto simp: merge_example_def operation_example_def)
qed

text \<open>
  C15. What the controller holds can always be projected: after any appends, failed ones and failed sinks
  included, its operations are those the sink holds, they extend the initial ones, and a new controller
  opens on them.
\<close>

theorem controller_reopens:
  assumes "open_controller le initial = Inr ops" "append_all le calls (ops, ops) = (ops', sunk)"
  shows "sunk = ops' \<and> open_controller le sunk = Inr sunk \<and> (\<exists>new. ops' = initial @ new)"
proof -
  from assms(1) have "ops = initial" "\<exists>b. project_board le ops = Inr b"
    by (auto simp: open_controller_def result_simps)
  with append_all_inv [of "(ops, ops)" le calls] assms(2) show ?thesis by (auto simp: open_controller_def)
qed

theorem controller_reopens_witness: "open_controller (\<le>) (take 1 merge_example) = Inr (take 1 merge_example)"
proof -
  have "open_controller (\<le>) [] = Inr []" by (simp add: open_controller_def project_board_def)
  moreover have "append_all (\<le>) [(True, hd merge_example), (True, hd merge_example), (False, merge_example ! 1)] ([], [])
    = (take 1 merge_example, take 1 merge_example)" by code_simp
  ultimately show ?thesis by (rule controller_reopens [THEN conjunct2, THEN conjunct1])
qed

end
