(* ===== verification/Consensus.thy ===== *)
theory Consensus
  imports Issue_Board
begin

text \<open>
  The consensus rule: \<open>packages/workflow/src/consensus/engine.ts\<close>. Only the latest vote of each auditor
  counts. Counts are compared with the policy's numbers as JavaScript numbers.
\<close>

section \<open>Data\<close>

datatype policy_name = FullPolicy | RiskWeighted | MinimalPolicy

datatype consensus_outcome = OutAccepted | OutRejected | OutVerify | OutNoConsensus | OutSingleSource

record consensus_vote =
  cv_author :: string
  cv_disposition :: disposition
  cv_cited :: "string list"
  cv_reason :: string

datatype evidence_type = FromRepository | FromTest | FromSpecification | Inference | Speculation

record objection =
  ob_author :: string
  ob_reason :: string
  ob_cites_location :: bool
  ob_type :: evidence_type
  ob_resolved_by :: "string option"

record consensus_candidate =
  cc_id :: string
  cc_findings :: "string list"
  cc_severity :: severity
  cc_blocker :: bool
  cc_status :: string
  cc_votes :: "consensus_vote list"
  cc_objections :: "objection list"
  cc_counter :: "evidence list"
  cc_last_changed :: int
  cc_category :: "string option"
  cc_blast_radius :: bool
  cc_low_confidence :: bool
  cc_unresolved :: "string list"

record auditor =
  au_id :: string
  au_group :: string

record consensus_policy =
  po_name :: policy_name
  po_quorum :: number
  po_groups :: number

definition default_policy :: consensus_policy where
  "default_policy = \<lparr>po_name = RiskWeighted, po_quorum = num 2, po_groups = num 2\<rparr>"

record candidate_consensus =
  cn_id :: string
  cn_outcome :: consensus_outcome
  cn_support :: nat
  cn_denominator :: nat
  cn_groups :: nat
  cn_dissent :: "consensus_vote list"
  cn_counter :: "evidence list"
  cn_reviewed_by :: "string list"
  cn_missing :: "string list"
  cn_escalate :: bool
  cn_reason :: string

record consensus_state =
  co_policy :: policy_name
  co_auditors :: nat
  co_round :: number
  co_exhausted :: bool
  co_candidates :: "candidate_consensus list"

datatype consensus_error = InvalidMaximumRounds | InvalidRound | InvalidAuditors

section \<open>Decision of a candidate\<close>

text \<open>The pattern \<open>/(?:security|authorization|data_integrity|architecture|migration)/iu\<close>.\<close>

definition risky_category :: "string \<Rightarrow> bool" where
  "risky_category s \<longleftrightarrow>
     list_ex (\<lambda>w. contains_text w (ascii_lower s))
       [''security'', ''authorization'', ''data_integrity'', ''architecture'', ''migration'']"

definition is_high_risk :: "consensus_candidate \<Rightarrow> bool" where
  "is_high_risk c \<longleftrightarrow> cc_severity c = Critical \<or> cc_severity c = High \<or> cc_blocker c
     \<or> risky_category (case cc_category c of None \<Rightarrow> [] | Some s \<Rightarrow> s) \<or> cc_blast_radius c"

definition latest_votes :: "consensus_vote list \<Rightarrow> string list \<Rightarrow> (string \<times> consensus_vote) list" where
  "latest_votes votes allowed =
     fold (\<lambda>v m. if cv_author v \<in> set allowed then AList.update (cv_author v) v m else m) votes []"

definition of_kind :: "disposition \<Rightarrow> consensus_vote list \<Rightarrow> consensus_vote list" where
  "of_kind d votes = filter (\<lambda>v. cv_disposition v = d) votes"

definition backed :: "consensus_vote list \<Rightarrow> consensus_vote list" where
  "backed votes = filter (\<lambda>v. cv_cited v \<noteq> []) votes"

definition blocking_objection :: "consensus_candidate \<Rightarrow> bool" where
  "blocking_objection c \<longleftrightarrow> is_high_risk c
     \<and> list_ex (\<lambda>o1. ob_cites_location o1 \<and> ob_type o1 \<noteq> Speculation \<and> ob_resolved_by o1 = None) (cc_objections c)"

definition groups_of :: "auditor list \<Rightarrow> consensus_vote list \<Rightarrow> string list" where
  "groups_of auditors votes =
     uniq (List.map_filter (\<lambda>v. map_of (rev (map (\<lambda>a. (au_id a, au_group a)) auditors)) (cv_author v)) votes)"

definition missing_reviewers :: "consensus_candidate \<Rightarrow> auditor list \<Rightarrow> (string \<times> consensus_vote) list \<Rightarrow> bool \<Rightarrow> string list" where
  "missing_reviewers c auditors latest unreviewed =
     (if unreviewed then []
      else filter (\<lambda>i. map_of latest i = None \<and> list_ex (\<lambda>s. first_part (CHR ''/'') s \<noteq> i) (cc_findings c))
        (map au_id auditors))"

definition decide_outcome ::
  "consensus_candidate \<Rightarrow> consensus_policy \<Rightarrow> auditor list \<Rightarrow> consensus_vote list \<Rightarrow> bool \<Rightarrow> bool \<Rightarrow> consensus_outcome \<times> string" where
  "decide_outcome c p auditors votes exhausted unreviewed =
     (let accepts = of_kind Accept votes; rejects = of_kind Reject votes; verification = of_kind NeedsVerification votes;
          accepted = backed accepts; rejected = backed rejects in
      if length auditors = 1 then (OutSingleSource, ''One auditor: consensus stage is skipped.'')
      else if cc_unresolved c \<noteq> [] then (OutVerify, ''Conflicting peer operations require targeted verification; original claims remain active.'')
      else if length auditors = 2 \<and> (verification \<noteq> [] \<or> length accepts \<noteq> 2 \<and> length rejects \<noteq> 2)
      then (OutVerify, ''Two-auditor material disagreement has no majority semantics.'')
      else if blocking_objection c then (OutVerify, ''An unresolved high-risk evidence-backed objection requires targeted verification.'')
      else if verification \<noteq> [] \<or> cc_counter c \<noteq> [] \<and> accepts \<noteq> [] then (OutVerify, ''Evidence is incomplete or conflicting.'')
      else if num_le (po_quorum p) (num (int (length accepted)))
        \<and> (\<not> is_high_risk c \<or> num_le (po_groups p) (num (int (length (groups_of auditors accepted)))))
      then (OutAccepted, ''Evidence-backed acceptance met quorum and independence policy with no blocking objection.'')
      else if num_le (po_quorum p) (num (int (length rejected))) \<and> accepted = []
      then (OutRejected, ''Evidence-backed rejection met quorum with no significant supported dissent.'')
      else if exhausted \<and> unreviewed then (OutNoConsensus, ''No peer-review round was run; only verification checks this issue.'')
      else if exhausted then (OutNoConsensus, ''Review rounds exhausted without policy convergence.'')
      else (OutVerify, ''Consensus requirements are not yet satisfied.''))"

definition dissents :: "consensus_outcome \<Rightarrow> consensus_vote list \<Rightarrow> consensus_vote list" where
  "dissents out votes =
     filter (\<lambda>v. if out = OutAccepted then cv_disposition v \<noteq> Accept
                 else if out = OutRejected then cv_disposition v \<noteq> Reject else True) votes"

definition decide ::
  "consensus_candidate \<Rightarrow> consensus_policy \<Rightarrow> auditor list \<Rightarrow> bool \<Rightarrow> bool \<Rightarrow> candidate_consensus" where
  "decide c p auditors exhausted unreviewed =
     (let latest = latest_votes (cc_votes c) (map au_id auditors); votes = map snd latest;
          (out, reason) = decide_outcome c p auditors votes exhausted unreviewed in
      \<lparr>cn_id = cc_id c, cn_outcome = out, cn_support = length (backed (of_kind Accept votes)), cn_denominator = length auditors,
       cn_groups = length (groups_of auditors (backed (of_kind Accept votes))), cn_dissent = dissents out votes,
       cn_counter = cc_counter c, cn_reviewed_by = sort_strings (map fst latest),
       cn_missing = missing_reviewers c auditors latest unreviewed, cn_escalate = (out = OutVerify), cn_reason = reason\<rparr>)"

section \<open>Consensus of a board\<close>

definition compute_consensus ::
  "(string \<Rightarrow> string \<Rightarrow> bool) \<Rightarrow> (string \<times> consensus_candidate) list \<Rightarrow> consensus_policy \<Rightarrow> auditor list \<Rightarrow> number \<Rightarrow>
     number option \<Rightarrow> consensus_error + consensus_state" where
  "compute_consensus le board p auditors n given =
     (let maximum = (case given of None \<Rightarrow> num 3 | Some x \<Rightarrow> x) in
      if \<not> safe_integer maximum \<or> int_of_number maximum < 0 \<or> 3 < int_of_number maximum then Inl InvalidMaximumRounds
      else if \<not> safe_integer n \<or> int_of_number n < 0 \<or> int_of_number maximum < int_of_number n then Inl InvalidRound
      else if length (uniq (map au_id auditors)) \<noteq> length auditors \<or> auditors = [] then Inl InvalidAuditors
      else (let exhausted = int_of_number maximum \<le> int_of_number n in
        Inr \<lparr>co_policy = po_name p, co_auditors = length auditors, co_round = n, co_exhausted = exhausted,
          co_candidates = map (\<lambda>c. decide c p auditors exhausted (int_of_number maximum = 0))
            (sort_by (on_key le cc_id) (map snd board))\<rparr>))"

section \<open>Latest votes\<close>

text \<open>The last vote of an author, which is all that a decision reads.\<close>

definition last_vote :: "consensus_candidate \<Rightarrow> string \<Rightarrow> consensus_vote option" where
  "last_vote c a = find (\<lambda>v. cv_author v = a) (rev (cc_votes c))"

lemma latest_votes_snoc:
  "latest_votes (vs @ [v]) ids =
     (if cv_author v \<in> set ids then AList.update (cv_author v) v (latest_votes vs ids) else latest_votes vs ids)"
  by (simp add: latest_votes_def)

lemma map_of_latest: "map_of (latest_votes vs ids) a = (if a \<in> set ids then find (\<lambda>v. cv_author v = a) (rev vs) else None)"
proof (induction vs rule: rev_induct)
  case Nil
  then show ?case by (simp add: latest_votes_def)
next
  case (snoc v vs)
  then show ?case by (auto simp: latest_votes_snoc)
qed

lemma distinct_latest: "distinct (map fst (latest_votes vs ids))"
proof (induction vs rule: rev_induct)
  case Nil
  then show ?case by (simp add: latest_votes_def)
next
  case (snoc v vs)
  then show ?case by (simp add: latest_votes_snoc)
qed

lemma latest_in:
  "v \<in> set (map snd (latest_votes (cc_votes c) ids)) \<longleftrightarrow> cv_author v \<in> set ids \<and> last_vote c (cv_author v) = Some v"
proof
  assume "v \<in> set (map snd (latest_votes (cc_votes c) ids))"
  then obtain a where a: "(a, v) \<in> set (latest_votes (cc_votes c) ids)" by auto
  then have m: "map_of (latest_votes (cc_votes c) ids) a = Some v" by (simp add: distinct_latest map_of_eq_Some_iff)
  then have "a \<in> set ids" "find (\<lambda>v. cv_author v = a) (rev (cc_votes c)) = Some v"
    by (auto simp: map_of_latest split: if_splits)
  moreover from this(2) have "cv_author v = a" by (auto simp: find_Some_iff)
  ultimately show "cv_author v \<in> set ids \<and> last_vote c (cv_author v) = Some v" by (simp add: last_vote_def)
next
  assume "cv_author v \<in> set ids \<and> last_vote c (cv_author v) = Some v"
  then have "map_of (latest_votes (cc_votes c) ids) (cv_author v) = Some v" by (simp add: map_of_latest last_vote_def)
  then show "v \<in> set (map snd (latest_votes (cc_votes c) ids))" by (force dest: map_of_SomeD)
qed

lemma authors_distinct: "distinct (map cv_author (map snd (latest_votes (cc_votes c) ids)))"
proof -
  have "fst x = cv_author (snd x)" if "x \<in> set (latest_votes (cc_votes c) ids)" for x
  proof -
    have "map_of (latest_votes (cc_votes c) ids) (fst x) = Some (snd x)"
      using that by (simp add: distinct_latest map_of_eq_Some_iff)
    then show ?thesis by (auto simp: map_of_latest find_Some_iff split: if_splits)
  qed
  then have "map cv_author (map snd (latest_votes (cc_votes c) ids)) = map fst (latest_votes (cc_votes c) ids)" by simp
  then show ?thesis by (simp only: distinct_latest)
qed

section \<open>What a decision rests on\<close>

text \<open>The auditors whose last vote is \<open>d\<close> and cites evidence.\<close>

definition backers :: "disposition \<Rightarrow> consensus_candidate \<Rightarrow> auditor list \<Rightarrow> string set" where
  "backers d c auditors = {a \<in> set (map au_id auditors). \<exists>v. last_vote c a = Some v \<and> cv_disposition v = d \<and> cv_cited v \<noteq> []}"

definition group_of :: "auditor list \<Rightarrow> string \<Rightarrow> string" where
  "group_of auditors i = the (map_of (map (\<lambda>a. (au_id a, au_group a)) auditors) i)"

lemma last_vote_author: "last_vote c a = Some v \<Longrightarrow> cv_author v = a"
  by (auto simp: last_vote_def find_Some_iff)

lemma backers_eq:
  "backers d c auditors = cv_author ` set (backed (of_kind d (map snd (latest_votes (cc_votes c) (map au_id auditors)))))"
  (is "?l = ?r")
proof
  show "?l \<subseteq> ?r"
  proof
    fix a assume "a \<in> ?l"
    then obtain v where v: "a \<in> set (map au_id auditors)" "last_vote c a = Some v" "cv_disposition v = d" "cv_cited v \<noteq> []"
      by (auto simp: backers_def)
    with latest_in [of v c "map au_id auditors"] last_vote_author [OF v(2)]
    have "v \<in> set (backed (of_kind d (map snd (latest_votes (cc_votes c) (map au_id auditors)))))"
      by (simp add: backed_def of_kind_def)
    with last_vote_author [OF v(2)] show "a \<in> ?r" by blast
  qed
  show "?r \<subseteq> ?l"
    using latest_in [of _ c "map au_id auditors"] by (auto simp: backers_def backed_def of_kind_def)
qed

lemma card_backers:
  "card (backers d c auditors) = length (backed (of_kind d (map snd (latest_votes (cc_votes c) (map au_id auditors)))))"
proof -
  let ?v = "backed (of_kind d (map snd (latest_votes (cc_votes c) (map au_id auditors))))"
  have "distinct (map cv_author ?v)"
    unfolding backed_def of_kind_def by (intro distinct_map_filter authors_distinct)
  then have "card (set (map cv_author ?v)) = length (map cv_author ?v)" by (rule distinct_card)
  then show ?thesis by (simp add: backers_eq)
qed

lemma groups_card:
  assumes "distinct (map au_id auditors)"
    and known: "\<And>v. v \<in> set votes \<Longrightarrow> cv_author v \<in> set (map au_id auditors)"
  shows "length (groups_of auditors votes) = card (group_of auditors ` cv_author ` set votes)"
proof -
  let ?m = "map (\<lambda>a. (au_id a, au_group a)) auditors"
  have rev: "map_of (rev ?m) = map_of ?m"
    using assms(1) by (subst map_of_inject_set) (simp_all add: comp_def rev_map [symmetric])
  have "map_of ?m (cv_author v) = Some (group_of auditors (cv_author v))" if "v \<in> set votes" for v
  proof -
    have "map_of ?m (cv_author v) \<noteq> None"
      using known [OF that] by (simp add: map_of_eq_None_iff comp_def image_comp)
    then show ?thesis by (simp add: group_of_def)
  qed
  then have "set (List.map_filter (\<lambda>v. map_of (rev ?m) (cv_author v)) votes) = group_of auditors ` cv_author ` set votes"
    unfolding rev by (force simp: List.map_filter_def)
  then show ?thesis by (simp add: groups_of_def length_uniq_card)
qed

lemma decide_outcomeD:
  assumes "decide_outcome c p auditors votes ex un = (out, r)" "auditors \<noteq> []"
  shows "out = OutAccepted \<Longrightarrow> num_le (po_quorum p) (num (int (length (backed (of_kind Accept votes)))))
      \<and> (is_high_risk c \<longrightarrow> num_le (po_groups p) (num (int (length (groups_of auditors (backed (of_kind Accept votes)))))))
      \<and> of_kind NeedsVerification votes = []"
    and "out = OutRejected \<Longrightarrow> num_le (po_quorum p) (num (int (length (backed (of_kind Reject votes)))))
      \<and> backed (of_kind Accept votes) = []"
    and "out \<in> {OutAccepted, OutRejected} \<Longrightarrow> 2 \<le> length auditors \<and> cc_unresolved c = [] \<and> \<not> blocking_objection c"
proof -
  have "2 \<le> length auditors" if "length auditors \<noteq> 1"
    using that assms(2) by (cases auditors) (auto simp: Suc_le_eq)
  with assms(1) show "out = OutAccepted \<Longrightarrow> num_le (po_quorum p) (num (int (length (backed (of_kind Accept votes)))))
      \<and> (is_high_risk c \<longrightarrow> num_le (po_groups p) (num (int (length (groups_of auditors (backed (of_kind Accept votes)))))))
      \<and> of_kind NeedsVerification votes = []"
    "out = OutRejected \<Longrightarrow> num_le (po_quorum p) (num (int (length (backed (of_kind Reject votes)))))
      \<and> backed (of_kind Accept votes) = []"
    "out \<in> {OutAccepted, OutRejected} \<Longrightarrow> 2 \<le> length auditors \<and> cc_unresolved c = [] \<and> \<not> blocking_objection c"
    by (simp_all add: decide_outcome_def Let_def split: if_splits)
qed

lemma decide_rests_on:
  assumes "distinct (map au_id auditors)" "auditors \<noteq> []"
  shows "cn_id (decide c p auditors ex un) = cc_id c
    \<and> (cn_outcome (decide c p auditors ex un) = OutAccepted \<longrightarrow>
         num_le (po_quorum p) (num (int (card (backers Accept c auditors))))
         \<and> (is_high_risk c \<longrightarrow> num_le (po_groups p) (num (int (card (group_of auditors ` backers Accept c auditors)))))
         \<and> (\<forall>a v. a \<in> set (map au_id auditors) \<and> last_vote c a = Some v \<longrightarrow> cv_disposition v \<noteq> NeedsVerification))
    \<and> (cn_outcome (decide c p auditors ex un) = OutRejected \<longrightarrow>
         num_le (po_quorum p) (num (int (card (backers Reject c auditors)))) \<and> backers Accept c auditors = {})
    \<and> (cn_outcome (decide c p auditors ex un) \<in> {OutAccepted, OutRejected} \<longrightarrow>
         2 \<le> length auditors \<and> cc_unresolved c = [] \<and> \<not> blocking_objection c)"
proof -
  let ?votes = "map snd (latest_votes (cc_votes c) (map au_id auditors))"
  obtain out r where out: "decide_outcome c p auditors ?votes ex un = (out, r)" by (metis surj_pair)
  have eq: "cn_outcome (decide c p auditors ex un) = out" "cn_id (decide c p auditors ex un) = cc_id c"
    by (simp_all add: decide_def Let_def out)
  have groups: "length (groups_of auditors (backed (of_kind Accept ?votes))) = card (group_of auditors ` backers Accept c auditors)"
    unfolding backers_eq
    by (rule groups_card [OF assms(1)]) (use latest_in [of _ c "map au_id auditors"] in \<open>auto simp: backed_def of_kind_def\<close>)
  have needs: "cv_disposition v \<noteq> NeedsVerification"
    if "of_kind NeedsVerification ?votes = []" "a \<in> set (map au_id auditors)" "last_vote c a = Some v" for a v
    using that latest_in [of v c "map au_id auditors"] last_vote_author [OF that(3)]
    by (auto simp: of_kind_def filter_empty_conv)
  have none: "backers Accept c auditors = {}" if "backed (of_kind Accept ?votes) = []"
    using that by (simp add: backers_eq)
  show ?thesis unfolding eq
    using decide_outcomeD [OF out assms(2)] groups needs none by (auto simp: card_backers)
qed

lemma compute_consensusD:
  assumes "compute_consensus le board p auditors n given = Inr st"
  shows "distinct (map au_id auditors) \<and> auditors \<noteq> [] \<and> co_auditors st = length auditors
    \<and> (\<exists>ex un. co_candidates st = map (\<lambda>c. decide c p auditors ex un) (sort_by (on_key le cc_id) (map snd board)))"
proof -
  let ?max = "case given of None \<Rightarrow> num 3 | Some x \<Rightarrow> x"
  from assms have "distinct (map au_id auditors)" "auditors \<noteq> []" "co_auditors st = length auditors"
    "co_candidates st = map (\<lambda>c. decide c p auditors (int_of_number ?max \<le> int_of_number n) (int_of_number ?max = 0))
       (sort_by (on_key le cc_id) (map snd board))"
    using length_uniq_eq_iff [of "map au_id auditors"] by (auto simp: compute_consensus_def Let_def split: if_splits)
  then show ?thesis by blast
qed

text \<open>
  C16. What a decision rests on. There is one decision per candidate, in the order of the ids. An accepted
  candidate has a quorum of different auditors whose last vote is an acceptance that cites evidence; nobody's
  last vote asks for verification, no operation on it is unresolved and no objection blocks it; a high-risk one
  has acceptances from enough independence groups. A rejected candidate has a quorum of rejections that cite
  evidence and not one acceptance that does. With a single auditor nothing is decided. A vote that its author
  replaced, or one of somebody who is no auditor, plays no part.
\<close>

theorem decisions_rest_on_quorum:
  assumes "compute_consensus le board p auditors n given = Inr st"
  shows "list_all2 (\<lambda>c x. cn_id x = cc_id c
    \<and> (cn_outcome x = OutAccepted \<longrightarrow>
         num_le (po_quorum p) (num (int (card (backers Accept c auditors))))
         \<and> (is_high_risk c \<longrightarrow> num_le (po_groups p) (num (int (card (group_of auditors ` backers Accept c auditors)))))
         \<and> (\<forall>a v. a \<in> set (map au_id auditors) \<and> last_vote c a = Some v \<longrightarrow> cv_disposition v \<noteq> NeedsVerification))
    \<and> (cn_outcome x = OutRejected \<longrightarrow>
         num_le (po_quorum p) (num (int (card (backers Reject c auditors)))) \<and> backers Accept c auditors = {})
    \<and> (cn_outcome x \<in> {OutAccepted, OutRejected} \<longrightarrow>
         2 \<le> length auditors \<and> cc_unresolved c = [] \<and> \<not> blocking_objection c))
    (sort_by (on_key le cc_id) (map snd board)) (co_candidates st)"
proof -
  from compute_consensusD [OF assms] obtain ex un where d: "distinct (map au_id auditors)" "auditors \<noteq> []"
    "co_candidates st = map (\<lambda>c. decide c p auditors ex un) (sort_by (on_key le cc_id) (map snd board))" by blast
  show ?thesis unfolding d(3) list_all2_map2
    by (rule list_all2_refl) (rule decide_rests_on [OF d(1,2)])
qed

definition vote_example :: "string \<Rightarrow> disposition \<Rightarrow> consensus_vote" where
  "vote_example a d = \<lparr>cv_author = a, cv_disposition = d, cv_cited = [''e''], cv_reason = ''r''\<rparr>"

definition candidate_example :: "consensus_vote list \<Rightarrow> consensus_candidate" where
  "candidate_example votes = \<lparr>cc_id = ''c'', cc_findings = [''a/1'', ''b/1''], cc_severity = High, cc_blocker = False,
     cc_status = ''open'', cc_votes = votes, cc_objections = [], cc_counter = [], cc_last_changed = 0, cc_category = None,
     cc_blast_radius = False, cc_low_confidence = False, cc_unresolved = []\<rparr>"

definition auditors_example :: "auditor list" where
  "auditors_example = [\<lparr>au_id = ''a'', au_group = ''g''\<rparr>, \<lparr>au_id = ''b'', au_group = ''h''\<rparr>]"

theorem decisions_rest_on_quorum_witness:
  "\<exists>st x. compute_consensus (\<le>) [(''c'', candidate_example [vote_example ''a'' Reject, vote_example ''b'' Accept, vote_example ''a'' Accept])]
      default_policy auditors_example (num 1) None = Inr st
    \<and> co_candidates st = [x] \<and> cn_outcome x = OutAccepted
    \<and> num_le (num 2) (num (int (card (backers Accept
        (candidate_example [vote_example ''a'' Reject, vote_example ''b'' Accept, vote_example ''a'' Accept]) auditors_example))))"
proof -
  let ?c = "candidate_example [vote_example ''a'' Reject, vote_example ''b'' Accept, vote_example ''a'' Accept]"
  have "case compute_consensus (\<le>) [(''c'', ?c)] default_policy auditors_example (num 1) None of Inl e \<Rightarrow> False
    | Inr st \<Rightarrow> map cn_outcome (co_candidates st) = [OutAccepted]" by code_simp
  then obtain st x where st: "compute_consensus (\<le>) [(''c'', ?c)] default_policy auditors_example (num 1) None = Inr st"
    "co_candidates st = [x]" "cn_outcome x = OutAccepted" by (auto split: sum.splits)
  from decisions_rest_on_quorum [OF st(1)] st(2,3) have
    "num_le (po_quorum default_policy) (num (int (card (backers Accept ?c auditors_example))))" by simp
  then show ?thesis using st by (auto simp: default_policy_def)
qed

end
