(* ===== verification/Canonical_Issues.thy ===== *)
theory Canonical_Issues
  imports Consensus Json
begin

text \<open>
  The canonical issues of an audit: \<open>packages/workflow/src/nodes/canonical-issues.ts\<close>. A board with its
  consensus and the results of targeted verification become one issue per candidate, with the disposition
  that decides whether the issue is planned. The board's candidates are an association list in the order of
  \<open>Object.entries\<close>; \<open>le\<close> is the order of \<open>localeCompare\<close>.
\<close>

section \<open>Data\<close>

datatype canonical_disposition = Reached consensus_outcome | VerifiedSingleSource

definition plannable_dispositions :: "canonical_disposition list" where
  "plannable_dispositions = [Reached OutAccepted, VerifiedSingleSource]"

definition is_plannable :: "canonical_disposition \<Rightarrow> bool" where
  "is_plannable d \<longleftrightarrow> d \<in> set plannable_dispositions"

datatype verification_outcome = Confirmed | Refuted | StillNeedsVerification

record issue_claim =
  cl_title :: string
  cl_description :: string

record board_candidate =
  bc_id :: string
  bc_claim :: issue_claim
  bc_findings :: "string list"
  bc_severity :: severity
  bc_blocker :: bool
  bc_counter :: "evidence list"
  bc_remediation :: "string list option"
  bc_verification :: "string list option"
  bc_variant_of :: "string option"

record consensus_view =
  vw_id :: string
  vw_outcome :: consensus_outcome
  vw_support :: number
  vw_denominator :: number
  vw_dissent :: "consensus_vote list"
  vw_reviewed_by :: "string list"
  vw_missing :: "string list"
  vw_reason :: string

record canonical_board =
  kb_candidates :: "(string \<times> board_candidate) list"
  kb_auditors :: number
  kb_consensus :: "consensus_view list"

record canonical_verification =
  cw_candidate :: string
  cw_outcome :: verification_outcome
  cw_reason :: "string option"
  cw_claim :: "issue_claim option"
  cw_findings :: "string list option"

record security_coverage =
  sy_degraded :: bool
  sy_reason :: "string option"
  sy_action :: "string option"

record canonical_coverage =
  kc_security :: security_coverage
  kc_suppressions :: "json list"
  kc_unexamined :: "json list"
  kc_limitations :: "string list"

record canonical_issue =
  ci_candidate :: string
  ci_claim :: issue_claim
  ci_severity :: severity
  ci_blocker :: bool
  ci_disposition :: canonical_disposition
  ci_consensus_claim :: "string option"
  ci_support :: number
  ci_denominator :: number
  ci_dissent :: "consensus_vote list"
  ci_counter :: "evidence list"
  ci_remediation :: "string list option"
  ci_verification :: "string list option"
  ci_findings :: "string list"
  ci_outcome :: "verification_outcome option"
  ci_reason :: "string option"
  ci_reviewed_by :: "string list"
  ci_missing :: "string list"
  ci_single_source :: bool
  ci_variant_of :: "string option"

record issue_summary =
  iy_auditors :: number
  iy_findings :: nat
  iy_accepted :: nat
  iy_rejected :: nat
  iy_unresolved :: nat
  iy_single_source :: nat

record issue_set =
  is_issues :: "canonical_issue list"
  is_minority :: "string list"
  is_complete :: bool
  is_security :: security_coverage
  is_suppressions :: "json list"
  is_unexamined :: "json list"
  is_limitations :: "string list"
  is_summary :: issue_summary

datatype canonical_error =
    InvalidAuditorCount | DuplicateConsensus string | DuplicateVerification string | CandidateIdMismatch string
  | OrphanConsensus string | RequiresSourceFinding string | MissingConsensus string | DenominatorMismatch string
  | FindingsOutsideCandidate string | OrphanVerification string | DuplicateIssue string

section \<open>Operations\<close>

definition unique_by_id :: "('a \<Rightarrow> string) \<Rightarrow> (string \<Rightarrow> canonical_error) \<Rightarrow> 'a list \<Rightarrow> canonical_error + (string \<times> 'a) list" where
  "unique_by_id key err values =
     result_fold (\<lambda>v m. if map_of m (key v) \<noteq> None then Inl (err (key v)) else Inr (AList.update (key v) v m)) values []"

definition single_source_planned :: "canonical_issue list \<Rightarrow> string list" where
  "single_source_planned issues =
     (let count = length (filter (\<lambda>i. ci_disposition i = VerifiedSingleSource) issues) in
      if count = 0 then [] else [''single_source_issues_planned_without_second_auditor:'' @ nat_string count])"

definition minority_of :: "canonical_issue list \<Rightarrow> string list" where
  "minority_of issues = map ci_candidate
     (filter (\<lambda>i. (ci_severity i = Critical \<or> ci_severity i = High) \<and> \<not> is_plannable (ci_disposition i)
        \<and> num_less (num 0) (ci_support i)) issues)"

definition summary_of :: "canonical_issue list \<Rightarrow> number \<Rightarrow> issue_summary" where
  "summary_of issues n = \<lparr>iy_auditors = n, iy_findings = length (uniq (concat (map ci_findings issues))),
     iy_accepted = length (filter (\<lambda>i. ci_disposition i = Reached OutAccepted) issues),
     iy_rejected = length (filter (\<lambda>i. ci_disposition i = Reached OutRejected) issues),
     iy_unresolved = length (filter (\<lambda>i. ci_disposition i = Reached OutVerify \<or> ci_disposition i = Reached OutNoConsensus) issues),
     iy_single_source = length (filter ci_single_source issues)\<rparr>"

definition disposition_of :: "bool \<Rightarrow> verification_outcome option \<Rightarrow> consensus_outcome \<Rightarrow> canonical_disposition" where
  "disposition_of single verified out =
     (if single then (if verified = Some Confirmed then VerifiedSingleSource else Reached OutSingleSource)
      else if verified = Some Confirmed then Reached OutAccepted
      else if verified = Some Refuted then Reached OutRejected
      else if verified = Some StillNeedsVerification then Reached OutVerify
      else Reached out)"

definition canonical_issue_of ::
  "canonical_board \<Rightarrow> (string \<times> consensus_view) list \<Rightarrow> (string \<times> canonical_verification) list \<Rightarrow> board_candidate \<Rightarrow>
     canonical_error + canonical_issue" where
  "canonical_issue_of board consensuses verifications c =
     (let i = bc_id c; single = (kb_auditors board = num 1) in
      if bc_findings c = [] then Inl (RequiresSourceFinding i)
      else case map_of consensuses i of
        None \<Rightarrow> Inl (MissingConsensus i)
      | Some n \<Rightarrow>
          if vw_denominator n \<noteq> kb_auditors board then Inl (DenominatorMismatch i)
          else let v = map_of verifications i;
              verified = map_option cw_outcome v;
              claim = (case Option.bind v cw_claim of Some x \<Rightarrow> x | None \<Rightarrow> bc_claim c) in
            if (case Option.bind v cw_findings of None \<Rightarrow> False
                | Some ids \<Rightarrow> ids = [] \<or> list_ex (\<lambda>x. x \<notin> set (bc_findings c)) ids)
            then Inl (FindingsOutsideCandidate i)
            else Inr \<lparr>ci_candidate = i, ci_claim = claim, ci_severity = bc_severity c, ci_blocker = bc_blocker c,
              ci_disposition = disposition_of single verified (vw_outcome n),
              ci_consensus_claim = (if single then None else Some (vw_reason n)),
              ci_support = vw_support n, ci_denominator = vw_denominator n, ci_dissent = vw_dissent n, ci_counter = bc_counter c,
              ci_remediation = bc_remediation c, ci_verification = bc_verification c,
              ci_findings = sort_strings (uniq (case Option.bind v cw_findings of Some ids \<Rightarrow> ids | None \<Rightarrow> bc_findings c)),
              ci_outcome = verified, ci_reason = Option.bind v cw_reason,
              ci_reviewed_by = sort_strings (vw_reviewed_by n), ci_missing = sort_strings (vw_missing n),
              ci_single_source = single, ci_variant_of = bc_variant_of c\<rparr>)"

definition canonical_limitations :: "canonical_coverage \<Rightarrow> bool \<Rightarrow> canonical_issue list \<Rightarrow> string list" where
  "canonical_limitations cov incomplete issues = sort_strings (uniq (
     kc_limitations cov
     @ (if sy_degraded (kc_security cov)
        then [''security_coverage_degraded:'' @ (case sy_reason (kc_security cov) of None \<Rightarrow> ''unspecified'' | Some r \<Rightarrow> r)] else [])
     @ (if kc_suppressions cov \<noteq> [] then [''suppression_candidates:'' @ nat_string (length (kc_suppressions cov))] else [])
     @ (if kc_unexamined cov \<noteq> [] then [''unexamined_surfaces:'' @ nat_string (length (kc_unexamined cov))] else [])
     @ (if incomplete then [''incomplete_peer_review_coverage''] else [])
     @ single_source_planned issues))"

definition canonicalise_issues ::
  "(string \<Rightarrow> string \<Rightarrow> bool) \<Rightarrow> canonical_board \<Rightarrow> canonical_verification list \<Rightarrow> canonical_coverage \<Rightarrow>
     canonical_error + issue_set" where
  "canonicalise_issues le board verification cov =
     (if \<not> safe_integer (kb_auditors board) \<or> int_of_number (kb_auditors board) < 1 then Inl InvalidAuditorCount
      else
       result_bind (unique_by_id vw_id DuplicateConsensus (kb_consensus board)) (\<lambda>consensuses.
       result_bind (unique_by_id cw_candidate DuplicateVerification verification) (\<lambda>verifications.
       result_bind (result_map (\<lambda>(i, c). require (i = bc_id c) (CandidateIdMismatch i)) (kb_candidates board)) (\<lambda>_.
       result_bind (result_map (\<lambda>(i, _). require (map_of (kb_candidates board) i \<noteq> None) (OrphanConsensus i)) consensuses) (\<lambda>_.
       result_bind (result_map (canonical_issue_of board consensuses verifications)
           (sort_by (on_key le bc_id) (map snd (kb_candidates board)))) (\<lambda>issues.
       result_bind (result_map (\<lambda>(i, _). require (map_of (kb_candidates board) i \<noteq> None) (OrphanVerification i)) verifications) (\<lambda>_.
         let incomplete = list_ex (\<lambda>i. ci_missing i \<noteq> []) issues in
         Inr \<lparr>is_issues = issues, is_minority = minority_of issues,
           is_complete = (\<not> sy_degraded (kc_security cov) \<and> kc_suppressions cov = [] \<and> kc_unexamined cov = [] \<and> \<not> incomplete),
           is_security = kc_security cov, is_suppressions = kc_suppressions cov, is_unexamined = kc_unexamined cov,
           is_limitations = canonical_limitations cov incomplete issues,
           is_summary = summary_of issues (kb_auditors board)\<rparr>)))))))"

definition with_added_issues :: "issue_set \<Rightarrow> canonical_issue list \<Rightarrow> string list \<Rightarrow> canonical_error + issue_set" where
  "with_added_issues st added limitations =
     result_bind (result_fold (\<lambda>i known. if i \<in> set known then Inl (DuplicateIssue i) else Inr (set_add i known))
         (map ci_candidate added) (uniq (map ci_candidate (is_issues st)))) (\<lambda>_.
       let issues = is_issues st @ added in
       Inr (st\<lparr>is_issues := issues, is_minority := minority_of issues,
         is_limitations := sort_strings (uniq (
           filter (\<lambda>l. \<not> starts_with ''single_source_issues_planned_without_second_auditor:'' l) (is_limitations st)
           @ limitations @ single_source_planned issues)),
         is_summary := summary_of issues (iy_auditors (is_summary st))\<rparr>))"

text \<open>The consensus of a board as its consumer reads it (\<open>consensus: convergence.consensus\<close>).\<close>

definition view_of :: "candidate_consensus \<Rightarrow> consensus_view" where
  "view_of x = \<lparr>vw_id = cn_id x, vw_outcome = cn_outcome x, vw_support = num (int (cn_support x)),
     vw_denominator = num (int (cn_denominator x)), vw_dissent = cn_dissent x, vw_reviewed_by = cn_reviewed_by x,
     vw_missing = cn_missing x, vw_reason = cn_reason x\<rparr>"

section \<open>Lemmas\<close>

lemma unique_by_id_acc:
  "result_fold (\<lambda>v m. if map_of m (key v) \<noteq> None then Inl (err (key v)) else Inr (AList.update (key v) v m)) values acc = Inr m \<Longrightarrow>
     distinct (map fst acc) \<Longrightarrow>
     m = acc @ map (\<lambda>v. (key v, v)) values \<and> distinct (map fst acc @ map key values)"
proof (induction "values" arbitrary: acc)
  case Nil
  then show ?case by simp
next
  case (Cons v vs)
  from Cons.prems(1) have new: "map_of acc (key v) = None" by (auto split: if_splits)
  then have out: "key v \<notin> fst ` set acc" by (simp add: map_of_eq_None_iff)
  then have upd: "AList.update (key v) v acc = acc @ [(key v, v)]" by (rule map_fst_update_notin)
  have "result_fold (\<lambda>v m. if map_of m (key v) \<noteq> None then Inl (err (key v)) else Inr (AList.update (key v) v m)) vs (acc @ [(key v, v)]) = Inr m"
    using Cons.prems(1) new by (simp add: upd)
  from Cons.IH [OF this] Cons.prems(2) out
  have "m = (acc @ [(key v, v)]) @ map (\<lambda>v. (key v, v)) vs" "distinct (map fst (acc @ [(key v, v)]) @ map key vs)"
    by simp_all
  then show ?case by simp
qed

lemma unique_by_id_eq:
  assumes "unique_by_id key err values = Inr m"
  shows "m = map (\<lambda>v. (key v, v)) values" "distinct (map key values)"
  using unique_by_id_acc [OF assms [unfolded unique_by_id_def]] by simp_all

lemma unique_by_id_lookup:
  assumes "unique_by_id key err values = Inr m"
  shows "map_of m i = Some v \<longleftrightarrow> v \<in> set values \<and> key v = i"
proof -
  have "distinct (map fst m)" using unique_by_id_eq [OF assms] by (simp add: comp_def)
  then show ?thesis by (auto simp: unique_by_id_eq(1) [OF assms] map_of_eq_Some_iff)
qed

lemma is_plannable_iff [simp]: "is_plannable d \<longleftrightarrow> d = Reached OutAccepted \<or> d = VerifiedSingleSource"
  by (simp add: is_plannable_def plannable_dispositions_def)

lemma plannable_disposition:
  "is_plannable (disposition_of single verified out) \<longleftrightarrow>
     verified = Some Confirmed \<or> \<not> single \<and> verified = None \<and> out = OutAccepted"
  by (cases verified; cases "the verified") (auto simp: disposition_of_def)

lemma canonicalise_parts:
  assumes "canonicalise_issues le board ver cov = Inr s"
  obtains cs vs where "unique_by_id vw_id DuplicateConsensus (kb_consensus board) = Inr cs"
    "unique_by_id cw_candidate DuplicateVerification ver = Inr vs"
    "list_all2 (\<lambda>c i. canonical_issue_of board cs vs c = Inr i)
       (sort_by (on_key le bc_id) (map snd (kb_candidates board))) (is_issues s)"
    "is_minority s = minority_of (is_issues s)"
    "1 \<le> int_of_number (kb_auditors board)"
  using assms by (auto simp: canonicalise_issues_def result_simps result_map_Inr_iff Let_def split: if_splits)

lemma canonical_issueD:
  assumes "canonical_issue_of board cs vs c = Inr i"
  shows "ci_candidate i = bc_id c" "ci_severity i = bc_severity c" "ci_blocker i = bc_blocker c"
    "ci_findings i \<noteq> []" "set (ci_findings i) \<subseteq> set (bc_findings c)" "distinct (ci_findings i)"
    "\<exists>n. map_of cs (bc_id c) = Some n \<and> ci_support i = vw_support n \<and> vw_denominator n = kb_auditors board
       \<and> ci_disposition i = disposition_of (kb_auditors board = num 1) (map_option cw_outcome (map_of vs (bc_id c))) (vw_outcome n)"
proof -
  from assms obtain n where n: "map_of cs (bc_id c) = Some n" "bc_findings c \<noteq> []" "vw_denominator n = kb_auditors board"
    by (auto simp: canonical_issue_of_def Let_def split: if_splits option.splits)
  let ?v = "map_of vs (bc_id c)"
  let ?ids = "case Option.bind ?v cw_findings of Some ids \<Rightarrow> ids | None \<Rightarrow> bc_findings c"
  have nonempty: "sort_strings (uniq xs) \<noteq> []" if "xs \<noteq> []" for xs :: "string list"
    using that set_sort_strings [of "uniq xs"] by (metis set_empty set_uniq)
  from assms n have i: "ci_candidate i = bc_id c" "ci_severity i = bc_severity c" "ci_blocker i = bc_blocker c"
    "ci_findings i = sort_strings (uniq ?ids)" "ci_support i = vw_support n"
    "ci_disposition i = disposition_of (kb_auditors board = num 1) (map_option cw_outcome ?v) (vw_outcome n)"
    and ids: "?ids \<noteq> [] \<and> set ?ids \<subseteq> set (bc_findings c)"
    by (auto simp: canonical_issue_of_def Let_def list_ex_iff split: if_splits option.splits)
  from i n show "ci_candidate i = bc_id c" "ci_severity i = bc_severity c" "ci_blocker i = bc_blocker c"
    "\<exists>n. map_of cs (bc_id c) = Some n \<and> ci_support i = vw_support n \<and> vw_denominator n = kb_auditors board
       \<and> ci_disposition i = disposition_of (kb_auditors board = num 1) (map_option cw_outcome (map_of vs (bc_id c))) (vw_outcome n)"
    by simp_all
  from i(4) ids nonempty show "ci_findings i \<noteq> []" "set (ci_findings i) \<subseteq> set (bc_findings c)" "distinct (ci_findings i)"
    by simp_all
qed

lemma issue_ids:
  assumes "canonicalise_issues le board ver cov = Inr s"
  shows "map ci_candidate (is_issues s) = map bc_id (sort_by (on_key le bc_id) (map snd (kb_candidates board)))"
  using assms
proof (rule canonicalise_parts)
  fix cs vs assume "list_all2 (\<lambda>c i. canonical_issue_of board cs vs c = Inr i)
       (sort_by (on_key le bc_id) (map snd (kb_candidates board))) (is_issues s)"
  then have "map bc_id (sort_by (on_key le bc_id) (map snd (kb_candidates board))) = map ci_candidate (is_issues s)"
    by (rule list_all2_map_eq) (simp add: canonical_issueD)
  then show ?thesis by simp
qed

lemma added_known:
  "result_fold (\<lambda>i known. if i \<in> set known then Inl (DuplicateIssue i) else Inr (set_add i known)) ids known = Inr k \<Longrightarrow>
     distinct known \<Longrightarrow> distinct ids \<and> set ids \<inter> set known = {}"
proof (induction ids arbitrary: known)
  case Nil
  then show ?case by simp
next
  case (Cons i ids)
  from Cons.prems(1) have "i \<notin> set known"
    "result_fold (\<lambda>i known. if i \<in> set known then Inl (DuplicateIssue i) else Inr (set_add i known)) ids (set_add i known) = Inr k"
    by (auto split: if_splits)
  with Cons.IH [of "set_add i known"] Cons.prems(2) show ?case by auto
qed

lemma with_addedD:
  assumes "with_added_issues s added limitations = Inr t" "distinct (map ci_candidate (is_issues s))"
  shows "is_issues t = is_issues s @ added" "is_minority t = minority_of (is_issues t)"
    "distinct (map ci_candidate (is_issues t))"
proof -
  from assms(1) obtain k where k: "result_fold (\<lambda>i known. if i \<in> set known then Inl (DuplicateIssue i) else Inr (set_add i known))
      (map ci_candidate added) (uniq (map ci_candidate (is_issues s))) = Inr k"
    by (auto simp: with_added_issues_def result_simps)
  from assms(1) show t: "is_issues t = is_issues s @ added" "is_minority t = minority_of (is_issues t)"
    by (auto simp: with_added_issues_def result_simps Let_def)
  from added_known [OF k] have new: "distinct (map ci_candidate added)"
    "set (map ci_candidate added) \<inter> set (map ci_candidate (is_issues s)) = {}" by simp_all
  then show "distinct (map ci_candidate (is_issues t))"
    using assms(2) unfolding t(1) map_append distinct_append by blast
qed

lemma filter_single: "distinct (map f xs) \<Longrightarrow> x \<in> set xs \<Longrightarrow> filter (\<lambda>y. f y = f x) xs = [x]"
proof (induction xs)
  case (Cons y ys)
  then have "f y \<notin> f ` set ys" by simp
  then have "filter (\<lambda>z. f z = f y) ys = []" unfolding filter_empty_conv by (metis imageI)
  with Cons show ?case by auto
qed simp

lemma issue_of_candidate:
  assumes "canonicalise_issues le board ver cov = Inr s" "(i, c) \<in> set (kb_candidates board)"
  shows "\<exists>x \<in> set (is_issues s). \<exists>cs vs. canonical_issue_of board cs vs c = Inr x"
  using assms(1)
proof (rule canonicalise_parts)
  fix cs vs assume all: "list_all2 (\<lambda>c i. canonical_issue_of board cs vs c = Inr i)
       (sort_by (on_key le bc_id) (map snd (kb_candidates board))) (is_issues s)"
  from assms(2) have "c \<in> set (sort_by (on_key le bc_id) (map snd (kb_candidates board)))" by force
  from list_all2_image [OF all this] show ?thesis by blast
qed

lemma canonical_ids:
  assumes "canonicalise_issues le board ver cov = Inr s" "(i, c) \<in> set (kb_candidates board)"
  shows "bc_id c = i"
  using assms by (auto simp: canonicalise_issues_def result_simps result_map_Inr_iff Let_def split: if_splits
    dest!: list_all2_image)

section \<open>Properties\<close>

lemma num_le_trans: "num_le a b \<Longrightarrow> num_le b c \<Longrightarrow> num_le a c"
  by (cases a; cases b; cases c) (auto simp: num_le_def)

text \<open>
  C28. What is planned under a policy whose quorum is at least two, as the default's is. When an issue of a board
  whose consensus the engine computed is plannable, a targeted verification confirmed exactly this candidate, or
  nobody verified the candidate and a quorum of different auditors, so at least two of them, stands behind it with
  acceptances that cite evidence, no auditor's last vote asking for verification. So under such a policy no single
  auditor's opinion, no refuted and no undecided issue is planned; a policy with a quorum of one does plan on one
  acceptance.
\<close>

theorem planned_issues_are_backed:
  assumes "compute_consensus le cands p auditors n given = Inr st"
    and "kb_consensus board = map view_of (co_candidates st)" "kb_auditors board = num (int (co_auditors st))"
    and "canonicalise_issues le board ver cov = Inr s"
    and "x \<in> set (is_issues s)" "is_plannable (ci_disposition x)" "num_le (num 2) (po_quorum p)"
  shows "(\<exists>v \<in> set ver. cw_candidate v = ci_candidate x \<and> cw_outcome v = Confirmed)
    \<or> 2 \<le> length auditors \<and> ci_candidate x \<notin> cw_candidate ` set ver
      \<and> (\<exists>c \<in> snd ` set cands. cc_id c = ci_candidate x
          \<and> num_le (po_quorum p) (num (int (card (backers Accept c auditors))))
          \<and> 2 \<le> card (backers Accept c auditors)
          \<and> cc_unresolved c = [] \<and> \<not> blocking_objection c
          \<and> (\<forall>a v. a \<in> set (map au_id auditors) \<and> last_vote c a = Some v \<longrightarrow> cv_disposition v \<noteq> NeedsVerification))"
  using assms(4)
proof (rule canonicalise_parts)
  fix cs vs
  assume cs: "unique_by_id vw_id DuplicateConsensus (kb_consensus board) = Inr cs"
    and vs: "unique_by_id cw_candidate DuplicateVerification ver = Inr vs"
    and all: "list_all2 (\<lambda>c i. canonical_issue_of board cs vs c = Inr i)
       (sort_by (on_key le bc_id) (map snd (kb_candidates board))) (is_issues s)"
  from list_all2_origin [OF all assms(5)] obtain b where b: "canonical_issue_of board cs vs b = Inr x" by blast
  obtain w where w: "map_of cs (bc_id b) = Some w"
    "ci_disposition x = disposition_of (kb_auditors board = num 1) (map_option cw_outcome (map_of vs (bc_id b))) (vw_outcome w)"
    using canonical_issueD(7) [OF b] by blast
  from assms(6) consider (verified) "map_option cw_outcome (map_of vs (bc_id b)) = Some Confirmed"
    | (agreed) "kb_auditors board \<noteq> num 1" "map_of vs (bc_id b) = None" "vw_outcome w = OutAccepted"
    unfolding w(2) plannable_disposition by auto
  then show ?thesis
  proof cases
    case verified
    then show ?thesis using unique_by_id_lookup [OF vs] canonical_issueD(1) [OF b] by auto
  next
    case agreed
    from compute_consensusD [OF assms(1)] obtain ex un where d: "distinct (map au_id auditors)" "auditors \<noteq> []"
      "co_candidates st = map (\<lambda>c. decide c p auditors ex un) (sort_by (on_key le cc_id) (map snd cands))" by blast
    from w(1) have "w \<in> set (kb_consensus board)" "vw_id w = bc_id b" using unique_by_id_lookup [OF cs] by auto
    then obtain c where c: "c \<in> snd ` set cands" "w = view_of (decide c p auditors ex un)"
      by (auto simp: assms(2) d(3))
    have "cc_id c = ci_candidate x"
      using decide_rests_on [OF d(1,2), of c p ex un] c(2) \<open>vw_id w = bc_id b\<close> canonical_issueD(1) [OF b] by (simp add: view_of_def)
    moreover have "ci_candidate x \<notin> cw_candidate ` set ver"
    proof
      assume "ci_candidate x \<in> cw_candidate ` set ver"
      then obtain v where "v \<in> set ver" "cw_candidate v = bc_id b" using canonical_issueD(1) [OF b] by auto
      then have "map_of vs (bc_id b) = Some v" using unique_by_id_lookup [OF vs] by blast
      with agreed(2) show False by simp
    qed
    moreover have "cn_outcome (decide c p auditors ex un) = OutAccepted" using agreed(3) c(2) by (simp add: view_of_def)
    moreover have "2 \<le> card (backers Accept c auditors)" if "num_le (po_quorum p) (num (int (card (backers Accept c auditors))))"
      using num_le_trans [OF assms(7) that] by simp
    ultimately show ?thesis using c(1) decide_rests_on [OF d(1,2), of c p ex un] by blast
  qed
qed

text \<open>
  C29. No serious candidate is lost. After canonicalisation and after the variants were added, a candidate of the
  board has exactly one issue, with the candidate's severity and blocker flag and only findings of the candidate;
  a critical or high one that somebody supports is planned or listed in the retained minority.
\<close>

theorem serious_candidates_survive:
  assumes "canonicalise_issues le board ver cov = Inr s" "with_added_issues s added limitations = Inr t"
    and "distinct (map fst (kb_candidates board))" "(i, c) \<in> set (kb_candidates board)"
  shows "\<exists>x. filter (\<lambda>y. ci_candidate y = i) (is_issues t) = [x]
    \<and> ci_severity x = bc_severity c \<and> ci_blocker x = bc_blocker c
    \<and> ci_findings x \<noteq> [] \<and> set (ci_findings x) \<subseteq> set (bc_findings c)
    \<and> (bc_severity c \<in> {Critical, High} \<and> num_less (num 0) (ci_support x) \<longrightarrow>
         is_plannable (ci_disposition x) \<or> i \<in> set (is_minority t))"
proof -
  obtain x cs vs where x: "x \<in> set (is_issues s)" "canonical_issue_of board cs vs c = Inr x"
    using issue_of_candidate [OF assms(1,4)] by blast
  have id: "ci_candidate x = i" using canonical_issueD(1) [OF x(2)] canonical_ids [OF assms(1,4)] by simp
  have "map bc_id (map snd (kb_candidates board)) = map fst (kb_candidates board)"
    using canonical_ids [OF assms(1)] by auto
  then have "distinct (map ci_candidate (is_issues s))"
    using assms(3) unfolding issue_ids [OF assms(1)] distinct_map_sort_by by (simp only:)
  from with_addedD [OF assms(2) this] x(1) have t: "x \<in> set (is_issues t)" "distinct (map ci_candidate (is_issues t))"
    "is_minority t = minority_of (is_issues t)" by auto
  have "i \<in> set (minority_of (is_issues t))"
    if "bc_severity c \<in> {Critical, High}" "num_less (num 0) (ci_support x)" "\<not> is_plannable (ci_disposition x)"
    using that t(1) id canonical_issueD(2) [OF x(2)] by (force simp: minority_of_def)
  then show ?thesis
    using filter_single [OF t(2,1)] canonical_issueD(2-5) [OF x(2)] unfolding id t(3) by blast
qed

section \<open>Examples\<close>

definition board_candidate_example :: board_candidate where
  "board_candidate_example = \<lparr>bc_id = ''c'', bc_claim = \<lparr>cl_title = ''t'', cl_description = ''d''\<rparr>, bc_findings = [''b/1'', ''a/1''],
     bc_severity = High, bc_blocker = False, bc_counter = [], bc_remediation = None, bc_verification = None, bc_variant_of = None\<rparr>"

definition board_example :: "consensus_view list \<Rightarrow> number \<Rightarrow> canonical_board" where
  "board_example views n = \<lparr>kb_candidates = [(''c'', board_candidate_example)], kb_auditors = n, kb_consensus = views\<rparr>"

definition coverage_example :: canonical_coverage where
  "coverage_example = \<lparr>kc_security = \<lparr>sy_degraded = False, sy_reason = None, sy_action = None\<rparr>, kc_suppressions = [],
     kc_unexamined = [], kc_limitations = []\<rparr>"

definition view_example :: "consensus_outcome \<Rightarrow> consensus_view" where
  "view_example out = \<lparr>vw_id = ''c'', vw_outcome = out, vw_support = num 1, vw_denominator = num 2, vw_dissent = [],
     vw_reviewed_by = [''b'', ''a''], vw_missing = [], vw_reason = ''r''\<rparr>"

theorem planned_issues_are_backed_witness:
  "\<exists>st s x. compute_consensus (\<le>) [(''c'', candidate_example [vote_example ''a'' Accept, vote_example ''b'' Accept])]
      default_policy auditors_example (num 1) None = Inr st
    \<and> canonicalise_issues (\<le>) (board_example (map view_of (co_candidates st)) (num 2)) [] coverage_example = Inr s
    \<and> is_issues s = [x] \<and> ci_disposition x = Reached OutAccepted
    \<and> 2 \<le> card (backers Accept (candidate_example [vote_example ''a'' Accept, vote_example ''b'' Accept]) auditors_example)"
proof -
  let ?c = "candidate_example [vote_example ''a'' Accept, vote_example ''b'' Accept]"
  have "case compute_consensus (\<le>) [(''c'', ?c)] default_policy auditors_example (num 1) None of Inl e \<Rightarrow> False
    | Inr st \<Rightarrow> co_auditors st = 2 \<and> (case canonicalise_issues (\<le>) (board_example (map view_of (co_candidates st)) (num 2)) [] coverage_example of
        Inl e \<Rightarrow> False | Inr s \<Rightarrow> map ci_disposition (is_issues s) = [Reached OutAccepted])" by code_simp
  then obtain st s x where st: "compute_consensus (\<le>) [(''c'', ?c)] default_policy auditors_example (num 1) None = Inr st"
    "co_auditors st = 2" "canonicalise_issues (\<le>) (board_example (map view_of (co_candidates st)) (num 2)) [] coverage_example = Inr s"
    "is_issues s = [x]" "ci_disposition x = Reached OutAccepted" by (auto split: sum.splits)
  from planned_issues_are_backed [OF st(1) _ _ st(3), of x] st(2,4,5) have
    "2 \<le> card (backers Accept ?c auditors_example)"
    by (auto simp: board_example_def default_policy_def)
  then show ?thesis using st by blast
qed

theorem serious_candidates_survive_witness:
  "\<exists>s. canonicalise_issues (\<le>) (board_example [view_example OutNoConsensus] (num 2)) [] coverage_example = Inr s
    \<and> with_added_issues s [] [] = Inr s \<and> ''c'' \<in> set (is_minority s)"
proof -
  have "case canonicalise_issues (\<le>) (board_example [view_example OutNoConsensus] (num 2)) [] coverage_example of
    Inl e \<Rightarrow> False | Inr s \<Rightarrow> with_added_issues s [] [] = Inr s
      \<and> map (\<lambda>y. (ci_candidate y, ci_disposition y, ci_support y)) (is_issues s) = [(''c'', Reached OutNoConsensus, num 1)]"
    by code_simp
  then obtain s where s: "canonicalise_issues (\<le>) (board_example [view_example OutNoConsensus] (num 2)) [] coverage_example = Inr s"
    "with_added_issues s [] [] = Inr s"
    "map (\<lambda>y. (ci_candidate y, ci_disposition y, ci_support y)) (is_issues s) = [(''c'', Reached OutNoConsensus, num 1)]"
    by (auto split: sum.splits)
  from serious_candidates_survive [OF s(1,2), of "''c''" board_candidate_example] s(3) show ?thesis
    using s(1,2) by (auto simp: board_example_def board_candidate_example_def)
qed

end
