(* ===== verification/Preset_Graphs.thy ===== *)
theory Preset_Graphs
  imports Authored_Graphs Examples
begin

text \<open>
  The shipped graphs and the switches that change them: \<open>packages/runtime/src/graphs.ts\<close>, the choice of a graph for a
  run configuration (\<open>graphForConfiguration\<close> of \<open>packages/runtime/src/preflight.ts\<close>) and the templates of
  \<open>packages/runtime/src/authored-graphs.ts\<close>. The parse of the testing section by its zod schema is the parameter
  \<open>testing\<close>: the mode it finds, or nothing when it throws.
\<close>

section \<open>The presets\<close>

definition shipped_node :: "string \<Rightarrow> node_kind \<Rightarrow> string \<Rightarrow> runner_node" where
  "shipped_node i k label = \<lparr>nd_id = i, nd_kind = k, nd_label = label, nd_goal = JStr label, nd_config = None, nd_maximum = None,
     nd_purpose = None\<rparr>"

definition plain_edge :: "string \<Rightarrow> string \<Rightarrow> string \<Rightarrow> runner_edge" where
  "plain_edge i a b = \<lparr>ed_id = i, ed_from = a, ed_to = b, ed_rest = []\<rparr>"

definition audit_three_finders_graph :: runner_graph where
  "audit_three_finders_graph =
     \<lparr>gr_schema = num 1, gr_id = ''audit-three-finders'', gr_entry = ''preflight'',
      gr_nodes = [shipped_node ''preflight'' Deterministic ''Preflight'', shipped_node ''auditor-a'' Model ''Auditor A'',
        shipped_node ''auditor-b'' Model ''Auditor B'', shipped_node ''auditor-c'' Model ''Auditor C'',
        shipped_node ''consensus'' Loop ''Consensus'', shipped_node ''verification'' Subgraph ''Verification'',
        shipped_node ''planner'' Model ''Planner''],
      gr_edges = [plain_edge ''p-a'' ''preflight'' ''auditor-a'', plain_edge ''p-b'' ''preflight'' ''auditor-b'',
        plain_edge ''p-c'' ''preflight'' ''auditor-c'', plain_edge ''a-c'' ''auditor-a'' ''consensus'',
        plain_edge ''b-c'' ''auditor-b'' ''consensus'', plain_edge ''c-c'' ''auditor-c'' ''consensus'',
        plain_edge ''consensus-verification'' ''consensus'' ''verification'',
        plain_edge ''verification-planner'' ''verification'' ''planner'']\<rparr>"

definition diff_review_graph :: runner_graph where
  "diff_review_graph =
     \<lparr>gr_schema = num 1, gr_id = ''diff-review'', gr_entry = ''preflight'',
      gr_nodes = [shipped_node ''preflight'' Deterministic ''Diff scope'', shipped_node ''auditor-a'' Model ''Auditor A'',
        shipped_node ''auditor-b'' Model ''Auditor B'', shipped_node ''consensus'' Loop ''Disagreement'',
        shipped_node ''verification'' Subgraph ''Verification'', shipped_node ''planner'' Model ''Planner''],
      gr_edges = [plain_edge ''p-a'' ''preflight'' ''auditor-a'', plain_edge ''p-b'' ''preflight'' ''auditor-b'',
        plain_edge ''a-c'' ''auditor-a'' ''consensus'', plain_edge ''b-c'' ''auditor-b'' ''consensus'',
        plain_edge ''consensus-verification'' ''consensus'' ''verification'',
        plain_edge ''verification-planner'' ''verification'' ''planner'']\<rparr>"

definition audit_two_finders_graph :: runner_graph where
  "audit_two_finders_graph = diff_review_graph\<lparr>gr_id := ''audit-two-finders''\<rparr>"

definition diff_fast_graph :: runner_graph where
  "diff_fast_graph = diff_review_graph\<lparr>gr_id := ''diff-fast'',
     gr_nodes := filter (\<lambda>n. nd_id n \<noteq> ''auditor-b'') (gr_nodes diff_review_graph),
     gr_edges := filter (\<lambda>e. ed_from e \<noteq> ''auditor-b'' \<and> ed_to e \<noteq> ''auditor-b'') (gr_edges diff_review_graph)\<rparr>"

definition feature_graph :: runner_graph where
  "feature_graph = \<lparr>gr_schema = num 1, gr_id = ''feature-simple'', gr_entry = ''preflight'',
     gr_nodes = [shipped_node ''preflight'' Deterministic ''Preflight'',
       shipped_node ''feature'' Subgraph ''Requirements, exploration and planning'', shipped_node ''render'' Deterministic ''Implementation handoff''],
     gr_edges = [plain_edge ''preflight-feature'' ''preflight'' ''feature'', plain_edge ''feature-render'' ''feature'' ''render'']\<rparr>"

definition testing_plan_graph :: runner_graph where
  "testing_plan_graph = \<lparr>gr_schema = num 1, gr_id = ''testing-plan'', gr_entry = ''preflight'',
     gr_nodes = [shipped_node ''preflight'' Deterministic ''Test inventory preflight'',
       shipped_node ''testing'' Subgraph ''Risk analysis and test planning'', shipped_node ''render'' Deterministic ''Test implementation handoff''],
     gr_edges = [plain_edge ''preflight-testing'' ''preflight'' ''testing'', plain_edge ''testing-render'' ''testing'' ''render'']\<rparr>"

definition testing_execute_graph :: runner_graph where
  "testing_execute_graph = \<lparr>gr_schema = num 1, gr_id = ''testing-execute'', gr_entry = ''preflight'',
     gr_nodes = [shipped_node ''preflight'' Deterministic ''Test execution preflight'',
       shipped_node ''testing'' Subgraph ''Risk analysis and test planning'', shipped_node ''execute'' Subgraph ''Guarded test execution'',
       shipped_node ''render'' Deterministic ''Verified test handoff''],
     gr_edges = [plain_edge ''preflight-testing'' ''preflight'' ''testing'', plain_edge ''testing-execute'' ''testing'' ''execute'',
       plain_edge ''execute-render'' ''execute'' ''render'']\<rparr>"

definition preset_graphs :: "(string \<times> runner_graph) list" where
  "preset_graphs = [(''audit-three-finders'', audit_three_finders_graph), (''audit-two-finders'', audit_two_finders_graph),
     (''diff-review'', diff_review_graph), (''diff-fast'', diff_fast_graph), (''feature-simple'', feature_graph),
     (''testing-plan'', testing_plan_graph), (''testing-execute'', testing_execute_graph)]"

definition preset_aliases :: "(string \<times> string) list" where
  "preset_aliases = [(''audit-balanced'', ''audit-two-finders''), (''audit-deep'', ''audit-three-finders'')]"

definition preset_names :: "string list" where
  "preset_names = map fst preset_graphs @ map fst preset_aliases"

definition default_audit_preset :: string where
  "default_audit_preset = ''audit-three-finders''"

datatype preset_error =
    UnknownWorkflowPreset string | VariantSearchRequiresVerificationAndPlanner | CriticRequiresPlanner
  | GraphRequiresSavedVersion | InvalidWorkflowPreset | PresetModeMismatch | TestingRejected

definition graph_for_preset :: "string option \<Rightarrow> preset_error + runner_graph" where
  "graph_for_preset preset =
     (let named = (case preset of None \<Rightarrow> default_audit_preset | Some p \<Rightarrow> p);
          name = (case map_of preset_aliases named of None \<Rightarrow> named | Some a \<Rightarrow> a) in
      case map_of preset_graphs name of None \<Rightarrow> Inl (UnknownWorkflowPreset named) | Some g \<Rightarrow> Inr g)"

definition auditor_ids_for :: "runner_graph \<Rightarrow> string list" where
  "auditor_ids_for g = map nd_id (filter (\<lambda>n. nd_kind n = Model \<and> starts_with ''auditor-'' (nd_id n)) (gr_nodes g))"

definition audit_stage_state :: "runner_node \<Rightarrow> run_state option" where
  "audit_stage_state n =
     (if nd_kind n = Model
      then Some (if nd_id n = ''planner'' then PLANNING else if nd_id n = ''critic'' then PLAN_REVIEW else DISCOVERY_RUNNING)
      else if nd_kind n = Loop then Some PEER_REVIEW_RUNNING
      else if nd_kind n = Subgraph then Some VERIFYING
      else None)"

section \<open>The switches\<close>

definition variant_search_node_id :: string where
  "variant_search_node_id = ''variant-search''"

definition has_node :: "runner_graph \<Rightarrow> string \<Rightarrow> bool" where
  "has_node g i \<longleftrightarrow> list_ex (\<lambda>n. nd_id n = i) (gr_nodes g)"

definition planned_verification :: "runner_edge \<Rightarrow> bool" where
  "planned_verification e \<longleftrightarrow> ed_from e = ''verification'' \<and> ed_to e = ''planner''"

definition with_variant_search :: "runner_graph \<Rightarrow> bool \<Rightarrow> preset_error + runner_graph" where
  "with_variant_search g enabled =
     (let v = variant_search_node_id in
      if has_node g v = enabled then Inr g
      else if \<not> enabled
      then Inr (g\<lparr>gr_nodes := filter (\<lambda>n. nd_id n \<noteq> v) (gr_nodes g),
             gr_edges := filter (\<lambda>e. ed_from e \<noteq> v \<and> ed_to e \<noteq> v) (gr_edges g)
               @ [plain_edge ''verification-planner'' ''verification'' ''planner'']\<rparr>)
      else (let k = length (takeWhile (\<lambda>n. nd_id n \<noteq> ''verification'') (gr_nodes g)) in
        if \<not> has_node g ''verification'' \<or> \<not> list_ex planned_verification (gr_edges g)
        then Inl VariantSearchRequiresVerificationAndPlanner
        else Inr (g\<lparr>gr_nodes := take (k + 1) (gr_nodes g) @ [shipped_node v Model ''Searching for variants''] @ drop (k + 1) (gr_nodes g),
               gr_edges := filter (\<lambda>e. \<not> planned_verification e) (gr_edges g)
                 @ [plain_edge ''verification-variant-search'' ''verification'' v, plain_edge ''variant-search-planner'' v ''planner'']\<rparr>)))"

definition with_critic :: "runner_graph \<Rightarrow> bool \<Rightarrow> preset_error + runner_graph" where
  "with_critic g enabled =
     (if has_node g ''critic'' = enabled then Inr g
      else if \<not> enabled
      then Inr (g\<lparr>gr_nodes := filter (\<lambda>n. nd_id n \<noteq> ''critic'') (gr_nodes g),
             gr_edges := filter (\<lambda>e. ed_from e \<noteq> ''critic'' \<and> ed_to e \<noteq> ''critic'') (gr_edges g)\<rparr>)
      else if \<not> has_node g ''planner'' then Inl CriticRequiresPlanner
      else Inr (g\<lparr>gr_nodes := gr_nodes g @ [shipped_node ''critic'' Model ''Critic''],
             gr_edges := gr_edges g @ [plain_edge ''planner-critic'' ''planner'' ''critic'']\<rparr>))"

section \<open>The graph of a configuration\<close>

datatype run_mode = AuditMode | FeatureMode | TestingMode

datatype testing_mode = PlanTests | ExecuteTests

text \<open>\<open>workflow\<close> is the section's object; a value that is not given is \<open>JOther\<close>.\<close>

definition testing_preset :: "run_mode \<Rightarrow> (json \<Rightarrow> testing_mode option) \<Rightarrow> json \<Rightarrow> preset_error + string" where
  "testing_preset mode testing workflow =
     (if mode = TestingMode
      then case testing (Graph_Schema.field workflow ''testing'') of
          None \<Rightarrow> Inl TestingRejected
        | Some m \<Rightarrow> Inr (if m = ExecuteTests then ''testing-execute'' else ''testing-plan'')
      else Inr ''testing-plan'')"

definition switched :: "json \<Rightarrow> runner_graph \<Rightarrow> preset_error + runner_graph" where
  "switched workflow g =
     result_bind (case Graph_Schema.field workflow ''critic'' of JBool b \<Rightarrow> with_critic g b | _ \<Rightarrow> Inr g) (\<lambda>reviewed.
       case Graph_Schema.field workflow ''variantSearch'' of JBool b \<Rightarrow> with_variant_search reviewed b | _ \<Rightarrow> Inr reviewed)"

definition named_preset :: "json \<Rightarrow> preset_error + string option" where
  "named_preset workflow =
     (case Graph_Schema.field workflow ''preset'' of JOther \<Rightarrow> Inr None | JStr p \<Rightarrow> Inr (Some p) | _ \<Rightarrow> Inl InvalidWorkflowPreset)"

definition graph_for_configuration ::
  "run_mode \<Rightarrow> json \<Rightarrow> (json \<Rightarrow> testing_mode option) \<Rightarrow> (string \<times> runner_graph) list \<Rightarrow> preset_error + runner_graph" where
  "graph_for_configuration mode workflow testing registered =
     (if Graph_Schema.field workflow ''graph'' \<noteq> JOther then Inl GraphRequiresSavedVersion
      else result_bind (named_preset workflow) (\<lambda>preset.
       result_bind (testing_preset mode testing workflow) (\<lambda>tp.
       result_bind (case Option.bind preset (map_of registered) of
           Some g \<Rightarrow> Inr g
         | None \<Rightarrow> graph_for_preset (case preset of Some p \<Rightarrow> Some p
             | None \<Rightarrow> (case mode of FeatureMode \<Rightarrow> Some ''feature-simple'' | TestingMode \<Rightarrow> Some tp | AuditMode \<Rightarrow> None))) (\<lambda>g.
       if (gr_id g = ''feature-simple'') \<noteq> (mode = FeatureMode) then Inl PresetModeMismatch
       else if (gr_id g = ''testing-plan'' \<or> gr_id g = ''testing-execute'') \<noteq> (mode = TestingMode) \<or> mode = TestingMode \<and> gr_id g \<noteq> tp
       then Inl PresetModeMismatch
       else if mode \<noteq> AuditMode then Inr g
       else switched workflow g))))"

definition authored_templates :: "workflow_graph list" where
  "authored_templates = List.map_filter (\<lambda>i. map_option template_of (map_of preset_graphs i))
     [''audit-three-finders'', ''audit-two-finders'', ''diff-review'', ''diff-fast'']"

section \<open>Graphs the runner can plan\<close>

text \<open>One order of all stages that every shipped edge follows.\<close>

definition stage_order :: "string list" where
  "stage_order = [''preflight'', ''auditor-a'', ''auditor-b'', ''auditor-c'', ''consensus'', ''verification'', ''variant-search'', ''planner'',
     ''critic'', ''feature'', ''testing'', ''execute'', ''render'']"

definition stage_rank :: "string \<Rightarrow> nat" where
  "stage_rank i = length (takeWhile (\<lambda>x. x \<noteq> i) stage_order)"

definition plain_node :: "runner_node \<Rightarrow> bool" where
  "plain_node n \<longleftrightarrow> (case nd_goal n of JStr _ \<Rightarrow> True | _ \<Rightarrow> False) \<and> nd_config n = None \<and> nd_maximum n = None \<and> nd_purpose n = None"

definition ordered_graph :: "runner_graph \<Rightarrow> bool" where
  "ordered_graph g \<longleftrightarrow> gr_schema g = num 1 \<and> has_node g (gr_entry g) \<and> list_all plain_node (gr_nodes g)
     \<and> list_all (\<lambda>e. ed_rest e = [] \<and> has_node g (ed_from e) \<and> has_node g (ed_to e) \<and> stage_rank (ed_from e) < stage_rank (ed_to e)) (gr_edges g)
     \<and> list_all (\<lambda>n. nd_id n = gr_entry g \<or> list_ex (\<lambda>e. ed_to e = nd_id n) (gr_edges g)) (gr_nodes g)"

lemma has_node_iff: "has_node g i \<longleftrightarrow> i \<in> nd_id ` set (gr_nodes g)"
  by (auto simp: has_node_def list_ex_iff)

lemma plain_node_canon:
  assumes "keeps_ascii h" "plain_node n"
  shows "\<exists>u. canon (nfc h) (numstr h) (json_of_node n) = Inr u"
proof -
  have names: "nfc h ''id'' = ''id''" "nfc h ''kind'' = ''kind''" "nfc h ''label'' = ''label''" "nfc h ''goal'' = ''goal''"
    using assms(1) by (simp_all add: keeps_ascii_def ascii_def)
  from assms(2) obtain s where "nd_goal n = JStr s" by (auto simp: plain_node_def split: json.splits)
  then show ?thesis
    using assms(2) unfolding json_of_node_def plain_node_def
    by (intro canon_obj_total) (auto simp: names optional_def)
qed

lemma plain_edge_canon:
  assumes "keeps_ascii h" "ed_rest e = []"
  shows "\<exists>u. canon (nfc h) (numstr h) (json_of_edge e) = Inr u"
proof -
  have names: "nfc h ''id'' = ''id''" "nfc h ''from'' = ''from''" "nfc h ''to'' = ''to''"
    using assms(1) by (simp_all add: keeps_ascii_def ascii_def)
  show ?thesis using assms(2) unfolding json_of_edge_def by (intro canon_obj_total) (auto simp: names)
qed

lemma ordered_graph_reachable:
  assumes "ordered_graph g" "n \<in> set (gr_nodes g)"
  shows "(gr_entry g, nd_id n) \<in> {(ed_from e, ed_to e) | e. e \<in> set (gr_edges g)}\<^sup>*"
  using assms(2)
proof (induction "stage_rank (nd_id n)" arbitrary: n rule: less_induct)
  case less
  show ?case
  proof (cases "nd_id n = gr_entry g")
    case False
    with assms(1) less.prems obtain e where e: "e \<in> set (gr_edges g)" "ed_to e = nd_id n"
      by (auto simp: ordered_graph_def list_all_iff list_ex_iff)
    with assms(1) obtain m where m: "m \<in> set (gr_nodes g)" "nd_id m = ed_from e" "stage_rank (nd_id m) < stage_rank (nd_id n)"
      by (fastforce simp: ordered_graph_def list_all_iff has_node_iff)
    have "(nd_id m, nd_id n) \<in> {(ed_from e, ed_to e) | e. e \<in> set (gr_edges g)}" using e m(2) by auto
    with less.hyps [OF m(3,1)] show ?thesis by (rule rtrancl_into_rtrancl)
  qed simp
qed

lemma ordered_graph_planned:
  assumes "keeps_ascii h" "ordered_graph g"
  shows "\<exists>p. build_graph_plan h g run = Inr p \<and> set (pl_order p) = nd_id ` set (gr_nodes g)"
proof -
  note G = assms(2) [unfolded ordered_graph_def list_all_iff has_node_iff]
  have "\<exists>p. build_graph_plan h g run = Inr p"
  proof (rule build_plan_succeeds [where rank = stage_rank])
    show "gr_entry g \<in> nd_id ` set (gr_nodes g)" using G by blast
    show "ed_to e \<in> nd_id ` set (gr_nodes g)" "stage_rank (ed_from e) < stage_rank (ed_to e)" if "e \<in> set (gr_edges g)" for e
      using G that by blast+
    show "\<exists>i. node_activity_id h run (gr_schema g) n node xs = Inr i"
      if "node \<in> set (gr_nodes g)" "fst ` set xs \<subseteq> set (gr_edges g)" for n node xs
    proof -
      have "\<exists>i. node_activity_id h run (num 1) n node xs = Inr i"
      proof (rule identity_total [OF assms(1)])
        show "\<exists>u. canon (nfc h) (numstr h) (json_of_node node) = Inr u"
          by (rule plain_node_canon [OF assms(1)]) (use G that(1) in blast)
        show "\<exists>u. canon (nfc h) (numstr h) (json_of_edge (fst x)) = Inr u" if "x \<in> set xs" for x
          by (rule plain_edge_canon [OF assms(1)]) (use G that \<open>fst ` set xs \<subseteq> set (gr_edges g)\<close> in blast)
      qed
      then show ?thesis using G by simp
    qed
  qed
  then obtain p where p: "build_graph_plan h g run = Inr p" ..
  let ?E = "{(ed_from e, ed_to e) | e. e \<in> set (gr_edges g)}"
  have "succ_rel (outgoing h (gr_edges g)) = ?E" by (auto simp: succ_rel_def outgoing_def)
  then have order: "set (pl_order p) = ?E\<^sup>* `` {gr_entry g}" using plan_order(2) [OF p] by simp
  have "i \<in> nd_id ` set (gr_nodes g)" if "(gr_entry g, i) \<in> ?E\<^sup>*" for i
    using that by (cases rule: rtranclE) (use G in blast)+
  then have "set (pl_order p) = nd_id ` set (gr_nodes g)" unfolding order using ordered_graph_reachable [OF assms(2)] by auto
  with p show ?thesis by blast
qed

section \<open>The shipped graphs\<close>

definition audit_presets :: "runner_graph list" where
  "audit_presets = [audit_three_finders_graph, audit_two_finders_graph, diff_review_graph, diff_fast_graph]"

definition switch_outcome :: "bool option \<Rightarrow> string \<Rightarrow> runner_graph \<Rightarrow> bool" where
  "switch_outcome choice i g \<longleftrightarrow> has_node g i = (choice = Some True)"

definition switch :: "bool option \<Rightarrow> (runner_graph \<Rightarrow> bool \<Rightarrow> preset_error + runner_graph) \<Rightarrow> runner_graph \<Rightarrow> preset_error + runner_graph" where
  "switch choice f g = (case choice of None \<Rightarrow> Inr g | Some b \<Rightarrow> f g b)"

definition chosen :: "json \<Rightarrow> bool option" where
  "chosen v = (case v of JBool b \<Rightarrow> Some b | _ \<Rightarrow> None)"

lemma switched_eq:
  "switched workflow g = result_bind (switch (chosen (Graph_Schema.field workflow ''critic'')) with_critic g)
     (switch (chosen (Graph_Schema.field workflow ''variantSearch'')) with_variant_search)"
  by (cases "Graph_Schema.field workflow ''critic''"; cases "Graph_Schema.field workflow ''variantSearch''")
    (simp_all add: switched_def switch_def chosen_def result_bind_def split: sum.splits)

lemma presets_ordered: "list_all ordered_graph (map snd preset_graphs)"
  by code_simp

lemma preset_ids: "list_all (\<lambda>(k, g). gr_id g = k) preset_graphs"
  by code_simp

lemma audit_outcomes:
  "list_all (\<lambda>g. list_all (\<lambda>c. list_all (\<lambda>v. case result_bind (switch c with_critic g) (switch v with_variant_search) of
      Inl e \<Rightarrow> False
    | Inr g' \<Rightarrow> ordered_graph g' \<and> switch_outcome c ''critic'' g' \<and> switch_outcome v variant_search_node_id g'
        \<and> auditor_ids_for g' = auditor_ids_for g \<and> auditor_ids_for g' \<noteq> [])
      [None, Some True, Some False]) [None, Some True, Some False]) audit_presets"
  by code_simp

lemma templates_accepted:
  "list_all (\<lambda>g. validate_graph_structure (\<lambda>n. []) g maximum_loop_iterations = Some [] \<and> audit_dispatch_contract g = []) authored_templates"
  by code_simp

lemma switched_audit:
  assumes "g \<in> set audit_presets" "switched workflow g = Inr g'"
  shows "ordered_graph g' \<and> auditor_ids_for g' \<noteq> []
    \<and> (has_node g' ''critic'' \<longleftrightarrow> Graph_Schema.field workflow ''critic'' = JBool True)
    \<and> (has_node g' variant_search_node_id \<longleftrightarrow> Graph_Schema.field workflow ''variantSearch'' = JBool True)"
proof -
  have every: "c \<in> set [None, Some True, Some False]" for c :: "bool option" by (cases c) auto
  have on: "chosen v = Some True \<longleftrightarrow> v = JBool True" for v by (simp add: chosen_def split: json.splits)
  note outcome = audit_outcomes [unfolded list_all_iff, rule_format, OF assms(1) every [of "chosen (Graph_Schema.field workflow ''critic'')"]
      every [of "chosen (Graph_Schema.field workflow ''variantSearch'')"]]
  show ?thesis using outcome unfolding assms(2) [unfolded switched_eq] switch_outcome_def on [symmetric] by auto
qed

lemma preset_in: "graph_for_preset p = Inr g \<Longrightarrow> ordered_graph g \<and> map_of preset_graphs (gr_id g) = Some g"
proof -
  assume "graph_for_preset p = Inr g"
  then obtain k where k: "map_of preset_graphs k = Some g" by (auto simp: graph_for_preset_def Let_def split: option.splits)
  then have "(k, g) \<in> set preset_graphs" by (rule map_of_SomeD)
  with presets_ordered preset_ids k show ?thesis unfolding list_all_iff by fastforce
qed

lemma preset_of_id:
  assumes "map_of preset_graphs (gr_id g) = Some g"
  shows "gr_id g = ''feature-simple'' \<Longrightarrow> g = feature_graph" "gr_id g = ''testing-plan'' \<Longrightarrow> g = testing_plan_graph"
    "gr_id g = ''testing-execute'' \<Longrightarrow> g = testing_execute_graph"
    "gr_id g \<notin> {''feature-simple'', ''testing-plan'', ''testing-execute''} \<Longrightarrow> g \<in> set audit_presets"
proof -
  show "gr_id g = ''feature-simple'' \<Longrightarrow> g = feature_graph" "gr_id g = ''testing-plan'' \<Longrightarrow> g = testing_plan_graph"
    "gr_id g = ''testing-execute'' \<Longrightarrow> g = testing_execute_graph"
    using assms by (simp_all add: preset_graphs_def)
  show "gr_id g \<notin> {''feature-simple'', ''testing-plan'', ''testing-execute''} \<Longrightarrow> g \<in> set audit_presets"
    using assms by (simp add: preset_graphs_def audit_presets_def split: if_splits)
qed

text \<open>
  C30. Every graph that a configuration selects among the shipped presets can run: for every run id the runner
  builds a plan of all its nodes. An audit always has an auditor, its graph has the plan critic exactly if
  \<open>workflow.critic\<close> is true and the variant search exactly if \<open>workflow.variantSearch\<close> is true; a feature run
  gets the feature graph, and a testing run the graph of the mode its configuration parses to, so that tests are
  executed only when the configuration says so.
\<close>

theorem configured_graph_runs:
  assumes "keeps_ascii h" "graph_for_configuration mode workflow testing registered = Inr g"
    and "\<And>p. named_preset workflow = Inr (Some p) \<Longrightarrow> map_of registered p = None"
  shows "(\<exists>p. build_graph_plan h g run = Inr p \<and> set (pl_order p) = nd_id ` set (gr_nodes g))
    \<and> (case mode of
         AuditMode \<Rightarrow> auditor_ids_for g \<noteq> []
           \<and> (has_node g ''critic'' \<longleftrightarrow> Graph_Schema.field workflow ''critic'' = JBool True)
           \<and> (has_node g variant_search_node_id \<longleftrightarrow> Graph_Schema.field workflow ''variantSearch'' = JBool True)
       | FeatureMode \<Rightarrow> g = feature_graph
       | TestingMode \<Rightarrow> (case testing (Graph_Schema.field workflow ''testing'') of
             Some ExecuteTests \<Rightarrow> g = testing_execute_graph
           | Some PlanTests \<Rightarrow> g = testing_plan_graph
           | None \<Rightarrow> False))"
proof -
  from assms(2) obtain preset tp g0 where P: "named_preset workflow = Inr preset" "testing_preset mode testing workflow = Inr tp"
      "(case Option.bind preset (map_of registered) of Some g \<Rightarrow> Inr g
         | None \<Rightarrow> graph_for_preset (case preset of Some p \<Rightarrow> Some p
             | None \<Rightarrow> (case mode of FeatureMode \<Rightarrow> Some ''feature-simple'' | TestingMode \<Rightarrow> Some tp | AuditMode \<Rightarrow> None))) = Inr g0"
      "\<not> (gr_id g0 = ''feature-simple'') \<noteq> (mode = FeatureMode)"
      "\<not> ((gr_id g0 = ''testing-plan'' \<or> gr_id g0 = ''testing-execute'') \<noteq> (mode = TestingMode) \<or> mode = TestingMode \<and> gr_id g0 \<noteq> tp)"
      "(if mode \<noteq> AuditMode then Inr g0 else switched workflow g0) = Inr g"
    unfolding graph_for_configuration_def result_bind_Inr_iff if_throw_Inr_iff by blast
  have "Option.bind preset (map_of registered) = None" using assms(3) P(1) by (cases preset) simp_all
  with P(3) obtain q where "graph_for_preset q = Inr g0" by simp
  note G = P(1,2) this P(4-6)
  from preset_in [OF G(3)] have g0: "ordered_graph g0" "map_of preset_graphs (gr_id g0) = Some g0" by auto
  have plan: "\<exists>p. build_graph_plan h g run = Inr p \<and> set (pl_order p) = nd_id ` set (gr_nodes g)" if "ordered_graph g"
    by (rule ordered_graph_planned [OF assms(1) that])
  show ?thesis
  proof (cases mode)
    case AuditMode
    then have "g0 \<in> set audit_presets" using preset_of_id(4) [OF g0(2)] G(4,5) by auto
    from switched_audit [OF this, of workflow g] G(6) AuditMode plan show ?thesis by simp
  next
    case FeatureMode
    then have "g0 = feature_graph" using preset_of_id(1) [OF g0(2)] G(4) by simp
    with FeatureMode G(6) g0(1) plan show ?thesis by simp
  next
    case TestingMode
    then obtain m where m: "testing (Graph_Schema.field workflow ''testing'') = Some m"
        "tp = (if m = ExecuteTests then ''testing-execute'' else ''testing-plan'')"
      using G(2) by (auto simp: testing_preset_def split: option.splits)
    have "g0 = (if m = ExecuteTests then testing_execute_graph else testing_plan_graph)"
      using preset_of_id(2,3) [OF g0(2)] G(5) TestingMode m(2) by auto
    with TestingMode G(6) g0(1) plan m(1) show ?thesis by (cases m) simp_all
  qed
qed

definition workflow_example :: json where
  "workflow_example = JObj [(''preset'', JStr ''audit-balanced''), (''critic'', JBool True)]"

theorem configured_graph_runs_witness:
  "\<exists>g p. graph_for_configuration AuditMode workflow_example (\<lambda>_. None) [] = Inr g \<and> build_graph_plan demo_host g ''r'' = Inr p
    \<and> ''critic'' \<in> set (pl_order p)"
proof -
  have "case graph_for_configuration AuditMode workflow_example (\<lambda>_. None) [] of Inl e \<Rightarrow> False | Inr g \<Rightarrow> has_node g ''critic''" by code_simp
  then obtain g where g: "graph_for_configuration AuditMode workflow_example (\<lambda>_. None) [] = Inr g" "has_node g ''critic''"
    by (auto split: sum.splits)
  have "keeps_ascii demo_host" by (simp add: keeps_ascii_def demo_host_def)
  from configured_graph_runs [OF this g(1), of "''r''"] obtain p where "build_graph_plan demo_host g ''r'' = Inr p" "set (pl_order p) = nd_id ` set (gr_nodes g)"
    by auto
  with g show ?thesis by (auto simp: has_node_iff)
qed

end
