(* ===== verification/Write_Partitions.thy ===== *)
theory Write_Partitions
  imports Json
begin

text \<open>
  Write scopes of testing execution: \<open>packages/security/src/write-partitions.ts\<close>. A lease is compared by object
  identity in the source; here every lease carries the number under which it was made.
\<close>

section \<open>Paths\<close>

datatype write_error =
    InvalidWritePath string | ControlPlaneWrite string | InvalidPartitionId | DuplicateWritePath string
  | AncestorConflict string | TaskActiveOrInvalid | UnknownPartition string | DuplicateTaskPath | RequiresApproval string
  | PathExcluded string | EmptyWriteScope | WriteScopeBusy string | StaleOrForgedLease | OutsideLease string

definition forbidden_char :: "char \<Rightarrow> bool" where
  "forbidden_char c \<longleftrightarrow> (of_char c :: nat) < 32 \<or> c = CHR 0x5C \<or> c \<in> set ''<>:|?*'' \<or> c = CHR 0x22"

text \<open>\<open>/^(?:con|prn|aux|nul|com[1-9]|lpt[1-9])(?:\.|$)/iu\<close>\<close>

definition device_name :: "string \<Rightarrow> bool" where
  "device_name part \<longleftrightarrow> (let stem = first_part (CHR ''.'') (to_lower part) in
     stem \<in> {''con'', ''prn'', ''aux'', ''nul''}
     \<or> length stem = 4 \<and> take 3 stem \<in> {''com'', ''lpt''} \<and> stem ! 3 \<in> set ''123456789'')"

definition bad_part :: "string \<Rightarrow> bool" where
  "bad_part part \<longleftrightarrow> part \<in> {[], ''.'', ''..''} \<or> last part \<in> set ''. '' \<or> device_name part"

definition control_plane_part :: "string \<Rightarrow> bool" where
  "control_plane_part part \<longleftrightarrow> to_lower part \<in> {''.git'', ''.runs'', ''.codex'', ''.agents''}"

definition concrete_write_path :: "js_host \<Rightarrow> string \<Rightarrow> write_error + string" where
  "concrete_write_path h path =
     (if path \<noteq> nfc h path \<or> list_ex forbidden_char path then Inl (InvalidWritePath path)
      else if list_ex bad_part (split_on (CHR ''/'') path) then Inl (InvalidWritePath path)
      else if list_ex control_plane_part (split_on (CHR ''/'') path) then Inl (ControlPlaneWrite path)
      else Inr path)"

text \<open>\<open>identity\<close>: one name for the aliases of a case-insensitive host.\<close>

definition path_identity :: "string \<Rightarrow> string" where
  "path_identity path = to_lower path"

definition intersects :: "string \<Rightarrow> string \<Rightarrow> bool" where
  "intersects l r \<longleftrightarrow> l = r \<or> starts_with (r @ ''/'') l \<or> starts_with (l @ ''/'') r"

section \<open>Partitions and leases\<close>

record trusted_partition =
  tw_id :: string
  tw_paths :: "string list"

record write_request =
  wq_task :: string
  wq_partition :: string
  wq_paths :: "string list"
  wq_excluded :: "string list option"
  wq_exclusive :: "bool option"

record write_lease =
  wl_task :: string
  wl_partition :: string
  wl_paths :: "string list"
  wl_exclusive :: bool
  wl_made :: nat

record write_partitions =
  wp_partitions :: "(string \<times> (string \<times> string) list) list"
  wp_active :: "(string \<times> write_lease) list"
  wp_made :: nat

definition add_path :: "js_host \<Rightarrow> string \<Rightarrow> (string \<times> string) list \<Rightarrow> write_error + (string \<times> string) list" where
  "add_path h raw paths =
     result_bind (concrete_write_path h raw) (\<lambda>path.
       let key = path_identity path in
       if map_of paths key \<noteq> None then Inl (DuplicateWritePath path)
       else if list_ex (\<lambda>e. intersects (fst e) key) paths then Inl (AncestorConflict path)
       else Inr (AList.update key path paths))"

definition add_partition ::
  "js_host \<Rightarrow> trusted_partition \<Rightarrow> (string \<times> (string \<times> string) list) list \<Rightarrow>
     write_error + (string \<times> (string \<times> string) list) list" where
  "add_partition h p m =
     (if blank (tw_id p) \<or> map_of m (tw_id p) \<noteq> None then Inl InvalidPartitionId
      else result_bind (result_fold (add_path h) (tw_paths p) []) (\<lambda>paths. Inr (AList.update (tw_id p) paths m)))"

definition new_partitions :: "js_host \<Rightarrow> trusted_partition list \<Rightarrow> write_error + write_partitions" where
  "new_partitions h ps =
     result_bind (result_fold (add_partition h) ps []) (\<lambda>m. Inr \<lparr>wp_partitions = m, wp_active = [], wp_made = 0\<rparr>)"

definition scope_check :: "(string \<times> string) list \<Rightarrow> string list \<Rightarrow> string \<Rightarrow> write_error + unit" where
  "scope_check scope excluded path =
     (if map_of scope (path_identity path) \<noteq> Some path then Inl (RequiresApproval path)
      else require (path_identity path \<notin> set excluded) (PathExcluded path))"

definition busy_check :: "bool \<Rightarrow> string list \<Rightarrow> string \<times> write_lease \<Rightarrow> write_error + unit" where
  "busy_check exclusive paths active =
     require (\<not> (exclusive \<or> wl_exclusive (snd active)
         \<or> list_ex (\<lambda>p. list_ex (\<lambda>q. intersects (path_identity p) (path_identity q)) (wl_paths (snd active))) paths))
       (WriteScopeBusy (wl_task (snd active)))"

definition acquire_write :: "js_host \<Rightarrow> write_request \<Rightarrow> write_partitions \<Rightarrow> write_error + write_partitions \<times> write_lease" where
  "acquire_write h q s =
     (if blank (wq_task q) \<or> map_of (wp_active s) (wq_task q) \<noteq> None then Inl TaskActiveOrInvalid
      else case map_of (wp_partitions s) (wq_partition q) of
        None \<Rightarrow> Inl (UnknownPartition (wq_partition q))
      | Some scope \<Rightarrow>
          result_bind (result_map (concrete_write_path h) (case wq_excluded q of None \<Rightarrow> [] | Some xs \<Rightarrow> xs)) (\<lambda>excluded.
          result_bind (result_map (concrete_write_path h) (wq_paths q)) (\<lambda>paths.
          if \<not> distinct (map path_identity paths) then Inl DuplicateTaskPath
          else result_bind (result_map (scope_check scope (map path_identity excluded)) paths) (\<lambda>_.
          if paths = [] then Inl EmptyWriteScope
          else result_bind (result_map (busy_check (wq_exclusive q = Some True) paths) (wp_active s)) (\<lambda>_.
            let l = \<lparr>wl_task = wq_task q, wl_partition = wq_partition q, wl_paths = sort_strings paths,
                  wl_exclusive = (wq_exclusive q = Some True), wl_made = wp_made s\<rparr> in
            Inr (s\<lparr>wp_active := AList.update (wq_task q) l (wp_active s), wp_made := Suc (wp_made s)\<rparr>, l))))))"

definition assert_granted :: "js_host \<Rightarrow> write_lease \<Rightarrow> string \<Rightarrow> write_partitions \<Rightarrow> write_error + unit" where
  "assert_granted h l path s =
     (if map_of (wp_active s) (wl_task l) \<noteq> Some l then Inl StaleOrForgedLease
      else result_bind (concrete_write_path h path) (\<lambda>_. require (path \<in> set (wl_paths l)) (OutsideLease path)))"

definition release_write :: "write_lease \<Rightarrow> write_partitions \<Rightarrow> write_error + write_partitions" where
  "release_write l s =
     (if map_of (wp_active s) (wl_task l) \<noteq> Some l then Inl StaleOrForgedLease
      else Inr (s\<lparr>wp_active := AList.delete (wl_task l) (wp_active s)\<rparr>))"

definition active_leases :: "write_partitions \<Rightarrow> write_lease list" where
  "active_leases s = map snd (wp_active s)"

text \<open>A run of the guard: what throws changes nothing.\<close>

datatype write_call = Acquire write_request | Release write_lease

fun write_step :: "js_host \<Rightarrow> write_call \<Rightarrow> write_partitions \<Rightarrow> write_partitions" where
  "write_step h (Acquire q) s = (case acquire_write h q s of Inl e \<Rightarrow> s | Inr r \<Rightarrow> fst r)"
| "write_step h (Release l) s = (case release_write l s of Inl e \<Rightarrow> s | Inr t \<Rightarrow> t)"

section \<open>Lemmas\<close>

lemma intersects_sym: "intersects l r = intersects r l"
  by (auto simp: intersects_def)

lemma concrete_same: "concrete_write_path h path = Inr p \<Longrightarrow> p = path"
  by (simp add: concrete_write_path_def split: if_splits)

lemma concrete_all: "result_map (concrete_write_path h) xs = Inr ys \<Longrightarrow> ys = xs \<and> (\<forall>x \<in> set xs. concrete_write_path h x = Inr x)"
  by (induction xs arbitrary: ys) (auto simp: result_simps dest: concrete_same)

lemma result_map_units: "result_map f xs = Inr us \<Longrightarrow> x \<in> set xs \<Longrightarrow> f x = Inr ()"
  for f :: "'a \<Rightarrow> 'e + unit"
  by (induction xs arbitrary: us) (auto simp: result_simps)

text \<open>A partition holds the paths it was given.\<close>

lemma add_paths:
  assumes "result_fold (add_path h) raws acc = Inr paths" "map_of paths k = Some p"
  shows "map_of acc k = Some p \<or> p \<in> set raws"
  using assms
proof (induction raws arbitrary: acc)
  case Nil
  then show ?case by simp
next
  case (Cons r raws)
  from Cons.prems(1) obtain acc' where acc': "add_path h r acc = Inr acc'" "result_fold (add_path h) raws acc' = Inr paths"
    by (auto simp: result_simps)
  from acc'(1) have "acc' = AList.update (path_identity r) r acc"
    by (auto simp: add_path_def result_simps Let_def dest: concrete_same split: if_splits)
  with Cons.IH [OF acc'(2) Cons.prems(2)] show ?case by (auto split: if_splits)
qed

definition partition_of :: "trusted_partition list \<Rightarrow> string \<Rightarrow> string \<Rightarrow> bool" where
  "partition_of ps i p \<longleftrightarrow> (\<exists>t \<in> set ps. tw_id t = i \<and> p \<in> set (tw_paths t))"

lemma add_partitions:
  assumes "result_fold (add_partition h) ps acc = Inr m" "map_of m i = Some paths" "map_of paths k = Some p"
  shows "(\<exists>old. map_of acc i = Some old \<and> map_of old k = Some p) \<or> partition_of ps i p"
  using assms
proof (induction ps arbitrary: acc)
  case Nil
  then show ?case by auto
next
  case (Cons t ps)
  from Cons.prems(1) obtain acc' where acc': "add_partition h t acc = Inr acc'" "result_fold (add_partition h) ps acc' = Inr m"
    by (auto simp: result_simps)
  from acc'(1) obtain new where new: "result_fold (add_path h) (tw_paths t) [] = Inr new" "acc' = AList.update (tw_id t) new acc"
    by (auto simp: add_partition_def result_simps split: if_splits)
  from Cons.IH [OF acc'(2) Cons.prems(2,3)] show ?case
    using add_paths [OF new(1), of k p] unfolding new(2) by (auto simp: partition_of_def split: if_splits)
qed

definition lease_ok :: "js_host \<Rightarrow> trusted_partition list \<Rightarrow> write_lease \<Rightarrow> bool" where
  "lease_ok h ps l \<longleftrightarrow> (\<forall>p \<in> set (wl_paths l). concrete_write_path h p = Inr p \<and> partition_of ps (wl_partition l) p)"

definition apart :: "write_lease \<Rightarrow> write_lease \<Rightarrow> bool" where
  "apart l r \<longleftrightarrow> \<not> wl_exclusive l \<and> \<not> wl_exclusive r
     \<and> (\<forall>p \<in> set (wl_paths l). \<forall>q \<in> set (wl_paths r). \<not> intersects (path_identity p) (path_identity q))"

definition guard_inv :: "js_host \<Rightarrow> trusted_partition list \<Rightarrow> write_partitions \<Rightarrow> bool" where
  "guard_inv h ps s \<longleftrightarrow>
     (\<forall>i paths k p. map_of (wp_partitions s) i = Some paths \<longrightarrow> map_of paths k = Some p \<longrightarrow> partition_of ps i p)
     \<and> (\<forall>t l. map_of (wp_active s) t = Some l \<longrightarrow> wl_task l = t \<and> lease_ok h ps l \<and> wl_made l < wp_made s)
     \<and> (\<forall>t l u r. map_of (wp_active s) t = Some l \<longrightarrow> map_of (wp_active s) u = Some r \<longrightarrow> t \<noteq> u \<longrightarrow> apart l r)"

lemma new_partitions_inv: "new_partitions h ps = Inr s \<Longrightarrow> guard_inv h ps s"
  using add_partitions [of h ps "[]"] by (fastforce simp: new_partitions_def guard_inv_def result_simps)

lemma acquire_writeD:
  assumes "acquire_write h q s = Inr (t, l)"
  obtains scope where "map_of (wp_active s) (wq_task q) = None" "map_of (wp_partitions s) (wq_partition q) = Some scope"
    "wl_task l = wq_task q" "wl_partition l = wq_partition q" "wl_made l = wp_made s" "set (wl_paths l) = set (wq_paths q)"
    "wl_exclusive l = (wq_exclusive q = Some True)"
    "\<And>p. p \<in> set (wq_paths q) \<Longrightarrow> concrete_write_path h p = Inr p \<and> map_of scope (path_identity p) = Some p"
    "\<And>a. a \<in> set (wp_active s) \<Longrightarrow> busy_check (wq_exclusive q = Some True) (wq_paths q) a = Inr ()"
    "t = s\<lparr>wp_active := AList.update (wq_task q) l (wp_active s), wp_made := Suc (wp_made s)\<rparr>"
proof -
  from assms obtain scope excluded paths us vs where A: "map_of (wp_active s) (wq_task q) = None"
      "map_of (wp_partitions s) (wq_partition q) = Some scope"
      "result_map (concrete_write_path h) (wq_paths q) = Inr paths"
      "result_map (scope_check scope (map path_identity excluded)) paths = Inr us"
      "result_map (busy_check (wq_exclusive q = Some True) paths) (wp_active s) = Inr vs"
      "l = \<lparr>wl_task = wq_task q, wl_partition = wq_partition q, wl_paths = sort_strings paths,
                  wl_exclusive = (wq_exclusive q = Some True), wl_made = wp_made s\<rparr>"
      "t = s\<lparr>wp_active := AList.update (wq_task q) l (wp_active s), wp_made := Suc (wp_made s)\<rparr>"
    unfolding acquire_write_def
    by (cases "map_of (wp_partitions s) (wq_partition q)") (auto simp: result_simps Let_def split: if_splits)
  from concrete_all [OF A(3)] have paths: "paths = wq_paths q" "\<And>p. p \<in> set (wq_paths q) \<Longrightarrow> concrete_write_path h p = Inr p" by auto
  have scope: "map_of scope (path_identity p) = Some p" if "p \<in> set (wq_paths q)" for p
  proof -
    have "scope_check scope (map path_identity excluded) p = Inr ()" using result_map_units [OF A(4)] that by (simp add: paths(1))
    then show ?thesis by (simp add: scope_check_def split: if_splits)
  qed
  show ?thesis
    by (rule that [OF A(1,2)]) (use A(6,7) paths scope result_map_units [OF A(5)] in auto)
qed

lemma acquire_inv:
  assumes "guard_inv h ps s" "acquire_write h q s = Inr (t, l)"
  shows "guard_inv h ps t"
  using assms(2)
proof (rule acquire_writeD)
  fix scope
  assume A: "map_of (wp_active s) (wq_task q) = None" "map_of (wp_partitions s) (wq_partition q) = Some scope"
    "wl_task l = wq_task q" "wl_partition l = wq_partition q" "wl_made l = wp_made s" "set (wl_paths l) = set (wq_paths q)"
    "wl_exclusive l = (wq_exclusive q = Some True)"
    "\<And>p. p \<in> set (wq_paths q) \<Longrightarrow> concrete_write_path h p = Inr p \<and> map_of scope (path_identity p) = Some p"
    "\<And>a. a \<in> set (wp_active s) \<Longrightarrow> busy_check (wq_exclusive q = Some True) (wq_paths q) a = Inr ()"
    "t = s\<lparr>wp_active := AList.update (wq_task q) l (wp_active s), wp_made := Suc (wp_made s)\<rparr>"
  have new: "apart l r \<and> apart r l" if "map_of (wp_active s) u = Some r" for u r
  proof -
    have "busy_check (wq_exclusive q = Some True) (wq_paths q) (u, r) = Inr ()" by (rule A(9) [OF map_of_SomeD [OF that]])
    then have "apart l r" using A(6,7) by (auto simp: apart_def busy_check_def list_ex_iff)
    then show ?thesis using intersects_sym by (auto simp: apart_def)
  qed
  note old = assms(1) [unfolded guard_inv_def]
  have ok: "lease_ok h ps l" using A(2,4,6,8) old unfolding lease_ok_def by metis
  have act: "map_of (wp_active t) u = Some r \<longleftrightarrow> (if u = wq_task q then r = l else map_of (wp_active s) u = Some r)" for u r
    using A(10) by auto
  have made: "wl_made r < wp_made s" if "map_of (wp_active s) u = Some r" for u r using old that by blast
  show ?thesis unfolding guard_inv_def act
  proof (intro conjI allI impI)
    show "partition_of ps i p" if "map_of (wp_partitions t) i = Some paths" "map_of paths k = Some p" for i paths k p
      using old that A(10) by auto
    show "wl_task r = u" "lease_ok h ps r" "wl_made r < wp_made t"
      if "if u = wq_task q then r = l else map_of (wp_active s) u = Some r" for u r
      using that old ok less_SucI [OF made [of u r]] A(3,5,10) by (auto split: if_splits)
    show "apart r r'" if "if u = wq_task q then r = l else map_of (wp_active s) u = Some r"
      "if u' = wq_task q then r' = l else map_of (wp_active s) u' = Some r'" "u \<noteq> u'" for u r u' r'
      using that new old by (metis (full_types))
  qed
qed

lemma fewer_leases_inv:
  assumes "guard_inv h ps s" "wp_partitions t = wp_partitions s" "wp_made t = wp_made s"
    and sub: "\<And>u r. map_of (wp_active t) u = Some r \<Longrightarrow> map_of (wp_active s) u = Some r"
  shows "guard_inv h ps t"
proof -
  note old = assms(1) [unfolded guard_inv_def]
  show ?thesis unfolding guard_inv_def assms(2,3)
  proof (intro conjI allI impI)
    show "partition_of ps i p" if "map_of (wp_partitions s) i = Some paths" "map_of paths k = Some p" for i paths k p
      using old that by blast
    show "wl_task r = u" "lease_ok h ps r" "wl_made r < wp_made s" if "map_of (wp_active t) u = Some r" for u r
      using old sub [OF that] by blast+
    show "apart r r'" if "map_of (wp_active t) u = Some r" "map_of (wp_active t) u' = Some r'" "u \<noteq> u'" for u r u' r'
      using old sub [OF that(1)] sub [OF that(2)] that(3) by blast
  qed
qed

lemma release_writeD:
  assumes "release_write l s = Inr t"
  shows "map_of (wp_active s) (wl_task l) = Some l" "t = s\<lparr>wp_active := AList.delete (wl_task l) (wp_active s)\<rparr>"
  using assms by (simp_all add: release_write_def split: if_splits)

lemma write_step_inv:
  assumes "guard_inv h ps s"
  shows "guard_inv h ps (write_step h c s)"
proof (cases c)
  case (Acquire q)
  then show ?thesis using assms acquire_inv [OF assms] by (auto split: sum.splits)
next
  case (Release l)
  show ?thesis
  proof (cases "release_write l s")
    case (Inr t)
    have "guard_inv h ps t"
      by (rule fewer_leases_inv [OF assms]) (use release_writeD(2) [OF Inr] in \<open>auto split: if_splits\<close>)
    with Inr Release show ?thesis by simp
  qed (use Release assms in simp)
qed

lemma write_run_inv:
  "guard_inv h ps s \<Longrightarrow> guard_inv h ps (fold (write_step h) cs s)"
  by (induction cs arbitrary: s) (auto intro: write_step_inv)

lemma dead_lease_step:
  assumes "map_of (wp_active s) (wl_task l) \<noteq> Some l" "wl_made l < wp_made s"
  shows "map_of (wp_active (write_step h c s)) (wl_task l) \<noteq> Some l \<and> wl_made l < wp_made (write_step h c s)"
proof (cases c)
  case (Acquire q)
  show ?thesis
  proof (cases "acquire_write h q s")
    case (Inr r)
    then obtain t k where r: "acquire_write h q s = Inr (t, k)" by (cases r) simp
    from this have "map_of (wp_active t) (wl_task l) \<noteq> Some l \<and> wl_made l < wp_made t"
      by (rule acquire_writeD) (use assms in auto)
    with r Acquire show ?thesis by simp
  qed (use assms Acquire in simp)
next
  case (Release k)
  show ?thesis
  proof (cases "release_write k s")
    case (Inr t)
    with release_writeD(2) [OF Inr] assms Release show ?thesis by simp
  qed (use assms Release in simp)
qed

lemma dead_lease:
  "map_of (wp_active s) (wl_task l) \<noteq> Some l \<Longrightarrow> wl_made l < wp_made s \<Longrightarrow>
     assert_granted h l p (fold (write_step h) cs s) = Inl StaleOrForgedLease"
proof (induction cs arbitrary: s)
  case (Cons c cs)
  with dead_lease_step [OF Cons.prems, of h c] show ?case by simp
qed (simp add: assert_granted_def)

lemma granted_lease:
  "assert_granted h l p s = Inr () \<Longrightarrow> map_of (wp_active s) (wl_task l) = Some l \<and> p \<in> set (wl_paths l)"
  by (auto simp: assert_granted_def result_simps split: if_splits)

section \<open>Property\<close>

text \<open>
  C31. Whatever leases were taken and given back before, two tasks are never both allowed to write one file, a file and
  a folder above it, or the same name in another case, and an exclusive lease is the only one. A granted path was
  listed, in this spelling, by the trusted partition of the lease and lies outside the control plane. A lease that was
  given back grants nothing any more, also when its task takes the same paths again.
\<close>

theorem granted_writes_disjoint:
  assumes "new_partitions h ps = Inr s0" "s = fold (write_step h) cs s0"
    and "assert_granted h l p s = Inr ()" "assert_granted h r q s = Inr ()"
  shows "(intersects (path_identity p) (path_identity q) \<or> wl_exclusive l \<longrightarrow> l = r)
    \<and> concrete_write_path h p = Inr p \<and> list_all (\<lambda>x. \<not> control_plane_part x) (split_on (CHR ''/'') p)
    \<and> partition_of ps (wl_partition l) p
    \<and> (\<forall>ds t. release_write l s = Inr t \<longrightarrow> assert_granted h l p (fold (write_step h) ds t) = Inl StaleOrForgedLease)"
proof -
  have "guard_inv h ps s" unfolding assms(2) by (rule write_run_inv [OF new_partitions_inv [OF assms(1)]])
  note inv = this [unfolded guard_inv_def]
  from granted_lease [OF assms(3)] granted_lease [OF assms(4)]
  have l: "map_of (wp_active s) (wl_task l) = Some l" "p \<in> set (wl_paths l)"
    and r: "map_of (wp_active s) (wl_task r) = Some r" "q \<in> set (wl_paths r)" by auto
  have same: "l = r" if "intersects (path_identity p) (path_identity q) \<or> wl_exclusive l"
  proof (cases "wl_task l = wl_task r")
    case True
    then show ?thesis using l(1) r(1) by (metis option.inject)
  next
    case False
    then have "apart l r" using inv l(1) r(1) by blast
    with that l(2) r(2) show ?thesis by (auto simp: apart_def)
  qed
  have ok: "concrete_write_path h p = Inr p" "partition_of ps (wl_partition l) p" "wl_made l < wp_made s"
    using inv l unfolding lease_ok_def by blast+
  have "list_all (\<lambda>x. \<not> control_plane_part x) (split_on (CHR ''/'') p)"
    using ok(1) by (auto simp: concrete_write_path_def list_all_iff list_ex_iff split: if_splits)
  moreover have "assert_granted h l p (fold (write_step h) ds t) = Inl StaleOrForgedLease" if "release_write l s = Inr t" for ds t
    using dead_lease [of t l] release_writeD [OF that] ok(3) by simp
  ultimately show ?thesis using same ok by blast
qed

definition write_host :: js_host where
  "write_host = \<lparr>nfc = (\<lambda>s. s), numstr = (\<lambda>n. ''1''), lc = (\<lambda>a b. True), sha256 = (\<lambda>s. []), parse_bytes = (\<lambda>s. None)\<rparr>"

definition partition_example :: "trusted_partition list" where
  "partition_example = [\<lparr>tw_id = ''w'', tw_paths = [''src/a.ts'', ''src/B.ts'']\<rparr>]"

definition request_example :: "string \<Rightarrow> string \<Rightarrow> write_request" where
  "request_example t p = \<lparr>wq_task = t, wq_partition = ''w'', wq_paths = [p], wq_excluded = None, wq_exclusive = None\<rparr>"

definition lease_example :: "string \<Rightarrow> string \<Rightarrow> nat \<Rightarrow> write_lease" where
  "lease_example t p n = \<lparr>wl_task = t, wl_partition = ''w'', wl_paths = [p], wl_exclusive = False, wl_made = n\<rparr>"

definition write_example :: write_partitions where
  "write_example = \<lparr>wp_partitions = [(''w'', [(''src/a.ts'', ''src/a.ts''), (''src/b.ts'', ''src/B.ts'')])],
     wp_active = [(''t'', lease_example ''t'' ''src/a.ts'' 0), (''u'', lease_example ''u'' ''src/B.ts'' 1)], wp_made = 2\<rparr>"

lemma write_example_run:
  "new_partitions write_host partition_example = Inr \<lparr>wp_partitions = wp_partitions write_example, wp_active = [], wp_made = 0\<rparr>"
  "fold (write_step write_host) [Acquire (request_example ''t'' ''src/a.ts''), Acquire (request_example ''v'' ''src/a.ts''),
      Acquire (request_example ''u'' ''src/B.ts''), Acquire (request_example ''x'' ''src/.git/a'')]
     \<lparr>wp_partitions = wp_partitions write_example, wp_active = [], wp_made = 0\<rparr> = write_example"
  by code_simp+

theorem granted_writes_disjoint_witness:
  "assert_granted write_host (lease_example ''t'' ''src/a.ts'' 0) ''src/a.ts'' write_example = Inr ()
    \<and> assert_granted write_host (lease_example ''u'' ''src/B.ts'' 1) ''src/B.ts'' write_example = Inr ()
    \<and> \<not> intersects (path_identity ''src/a.ts'') (path_identity ''src/B.ts'')
    \<and> partition_of partition_example ''w'' ''src/a.ts''"
proof -
  have granted: "assert_granted write_host (lease_example ''t'' ''src/a.ts'' 0) ''src/a.ts'' write_example = Inr ()"
    "assert_granted write_host (lease_example ''u'' ''src/B.ts'' 1) ''src/B.ts'' write_example = Inr ()" by code_simp+
  note facts = granted_writes_disjoint [OF write_example_run(1) write_example_run(2) [symmetric] this]
  have "lease_example ''t'' ''src/a.ts'' 0 \<noteq> lease_example ''u'' ''src/B.ts'' 1" "wl_partition (lease_example ''t'' ''src/a.ts'' 0) = ''w''"
    by (simp_all add: lease_example_def)
  with facts have "\<not> intersects (path_identity ''src/a.ts'') (path_identity ''src/B.ts'')" "partition_of partition_example ''w'' ''src/a.ts''"
    by metis+
  with granted show ?thesis by blast
qed

end
