(* ===== verification/Finding_Validation.thy ===== *)
theory Finding_Validation
  imports Issue_Board Json
begin

text \<open>
  The check of the auditors' findings: \<open>packages/workflow/src/nodes/validate-findings.ts\<close>. The lines of a location
  come from a model and are JavaScript numbers; line counts and byte offsets of the snapshot and of the exposure are
  integers. The repair of a finding and the store of rejections are operations on a world \<open>'w\<close> that may fail with an
  \<open>'e\<close>. The two rates of a summary, rounded quotients of its counts, are left out.
\<close>

section \<open>Data\<close>

record finding_location =
  fl_id :: string
  fl_path :: string
  fl_start :: number
  fl_end :: number

record auditor_finding =
  af_id :: string
  af_severity :: severity
  af_blocker :: bool
  af_locations :: "finding_location list"
  af_evidence :: "evidence list"

record finding_submission =
  fs_auditor :: string
  fs_finding :: auditor_finding
  fs_repairs :: nat

record snapshot_fact =
  sf_lines :: int
  sf_starts :: "int list"
  sf_bytes :: int

type_synonym validation_snapshot = "(string \<times> snapshot_fact) list"

record exposure_range =
  er_path :: "string option"
  er_start :: int
  er_end :: int

record auditor_footprint =
  ft_node :: string
  ft_ranges :: "exposure_range list"

datatype reason_code =
    InvalidRepositoryPath | PathNotInSnapshot | InvalidLineRange | LineOutOfRange | DuplicateLocationId | DuplicateEvidenceId
  | UnknownLocationId | InvalidBlockerSeverity | EvidenceOutsideExposure | AuditorNamespaceMismatch

record validation_reason =
  re_code :: reason_code
  re_pointer :: string
  re_message :: string

record validated_finding =
  vf_finding :: auditor_finding
  vf_auditor :: string
  vf_repaired :: bool

record rejected_finding =
  rf_finding :: auditor_finding
  rf_auditor :: string
  rf_reasons :: "validation_reason list"
  rf_ref :: "string option"

datatype repair_outcome = RepairAccepted | RepairRejected | RepairUnavailable

record repair_record =
  rr_finding :: string
  rr_outcome :: repair_outcome

record auditor_quality =
  aq_total :: nat
  aq_accepted :: nat
  aq_rejected :: nat
  aq_repaired :: nat
  aq_locations :: nat
  aq_evidence :: nat

record validation_result =
  vd_accepted :: "validated_finding list"
  vd_rejected :: "rejected_finding list"
  vd_repairs :: "repair_record list"
  vd_summaries :: "(string \<times> auditor_quality) list"

record ('w, 'e) validation_ports =
  vp_persist :: "rejected_finding \<Rightarrow> 'w \<Rightarrow> 'w \<times> ('e + string)"
  vp_repair :: "(finding_submission \<Rightarrow> validation_reason list \<Rightarrow> 'w \<Rightarrow> 'w \<times> ('e + auditor_finding option)) option"

section \<open>The checks of one finding\<close>

definition ascii_letter :: "char \<Rightarrow> bool" where
  "ascii_letter c \<longleftrightarrow> (let n = of_char c :: nat in 65 \<le> n \<and> n \<le> 90 \<or> 97 \<le> n \<and> n \<le> 122)"

definition repository_path :: "string \<Rightarrow> bool" where
  "repository_path path \<longleftrightarrow> \<not> starts_with ''/'' path \<and> \<not> starts_with [CHR 0x5C] path
     \<and> \<not> (2 \<le> length path \<and> ascii_letter (path ! 0) \<and> path ! 1 = CHR '':'')
     \<and> \<not> contains_text [CHR 0x5C] path
     \<and> list_all (\<lambda>part. part \<noteq> [] \<and> part \<noteq> ''.'' \<and> part \<noteq> ''..'') (split_on (CHR ''/'') path)"

definition sound_lines :: "finding_location \<Rightarrow> bool" where
  "sound_lines l \<longleftrightarrow> safe_integer (fl_start l) \<and> safe_integer (fl_end l) \<and> 1 \<le> int_of_number (fl_start l)
     \<and> int_of_number (fl_start l) \<le> int_of_number (fl_end l)"

definition valid_line_range :: "finding_location \<Rightarrow> snapshot_fact \<Rightarrow> bool" where
  "valid_line_range l file \<longleftrightarrow> sound_lines l \<and> int_of_number (fl_end l) \<le> sf_lines file"

definition at_index :: "int list \<Rightarrow> int \<Rightarrow> int option" where
  "at_index xs i = (if 0 \<le> i \<and> i < int (length xs) then Some (xs ! nat i) else None)"

text \<open>The bytes of the cited lines, from the first up to but not including the last.\<close>

definition cited_bytes :: "finding_location \<Rightarrow> snapshot_fact \<Rightarrow> (int \<times> int) option" where
  "cited_bytes l file =
     (case (at_index (sf_starts file) (int_of_number (fl_start l) - 1),
            if int_of_number (fl_end l) < sf_lines file then at_index (sf_starts file) (int_of_number (fl_end l)) else Some (sf_bytes file)) of
        (Some a, Some b) \<Rightarrow> Some (a, b)
      | _ \<Rightarrow> None)"

fun cover_from :: "int \<Rightarrow> int \<Rightarrow> exposure_range list \<Rightarrow> bool" where
  "cover_from cursor stop [] = False"
| "cover_from cursor stop (r # rs) =
     (if er_end r \<le> cursor \<or> cursor < er_start r then cover_from cursor stop rs
      else if stop \<le> max cursor (er_end r) then True
      else cover_from (max cursor (er_end r)) stop rs)"

definition covered :: "finding_location \<Rightarrow> snapshot_fact \<Rightarrow> exposure_range list \<Rightarrow> bool" where
  "covered l file ranges =
     (case cited_bytes l file of
        None \<Rightarrow> False
      | Some (a, b) \<Rightarrow> cover_from a b (sort_by (on_key (\<le>) er_start) (filter (\<lambda>r. er_path r = Some (fl_path l)) ranges)))"

definition reason :: "reason_code \<Rightarrow> string \<Rightarrow> string \<Rightarrow> validation_reason" where
  "reason c p m = \<lparr>re_code = c, re_pointer = p, re_message = m\<rparr>"

definition location_reasons :: "js_host \<Rightarrow> validation_snapshot \<Rightarrow> string list \<Rightarrow> nat \<Rightarrow> finding_location \<Rightarrow> validation_reason list" where
  "location_reasons h snapshot seen index l =
     (let pointer = ''/locations/'' @ nat_string index in
      (if fl_id l \<in> set seen then [reason DuplicateLocationId (pointer @ ''/id'') (''location id '' @ fl_id l @ '' is duplicated'')] else [])
      @ (if \<not> repository_path (fl_path l)
         then [reason InvalidRepositoryPath (pointer @ ''/path'') ''path is not normalized and repository-relative'']
         else (case map_of snapshot (fl_path l) of
             None \<Rightarrow> [reason PathNotInSnapshot (pointer @ ''/path'') (fl_path l @ '' is absent from the snapshot'')]
           | Some file \<Rightarrow>
               if num_less (num (sf_lines file)) (fl_end l)
               then [reason LineOutOfRange (pointer @ ''/endLine'')
                 (''line '' @ numstr h (fl_end l) @ '' exceeds '' @ numstr h (num (sf_lines file)))] else [])
           @ (if \<not> sound_lines l then [reason InvalidLineRange pointer ''location line range is invalid''] else [])))"

fun locations_reasons :: "js_host \<Rightarrow> validation_snapshot \<Rightarrow> string list \<Rightarrow> nat \<Rightarrow> finding_location list \<Rightarrow> validation_reason list" where
  "locations_reasons h snapshot seen index [] = []"
| "locations_reasons h snapshot seen index (l # ls) =
     location_reasons h snapshot seen index l @ locations_reasons h snapshot (set_add (fl_id l) seen) (Suc index) ls"

definition location_map :: "finding_location list \<Rightarrow> (string \<times> finding_location) list" where
  "location_map ls = fold (\<lambda>l. AList.update (fl_id l) l) ls []"

definition reference_reasons ::
  "string \<Rightarrow> validation_snapshot \<Rightarrow> auditor_footprint option \<Rightarrow> (string \<times> finding_location) list \<Rightarrow> string \<Rightarrow> string \<Rightarrow> validation_reason list" where
  "reference_reasons auditor snapshot footprint locations pointer i =
     (case map_of locations i of
        None \<Rightarrow> [reason UnknownLocationId pointer (''location id '' @ i @ '' does not resolve'')]
      | Some l \<Rightarrow>
          (case map_of snapshot (fl_path l) of
             None \<Rightarrow> []
           | Some file \<Rightarrow>
               if valid_line_range l file \<and> \<not> covered l file (case footprint of None \<Rightarrow> [] | Some f \<Rightarrow> ft_ranges f)
               then [reason EvidenceOutsideExposure pointer (''location '' @ i @ '' lies outside '' @ auditor @ [CHR 0x27] @ ''s exposure footprint'')]
               else []))"

fun evidence_reasons ::
  "string \<Rightarrow> validation_snapshot \<Rightarrow> auditor_footprint option \<Rightarrow> (string \<times> finding_location) list \<Rightarrow> string list \<Rightarrow> nat \<Rightarrow>
     evidence list \<Rightarrow> validation_reason list" where
  "evidence_reasons auditor snapshot footprint locations seen index [] = []"
| "evidence_reasons auditor snapshot footprint locations seen index (e # es) =
     (if ev_id e \<in> set seen
      then [reason DuplicateEvidenceId (''/evidence/'' @ nat_string index @ ''/id'') (''evidence id '' @ ev_id e @ '' is duplicated'')] else [])
     @ concat (map (\<lambda>(k, i). reference_reasons auditor snapshot footprint locations
         (''/evidence/'' @ nat_string index @ ''/locationIds/'' @ nat_string k) i) (zip [0..<length (ev_locations e)] (ev_locations e)))
     @ evidence_reasons auditor snapshot footprint locations (set_add (ev_id e) seen) (Suc index) es"

definition severity_text :: "severity \<Rightarrow> string" where
  "severity_text s = (case s of Critical \<Rightarrow> ''critical'' | High \<Rightarrow> ''high'' | Medium \<Rightarrow> ''medium'' | Low \<Rightarrow> ''low''
     | Informational \<Rightarrow> ''informational'')"

definition validate_one ::
  "js_host \<Rightarrow> string \<Rightarrow> auditor_finding \<Rightarrow> validation_snapshot \<Rightarrow> auditor_footprint option \<Rightarrow> validation_reason list" where
  "validate_one h auditor f snapshot footprint =
     (if \<not> starts_with (auditor @ ''/'') (af_id f)
      then [reason AuditorNamespaceMismatch ''/sourceFindingId'' ''source finding id is not namespaced to its auditor''] else [])
     @ locations_reasons h snapshot [] 0 (af_locations f)
     @ (if af_blocker f \<and> af_severity f \<noteq> Critical \<and> af_severity f \<noteq> High
        then [reason InvalidBlockerSeverity ''/productionBlocker'' (severity_text (af_severity f) @ '' cannot be a production blocker'')] else [])
     @ evidence_reasons auditor snapshot footprint (location_map (af_locations f)) [] 0 (af_evidence f)"

section \<open>The findings of all auditors\<close>

definition location_code :: "reason_code \<Rightarrow> bool" where
  "location_code c \<longleftrightarrow> c \<in> {InvalidRepositoryPath, PathNotInSnapshot, InvalidLineRange, LineOutOfRange, DuplicateLocationId}"

definition evidence_code :: "reason_code \<Rightarrow> bool" where
  "evidence_code c \<longleftrightarrow> c \<in> {DuplicateEvidenceId, UnknownLocationId, EvidenceOutsideExposure}"

definition has_location_failure :: "validation_reason list \<Rightarrow> bool" where
  "has_location_failure rs \<longleftrightarrow> list_ex (\<lambda>r. location_code (re_code r)) rs"

definition has_evidence_failure :: "validation_reason list \<Rightarrow> bool" where
  "has_evidence_failure rs \<longleftrightarrow> list_ex (\<lambda>r. evidence_code (re_code r)) rs"

definition no_quality :: auditor_quality where
  "no_quality = \<lparr>aq_total = 0, aq_accepted = 0, aq_rejected = 0, aq_repaired = 0, aq_locations = 0, aq_evidence = 0\<rparr>"

definition empty_result :: validation_result where
  "empty_result = \<lparr>vd_accepted = [], vd_rejected = [], vd_repairs = [], vd_summaries = []\<rparr>"

text \<open>The repair of a finding: the candidate that is judged, its reasons, whether it was repaired, and the record.\<close>

definition try_repair ::
  "js_host \<Rightarrow> ('w, 'e) validation_ports \<Rightarrow> validation_snapshot \<Rightarrow> auditor_footprint option \<Rightarrow> finding_submission \<Rightarrow> 'w \<Rightarrow>
     'w \<times> ('e + auditor_finding \<times> validation_reason list \<times> bool \<times> repair_record list)" where
  "try_repair h P snapshot footprint x w =
     (let reasons = validate_one h (fs_auditor x) (fs_finding x) snapshot footprint in
      case (if reasons \<noteq> [] \<and> fs_repairs x = 0 then vp_repair P else None) of
        None \<Rightarrow> (w, Inr (fs_finding x, reasons, False, []))
      | Some repair \<Rightarrow>
          (case repair x reasons w of
             (w1, Inl e) \<Rightarrow> (w1, Inl e)
           | (w1, Inr None) \<Rightarrow> (w1, Inr (fs_finding x, reasons, False,
                 [\<lparr>rr_finding = af_id (fs_finding x), rr_outcome = RepairUnavailable\<rparr>]))
           | (w1, Inr (Some f)) \<Rightarrow>
               (let again = validate_one h (fs_auditor x) f snapshot footprint in
                (w1, Inr (f, again, again = [],
                  [\<lparr>rr_finding = af_id (fs_finding x), rr_outcome = (if again = [] then RepairAccepted else RepairRejected)\<rparr>])))))"

definition validate_submission ::
  "js_host \<Rightarrow> ('w, 'e) validation_ports \<Rightarrow> validation_snapshot \<Rightarrow> (string \<times> auditor_footprint) list \<Rightarrow> finding_submission \<Rightarrow>
     'w \<times> validation_result \<Rightarrow> 'w \<times> ('e + validation_result)" where
  "validate_submission h P snapshot footprints x wr =
     (case try_repair h P snapshot (map_of footprints (fs_auditor x)) x (fst wr) of
        (w1, Inl e) \<Rightarrow> (w1, Inl e)
      | (w1, Inr (f, reasons, repaired, repairs)) \<Rightarrow>
          (let r = snd wr; a = fs_auditor x;
               q = (case map_of (vd_summaries r) a of None \<Rightarrow> no_quality | Some q \<Rightarrow> q);
               q1 = q\<lparr>aq_total := aq_total q + 1\<rparr> in
           if reasons = []
           then (w1, Inr (r\<lparr>vd_accepted := vd_accepted r @ [\<lparr>vf_finding = f, vf_auditor = a, vf_repaired = repaired\<rparr>],
               vd_repairs := vd_repairs r @ repairs,
               vd_summaries := AList.update a (q1\<lparr>aq_accepted := aq_accepted q + 1,
                 aq_repaired := aq_repaired q + (if repaired then 1 else 0)\<rparr>) (vd_summaries r)\<rparr>))
           else (case vp_persist P \<lparr>rf_finding = f, rf_auditor = a, rf_reasons = reasons, rf_ref = None\<rparr> w1 of
               (w2, Inl e) \<Rightarrow> (w2, Inl e)
             | (w2, Inr ref) \<Rightarrow> (w2, Inr (r\<lparr>vd_rejected := vd_rejected r
                   @ [\<lparr>rf_finding = f, rf_auditor = a, rf_reasons = reasons, rf_ref = Some ref\<rparr>],
                 vd_repairs := vd_repairs r @ repairs,
                 vd_summaries := AList.update a (q1\<lparr>aq_rejected := aq_rejected q + 1,
                   aq_locations := aq_locations q + (if has_location_failure reasons then 1 else 0),
                   aq_evidence := aq_evidence q + (if has_evidence_failure reasons then 1 else 0)\<rparr>) (vd_summaries r)\<rparr>)))))"

fun validate_all ::
  "js_host \<Rightarrow> ('w, 'e) validation_ports \<Rightarrow> validation_snapshot \<Rightarrow> (string \<times> auditor_footprint) list \<Rightarrow> finding_submission list \<Rightarrow>
     'w \<times> validation_result \<Rightarrow> 'w \<times> ('e + validation_result)" where
  "validate_all h P snapshot footprints [] wr = (fst wr, Inr (snd wr))"
| "validate_all h P snapshot footprints (x # xs) wr =
     (case validate_submission h P snapshot footprints x wr of
        (w, Inl e) \<Rightarrow> (w, Inl e)
      | (w, Inr r) \<Rightarrow> validate_all h P snapshot footprints xs (w, r))"

definition validate_findings ::
  "js_host \<Rightarrow> ('w, 'e) validation_ports \<Rightarrow> finding_submission list \<Rightarrow> validation_snapshot \<Rightarrow> (string \<times> auditor_footprint) list \<Rightarrow>
     'w \<Rightarrow> 'w \<times> ('e + validation_result)" where
  "validate_findings h P findings snapshot footprints w =
     (case validate_all h P snapshot footprints findings (w, empty_result) of
        (w', Inl e) \<Rightarrow> (w', Inl e)
      | (w', Inr r) \<Rightarrow> (w', Inr (r\<lparr>vd_summaries := sort_by (on_key (lc h) fst) (vd_summaries r)\<rparr>)))"

section \<open>Coverage of bytes\<close>

lemma cover_from_sound:
  "cover_from a b rs \<Longrightarrow> a \<le> x \<Longrightarrow> x < b \<Longrightarrow> \<exists>r \<in> set rs. er_start r \<le> x \<and> x < er_end r"
proof (induction a b rs rule: cover_from.induct)
  case (2 a b r rs)
  show ?case
  proof (cases "x < er_end r \<and> er_start r \<le> a \<and> a < er_end r")
    case False
    with 2 show ?thesis by (cases "er_end r \<le> a \<or> a < er_start r"; cases "b \<le> max a (er_end r)") auto
  qed (use 2 in auto)
qed simp

lemma cover_from_complete:
  "sorted_wrt (on_key (\<le>) er_start) rs \<Longrightarrow> a < b \<Longrightarrow>
     (\<And>x. a \<le> x \<Longrightarrow> x < b \<Longrightarrow> \<exists>r \<in> set rs. er_start r \<le> x \<and> x < er_end r) \<Longrightarrow> cover_from a b rs"
proof (induction a b rs rule: cover_from.induct)
  case (1 a b)
  from "1.prems"(3) [of a] "1.prems"(2) show ?case by simp
next
  case (2 a b r rs)
  note sorted = "2.prems"(1) [simplified, unfolded on_key_def]
  consider (before) "er_end r \<le> a" | (beyond) "a < er_start r" | (meets) "er_start r \<le> a" "a < er_end r" by linarith
  then show ?case
  proof cases
    case before
    have "\<exists>q \<in> set rs. er_start q \<le> x \<and> x < er_end q" if "a \<le> x" "x < b" for x
      using "2.prems"(3) [OF that] before that(1) by auto
    with "2.IH"(1) "2.prems"(1,2) before show ?thesis by simp
  next
    case beyond
    obtain q where "q \<in> set (r # rs)" "er_start q \<le> a" using "2.prems"(3) [of a] "2.prems"(2) by auto
    with sorted beyond show ?thesis by auto
  next
    case meets
    show ?thesis
    proof (cases "b \<le> max a (er_end r)")
      case False
      have "\<exists>q \<in> set rs. er_start q \<le> x \<and> x < er_end q" if "max a (er_end r) \<le> x" "x < b" for x
        using "2.prems"(3) [of x] that by auto
      with "2.IH"(2) "2.prems"(1) meets False show ?thesis by simp
    qed (use meets in simp)
  qed
qed

text \<open>The auditor was shown every byte between the two offsets.\<close>

definition shown :: "finding_location \<Rightarrow> exposure_range list \<Rightarrow> int \<Rightarrow> int \<Rightarrow> bool" where
  "shown l ranges a b \<longleftrightarrow> (\<forall>x. a \<le> x \<and> x < b \<longrightarrow>
     (\<exists>r \<in> set ranges. er_path r = Some (fl_path l) \<and> er_start r \<le> x \<and> x < er_end r))"

interpretation byte_offsets: total_preorder "on_key (\<le>) er_start"
  by unfold_locales (auto simp: on_key_def)

lemma covered_shown:
  assumes "cited_bytes l file = Some (a, b)"
  shows "covered l file ranges \<Longrightarrow> shown l ranges a b" and "a < b \<Longrightarrow> shown l ranges a b \<Longrightarrow> covered l file ranges"
proof -
  let ?rs = "sort_by (on_key (\<le>) er_start) (filter (\<lambda>r. er_path r = Some (fl_path l)) ranges)"
  have sorted: "sorted_wrt (on_key (\<le>) er_start) ?rs"
    by (rule byte_offsets.sorted_sort_by)
  show "covered l file ranges \<Longrightarrow> shown l ranges a b"
    using cover_from_sound [of a b ?rs] assms by (fastforce simp: covered_def shown_def)
  show "covered l file ranges" if "a < b" "shown l ranges a b"
    using cover_from_complete [OF sorted that(1)] that(2) assms by (fastforce simp: covered_def shown_def)
qed

section \<open>What an accepted finding satisfies\<close>

definition sound_finding :: "string \<Rightarrow> validation_snapshot \<Rightarrow> auditor_footprint option \<Rightarrow> auditor_finding \<Rightarrow> bool" where
  "sound_finding auditor snapshot footprint f \<longleftrightarrow>
     starts_with (auditor @ ''/'') (af_id f)
     \<and> distinct (map fl_id (af_locations f)) \<and> distinct (map ev_id (af_evidence f))
     \<and> (\<forall>l \<in> set (af_locations f). repository_path (fl_path l)
          \<and> (\<exists>file. map_of snapshot (fl_path l) = Some file \<and> valid_line_range l file))
     \<and> (af_blocker f \<longrightarrow> af_severity f \<in> {Critical, High})
     \<and> (\<forall>e \<in> set (af_evidence f). \<forall>i \<in> set (ev_locations e). \<exists>l \<in> set (af_locations f). fl_id l = i
          \<and> (\<exists>file. map_of snapshot (fl_path l) = Some file
               \<and> covered l file (case footprint of None \<Rightarrow> [] | Some t \<Rightarrow> ft_ranges t)))"

lemma location_reasons_Nil:
  "location_reasons h snapshot seen index l = [] \<longleftrightarrow> fl_id l \<notin> set seen \<and> repository_path (fl_path l)
     \<and> (\<exists>file. map_of snapshot (fl_path l) = Some file \<and> valid_line_range l file)"
proof -
  have "num_less (num k) (fl_end l) \<longleftrightarrow> k < int_of_number (fl_end l)" if "sound_lines l" for k
    using that by (auto simp: sound_lines_def elim!: safe_integerE simp flip: num_def)
  then show ?thesis
    by (auto simp: location_reasons_def Let_def valid_line_range_def split: option.splits)
qed

lemma locations_reasons_Nil:
  "locations_reasons h snapshot seen index ls = [] \<longleftrightarrow> distinct (map fl_id ls) \<and> set (map fl_id ls) \<inter> set seen = {}
     \<and> (\<forall>l \<in> set ls. repository_path (fl_path l) \<and> (\<exists>file. map_of snapshot (fl_path l) = Some file \<and> valid_line_range l file))"
  by (induction ls arbitrary: seen index) (auto simp: location_reasons_Nil)

lemma location_map_lookup:
  assumes "distinct (map fl_id ls)"
  shows "map_of (location_map ls) i = Some l \<longleftrightarrow> l \<in> set ls \<and> fl_id l = i"
proof -
  have "map_of (fold (\<lambda>l. AList.update (fl_id l) l) ls m) i = Some l \<longleftrightarrow>
      l \<in> set ls \<and> fl_id l = i \<or> i \<notin> fl_id ` set ls \<and> map_of m i = Some l" for m
    using assms by (induction ls arbitrary: m) (auto simp: image_iff)
  then show ?thesis by (simp add: location_map_def)
qed

lemma concat_indexed_Nil: "concat (map (\<lambda>(k, i). f k i) (zip [0..<length xs] xs)) = [] \<longleftrightarrow> (\<forall>k < length xs. f k (xs ! k) = [])"
proof -
  have "set (zip [0..<length xs] xs) = (\<lambda>k. (k, xs ! k)) ` {0..<length xs}"
    by (force simp: set_zip)
  then show ?thesis by (auto simp: concat_eq_Nil_conv)
qed

lemma evidence_reasons_Nil:
  "evidence_reasons auditor snapshot footprint locations seen index es = [] \<longleftrightarrow>
     distinct (map ev_id es) \<and> set (map ev_id es) \<inter> set seen = {}
     \<and> (\<forall>e \<in> set es. \<forall>i \<in> set (ev_locations e). reference_reasons auditor snapshot footprint locations [] i = [])"
proof (induction es arbitrary: seen index)
  case (Cons e es)
  have same: "reference_reasons auditor snapshot footprint locations p i = [] \<longleftrightarrow>
      reference_reasons auditor snapshot footprint locations [] i = []" for p i
    by (auto simp: reference_reasons_def split: option.splits)
  show ?case
    unfolding evidence_reasons.simps append_is_Nil_conv concat_indexed_Nil Cons.IH
    unfolding same [of "_ @ _"]
      all_set_conv_all_nth [of "ev_locations e" "\<lambda>i. reference_reasons auditor snapshot footprint locations [] i = []", symmetric]
    by auto
qed simp

lemma validate_one_Nil: "validate_one h auditor f snapshot footprint = [] \<longleftrightarrow> sound_finding auditor snapshot footprint f"
proof (cases "distinct (map fl_id (af_locations f))
    \<and> (\<forall>l \<in> set (af_locations f). repository_path (fl_path l)
          \<and> (\<exists>file. map_of snapshot (fl_path l) = Some file \<and> valid_line_range l file))")
  case True
  then have lookup: "map_of (location_map (af_locations f)) i = Some l \<longleftrightarrow> l \<in> set (af_locations f) \<and> fl_id l = i" for i l
    by (simp add: location_map_lookup)
  let ?ranges = "case footprint of None \<Rightarrow> [] | Some t \<Rightarrow> ft_ranges t"
  have "reference_reasons auditor snapshot footprint (location_map (af_locations f)) [] i = [] \<longleftrightarrow>
      (\<exists>l \<in> set (af_locations f). fl_id l = i \<and> (\<exists>file. map_of snapshot (fl_path l) = Some file \<and> covered l file ?ranges))" for i
  proof (cases "map_of (location_map (af_locations f)) i")
    case None
    have "\<not> (l \<in> set (af_locations f) \<and> fl_id l = i)" for l using lookup [of i l, symmetric] None by simp
    with None show ?thesis by (auto simp: reference_reasons_def)
  next
    case (Some l)
    then have l: "l \<in> set (af_locations f)" "fl_id l = i" using lookup by auto
    have only: "k = l" if "k \<in> set (af_locations f)" "fl_id k = i" for k using lookup [of i k] Some that by simp
    obtain fact where found: "map_of snapshot (fl_path l) = Some fact" "valid_line_range l fact" using True l(1) by blast
    have one: "(\<exists>k \<in> set (af_locations f). fl_id k = i \<and> Q k) \<longleftrightarrow> Q l" for Q using l only by blast
    show ?thesis unfolding one using found by (simp add: reference_reasons_def Some)
  qed
  with True show ?thesis
    by (auto simp: validate_one_def sound_finding_def locations_reasons_Nil evidence_reasons_Nil)
next
  case False
  then show ?thesis unfolding validate_one_def sound_finding_def by (auto simp: locations_reasons_Nil)
qed

section \<open>All findings\<close>

definition result_inv ::
  "js_host \<Rightarrow> validation_snapshot \<Rightarrow> (string \<times> auditor_footprint) list \<Rightarrow> finding_submission list \<Rightarrow> validation_result \<Rightarrow> bool" where
  "result_inv h snapshot footprints xs r \<longleftrightarrow>
     length (vd_accepted r) + length (vd_rejected r) = length xs
     \<and> (\<forall>v \<in> set (vd_accepted r). sound_finding (vf_auditor v) snapshot (map_of footprints (vf_auditor v)) (vf_finding v))
     \<and> (\<forall>x \<in> set (vd_rejected r). rf_reasons x \<noteq> []
          \<and> rf_reasons x = validate_one h (rf_auditor x) (rf_finding x) snapshot (map_of footprints (rf_auditor x))
          \<and> rf_ref x \<noteq> None)"

lemma try_repairD:
  "try_repair h P snapshot footprint x w = (w1, Inr (f, reasons, repaired, repairs)) \<Longrightarrow>
     reasons = validate_one h (fs_auditor x) f snapshot footprint"
  by (auto simp: try_repair_def Let_def split: option.splits prod.splits sum.splits)

lemma validate_submission_inv:
  assumes "validate_submission h P snapshot footprints x (w, r) = (w', Inr r')" "result_inv h snapshot footprints xs r"
  shows "result_inv h snapshot footprints (xs @ [x]) r'"
proof -
  obtain w1 y where step: "try_repair h P snapshot (map_of footprints (fs_auditor x)) x w = (w1, y)" by fastforce
  with assms(1) obtain f reasons repaired repairs where y: "y = Inr (f, reasons, repaired, repairs)"
    by (cases y) (auto simp: validate_submission_def)
  note reasons = try_repairD [OF step [unfolded y]]
  show ?thesis
  proof (cases "reasons = []")
    case True
    with reasons have "sound_finding (fs_auditor x) snapshot (map_of footprints (fs_auditor x)) f" using validate_one_Nil by metis
    with assms True show ?thesis by (auto simp: validate_submission_def step y result_inv_def Let_def)
  next
    case False
    with assms reasons show ?thesis
      by (auto simp: validate_submission_def step y result_inv_def Let_def split: prod.splits sum.splits)
  qed
qed

lemma validate_all_inv:
  "validate_all h P snapshot footprints ys (w, r) = (w', Inr r') \<Longrightarrow> result_inv h snapshot footprints xs r \<Longrightarrow>
     result_inv h snapshot footprints (xs @ ys) r'"
proof (induction ys arbitrary: w r xs)
  case (Cons y ys)
  from Cons.prems(1) obtain w1 r1 where step: "validate_submission h P snapshot footprints y (w, r) = (w1, Inr r1)"
    "validate_all h P snapshot footprints ys (w1, r1) = (w', Inr r')"
    by (auto split: prod.splits sum.splits)
  from Cons.IH [OF step(2) validate_submission_inv [OF step(1) Cons.prems(2)]] show ?case by simp
qed simp

text \<open>
  C32. What passes the check is grounded in the snapshot and in what its auditor was shown. Every submission is either
  accepted or rejected with stored reasons that are exactly what the check finds. An accepted finding belongs to its
  auditor's namespace, each of its locations is a repository-relative path of the snapshot with existing lines, it is
  no production blocker below high severity, and each piece of its evidence cites locations of the finding whose every
  byte lies in a range of that file the auditor was shown; a finding that was repaired is held to the same.
\<close>

theorem accepted_findings_grounded:
  assumes "validate_findings h P findings snapshot footprints w = (w', Inr r)"
  shows "length (vd_accepted r) + length (vd_rejected r) = length findings
    \<and> (\<forall>x \<in> set (vd_rejected r). rf_ref x \<noteq> None \<and> rf_reasons x \<noteq> []
         \<and> rf_reasons x = validate_one h (rf_auditor x) (rf_finding x) snapshot (map_of footprints (rf_auditor x)))
    \<and> (\<forall>v \<in> set (vd_accepted r). starts_with (vf_auditor v @ ''/'') (af_id (vf_finding v))
         \<and> (af_blocker (vf_finding v) \<longrightarrow> af_severity (vf_finding v) \<in> {Critical, High})
         \<and> (\<forall>l \<in> set (af_locations (vf_finding v)). repository_path (fl_path l)
              \<and> (\<exists>fact. map_of snapshot (fl_path l) = Some fact \<and> valid_line_range l fact))
         \<and> (\<forall>e \<in> set (af_evidence (vf_finding v)). \<forall>i \<in> set (ev_locations e).
              \<exists>l \<in> set (af_locations (vf_finding v)). fl_id l = i
                \<and> (\<exists>fact t a b. map_of snapshot (fl_path l) = Some fact \<and> map_of footprints (vf_auditor v) = Some t
                     \<and> cited_bytes l fact = Some (a, b) \<and> shown l (ft_ranges t) a b)))"
proof -
  from assms obtain w1 r1 where r1: "validate_all h P snapshot footprints findings (w, empty_result) = (w1, Inr r1)"
    "r = r1\<lparr>vd_summaries := sort_by (on_key (lc h) fst) (vd_summaries r1)\<rparr>"
    by (auto simp: validate_findings_def split: prod.splits sum.splits)
  have start: "result_inv h snapshot footprints [] empty_result" by (simp add: result_inv_def empty_result_def)
  have parts: "vd_accepted r = vd_accepted r1" "vd_rejected r = vd_rejected r1" by (simp_all add: r1(2))
  from validate_all_inv [OF r1(1) start] have inv: "result_inv h snapshot footprints findings r"
    unfolding result_inv_def parts append_Nil .
  have bytes: "\<exists>t a b. footprint = Some t \<and> cited_bytes l fact = Some (a, b) \<and> shown l (ft_ranges t) a b"
    if c: "covered l fact (case footprint of None \<Rightarrow> [] | Some t \<Rightarrow> ft_ranges t)" for l fact footprint
  proof (cases "cited_bytes l fact")
    case None
    with c show ?thesis by (simp add: covered_def)
  next
    case (Some ab)
    then obtain a b where ab: "cited_bytes l fact = Some (a, b)" by (cases ab) simp
    obtain t where t: "footprint = Some t" using c ab by (cases footprint) (simp_all add: covered_def)
    from covered_shown(1) [OF ab c] t ab show ?thesis by simp
  qed
  have sound: "sound_finding (vf_auditor v) snapshot (map_of footprints (vf_auditor v)) (vf_finding v)" if "v \<in> set (vd_accepted r)" for v
    using inv that unfolding result_inv_def by blast
  show ?thesis
  proof (intro conjI ballI)
    show "length (vd_accepted r) + length (vd_rejected r) = length findings" using inv unfolding result_inv_def by blast
    show "rf_ref x \<noteq> None" "rf_reasons x \<noteq> []"
      "rf_reasons x = validate_one h (rf_auditor x) (rf_finding x) snapshot (map_of footprints (rf_auditor x))"
      if "x \<in> set (vd_rejected r)" for x using inv that unfolding result_inv_def by blast+
    fix v assume v: "v \<in> set (vd_accepted r)"
    note S = sound [OF v, unfolded sound_finding_def]
    show "starts_with (vf_auditor v @ ''/'') (af_id (vf_finding v))" using S by blast
    show "af_blocker (vf_finding v) \<longrightarrow> af_severity (vf_finding v) \<in> {Critical, High}" using S by blast
    show "repository_path (fl_path l)" "\<exists>fact. map_of snapshot (fl_path l) = Some fact \<and> valid_line_range l fact"
      if "l \<in> set (af_locations (vf_finding v))" for l using S that by blast+
    show "\<exists>l \<in> set (af_locations (vf_finding v)). fl_id l = i
        \<and> (\<exists>fact t a b. map_of snapshot (fl_path l) = Some fact \<and> map_of footprints (vf_auditor v) = Some t
             \<and> cited_bytes l fact = Some (a, b) \<and> shown l (ft_ranges t) a b)"
      if "e \<in> set (af_evidence (vf_finding v))" "i \<in> set (ev_locations e)" for e i
    proof -
      from S that obtain l fact where l: "l \<in> set (af_locations (vf_finding v))" "fl_id l = i" "map_of snapshot (fl_path l) = Some fact"
        "covered l fact (case map_of footprints (vf_auditor v) of None \<Rightarrow> [] | Some t \<Rightarrow> ft_ranges t)" by blast
      from bytes [OF l(4)] l(1-3) show ?thesis by blast
    qed
  qed
qed

definition location_example :: "number \<Rightarrow> finding_location" where
  "location_example stop = \<lparr>fl_id = ''l'', fl_path = ''src/a.ts'', fl_start = num 2, fl_end = stop\<rparr>"

definition finding_example :: "number \<Rightarrow> auditor_finding" where
  "finding_example stop = \<lparr>af_id = ''a/1'', af_severity = High, af_blocker = True, af_locations = [location_example stop],
     af_evidence = [\<lparr>ev_id = ''e'', ev_text = ''t'', ev_locations = [''l'']\<rparr>]\<rparr>"

definition submission_example :: "number \<Rightarrow> finding_submission" where
  "submission_example stop = \<lparr>fs_auditor = ''a'', fs_finding = finding_example stop, fs_repairs = 1\<rparr>"

definition snapshot_example :: validation_snapshot where
  "snapshot_example = [(''src/a.ts'', \<lparr>sf_lines = 3, sf_starts = [0, 10, 20], sf_bytes = 30\<rparr>)]"

definition footprint_example :: "(string \<times> auditor_footprint) list" where
  "footprint_example = [(''a'', \<lparr>ft_node = ''a'', ft_ranges = [\<lparr>er_path = Some ''src/a.ts'', er_start = 15, er_end = 20\<rparr>,
     \<lparr>er_path = Some ''src/a.ts'', er_start = 5, er_end = 16\<rparr>]\<rparr>)]"

definition counting_ports :: "(nat, unit) validation_ports" where
  "counting_ports = \<lparr>vp_persist = (\<lambda>x n. (n + 1, Inr (nat_string n))), vp_repair = None\<rparr>"

definition finding_host :: js_host where
  "finding_host = \<lparr>nfc = (\<lambda>s. s), numstr = (\<lambda>n. ''1''), lc = (\<lambda>a b. True), sha256 = (\<lambda>s. []), parse_bytes = (\<lambda>s. None)\<rparr>"

theorem accepted_findings_grounded_witness:
  "\<exists>r. validate_findings finding_host counting_ports [submission_example (num 2), submission_example (num 3)] snapshot_example footprint_example 0
      = (1, Inr r)
    \<and> map re_code (concat (map rf_reasons (vd_rejected r))) = [EvidenceOutsideExposure]
    \<and> length (vd_accepted r) = 1 \<and> length (vd_rejected r) = 1"
proof -
  have "case validate_findings finding_host counting_ports [submission_example (num 2), submission_example (num 3)] snapshot_example footprint_example 0
     of (w, Inl e) \<Rightarrow> False | (w, Inr r) \<Rightarrow> w = 1 \<and> map re_code (concat (map rf_reasons (vd_rejected r))) = [EvidenceOutsideExposure]
       \<and> length (vd_rejected r) = 1" by code_simp
  moreover obtain w y where y: "validate_findings finding_host counting_ports [submission_example (num 2), submission_example (num 3)]
      snapshot_example footprint_example 0 = (w, y)" by (rule prod.exhaust)
  ultimately obtain r where "w = 1" "y = Inr r" and r1: "map re_code (concat (map rf_reasons (vd_rejected r))) = [EvidenceOutsideExposure]"
      "length (vd_rejected r) = 1" unfolding y prod.case by (cases y) simp_all
  note r = y [unfolded this(1,2)] r1
  have one: "length (vd_accepted r) = 1" using conjunct1 [OF accepted_findings_grounded [OF r(1)]] r(3) by simp
  show ?thesis by (intro exI [of _ r] conjI) (fact r one)+
qed

end
