(* ===== verification/Task_Order.thy ===== *)
theory Task_Order
  imports Prelude
begin

text \<open>
  The order of the tasks of a plan, as \<open>packages/workflow/src/nodes/planner/traceability.ts\<close> keeps it: a map from each
  task to the tasks that wait for it, the search for the tasks that come after one, and the count of Kahn's algorithm
  that finds a cycle. A stack is written with its top first, so pushing several elements pushes them reversed.
\<close>

section \<open>Edges\<close>

type_synonym task_edges = "(string \<times> string list) list"

definition next_tasks :: "task_edges \<Rightarrow> string \<Rightarrow> string list" where
  "next_tasks e k = (case map_of e k of None \<Rightarrow> [] | Some ns \<Rightarrow> ns)"

definition no_task_edges :: "string list \<Rightarrow> task_edges" where
  "no_task_edges ids = fold (\<lambda>k. AList.update k []) ids []"

text \<open>\<open>edges.get(from)?.add(to)\<close>\<close>

definition add_edge :: "string \<Rightarrow> string \<Rightarrow> task_edges \<Rightarrow> task_edges" where
  "add_edge a b e = (case map_of e a of None \<Rightarrow> e | Some ns \<Rightarrow> AList.update a (set_add b ns) e)"

definition order_rel :: "task_edges \<Rightarrow> (string \<times> string) set" where
  "order_rel e = {(a, b). b \<in> set (next_tasks e a)}"

text \<open>Both ends of every edge are tasks, and every list of successors is a set.\<close>

definition edges_ok :: "string set \<Rightarrow> task_edges \<Rightarrow> bool" where
  "edges_ok K e \<longleftrightarrow> distinct (map fst e) \<and> fst ` set e = K \<and> order_rel e \<subseteq> K \<times> K \<and> (\<forall>a. distinct (next_tasks e a))"

lemma next_tasks_add: "map_of e a \<noteq> None \<Longrightarrow> next_tasks (add_edge a b e) x = (if x = a then set_add b (next_tasks e a) else next_tasks e x)"
  by (auto simp: next_tasks_def add_edge_def)

lemma order_rel_add: "map_of e a \<noteq> None \<Longrightarrow> order_rel (add_edge a b e) = insert (a, b) (order_rel e)"
  by (auto simp: order_rel_def next_tasks_add split: if_splits)

lemma keys_no_task_edges: "fst ` set (no_task_edges ids) = set ids" "distinct (map fst (no_task_edges ids))"
proof -
  have "fst ` set (fold (\<lambda>k. AList.update k []) ids m) = set ids \<union> fst ` set m" for m :: task_edges
    by (induction ids arbitrary: m) auto
  then show "fst ` set (no_task_edges ids) = set ids" by (simp add: no_task_edges_def)
  have "distinct (map fst (fold (\<lambda>k. AList.update k []) ids m))" if "distinct (map fst m)" for m :: task_edges
    using that by (induction ids arbitrary: m) auto
  then show "distinct (map fst (no_task_edges ids))" by (simp add: no_task_edges_def)
qed

lemma next_no_task_edges [simp]: "next_tasks (no_task_edges ids) x = []"
proof -
  have "map_of (fold (\<lambda>k. AList.update k []) ids m) x \<in> {None, Some []}" if "map_of m x \<in> {None, Some []}" for m :: task_edges
    using that by (induction ids arbitrary: m) auto
  from this [of "[]"] show ?thesis by (auto simp: next_tasks_def no_task_edges_def)
qed

lemma no_task_edges_ok: "edges_ok (set ids) (no_task_edges ids)"
  by (simp add: edges_ok_def keys_no_task_edges order_rel_def)

lemma key_iff: "edges_ok K e \<Longrightarrow> map_of e a \<noteq> None \<longleftrightarrow> a \<in> K"
  unfolding edges_ok_def by (metis map_of_eq_None_iff)

lemma add_edge_ok:
  assumes "edges_ok K e" "a \<in> K" "b \<in> K"
  shows "edges_ok K (add_edge a b e)" "order_rel (add_edge a b e) = insert (a, b) (order_rel e)"
proof -
  from assms key_iff have a: "map_of e a \<noteq> None" by blast
  show rel: "order_rel (add_edge a b e) = insert (a, b) (order_rel e)" by (rule order_rel_add [OF a])
  have "distinct (map fst (add_edge a b e)) \<and> fst ` set (add_edge a b e) = K"
    using assms unfolding edges_ok_def add_edge_def by (auto split: option.splits)
  moreover have "distinct (next_tasks (add_edge a b e) x)" for x
    using assms(1) unfolding next_tasks_add [OF a] edges_ok_def by simp
  ultimately show "edges_ok K (add_edge a b e)" using assms rel unfolding edges_ok_def by auto
qed

section \<open>The tasks after a task\<close>

definition all_next :: "task_edges \<Rightarrow> string set" where
  "all_next e = (\<Union>(a, ns) \<in> set e. set ns)"

lemma next_in_all: "set (next_tasks e a) \<subseteq> all_next e"
proof (cases "map_of e a")
  case (Some ns)
  from map_of_SomeD [OF this] Some show ?thesis unfolding next_tasks_def all_next_def by force
qed (simp add: next_tasks_def)

lemma finite_all_next [simp]: "finite (all_next e)"
  unfolding all_next_def by auto

lemma search_measure:
  assumes "n \<notin> set found"
  shows "card ((all_next e \<union> set (rev (next_tasks e n) @ stack)) - set (set_add n found))
    < card ((all_next e \<union> set (n # stack)) - set found)"
proof (rule psubset_card_mono)
  show "(all_next e \<union> set (rev (next_tasks e n) @ stack)) - set (set_add n found) \<subset> (all_next e \<union> set (n # stack)) - set found"
    using assms next_in_all [of e n] by auto
qed simp

function (sequential) search_tasks :: "task_edges \<Rightarrow> string list \<Rightarrow> string list \<Rightarrow> string list" where
  "search_tasks e [] found = found"
| "search_tasks e (n # stack) found =
     (if n \<in> set found then search_tasks e stack found
      else search_tasks e (rev (next_tasks e n) @ stack) (set_add n found))"
  by pat_completeness auto

termination
proof (relation "(\<lambda>(e, stack, found). card ((all_next e \<union> set stack) - set found)) <*mlex*> measure (\<lambda>(e, stack, found). length stack)", goal_cases)
  case 1
  show ?case by (intro wf_mlex wf_measure)
next
  case (2 e n stack found)
  then have "(all_next e \<union> set (n # stack)) - set found = (all_next e \<union> set stack) - set found" by auto
  then show ?case by (simp add: mlex_prod_def)
next
  case (3 e n stack found)
  from search_measure [OF 3, of e stack] show ?case by (simp add: mlex_prod_def)
qed

definition reachable_tasks :: "task_edges \<Rightarrow> string \<Rightarrow> string list" where
  "reachable_tasks e k = search_tasks e (rev (next_tasks e k)) []"

function (sequential) search_for :: "task_edges \<Rightarrow> string \<Rightarrow> string list \<Rightarrow> string list \<Rightarrow> bool" where
  "search_for e target [] found = False"
| "search_for e target (n # stack) found =
     (if n = target then True
      else if n \<in> set found then search_for e target stack found
      else search_for e target (rev (next_tasks e n) @ stack) (set_add n found))"
  by pat_completeness auto
termination
proof (relation "(\<lambda>(e, target, stack, found). card ((all_next e \<union> set stack) - set found))
    <*mlex*> measure (\<lambda>(e, target, stack, found). length stack)", goal_cases)
  case 1
  show ?case by (intro wf_mlex wf_measure)
next
  case (2 e target n stack found)
  then have "(all_next e \<union> set (n # stack)) - set found = (all_next e \<union> set stack) - set found" by auto
  then show ?case by (simp add: mlex_prod_def)
next
  case (3 e target n stack found)
  from search_measure [OF 3(2), of e stack] show ?case by (simp add: mlex_prod_def)
qed

definition task_reaches :: "task_edges \<Rightarrow> string \<Rightarrow> string \<Rightarrow> bool" where
  "task_reaches e a b = search_for e b (rev (next_tasks e a)) []"

lemma search_grows: "set found \<union> set stack \<subseteq> set (search_tasks e stack found)"
  by (induction e stack found rule: search_tasks.induct) auto

lemma search_closed:
  assumes "\<And>a b. a \<in> set found \<Longrightarrow> (a, b) \<in> order_rel e \<Longrightarrow> b \<in> set found \<union> set stack"
  shows "a \<in> set (search_tasks e stack found) \<Longrightarrow> (a, b) \<in> order_rel e \<Longrightarrow> b \<in> set (search_tasks e stack found)"
  using assms
proof (induction e stack found arbitrary: a b rule: search_tasks.induct)
  case (2 e n stack found)
  show ?case
  proof (cases "n \<in> set found")
    case True
    have "b \<in> set found \<union> set stack" if "a \<in> set found" "(a, b) \<in> order_rel e" for a b using "2.prems"(3) [OF that] True by auto
    with "2.IH"(1) [OF True] "2.prems"(1,2) True show ?thesis by simp
  next
    case False
    have "b \<in> set (set_add n found) \<union> set (rev (next_tasks e n) @ stack)"
      if "a \<in> set (set_add n found)" "(a, b) \<in> order_rel e" for a b
      using that "2.prems"(3) [of a b] by (auto simp: order_rel_def)
    with "2.IH"(2) [OF False] "2.prems"(1,2) False show ?thesis by simp
  qed
qed simp

lemma search_sound:
  "x \<in> set (search_tasks e stack found) \<Longrightarrow> x \<in> set found \<or> (\<exists>s \<in> set stack. (s, x) \<in> (order_rel e)\<^sup>*)"
proof (induction e stack found rule: search_tasks.induct)
  case (2 e n stack found)
  show ?case
  proof (cases "n \<in> set found")
    case False
    with "2.IH"(2) [OF False] "2.prems" consider "x = n" | "x \<in> set found" | s where "s \<in> set (next_tasks e n)" "(s, x) \<in> (order_rel e)\<^sup>*"
      | s where "s \<in> set stack" "(s, x) \<in> (order_rel e)\<^sup>*" by auto
    then show ?thesis
    proof cases
      case 3
      then have "(n, x) \<in> (order_rel e)\<^sup>*" by (auto simp: order_rel_def intro: converse_rtrancl_into_rtrancl)
      then show ?thesis by auto
    qed auto
  qed (use 2 in auto)
qed simp

text \<open>The search finds exactly the tasks that come after the first.\<close>

lemma reachable_tasks: "x \<in> set (reachable_tasks e k) \<longleftrightarrow> (k, x) \<in> (order_rel e)\<^sup>+"
proof
  assume "x \<in> set (reachable_tasks e k)"
  then obtain s where "s \<in> set (next_tasks e k)" "(s, x) \<in> (order_rel e)\<^sup>*"
    unfolding reachable_tasks_def by (auto dest: search_sound)
  then show "(k, x) \<in> (order_rel e)\<^sup>+" by (auto simp: order_rel_def intro: rtrancl_into_trancl2)
next
  assume "(k, x) \<in> (order_rel e)\<^sup>+"
  then show "x \<in> set (reachable_tasks e k)"
  proof induction
    case (base y)
    then show ?case using search_grows [of "[]" "rev (next_tasks e k)" e] by (auto simp: reachable_tasks_def order_rel_def)
  next
    case (step y z)
    then show ?case using search_closed [of "[]" e "rev (next_tasks e k)" y z] by (simp add: reachable_tasks_def)
  qed
qed

lemma search_for: "target \<notin> set found \<Longrightarrow> search_for e target stack found \<longleftrightarrow> target \<in> set (search_tasks e stack found)"
proof (induction e target stack found rule: search_for.induct)
  case (2 e target n stack found)
  then show ?case using search_grows [of "set_add n found" "rev (next_tasks e n) @ stack" e] by auto
qed simp

lemma task_reaches: "task_reaches e a b \<longleftrightarrow> (a, b) \<in> (order_rel e)\<^sup>+"
  using search_for [of b "[]" e] reachable_tasks [of b e a] by (simp add: task_reaches_def reachable_tasks_def)

section \<open>The count that finds a cycle\<close>

definition degree_of :: "(string \<times> int) list \<Rightarrow> string \<Rightarrow> int" where
  "degree_of ds k = (case map_of ds k of None \<Rightarrow> 0 | Some d \<Rightarrow> d)"

text \<open>\<open>degrees\<close>: for every task, how many tasks it waits for.\<close>

definition degrees :: "task_edges \<Rightarrow> (string \<times> int) list" where
  "degrees e = fold (\<lambda>(a, ns). fold (\<lambda>n ds. AList.update n (degree_of ds n + 1) ds) ns) e (map (\<lambda>(k, ns). (k, 0)) e)"

definition release_task :: "string \<Rightarrow> (string \<times> int) list \<times> string list \<Rightarrow> (string \<times> int) list \<times> string list" where
  "release_task n dq = (let d = degree_of (fst dq) n - 1 in
     (AList.update n d (fst dq), if d = 0 then snd dq @ [n] else snd dq))"

definition pending_degrees :: "(string \<times> int) list \<Rightarrow> nat" where
  "pending_degrees ds = length (filter (\<lambda>(k, d). 0 < d) ds)"

lemma pending_update:
  "pending_degrees (AList.update n (degree_of ds n - 1) ds) + (if degree_of ds n = 1 then 1 else 0) = pending_degrees ds"
proof (induction ds)
  case (Cons x ds)
  show ?case
  proof (cases "n = fst x")
    case False
    then have "degree_of (x # ds) n = degree_of ds n" by (simp add: degree_of_def split: prod.splits)
    with False Cons show ?thesis by (cases x) (auto simp: pending_degrees_def)
  qed (cases x; auto simp: pending_degrees_def degree_of_def)
qed (simp add: pending_degrees_def degree_of_def)

lemma release_measure: "pending_degrees (fst (fold release_task ns dq)) + length (snd (fold release_task ns dq))
    = pending_degrees (fst dq) + length (snd dq)"
proof (induction ns arbitrary: dq)
  case (Cons n ns)
  have "pending_degrees (fst (release_task n dq)) + length (snd (release_task n dq)) = pending_degrees (fst dq) + length (snd dq)"
    using pending_update [of n "fst dq"] by (auto simp: release_task_def Let_def)
  with Cons.IH [of "release_task n dq"] show ?case by simp
qed simp

text \<open>The tasks in the order in which they become ready: the source counts them.\<close>

function (sequential) visit_ready :: "task_edges \<Rightarrow> (string \<times> int) list \<Rightarrow> string list \<Rightarrow> string list" where
  "visit_ready e ds [] = []"
| "visit_ready e ds (k # ready) =
     (let (ds', ready') = fold release_task (next_tasks e k) (ds, ready) in k # visit_ready e ds' ready')"
  by pat_completeness auto
termination
proof (relation "measure (\<lambda>(e, ds, ready). pending_degrees ds + length ready)", goal_cases)
  case (2 e ds k ready x ds' ready')
  with release_measure [of "next_tasks e k" "(ds, ready)"] show ?case by (simp add: case_prod_beta)
qed simp

definition ready_order :: "task_edges \<Rightarrow> string list" where
  "ready_order e = visit_ready e (degrees e) (map fst (filter (\<lambda>(k, d). d = 0) (degrees e)))"

lemma fold_degrees:
  "distinct ns \<Longrightarrow> map_of (fold (\<lambda>n ds. AList.update n (degree_of ds n + 1) ds) ns ds) x =
     (if x \<in> set ns then Some (degree_of ds x + 1) else map_of ds x)"
proof (induction ns arbitrary: ds)
  case (Cons n ns)
  then show ?case by (auto simp: degree_of_def)
qed simp

lemma fold_degrees_keys:
  "set ns \<subseteq> fst ` set ds \<Longrightarrow> map fst (fold (\<lambda>n ds. AList.update n (degree_of ds n + 1) ds) ns ds) = map fst ds"
proof (induction ns arbitrary: ds)
  case (Cons n ns)
  then have keys: "map fst (AList.update n (degree_of ds n + 1) ds) = map fst ds" by (simp add: map_fst_update_in)
  then have "fst ` set (AList.update n (degree_of ds n + 1) ds) = fst ` set ds" by (metis set_map)
  with Cons.IH [of "AList.update n (degree_of ds n + 1) ds"] Cons.prems keys show ?case by simp
qed simp

lemma fold_all_degrees:
  assumes "\<forall>(a, ns) \<in> set es. distinct ns \<and> set ns \<subseteq> fst ` set ds" "map_of ds x = Some d"
  shows "map_of (fold (\<lambda>(a, ns). fold (\<lambda>n ds. AList.update n (degree_of ds n + 1) ds) ns) es ds) x
      = Some (d + int (length (filter (\<lambda>(a, ns). x \<in> set ns) es)))
    \<and> map fst (fold (\<lambda>(a, ns). fold (\<lambda>n ds. AList.update n (degree_of ds n + 1) ds) ns) es ds) = map fst ds"
  using assms
proof (induction es arbitrary: ds d)
  case (Cons y es)
  obtain a ns where y: "y = (a, ns)" by fastforce
  let ?ds = "fold (\<lambda>n ds. AList.update n (degree_of ds n + 1) ds) ns ds"
  from Cons.prems(1) y have ns: "distinct ns" "set ns \<subseteq> fst ` set ds" by auto
  note keys = fold_degrees_keys [OF ns(2)]
  then have "fst ` set ?ds = fst ` set ds" by (metis set_map)
  with Cons.prems(1) have ok: "\<forall>(a, ns) \<in> set es. distinct ns \<and> set ns \<subseteq> fst ` set ?ds" by auto
  have "map_of ?ds x = Some (if x \<in> set ns then d + 1 else d)"
    using Cons.prems(2) unfolding fold_degrees [OF ns(1)] by (simp add: degree_of_def)
  from Cons.IH [OF ok this] keys show ?case by (simp add: y)
qed simp

text \<open>The tasks a task still waits for when those of \<open>done\<close> have been visited.\<close>

definition waits_for :: "task_edges \<Rightarrow> string list \<Rightarrow> string \<Rightarrow> string set" where
  "waits_for e visited x = {a. (a, x) \<in> order_rel e} - set visited"

lemma finite_waits: "edges_ok K e \<Longrightarrow> finite (waits_for e visited x)"
proof -
  assume ok: "edges_ok K e"
  have "waits_for e visited x \<subseteq> fst ` set e" using ok unfolding edges_ok_def waits_for_def by blast
  then show ?thesis by (rule finite_subset) simp
qed

lemma degrees_count:
  assumes "edges_ok K e" "x \<in> K"
  shows "map_of (degrees e) x = Some (int (card (waits_for e [] x)))" "map fst (degrees e) = map fst e"
proof -
  from assms(1) have d: "distinct (map fst e)" and K: "fst ` set e = K" and rel: "order_rel e \<subseteq> K \<times> K" and dn: "\<And>a. distinct (next_tasks e a)"
    unfolding edges_ok_def by auto
  have nxt: "next_tasks e a = ns" if "(a, ns) \<in> set e" for a ns using that d by (simp add: next_tasks_def)
  have ok: "\<forall>(a, ns) \<in> set e. distinct ns \<and> set ns \<subseteq> fst ` set (map (\<lambda>(k, ns). (k, 0)) e)"
  proof clarify
    fix a ns assume "(a, ns) \<in> set e"
    from nxt [OF this] dn [of a] rel K show "distinct ns \<and> set ns \<subseteq> fst ` set (map (\<lambda>(k, ns). (k, 0)) e)"
      by (auto simp: order_rel_def image_image case_prod_beta)
  qed
  have keys: "map fst (map (\<lambda>(k, ns). (k, 0::int)) e) = map fst e" by (induction e) auto
  have "map_of (map (\<lambda>(k, ns). (k, 0::int)) e) x = Some 0" using assms(2) unfolding K [symmetric] by (induction e) auto
  from fold_all_degrees [OF ok this] have
    "map_of (degrees e) x = Some (int (length (filter (\<lambda>(a, ns). x \<in> set ns) e)))" "map fst (degrees e) = map fst e"
    using keys by (simp_all add: degrees_def)
  moreover have "length (filter (\<lambda>(a, ns). x \<in> set ns) e) = card (waits_for e [] x)"
  proof -
    have "waits_for e [] x = set (map fst (filter (\<lambda>(a, ns). x \<in> set ns) e))"
    proof (intro equalityI subsetI)
      fix a assume "a \<in> waits_for e [] x"
      then have x: "x \<in> set (next_tasks e a)" by (simp add: waits_for_def order_rel_def)
      then obtain ns where "map_of e a = Some ns" "x \<in> set ns" by (cases "map_of e a") (simp_all add: next_tasks_def)
      with map_of_SomeD [of e a ns] have "(a, ns) \<in> set (filter (\<lambda>(a, ns). x \<in> set ns) e)" by simp
      from imageI [OF this, of fst] show "a \<in> set (map fst (filter (\<lambda>(a, ns). x \<in> set ns) e))" by simp
    next
      fix a assume "a \<in> set (map fst (filter (\<lambda>(a, ns). x \<in> set ns) e))"
      then obtain ns where "(a, ns) \<in> set e" "x \<in> set ns" by auto
      with nxt show "a \<in> waits_for e [] x" by (simp add: waits_for_def order_rel_def)
    qed
    moreover have "distinct (map fst (filter (\<lambda>(a, ns). x \<in> set ns) e))" using d by (rule distinct_map_filter)
    ultimately show ?thesis using distinct_card by fastforce
  qed
  ultimately show "map_of (degrees e) x = Some (int (card (waits_for e [] x)))" "map fst (degrees e) = map fst e" by simp_all
qed

lemma fold_release:
  "distinct ns \<Longrightarrow> (\<forall>x. map_of (fst (fold release_task ns dq)) x = (if x \<in> set ns then Some (degree_of (fst dq) x - 1) else map_of (fst dq) x))
    \<and> snd (fold release_task ns dq) = snd dq @ filter (\<lambda>n. degree_of (fst dq) n = 1) ns"
proof (induction ns arbitrary: dq)
  case (Cons n ns)
  then have "filter (\<lambda>m. degree_of (fst (release_task n dq)) m = 1) ns = filter (\<lambda>m. degree_of (fst dq) m = 1) ns"
    by (intro filter_cong) (auto simp: release_task_def Let_def degree_of_def)
  with Cons.IH [of "release_task n dq"] Cons.prems show ?case
    by (auto simp: release_task_def Let_def degree_of_def)
qed simp

text \<open>
  While the queue is worked off: degrees count what a task still waits for, a task is queued or visited exactly when it
  waits for nothing, and every task comes after those it waits for.
\<close>

definition kahn_inv :: "string set \<Rightarrow> task_edges \<Rightarrow> (string \<times> int) list \<Rightarrow> string list \<Rightarrow> string list \<Rightarrow> bool" where
  "kahn_inv K e ds visited ready \<longleftrightarrow>
     distinct (visited @ ready) \<and> set (visited @ ready) = {x \<in> K. waits_for e visited x = {}}
     \<and> (\<forall>x \<in> K. map_of ds x = Some (int (card (waits_for e visited x))))
     \<and> (\<forall>us x vs. visited @ ready = us @ x # vs \<longrightarrow> waits_for e us x = {})"

lemma kahn_step:
  assumes ok: "edges_ok K e" and inv: "kahn_inv K e ds visited (k # ready)" and step: "fold release_task (next_tasks e k) (ds, ready) = (ds', ready')"
  shows "kahn_inv K e ds' (visited @ [k]) ready'"
proof -
  note I = inv [unfolded kahn_inv_def]
  let ?ns = "next_tasks e k"
  have dn: "distinct ?ns" and rel: "order_rel e \<subseteq> K \<times> K" using ok unfolding edges_ok_def by auto
  have kv: "k \<notin> set visited" "k \<in> K" using I by auto
  have nsK: "x \<in> K" if "x \<in> set ?ns" for x using that rel by (auto simp: order_rel_def)
  have new: "waits_for e (visited @ [k]) x = waits_for e visited x - {k}" for x by (auto simp: waits_for_def)
  have waiting: "k \<in> waits_for e visited x \<longleftrightarrow> x \<in> set ?ns" for x using kv by (simp add: waits_for_def order_rel_def)
  note fr = fold_release [OF dn, of "(ds, ready)", unfolded step fst_conv snd_conv]
  have deg: "degree_of ds x = int (card (waits_for e visited x))" if "x \<in> K" for x using I that by (simp add: degree_of_def)
  have card: "card (waits_for e (visited @ [k]) x) = card (waits_for e visited x) - (if x \<in> set ?ns then 1 else 0)" for x
    using finite_waits [OF ok] waiting by (simp add: new)
  have pos: "0 < card (waits_for e visited x)" if "x \<in> set ?ns" for x
    using that waiting finite_waits [OF ok] by (metis card_gt_0_iff empty_iff)
  have ds': "\<forall>x \<in> K. map_of ds' x = Some (int (card (waits_for e (visited @ [k]) x)))"
  proof
    fix x assume x: "x \<in> K"
    from fr have "map_of ds' x = (if x \<in> set ?ns then Some (degree_of ds x - 1) else map_of ds x)" by blast
    with I x deg [OF x] pos [of x] show "map_of ds' x = Some (int (card (waits_for e (visited @ [k]) x)))" by (auto simp: card)
  qed
  have freed: "degree_of ds x = 1 \<longleftrightarrow> waits_for e (visited @ [k]) x = {}" if "x \<in> set ?ns" for x
  proof -
    have "waits_for e (visited @ [k]) x = {} \<longleftrightarrow> card (waits_for e (visited @ [k]) x) = 0" using finite_waits [OF ok] by simp
    with that pos [OF that] deg [OF nsK [OF that]] show ?thesis by (simp add: card) linarith
  qed
  have ready': "ready' = ready @ filter (\<lambda>n. degree_of ds n = 1) ?ns" using fr by blast
  have old: "waits_for e visited x \<noteq> {}" if "x \<in> set ?ns" for x using that waiting by blast
  have fresh: "x \<notin> set (visited @ k # ready)" if "x \<in> set ?ns" for x using I old [OF that] by blast
  have dist: "distinct ((visited @ [k]) @ ready')" using I dn fresh by (auto simp: ready')
  have all: "set ((visited @ [k]) @ ready') = {x \<in> K. waits_for e (visited @ [k]) x = {}}"
  proof (intro equalityI subsetI)
    fix x assume "x \<in> set ((visited @ [k]) @ ready')"
    then consider "x \<in> set (visited @ k # ready)" | "x \<in> set ?ns" "degree_of ds x = 1" by (auto simp: ready')
    then show "x \<in> {x \<in> K. waits_for e (visited @ [k]) x = {}}"
    proof cases
      case 1
      with I have "x \<in> K" "waits_for e visited x = {}" by blast+
      then show ?thesis by (simp add: new)
    next
      case 2
      with freed nsK show ?thesis by blast
    qed
  next
    fix x assume x: "x \<in> {x \<in> K. waits_for e (visited @ [k]) x = {}}"
    show "x \<in> set ((visited @ [k]) @ ready')"
    proof (cases "x \<in> set ?ns")
      case True
      with x freed show ?thesis by (simp add: ready')
    next
      case False
      with waiting x new have "waits_for e visited x = {}" by fastforce
      with x I have "x \<in> set (visited @ k # ready)" by blast
      then show ?thesis by (auto simp: ready')
    qed
  qed
  have after: "waits_for e us x = {}" if "(visited @ [k]) @ ready' = us @ x # vs" for us x vs
  proof -
    have eq: "us @ x # vs = (visited @ k # ready) @ filter (\<lambda>n. degree_of ds n = 1) ?ns" using that by (simp add: ready')
    then obtain zs where "us = (visited @ k # ready) @ zs \<and> zs @ x # vs = filter (\<lambda>n. degree_of ds n = 1) ?ns
        \<or> us @ zs = visited @ k # ready \<and> x # vs = zs @ filter (\<lambda>n. degree_of ds n = 1) ?ns"
      unfolding append_eq_append_conv2 by blast
    then consider (early) zs where "visited @ k # ready = us @ x # zs"
      | (late) zs where "us = (visited @ k # ready) @ zs" "x \<in> set (filter (\<lambda>n. degree_of ds n = 1) ?ns)"
    proof (elim disjE conjE)
      assume "us = (visited @ k # ready) @ zs" "zs @ x # vs = filter (\<lambda>n. degree_of ds n = 1) ?ns"
      then show ?thesis using late by (metis in_set_conv_decomp)
    next
      assume *: "us @ zs = visited @ k # ready" "x # vs = zs @ filter (\<lambda>n. degree_of ds n = 1) ?ns"
      show ?thesis
      proof (cases zs)
        case Nil
        with * late [of "[]"] show ?thesis by (metis append_Nil append_Nil2 list.set_intros(1))
      next
        case (Cons y ys)
        with * early [of ys] show ?thesis by simp
      qed
    qed
    then show ?thesis
    proof cases
      case early
      with I show ?thesis by blast
    next
      case late
      then have "x \<in> set ?ns" "degree_of ds x = 1" by simp_all
      with freed have "waits_for e (visited @ [k]) x = {}" by blast
      with late(1) show ?thesis by (auto simp: waits_for_def)
    qed
  qed
  from dist all ds' after show ?thesis unfolding kahn_inv_def by blast
qed

lemma kahn_run: "edges_ok K e \<Longrightarrow> kahn_inv K e ds visited ready \<Longrightarrow> \<exists>ds'. kahn_inv K e ds' (visited @ visit_ready e ds ready) []"
proof (induction e ds ready arbitrary: visited rule: visit_ready.induct)
  case (2 e ds k ready)
  obtain ds' ready' where step: "fold release_task (next_tasks e k) (ds, ready) = (ds', ready')" by fastforce
  from "2.IH" [OF step [symmetric] refl "2.prems"(1) kahn_step [OF "2.prems" step]] step show ?case by simp
qed auto

lemma kahn_start: "edges_ok K e \<Longrightarrow> kahn_inv K e (degrees e) [] (map fst (filter (\<lambda>(k, d). d = 0) (degrees e)))"
proof -
  assume ok: "edges_ok K e"
  then have keys: "distinct (map fst e)" "fst ` set e = K" by (auto simp: edges_ok_def)
  note count = degrees_count [OF ok]
  have kd: "map fst (degrees e) = map fst e"
  proof (cases e)
    case (Cons x xs)
    with keys count(2) [of "fst x"] show ?thesis by auto
  qed (simp add: degrees_def)
  then have d: "distinct (map fst (degrees e))" and K: "fst ` set (degrees e) = K" using keys by (simp_all flip: set_map)
  have zero: "x \<in> set (map fst (filter (\<lambda>(k, d). d = 0) (degrees e))) \<longleftrightarrow> x \<in> K \<and> waits_for e [] x = {}" for x
  proof -
    have "x \<in> set (map fst (filter (\<lambda>(k, d). d = 0) (degrees e))) \<longleftrightarrow> map_of (degrees e) x = Some 0"
      using d by (force dest: map_of_SomeD)
    moreover have "map_of (degrees e) x = Some 0 \<Longrightarrow> x \<in> K" using K map_of_SomeD_key by metis
    moreover have "map_of (degrees e) x = Some 0 \<longleftrightarrow> waits_for e [] x = {}" if "x \<in> K"
      using count(1) [OF that] finite_waits [OF ok] by simp
    ultimately show ?thesis by blast
  qed
  have "distinct (map fst (filter (\<lambda>(k, d). d = 0) (degrees e)))" using d by (rule distinct_map_filter)
  moreover have "waits_for e us x = {}" if "map fst (filter (\<lambda>(k, d). d = 0) (degrees e)) = us @ x # vs" for us x vs
  proof -
    have "waits_for e [] x = {}" using zero [of x] that by (metis in_set_conv_decomp)
    then show ?thesis by (auto simp: waits_for_def)
  qed
  moreover have "set (map fst (filter (\<lambda>(k, d). d = 0) (degrees e))) = {x \<in> K. waits_for e [] x = {}}" using zero by blast
  ultimately show ?thesis using count(1) unfolding kahn_inv_def append_Nil by blast
qed

text \<open>All tasks are visited exactly when no task waits for itself.\<close>

lemma ready_order_acyclic:
  assumes ok: "edges_ok K e"
  shows "length (ready_order e) = card K \<longleftrightarrow> acyclic (order_rel e)"
proof -
  have rel: "order_rel e \<subseteq> K \<times> K" and finK: "finite K" using ok unfolding edges_ok_def by auto
  from kahn_run [OF ok kahn_start [OF ok]] obtain ds where inv: "kahn_inv K e ds (ready_order e) []"
    by (auto simp: ready_order_def)
  note I = inv [unfolded kahn_inv_def]
  have sub: "set (ready_order e) \<subseteq> K" and d: "distinct (ready_order e)" using I by auto
  show ?thesis
  proof
    assume "length (ready_order e) = card K"
    then have all: "set (ready_order e) = K" using sub finK d by (metis card_subset_eq distinct_card)
    define pos where "pos x = (LEAST i. i < length (ready_order e) \<and> ready_order e ! i = x)" for x
    have pos: "pos x < length (ready_order e) \<and> ready_order e ! pos x = x" if "x \<in> K" for x
      unfolding pos_def by (rule LeastI_ex) (use that all in \<open>metis in_set_conv_nth\<close>)
    have "pos a < pos b" if "(a, b) \<in> order_rel e" for a b
    proof -
      have K: "a \<in> K" "b \<in> K" using that rel by auto
      from pos [OF K(2)] have "ready_order e = take (pos b) (ready_order e) @ b # drop (Suc (pos b)) (ready_order e)"
        by (metis id_take_nth_drop)
      with I have "waits_for e (take (pos b) (ready_order e)) b = {}" by (metis append_Nil2)
      with that have "a \<in> set (take (pos b) (ready_order e))" by (auto simp: waits_for_def)
      then obtain i where i: "i < pos b" "i < length (ready_order e)" "ready_order e ! i = a" by (auto simp: in_set_conv_nth)
      then have "pos a \<le> i" unfolding pos_def by (intro Least_le) simp
      with i show ?thesis by simp
    qed
    then have "order_rel e \<subseteq> measure pos" by auto
    then show "acyclic (order_rel e)" by (rule acyclic_subset [OF wf_acyclic [OF wf_measure]])
  next
    assume acyclic: "acyclic (order_rel e)"
    have "finite (order_rel e)" by (rule finite_subset [OF rel]) (simp add: finK)
    with acyclic have wf: "wf (order_rel e)" by (rule finite_acyclic_wf [rotated])
    have "K \<subseteq> set (ready_order e)"
    proof
      fix x assume "x \<in> K"
      with wf show "x \<in> set (ready_order e)"
      proof (induction x rule: wf_induct_rule)
        case (less x)
        with rel have "waits_for e (ready_order e) x = {}" by (auto simp: waits_for_def)
        with less.prems I show ?case by auto
      qed
    qed
    with sub d show "length (ready_order e) = card K" by (metis distinct_card subset_antisym)
  qed
qed

end
