(* ===== verification/Glob_Scopes.thy ===== *)
theory Glob_Scopes
  imports Prelude
begin

text \<open>
  Entries of a write scope and the files they name: the second half of
  \<open>packages/workflow/src/nodes/planner/traceability.ts\<close> (\<open>scopeKey\<close>, \<open>covers\<close>, \<open>within\<close> and what they use). The
  searches of the source are memoised; a memo table does not change what they return and is left out.
  \<open>names_file\<close> says which files an entry stands for, without regard to how two entries are compared.
\<close>

section \<open>Entries\<close>

definition strip_prefix :: "string \<Rightarrow> string \<Rightarrow> string" where
  "strip_prefix p s = (if starts_with p s then drop (length p) s else s)"

definition strip_suffix :: "string \<Rightarrow> string \<Rightarrow> string" where
  "strip_suffix p s = (if ends_with p s then take (length s - length p) s else s)"

definition strip_slashes :: "string \<Rightarrow> string" where
  "strip_slashes s = rev (dropWhile (\<lambda>c. c = CHR ''/'') (rev s))"

definition scope_key :: "string \<Rightarrow> string" where
  "scope_key path =
     (let t = trim path;
          key = to_lower (strip_slashes (strip_suffix ''/**'' (strip_prefix ''./''
            (map (\<lambda>c. if c = CHR 0x5C then CHR ''/'' else c) t)))) in
      if key = ''.'' \<or> key = [] \<and> t \<noteq> [] then ''**'' else key)"

definition is_glob :: "string \<Rightarrow> bool" where
  "is_glob s \<longleftrightarrow> list_ex (\<lambda>c. c \<in> set ''*?[{'') s"

text \<open>\<open>/[^/]\.[^./]+$/u\<close>\<close>

definition has_extension :: "string \<Rightarrow> bool" where
  "has_extension s \<longleftrightarrow> (let r = rev s; e = takeWhile (\<lambda>c. c \<noteq> CHR ''.'' \<and> c \<noteq> CHR ''/'') r in
     e \<noteq> [] \<and> (case drop (length e) r of d # c # _ \<Rightarrow> d = CHR ''.'' \<and> c \<noteq> CHR ''/'' | _ \<Rightarrow> False))"

definition scope_segments :: "string \<Rightarrow> string list" where
  "scope_segments p = (if CHR ''/'' \<in> set p then [] else [''**'']) @ split_on (CHR ''/'') p @ (if has_extension p then [] else [''**''])"

definition entry_segments :: "string \<Rightarrow> string list" where
  "entry_segments e = (if is_glob e then scope_segments e
     else split_on (CHR ''/'') e @ (if has_extension e then [] else [''**'']))"

section \<open>Braces\<close>

text \<open>The first match of \<open>/\{([^{}]*)\}/u\<close>: what precedes it, its inside and what follows.\<close>

definition no_brace :: "char \<Rightarrow> bool" where
  "no_brace c \<longleftrightarrow> c \<noteq> CHR ''{'' \<and> c \<noteq> CHR ''}''"

fun first_group :: "string \<Rightarrow> (string \<times> string \<times> string) option" where
  "first_group [] = None"
| "first_group (c # s) =
     (let here = (if c = CHR ''{'' then (case dropWhile no_brace s of d # post \<Rightarrow> if d = CHR ''}'' then Some post else None | [] \<Rightarrow> None) else None) in
      case here of
        Some post \<Rightarrow> Some ([], takeWhile no_brace s, post)
      | None \<Rightarrow> map_option (\<lambda>(pre, inside, post). (c # pre, inside, post)) (first_group s))"

lemma first_group_split:
  "first_group s = Some (pre, inside, post) \<Longrightarrow> s = pre @ CHR ''{'' # inside @ CHR ''}'' # post \<and> list_all no_brace inside"
proof (induction s arbitrary: pre)
  case (Cons c s)
  show ?case
  proof (cases "\<exists>p. c = CHR ''{'' \<and> dropWhile no_brace s = CHR ''}'' # p")
    case True
    then obtain p where p: "c = CHR ''{''" "dropWhile no_brace s = CHR ''}'' # p" by blast
    with Cons.prems have g: "pre = []" "inside = takeWhile no_brace s" "post = p" by simp_all
    have "s = inside @ CHR ''}'' # post" using takeWhile_dropWhile_id [of no_brace s] unfolding g p(2) by simp
    moreover have "list_all no_brace inside" unfolding g(2) list_all_iff by (meson set_takeWhileD)
    ultimately show ?thesis using g(1) p(1) by simp
  next
    case False
    with Cons.prems obtain pre' where "pre = c # pre'" "first_group s = Some (pre', inside, post)"
      by (auto simp: Let_def split: if_splits list.splits)
    with Cons.IH [OF this(2)] show ?thesis by simp
  qed
qed simp

definition open_braces :: "string \<Rightarrow> nat" where
  "open_braces s = length (filter (\<lambda>c. c = CHR ''{'') s)"

lemma split_on_chars: "p \<in> set (split_on c s) \<Longrightarrow> set p \<subseteq> set s"
proof (induction s arbitrary: p)
  case (Cons x xs)
  obtain q qs where q: "split_on c xs = q # qs" by (cases "split_on c xs") auto
  have "set r \<subseteq> set xs" if "r \<in> set (q # qs)" for r using Cons.IH that q by simp
  with Cons.prems q show ?case by (force split: if_splits)
qed simp

lemma no_brace_count: "list_all no_brace s \<Longrightarrow> open_braces s = 0"
  by (auto simp: open_braces_def list_all_iff no_brace_def filter_empty_conv)

lemma open_braces_alternative:
  assumes "first_group s = Some (pre, inside, post)" "a \<in> set (split_on (CHR '','') inside)"
  shows "open_braces (pre @ a @ post) < open_braces s"
proof -
  note g = first_group_split [OF assms(1)]
  have "list_all no_brace a" using split_on_chars [OF assms(2)] g by (auto simp: list_all_iff)
  with g no_brace_count [of a] show ?thesis by (simp add: open_braces_def)
qed

lemma open_braces_star: "first_group s = Some (pre, inside, post) \<Longrightarrow> open_braces (pre @ ''*'' @ post) < open_braces s"
  using first_group_split [of s] by (auto simp: open_braces_def)

function (sequential) expand_braces :: "string \<Rightarrow> nat \<Rightarrow> bool \<Rightarrow> string list" where
  "expand_braces p limit widen =
     (case first_group p of
        None \<Rightarrow> [p]
      | Some (pre, inside, post) \<Rightarrow>
          (let alternatives = split_on (CHR '','') inside in
           if limit < length alternatives then (if widen then expand_braces (pre @ ''*'' @ post) limit True else [])
           else concat (map (\<lambda>a. expand_braces (pre @ a @ post) (limit div length alternatives) widen) alternatives)))"
  by pat_completeness auto
termination
  by (relation "measure (\<lambda>(p, _, _). open_braces p)") (auto simp: open_braces_alternative open_braces_star [simplified])

declare expand_braces.simps [simp del]

section \<open>Names and paths\<close>

text \<open>\<open>segment.replace(/\[[^\]]*\]/gu, "?")\<close>\<close>

function strip_classes :: "string \<Rightarrow> string" where
  "strip_classes [] = []"
| "strip_classes (c # s) =
     (if c = CHR ''['' then (case dropWhile (\<lambda>d. d \<noteq> CHR '']'') s of [] \<Rightarrow> c # strip_classes s | _ # post \<Rightarrow> CHR ''?'' # strip_classes post)
      else c # strip_classes s)"
  by pat_completeness auto
termination
proof (relation "measure length", goal_cases)
  case (3 c s d post)
  then show ?case using length_dropWhile_le [of "\<lambda>d. d \<noteq> CHR '']''" s] by simp
qed auto

fun tokens_meet :: "string \<Rightarrow> string \<Rightarrow> bool" where
  "tokens_meet [] [] = True"
| "tokens_meet (x # xs) [] = (x = CHR ''*'' \<and> tokens_meet xs [])"
| "tokens_meet [] (y # ys) = (y = CHR ''*'' \<and> tokens_meet [] ys)"
| "tokens_meet (x # xs) (y # ys) =
     (if x = CHR ''*'' then tokens_meet xs (y # ys) \<or> tokens_meet (x # xs) ys
      else if y = CHR ''*'' then tokens_meet (x # xs) ys \<or> tokens_meet xs (y # ys)
      else (x = CHR ''?'' \<or> y = CHR ''?'' \<or> x = y) \<and> tokens_meet xs ys)"

definition segment_meet :: "string \<Rightarrow> string \<Rightarrow> bool" where
  "segment_meet left right \<longleftrightarrow> tokens_meet (strip_classes left) (strip_classes right)"

fun segments_meet :: "string list \<Rightarrow> string list \<Rightarrow> bool" where
  "segments_meet [] [] = True"
| "segments_meet (a # xs) [] = (a = ''**'' \<and> segments_meet xs [])"
| "segments_meet [] (b # ys) = (b = ''**'' \<and> segments_meet [] ys)"
| "segments_meet (a # xs) (b # ys) =
     (if a = ''**'' then segments_meet xs (b # ys) \<or> segments_meet (a # xs) ys
      else if b = ''**'' then segments_meet (a # xs) ys \<or> segments_meet xs (b # ys)
      else segment_meet a b \<and> segments_meet xs ys)"

definition covers :: "string \<Rightarrow> string \<Rightarrow> bool" where
  "covers a b \<longleftrightarrow> a = b \<or>
     (if \<not> is_glob a \<and> \<not> is_glob b then starts_with (b @ ''/'') a \<or> starts_with (a @ ''/'') b
      else list_ex (\<lambda>l. list_ex (segments_meet l) (map scope_segments (expand_braces b 64 True)))
        (map scope_segments (expand_braces a 64 True)))"

definition segment_within :: "string \<Rightarrow> string \<Rightarrow> bool" where
  "segment_within inner outer \<longleftrightarrow> inner = outer \<or> outer = ''*''
     \<or> \<not> list_ex (\<lambda>c. c \<in> set ''*?['') inner \<and> CHR ''['' \<notin> set outer \<and> segment_meet inner outer"

fun segments_within :: "string list \<Rightarrow> string list \<Rightarrow> bool" where
  "segments_within [] [] = True"
| "segments_within (a # xs) [] = False"
| "segments_within [] (b # ys) = (b = ''**'' \<and> segments_within [] ys)"
| "segments_within (a # xs) (b # ys) =
     (if b = ''**'' then segments_within (a # xs) ys \<or> segments_within xs (b # ys)
      else a \<noteq> ''**'' \<and> segment_within a b \<and> segments_within xs ys)"

definition entry_within :: "string \<Rightarrow> string \<Rightarrow> bool" where
  "entry_within inner outer \<longleftrightarrow>
     list_all (\<lambda>a. list_ex (segments_within (entry_segments a)) (map entry_segments (expand_braces outer 64 False)))
       (expand_braces inner 64 True)"

definition scope_entry_covers :: "string \<Rightarrow> string \<Rightarrow> bool" where
  "scope_entry_covers entry path \<longleftrightarrow> scope_key entry \<noteq> [] \<and> entry_within (scope_key path) (scope_key entry)"

section \<open>Patterns with a star\<close>

text \<open>
  Both levels match alike: a star stands for any run of elements, every other token for one. \<open>star_match\<close> says which
  lists a pattern stands for; \<open>star_meet\<close> is the search the source writes twice.
\<close>

fun star_match :: "('a \<Rightarrow> bool) \<Rightarrow> ('a \<Rightarrow> 'b \<Rightarrow> bool) \<Rightarrow> 'a list \<Rightarrow> 'b list \<Rightarrow> bool" where
  "star_match star one [] xs = (xs = [])"
| "star_match star one (a # p) [] = (star a \<and> star_match star one p [])"
| "star_match star one (a # p) (x # xs) =
     (if star a then star_match star one p (x # xs) \<or> star_match star one (a # p) xs else one a x \<and> star_match star one p xs)"

fun star_meet :: "('a \<Rightarrow> bool) \<Rightarrow> ('a \<Rightarrow> 'a \<Rightarrow> bool) \<Rightarrow> 'a list \<Rightarrow> 'a list \<Rightarrow> bool" where
  "star_meet star both [] [] = True"
| "star_meet star both (a # p) [] = (star a \<and> star_meet star both p [])"
| "star_meet star both [] (b # q) = (star b \<and> star_meet star both [] q)"
| "star_meet star both (a # p) (b # q) =
     (if star a then star_meet star both p (b # q) \<or> star_meet star both (a # p) q
      else if star b then star_meet star both (a # p) q \<or> star_meet star both p (b # q)
      else both a b \<and> star_meet star both p q)"

lemma star_match_skip: "star a \<Longrightarrow> star_match star one p xs \<Longrightarrow> star_match star one (a # p) xs"
  by (cases xs) auto

lemma star_match_skips: "star a \<Longrightarrow> star_match star one p zs \<Longrightarrow> star_match star one (a # p) (ys @ zs)"
  by (induction ys) (simp_all add: star_match_skip)

lemma star_match_run:
  "star a \<Longrightarrow> star_match star one (a # p) xs \<Longrightarrow> \<exists>ys zs. xs = ys @ zs \<and> star_match star one p zs"
proof (induction xs)
  case (Cons x xs)
  show ?case
  proof (cases "star_match star one p (x # xs)")
    case True
    then show ?thesis by (metis append_Nil)
  next
    case False
    with Cons obtain ys zs where "xs = ys @ zs" "star_match star one p zs" by auto
    then show ?thesis by (metis append_Cons)
  qed
qed auto

text \<open>The contract of one level: what two tokens share is what both stand for, and every token stands for something.\<close>

locale star_level =
  fixes star :: "'a \<Rightarrow> bool" and one :: "'a \<Rightarrow> 'b \<Rightarrow> bool" and both :: "'a \<Rightarrow> 'a \<Rightarrow> bool"
  assumes both_iff: "\<not> star a \<Longrightarrow> \<not> star b \<Longrightarrow> both a b \<longleftrightarrow> (\<exists>x. one a x \<and> one b x)"
    and inhabited: "\<not> star a \<Longrightarrow> \<exists>x. one a x"
begin

lemma some_match: "\<exists>xs. star_match star one p xs"
proof (induction p)
  case (Cons a p)
  then obtain xs where xs: "star_match star one p xs" by blast
  show ?case
  proof (cases "star a")
    case True
    show ?thesis by (rule exI, rule star_match_skip [OF True xs])
  next
    case False
    then obtain x where "one a x" using inhabited by blast
    with False xs have "star_match star one (a # p) (x # xs)" by simp
    then show ?thesis by blast
  qed
qed simp

lemma meet_complete: "star_match star one p xs \<Longrightarrow> star_match star one q xs \<Longrightarrow> star_meet star both p q"
proof (induction "length p + length q + length xs" arbitrary: p q xs rule: less_induct)
  case less
  show ?case
  proof (cases p; cases q)
    fix a p' b q' assume pq: "p = a # p'" "q = b # q'"
    show ?thesis
    proof (cases xs)
      case Nil
      with less.prems pq have "star a" "star_match star one p' []" by auto
      with less.hyps [of p' q "[]"] less.prems pq Nil show ?thesis by simp
    next
      case (Cons x xs')
      consider (both) "star a" "star b" | (left) "star a" "\<not> star b" | (right) "\<not> star a" "star b" | (none) "\<not> star a" "\<not> star b"
        by blast
      then show ?thesis
      proof cases
        case both
        with less.prems pq Cons consider "star_match star one p' xs" | "star_match star one q' xs"
          | "star_match star one p xs'" "star_match star one q xs'" by auto
        then show ?thesis
        proof cases
          case 1
          with less.hyps [of p' q xs] less.prems both pq show ?thesis by simp
        next
          case 2
          with less.hyps [of p q' xs] less.prems both pq show ?thesis by simp
        next
          case 3
          with less.hyps [of p q xs'] Cons show ?thesis by simp
        qed
      next
        case left
        with less.prems pq Cons consider "star_match star one p' xs" | "star_match star one p xs'" "star_match star one q' xs'" by auto
        then show ?thesis
        proof cases
          case 1
          with less.hyps [of p' q xs] less.prems left pq show ?thesis by simp
        next
          case 2
          with less.hyps [of p q' xs'] left pq Cons show ?thesis by simp
        qed
      next
        case right
        with less.prems pq Cons consider "star_match star one q' xs" | "star_match star one q xs'" "star_match star one p' xs'" by auto
        then show ?thesis
        proof cases
          case 1
          with less.hyps [of p q' xs] less.prems right pq show ?thesis by simp
        next
          case 2
          with less.hyps [of p' q xs'] right pq Cons show ?thesis by simp
        qed
      next
        case none
        with less.prems pq Cons less.hyps [of p' q' xs'] both_iff [OF none] show ?thesis by auto
      qed
    qed
  next
    fix a p' assume pq: "p = a # p'" "q = []"
    with less.prems less.hyps [of p' q xs] show ?thesis by auto
  next
    fix b q' assume pq: "p = []" "q = b # q'"
    with less.prems less.hyps [of p q' xs] show ?thesis by auto
  qed simp
qed

lemma meet_sound: "star_meet star both p q \<Longrightarrow> \<exists>xs. star_match star one p xs \<and> star_match star one q xs"
proof (induction "length p + length q" arbitrary: p q rule: less_induct)
  case less
  have grow: "\<exists>xs. star_match star one (a # p') xs \<and> star_match star one (b # q') xs"
    if "star a" "star_match star one (a # p') ys" "star_match star one q' ys" for a p' b q' ys
  proof (cases "star b")
    case True
    with that star_match_skip [of star b one q' ys] show ?thesis by blast
  next
    case False
    then obtain y where "one b y" using inhabited by blast
    with that False have "star_match star one (a # p') (y # ys)" "star_match star one (b # q') (y # ys)" by simp_all
    then show ?thesis by blast
  qed
  show ?case
  proof (cases p; cases q)
    fix a p' b q' assume pq: "p = a # p'" "q = b # q'"
    consider (left) "star_meet star both p' q" "star a" | (right) "star_meet star both p q'" "star a"
      | (left') "star_meet star both p' q" "star b" | (right') "star_meet star both p q'" "star b"
      | (none) "\<not> star a" "\<not> star b" "both a b" "star_meet star both p' q'"
      using less.prems pq by (auto split: if_splits)
    then show ?thesis
    proof cases
      case left
      with less.hyps [of p' q] pq star_match_skip [of star a one p'] show ?thesis by fastforce
    next
      case right
      with less.hyps [of p q'] pq grow [of a p' _ q' b] show ?thesis by fastforce
    next
      case left'
      with less.hyps [of p' q] pq grow [of b q' _ p' a] show ?thesis by fastforce
    next
      case right'
      with less.hyps [of p q'] pq star_match_skip [of star b one q'] show ?thesis by fastforce
    next
      case none
      with less.hyps [of p' q'] pq obtain xs where xs: "star_match star one p' xs" "star_match star one q' xs" by auto
      from none both_iff obtain x where "one a x" "one b x" by blast
      with none pq xs have "star_match star one p (x # xs)" "star_match star one q (x # xs)" by simp_all
      then show ?thesis by blast
    qed
  next
    fix a p' assume pq: "p = a # p'" "q = []"
    with less.prems less.hyps [of p' q] show ?thesis by auto
  next
    fix b q' assume pq: "p = []" "q = b # q'"
    with less.prems less.hyps [of p q'] show ?thesis by auto
  qed auto
qed

lemma meet_iff: "star_meet star both p q \<longleftrightarrow> (\<exists>xs. star_match star one p xs \<and> star_match star one q xs)"
  using meet_complete meet_sound by blast

end

section \<open>The files of an entry\<close>

definition token_star :: "char \<Rightarrow> bool" where "token_star t \<longleftrightarrow> t = CHR ''*''"

definition token_one :: "char \<Rightarrow> char \<Rightarrow> bool" where "token_one t c \<longleftrightarrow> t = CHR ''?'' \<or> t = c"

definition token_both :: "char \<Rightarrow> char \<Rightarrow> bool" where "token_both x y \<longleftrightarrow> x = CHR ''?'' \<or> y = CHR ''?'' \<or> x = y"

interpretation name_level: star_level token_star token_one token_both
  by unfold_locales (auto simp: token_both_def token_one_def)

lemma tokens_meet_star: "tokens_meet a b = star_meet token_star token_both a b"
  by (induction a b rule: tokens_meet.induct) (auto simp: token_star_def token_both_def)

text \<open>A segment and the names it stands for; a class \<open>[...]\<close> is read as any one character.\<close>

definition names_part :: "string \<Rightarrow> string \<Rightarrow> bool" where
  "names_part segment name = star_match token_star token_one (strip_classes segment) name"

definition double_star :: "string \<Rightarrow> bool" where "double_star s \<longleftrightarrow> s = ''**''"

lemma segment_meet_iff: "segment_meet a b \<longleftrightarrow> (\<exists>name. names_part a name \<and> names_part b name)"
  by (simp add: segment_meet_def names_part_def tokens_meet_star name_level.meet_iff)

interpretation path_level: star_level double_star names_part segment_meet
proof
  show "segment_meet a b \<longleftrightarrow> (\<exists>x. names_part a x \<and> names_part b x)" for a b by (rule segment_meet_iff)
  show "\<exists>x. names_part a x" for a unfolding names_part_def by (rule name_level.some_match)
qed

lemma segments_meet_star: "segments_meet a b = star_meet double_star segment_meet a b"
  by (induction a b rule: segments_meet.induct) (auto simp: double_star_def)

definition path_named :: "string list \<Rightarrow> string list \<Rightarrow> bool" where
  "path_named segments path = star_match double_star names_part segments path"

lemma segments_meet_iff: "segments_meet a b \<longleftrightarrow> (\<exists>path. path_named a path \<and> path_named b path)"
  by (simp add: path_named_def segments_meet_star path_level.meet_iff)

text \<open>All alternatives of an entry, however many.\<close>

function (sequential) brace_alternatives :: "string \<Rightarrow> string list" where
  "brace_alternatives p =
     (case first_group p of
        None \<Rightarrow> [p]
      | Some (pre, inside, post) \<Rightarrow> concat (map (\<lambda>a. brace_alternatives (pre @ a @ post)) (split_on (CHR '','') inside)))"
  by pat_completeness auto
termination
  by (relation "measure open_braces") (auto simp: open_braces_alternative)

declare brace_alternatives.simps [simp del]

text \<open>
  The files of an entry as the source documents them: a plain entry is anchored at the root and covers what is under it
  unless its name has an extension; a pattern without a slash sits at any depth.
\<close>

definition names_file :: "string \<Rightarrow> string list \<Rightarrow> bool" where
  "names_file e path =
     (if is_glob e then list_ex (\<lambda>a. path_named (scope_segments a) path) (brace_alternatives e)
      else path_named (entry_segments e) path)"

definition exact :: "string \<Rightarrow> bool" where
  "exact e \<longleftrightarrow> expand_braces e 64 True = brace_alternatives e"

definition anchored :: "string \<Rightarrow> bool" where
  "anchored e \<longleftrightarrow> \<not> is_glob e \<or> list_all (\<lambda>a. is_glob a \<or> CHR ''/'' \<in> set a) (brace_alternatives e)"

section \<open>Plain entries\<close>

definition plain :: "string \<Rightarrow> bool" where
  "plain s \<longleftrightarrow> list_all (\<lambda>c. c \<notin> set ''*?['') s"

lemma plain_strip: "plain s \<Longrightarrow> strip_classes s = s"
  by (induction s) (auto simp: plain_def)

lemma plain_tokens: "plain s \<Longrightarrow> star_match token_star token_one s n \<longleftrightarrow> n = s"
proof (induction s arbitrary: n)
  case (Cons c s)
  then have "plain s" "\<not> token_star c" "c \<noteq> CHR ''?''" by (auto simp: plain_def token_star_def)
  with Cons.IH show ?case by (cases n) (auto simp: token_one_def)
qed simp

lemma plain_segment: "plain s \<Longrightarrow> names_part s n \<longleftrightarrow> n = s"
  by (simp add: names_part_def plain_strip plain_tokens)

lemma plain_not_star: "plain s \<Longrightarrow> \<not> double_star s"
  by (auto simp: double_star_def plain_def)

lemma plain_path: "list_all plain xs \<Longrightarrow> path_named (xs @ ys) path \<Longrightarrow> \<exists>zs. path = xs @ zs"
proof (induction xs arbitrary: path)
  case (Cons x xs)
  from Cons.prems(1) have "plain x" "list_all plain xs" by simp_all
  with Cons.prems(2) plain_not_star plain_segment obtain rest where "path = x # rest" "path_named (xs @ ys) rest"
    by (cases path) (auto simp: path_named_def)
  with Cons.IH [OF \<open>list_all plain xs\<close>] show ?case by auto
qed simp

lemma not_glob_plain: "\<not> is_glob e \<Longrightarrow> list_all plain (split_on (CHR ''/'') e)"
  using split_on_chars [of _ "CHR ''/''" e] by (fastforce simp: is_glob_def plain_def list_all_iff list_ex_iff)

lemma not_glob_no_group:
  assumes "\<not> is_glob e"
  shows "first_group e = None"
proof (cases "first_group e")
  case (Some g)
  obtain pre inside post where "g = (pre, inside, post)" by (rule prod_cases3)
  with first_group_split [of e pre inside post] Some have "CHR ''{'' \<in> set e" by simp
  with assms show ?thesis unfolding is_glob_def list_ex_iff by (metis list.set_intros)
qed

lemma not_glob_expand: "\<not> is_glob e \<Longrightarrow> expand_braces e limit widen = [e]" "\<not> is_glob e \<Longrightarrow> brace_alternatives e = [e]"
  by (simp_all add: not_glob_no_group expand_braces.simps brace_alternatives.simps)

lemma join_append: "ys \<noteq> [] \<Longrightarrow> xs \<noteq> [] \<Longrightarrow> join_with [c] (xs @ ys) = join_with [c] xs @ c # join_with [c] ys"
proof (induction xs)
  case (Cons x xs)
  then show ?case by (cases xs; cases ys) simp_all
qed simp

lemma split_prefix:
  assumes "split_on c b = split_on c a @ zs"
  shows "b = a \<or> starts_with (a @ [c]) b"
proof (cases "zs = []")
  case True
  with assms show ?thesis by (metis append_Nil2 join_split_on)
next
  case False
  then have "b = a @ [c] @ join_with [c] zs"
    using join_append [OF False split_on_neq_Nil [of c a], of c] assms by (metis append_Cons append_Nil join_split_on)
  then show ?thesis unfolding starts_with_iff by auto
qed

section \<open>Comparisons of entries\<close>

lemma expand_narrow: "set (expand_braces p limit False) \<subseteq> set (brace_alternatives p)"
proof (induction p limit "False" rule: expand_braces.induct)
  case (1 p limit)
  show ?case
  proof (cases "first_group p")
    case None
    then show ?thesis by (simp add: expand_braces.simps brace_alternatives.simps)
  next
    case (Some g)
    obtain pre inside post where g: "g = (pre, inside, post)" by (rule prod_cases3)
    show ?thesis
    proof (cases "limit < length (split_on (CHR '','') inside)")
      case True
      with Some g show ?thesis by (simp add: expand_braces.simps [of p] Let_def)
    next
      case False
      have "set (expand_braces (pre @ a @ post) (limit div length (split_on (CHR '','') inside)) False)
          \<subseteq> set (brace_alternatives (pre @ a @ post))" if "a \<in> set (split_on (CHR '','') inside)" for a
        using "1"(2) [OF Some [unfolded g] refl refl refl False that] by simp
      with Some g False show ?thesis
        by (auto simp: expand_braces.simps [of p] brace_alternatives.simps [of p] Let_def)
    qed
  qed
qed

lemma scope_names_entry: "path_named (entry_segments a) path \<Longrightarrow> path_named (scope_segments a) path"
proof (cases "is_glob a")
  case False
  assume "path_named (entry_segments a) path"
  with False have "star_match double_star names_part (split_on (CHR ''/'') a @ (if has_extension a then [] else [''**''])) path"
    unfolding entry_segments_def path_named_def by simp
  moreover from this have "star_match double_star names_part (''**'' # split_on (CHR ''/'') a @ (if has_extension a then [] else [''**''])) path"
    by (rule star_match_skip [of double_star, rotated]) (simp add: double_star_def)
  ultimately show ?thesis unfolding scope_segments_def path_named_def by (cases "CHR ''/'' \<in> set a") (simp_all only: if_True if_False append_Nil append_Cons)
qed (simp add: entry_segments_def)

lemma plain_names:
  assumes "\<not> is_glob e" "names_file e path"
  shows "\<exists>zs. path = split_on (CHR ''/'') e @ zs"
  using plain_path [OF not_glob_plain [OF assms(1)], of "if has_extension e then [] else [''**'']" path] assms
  by (simp add: names_file_def entry_segments_def)

lemma covers_complete:
  assumes "names_file a path" "names_file b path" "exact a" "exact b"
  shows "covers a b"
proof (cases "is_glob a \<or> is_glob b")
  case True
  have named: "\<exists>l \<in> set (expand_braces e 64 True). path_named (scope_segments l) path" if "names_file e path" "exact e" for e
  proof (cases "is_glob e")
    case True
    with that show ?thesis by (simp add: names_file_def exact_def list_ex_iff)
  next
    case False
    with that scope_names_entry show ?thesis by (simp add: names_file_def not_glob_expand)
  qed
  from named [OF assms(1,3)] named [OF assms(2,4)] True segments_meet_iff show ?thesis
    unfolding covers_def by (auto simp: list_ex_iff)
next
  case False
  then obtain us vs where "path = split_on (CHR ''/'') a @ us" "path = split_on (CHR ''/'') b @ vs"
    using assms(1,2) plain_names by blast
  then obtain zs where "split_on (CHR ''/'') b = split_on (CHR ''/'') a @ zs \<or> split_on (CHR ''/'') a = split_on (CHR ''/'') b @ zs"
    by (metis append_eq_append_conv2)
  with split_prefix False show ?thesis unfolding covers_def by metis
qed

lemma covers_sym: "covers a b = covers b a"
  unfolding covers_def list_ex_iff by (auto simp: segments_meet_iff)

text \<open>Two patterns are said to overlap only where they do.\<close>

lemma covers_sound:
  assumes "covers a b" "is_glob a" "is_glob b" "exact a" "exact b" "a \<noteq> b"
  shows "\<exists>path. names_file a path \<and> names_file b path"
proof -
  from assms obtain l r where "l \<in> set (brace_alternatives a)" "r \<in> set (brace_alternatives b)"
    "segments_meet (scope_segments l) (scope_segments r)"
    unfolding covers_def exact_def list_ex_iff by auto
  with assms(2,3) segments_meet_iff show ?thesis unfolding names_file_def list_ex_iff by auto
qed

lemma segment_within_sound: "segment_within a b \<Longrightarrow> names_part a n \<Longrightarrow> names_part b n"
proof -
  assume within: "segment_within a b" and n: "names_part a n"
  consider "a = b" | "b = ''*''" | "plain a" "segment_meet a b"
    using within by (auto simp: segment_within_def plain_def list_all_iff list_ex_iff)
  then show ?thesis
  proof cases
    case 1
    with n show ?thesis by simp
  next
    case 2
    have "star_match token_star token_one ''*'' n" by (induction n) (auto simp: token_star_def)
    with 2 show ?thesis by (simp add: names_part_def)
  next
    case 3
    with n show ?thesis using plain_segment [OF 3(1)] unfolding segment_meet_iff by auto
  qed
qed

lemma segments_within_sound: "segments_within a b \<Longrightarrow> path_named a path \<Longrightarrow> path_named b path"
  unfolding path_named_def
proof (induction a b arbitrary: path rule: segments_within.induct)
  case (3 b ys)
  then show ?case by (auto simp: double_star_def intro: star_match_skip)
next
  case (4 a xs b ys)
  show ?case
  proof (cases "b = ''**''")
    case True
    then have b: "double_star b" by (simp add: double_star_def)
    from "4.prems"(1) True consider "segments_within (a # xs) ys" | "segments_within xs (b # ys)" by auto
    then show ?thesis
    proof cases
      case 1
      show ?thesis by (rule star_match_skip [of double_star, OF b "4.IH"(1) [OF True 1 "4.prems"(2)]])
    next
      case 2
      show ?thesis
      proof (cases "double_star a")
        case True
        from star_match_run [of double_star, OF True "4.prems"(2)] obtain us vs where "path = us @ vs" "star_match double_star names_part xs vs"
          by blast
        with "4.IH"(2) [OF \<open>b = _\<close> 2] show ?thesis by (induction us arbitrary: path) (auto simp: b)
      next
        case False
        with "4.prems"(2) obtain n ns where "path = n # ns" "star_match double_star names_part xs ns" by (cases path) auto
        with "4.IH"(2) [OF \<open>b = _\<close> 2] b show ?thesis by simp
      qed
    qed
  next
    case False
    with "4.prems"(1) have ab: "a \<noteq> ''**''" "segment_within a b" "segments_within xs ys" by simp_all
    from ab(1) have "\<not> double_star a" by (simp add: double_star_def)
    with "4.prems"(2) obtain n ns where n: "path = n # ns" "names_part a n" "star_match double_star names_part xs ns"
      by (cases path) simp_all
    from "4.IH"(3) [OF False ab(3) n(3)] segment_within_sound [OF ab(2) n(2)] n(1) False show ?thesis
      by (simp add: double_star_def)
  qed
qed simp_all

lemma entry_within_sound:
  assumes "entry_within inner outer" "names_file inner path" "exact inner" "anchored inner"
  shows "names_file outer path"
proof -
  have "\<exists>a \<in> set (expand_braces inner 64 True). path_named (entry_segments a) path"
  proof (cases "is_glob inner")
    case True
    with assms(2) obtain a where a: "a \<in> set (brace_alternatives inner)" "path_named (scope_segments a) path"
      by (auto simp: names_file_def list_ex_iff)
    with assms(4) True have "entry_segments a = scope_segments a"
      by (auto simp: anchored_def list_all_iff entry_segments_def scope_segments_def)
    with a assms(3) show ?thesis by (metis exact_def)
  next
    case False
    with assms(2) show ?thesis by (simp add: names_file_def not_glob_expand)
  qed
  with assms(1) obtain c where c: "c \<in> set (expand_braces outer 64 False)" "path_named (entry_segments c) path"
    unfolding entry_within_def using segments_within_sound by (auto simp: list_all_iff list_ex_iff)
  show ?thesis
  proof (cases "is_glob outer")
    case True
    with c expand_narrow scope_names_entry show ?thesis unfolding names_file_def list_ex_iff by fastforce
  next
    case False
    with c show ?thesis by (simp add: names_file_def not_glob_expand)
  qed
qed

section \<open>Entries as a plan writes them\<close>

text \<open>
  A written entry names the files of its key. Entries with at most one group of braces, of at most 64 alternatives, are
  exact; every entry whose alternatives keep a slash or a wildcard is anchored.
\<close>

definition entry_names :: "string \<Rightarrow> string list \<Rightarrow> bool" where
  "entry_names entry path \<longleftrightarrow> scope_key entry \<noteq> [] \<and> names_file (scope_key entry) path"

definition readable :: "string \<Rightarrow> bool" where
  "readable entry \<longleftrightarrow> exact (scope_key entry) \<and> anchored (scope_key entry)"

lemma plain_readable: "\<not> is_glob (scope_key entry) \<Longrightarrow> readable entry"
  by (simp add: readable_def exact_def anchored_def not_glob_expand)

text \<open>The two cases that are not read as documented.\<close>

definition wide_braces :: string where
  "wide_braces = ''src/{'' @ join_with '','' (replicate 65 ''a/b'') @ ''}/x.ts''"

lemma wide_braces_expand:
  "list_ex (\<lambda>a. path_named (scope_segments a) [''src'', ''a'', ''b'', ''x.ts'']) (brace_alternatives wide_braces)"
  "expand_braces wide_braces 64 True = [''src/*/x.ts'']"
  by code_simp+

lemma widened_group_misses:
  "names_file wide_braces [''src'', ''a'', ''b'', ''x.ts''] \<and> names_file ''src/a/b/x.ts'' [''src'', ''a'', ''b'', ''x.ts'']
    \<and> \<not> covers wide_braces ''src/a/b/x.ts''"
proof (intro conjI)
  have glob: "is_glob wide_braces" by (simp add: wide_braces_def is_glob_def)
  then show "names_file wide_braces [''src'', ''a'', ''b'', ''x.ts'']" by (simp add: names_file_def wide_braces_expand(1))
  show "names_file ''src/a/b/x.ts'' [''src'', ''a'', ''b'', ''x.ts'']" by code_simp
  have "segments_meet (scope_segments ''src/*/x.ts'') (scope_segments ''src/a/b/x.ts'') = False"
    "expand_braces ''src/a/b/x.ts'' 64 True = [''src/a/b/x.ts'']" by code_simp+
  moreover have "wide_braces \<noteq> ''src/a/b/x.ts''" by (simp add: wide_braces_def)
  ultimately show "\<not> covers wide_braces ''src/a/b/x.ts''" using glob by (simp add: covers_def wide_braces_expand(2))
qed

lemma single_group_anchored:
  "names_file ''{a}.ts'' [''src'', ''a.ts''] \<and> \<not> names_file ''a.ts'' [''src'', ''a.ts''] \<and> entry_within ''{a}.ts'' ''a.ts''
    \<and> covers ''{a}.ts'' ''src/a.ts''"
  by code_simp

text \<open>
  C33. Write scopes are compared as the files they stand for, where braces are expanded in full, so for entries of at
  most 64 alternatives: two such entries that can name a common file are said to overlap, and two different patterns
  of that kind overlap exactly when there is such a file. Where an entry of that kind whose alternatives all keep a
  slash or a wildcard, or that is no pattern, is said to lie within another, every file it names is one the other
  names, so its exclusion takes away no file the exclusion does not name. Beyond these entries the code compares more
  coarsely, as \<open>widened_group_misses\<close> and \<open>single_group_anchored\<close> show.
\<close>

theorem entries_compared:
  assumes "exact a" "exact b"
  shows "((\<exists>path. names_file a path \<and> names_file b path) \<longrightarrow> covers a b)
    \<and> (is_glob a \<and> is_glob b \<and> a \<noteq> b \<longrightarrow> (covers a b \<longleftrightarrow> (\<exists>path. names_file a path \<and> names_file b path)))
    \<and> (anchored a \<and> entry_within a b \<longrightarrow> (\<forall>path. names_file a path \<longrightarrow> names_file b path))"
  using covers_complete [OF _ _ assms] covers_sound [OF _ _ _ assms] entry_within_sound [OF _ _ assms(1)] by blast

theorem entries_compared_witness:
  "(\<exists>path. names_file ''src/{a,b}*.ts'' path \<and> names_file ''**/?c.ts'' path) \<and> covers ''src/x.ts'' ''src''
    \<and> {path. names_file ''src/{a,b}/c.ts'' path} \<subseteq> {path. names_file ''src'' path}"
proof (intro conjI)
  have e: "exact ''src/{a,b}*.ts''" "exact ''**/?c.ts''" "exact ''src/x.ts''" "exact ''src''" "exact ''src/{a,b}/c.ts''" by code_simp+
  have "is_glob ''src/{a,b}*.ts''" "is_glob ''**/?c.ts''" "covers ''src/{a,b}*.ts'' ''**/?c.ts''" by code_simp+
  then show "\<exists>path. names_file ''src/{a,b}*.ts'' path \<and> names_file ''**/?c.ts'' path" using entries_compared [OF e(1,2)] by simp
  have "names_file ''src/x.ts'' [''src'', ''x.ts'']" "names_file ''src'' [''src'', ''x.ts'']" by code_simp+
  then show "covers ''src/x.ts'' ''src''" using entries_compared [OF e(3,4)] by blast
  have "anchored ''src/{a,b}/c.ts''" "entry_within ''src/{a,b}/c.ts'' ''src''" by code_simp+
  then show "{path. names_file ''src/{a,b}/c.ts'' path} \<subseteq> {path. names_file ''src'' path}" using entries_compared [OF e(5,4)] by blast
qed

end
