(* ===== verification/Plan_Traceability.thy ===== *)
theory Plan_Traceability
  imports Task_Order Glob_Scopes Json
begin

text \<open>
  The check of an implementation plan: \<open>validateTraceability\<close>, \<open>validateTaskGraph\<close> and
  \<open>validateSharedWriteOrder\<close> of \<open>packages/workflow/src/nodes/planner/traceability.ts\<close>. A pair of task identifiers
  stands for the JSON text under which the source keeps an edge in its sets. The check of a feature plan's requirement
  links, of routing and of open questions is part of it.
\<close>

section \<open>Data\<close>

datatype trace_code =
    TaskRequiresValidation | UnknownTaskValidation | IssueRequiresValidation | IssueSetMismatch | UnknownIssueValidation
  | RequirementLinkInvalid | RoutingMissing | QuestionSilentlyResolved | DuplicatePlanId | UnknownTaskIssue
  | IssueRequiresTask | InvalidTaskGraph | TaskGraphCycle | InvalidPlanReference | SharedWriteUnordered

record trace_diagnostic =
  td_code :: trace_code
  td_path :: string
  td_message :: string

datatype plan_mode = AuditPlan | FeaturePlan | TestingPlan

datatype blast_radius = LowBlast | MediumBlast | HighBlast

record plan_question =
  uq_id :: string
  uq_blocking :: bool
  uq_radius :: blast_radius

record plan_dependencies =
  pd_on :: "string list"
  pd_blocks :: "string list"
  pd_conflicts :: "string list"

record plan_task =
  tk_id :: string
  tk_issues :: "string list"
  tk_validation :: "string list"
  tk_requirements :: "string list"
  tk_context :: "string list"
  tk_capability :: string
  tk_effort :: string
  tk_reasons :: "string list"
  tk_dependencies :: "plan_dependencies option"
  tk_files :: "string list option"
  tk_spared :: "string list option"

record issue_mapping =
  mp_issue :: string
  mp_validation :: "string list"

record requirement_link =
  rl_requirement :: string
  rl_validation :: "string list"
  rl_tasks :: "string list"

record traceable_plan =
  tp_mode :: plan_mode
  tp_accepted :: "string list"
  tp_questions :: "plan_question list"
  tp_validation :: "string list"
  tp_tasks :: "plan_task list"
  tp_graph :: "(string \<times> string) list option"
  tp_mappings :: "issue_mapping list"
  tp_links :: "requirement_link list"
  tp_routing :: "string list"

definition new_diagnostic :: "trace_code \<Rightarrow> string \<Rightarrow> string \<Rightarrow> trace_diagnostic" where
  "new_diagnostic c p m = \<lparr>td_code = c, td_path = p, td_message = m\<rparr>"

definition listed :: "'a list option \<Rightarrow> 'a list" where
  "listed x = (case x of None \<Rightarrow> [] | Some xs \<Rightarrow> xs)"

section \<open>Write scopes\<close>

record writer =
  wr_task :: plan_task
  wr_index :: nat
  wr_paths :: "(string \<times> string) list"
  wr_excluded :: "string list"

definition excluded_keys :: "plan_task \<Rightarrow> string list" where
  "excluded_keys t = filter (\<lambda>k. k \<noteq> []) (map scope_key (listed (tk_spared t)))"

definition add_write :: "string list \<Rightarrow> string \<Rightarrow> (string \<times> string) list \<Rightarrow> (string \<times> string) list" where
  "add_write excluded path paths =
     (let key = scope_key path in
      if key \<noteq> [] \<and> \<not> list_ex (entry_within key) excluded \<and> map_of paths key = None then paths @ [(key, path)] else paths)"

definition write_scope :: "nat \<Rightarrow> plan_task \<Rightarrow> writer" where
  "write_scope i t = \<lparr>wr_task = t, wr_index = i, wr_paths = fold (add_write (excluded_keys t)) (listed (tk_files t)) [],
     wr_excluded = excluded_keys t\<rparr>"

definition write_scopes :: "plan_task list \<Rightarrow> writer list" where
  "write_scopes tasks = filter (\<lambda>w. wr_paths w \<noteq> []) (map (\<lambda>(i, t). write_scope i t) (enumerate 0 tasks))"

definition shared_writes :: "writer \<Rightarrow> writer \<Rightarrow> string list" where
  "shared_writes a b =
     (let excluded = wr_excluded a @ wr_excluded b in
      map snd (filter (\<lambda>(path, original). list_ex (\<lambda>(other, written). covers path other
          \<and> \<not> list_ex (\<lambda>x. entry_within path x \<or> entry_within other x) excluded) (wr_paths b)) (wr_paths a)))"

section \<open>The order of shared writes\<close>

text \<open>The pairs of two loops, the inner one over what follows: \<open>writers.slice(position + 1)\<close>.\<close>

fun later_pairs :: "'a list \<Rightarrow> ('a \<times> 'a) list" where
  "later_pairs [] = []"
| "later_pairs (x # xs) = map (Pair x) xs @ later_pairs xs"

record order_check =
  oc_seen :: "(string \<times> string) list"
  oc_found :: "trace_diagnostic list"
  oc_omitted :: nat

definition writer_id :: "writer \<Rightarrow> string" where
  "writer_id w = tk_id (wr_task w)"

definition unordered_message :: "string \<Rightarrow> string \<Rightarrow> string list \<Rightarrow> string" where
  "unordered_message a b shared =
     ''Tasks '' @ a @ '' and '' @ b @ '' both write '' @ join_with '', '' (take 5 shared)
     @ '' (scope.likelyFiles) but neither depends on the other; conflictsWith does not order tasks. Order them: add ''
     @ a @ '' to '' @ b @ ''.dependencies.dependsOn and {'' @ [CHR 0x22] @ ''from'' @ [CHR 0x22] @ '':'' @ [CHR 0x22] @ a
     @ [CHR 0x22] @ '','' @ [CHR 0x22] @ ''to'' @ [CHR 0x22] @ '':'' @ [CHR 0x22] @ b @ [CHR 0x22]
     @ ''} to taskGraph (reverse both if '' @ b @ '' must land first), or merge the two tasks. ''
     @ ''Do not drop a file a task must edit from its likelyFiles.''"

definition check_pair :: "js_host \<Rightarrow> task_edges \<Rightarrow> writer \<times> writer \<Rightarrow> order_check \<Rightarrow> order_check" where
  "check_pair h e lr s =
     (if writer_id (fst lr) = writer_id (snd lr) then s
      else let (a, b) = (if lc h (writer_id (fst lr)) (writer_id (snd lr)) then lr else (snd lr, fst lr));
               key = (writer_id a, writer_id b) in
        if key \<in> set (oc_seen s) then s
        else let s1 = s\<lparr>oc_seen := set_add key (oc_seen s)\<rparr>; shared = shared_writes a b in
          if shared = [] \<or> writer_id b \<in> set (reachable_tasks e (writer_id a)) \<or> writer_id a \<in> set (reachable_tasks e (writer_id b)) then s1
          else if 10 \<le> length (oc_found s1) then s1\<lparr>oc_omitted := oc_omitted s1 + 1\<rparr>
          else s1\<lparr>oc_found := oc_found s1 @ [new_diagnostic SharedWriteUnordered
              (''tasks['' @ nat_string (wr_index b) @ ''].dependencies.dependsOn'') (unordered_message (writer_id a) (writer_id b) shared)]\<rparr>)"

definition validate_shared_write_order :: "js_host \<Rightarrow> plan_task list \<Rightarrow> task_edges \<Rightarrow> trace_diagnostic list" where
  "validate_shared_write_order h tasks e =
     (let s = fold (check_pair h e) (later_pairs (write_scopes tasks)) \<lparr>oc_seen = [], oc_found = [], oc_omitted = 0\<rparr> in
      oc_found s @ (if 0 < oc_omitted s
        then [new_diagnostic SharedWriteUnordered ''tasks'' (nat_string (oc_omitted s) @ '' more task pairs share files without an order.'')]
        else []))"

section \<open>The task graph\<close>

record graph_check =
  gc_edges :: task_edges
  gc_declared :: "(string \<times> string) list"
  gc_rendered :: "(string \<times> string) list"
  gc_found :: "trace_diagnostic list"

definition tasks_by_id :: "plan_task list \<Rightarrow> (string \<times> plan_task) list" where
  "tasks_by_id tasks = fold (\<lambda>t. AList.update (tk_id t) t) tasks []"

definition invalid_graph :: "string \<Rightarrow> graph_check \<Rightarrow> graph_check" where
  "invalid_graph message g = g\<lparr>gc_found := gc_found g @ [new_diagnostic InvalidTaskGraph ''taskGraph'' message]\<rparr>"

definition check_edge :: "(string \<times> plan_task) list \<Rightarrow> string \<Rightarrow> string \<Rightarrow> graph_check \<Rightarrow> graph_check" where
  "check_edge known a b g =
     (if a = b \<or> map_of known a = None \<or> map_of known b = None
      then invalid_graph (''Invalid dependency '' @ a @ '' -> '' @ b @ ''.'') g
      else g\<lparr>gc_edges := add_edge a b (gc_edges g)\<rparr>)"

text \<open>The edges a task states, each as the task that comes first and the one that waits_for.\<close>

definition stated_edges :: "plan_task \<Rightarrow> (string \<times> string) list" where
  "stated_edges t = (case tk_dependencies t of
      None \<Rightarrow> []
    | Some d \<Rightarrow> map (\<lambda>a. (a, tk_id t)) (pd_on d) @ map (\<lambda>b. (tk_id t, b)) (pd_blocks d))"

definition declare_edge :: "(string \<times> plan_task) list \<Rightarrow> string \<times> string \<Rightarrow> graph_check \<Rightarrow> graph_check" where
  "declare_edge known ab g =
     (let g1 = check_edge known (fst ab) (snd ab) g in g1\<lparr>gc_declared := set_add ab (gc_declared g1)\<rparr>)"

definition check_conflict :: "(string \<times> plan_task) list \<Rightarrow> string \<Rightarrow> string \<Rightarrow> graph_check \<Rightarrow> graph_check" where
  "check_conflict known a b g =
     (if b = a \<or> map_of known b = None then invalid_graph (''Invalid conflict '' @ a @ '' / '' @ b @ ''.'') g else g)"

definition check_task :: "(string \<times> plan_task) list \<Rightarrow> plan_task \<Rightarrow> graph_check \<Rightarrow> graph_check" where
  "check_task known t g =
     (case tk_dependencies t of
        None \<Rightarrow> g
      | Some d \<Rightarrow> fold (check_conflict known (tk_id t)) (pd_conflicts d) (fold (declare_edge known) (stated_edges t) g))"

definition states_dependencies :: "(string \<times> plan_task) list \<Rightarrow> string \<Rightarrow> bool" where
  "states_dependencies known a = (case map_of known a of None \<Rightarrow> False | Some t \<Rightarrow> tk_dependencies t \<noteq> None)"

definition check_rendered :: "(string \<times> plan_task) list \<Rightarrow> string \<times> string \<Rightarrow> graph_check \<Rightarrow> graph_check" where
  "check_rendered known ab g =
     (let (a, b) = ab;
          g1 = (if ab \<in> set (gc_rendered g) then invalid_graph (''Duplicate dependency '' @ a @ '' -> '' @ b @ ''.'') g else g);
          g2 = check_edge known a b (g1\<lparr>gc_rendered := set_add ab (gc_rendered g1)\<rparr>) in
      if states_dependencies known a \<and> states_dependencies known b \<and> ab \<notin> set (gc_declared g2)
      then invalid_graph (''Graph edge '' @ a @ '' -> '' @ b @ '' is absent from task dependencies.'') g2 else g2)"

definition edge_text :: "string \<times> string \<Rightarrow> string" where
  "edge_text ab = ''['' @ quote (fst ab) @ '','' @ quote (snd ab) @ '']''"

definition check_declared :: "string \<times> string \<Rightarrow> graph_check \<Rightarrow> graph_check" where
  "check_declared ab g =
     (if ab \<in> set (gc_rendered g) then g else invalid_graph (''Task dependency '' @ edge_text ab @ '' is absent from taskGraph.'') g)"

definition check_graph :: "traceable_plan \<Rightarrow> graph_check" where
  "check_graph plan =
     (let known = tasks_by_id (tp_tasks plan);
          g1 = fold (check_task known) (tp_tasks plan)
            \<lparr>gc_edges = no_task_edges (map tk_id (tp_tasks plan)), gc_declared = [], gc_rendered = [], gc_found = []\<rparr>;
          g2 = fold (check_rendered known) (listed (tp_graph plan)) g1 in
      if tp_graph plan = None then g2 else fold check_declared (gc_declared g2) g2)"

definition validate_task_graph :: "js_host \<Rightarrow> traceable_plan \<Rightarrow> trace_diagnostic list" where
  "validate_task_graph h plan =
     (let g = check_graph plan in
      gc_found g @
      (if length (ready_order (gc_edges g)) \<noteq> length (tasks_by_id (tp_tasks plan))
       then [new_diagnostic TaskGraphCycle ''taskGraph'' ''Task dependencies must form an acyclic graph.'']
       else if tp_mode plan \<noteq> TestingPlan then validate_shared_write_order h (tp_tasks plan) (gc_edges g)
       else []))"

definition dependency_edges :: "plan_task list \<Rightarrow> (string \<times> string) list \<Rightarrow> (string \<times> string) list \<Rightarrow> task_edges" where
  "dependency_edges tasks graph extra =
     fold (\<lambda>(a, b) e. if a \<noteq> b \<and> map_of e b \<noteq> None then add_edge a b e else e)
       (concat (map stated_edges tasks) @ graph @ extra) (no_task_edges (map tk_id tasks))"

section \<open>The whole plan\<close>

definition duplicate_ids :: "string \<times> string list \<Rightarrow> trace_diagnostic list" where
  "duplicate_ids c = (if length (uniq (snd c)) \<noteq> length (snd c)
     then [new_diagnostic DuplicatePlanId (fst c) ''Identifiers must be unique within this collection.''] else [])"

definition task_reasons :: "traceable_plan \<Rightarrow> string list \<Rightarrow> nat \<times> plan_task \<Rightarrow> trace_diagnostic list" where
  "task_reasons plan accepted it =
     (let (i, t) = it; ptr = (\<lambda>field. ''tasks['' @ nat_string i @ ''].'' @ field) in
      concat (map (\<lambda>x. if x \<in> set accepted then [] else [new_diagnostic UnknownTaskIssue (ptr ''addresses.issues'')
          (''Task '' @ tk_id t @ '' refers to unaccepted issue '' @ x @ ''.'')]) (tk_issues t))
      @ (if tk_validation t = [] then [new_diagnostic TaskRequiresValidation (ptr ''addresses.validation'')
          (''Task '' @ tk_id t @ '' must map to at least one validation assertion.'')] else [])
      @ concat (map (\<lambda>x. if x \<in> set (tp_validation plan) then [] else [new_diagnostic UnknownTaskValidation (ptr ''addresses.validation'')
          (''Task '' @ tk_id t @ '' references unknown validation assertion '' @ x @ ''.'')]) (tk_validation t))
      @ (if tk_id t \<notin> set (tp_routing plan) \<or> tk_reasons t = [] then [new_diagnostic RoutingMissing (ptr ''routing'')
          (''Task '' @ tk_id t @ '' requires capability, effort and a routing reason.'')] else [])
      @ concat (map (\<lambda>q. if ''resolves:'' @ uq_id q \<in> set (tk_context t) then [new_diagnostic QuestionSilentlyResolved (ptr ''context'')
          (''Task '' @ tk_id t @ '' silently resolves '' @ uq_id q @ ''.'')] else [])
          (filter (\<lambda>q. uq_blocking q \<and> uq_radius q = HighBlast) (tp_questions plan))))"

definition mapping_of :: "traceable_plan \<Rightarrow> (string \<times> string list) list" where
  "mapping_of plan = fold (\<lambda>m. AList.update (mp_issue m) (mp_validation m)) (tp_mappings plan) []"

definition mapping_reasons :: "traceable_plan \<Rightarrow> string \<Rightarrow> trace_diagnostic list" where
  "mapping_reasons plan i =
     (let ids = (case map_of (mapping_of plan) i of None \<Rightarrow> [] | Some ids \<Rightarrow> ids) in
      (if ids = [] then [new_diagnostic IssueRequiresValidation ''traceability.issueToValidation''
          (''Accepted issue '' @ i @ '' must map to a validation assertion.'')] else [])
      @ concat (map (\<lambda>x. if x \<in> set (tp_validation plan) then [] else [new_diagnostic UnknownIssueValidation ''traceability.issueToValidation''
          (''Issue '' @ i @ '' references unknown validation assertion '' @ x @ ''.'')]) ids))"

definition link_reasons :: "traceable_plan \<Rightarrow> nat \<times> requirement_link \<Rightarrow> trace_diagnostic list" where
  "link_reasons plan il =
     (if list_ex (\<lambda>x. x \<notin> set (tp_validation plan)) (rl_validation (snd il))
         \<or> list_ex (\<lambda>x. x \<notin> set (map tk_id (tp_tasks plan))) (rl_tasks (snd il))
      then [new_diagnostic RequirementLinkInvalid (''traceability.requirementLinks.links['' @ nat_string (fst il) @ '']'')
        (''Requirement '' @ rl_requirement (snd il) @ '' must retain valid task and validation links.'')] else [])"

definition id_collections :: "traceable_plan \<Rightarrow> (string \<times> string list) list" where
  "id_collections plan =
     [(''tasks'', map tk_id (tp_tasks plan)), (''validationContract.validation'', tp_validation plan),
      (''acceptedIssueIds'', tp_accepted plan), (''unresolvedQuestions'', map uq_id (tp_questions plan)),
      (''traceability.issueToValidation'', map mp_issue (tp_mappings plan)), (''routingRecommendations'', tp_routing plan),
      (''traceability.requirementLinks'', map rl_requirement (tp_links plan))]"

definition untasked_issues :: "traceable_plan \<Rightarrow> string list \<Rightarrow> trace_diagnostic list" where
  "untasked_issues plan accepted = concat (map (\<lambda>i. if list_ex (\<lambda>t. i \<in> set (tk_issues t)) (tp_tasks plan) then []
     else [new_diagnostic IssueRequiresTask ''tasks'' (''Accepted issue '' @ i @ '' has no implementation task.'')]) accepted)"

definition unknown_names :: "traceable_plan \<Rightarrow> string list \<Rightarrow> trace_diagnostic list" where
  "unknown_names plan accepted =
     concat (map (\<lambda>m. if mp_issue m \<in> set accepted then []
       else [new_diagnostic InvalidPlanReference ''traceability.issueToValidation'' (''Unknown issue '' @ mp_issue m @ ''.'')]) (tp_mappings plan))
     @ concat (map (\<lambda>t. if t \<in> set (map tk_id (tp_tasks plan)) then []
       else [new_diagnostic InvalidPlanReference ''routingRecommendations'' (''Unknown task '' @ t @ ''.'')]) (tp_routing plan))"

definition accepted_mismatch :: "traceable_plan \<Rightarrow> string list \<Rightarrow> trace_diagnostic list" where
  "accepted_mismatch plan accepted =
     (if list_ex (\<lambda>i. i \<notin> set (tp_accepted plan)) accepted \<or> list_ex (\<lambda>i. i \<notin> set accepted) (tp_accepted plan)
      then [new_diagnostic IssueSetMismatch ''acceptedIssueIds''
        ''Plan acceptedIssueIds must exactly match accepted canonical issue input.''] else [])"

definition validate_traceability :: "js_host \<Rightarrow> traceable_plan \<Rightarrow> string list \<Rightarrow> trace_diagnostic list" where
  "validate_traceability h plan expected =
     (let accepted = uniq expected in
      concat (map duplicate_ids (id_collections plan))
      @ untasked_issues plan accepted @ unknown_names plan accepted @ accepted_mismatch plan accepted
      @ concat (map (task_reasons plan accepted) (enumerate 0 (tp_tasks plan)))
      @ concat (map (mapping_reasons plan) accepted)
      @ (if tp_mode plan = FeaturePlan then concat (map (link_reasons plan) (enumerate 0 (tp_links plan))) else [])
      @ validate_task_graph h plan)"

section \<open>What a task writes\<close>

text \<open>A file a task may write: one its \<open>likelyFiles\<close> name and its \<open>filesNotToTouch\<close> do not.\<close>

definition may_write :: "plan_task \<Rightarrow> string list \<Rightarrow> bool" where
  "may_write t path \<longleftrightarrow> (\<exists>f \<in> set (listed (tk_files t)). entry_names f path) \<and> \<not> (\<exists>x \<in> set (listed (tk_spared t)). entry_names x path)"

definition readable_files :: "plan_task \<Rightarrow> bool" where
  "readable_files t \<longleftrightarrow> list_all readable (listed (tk_files t))"

lemma write_paths:
  "fst ` set (fold (add_write excluded) files paths) = fst ` set paths \<union> {k. \<exists>f \<in> set files. k = scope_key f \<and> k \<noteq> [] \<and> \<not> list_ex (entry_within k) excluded}"
proof (induction files arbitrary: paths)
  case (Cons f files)
  have "fst ` set (add_write excluded f paths) = fst ` set paths \<union> {k. k = scope_key f \<and> k \<noteq> [] \<and> \<not> list_ex (entry_within k) excluded}"
    by (auto simp: add_write_def Let_def map_of_eq_None_iff image_iff)
  with Cons.IH [of "add_write excluded f paths"] show ?case by auto
qed simp

lemma write_scopes_of: "w \<in> set (write_scopes tasks) \<longleftrightarrow> wr_paths w \<noteq> [] \<and> (\<exists>i < length tasks. w = write_scope i (tasks ! i))"
  unfolding write_scopes_def by (auto simp: in_set_enumerate_eq)

lemma excluded_names: "k \<in> set (excluded_keys t) \<Longrightarrow> names_file k path \<Longrightarrow> \<exists>x \<in> set (listed (tk_spared t)). entry_names x path"
  unfolding excluded_keys_def entry_names_def by auto

text \<open>A task that may write a file is a writer with an entry that names it; no exclusion of it names the file.\<close>

lemma may_write_scope:
  assumes "i < length tasks" "may_write (tasks ! i) path" "readable_files (tasks ! i)"
  shows "\<exists>k \<in> fst ` set (wr_paths (write_scope i (tasks ! i))). names_file k path \<and> exact k \<and> anchored k"
    "write_scope i (tasks ! i) \<in> set (write_scopes tasks)"
    "\<forall>x \<in> set (wr_excluded (write_scope i (tasks ! i))). \<not> names_file x path"
proof -
  let ?t = "tasks ! i"
  from assms(2) obtain f where f: "f \<in> set (listed (tk_files ?t))" "scope_key f \<noteq> []" "names_file (scope_key f) path"
    unfolding may_write_def entry_names_def by blast
  with assms(3) have r: "exact (scope_key f)" "anchored (scope_key f)" by (auto simp: readable_files_def readable_def list_all_iff)
  have no: "\<not> names_file x path" if "x \<in> set (excluded_keys ?t)" for x
    using assms(2) excluded_names [OF that] unfolding may_write_def by blast
  have "\<not> list_ex (entry_within (scope_key f)) (excluded_keys ?t)"
    using no entry_within_sound [OF _ f(3) r] unfolding list_ex_iff by blast
  with f have "scope_key f \<in> fst ` set (wr_paths (write_scope i ?t))" unfolding write_scope_def by (simp add: write_paths) blast
  with f r show "\<exists>k \<in> fst ` set (wr_paths (write_scope i ?t)). names_file k path \<and> exact k \<and> anchored k" by blast
  then show "write_scope i ?t \<in> set (write_scopes tasks)" using assms(1) unfolding write_scopes_of by auto
  show "\<forall>x \<in> set (wr_excluded (write_scope i ?t)). \<not> names_file x path" using no by (simp add: write_scope_def)
qed

definition shares_writes :: "writer \<Rightarrow> writer \<Rightarrow> bool" where
  "shares_writes a b \<longleftrightarrow> (\<exists>k \<in> fst ` set (wr_paths a). \<exists>l \<in> fst ` set (wr_paths b). covers k l
     \<and> (\<forall>x \<in> set (wr_excluded a) \<union> set (wr_excluded b). \<not> entry_within k x \<and> \<not> entry_within l x))"

lemma shared_writes_Nil: "shared_writes a b = [] \<longleftrightarrow> \<not> shares_writes a b"
  unfolding shared_writes_def shares_writes_def Let_def filter_empty_conv list_ex_iff map_is_Nil_conv by (force simp: Ball_def)

lemma shares_writes_sym: "shares_writes a b \<longleftrightarrow> shares_writes b a"
  unfolding shares_writes_def using covers_sym by blast

text \<open>Two tasks that may write the same file share writes.\<close>

lemma common_file_shared:
  assumes "i < length tasks" "may_write (tasks ! i) path" "readable_files (tasks ! i)"
    "j < length tasks" "may_write (tasks ! j) path" "readable_files (tasks ! j)"
  shows "shares_writes (write_scope i (tasks ! i)) (write_scope j (tasks ! j))"
proof -
  note I = may_write_scope [OF assms(1-3)] and J = may_write_scope [OF assms(4-6)]
  from I(1) obtain k where k: "k \<in> fst ` set (wr_paths (write_scope i (tasks ! i)))" "names_file k path" "exact k" "anchored k" by blast
  from J(1) obtain l where l: "l \<in> fst ` set (wr_paths (write_scope j (tasks ! j)))" "names_file l path" "exact l" "anchored l" by blast
  have "\<not> entry_within k x \<and> \<not> entry_within l x"
    if "x \<in> set (wr_excluded (write_scope i (tasks ! i))) \<union> set (wr_excluded (write_scope j (tasks ! j)))" for x
    using that I(3) J(3) entry_within_sound [OF _ k(2-4)] entry_within_sound [OF _ l(2-4)] by blast
  with covers_complete [OF k(2) l(2) k(3) l(3)] k(1) l(1) show ?thesis unfolding shares_writes_def by blast
qed

section \<open>The check of shared writes\<close>

definition conflict :: "task_edges \<Rightarrow> writer \<Rightarrow> writer \<Rightarrow> bool" where
  "conflict e a b \<longleftrightarrow> writer_id a \<noteq> writer_id b \<and> shares_writes a b
     \<and> (writer_id a, writer_id b) \<notin> (order_rel e)\<^sup>+ \<and> (writer_id b, writer_id a) \<notin> (order_rel e)\<^sup>+"

lemma conflict_sym: "conflict e a b \<longleftrightarrow> conflict e b a"
  unfolding conflict_def shares_writes_sym [of a b] by auto

lemma check_pair_quiet: "\<not> conflict e l r \<Longrightarrow> oc_found (check_pair h e (l, r) s) = oc_found s \<and> oc_omitted (check_pair h e (l, r) s) = oc_omitted s"
  using shares_writes_sym [of l r] by (auto simp: check_pair_def conflict_def reachable_tasks shared_writes_Nil Let_def)

lemma checks_quiet: "list_all (\<lambda>(l, r). \<not> conflict e l r) ps \<Longrightarrow>
    oc_found (fold (check_pair h e) ps s) = oc_found s \<and> oc_omitted (fold (check_pair h e) ps s) = oc_omitted s"
proof (induction ps arbitrary: s)
  case (Cons p ps)
  then show ?case using check_pair_quiet [of e "fst p" "snd p" h s] by (cases p) simp
qed simp

lemma later_pairs_in: "(x, y) \<in> set (later_pairs xs) \<Longrightarrow> x \<in> set xs \<and> y \<in> set xs"
  by (induction xs) auto

lemma later_pairs_all: "x \<in> set xs \<Longrightarrow> y \<in> set xs \<Longrightarrow> x \<noteq> y \<Longrightarrow> (x, y) \<in> set (later_pairs xs) \<or> (y, x) \<in> set (later_pairs xs)"
  by (induction xs) auto

lemma no_conflict_no_report:
  assumes "\<And>a b. a \<in> set (write_scopes tasks) \<Longrightarrow> b \<in> set (write_scopes tasks) \<Longrightarrow> \<not> conflict e a b"
  shows "validate_shared_write_order h tasks e = []"
proof -
  have "list_all (\<lambda>(l, r). \<not> conflict e l r) (later_pairs (write_scopes tasks))"
    using assms later_pairs_in unfolding list_all_iff by fast
  from checks_quiet [OF this] show ?thesis by (simp add: validate_shared_write_order_def Let_def)
qed

definition unreported :: "order_check \<Rightarrow> bool" where
  "unreported s \<longleftrightarrow> oc_found s = [] \<and> oc_omitted s = 0"

definition pair_key :: "js_host \<Rightarrow> writer \<times> writer \<Rightarrow> string \<times> string" where
  "pair_key h lr = (if lc h (writer_id (fst lr)) (writer_id (snd lr)) then (writer_id (fst lr), writer_id (snd lr))
     else (writer_id (snd lr), writer_id (fst lr)))"

lemma check_pair_seen: "set (oc_seen (check_pair h e p s)) \<subseteq> insert (pair_key h p) (set (oc_seen s))"
  by (auto simp: check_pair_def pair_key_def Let_def split: prod.splits if_splits)

lemma check_pair_quietD:
  "unreported (check_pair h e (l, r) s) \<Longrightarrow> unreported s \<and> (conflict e l r \<longrightarrow> pair_key h (l, r) \<in> set (oc_seen s))"
  using shares_writes_sym [of l r]
  by (auto simp: unreported_def check_pair_def pair_key_def conflict_def reachable_tasks shared_writes_Nil Let_def split: if_splits)

lemma same_pair:
  "pair_key h (l, r) = pair_key h (l', r') \<Longrightarrow> writer_id l = writer_id l' \<and> writer_id r = writer_id r' \<or> writer_id l = writer_id r' \<and> writer_id r = writer_id l'"
  by (auto simp: pair_key_def split: if_splits)

lemma checks_report:
  assumes "unreported (fold (check_pair h e) ps s)" "inj_on writer_id W" "set (past @ ps) \<subseteq> W \<times> W"
    and "\<forall>(l, r) \<in> set past. \<not> conflict e l r" "set (oc_seen s) \<subseteq> pair_key h ` set past"
  shows "\<forall>(l, r) \<in> set (past @ ps). \<not> conflict e l r"
  using assms
proof (induction ps arbitrary: s past)
  case (Cons p ps)
  obtain l r where p: "p = (l, r)" by fastforce
  have unreported: "unreported (check_pair h e p s)"
  proof -
    have "unreported (fold (check_pair h e) qs u) \<Longrightarrow> unreported u" for qs u
      by (induction qs arbitrary: u) (auto dest: check_pair_quietD)
    with Cons.prems(1) show ?thesis by simp
  qed
  have calm: "\<not> conflict e l r"
  proof
    assume conflict: "conflict e l r"
    with check_pair_quietD [OF unreported [unfolded p]] Cons.prems(5) obtain l' r' where
      old: "(l', r') \<in> set past" "pair_key h (l, r) = pair_key h (l', r')" by auto
    with Cons.prems(3) p have W: "l \<in> W" "r \<in> W" "l' \<in> W" "r' \<in> W" by auto
    from same_pair [OF old(2)] have "l = l' \<and> r = r' \<or> l = r' \<and> r = l'"
      using Cons.prems(2) W unfolding inj_on_def by blast
    with conflict conflict_sym Cons.prems(4) old(1) show False by blast
  qed
  have "\<forall>(l, r) \<in> set ((past @ [p]) @ ps). \<not> conflict e l r"
  proof (rule Cons.IH)
    show "unreported (fold (check_pair h e) ps (check_pair h e p s))" using Cons.prems(1) by simp
    show "set ((past @ [p]) @ ps) \<subseteq> W \<times> W" using Cons.prems(3) by simp
    show "\<forall>(l, r) \<in> set (past @ [p]). \<not> conflict e l r" using Cons.prems(4) calm p by auto
    show "set (oc_seen (check_pair h e p s)) \<subseteq> pair_key h ` set (past @ [p])"
      using check_pair_seen [of h e p s] Cons.prems(5) by auto
  qed (rule Cons.prems(2))
  then show ?case by simp
qed simp

lemma writers_distinct:
  assumes "distinct (map tk_id tasks)"
  shows "inj_on writer_id (set (write_scopes tasks))"
proof
  fix v w assume "v \<in> set (write_scopes tasks)" "w \<in> set (write_scopes tasks)" and eq: "writer_id v = writer_id w"
  then obtain i j where "i < length tasks" "v = write_scope i (tasks ! i)" "j < length tasks" "w = write_scope j (tasks ! j)"
    unfolding write_scopes_of by auto
  with eq assms show "v = w" by (auto simp: writer_id_def write_scope_def distinct_conv_nth)
qed

text \<open>Without a report, any two tasks that share writes are ordered.\<close>

lemma no_report_no_conflict:
  assumes "validate_shared_write_order h tasks e = []" "distinct (map tk_id tasks)"
    and "a \<in> set (write_scopes tasks)" "b \<in> set (write_scopes tasks)"
  shows "\<not> conflict e a b"
proof (cases "a = b")
  case False
  have unreported: "unreported (fold (check_pair h e) (later_pairs (write_scopes tasks)) \<lparr>oc_seen = [], oc_found = [], oc_omitted = 0\<rparr>)"
    using assms(1) by (simp add: validate_shared_write_order_def unreported_def Let_def split: if_splits)
  have "set ([] @ later_pairs (write_scopes tasks)) \<subseteq> set (write_scopes tasks) \<times> set (write_scopes tasks)"
    using later_pairs_in by fastforce
  from checks_report [OF unreported writers_distinct [OF assms(2)] this] have
    "\<forall>(l, r) \<in> set (later_pairs (write_scopes tasks)). \<not> conflict e l r" by simp
  with later_pairs_all [OF assms(3,4) False] conflict_sym show ?thesis by blast
qed (simp add: conflict_def)

section \<open>The check of the graph\<close>

text \<open>Everything the plan states of the order of its tasks, in the tasks and in the graph.\<close>

definition task_orders :: "plan_task list \<Rightarrow> (string \<times> string) set" where
  "task_orders tasks = (\<Union>t \<in> set tasks. set (stated_edges t))"

definition stated_order :: "traceable_plan \<Rightarrow> (string \<times> string) set" where
  "stated_order plan = task_orders (tp_tasks plan) \<union> set (listed (tp_graph plan))"

definition graph_state :: "string set \<Rightarrow> (string \<times> string) set \<Rightarrow> (string \<times> string) set \<Rightarrow> (string \<times> string) set \<Rightarrow> graph_check \<Rightarrow> bool" where
  "graph_state K R D S g \<longleftrightarrow> edges_ok K (gc_edges g) \<and> order_rel (gc_edges g) = R \<and> set (gc_declared g) = D \<and> set (gc_rendered g) = S"

lemma tasks_by_id_keys: "fst ` set (tasks_by_id tasks) = tk_id ` set tasks" "distinct (map fst (tasks_by_id tasks))"
proof -
  have "fst ` set (fold (\<lambda>t. AList.update (tk_id t) t) tasks m) = tk_id ` set tasks \<union> fst ` set m" for m :: "(string \<times> plan_task) list"
    by (induction tasks arbitrary: m) auto
  then show "fst ` set (tasks_by_id tasks) = tk_id ` set tasks" by (simp add: tasks_by_id_def)
  have "distinct (map fst (fold (\<lambda>t. AList.update (tk_id t) t) tasks m))" if "distinct (map fst m)" for m :: "(string \<times> plan_task) list"
    using that by (induction tasks arbitrary: m) auto
  then show "distinct (map fst (tasks_by_id tasks))" by (simp add: tasks_by_id_def)
qed

lemma tasks_by_id_iff: "map_of (tasks_by_id tasks) a = None \<longleftrightarrow> a \<notin> tk_id ` set tasks"
  by (metis map_of_eq_None_iff tasks_by_id_keys(1))

lemma check_edgeD:
  assumes "gc_found (check_edge known a b g) = []" "K = fst ` set known"
  shows "gc_found g = [] \<and> a \<noteq> b \<and> (graph_state K R D S g \<longrightarrow> graph_state K (insert (a, b) R) D S (check_edge known a b g))"
proof -
  from assms have "a \<noteq> b" "a \<in> K" "b \<in> K" and g: "check_edge known a b g = g\<lparr>gc_edges := add_edge a b (gc_edges g)\<rparr>"
    by (auto simp: check_edge_def invalid_graph_def map_of_eq_None_iff split: if_splits)
  with assms add_edge_ok [of K "gc_edges g" a b] show ?thesis by (auto simp: graph_state_def)
qed

lemma declare_edge_state:
  "gc_found (declare_edge known ab g) = gc_found (check_edge known (fst ab) (snd ab) g)"
  "graph_state K R D S (check_edge known (fst ab) (snd ab) g) \<Longrightarrow> graph_state K R (insert ab D) S (declare_edge known ab g)"
  by (auto simp: declare_edge_def graph_state_def Let_def)

lemma declare_edgesD:
  "gc_found (fold (declare_edge known) es g) = [] \<Longrightarrow> K = fst ` set known \<Longrightarrow>
     gc_found g = [] \<and> (graph_state K R D S g \<longrightarrow> graph_state K (R \<union> set es) (D \<union> set es) S (fold (declare_edge known) es g))"
proof (induction es arbitrary: g R D)
  case (Cons ab es)
  from Cons.IH [of "declare_edge known ab g" "insert ab R" "insert ab D"] Cons.prems have
    later: "gc_found (check_edge known (fst ab) (snd ab) g) = []"
      "graph_state K (insert ab R) (insert ab D) S (declare_edge known ab g) \<longrightarrow>
        graph_state K (R \<union> set (ab # es)) (D \<union> set (ab # es)) S (fold (declare_edge known) (ab # es) g)"
    by (simp_all add: declare_edge_state(1))
  from check_edgeD [OF later(1) Cons.prems(2), of R D S] declare_edge_state(2) [of K "insert ab R" D S known ab g] later(2) show ?case
    by (simp only: prod.collapse) blast
qed simp

lemma check_conflictsD: "gc_found (fold (check_conflict known a) bs g) = [] \<Longrightarrow> gc_found g = [] \<and> fold (check_conflict known a) bs g = g"
proof (induction bs arbitrary: g)
  case (Cons b bs)
  from Cons.IH [of "check_conflict known a b g"] Cons.prems show ?case
    by (auto simp: check_conflict_def invalid_graph_def split: if_splits)
qed simp

lemma check_tasksD:
  "gc_found (fold (check_task known) ts g) = [] \<Longrightarrow> K = fst ` set known \<Longrightarrow>
     gc_found g = [] \<and> (graph_state K R D S g \<longrightarrow> graph_state K (R \<union> task_orders ts) (D \<union> task_orders ts) S (fold (check_task known) ts g))"
proof (induction ts arbitrary: g R D)
  case (Cons t ts)
  from Cons.IH [of "check_task known t g" "R \<union> set (stated_edges t)" "D \<union> set (stated_edges t)"] Cons.prems have
    later: "gc_found (check_task known t g) = []"
      "graph_state K (R \<union> set (stated_edges t)) (D \<union> set (stated_edges t)) S (check_task known t g) \<longrightarrow>
        graph_state K (R \<union> task_orders (t # ts)) (D \<union> task_orders (t # ts)) S (fold (check_task known) (t # ts) g)"
    by (simp_all add: task_orders_def Un_assoc)
  show ?case
  proof (cases "tk_dependencies t")
    case None
    then have "check_task known t g = g" "stated_edges t = []" by (simp_all add: check_task_def stated_edges_def)
    with later show ?thesis by simp
  next
    case (Some d)
    with later(1) check_conflictsD have all: "gc_found (fold (declare_edge known) (stated_edges t) g) = []"
      "check_task known t g = fold (declare_edge known) (stated_edges t) g"
      by (auto simp: check_task_def)
    from declare_edgesD [OF all(1) Cons.prems(2), of R D S] later(2) all(2) show ?thesis by simp
  qed
qed (simp add: task_orders_def)

lemma check_renderedD:
  "gc_found (fold (check_rendered known) es g) = [] \<Longrightarrow> K = fst ` set known \<Longrightarrow>
     gc_found g = [] \<and> (graph_state K R D S g \<longrightarrow> graph_state K (R \<union> set es) D (S \<union> set es) (fold (check_rendered known) es g)
       \<and> (\<forall>(a, b) \<in> set es. states_dependencies known a \<and> states_dependencies known b \<longrightarrow> (a, b) \<in> D))"
proof (induction es arbitrary: g R S)
  case (Cons ab es)
  obtain a b where ab: "ab = (a, b)" by fastforce
  let ?g = "check_rendered known ab g"
  from Cons.IH [of ?g "insert ab R" "insert ab S"] Cons.prems have
    later: "gc_found ?g = []"
      "graph_state K (insert ab R) D (insert ab S) ?g \<longrightarrow>
        graph_state K (R \<union> set (ab # es)) D (S \<union> set (ab # es)) (fold (check_rendered known) (ab # es) g)
       \<and> (\<forall>(a, b) \<in> set es. states_dependencies known a \<and> states_dependencies known b \<longrightarrow> (a, b) \<in> D)"
    by simp_all
  let ?h = "g\<lparr>gc_rendered := set_add ab (gc_rendered g)\<rparr>"
  from later(1) have fresh: "ab \<notin> set (gc_rendered g)"
    by (auto simp: check_rendered_def check_edge_def invalid_graph_def ab Let_def split: if_splits)
  then have g: "?g = (let g2 = check_edge known a b ?h in if states_dependencies known a \<and> states_dependencies known b \<and> ab \<notin> set (gc_declared g2)
      then invalid_graph (''Graph edge '' @ a @ '' -> '' @ b @ '' is absent from task dependencies.'') g2 else g2)"
    by (simp add: check_rendered_def ab Let_def)
  from later(1) g have edge: "gc_found (check_edge known a b ?h) = []" "?g = check_edge known a b ?h"
    "states_dependencies known a \<and> states_dependencies known b \<longrightarrow> ab \<in> set (gc_declared (check_edge known a b ?h))"
    by (auto simp: invalid_graph_def Let_def split: if_splits)
  from check_edgeD [OF edge(1) Cons.prems(2), of R D "insert ab S"] have
    "gc_found g = []" "graph_state K R D S g \<longrightarrow> graph_state K (insert ab R) D (insert ab S) (check_edge known a b ?h)"
    by (auto simp: graph_state_def ab)
  with later(2) edge show ?case by (auto simp: ab graph_state_def)
qed simp

lemma check_declaredD:
  "gc_found (fold check_declared ds g) = [] \<Longrightarrow> gc_found g = [] \<and> fold check_declared ds g = g \<and> set ds \<subseteq> set (gc_rendered g)"
proof (induction ds arbitrary: g)
  case (Cons d ds)
  from Cons.IH [of "check_declared d g"] Cons.prems show ?case
    by (auto simp: check_declared_def invalid_graph_def split: if_splits)
qed simp

text \<open>A graph without findings holds exactly what the plan states, and the two statements of the order agree.\<close>

lemma check_graphD:
  assumes "gc_found (check_graph plan) = []" "e = gc_edges (check_graph plan)" "K = tk_id ` set (tp_tasks plan)"
  shows "edges_ok K e" "order_rel e = stated_order plan"
    "tp_graph plan = Some es \<Longrightarrow> task_orders (tp_tasks plan) \<subseteq> set es"
    "tp_graph plan = Some es \<Longrightarrow> list_all (\<lambda>t. tk_dependencies t \<noteq> None) (tp_tasks plan) \<Longrightarrow> set es = task_orders (tp_tasks plan)"
proof -
  let ?known = "tasks_by_id (tp_tasks plan)"
  let ?start = "\<lparr>gc_edges = no_task_edges (map tk_id (tp_tasks plan)), gc_declared = [], gc_rendered = [], gc_found = []\<rparr>"
  let ?g1 = "fold (check_task ?known) (tp_tasks plan) ?start"
  let ?g2 = "fold (check_rendered ?known) (listed (tp_graph plan)) ?g1"
  have K: "K = fst ` set ?known" using assms(3) tasks_by_id_keys(1) by simp
  have start: "graph_state K {} {} {} ?start"
    using no_task_edges_ok [of "map tk_id (tp_tasks plan)"] assms(3) by (auto simp: graph_state_def order_rel_def)
  have final: "check_graph plan = (if tp_graph plan = None then ?g2 else fold check_declared (gc_declared ?g2) ?g2)"
    by (simp only: check_graph_def Let_def)
  with assms(1) check_declaredD [of "gc_declared ?g2" ?g2] have g2: "gc_found ?g2 = []" "check_graph plan = ?g2"
    "tp_graph plan \<noteq> None \<Longrightarrow> set (gc_declared ?g2) \<subseteq> set (gc_rendered ?g2)"
    by (simp_all split: if_splits)
  from check_renderedD [OF g2(1) K] have g1: "gc_found ?g1 = []" by blast
  from check_tasksD [OF g1 K, of "{}" "{}" "{}"] start have
    s1: "graph_state K (task_orders (tp_tasks plan)) (task_orders (tp_tasks plan)) {} ?g1" by simp
  from check_renderedD [OF g2(1) K] s1 have
    s2: "graph_state K (stated_order plan) (task_orders (tp_tasks plan)) (set (listed (tp_graph plan))) ?g2"
      "\<forall>(a, b) \<in> set (listed (tp_graph plan)). states_dependencies ?known a \<and> states_dependencies ?known b \<longrightarrow> (a, b) \<in> task_orders (tp_tasks plan)"
    unfolding stated_order_def by fastforce+
  from s2(1) g2(2) assms(2) show ok: "edges_ok K e" "order_rel e = stated_order plan" by (simp_all add: graph_state_def)
  show sub: "task_orders (tp_tasks plan) \<subseteq> set es" if "tp_graph plan = Some es"
    using s2(1) g2(3) that by (simp add: graph_state_def listed_def)
  show "set es = task_orders (tp_tasks plan)"
    if es: "tp_graph plan = Some es" and all: "list_all (\<lambda>t. tk_dependencies t \<noteq> None) (tp_tasks plan)"
  proof (rule antisym [OF _ sub [OF es]], rule subsetI)
    fix ab assume ab: "ab \<in> set es"
    obtain a b where p: "ab = (a, b)" by fastforce
    have states: "states_dependencies ?known x" if "x \<in> K" for x
    proof -
      from that K obtain t where t: "map_of ?known x = Some t" by (metis map_of_eq_None_iff not_None_eq)
      have "snd ` set (fold (\<lambda>t. AList.update (tk_id t) t) ts m) \<subseteq> set ts \<union> snd ` set m" for ts and m :: "(string \<times> plan_task) list"
      proof (induction ts arbitrary: m)
        case (Cons u ts)
        have "snd ` set (AList.update (tk_id u) u m) \<subseteq> insert u (snd ` set m)" by (induction m) auto
        with Cons.IH [of "AList.update (tk_id u) u m"] show ?case by auto
      qed simp
      from this [of "tp_tasks plan" "[]"] map_of_SomeD [OF t] have "t \<in> set (tp_tasks plan)" by (auto simp: tasks_by_id_def)
      with all t show ?thesis by (auto simp: states_dependencies_def list_all_iff)
    qed
    have "ab \<in> order_rel e" using ok(2) ab es by (simp add: stated_order_def listed_def)
    with ok(1) p have "a \<in> K" "b \<in> K" unfolding edges_ok_def by auto
    with s2(2) ab es p states show "ab \<in> task_orders (tp_tasks plan)" by (auto simp: listed_def)
  qed
qed

section \<open>Accepted plans\<close>

lemma task_graph_Nil:
  assumes "validate_task_graph h plan = []"
  shows "gc_found (check_graph plan) = []" "length (ready_order (gc_edges (check_graph plan))) = length (tasks_by_id (tp_tasks plan))"
    "tp_mode plan \<noteq> TestingPlan \<Longrightarrow> validate_shared_write_order h (tp_tasks plan) (gc_edges (check_graph plan)) = []"
  using assms by (auto simp: validate_task_graph_def Let_def split: if_splits)

lemma traceability_Nil:
  assumes "validate_traceability h plan expected = []"
  shows "distinct (map tk_id (tp_tasks plan))" "distinct (map mp_issue (tp_mappings plan))"
    "set (tp_accepted plan) = set expected"
    "\<forall>i \<in> set expected. \<exists>t \<in> set (tp_tasks plan). i \<in> set (tk_issues t)"
    "\<forall>i \<in> set expected. mapping_reasons plan i = []"
    "\<forall>it \<in> set (enumerate 0 (tp_tasks plan)). task_reasons plan (uniq expected) it = []"
    "tp_mode plan = FeaturePlan \<Longrightarrow> \<forall>il \<in> set (enumerate 0 (tp_links plan)). link_reasons plan il = []"
    "validate_task_graph h plan = []"
proof -
  note nil = assms [unfolded validate_traceability_def Let_def append_is_Nil_conv concat_eq_Nil_conv set_map set_uniq]
  from nil have "\<forall>c \<in> set (id_collections plan). duplicate_ids c = []" by simp
  moreover have "duplicate_ids c = [] \<Longrightarrow> length (uniq (snd c)) = length (snd c)" for c
    by (simp add: duplicate_ids_def split: if_splits)
  ultimately have "\<forall>c \<in> set (id_collections plan). length (uniq (snd c)) = length (snd c)" by blast
  then show "distinct (map tk_id (tp_tasks plan))" "distinct (map mp_issue (tp_mappings plan))"
    by (simp_all add: id_collections_def length_uniq_eq_iff)
  from nil have "untasked_issues plan (uniq expected) = []" "accepted_mismatch plan (uniq expected) = []" by simp_all
  note none = this [unfolded untasked_issues_def accepted_mismatch_def concat_eq_Nil_conv set_map set_uniq ball_simps(9)]
  from none(1) show "\<forall>i \<in> set expected. \<exists>t \<in> set (tp_tasks plan). i \<in> set (tk_issues t)"
    by (simp add: list_ex_iff split: if_splits)
  from none(2) show "set (tp_accepted plan) = set expected" by (auto simp: list_ex_iff split: if_splits)
  show "validate_task_graph h plan = []" "\<forall>i \<in> set expected. mapping_reasons plan i = []"
    "\<forall>it \<in> set (enumerate 0 (tp_tasks plan)). task_reasons plan (uniq expected) it = []"
    using nil by simp_all
  show "\<forall>il \<in> set (enumerate 0 (tp_links plan)). link_reasons plan il = []" if "tp_mode plan = FeaturePlan" using nil that by simp
qed

lemma mapping_reasons_Nil:
  assumes "mapping_reasons plan i = []" "distinct (map mp_issue (tp_mappings plan))"
  shows "\<exists>m \<in> set (tp_mappings plan). mp_issue m = i \<and> mp_validation m \<noteq> [] \<and> set (mp_validation m) \<subseteq> set (tp_validation plan)"
proof -
  obtain ids where ids: "map_of (mapping_of plan) i = Some ids" "ids \<noteq> []" "set ids \<subseteq> set (tp_validation plan)"
    using assms(1) by (auto simp: mapping_reasons_def Let_def split: option.splits if_splits)
  have "map_of (fold (\<lambda>m. AList.update (mp_issue m) (mp_validation m)) ms acc) i = Some ids \<Longrightarrow>
      map_of acc i = Some ids \<or> (\<exists>m \<in> set ms. mp_issue m = i \<and> mp_validation m = ids)" for ms acc
  proof (induction ms arbitrary: acc)
    case (Cons m ms)
    from Cons.IH [of "AList.update (mp_issue m) (mp_validation m) acc"] Cons.prems show ?case by (auto split: if_splits)
  qed simp
  from this [of "tp_mappings plan" "[]"] ids show ?thesis by (auto simp: mapping_of_def)
qed

lemma task_reasons_Nil:
  assumes "task_reasons plan accepted (i, t) = []"
  shows "tk_validation t \<noteq> []" "set (tk_validation t) \<subseteq> set (tp_validation plan)" "set (tk_issues t) \<subseteq> set accepted"
    "tk_id t \<in> set (tp_routing plan)" "tk_reasons t \<noteq> []"
    "\<forall>q \<in> set (tp_questions plan). uq_blocking q \<and> uq_radius q = HighBlast \<longrightarrow> ''resolves:'' @ uq_id q \<notin> set (tk_context t)"
proof -
  note nil = assms [unfolded task_reasons_def Let_def prod.case append_is_Nil_conv concat_eq_Nil_conv set_map ball_simps(9)]
  show "tk_validation t \<noteq> []" "tk_id t \<in> set (tp_routing plan)" "tk_reasons t \<noteq> []" using nil by (simp_all split: if_splits)
  show "set (tk_validation t) \<subseteq> set (tp_validation plan)" "set (tk_issues t) \<subseteq> set accepted" using nil by (auto split: if_splits)
  show "\<forall>q \<in> set (tp_questions plan). uq_blocking q \<and> uq_radius q = HighBlast \<longrightarrow> ''resolves:'' @ uq_id q \<notin> set (tk_context t)"
    using nil by (simp split: if_splits) blast
qed

text \<open>
  C34. A plan the check accepts covers the accepted issues and only those: its list of accepted issues is the expected
  one, each has a task that addresses it and a stated mapping to validation assertions that exist, every task addresses
  accepted issues only, is validated by at least one existing assertion and has a routing recommendation with a reason,
  and no task resolves a blocking question of high blast radius by itself.
\<close>

theorem accepted_plan_traceable:
  assumes "validate_traceability h plan expected = []"
  shows "set (tp_accepted plan) = set expected
    \<and> (\<forall>i \<in> set expected. (\<exists>t \<in> set (tp_tasks plan). i \<in> set (tk_issues t))
        \<and> (\<exists>m \<in> set (tp_mappings plan). mp_issue m = i \<and> mp_validation m \<noteq> [] \<and> set (mp_validation m) \<subseteq> set (tp_validation plan)))
    \<and> (\<forall>t \<in> set (tp_tasks plan). set (tk_issues t) \<subseteq> set expected
        \<and> tk_validation t \<noteq> [] \<and> set (tk_validation t) \<subseteq> set (tp_validation plan)
        \<and> tk_id t \<in> set (tp_routing plan) \<and> tk_reasons t \<noteq> []
        \<and> (\<forall>q \<in> set (tp_questions plan). uq_blocking q \<and> uq_radius q = HighBlast \<longrightarrow> ''resolves:'' @ uq_id q \<notin> set (tk_context t)))"
proof (intro conjI ballI)
  note nil = traceability_Nil [OF assms]
  show "set (tp_accepted plan) = set expected" by (rule nil(3))
  show "\<exists>t \<in> set (tp_tasks plan). i \<in> set (tk_issues t)" if "i \<in> set expected" for i using nil(4) that by blast
  show "\<exists>m \<in> set (tp_mappings plan). mp_issue m = i \<and> mp_validation m \<noteq> [] \<and> set (mp_validation m) \<subseteq> set (tp_validation plan)"
    if "i \<in> set expected" for i using mapping_reasons_Nil [OF _ nil(2)] nil(5) that by blast
  fix t assume "t \<in> set (tp_tasks plan)"
  then obtain i where "i < length (tp_tasks plan)" "t = tp_tasks plan ! i" by (metis in_set_conv_nth)
  then have "(i, t) \<in> set (enumerate 0 (tp_tasks plan))" by (simp add: in_set_enumerate_eq)
  with nil(6) have "task_reasons plan (uniq expected) (i, t) = []" by blast
  note task = task_reasons_Nil [OF this, unfolded set_uniq]
  show "set (tk_issues t) \<subseteq> set expected" "tk_validation t \<noteq> []" "set (tk_validation t) \<subseteq> set (tp_validation plan)"
    "tk_id t \<in> set (tp_routing plan)" "tk_reasons t \<noteq> []" by (rule task)+
  show "uq_blocking q \<and> uq_radius q = HighBlast \<longrightarrow> ''resolves:'' @ uq_id q \<notin> set (tk_context t)" if "q \<in> set (tp_questions plan)" for q
    using task(6) that by (rule bspec)
qed

section \<open>An example\<close>

definition task_example :: "string \<Rightarrow> string list \<Rightarrow> string list \<Rightarrow> string list \<Rightarrow> plan_task" where
  "task_example i first files spared = \<lparr>tk_id = i, tk_issues = [''bug''], tk_validation = [''v''], tk_requirements = [], tk_context = [],
     tk_capability = ''code'', tk_effort = ''low'', tk_reasons = [''r''],
     tk_dependencies = Some \<lparr>pd_on = first, pd_blocks = [], pd_conflicts = []\<rparr>, tk_files = Some files, tk_spared = Some spared\<rparr>"

definition plan_example :: "string list \<Rightarrow> (string \<times> string) list \<Rightarrow> traceable_plan" where
  "plan_example first graph = \<lparr>tp_mode = AuditPlan, tp_accepted = [''bug''], tp_questions = [], tp_validation = [''v''],
     tp_tasks = [task_example ''a'' [] [''src/x.ts''] [], task_example ''b'' first [''src/*.ts''] [''src/y.ts'']],
     tp_graph = Some graph, tp_mappings = [\<lparr>mp_issue = ''bug'', mp_validation = [''v'']\<rparr>], tp_links = [], tp_routing = [''a'', ''b'']\<rparr>"

definition plan_host :: js_host where
  "plan_host = \<lparr>nfc = (\<lambda>s. s), numstr = (\<lambda>n. ''1''), lc = (\<lambda>a b. sort_strings [b, a] = [a, b]), sha256 = (\<lambda>s. []), parse_bytes = (\<lambda>s. None)\<rparr>"

lemma plan_example_accepted: "validate_traceability plan_host (plan_example [''a''] [(''a'', ''b'')]) [''bug''] = []"
  by code_simp

text \<open>Without the edge the check reports the two writers.\<close>

lemma plan_example_unordered: "map td_code (validate_traceability plan_host (plan_example [] []) [''bug'']) = [SharedWriteUnordered]"
  by code_simp

lemma plan_example_writes:
  "tp_tasks (plan_example first graph) = [task_example ''a'' [] [''src/x.ts''] [], task_example ''b'' first [''src/*.ts''] [''src/y.ts'']]"
  by (simp add: plan_example_def)

lemma task_example_writes:
  "may_write (task_example ''a'' [] [''src/x.ts''] []) [''src'', ''x.ts'']" "readable_files (task_example ''a'' [] [''src/x.ts''] [])"
  "may_write (task_example ''b'' [''a''] [''src/*.ts''] [''src/y.ts'']) [''src'', ''x.ts'']"
  "readable_files (task_example ''b'' [''a''] [''src/*.ts''] [''src/y.ts''])"
  by code_simp+

theorem accepted_plan_traceable_witness:
  "\<exists>t \<in> set (tp_tasks (plan_example [''a''] [(''a'', ''b'')])). ''bug'' \<in> set (tk_issues t)"
proof -
  have "set (tp_accepted (plan_example [''a''] [(''a'', ''b'')])) = set [''bug'']"
    using accepted_plan_traceable [OF plan_example_accepted] by (rule conjunct1)
  with accepted_plan_traceable [OF plan_example_accepted] show ?thesis by simp
qed

text \<open>
  C35. The order of an accepted plan can be executed. What its tasks and its graph state about order never runs in a
  circle and names tasks of the plan only; where all tasks state their dependencies and there is a graph, it states
  exactly the same order. In an audit or a feature plan, two tasks whose files are all readable (braces expanded in
  full, alternatives anchored) and that may both write some file, by their likely files less the files they must not
  touch, are ordered one after the other by that order. Testing plans, whose writes the schedule separates instead,
  and wider patterns are left out of the last part.
\<close>

theorem accepted_plan_ordered:
  assumes "validate_traceability h plan expected = []"
  shows "acyclic (stated_order plan)
    \<and> stated_order plan \<subseteq> (tk_id ` set (tp_tasks plan)) \<times> (tk_id ` set (tp_tasks plan))
    \<and> (list_all (\<lambda>t. tk_dependencies t \<noteq> None) (tp_tasks plan) \<longrightarrow> tp_graph plan \<noteq> None \<longrightarrow>
        set (listed (tp_graph plan)) = task_orders (tp_tasks plan))
    \<and> (\<forall>t \<in> set (tp_tasks plan). \<forall>u \<in> set (tp_tasks plan). \<forall>path.
        tp_mode plan \<noteq> TestingPlan \<and> t \<noteq> u \<and> readable_files t \<and> readable_files u \<and> may_write t path \<and> may_write u path \<longrightarrow>
          (tk_id t, tk_id u) \<in> (stated_order plan)\<^sup>+ \<or> (tk_id u, tk_id t) \<in> (stated_order plan)\<^sup>+)"
proof (intro conjI ballI allI impI)
  note nil = traceability_Nil [OF assms]
  note graph = task_graph_Nil [OF nil(8)]
  note ok = check_graphD [OF graph(1) refl refl]
  have "length (tasks_by_id (tp_tasks plan)) = card (tk_id ` set (tp_tasks plan))"
    using tasks_by_id_keys [of "tp_tasks plan"] by (metis distinct_card length_map set_map)
  with graph(2) ready_order_acyclic [OF ok(1)] ok(2) show "acyclic (stated_order plan)" by simp
  show "stated_order plan \<subseteq> (tk_id ` set (tp_tasks plan)) \<times> (tk_id ` set (tp_tasks plan))"
    using ok(1,2) unfolding edges_ok_def by simp
  show "set (listed (tp_graph plan)) = task_orders (tp_tasks plan)"
    if all: "list_all (\<lambda>t. tk_dependencies t \<noteq> None) (tp_tasks plan)" and "tp_graph plan \<noteq> None"
  proof -
    from that(2) obtain es where "tp_graph plan = Some es" by blast
    with ok(4) [OF this all] show ?thesis by (simp add: listed_def)
  qed
  fix t u path
  assume tu: "t \<in> set (tp_tasks plan)" "u \<in> set (tp_tasks plan)"
    and w: "tp_mode plan \<noteq> TestingPlan \<and> t \<noteq> u \<and> readable_files t \<and> readable_files u \<and> may_write t path \<and> may_write u path"
  from tu obtain i j where i: "i < length (tp_tasks plan)" "tp_tasks plan ! i = t" and j: "j < length (tp_tasks plan)" "tp_tasks plan ! j = u"
    by (metis in_set_conv_nth)
  have differ: "tk_id t \<noteq> tk_id u" using nil(1) tu w by (auto simp: distinct_map inj_on_def)
  from w i j have ti: "may_write (tp_tasks plan ! i) path" "readable_files (tp_tasks plan ! i)"
    and uj: "may_write (tp_tasks plan ! j) path" "readable_files (tp_tasks plan ! j)" by simp_all
  from w have "\<not> conflict (gc_edges (check_graph plan)) (write_scope i t) (write_scope j u)"
    using no_report_no_conflict [OF graph(3) nil(1) may_write_scope(2) [OF i(1) ti] may_write_scope(2) [OF j(1) uj]] i j by simp
  with common_file_shared [OF i(1) ti j(1) uj] differ i j ok(2)
  show "(tk_id t, tk_id u) \<in> (stated_order plan)\<^sup>+ \<or> (tk_id u, tk_id t) \<in> (stated_order plan)\<^sup>+"
    by (auto simp: conflict_def writer_id_def write_scope_def)
qed

theorem accepted_plan_ordered_witness:
  "(''a'', ''b'') \<in> (stated_order (plan_example [''a''] [(''a'', ''b'')]))\<^sup>+ \<or> (''b'', ''a'') \<in> (stated_order (plan_example [''a''] [(''a'', ''b'')]))\<^sup>+"
proof -
  let ?t = "task_example ''a'' [] [''src/x.ts''] []" and ?u = "task_example ''b'' [''a''] [''src/*.ts''] [''src/y.ts'']"
  note ordered = accepted_plan_ordered [OF plan_example_accepted, unfolded plan_example_writes, THEN conjunct2, THEN conjunct2, THEN conjunct2]
  have tu: "?t \<in> set [?t, ?u]" "?u \<in> set [?t, ?u]" "?t \<noteq> ?u" "tk_id ?t = ''a''" "tk_id ?u = ''b''"
    by (simp_all add: task_example_def)
  have "tp_mode (plan_example [''a''] [(''a'', ''b'')]) \<noteq> TestingPlan" by (simp add: plan_example_def)
  with ordered [THEN bspec, OF tu(1), THEN bspec, OF tu(2), THEN spec, of "[''src'', ''x.ts'']"] task_example_writes tu(3-5)
  show ?thesis by simp
qed

end
