(* ===== verification/Plan_Repair.thy ===== *)
theory Plan_Repair
  imports Plan_Traceability
begin

text \<open>
  The repair of a plan's order: \<open>withSharedWritesOrdered\<close> and \<open>withGraphMatchingDependencies\<close> of
  \<open>packages/workflow/src/nodes/planner/traceability.ts\<close>, and the proof that the check of the task graph accepts what
  they return.
\<close>

section \<open>One order, stated twice\<close>

definition known_edge :: "string list \<Rightarrow> string \<times> string \<Rightarrow> bool" where
  "known_edge ids ab \<longleftrightarrow> fst ab \<noteq> snd ab \<and> fst ab \<in> set ids \<and> snd ab \<in> set ids"

definition wait_for :: "string list \<Rightarrow> plan_task \<Rightarrow> plan_task" where
  "wait_for earlier t =
     (case tk_dependencies t of
        None \<Rightarrow> t
      | Some d \<Rightarrow> if earlier = [] then t else t\<lparr>tk_dependencies := Some (d\<lparr>pd_on := pd_on d @ earlier\<rparr>)\<rparr>)"

definition with_graph_matching_dependencies :: "traceable_plan \<Rightarrow> traceable_plan" where
  "with_graph_matching_dependencies plan =
     (case tp_graph plan of
        None \<Rightarrow> plan
      | Some es \<Rightarrow>
          (let ids = map tk_id (tp_tasks plan); known = tasks_by_id (tp_tasks plan);
               declared = uniq (concat (map stated_edges (tp_tasks plan))); rendered = uniq es;
               to_graph = filter (\<lambda>ab. ab \<notin> set rendered \<and> known_edge ids ab) declared;
               to_tasks = filter (\<lambda>ab. ab \<notin> set declared \<and> known_edge ids ab
                 \<and> states_dependencies known (fst ab) \<and> states_dependencies known (snd ab)) rendered in
           if to_graph = [] \<and> to_tasks = [] \<and> length rendered = length es then plan
           else plan\<lparr>tp_tasks := map (\<lambda>t. wait_for (map fst (filter (\<lambda>ab. snd ab = tk_id t) to_tasks)) t) (tp_tasks plan),
                  tp_graph := Some (rendered @ to_graph)\<rparr>))"

section \<open>An order for shared writes\<close>

type_synonym added_order = "(string \<times> string) \<times> string list"

definition order_pair :: "writer \<Rightarrow> writer \<Rightarrow> task_edges \<times> added_order list \<Rightarrow> task_edges \<times> added_order list" where
  "order_pair second first s =
     (let (e, added) = s; shared = shared_writes first second; a = writer_id first; b = writer_id second in
      if a = b \<or> shared = [] then s
      else if task_reaches e a b \<or> task_reaches e b a then s
      else (add_edge a b e, added @ [((a, b), shared)]))"

text \<open>The earlier writers are given nearest first: \<open>writers.slice(0, position).reverse()\<close>.\<close>

fun order_writers :: "writer list \<Rightarrow> writer list \<Rightarrow> task_edges \<times> added_order list \<Rightarrow> task_edges \<times> added_order list" where
  "order_writers earlier [] s = s"
| "order_writers earlier (w # ws) s =
     order_writers (w # earlier) ws (if tk_dependencies (wr_task w) = None then s else fold (order_pair w) earlier s)"

definition order_note :: "string \<Rightarrow> string list \<Rightarrow> string" where
  "order_note a paths =
     ''Ordered by arbitra, not a functional dependency: waits for '' @ a @ '' because both edit ''
     @ join_with '', '' (take 3 paths) @ (if 3 < length paths then '' and more'' else [])
     @ '', so their changes land one after the other.''"

definition order_task :: "added_order list \<Rightarrow> plan_task \<Rightarrow> plan_task" where
  "order_task added t =
     (let earlier = filter (\<lambda>x. snd (fst x) = tk_id t) added in
      if earlier = [] \<or> tk_dependencies t = None then t
      else (wait_for (map (\<lambda>x. fst (fst x)) earlier) t)
        \<lparr>tk_context := tk_context t @ map (\<lambda>x. order_note (fst (fst x)) (snd x)) earlier\<rparr>)"

definition plan_edges :: "traceable_plan \<Rightarrow> task_edges" where
  "plan_edges plan = dependency_edges (tp_tasks plan) (listed (tp_graph plan)) []"

definition added_orders :: "js_host \<Rightarrow> traceable_plan \<Rightarrow> added_order list" where
  "added_orders h plan =
     snd (order_writers [] (sort_by (on_key (lc h) writer_id) (write_scopes (tp_tasks plan))) (plan_edges plan, []))"

definition with_shared_writes_ordered :: "js_host \<Rightarrow> traceable_plan \<Rightarrow> traceable_plan" where
  "with_shared_writes_ordered h stated =
     (let plan = with_graph_matching_dependencies stated in
      if tp_mode plan = TestingPlan then plan
      else let added = added_orders h plan in
        if added = [] then plan
        else plan\<lparr>tp_tasks := map (order_task added) (tp_tasks plan),
               tp_graph := map_option (\<lambda>es. es @ map fst added) (tp_graph plan)\<rparr>)"

section \<open>Tasks that wait for more\<close>

text \<open>A change of a task that leaves its identifier and its files alone leaves its writes alone.\<close>

definition same_writes :: "(plan_task \<Rightarrow> plan_task) \<Rightarrow> bool" where
  "same_writes f \<longleftrightarrow> (\<forall>t. tk_id (f t) = tk_id t \<and> tk_files (f t) = tk_files t \<and> tk_spared (f t) = tk_spared t
     \<and> (tk_dependencies t \<noteq> None \<longrightarrow> tk_dependencies (f t) \<noteq> None)
     \<and> (\<forall>d. tk_dependencies t = Some d \<longrightarrow> (\<exists>d'. tk_dependencies (f t) = Some d' \<and> pd_conflicts d' = pd_conflicts d)))"

lemma wait_for_same: "same_writes (\<lambda>t. wait_for (f t) t)"
  by (auto simp: same_writes_def wait_for_def split: option.splits)

lemma order_task_same: "same_writes (order_task added)"
  by (auto simp: same_writes_def order_task_def wait_for_def Let_def split: option.splits)

lemma same_ids: "same_writes f \<Longrightarrow> map tk_id (map f ts) = map tk_id ts"
  by (simp add: same_writes_def)

lemma conflict_same:
  assumes "same_writes f" "order_rel e = order_rel e'"
  shows "conflict e (write_scope i (f t)) (write_scope j (f u)) \<longleftrightarrow> conflict e' (write_scope i t) (write_scope j u)"
  using assms by (simp add: same_writes_def conflict_def shares_writes_def write_scope_def writer_id_def excluded_keys_def)

lemma wait_for_edges:
  "tk_dependencies t \<noteq> None \<Longrightarrow> set (stated_edges (wait_for xs t)) = set (stated_edges t) \<union> (\<lambda>a. (a, tk_id t)) ` set xs"
  by (cases "xs = []") (auto simp: wait_for_def stated_edges_def)

lemma stated_edges_context: "stated_edges (u\<lparr>tk_context := c\<rparr>) = stated_edges u"
  for u :: plan_task
  by (cases "tk_dependencies u") (simp_all add: stated_edges_def)

lemma order_task_edges:
  "tk_dependencies t \<noteq> None \<Longrightarrow> set (stated_edges (order_task added t)) = set (stated_edges t) \<union> {ab \<in> fst ` set added. snd ab = tk_id t}"
proof -
  assume some: "tk_dependencies t \<noteq> None"
  show ?thesis using wait_for_edges [OF some, of "map (\<lambda>x. fst (fst x)) (filter (\<lambda>x. snd (fst x) = tk_id t) added)"]
    by (force simp: some order_task_def stated_edges_context Let_def image_iff filter_empty_conv)
qed

section \<open>The edges of a plan\<close>

lemma dependency_edges_rel:
  assumes "K = tk_id ` set tasks"
  shows "edges_ok K (dependency_edges tasks graph extra)"
    "order_rel (dependency_edges tasks graph extra) = {(a, b) \<in> task_orders tasks \<union> set graph \<union> set extra. a \<noteq> b \<and> a \<in> K \<and> b \<in> K}"
proof -
  have "edges_ok K (fold (\<lambda>(a, b) e. if a \<noteq> b \<and> map_of e b \<noteq> None then add_edge a b e else e) es e)
    \<and> order_rel (fold (\<lambda>(a, b) e. if a \<noteq> b \<and> map_of e b \<noteq> None then add_edge a b e else e) es e)
      = order_rel e \<union> {(a, b) \<in> set es. a \<noteq> b \<and> a \<in> K \<and> b \<in> K}" if "edges_ok K e" for es e
    using that
  proof (induction es arbitrary: e)
    case (Cons ab es)
    obtain a b where ab: "ab = (a, b)" by fastforce
    show ?case
    proof (cases "a \<noteq> b \<and> a \<in> K \<and> b \<in> K")
      case True
      with add_edge_ok [OF Cons.prems, of a b] Cons.IH [of "add_edge a b e"] key_iff [OF Cons.prems, of b]
      show ?thesis by (auto simp: ab)
    next
      case False
      have "(if a \<noteq> b \<and> map_of e b \<noteq> None then add_edge a b e else e) = e"
        using False key_iff [OF Cons.prems, of a] key_iff [OF Cons.prems, of b] by (auto simp: add_edge_def split: option.splits)
      with Cons.IH [OF Cons.prems] False show ?thesis by (auto simp: ab)
    qed
  qed simp
  from this [of "no_task_edges (map tk_id tasks)" "concat (map stated_edges tasks) @ graph @ extra"] no_task_edges_ok [of "map tk_id tasks"] assms
  show "edges_ok K (dependency_edges tasks graph extra)"
    "order_rel (dependency_edges tasks graph extra) = {(a, b) \<in> task_orders tasks \<union> set graph \<union> set extra. a \<noteq> b \<and> a \<in> K \<and> b \<in> K}"
    by (auto simp: dependency_edges_def task_orders_def order_rel_def [of "no_task_edges _"])
qed

lemma plan_edges_rel:
  assumes "stated_order plan \<subseteq> K \<times> K" "irrefl (stated_order plan)" "K = tk_id ` set (tp_tasks plan)"
  shows "edges_ok K (plan_edges plan)" "order_rel (plan_edges plan) = stated_order plan"
  using assms dependency_edges_rel [OF assms(3), of "listed (tp_graph plan)" "[]"]
  by (auto simp: plan_edges_def stated_order_def irrefl_def)

section \<open>Where the check of the graph finds nothing\<close>

text \<open>An edge the check of the graph lets pass.\<close>

definition proper :: "(string \<times> plan_task) list \<Rightarrow> string \<times> string \<Rightarrow> bool" where
  "proper known ab \<longleftrightarrow> fst ab \<noteq> snd ab \<and> map_of known (fst ab) \<noteq> None \<and> map_of known (snd ab) \<noteq> None"

lemma proper_edge: "proper known (a, b) \<Longrightarrow> check_edge known a b g = g\<lparr>gc_edges := add_edge a b (gc_edges g)\<rparr>"
  by (auto simp: proper_def check_edge_def)

lemma declare_proper: "list_all (proper known) es \<Longrightarrow>
    gc_found (fold (declare_edge known) es g) = gc_found g \<and> gc_rendered (fold (declare_edge known) es g) = gc_rendered g
    \<and> set (gc_declared (fold (declare_edge known) es g)) = set (gc_declared g) \<union> set es"
proof (induction es arbitrary: g)
  case (Cons ab es)
  then have "declare_edge known ab g = g\<lparr>gc_edges := add_edge (fst ab) (snd ab) (gc_edges g), gc_declared := set_add ab (gc_declared g)\<rparr>"
    by (simp add: declare_edge_def proper_edge)
  with Cons.IH [of "declare_edge known ab g"] Cons.prems show ?case by simp
qed simp

definition fine_task :: "(string \<times> plan_task) list \<Rightarrow> plan_task \<Rightarrow> bool" where
  "fine_task known t \<longleftrightarrow> list_all (proper known) (stated_edges t)
     \<and> (\<forall>d. tk_dependencies t = Some d \<longrightarrow> (\<forall>c \<in> set (pd_conflicts d). c \<noteq> tk_id t \<and> map_of known c \<noteq> None))"

lemma conflicts_fine: "\<forall>c \<in> set cs. c \<noteq> a \<and> map_of known c \<noteq> None \<Longrightarrow> fold (check_conflict known a) cs g = g"
  by (induction cs) (auto simp: check_conflict_def)

lemma tasks_fine: "list_all (fine_task known) ts \<Longrightarrow>
    gc_found (fold (check_task known) ts g) = gc_found g \<and> gc_rendered (fold (check_task known) ts g) = gc_rendered g
    \<and> set (gc_declared (fold (check_task known) ts g)) = set (gc_declared g) \<union> task_orders ts"
proof (induction ts arbitrary: g)
  case (Cons t ts)
  have "gc_found (check_task known t g) = gc_found g \<and> gc_rendered (check_task known t g) = gc_rendered g
      \<and> set (gc_declared (check_task known t g)) = set (gc_declared g) \<union> set (stated_edges t)"
  proof (cases "tk_dependencies t")
    case None
    then show ?thesis by (simp add: check_task_def stated_edges_def)
  next
    case (Some d)
    with Cons.prems conflicts_fine [of "pd_conflicts d" "tk_id t" known "fold (declare_edge known) (stated_edges t) g"]
      declare_proper [of known "stated_edges t" g]
    show ?thesis by (simp add: check_task_def fine_task_def)
  qed
  with Cons.IH [of "check_task known t g"] Cons.prems show ?case by (auto simp: task_orders_def)
qed (simp add: task_orders_def)

lemma rendered_fine: "list_all (proper known) es \<Longrightarrow> distinct es \<Longrightarrow> set es \<inter> set (gc_rendered g) = {} \<Longrightarrow> set es \<subseteq> set (gc_declared g) \<Longrightarrow>
    gc_found (fold (check_rendered known) es g) = gc_found g \<and> gc_declared (fold (check_rendered known) es g) = gc_declared g
    \<and> set (gc_rendered (fold (check_rendered known) es g)) = set (gc_rendered g) \<union> set es"
proof (induction es arbitrary: g)
  case (Cons ab es)
  obtain a b where ab: "ab = (a, b)" by fastforce
  from Cons.prems have "ab \<notin> set (gc_rendered g)" "ab \<in> set (gc_declared g)" "proper known (a, b)" by (auto simp: ab)
  then have "check_rendered known ab g = g\<lparr>gc_rendered := set_add ab (gc_rendered g), gc_edges := add_edge a b (gc_edges g)\<rparr>"
    by (simp add: check_rendered_def proper_edge ab Let_def)
  with Cons.IH [of "check_rendered known ab g"] Cons.prems show ?case by auto
qed simp

lemma declared_fine: "set ds \<subseteq> set (gc_rendered g) \<Longrightarrow> fold check_declared ds g = g"
  by (induction ds) (auto simp: check_declared_def)

lemma graph_fine:
  assumes "list_all (fine_task (tasks_by_id (tp_tasks plan))) (tp_tasks plan)"
    and "\<And>es. tp_graph plan = Some es \<Longrightarrow> distinct es \<and> set es = task_orders (tp_tasks plan)"
  shows "gc_found (check_graph plan) = []"
proof -
  let ?known = "tasks_by_id (tp_tasks plan)"
  let ?start = "\<lparr>gc_edges = no_task_edges (map tk_id (tp_tasks plan)), gc_declared = [], gc_rendered = [], gc_found = []\<rparr>"
  let ?g1 = "fold (check_task ?known) (tp_tasks plan) ?start"
  from tasks_fine [OF assms(1), of ?start] have g1: "gc_found ?g1 = []" "gc_rendered ?g1 = []" "set (gc_declared ?g1) = task_orders (tp_tasks plan)"
    by simp_all
  show ?thesis
  proof (cases "tp_graph plan")
    case None
    with g1 show ?thesis by (simp add: check_graph_def listed_def)
  next
    case (Some es)
    have "list_all (proper ?known) es"
      using assms(1) assms(2) [OF Some] by (auto simp: list_all_iff fine_task_def task_orders_def)
    with rendered_fine [of ?known es ?g1] g1 assms(2) [OF Some] have
      g2: "gc_found (fold (check_rendered ?known) es ?g1) = []"
        "set (gc_declared (fold (check_rendered ?known) es ?g1)) \<subseteq> set (gc_rendered (fold (check_rendered ?known) es ?g1))"
      by simp_all
    with Some declared_fine [OF g2(2)] show ?thesis by (simp add: check_graph_def listed_def Let_def)
  qed
qed

section \<open>The two statements agree after matching\<close>

definition repairable :: "traceable_plan \<Rightarrow> bool" where
  "repairable plan \<longleftrightarrow> distinct (map tk_id (tp_tasks plan)) \<and> list_all (\<lambda>t. tk_dependencies t \<noteq> None) (tp_tasks plan)
     \<and> (\<forall>(a, b) \<in> stated_order plan. a \<in> tk_id ` set (tp_tasks plan) \<and> b \<in> tk_id ` set (tp_tasks plan))
     \<and> acyclic (stated_order plan)
     \<and> (\<forall>t \<in> set (tp_tasks plan). \<forall>d. tk_dependencies t = Some d \<longrightarrow>
          (\<forall>c \<in> set (pd_conflicts d). c \<noteq> tk_id t \<and> c \<in> tk_id ` set (tp_tasks plan)))"

text \<open>The graph, where there is one, holds each edge of the tasks once and no other.\<close>

definition orders_agree :: "traceable_plan \<Rightarrow> bool" where
  "orders_agree plan \<longleftrightarrow> (\<forall>es. tp_graph plan = Some es \<longrightarrow> distinct es \<and> set es = task_orders (tp_tasks plan))"

lemma repairable_fine: "repairable plan \<Longrightarrow> list_all (fine_task (tasks_by_id (tp_tasks plan))) (tp_tasks plan)"
proof -
  assume r: "repairable plan"
  have "proper (tasks_by_id (tp_tasks plan)) ab" if "ab \<in> task_orders (tp_tasks plan)" for ab
  proof -
    obtain a b where ab: "ab = (a, b)" by fastforce
    with that have st: "(a, b) \<in> stated_order plan" by (simp add: stated_order_def)
    with r have "a \<noteq> b" unfolding repairable_def acyclic_def by blast
    with st r ab show ?thesis unfolding proper_def repairable_def tasks_by_id_iff by auto
  qed
  with r show ?thesis
    unfolding list_all_iff fine_task_def tasks_by_id_iff repairable_def by (auto simp: task_orders_def)
qed

lemma repaired_graph: "repairable plan \<Longrightarrow> orders_agree plan \<Longrightarrow> gc_found (check_graph plan) = []"
  using graph_fine repairable_fine unfolding orders_agree_def by blast

lemma tasks_by_id_in: "map_of (tasks_by_id tasks) a = Some t \<Longrightarrow> t \<in> set tasks"
proof -
  assume t: "map_of (tasks_by_id tasks) a = Some t"
  have "snd ` set (fold (\<lambda>t. AList.update (tk_id t) t) ts m) \<subseteq> set ts \<union> snd ` set m" for ts and m :: "(string \<times> plan_task) list"
  proof (induction ts arbitrary: m)
    case (Cons u ts)
    have "snd ` set (AList.update (tk_id u) u m) \<subseteq> insert u (snd ` set m)" by (induction m) auto
    with Cons.IH [of "AList.update (tk_id u) u m"] show ?case by auto
  qed simp
  from this [of tasks "[]"] map_of_SomeD [OF t] show "t \<in> set tasks" by (auto simp: tasks_by_id_def)
qed

lemma states_all:
  assumes "list_all (\<lambda>t. tk_dependencies t \<noteq> None) tasks" "a \<in> tk_id ` set tasks"
  shows "states_dependencies (tasks_by_id tasks) a"
proof -
  from assms(2) obtain t where t: "map_of (tasks_by_id tasks) a = Some t" by (metis tasks_by_id_iff not_None_eq)
  with assms(1) tasks_by_id_in [OF t] show ?thesis by (auto simp: states_dependencies_def list_all_iff)
qed

lemma waited_edges: "(\<lambda>a. (a, k)) ` set (map fst (filter (\<lambda>ab. snd ab = k) es)) = {ab \<in> set es. snd ab = k}"
  by (force simp: image_iff)

lemma task_orders_wait:
  assumes "list_all (\<lambda>t. tk_dependencies t \<noteq> None) tasks" "\<And>ab. ab \<in> set es \<Longrightarrow> snd ab \<in> tk_id ` set tasks"
  shows "task_orders (map (\<lambda>t. wait_for (map fst (filter (\<lambda>ab. snd ab = tk_id t) es)) t) tasks) = task_orders tasks \<union> set es"
proof -
  have edges: "set (stated_edges (wait_for (map fst (filter (\<lambda>ab. snd ab = tk_id t) es)) t)) = set (stated_edges t) \<union> {ab \<in> set es. snd ab = tk_id t}"
    if "t \<in> set tasks" for t
  proof -
    from that assms(1) have "tk_dependencies t \<noteq> None" by (auto simp: list_all_iff)
    from wait_for_edges [OF this] show ?thesis by (simp only: waited_edges)
  qed
  show ?thesis
  proof (intro equalityI subsetI)
    fix ab assume "ab \<in> task_orders (map (\<lambda>t. wait_for (map fst (filter (\<lambda>ab. snd ab = tk_id t) es)) t) tasks)"
    with edges show "ab \<in> task_orders tasks \<union> set es" unfolding task_orders_def by auto
  next
    fix ab assume ab: "ab \<in> task_orders tasks \<union> set es"
    then obtain t where "t \<in> set tasks" "ab \<in> set (stated_edges t) \<or> ab \<in> set es \<and> snd ab = tk_id t"
      using assms(2) unfolding task_orders_def by blast
    with edges show "ab \<in> task_orders (map (\<lambda>t. wait_for (map fst (filter (\<lambda>ab. snd ab = tk_id t) es)) t) tasks)"
      unfolding task_orders_def by auto
  qed
qed

lemma repairable_change:
  assumes r: "repairable plan" and f: "same_writes f" and o: "stated_order (plan\<lparr>tp_tasks := map f (tp_tasks plan), tp_graph := g\<rparr>) = S"
    and S: "acyclic S" "S \<subseteq> (tk_id ` set (tp_tasks plan)) \<times> (tk_id ` set (tp_tasks plan))"
  shows "repairable (plan\<lparr>tp_tasks := map f (tp_tasks plan), tp_graph := g\<rparr>)"
proof -
  have ids: "map tk_id (map f (tp_tasks plan)) = map tk_id (tp_tasks plan)" using f by (simp add: same_writes_def)
  then have K: "tk_id ` set (map f (tp_tasks plan)) = tk_id ` set (tp_tasks plan)" by (metis set_map)
  have deps: "list_all (\<lambda>t. tk_dependencies t \<noteq> None) (map f (tp_tasks plan))"
    using r f by (auto simp: repairable_def same_writes_def list_all_iff)
  have "\<forall>c \<in> set (pd_conflicts d'). c \<noteq> tk_id (f t) \<and> c \<in> tk_id ` set (tp_tasks plan)"
    if "t \<in> set (tp_tasks plan)" "tk_dependencies (f t) = Some d'" for t d'
  proof -
    from r that(1) obtain d where d: "tk_dependencies t = Some d" by (auto simp: repairable_def list_all_iff)
    with f that(2) have "pd_conflicts d' = pd_conflicts d" "tk_id (f t) = tk_id t" unfolding same_writes_def by fastforce+
    with r that(1) d show ?thesis unfolding repairable_def by metis
  qed
  moreover have "distinct (map tk_id (map f (tp_tasks plan)))" unfolding ids using r by (simp only: repairable_def)
  moreover have "tk_id (f t) = tk_id t" for t using f by (simp add: same_writes_def)
  ultimately show ?thesis using K deps o S unfolding repairable_def by (simp add: image_image) blast
qed

text \<open>Matching keeps what the plan states of order, and makes the graph and the tasks agree.\<close>

lemma matching:
  assumes r: "repairable plan" and p: "p = with_graph_matching_dependencies plan"
  shows "repairable p" "stated_order p = stated_order plan" "orders_agree p"
    "\<exists>f. same_writes f \<and> tp_tasks p = map f (tp_tasks plan)" "tp_mode p = tp_mode plan"
proof -
  have "repairable p \<and> stated_order p = stated_order plan \<and> orders_agree p \<and> (\<exists>f. same_writes f \<and> tp_tasks p = map f (tp_tasks plan))
    \<and> tp_mode p = tp_mode plan"
  proof (cases "tp_graph plan")
    case None
    have "same_writes (\<lambda>t. t)" by (simp add: same_writes_def)
    moreover from None p have "p = plan" by (simp add: with_graph_matching_dependencies_def)
    ultimately show ?thesis using r None by (auto simp: orders_agree_def intro: exI [of _ "\<lambda>t. t"])
  next
    case (Some es)
    let ?ids = "map tk_id (tp_tasks plan)" and ?known = "tasks_by_id (tp_tasks plan)"
    let ?declared = "uniq (concat (map stated_edges (tp_tasks plan)))"
    let ?to_graph = "filter (\<lambda>ab. ab \<notin> set (uniq es) \<and> known_edge ?ids ab) ?declared"
    let ?to_tasks = "filter (\<lambda>ab. ab \<notin> set ?declared \<and> known_edge ?ids ab \<and> states_dependencies ?known (fst ab) \<and> states_dependencies ?known (snd ab)) (uniq es)"
    have T: "set ?declared = task_orders (tp_tasks plan)" by (simp add: task_orders_def)
    have O: "stated_order plan = task_orders (tp_tasks plan) \<union> set es" using Some by (simp add: stated_order_def listed_def)
    have deps: "list_all (\<lambda>t. tk_dependencies t \<noteq> None) (tp_tasks plan)" using r by (simp add: repairable_def)
    have known: "known_edge ?ids ab \<and> states_dependencies ?known (fst ab) \<and> states_dependencies ?known (snd ab)"
      if "ab \<in> stated_order plan" for ab
    proof -
      obtain a b where ab: "ab = (a, b)" by fastforce
      with that r have K: "a \<in> tk_id ` set (tp_tasks plan)" "b \<in> tk_id ` set (tp_tasks plan)" unfolding repairable_def by auto
      have "a \<noteq> b" using that r unfolding ab repairable_def acyclic_def by blast
      with K states_all [OF deps] show ?thesis by (simp add: known_edge_def ab)
    qed
    have tg: "set ?to_graph = task_orders (tp_tasks plan) - set es" using known O T by auto
    have tt: "set ?to_tasks = set es - task_orders (tp_tasks plan)" using known O T by auto
    show ?thesis
    proof (cases "?to_graph = [] \<and> ?to_tasks = [] \<and> length (uniq es) = length es")
      case True
      then have "p = plan" using p Some by (simp add: with_graph_matching_dependencies_def Let_def)
      moreover have "set es = task_orders (tp_tasks plan)"
      proof -
        from True have "?to_graph = []" "?to_tasks = []" by blast+
        with tg tt have "task_orders (tp_tasks plan) - set es = {}" "set es - task_orders (tp_tasks plan) = {}" by (simp_all only: list.set(1))
        then show ?thesis by blast
      qed
      moreover from True have "distinct es" by (simp add: length_uniq_eq_iff)
      moreover have "same_writes (\<lambda>t. t)" by (simp add: same_writes_def)
      ultimately show ?thesis using r Some by (auto simp: orders_agree_def intro: exI [of _ "\<lambda>t. t"])
    next
      case False
      let ?f = "\<lambda>t. wait_for (map fst (filter (\<lambda>ab. snd ab = tk_id t) ?to_tasks)) t"
      have p': "p = plan\<lparr>tp_tasks := map ?f (tp_tasks plan), tp_graph := Some (uniq es @ ?to_graph)\<rparr>"
        using p Some False by (simp only: with_graph_matching_dependencies_def option.case Let_def if_False)
      have tasks: "task_orders (map ?f (tp_tasks plan)) = task_orders (tp_tasks plan) \<union> set es"
      proof -
        have "snd ab \<in> tk_id ` set (tp_tasks plan)" if "ab \<in> set ?to_tasks" for ab
          using that by (simp add: known_edge_def)
        then have "task_orders (map ?f (tp_tasks plan)) = task_orders (tp_tasks plan) \<union> set ?to_tasks" by (rule task_orders_wait [OF deps])
        also have "\<dots> = task_orders (tp_tasks plan) \<union> set es" using tt by blast
        finally show ?thesis .
      qed
      have graph: "set (uniq es @ ?to_graph) = task_orders (tp_tasks plan) \<union> set es" using tg by (simp only: set_append set_uniq) blast
      have dist: "distinct (uniq es @ ?to_graph)" by auto
      have order: "stated_order p = stated_order plan" using tasks graph O unfolding p' by (simp add: stated_order_def listed_def del: set_append)
      have orders_agree: "orders_agree p" using tasks graph dist unfolding p' orders_agree_def by simp
      have "repairable p" unfolding p'
        by (rule repairable_change [OF r wait_for_same order [unfolded p']]) (use r in \<open>auto simp: repairable_def\<close>)
      moreover have "same_writes ?f" by (rule wait_for_same)
      moreover have "tp_tasks p = map ?f (tp_tasks plan)" "tp_mode p = tp_mode plan" unfolding p' by simp_all
      ultimately show ?thesis using order orders_agree by blast
    qed
  qed
  then show "repairable p" "stated_order p = stated_order plan" "orders_agree p"
    "\<exists>f. same_writes f \<and> tp_tasks p = map f (tp_tasks plan)" "tp_mode p = tp_mode plan" by blast+
qed

section \<open>The order that is added\<close>

text \<open>
  While orders are added: the edges are those of the start and the added ones, each added pair is new and joins writers
  that share writes, and no task comes after itself.
\<close>

definition adding :: "string set \<Rightarrow> (string \<times> string) set \<Rightarrow> writer set \<Rightarrow> task_edges \<times> added_order list \<Rightarrow> bool" where
  "adding K R W s \<longleftrightarrow> edges_ok K (fst s) \<and> order_rel (fst s) = R \<union> fst ` set (snd s) \<and> acyclic (order_rel (fst s))
     \<and> distinct (map fst (snd s)) \<and> R \<inter> fst ` set (snd s) = {}
     \<and> (\<forall>(a, b) \<in> fst ` set (snd s). \<exists>v \<in> W. \<exists>w \<in> W. writer_id v = a \<and> writer_id w = b \<and> shares_writes v w)"

lemma order_pair_step:
  assumes "adding K R W s" "first \<in> W" "second \<in> W" "writer_id first \<in> K" "writer_id second \<in> K"
  shows "adding K R W (order_pair second first s)" "order_rel (fst s) \<subseteq> order_rel (fst (order_pair second first s))"
    "\<not> conflict (fst (order_pair second first s)) first second"
proof -
  obtain e added where s: "s = (e, added)" by fastforce
  let ?a = "writer_id first" and ?b = "writer_id second"
  note I = assms(1) [unfolded adding_def s fst_conv snd_conv]
  show "adding K R W (order_pair second first s)" "order_rel (fst s) \<subseteq> order_rel (fst (order_pair second first s))"
    "\<not> conflict (fst (order_pair second first s)) first second"
  proof (atomize (full), cases "?a = ?b \<or> shared_writes first second = [] \<or> task_reaches e ?a ?b \<or> task_reaches e ?b ?a")
    case True
    then have "order_pair second first s = s" "\<not> conflict e first second"
      by (auto simp: order_pair_def s conflict_def task_reaches shared_writes_Nil Let_def)
    with assms(1) show "adding K R W (order_pair second first s) \<and> order_rel (fst s) \<subseteq> order_rel (fst (order_pair second first s))
      \<and> \<not> conflict (fst (order_pair second first s)) first second" by (simp add: s)
  next
    case False
    then have new: "order_pair second first s = (add_edge ?a ?b e, added @ [((?a, ?b), shared_writes first second)])"
      "(?a, ?b) \<notin> (order_rel e)\<^sup>+" "(?b, ?a) \<notin> (order_rel e)\<^sup>*" "shares_writes first second"
      by (auto simp: order_pair_def s task_reaches shared_writes_Nil Let_def rtrancl_eq_or_trancl)
    from I have "edges_ok K e" by (rule conjunct1)
    note ok = add_edge_ok [OF this assms(4,5)]
    have "acyclic (order_rel (add_edge ?a ?b e))" unfolding ok(2) acyclic_insert using I new(3) by blast
    moreover from new(2) have "(?a, ?b) \<notin> R \<union> fst ` set added" using I by auto
    moreover have "\<exists>v \<in> W. \<exists>w \<in> W. writer_id v = ?a \<and> writer_id w = ?b \<and> shares_writes v w" using new(4) assms(2,3) by blast
    moreover have "fst ` set (added @ [((?a, ?b), shared_writes first second)]) = insert (?a, ?b) (fst ` set added)" by simp
    ultimately have "adding K R W (order_pair second first s)"
      using I ok unfolding adding_def new(1) fst_conv snd_conv by (simp only: map_append distinct_append) auto
    moreover have "(?a, ?b) \<in> (order_rel (add_edge ?a ?b e))\<^sup>+" unfolding ok(2) by auto
    ultimately show "adding K R W (order_pair second first s) \<and> order_rel (fst s) \<subseteq> order_rel (fst (order_pair second first s))
      \<and> \<not> conflict (fst (order_pair second first s)) first second"
      unfolding new(1) unfolding s fst_conv conflict_def using ok(2) by auto
  qed
qed

lemma conflict_mono: "\<not> conflict e a b \<Longrightarrow> order_rel e \<subseteq> order_rel e' \<Longrightarrow> \<not> conflict e' a b"
  unfolding conflict_def using trancl_mono by blast

lemma order_pairs:
  "adding K R W s \<Longrightarrow> set firsts \<subseteq> W \<Longrightarrow> w \<in> W \<Longrightarrow> writer_id ` W \<subseteq> K \<Longrightarrow>
     adding K R W (fold (order_pair w) firsts s) \<and> order_rel (fst s) \<subseteq> order_rel (fst (fold (order_pair w) firsts s))
     \<and> (\<forall>v \<in> set firsts. \<not> conflict (fst (fold (order_pair w) firsts s)) v w)"
proof (induction firsts arbitrary: s)
  case (Cons v firsts)
  from Cons.prems have K: "v \<in> W" "writer_id v \<in> K" "writer_id w \<in> K" by auto
  note step = order_pair_step [OF Cons.prems(1) K(1) Cons.prems(3) K(2,3)]
  from Cons.IH [OF step(1)] Cons.prems have
    later: "adding K R W (fold (order_pair w) firsts (order_pair w v s))"
      "order_rel (fst (order_pair w v s)) \<subseteq> order_rel (fst (fold (order_pair w) firsts (order_pair w v s)))"
      "\<forall>u \<in> set firsts. \<not> conflict (fst (fold (order_pair w) firsts (order_pair w v s))) u w" by auto
  from conflict_mono [OF step(3) later(2)] later step(2) show ?case by auto
qed simp

lemma order_writers_all:
  "adding K R W s \<Longrightarrow> set (earlier @ ws) \<subseteq> W \<Longrightarrow> writer_id ` W \<subseteq> K \<Longrightarrow> \<forall>w \<in> W. tk_dependencies (wr_task w) \<noteq> None \<Longrightarrow>
     \<forall>v \<in> set earlier. \<forall>w \<in> set earlier. \<not> conflict (fst s) v w \<Longrightarrow>
     adding K R W (order_writers earlier ws s) \<and> order_rel (fst s) \<subseteq> order_rel (fst (order_writers earlier ws s))
     \<and> (\<forall>v \<in> set (earlier @ ws). \<forall>w \<in> set (earlier @ ws). \<not> conflict (fst (order_writers earlier ws s)) v w)"
proof (induction ws arbitrary: earlier s)
  case (Cons w ws)
  let ?s = "fold (order_pair w) earlier s"
  from Cons.prems have w: "w \<in> W" "tk_dependencies (wr_task w) \<noteq> None" "set earlier \<subseteq> W" by auto
  note step = order_pairs [OF Cons.prems(1) w(3,1) Cons.prems(3)]
  have calm: "\<forall>u \<in> set (w # earlier). \<forall>v \<in> set (w # earlier). \<not> conflict (fst ?s) u v"
  proof (intro ballI)
    fix u v assume "u \<in> set (w # earlier)" "v \<in> set (w # earlier)"
    then consider "u = w" "v = w" | "u = w" "v \<in> set earlier" | "v = w" "u \<in> set earlier" | "u \<in> set earlier" "v \<in> set earlier" by auto
    then show "\<not> conflict (fst ?s) u v"
    proof cases
      case 1
      then show ?thesis by (simp add: conflict_def)
    next
      case 2
      with step conflict_sym show ?thesis by blast
    next
      case 3
      with step show ?thesis by blast
    next
      case 4
      with Cons.prems(5) step show ?thesis using conflict_mono by blast
    qed
  qed
  from Cons.IH [of ?s "w # earlier"] step calm Cons.prems have
    "adding K R W (order_writers (w # earlier) ws ?s)" "order_rel (fst ?s) \<subseteq> order_rel (fst (order_writers (w # earlier) ws ?s))"
    "\<forall>u \<in> set (w # earlier @ ws). \<forall>v \<in> set (w # earlier @ ws). \<not> conflict (fst (order_writers (w # earlier) ws ?s)) u v" by auto
  with step w(2) show ?case by auto
qed simp

section \<open>The repaired plan\<close>

lemma task_orders_added:
  assumes "list_all (\<lambda>t. tk_dependencies t \<noteq> None) tasks" "\<And>ab. ab \<in> fst ` set added \<Longrightarrow> snd ab \<in> tk_id ` set tasks"
  shows "task_orders (map (order_task added) tasks) = task_orders tasks \<union> fst ` set added"
proof (intro equalityI subsetI)
  have edges: "set (stated_edges (order_task added t)) = set (stated_edges t) \<union> {ab \<in> fst ` set added. snd ab = tk_id t}" if "t \<in> set tasks" for t
    using order_task_edges that assms(1) unfolding list_all_iff by blast
  {
    fix ab assume "ab \<in> task_orders (map (order_task added) tasks)"
    with edges show "ab \<in> task_orders tasks \<union> fst ` set added" unfolding task_orders_def by auto
  next
    fix ab assume "ab \<in> task_orders tasks \<union> fst ` set added"
    then obtain t where "t \<in> set tasks" "ab \<in> set (stated_edges t) \<or> ab \<in> fst ` set added \<and> snd ab = tk_id t"
      using assms(2) unfolding task_orders_def by blast
    with edges show "ab \<in> task_orders (map (order_task added) tasks)" unfolding task_orders_def by auto
  }
qed

lemma writer_task: "w \<in> set (write_scopes tasks) \<Longrightarrow> wr_task w \<in> set tasks"
  unfolding write_scopes_of by (auto simp: write_scope_def)

text \<open>What is added to a plan whose statements agree.\<close>

lemma added_orders:
  assumes r: "repairable plan" and e: "e = fst (order_writers [] (sort_by (on_key (lc h) writer_id) (write_scopes (tp_tasks plan))) (plan_edges plan, []))"
  shows "order_rel e = stated_order plan \<union> fst ` set (added_orders h plan)" "acyclic (order_rel e)"
    "order_rel e \<subseteq> (tk_id ` set (tp_tasks plan)) \<times> (tk_id ` set (tp_tasks plan))"
    "distinct (map fst (added_orders h plan))" "stated_order plan \<inter> fst ` set (added_orders h plan) = {}"
    "(a, b) \<in> fst ` set (added_orders h plan) \<Longrightarrow>
       \<exists>v \<in> set (write_scopes (tp_tasks plan)). \<exists>w \<in> set (write_scopes (tp_tasks plan)). writer_id v = a \<and> writer_id w = b \<and> shares_writes v w"
    "v \<in> set (write_scopes (tp_tasks plan)) \<Longrightarrow> w \<in> set (write_scopes (tp_tasks plan)) \<Longrightarrow> \<not> conflict e v w"
proof -
  let ?K = "tk_id ` set (tp_tasks plan)" and ?W = "set (write_scopes (tp_tasks plan))"
  let ?ws = "sort_by (on_key (lc h) writer_id) (write_scopes (tp_tasks plan))"
  have sub: "stated_order plan \<subseteq> ?K \<times> ?K" and acyclic: "acyclic (stated_order plan)" using r unfolding repairable_def by auto
  have "irrefl (stated_order plan)" using acyclic unfolding acyclic_def irrefl_def by blast
  note start = plan_edges_rel [OF sub this refl]
  have ordering: "adding ?K (stated_order plan) ?W (plan_edges plan, [])" using start acyclic by (simp add: adding_def)
  have K: "writer_id ` ?W \<subseteq> ?K" using writer_task unfolding writer_id_def by blast
  have deps: "\<forall>w \<in> ?W. tk_dependencies (wr_task w) \<noteq> None" using r writer_task unfolding repairable_def list_all_iff by blast
  from order_writers_all [OF ordering, of "[]" ?ws] K deps have
    s: "adding ?K (stated_order plan) ?W (order_writers [] ?ws (plan_edges plan, []))"
    and calm: "\<forall>v \<in> ?W. \<forall>w \<in> ?W. \<not> conflict e v w" by (simp_all add: e)
  note s = s [unfolded adding_def, folded e added_orders_def]
  show "order_rel e = stated_order plan \<union> fst ` set (added_orders h plan)" "acyclic (order_rel e)"
    "order_rel e \<subseteq> ?K \<times> ?K" "distinct (map fst (added_orders h plan))" "stated_order plan \<inter> fst ` set (added_orders h plan) = {}"
    using s [unfolded edges_ok_def] by - (elim conjE, assumption)+
  show "\<exists>v \<in> ?W. \<exists>w \<in> ?W. writer_id v = a \<and> writer_id w = b \<and> shares_writes v w" if "(a, b) \<in> fst ` set (added_orders h plan)"
  proof -
    from s have "\<forall>(a, b) \<in> fst ` set (added_orders h plan). \<exists>v \<in> ?W. \<exists>w \<in> ?W. writer_id v = a \<and> writer_id w = b \<and> shares_writes v w"
      by (elim conjE)
    from bspec [OF this that] show ?thesis by (rule case_prodD)
  qed
  show "\<not> conflict e v w" if "v \<in> ?W" "w \<in> ?W" using calm that by blast
qed

lemma plan_edges_repairable: "repairable plan \<Longrightarrow> order_rel (plan_edges plan) = stated_order plan"
proof -
  assume r: "repairable plan"
  then have "stated_order plan \<subseteq> (tk_id ` set (tp_tasks plan)) \<times> (tk_id ` set (tp_tasks plan))" "acyclic (stated_order plan)"
    unfolding repairable_def by auto
  moreover from this(2) have "irrefl (stated_order plan)" unfolding acyclic_def irrefl_def by blast
  ultimately show ?thesis using plan_edges_rel(2) by blast
qed

lemma repaired_task_graph:
  assumes "repairable plan" "orders_agree plan"
    and "\<And>i j. i < length (tp_tasks plan) \<Longrightarrow> j < length (tp_tasks plan) \<Longrightarrow> tp_mode plan \<noteq> TestingPlan \<Longrightarrow>
      wr_paths (write_scope i (tp_tasks plan ! i)) \<noteq> [] \<Longrightarrow> wr_paths (write_scope j (tp_tasks plan ! j)) \<noteq> [] \<Longrightarrow>
      \<not> conflict (plan_edges plan) (write_scope i (tp_tasks plan ! i)) (write_scope j (tp_tasks plan ! j))"
  shows "validate_task_graph h plan = []"
proof -
  note unreported = repaired_graph [OF assms(1,2)]
  note g = check_graphD [OF unreported refl refl]
  have acyclic: "acyclic (stated_order plan)" and sub: "stated_order plan \<subseteq> (tk_id ` set (tp_tasks plan)) \<times> (tk_id ` set (tp_tasks plan))"
    using assms(1) unfolding repairable_def by auto
  have "irrefl (stated_order plan)" using acyclic unfolding acyclic_def irrefl_def by blast
  note edges = plan_edges_rel [OF sub this refl]
  have size: "length (tasks_by_id (tp_tasks plan)) = card (tk_id ` set (tp_tasks plan))"
    using tasks_by_id_keys [of "tp_tasks plan"] by (metis distinct_card length_map set_map)
  have "length (ready_order (gc_edges (check_graph plan))) = length (tasks_by_id (tp_tasks plan))"
    using ready_order_acyclic [OF g(1)] acyclic g(2) size by simp
  moreover have "validate_shared_write_order h (tp_tasks plan) (gc_edges (check_graph plan)) = []" if "tp_mode plan \<noteq> TestingPlan"
  proof (rule no_conflict_no_report)
    fix a b assume "a \<in> set (write_scopes (tp_tasks plan))" "b \<in> set (write_scopes (tp_tasks plan))"
    then obtain i j where "i < length (tp_tasks plan)" "a = write_scope i (tp_tasks plan ! i)" "wr_paths a \<noteq> []"
      "j < length (tp_tasks plan)" "b = write_scope j (tp_tasks plan ! j)" "wr_paths b \<noteq> []"
      unfolding write_scopes_of by auto
    with assms(3) that have "\<not> conflict (plan_edges plan) a b" by blast
    then show "\<not> conflict (gc_edges (check_graph plan)) a b" using edges(2) g(2) by (simp add: conflict_def)
  qed
  ultimately show ?thesis using unreported by (simp add: validate_task_graph_def Let_def)
qed

lemma writer_same:
  assumes "same_writes f"
  shows "wr_paths (write_scope i (f t)) = wr_paths (write_scope i t)" "writer_id (write_scope i (f t)) = writer_id (write_scope i t)"
    "shares_writes (write_scope i (f t)) (write_scope j (f u)) = shares_writes (write_scope i t) (write_scope j u)"
  using assms by (simp_all add: same_writes_def shares_writes_def write_scope_def writer_id_def excluded_keys_def)

lemma same_writers:
  assumes "same_writes f" "v \<in> set (write_scopes (map f tasks))" "w \<in> set (write_scopes (map f tasks))" "shares_writes v w"
  shows "\<exists>v' \<in> set (write_scopes tasks). \<exists>w' \<in> set (write_scopes tasks). writer_id v' = writer_id v \<and> writer_id w' = writer_id w \<and> shares_writes v' w'"
proof -
  from assms(2,3) obtain i j where i: "i < length tasks" "v = write_scope i (f (tasks ! i))" "wr_paths v \<noteq> []"
    and j: "j < length tasks" "w = write_scope j (f (tasks ! j))" "wr_paths w \<noteq> []"
    unfolding write_scopes_of by auto
  with writer_same [OF assms(1)] have "write_scope i (tasks ! i) \<in> set (write_scopes tasks)" "write_scope j (tasks ! j) \<in> set (write_scopes tasks)"
    unfolding write_scopes_of by auto
  with i j assms(4) writer_same [OF assms(1)] show ?thesis by metis
qed

text \<open>
  C36. The repair of a repairable plan passes the check. A plan is repairable when its tasks have distinct identifiers
  and state their dependencies, the stated order and the conflicts name known tasks only, no task conflicts with itself
  and the stated order runs in no circle; these faults the repair leaves to the check. In the plan the repair returns for
  such a plan the check of the task graph finds nothing, whatever the two statements of order left out and whatever writes
  were unordered; the repair loses no stated order, keeps every task, and adds an order only between two tasks that
  share writes.
\<close>

theorem repaired_plan_passes:
  assumes r: "repairable plan" and p: "p = with_shared_writes_ordered h plan"
  shows "validate_task_graph h p = [] \<and> stated_order plan \<subseteq> stated_order p \<and> map tk_id (tp_tasks p) = map tk_id (tp_tasks plan)
    \<and> (\<forall>(a, b) \<in> stated_order p - stated_order plan. \<exists>v \<in> set (write_scopes (tp_tasks plan)). \<exists>w \<in> set (write_scopes (tp_tasks plan)).
        writer_id v = a \<and> writer_id w = b \<and> shares_writes v w)"
proof -
  define p1 where "p1 = with_graph_matching_dependencies plan"
  note m = matching [OF r p1_def]
  from m(4) obtain f where f: "same_writes f" "tp_tasks p1 = map f (tp_tasks plan)" by blast
  have ids: "map tk_id (tp_tasks p1) = map tk_id (tp_tasks plan)" using f by (simp add: same_writes_def)
  let ?added = "added_orders h p1"
  note a = added_orders [OF m(1) refl, where h = h]
  have unchanged: ?thesis if "p = p1" "tp_mode p1 \<noteq> TestingPlan \<Longrightarrow> ?added = []"
  proof -
    have "validate_task_graph h p1 = []"
    proof (rule repaired_task_graph [OF m(1,3)])
      fix i j assume mode: "tp_mode p1 \<noteq> TestingPlan" and i: "i < length (tp_tasks p1)" "j < length (tp_tasks p1)"
        and w: "wr_paths (write_scope i (tp_tasks p1 ! i)) \<noteq> []" "wr_paths (write_scope j (tp_tasks p1 ! j)) \<noteq> []"
      from that(2) [OF mode] a(1) have "order_rel (fst (order_writers [] (sort_by (on_key (lc h) writer_id) (write_scopes (tp_tasks p1))) (plan_edges p1, [])))
        = order_rel (plan_edges p1)" using plan_edges_repairable [OF m(1)] by simp
      moreover have "write_scope i (tp_tasks p1 ! i) \<in> set (write_scopes (tp_tasks p1))" "write_scope j (tp_tasks p1 ! j) \<in> set (write_scopes (tp_tasks p1))"
        using i w unfolding write_scopes_of by auto
      ultimately show "\<not> conflict (plan_edges p1) (write_scope i (tp_tasks p1 ! i)) (write_scope j (tp_tasks p1 ! j))"
        using a(7) by (simp add: conflict_def)
    qed
    with that(1) m(2) ids show ?thesis by simp
  qed
  show ?thesis
  proof (cases "tp_mode p1 = TestingPlan \<or> ?added = []")
    case True
    with p have "p = p1" by (auto simp: with_shared_writes_ordered_def Let_def p1_def)
    then show ?thesis by (rule unchanged) (use True in blast)
  next
    case False
    let ?g = "map_option (\<lambda>es. es @ map fst ?added) (tp_graph p1)"
    have p2: "p = p1\<lparr>tp_tasks := map (order_task ?added) (tp_tasks p1), tp_graph := ?g\<rparr>"
      using p False by (simp add: with_shared_writes_ordered_def p1_def [symmetric] Let_def)
    have deps: "list_all (\<lambda>t. tk_dependencies t \<noteq> None) (tp_tasks p1)" using m(1) by (simp add: repairable_def)
    have inK: "snd ab \<in> tk_id ` set (tp_tasks p1)" if "ab \<in> fst ` set ?added" for ab
      using a(1,3) that by auto
    then have tasks: "task_orders (map (order_task ?added) (tp_tasks p1)) = task_orders (tp_tasks p1) \<union> fst ` set ?added"
      by (rule task_orders_added [OF deps])
    have order: "stated_order p = stated_order p1 \<union> fst ` set ?added"
      using tasks by (cases "tp_graph p1") (auto simp: p2 stated_order_def listed_def)
    have orders_agree: "orders_agree p" unfolding orders_agree_def
    proof (intro allI impI)
      fix es assume "tp_graph p = Some es"
      then obtain es1 where es: "tp_graph p1 = Some es1" "es = es1 @ map fst ?added" by (auto simp: p2)
      with m(3) have es1: "distinct es1" "set es1 = task_orders (tp_tasks p1)" by (simp_all add: orders_agree_def)
      then have "set es = task_orders (tp_tasks p1) \<union> fst ` set ?added" by (simp only: es set_append set_map)
      moreover have "set es1 \<inter> set (map fst ?added) = {}" using a(5) es(1) by (auto simp only: set_map stated_order_def listed_def option.case)
      then have "distinct es" unfolding es(2) distinct_append using es1(1) a(4) by blast
      ultimately show "distinct es \<and> set es = task_orders (tp_tasks p)" using tasks by (simp add: p2)
    qed
    have rep: "repairable p" unfolding p2
      by (rule repairable_change [OF m(1) order_task_same order [unfolded p2]]) (use a(1,2,3) in simp_all)
    have rel: "order_rel (plan_edges p) = order_rel (fst (order_writers [] (sort_by (on_key (lc h) writer_id) (write_scopes (tp_tasks p1))) (plan_edges p1, [])))"
      using plan_edges_repairable [OF rep] order a(1) by simp
    have "validate_task_graph h p = []"
    proof (rule repaired_task_graph [OF rep orders_agree])
      fix i j assume "i < length (tp_tasks p)" "j < length (tp_tasks p)"
        "wr_paths (write_scope i (tp_tasks p ! i)) \<noteq> []" "wr_paths (write_scope j (tp_tasks p ! j)) \<noteq> []"
      then have i: "i < length (tp_tasks p1)" "j < length (tp_tasks p1)" "tp_tasks p ! i = order_task ?added (tp_tasks p1 ! i)"
        "tp_tasks p ! j = order_task ?added (tp_tasks p1 ! j)"
        and w: "wr_paths (write_scope i (tp_tasks p1 ! i)) \<noteq> []" "wr_paths (write_scope j (tp_tasks p1 ! j)) \<noteq> []"
        using writer_same(1) [OF order_task_same] by (simp_all add: p2)
      from i w have "write_scope i (tp_tasks p1 ! i) \<in> set (write_scopes (tp_tasks p1))" "write_scope j (tp_tasks p1 ! j) \<in> set (write_scopes (tp_tasks p1))"
        unfolding write_scopes_of by auto
      from a(7) [OF this] conflict_same [OF order_task_same rel] i
      show "\<not> conflict (plan_edges p) (write_scope i (tp_tasks p ! i)) (write_scope j (tp_tasks p ! j))" by simp
    qed
    moreover have "map tk_id (tp_tasks p) = map tk_id (tp_tasks plan)"
    proof -
      have "tp_tasks p = map (order_task ?added) (tp_tasks p1)" by (simp add: p2)
      then show ?thesis by (simp only: same_ids [OF order_task_same] ids)
    qed
    moreover have "\<exists>v \<in> set (write_scopes (tp_tasks plan)). \<exists>w \<in> set (write_scopes (tp_tasks plan)). writer_id v = x \<and> writer_id w = y \<and> shares_writes v w"
      if "(x, y) \<in> stated_order p - stated_order plan" for x y
    proof -
      from that order m(2) have "(x, y) \<in> fst ` set ?added" by auto
      from a(6) [OF this, unfolded f(2)] same_writers [OF f(1)] show ?thesis by metis
    qed
    ultimately show ?thesis using order m(2) by blast
  qed
qed

lemma plan_example_repairable: "repairable (plan_example [] [])"
proof -
  have "stated_order (plan_example [] []) = {}"
    by (simp add: stated_order_def task_orders_def plan_example_def task_example_def stated_edges_def listed_def)
  then show ?thesis by (simp add: repairable_def acyclic_def) (simp add: plan_example_def task_example_def)
qed

text \<open>The two writers of the example, unordered before, are ordered in the task and in the graph.\<close>

theorem repaired_plan_passes_witness:
  "validate_task_graph plan_host (with_shared_writes_ordered plan_host (plan_example [] [])) = []
    \<and> validate_task_graph plan_host (plan_example [] []) \<noteq> []
    \<and> tp_graph (with_shared_writes_ordered plan_host (plan_example [] [])) = Some [(''a'', ''b'')]"
proof (intro conjI)
  show "validate_task_graph plan_host (with_shared_writes_ordered plan_host (plan_example [] [])) = []"
    using repaired_plan_passes [OF plan_example_repairable refl, of plan_host] by (rule conjunct1)
  show "validate_task_graph plan_host (plan_example [] []) \<noteq> []" by code_simp
  show "tp_graph (with_shared_writes_ordered plan_host (plan_example [] [])) = Some [(''a'', ''b'')]" by code_simp
qed

end
