(* ===== verification/Write_Schedule.thy ===== *)
theory Write_Schedule
  imports Plan_Traceability Write_Partitions
begin

text \<open>
  The schedule of a testing plan's writes: \<open>packages/runtime/src/testing-write-schedule.ts\<close>, over the check of the
  plan, the write leases, and the classification of paths by \<open>packages/workflow/src/nodes/test-inventory.ts\<close> and
  \<open>isTestingWritePath\<close> of \<open>testing-context.ts\<close>. The plan is given as its schema parses it; the two fingerprints that
  the schedule carries are left out, and so are the observed categories of the inventory.
\<close>

section \<open>Test files\<close>

definition path_parts :: "string \<Rightarrow> string list" where
  "path_parts path = split_on (CHR ''/'') path"

definition test_suffixes :: "string list" where
  "test_suffixes = concat (map (\<lambda>a. concat (map (\<lambda>b. concat (map (\<lambda>c. map (\<lambda>d. a @ b @ c @ ''s'' @ d) ['''', ''x'']) [''j'', ''t''])) ['''', ''c'', ''m'']))
     [''.test.'', ''.spec.''])"

definition is_test_file :: "string \<Rightarrow> bool" where
  "is_test_file path \<longleftrightarrow>
     list_ex (\<lambda>p. p \<in> set [''test'', ''tests'', ''__tests__'', ''spec'']) (butlast (path_parts path))
     \<or> list_ex (\<lambda>s. ends_with s path) test_suffixes
     \<or> (let name = last (path_parts path) in starts_with ''test_'' name \<and> ends_with ''.py'' name \<and> 9 \<le> length name)
     \<or> list_ex (\<lambda>s. ends_with s path) [''_test.py'', ''_test.go'', ''_test.rb'', ''_spec.rb'']"

definition framework_names :: "string list" where
  "framework_names = concat (map (\<lambda>a. concat (map (\<lambda>b. map (\<lambda>c. a @ ''.config.'' @ b @ c @ ''s'') [''j'', ''t'']) ['''', ''c'', ''m'']))
       [''vitest'', ''jest'', ''playwright'', ''cypress''])
     @ [''pytest.ini'', ''phpunit.xml'', ''phpunit.xml.dist'', ''package.json'', ''pnpm-workspace.yaml'', ''pyproject.toml'', ''tox.ini'',
        ''setup.cfg'', ''Cargo.toml'', ''go.mod'', ''Makefile'', ''build.gradle'', ''pom.xml'']"

definition is_framework_file :: "string \<Rightarrow> bool" where
  "is_framework_file path \<longleftrightarrow> last (path_parts path) \<in> set framework_names"

definition normal_path :: "string \<Rightarrow> string" where
  "normal_path path = strip_prefix ''./'' (map (\<lambda>c. if c = CHR 0x5C then CHR ''/'' else c) path)"

record test_report =
  tr_framework :: "string list"
  tr_directories :: "string list"
  tr_tests :: "string list"
  tr_sources :: "string list"

definition directory_of :: "string \<Rightarrow> string" where
  "directory_of path = join_with ''/'' (butlast (path_parts path))"

definition test_inventory :: "string list \<Rightarrow> test_report" where
  "test_inventory paths =
     (let files = sort_strings (map normal_path paths); tests = filter is_test_file files; framework = filter is_framework_file files in
      \<lparr>tr_framework = framework, tr_directories = sort_strings (uniq (filter (\<lambda>d. d \<noteq> []) (map directory_of tests))), tr_tests = tests,
       tr_sources = filter (\<lambda>p. \<not> is_test_file p \<and> p \<notin> set framework) files\<rparr>)"

definition is_testing_write_path :: "string \<Rightarrow> test_report \<Rightarrow> bool" where
  "is_testing_write_path path inventory \<longleftrightarrow>
     (if contains_text [CHR 0x5C] path \<or> contains_text '':'' path \<or> list_ex (\<lambda>p. p \<in> set [''..'', ''.'', '''']) (path_parts path) then False
      else if path \<in> set (tr_sources inventory) then False
      else let c = test_inventory [path] in tr_tests c \<noteq> [] \<or> tr_framework c \<noteq> [])"

section \<open>Grants and requests\<close>

record task_grant =
  tg_task :: string
  tg_partition :: string
  tg_exclusive :: bool

record write_authorization =
  wa_partitions :: "trusted_partition list"
  wa_tasks :: "task_grant list"
  wa_parallel :: number

datatype schedule_error =
    ExecutionPlanInvalid | InvalidWritableConcurrency | AuthorizationIncomplete "string list" "string list"
  | ProductionWriteForbidden | WriteRefused write_error | WriteRequestAbsent | WriteScheduleDeadlock

definition grants_by_task :: "task_grant list \<Rightarrow> (string \<times> task_grant) list" where
  "grants_by_task gs = fold (\<lambda>g. AList.update (tg_task g) g) gs []"

definition task_request :: "plan_task \<Rightarrow> task_grant \<Rightarrow> write_request" where
  "task_request t g = \<lparr>wq_task = tk_id t, wq_partition = tg_partition g, wq_paths = listed (tk_files t),
     wq_excluded = Some (listed (tk_spared t)), wq_exclusive = Some (tg_exclusive g)\<rparr>"

definition lift_write :: "write_error + 'a \<Rightarrow> schedule_error + 'a" where
  "lift_write r = (case r of Inl e \<Rightarrow> Inl (WriteRefused e) | Inr x \<Rightarrow> Inr x)"

text \<open>The check of one task before any writer exists: its lease is acquired and released at once.\<close>

definition preflight_task ::
  "js_host \<Rightarrow> test_report \<Rightarrow> (string \<times> task_grant) list \<Rightarrow> plan_task \<Rightarrow> write_partitions \<times> (string \<times> write_request) list \<Rightarrow>
     schedule_error + write_partitions \<times> (string \<times> write_request) list" where
  "preflight_task h inventory grants t s =
     (case map_of grants (tk_id t) of
        None \<Rightarrow> Inl (AuthorizationIncomplete [] [])
      | Some g \<Rightarrow>
          if list_ex (\<lambda>p. \<not> is_testing_write_path p inventory) (listed (tk_files t)) then Inl ProductionWriteForbidden
          else result_bind (lift_write (acquire_write h (task_request t g) (fst s))) (\<lambda>r.
               result_bind (lift_write (release_write (snd r) (fst r))) (\<lambda>guard.
               Inr (guard, AList.update (tk_id t) (task_request t g) (snd s)))))"

definition prepare_schedule ::
  "js_host \<Rightarrow> traceable_plan \<Rightarrow> test_report \<Rightarrow> write_authorization \<Rightarrow> schedule_error + write_partitions \<times> (string \<times> write_request) list" where
  "prepare_schedule h plan inventory auth =
     (if tp_mode plan \<noteq> TestingPlan \<or> list_ex uq_blocking (tp_questions plan) \<or> validate_traceability h plan [] \<noteq> [] then Inl ExecutionPlanInvalid
      else if \<not> safe_integer (wa_parallel auth) \<or> int_of_number (wa_parallel auth) < 1 \<or> 16 < int_of_number (wa_parallel auth)
        then Inl InvalidWritableConcurrency
      else let tasks = tasks_by_id (tp_tasks plan); grants = grants_by_task (wa_tasks auth) in
        if length grants \<noteq> length (wa_tasks auth) \<or> length grants \<noteq> length tasks \<or> list_ex (\<lambda>g. map_of tasks (fst g) = None) grants
        then Inl (AuthorizationIncomplete (filter (\<lambda>i. map_of grants i = None) (map fst tasks)) (filter (\<lambda>i. map_of tasks i = None) (map fst grants)))
        else result_bind (lift_write (new_partitions h (wa_partitions auth))) (\<lambda>guard.
             result_fold (preflight_task h inventory grants) (tp_tasks plan) (guard, [])))"

section \<open>Batches\<close>

record batch_state =
  bq_batch :: "write_request list"
  bq_leases :: "write_lease list"
  bq_guard :: write_partitions

definition tasks_before :: "traceable_plan \<Rightarrow> string \<Rightarrow> string list" where
  "tasks_before plan i = map fst (filter (\<lambda>ab. snd ab = i) (listed (tp_graph plan)))"

definition conflicts_of :: "plan_task \<Rightarrow> string list" where
  "conflicts_of t = (case tk_dependencies t of None \<Rightarrow> [] | Some d \<Rightarrow> pd_conflicts d)"

definition conflicting :: "(string \<times> plan_task) list \<Rightarrow> plan_task \<Rightarrow> write_request \<Rightarrow> bool" where
  "conflicting tasks t q \<longleftrightarrow> wq_task q \<in> set (conflicts_of t)
     \<or> (case map_of tasks (wq_task q) of None \<Rightarrow> False | Some u \<Rightarrow> tk_id t \<in> set (conflicts_of u))"

definition add_to_batch ::
  "js_host \<Rightarrow> traceable_plan \<Rightarrow> int \<Rightarrow> (string \<times> write_request) list \<Rightarrow> string list \<Rightarrow> plan_task \<Rightarrow> batch_state \<Rightarrow> schedule_error + batch_state" where
  "add_to_batch h plan parallel requests completed t s =
     (if tk_id t \<in> set completed \<or> \<not> list_all (\<lambda>i. i \<in> set completed) (tasks_before plan (tk_id t)) \<or> parallel \<le> int (length (bq_batch s)) then Inr s
      else if list_ex (conflicting (tasks_by_id (tp_tasks plan)) t) (bq_batch s) then Inr s
      else case map_of requests (tk_id t) of
        None \<Rightarrow> Inl WriteRequestAbsent
      | Some q \<Rightarrow>
          (case acquire_write h q (bq_guard s) of
             Inl e \<Rightarrow> (case e of WriteScopeBusy _ \<Rightarrow> Inr s | _ \<Rightarrow> Inl (WriteRefused e))
           | Inr (guard, l) \<Rightarrow> Inr \<lparr>bq_batch = bq_batch s @ [q], bq_leases = bq_leases s @ [l], bq_guard = guard\<rparr>))"

definition sorted_tasks :: "js_host \<Rightarrow> traceable_plan \<Rightarrow> plan_task list" where
  "sorted_tasks h plan = sort_by (on_key (lc h) tk_id) (map snd (tasks_by_id (tp_tasks plan)))"

definition next_batch ::
  "js_host \<Rightarrow> traceable_plan \<Rightarrow> int \<Rightarrow> (string \<times> write_request) list \<Rightarrow> string list \<Rightarrow> write_partitions \<Rightarrow> schedule_error + batch_state" where
  "next_batch h plan parallel requests completed guard =
     result_fold (add_to_batch h plan parallel requests completed) (sorted_tasks h plan) \<lparr>bq_batch = [], bq_leases = [], bq_guard = guard\<rparr>"

definition release_all :: "write_lease list \<Rightarrow> write_partitions \<Rightarrow> write_error + write_partitions" where
  "release_all ls guard = result_fold release_write ls guard"

definition complete_all :: "write_request list \<Rightarrow> string list \<Rightarrow> string list" where
  "complete_all batch completed = fold (\<lambda>q. set_add (wq_task q)) batch completed"

text \<open>The loop over the batches; without fuel it has not returned. Every batch completes a task, so one more turn than tasks is enough.\<close>

primrec schedule_batches ::
  "nat \<Rightarrow> js_host \<Rightarrow> traceable_plan \<Rightarrow> int \<Rightarrow> (string \<times> write_request) list \<Rightarrow> string list \<Rightarrow> write_partitions \<Rightarrow> write_request list list \<Rightarrow>
     (schedule_error + write_request list list) option" where
  "schedule_batches 0 h plan parallel requests completed guard batches = None"
| "schedule_batches (Suc fuel) h plan parallel requests completed guard batches =
     (if length completed < length (tasks_by_id (tp_tasks plan)) then
        case next_batch h plan parallel requests completed guard of
          Inl e \<Rightarrow> Some (Inl e)
        | Inr s \<Rightarrow>
            if bq_batch s = [] then Some (Inl WriteScheduleDeadlock)
            else (case release_all (bq_leases s) (bq_guard s) of
                Inl e \<Rightarrow> Some (Inl (WriteRefused e))
              | Inr guard' \<Rightarrow>
                  schedule_batches fuel h plan parallel requests (complete_all (bq_batch s) completed) guard' (batches @ [bq_batch s]))
      else Some (Inr batches))"

definition testing_write_schedule ::
  "js_host \<Rightarrow> traceable_plan \<Rightarrow> test_report \<Rightarrow> write_authorization \<Rightarrow> (schedule_error + write_request list list) option" where
  "testing_write_schedule h plan inventory auth =
     (case prepare_schedule h plan inventory auth of
        Inl e \<Rightarrow> Some (Inl e)
      | Inr (guard, requests) \<Rightarrow>
          schedule_batches (Suc (length (tp_tasks plan))) h plan (int_of_number (wa_parallel auth)) requests [] guard [])"

section \<open>Leases of an idle guard\<close>

text \<open>What an acquisition checks that does not depend on the active leases.\<close>

definition acquirable :: "js_host \<Rightarrow> (string \<times> (string \<times> string) list) list \<Rightarrow> write_request \<Rightarrow> bool" where
  "acquirable h P q \<longleftrightarrow> (\<exists>r. acquire_write h q \<lparr>wp_partitions = P, wp_active = [], wp_made = 0\<rparr> = Inr r)"

definition leased :: "write_request \<Rightarrow> nat \<Rightarrow> write_lease" where
  "leased q n = \<lparr>wl_task = wq_task q, wl_partition = wq_partition q, wl_paths = sort_strings (wq_paths q),
     wl_exclusive = (wq_exclusive q = Some True), wl_made = n\<rparr>"

lemma acquirableE:
  assumes "acquirable h P q"
  obtains scope excluded paths r where "\<not> blank (wq_task q)" "map_of P (wq_partition q) = Some scope"
      "result_map (concrete_write_path h) (case wq_excluded q of None \<Rightarrow> [] | Some xs \<Rightarrow> xs) = Inr excluded"
      "result_map (concrete_write_path h) (wq_paths q) = Inr paths" "distinct (map path_identity paths)"
      "result_map (scope_check scope (map path_identity excluded)) paths = Inr r" "paths \<noteq> []"
  using assms by (auto simp: acquirable_def acquire_write_def result_simps split: if_splits option.splits)

lemma acquire_idle:
  assumes "acquirable h (wp_partitions s) q"
  shows "acquire_write h q s =
    (if map_of (wp_active s) (wq_task q) \<noteq> None then Inl TaskActiveOrInvalid
     else result_bind (result_map (busy_check (wq_exclusive q = Some True) (wq_paths q)) (wp_active s)) (\<lambda>_.
       Inr (s\<lparr>wp_active := AList.update (wq_task q) (leased q (wp_made s)) (wp_active s), wp_made := Suc (wp_made s)\<rparr>, leased q (wp_made s))))"
proof -
  from assms obtain scope excluded paths r where
    static: "\<not> blank (wq_task q)" "map_of (wp_partitions s) (wq_partition q) = Some scope"
      "result_map (concrete_write_path h) (case wq_excluded q of None \<Rightarrow> [] | Some xs \<Rightarrow> xs) = Inr excluded"
      "result_map (concrete_write_path h) (wq_paths q) = Inr paths" "distinct (map path_identity paths)"
      "result_map (scope_check scope (map path_identity excluded)) paths = Inr r" "paths \<noteq> []"
    by (rule acquirableE)
  with concrete_all [OF static(4)] show ?thesis
    by (simp add: acquire_write_def leased_def Let_def)
qed

lemma acquirable_when_idle:
  "acquire_write h q s = Inr r \<Longrightarrow> wp_active s = [] \<Longrightarrow> acquirable h (wp_partitions s) q"
  by (auto simp: acquirable_def acquire_write_def result_simps Let_def split: if_splits option.splits)

lemma acquirable_scope:
  assumes "acquirable h P q"
  shows "\<exists>scope. map_of P (wq_partition q) = Some scope \<and> (\<forall>p \<in> set (wq_paths q). map_of scope (path_identity p) = Some p)"
    "wq_paths q \<noteq> []"
proof -
  from assms obtain scope excluded paths r where
    static: "map_of P (wq_partition q) = Some scope" "result_map (concrete_write_path h) (wq_paths q) = Inr paths"
      "result_map (scope_check scope (map path_identity excluded)) paths = Inr r" "paths \<noteq> []"
    by (rule acquirableE)
  note same = concrete_all [OF static(2)]
  have "map_of scope (path_identity p) = Some p" if "p \<in> set (wq_paths q)" for p
    using result_map_units [OF static(3), of p] that same by (auto simp: scope_check_def split: if_splits)
  with static(1) show "\<exists>scope. map_of P (wq_partition q) = Some scope \<and> (\<forall>p \<in> set (wq_paths q). map_of scope (path_identity p) = Some p)" by blast
  from static(4) same show "wq_paths q \<noteq> []" by simp
qed

section \<open>What a batch is\<close>

text \<open>Two requests that may be written at the same time: no common path, none exclusive, and no stated conflict.\<close>

definition separate :: "write_request \<Rightarrow> write_request \<Rightarrow> bool" where
  "separate a b \<longleftrightarrow> wq_exclusive a \<noteq> Some True \<and> wq_exclusive b \<noteq> Some True
     \<and> (\<forall>p \<in> set (wq_paths a). \<forall>q \<in> set (wq_paths b). \<not> intersects (path_identity p) (path_identity q))"

definition compatible :: "(string \<times> plan_task) list \<Rightarrow> write_request \<Rightarrow> write_request \<Rightarrow> bool" where
  "compatible tasks a b \<longleftrightarrow> (\<forall>t. map_of tasks (wq_task a) = Some t \<longrightarrow> wq_task b \<notin> set (conflicts_of t))
     \<and> (\<forall>t. map_of tasks (wq_task b) = Some t \<longrightarrow> wq_task a \<notin> set (conflicts_of t))"

lemma separate_sym: "separate a b = separate b a"
  unfolding separate_def using intersects_sym by blast

lemma compatible_sym: "compatible tasks a b = compatible tasks b a"
  unfolding compatible_def by blast

definition good_batch ::
  "traceable_plan \<Rightarrow> int \<Rightarrow> (string \<times> write_request) list \<Rightarrow> string set \<Rightarrow> write_request list \<Rightarrow> bool" where
  "good_batch plan parallel requests completed batch \<longleftrightarrow>
     int (length batch) \<le> parallel \<and> distinct (map wq_task batch)
     \<and> (\<forall>q \<in> set batch. map_of requests (wq_task q) = Some q \<and> wq_task q \<notin> completed \<and> set (tasks_before plan (wq_task q)) \<subseteq> completed)
     \<and> (\<forall>a \<in> set batch. \<forall>b \<in> set batch. a \<noteq> b \<longrightarrow> separate a b \<and> compatible (tasks_by_id (tp_tasks plan)) a b)"

fun good_schedule ::
  "traceable_plan \<Rightarrow> int \<Rightarrow> (string \<times> write_request) list \<Rightarrow> string set \<Rightarrow> write_request list list \<Rightarrow> bool" where
  "good_schedule plan parallel requests completed [] = True"
| "good_schedule plan parallel requests completed (b # bs) =
     (good_batch plan parallel requests completed b \<and> good_schedule plan parallel requests (completed \<union> wq_task ` set b) bs)"

lemma good_schedule_append:
  "good_schedule plan parallel requests completed (bs @ [b]) \<longleftrightarrow> good_schedule plan parallel requests completed bs
     \<and> good_batch plan parallel requests (completed \<union> wq_task ` set (concat bs)) b"
  by (induction bs arbitrary: completed) (auto simp: Un_assoc image_Un)

section \<open>Building a batch\<close>

definition batch_inv ::
  "traceable_plan \<Rightarrow> int \<Rightarrow> (string \<times> write_request) list \<Rightarrow> string set \<Rightarrow> (string \<times> (string \<times> string) list) list \<Rightarrow> batch_state \<Rightarrow> bool" where
  "batch_inv plan parallel requests completed P s \<longleftrightarrow>
     good_batch plan parallel requests completed (bq_batch s) \<and> wp_partitions (bq_guard s) = P
     \<and> wp_active (bq_guard s) = map (\<lambda>l. (wl_task l, l)) (bq_leases s)
     \<and> list_all2 (\<lambda>q l. \<exists>n. l = leased q n) (bq_batch s) (bq_leases s)"

lemma leased_fields [simp]:
  "wl_task (leased q n) = wq_task q" "wl_exclusive (leased q n) = (wq_exclusive q = Some True)" "set (wl_paths (leased q n)) = set (wq_paths q)"
  by (simp_all add: leased_def)

lemma leases_tasks: "list_all2 (\<lambda>q l. \<exists>n. l = leased q n) qs ls \<Longrightarrow> map wl_task ls = map wq_task qs"
  by (induction rule: list_all2_induct) auto

lemma busy_only: "result_map (busy_check x paths) actives = Inl e \<Longrightarrow> \<exists>i. e = WriteScopeBusy i"
  by (induction actives) (auto simp: result_simps busy_check_def)

lemma update_new: "k \<notin> fst ` set m \<Longrightarrow> AList.update k v m = m @ [(k, v)]"
  by (rule map_fst_update_notin)

lemma add_to_batch_step:
  assumes inv: "batch_inv plan parallel requests (set completed) P s"
    and q: "map_of requests (tk_id t) = Some q" "wq_task q = tk_id t" "acquirable h P q"
    and t: "map_of (tasks_by_id (tp_tasks plan)) (tk_id t) = Some t" and fresh: "tk_id t \<notin> wq_task ` set (bq_batch s)"
  shows "\<exists>s'. add_to_batch h plan parallel requests completed t s = Inr s' \<and> batch_inv plan parallel requests (set completed) P s'
    \<and> (bq_batch s' = bq_batch s \<or> bq_batch s' = bq_batch s @ [q])
    \<and> (bq_batch s = [] \<and> tk_id t \<notin> set completed \<and> set (tasks_before plan (tk_id t)) \<subseteq> set completed \<and> 1 \<le> parallel \<longrightarrow> bq_batch s' \<noteq> [])"
proof (cases "tk_id t \<in> set completed \<or> \<not> list_all (\<lambda>i. i \<in> set completed) (tasks_before plan (tk_id t)) \<or> parallel \<le> int (length (bq_batch s))
    \<or> list_ex (conflicting (tasks_by_id (tp_tasks plan)) t) (bq_batch s)")
  case True
  then have "add_to_batch h plan parallel requests completed t s = Inr s" by (auto simp: add_to_batch_def)
  with inv True show ?thesis by (auto simp: list_all_iff)
next
  case False
  note I = inv [unfolded batch_inv_def]
  let ?g = "bq_guard s" and ?l = "leased q (wp_made (bq_guard s))"
  have tasks: "map wl_task (bq_leases s) = map wq_task (bq_batch s)" using I leases_tasks by blast
  then have idle: "tk_id t \<notin> fst ` set (wp_active ?g)" 
  proof -
    have "fst ` set (wp_active ?g) = set (map wl_task (bq_leases s))" using I by (simp add: image_image)
    also have "\<dots> = wq_task ` set (bq_batch s)" unfolding tasks by simp
    finally show ?thesis using fresh by simp
  qed
  have acquire: "acquire_write h q ?g = result_bind (result_map (busy_check (wq_exclusive q = Some True) (wq_paths q)) (wp_active ?g)) (\<lambda>_.
      Inr (?g\<lparr>wp_active := wp_active ?g @ [(tk_id t, ?l)], wp_made := Suc (wp_made ?g)\<rparr>, ?l))"
    using acquire_idle [of h ?g q] q(2,3) I idle update_new [OF idle] by (simp add: map_of_eq_None_iff)
  have add: "add_to_batch h plan parallel requests completed t s = (case acquire_write h q ?g of
      Inl e \<Rightarrow> (case e of WriteScopeBusy _ \<Rightarrow> Inr s | _ \<Rightarrow> Inl (WriteRefused e))
    | Inr (guard, l) \<Rightarrow> Inr \<lparr>bq_batch = bq_batch s @ [q], bq_leases = bq_leases s @ [l], bq_guard = guard\<rparr>)"
    using False q(1) by (simp add: add_to_batch_def)
  show ?thesis
  proof (cases "result_map (busy_check (wq_exclusive q = Some True) (wq_paths q)) (wp_active ?g)")
    case (Inl e)
    then obtain i where "e = WriteScopeBusy i" using busy_only by blast
    with Inl acquire add have "add_to_batch h plan parallel requests completed t s = Inr s" by simp
    moreover have "bq_batch s \<noteq> []"
    proof
      assume "bq_batch s = []"
      with I have "wp_active ?g = []" by simp
      with Inl show False by simp
    qed
    ultimately show ?thesis using inv by auto
  next
    case (Inr us)
    let ?s = "\<lparr>bq_batch = bq_batch s @ [q], bq_leases = bq_leases s @ [?l],
      bq_guard = ?g\<lparr>wp_active := wp_active ?g @ [(tk_id t, ?l)], wp_made := Suc (wp_made ?g)\<rparr>\<rparr>"
    have s': "add_to_batch h plan parallel requests completed t s = Inr ?s" using Inr acquire add by simp
    have apart: "separate q b" if b: "b \<in> set (bq_batch s)" for b
    proof -
      from I have "list_all2 (\<lambda>q l. \<exists>n. l = leased q n) (bq_batch s) (bq_leases s)" by blast
      then obtain i n where i: "i < length (bq_leases s)" "bq_leases s ! i = leased b n"
        using b unfolding list_all2_conv_all_nth in_set_conv_nth by metis
      then obtain l where l: "l \<in> set (bq_leases s)" "l = leased b n" using nth_mem by metis
      from l(1) have "(wl_task l, l) \<in> (\<lambda>l. (wl_task l, l)) ` set (bq_leases s)" by (rule imageI)
      with I have "(wl_task l, l) \<in> set (wp_active ?g)" by (simp only: set_map)
      from result_map_units [OF Inr this] l(2) show ?thesis
        by (auto simp: busy_check_def separate_def list_ex_iff)
    qed
    have fine: "compatible (tasks_by_id (tp_tasks plan)) q b" if "b \<in> set (bq_batch s)" for b
      using False that q(2) t by (auto simp: compatible_def conflicting_def list_ex_iff split: option.splits)
    have good: "good_batch plan parallel requests (set completed) (bq_batch s @ [q])"
    proof -
      have "\<forall>a \<in> set (bq_batch s @ [q]). \<forall>b \<in> set (bq_batch s @ [q]). a \<noteq> b \<longrightarrow> separate a b \<and> compatible (tasks_by_id (tp_tasks plan)) a b"
      proof (intro ballI impI)
        fix a b assume ab: "a \<in> set (bq_batch s @ [q])" "b \<in> set (bq_batch s @ [q])" "a \<noteq> b"
        then consider "a \<in> set (bq_batch s)" "b \<in> set (bq_batch s)" | "a = q" "b \<in> set (bq_batch s)" | "b = q" "a \<in> set (bq_batch s)" by auto
        then show "separate a b \<and> compatible (tasks_by_id (tp_tasks plan)) a b"
        proof cases
          case 1
          with I ab(3) show ?thesis unfolding good_batch_def by blast
        next
          case 2
          with apart fine show ?thesis by blast
        next
          case 3
          with apart [of a] fine [of a] show ?thesis by (simp add: separate_sym compatible_sym)
        qed
      qed
      moreover have "int (length (bq_batch s @ [q])) \<le> parallel" "distinct (map wq_task (bq_batch s @ [q]))"
        using I False fresh q(2) unfolding good_batch_def by auto
      moreover have "\<forall>r \<in> set (bq_batch s @ [q]). map_of requests (wq_task r) = Some r \<and> wq_task r \<notin> set completed
          \<and> set (tasks_before plan (wq_task r)) \<subseteq> set completed"
        using I False q(1,2) unfolding good_batch_def by (auto simp: list_all_iff)
      ultimately show ?thesis unfolding good_batch_def by blast
    qed
    have "batch_inv plan parallel requests (set completed) P ?s"
      using I good q(2) by (auto simp: batch_inv_def intro!: list_all2_appendI)
    with s' show ?thesis by auto
  qed
qed

definition writable_task :: "js_host \<Rightarrow> (string \<times> (string \<times> string) list) list \<Rightarrow> (string \<times> write_request) list \<Rightarrow> plan_task \<Rightarrow> bool" where
  "writable_task h P requests t \<longleftrightarrow> (\<exists>q. map_of requests (tk_id t) = Some q \<and> wq_task q = tk_id t \<and> acquirable h P q)"

definition ready_task :: "traceable_plan \<Rightarrow> string list \<Rightarrow> plan_task \<Rightarrow> bool" where
  "ready_task plan completed t \<longleftrightarrow> tk_id t \<notin> set completed \<and> set (tasks_before plan (tk_id t)) \<subseteq> set completed"

text \<open>A round over the tasks never throws, and it finds work as soon as one task is ready.\<close>

lemma batch_round:
  assumes "batch_inv plan parallel requests (set completed) P s" "distinct (map tk_id ts)" "1 \<le> parallel"
    and "\<forall>t \<in> set ts. map_of (tasks_by_id (tp_tasks plan)) (tk_id t) = Some t \<and> tk_id t \<notin> wq_task ` set (bq_batch s) \<and> writable_task h P requests t"
  shows "\<exists>s'. result_fold (add_to_batch h plan parallel requests completed) ts s = Inr s' \<and> batch_inv plan parallel requests (set completed) P s'
    \<and> (bq_batch s \<noteq> [] \<or> list_ex (ready_task plan completed) ts \<longrightarrow> bq_batch s' \<noteq> [])"
  using assms
proof (induction ts arbitrary: s)
  case Nil
  then show ?case by simp
next
  case (Cons t ts)
  from Cons.prems(4) obtain q where q: "map_of requests (tk_id t) = Some q" "wq_task q = tk_id t" "acquirable h P q"
    by (auto simp: writable_task_def)
  from add_to_batch_step [OF Cons.prems(1) q] Cons.prems(4) obtain s' where
    s': "add_to_batch h plan parallel requests completed t s = Inr s'" "batch_inv plan parallel requests (set completed) P s'"
      "bq_batch s' = bq_batch s \<or> bq_batch s' = bq_batch s @ [q]"
      "bq_batch s = [] \<and> ready_task plan completed t \<longrightarrow> bq_batch s' \<noteq> []"
    using Cons.prems(3) unfolding ready_task_def by (meson list.set_intros(1))
  have "\<forall>u \<in> set ts. map_of (tasks_by_id (tp_tasks plan)) (tk_id u) = Some u \<and> tk_id u \<notin> wq_task ` set (bq_batch s') \<and> writable_task h P requests u"
  proof
    fix u assume u: "u \<in> set ts"
    then have "tk_id u \<in> set (map tk_id ts)" by simp
    with Cons.prems(2) have "tk_id u \<noteq> tk_id t" by auto
    moreover have "wq_task ` set (bq_batch s') \<subseteq> insert (tk_id t) (wq_task ` set (bq_batch s))" using s'(3) q(2) by auto
    ultimately show "map_of (tasks_by_id (tp_tasks plan)) (tk_id u) = Some u \<and> tk_id u \<notin> wq_task ` set (bq_batch s') \<and> writable_task h P requests u"
      using Cons.prems(4) u by auto
  qed
  with Cons.IH [OF s'(2)] Cons.prems(2,3) obtain s'' where
    s'': "result_fold (add_to_batch h plan parallel requests completed) ts s' = Inr s''" "batch_inv plan parallel requests (set completed) P s''"
      "bq_batch s' \<noteq> [] \<or> list_ex (ready_task plan completed) ts \<longrightarrow> bq_batch s'' \<noteq> []"
    by auto
  with s' show ?case by auto
qed

lemma tasks_by_id_distinct: "distinct (map tk_id ts) \<Longrightarrow> tasks_by_id ts = map (\<lambda>t. (tk_id t, t)) ts"
proof -
  have "fold (\<lambda>t. AList.update (tk_id t) t) us m = m @ map (\<lambda>t. (tk_id t, t)) us"
    if "distinct (map tk_id us)" "fst ` set m \<inter> tk_id ` set us = {}" for us and m :: "(string \<times> plan_task) list"
    using that
  proof (induction us arbitrary: m)
    case (Cons u us)
    then have "AList.update (tk_id u) u m = m @ [(tk_id u, u)]" by (intro update_new) auto
    with Cons show ?case by auto
  qed simp
  from this [of ts "[]"] show "distinct (map tk_id ts) \<Longrightarrow> tasks_by_id ts = map (\<lambda>t. (tk_id t, t)) ts" by (simp add: tasks_by_id_def)
qed

lemma next_batch_works:
  assumes "distinct (map tk_id (tp_tasks plan))" "1 \<le> parallel" "\<forall>t \<in> set (tp_tasks plan). writable_task h (wp_partitions g) requests t"
    and "wp_active g = []" "t \<in> set (tp_tasks plan)" "ready_task plan completed t"
  shows "\<exists>s. next_batch h plan parallel requests completed g = Inr s \<and> batch_inv plan parallel requests (set completed) (wp_partitions g) s
    \<and> bq_batch s \<noteq> []"
proof -
  let ?ts = "sorted_tasks h plan"
  have tasks: "tasks_by_id (tp_tasks plan) = map (\<lambda>t. (tk_id t, t)) (tp_tasks plan)" using tasks_by_id_distinct [OF assms(1)] .
  have ts: "set ?ts = set (tp_tasks plan)" "distinct (map tk_id ?ts)" using assms(1) by (simp_all add: sorted_tasks_def tasks comp_def)
  have "map_of (tasks_by_id (tp_tasks plan)) (tk_id u) = Some u" if "u \<in> set (tp_tasks plan)" for u
    using that assms(1) unfolding tasks by (intro map_of_is_SomeI) (auto simp: comp_def)
  with ts assms(3) have all: "\<forall>u \<in> set ?ts. map_of (tasks_by_id (tp_tasks plan)) (tk_id u) = Some u
      \<and> tk_id u \<notin> wq_task ` set (bq_batch \<lparr>bq_batch = [], bq_leases = [], bq_guard = g\<rparr>) \<and> writable_task h (wp_partitions g) requests u" by simp
  have start: "batch_inv plan parallel requests (set completed) (wp_partitions g) \<lparr>bq_batch = [], bq_leases = [], bq_guard = g\<rparr>"
    using assms(2,4) by (simp add: batch_inv_def good_batch_def)
  have "list_ex (ready_task plan completed) ?ts" using assms(5,6) ts(1) by (auto simp: list_ex_iff)
  with batch_round [OF start ts(2) assms(2) all] show ?thesis unfolding next_batch_def by auto
qed

text \<open>After a batch the guard is as it was before it.\<close>

lemma release_all_leases:
  "wp_active g = map (\<lambda>l. (wl_task l, l)) ls \<Longrightarrow> distinct (map wl_task ls) \<Longrightarrow> release_all ls g = Inr (g\<lparr>wp_active := []\<rparr>)"
proof (induction ls arbitrary: g)
  case (Cons l ls)
  have "AList.delete (wl_task l) (map (\<lambda>l. (wl_task l, l)) ls) = map (\<lambda>l. (wl_task l, l)) ls"
    using Cons.prems(2) by (intro delete_id) (auto simp: image_iff)
  then have "release_write l g = Inr (g\<lparr>wp_active := map (\<lambda>l. (wl_task l, l)) ls\<rparr>)" using Cons.prems by (simp add: release_write_def)
  with Cons.IH [of "g\<lparr>wp_active := map (\<lambda>l. (wl_task l, l)) ls\<rparr>"] Cons.prems(2) show ?case by (simp add: release_all_def)
qed (simp add: release_all_def)

lemma complete_batch:
  "distinct (map wq_task b) \<Longrightarrow> wq_task ` set b \<inter> set completed = {} \<Longrightarrow> complete_all b completed = completed @ map wq_task b"
proof (induction b arbitrary: completed)
  case (Cons q b)
  then have "complete_all b (completed @ [wq_task q]) = (completed @ [wq_task q]) @ map wq_task b" by (intro Cons.IH) auto
  with Cons.prems show ?case by (auto simp: complete_all_def set_add_def)
qed (simp add: complete_all_def)

section \<open>Progress\<close>

text \<open>In a plan that the check accepts, some task that is not completed waits for completed tasks only.\<close>

lemma accepted_order:
  assumes "validate_traceability h plan [] = []"
  shows "distinct (map tk_id (tp_tasks plan))" "acyclic (set (listed (tp_graph plan)))"
proof -
  show d: "distinct (map tk_id (tp_tasks plan))" using traceability_Nil(1) [OF assms] .
  define e where "e = gc_edges (check_graph plan)"
  note nil = task_graph_Nil [OF traceability_Nil(8) [OF assms]]
  note g = check_graphD(1,2) [OF nil(1) e_def refl]
  have "length (tasks_by_id (tp_tasks plan)) = card (tk_id ` set (tp_tasks plan))"
    using tasks_by_id_distinct [OF d] distinct_card [OF d] by simp
  with nil(2) ready_order_acyclic [OF g(1)] have "acyclic (order_rel e)" by (simp add: e_def)
  then show "acyclic (set (listed (tp_graph plan)))" by (rule acyclic_subset) (simp add: g(2) stated_order_def)
qed

lemma accepted_ends:
  assumes "validate_traceability h plan [] = []" "(a, b) \<in> set (listed (tp_graph plan))"
  shows "a \<in> tk_id ` set (tp_tasks plan)"
proof -
  note g = check_graphD(1,2) [OF task_graph_Nil(1) [OF traceability_Nil(8) [OF assms(1)]] refl refl]
  from assms(2) g(2) have "(a, b) \<in> order_rel (gc_edges (check_graph plan))" by (simp add: stated_order_def)
  with g(1) show ?thesis unfolding edges_ok_def by auto
qed

lemma some_task_ready:
  assumes "validate_traceability h plan [] = []" "u \<in> set (tp_tasks plan)" "tk_id u \<notin> set completed"
  shows "\<exists>t \<in> set (tp_tasks plan). ready_task plan completed t"
proof -
  have "wf (set (listed (tp_graph plan)))" using accepted_order(2) [OF assms(1)] by (intro finite_acyclic_wf) simp_all
  then obtain i where i: "i \<in> tk_id ` set (tp_tasks plan) - set completed"
      "\<And>j. (j, i) \<in> set (listed (tp_graph plan)) \<Longrightarrow> j \<notin> tk_id ` set (tp_tasks plan) - set completed"
    using wfE_min [of _ "tk_id u" "tk_id ` set (tp_tasks plan) - set completed"] assms(2,3) by (metis DiffI image_eqI)
  have "set (tasks_before plan i) \<subseteq> set completed"
  proof
    fix j assume "j \<in> set (tasks_before plan i)"
    then have j: "(j, i) \<in> set (listed (tp_graph plan))" by (auto simp: tasks_before_def)
    from i(2) [OF j] accepted_ends [OF assms(1) j] show "j \<in> set completed" by blast
  qed
  with i(1) show ?thesis by (auto simp: ready_task_def)
qed

lemma schedule_runs:
  assumes ok: "validate_traceability h plan [] = []" and p: "1 \<le> parallel" and w: "\<forall>t \<in> set (tp_tasks plan). writable_task h P requests t"
    and known: "fst ` set requests \<subseteq> tk_id ` set (tp_tasks plan)"
    and g: "wp_active g = []" "wp_partitions g = P"
    and c: "completed = map wq_task (concat bs)" "distinct completed" "set completed \<subseteq> tk_id ` set (tp_tasks plan)"
    and bs: "good_schedule plan parallel requests {} bs" "[] \<notin> set bs" and fuel: "length (tp_tasks plan) - length completed < fuel"
  shows "\<exists>cs. schedule_batches fuel h plan parallel requests completed g bs = Some (Inr cs) \<and> good_schedule plan parallel requests {} cs
    \<and> [] \<notin> set cs \<and> distinct (map wq_task (concat cs)) \<and> wq_task ` set (concat cs) = tk_id ` set (tp_tasks plan)"
  using g c bs fuel
proof (induction fuel arbitrary: completed g bs)
  case 0
  then show ?case by simp
next
  case (Suc fuel)
  note d = accepted_order(1) [OF ok]
  have len: "length (tasks_by_id (tp_tasks plan)) = length (tp_tasks plan)" using tasks_by_id_distinct [OF d] by simp
  have card: "card (tk_id ` set (tp_tasks plan)) = length (tp_tasks plan)" using distinct_card [OF d] by simp
  show ?case
  proof (cases "length completed < length (tp_tasks plan)")
    case False
    with card distinct_card [OF Suc.prems(4)] have "set completed = tk_id ` set (tp_tasks plan)"
      by (intro card_seteq Suc.prems(5)) simp_all
    with False len Suc.prems show ?thesis by auto
  next
    case True
    with card distinct_card [OF Suc.prems(4)] obtain i where "i \<in> tk_id ` set (tp_tasks plan)" "i \<notin> set completed"
      using card_mono [of "set completed" "tk_id ` set (tp_tasks plan)"] by fastforce
    with some_task_ready [OF ok] obtain t where t: "t \<in> set (tp_tasks plan)" "ready_task plan completed t" by blast
    from next_batch_works [OF d p w [folded Suc.prems(2)] Suc.prems(1) t] obtain s where
      s: "next_batch h plan parallel requests completed g = Inr s" "batch_inv plan parallel requests (set completed) P s" "bq_batch s \<noteq> []"
      unfolding Suc.prems(2) by blast
    note I = s(2) [unfolded batch_inv_def]
    let ?b = "bq_batch s" and ?g = "(bq_guard s)\<lparr>wp_active := []\<rparr>"
    have B: "distinct (map wq_task ?b)" "\<forall>q \<in> set ?b. map_of requests (wq_task q) = Some q \<and> wq_task q \<notin> set completed"
      using I unfolding good_batch_def by auto
    have leases: "map wl_task (bq_leases s) = map wq_task ?b" using I leases_tasks by blast
    have released: "release_all (bq_leases s) (bq_guard s) = Inr ?g"
      by (rule release_all_leases) (use I B(1) leases in simp_all)
    have completed: "complete_all ?b completed = completed @ map wq_task ?b" using B by (intro complete_batch) auto
    have next_step: "schedule_batches (Suc fuel) h plan parallel requests completed g bs
        = schedule_batches fuel h plan parallel requests (completed @ map wq_task ?b) ?g (bs @ [?b])"
      using True len s(1,3) released completed by simp
    have planned: "wq_task q \<in> tk_id ` set (tp_tasks plan)" if "q \<in> set ?b" for q
    proof -
      from B(2) that have "map_of requests (wq_task q) = Some q" by blast
      then have "wq_task q \<in> fst ` set requests" by (force dest: map_of_SomeD)
      with known show ?thesis by blast
    qed
    show ?thesis unfolding next_step
    proof (rule Suc.IH)
      show "good_schedule plan parallel requests {} (bs @ [?b])"
        using I Suc.prems(3,6) by (simp add: good_schedule_append)
      show "distinct (completed @ map wq_task ?b)" using Suc.prems(4) B by auto
      show "length (tp_tasks plan) - length (completed @ map wq_task ?b) < fuel" using Suc.prems(8) True s(3) by (cases ?b) auto
    qed (use I Suc.prems(3-7) s(3) planned in auto)
  qed
qed

section \<open>The preflight\<close>

lemma acquired_idle:
  assumes "acquire_write h q g = Inr (g', l)" "wp_active g = []"
  shows "acquirable h (wp_partitions g) q" "wp_partitions g' = wp_partitions g" "wp_active g' = [(wl_task l, l)]"
proof -
  show a: "acquirable h (wp_partitions g) q" using acquirable_when_idle assms by blast
  from assms show "wp_partitions g' = wp_partitions g" "wp_active g' = [(wl_task l, l)]"
    by (auto simp: acquire_idle [OF a] leased_def)
qed

definition planned_request :: "js_host \<Rightarrow> test_report \<Rightarrow> (string \<times> task_grant) list \<Rightarrow> (string \<times> (string \<times> string) list) list \<Rightarrow> plan_task \<Rightarrow> write_request \<Rightarrow> bool" where
  "planned_request h inventory grants P t q \<longleftrightarrow> (\<exists>g. map_of grants (tk_id t) = Some g \<and> q = task_request t g) \<and> acquirable h P q
     \<and> list_all (\<lambda>p. is_testing_write_path p inventory) (wq_paths q)"

lemma preflight_taskD:
  assumes "preflight_task h inventory grants t (g, rs) = Inr (g', rs')" "wp_active g = []"
  shows "wp_active g' = []" "wp_partitions g' = wp_partitions g"
    "\<exists>q. rs' = AList.update (tk_id t) q rs \<and> planned_request h inventory grants (wp_partitions g) t q"
proof -
  from assms(1) obtain a g1 l where
    a: "map_of grants (tk_id t) = Some a" "\<not> list_ex (\<lambda>p. \<not> is_testing_write_path p inventory) (listed (tk_files t))"
      "acquire_write h (task_request t a) g = Inr (g1, l)" "release_write l g1 = Inr g'" "rs' = AList.update (tk_id t) (task_request t a) rs"
    by (auto simp: preflight_task_def lift_write_def result_simps split: option.splits if_splits sum.splits)
  note idle = acquired_idle [OF a(3) assms(2)]
  from a(4) idle(3) have "g' = g1\<lparr>wp_active := []\<rparr>" by (simp add: release_write_def)
  then show "wp_active g' = []" "wp_partitions g' = wp_partitions g" using idle(2) by simp_all
  have "list_all (\<lambda>p. is_testing_write_path p inventory) (wq_paths (task_request t a))"
    using a(2) by (simp add: list_ex_iff list_all_iff task_request_def)
  with a(1,5) idle(1) show "\<exists>q. rs' = AList.update (tk_id t) q rs \<and> planned_request h inventory grants (wp_partitions g) t q"
    unfolding planned_request_def by blast
qed

lemma preflightD:
  assumes "result_fold (preflight_task h inventory grants) ts (g, rs) = Inr (g', rs')" "wp_active g = []" "distinct (map tk_id ts)"
  shows "wp_active g' = [] \<and> wp_partitions g' = wp_partitions g \<and> fst ` set rs' = fst ` set rs \<union> tk_id ` set ts
    \<and> (\<forall>i. i \<notin> tk_id ` set ts \<longrightarrow> map_of rs' i = map_of rs i)
    \<and> (\<forall>t \<in> set ts. \<exists>q. map_of rs' (tk_id t) = Some q \<and> planned_request h inventory grants (wp_partitions g) t q)"
  using assms
proof (induction ts arbitrary: g rs)
  case Nil
  then show ?case by simp
next
  case (Cons t ts)
  from Cons.prems(1) obtain g1 rs1 where
    step: "preflight_task h inventory grants t (g, rs) = Inr (g1, rs1)" "result_fold (preflight_task h inventory grants) ts (g1, rs1) = Inr (g', rs')"
    by (auto simp: result_simps)
  note one = preflight_taskD [OF step(1) Cons.prems(2)]
  from one(3) obtain q where q: "rs1 = AList.update (tk_id t) q rs" "planned_request h inventory grants (wp_partitions g) t q" by blast
  from Cons.IH [OF step(2) one(1)] Cons.prems(3) have rest:
    "wp_active g' = []" "wp_partitions g' = wp_partitions g" "fst ` set rs' = fst ` set rs1 \<union> tk_id ` set ts"
    "\<forall>i. i \<notin> tk_id ` set ts \<longrightarrow> map_of rs' i = map_of rs1 i"
    "\<forall>t \<in> set ts. \<exists>q. map_of rs' (tk_id t) = Some q \<and> planned_request h inventory grants (wp_partitions g) t q"
    using one(2) by auto
  have "tk_id t \<notin> tk_id ` set ts" using Cons.prems(3) by simp
  with rest(4) q have "map_of rs' (tk_id t) = Some q" by simp
  with rest q show ?case by (auto simp: update_keys)
qed

lemma planned_requestD:
  assumes "planned_request h inventory grants P t q"
  shows "wq_task q = tk_id t" "wq_paths q = listed (tk_files t)" "\<exists>g. map_of grants (tk_id t) = Some g \<and> tg_partition g = wq_partition q"
  using assms by (auto simp: planned_request_def task_request_def)

lemma grants_given: "map_of (grants_by_task gs) i = Some g \<Longrightarrow> g \<in> set gs \<and> tg_task g = i"
proof -
  have "map_of (fold (\<lambda>g. AList.update (tg_task g) g) gs m) i = Some g \<Longrightarrow> map_of m i = Some g \<or> g \<in> set gs \<and> tg_task g = i" for m
    by (induction gs arbitrary: m) (fastforce split: if_splits)+
  from this [of "[]"] show "map_of (grants_by_task gs) i = Some g \<Longrightarrow> g \<in> set gs \<and> tg_task g = i" by (simp add: grants_by_task_def)
qed

lemma prepare_scheduleD:
  assumes "prepare_schedule h plan inventory auth = Inr (g, rs)"
  shows "validate_traceability h plan [] = []" "1 \<le> int_of_number (wa_parallel auth)"
    "\<exists>g0. new_partitions h (wa_partitions auth) = Inr g0 \<and> result_fold (preflight_task h inventory (grants_by_task (wa_tasks auth))) (tp_tasks plan) (g0, []) = Inr (g, rs)"
  using assms by (auto simp: prepare_schedule_def lift_write_def Let_def result_simps split: if_splits sum.splits)

lemma acquirable_partition:
  assumes "new_partitions h ps = Inr g" "acquirable h (wp_partitions g) q" "p \<in> set (wq_paths q)"
  shows "partition_of ps (wq_partition q) p"
  using acquirable_scope(1) [OF assms(2)] assms(3) new_partitions_inv [OF assms(1)] unfolding guard_inv_def by blast

section \<open>The schedule\<close>

text \<open>
  C37. A testing plan that passes its preflight is scheduled: there is never a deadlock, an absent request or a refused lease. Every
  task of the plan is in exactly one batch, after the batches of all tasks the graph puts before it; no batch is empty
  or larger than the permitted number of writers, and two tasks of one batch share no path, are neither of them
  exclusive and state no conflict. Each task writes the files its plan gives it, all of them test or framework files,
  inside the partition that the operator granted to this task.
\<close>

theorem testing_schedule_complete:
  assumes prepared: "prepare_schedule h plan inventory auth = Inr (g, rs)"
  shows "\<exists>bs. testing_write_schedule h plan inventory auth = Some (Inr bs)
    \<and> good_schedule plan (int_of_number (wa_parallel auth)) rs {} bs \<and> [] \<notin> set bs
    \<and> distinct (map wq_task (concat bs)) \<and> wq_task ` set (concat bs) = tk_id ` set (tp_tasks plan)
    \<and> (\<forall>t \<in> set (tp_tasks plan). \<exists>q. map_of rs (tk_id t) = Some q \<and> wq_task q = tk_id t \<and> wq_paths q = listed (tk_files t) \<and> wq_paths q \<noteq> []
        \<and> (\<exists>a \<in> set (wa_tasks auth). tg_task a = tk_id t \<and> tg_partition a = wq_partition q)
        \<and> (\<forall>p \<in> set (wq_paths q). is_testing_write_path p inventory \<and> partition_of (wa_partitions auth) (wq_partition q) p))"
proof -
  note prep = prepare_scheduleD [OF prepared]
  let ?grants = "grants_by_task (wa_tasks auth)"
  from prep(3) obtain g0 where g0: "new_partitions h (wa_partitions auth) = Inr g0"
    "result_fold (preflight_task h inventory ?grants) (tp_tasks plan) (g0, []) = Inr (g, rs)" by blast
  have idle: "wp_active g0 = []" using g0(1) by (auto simp: new_partitions_def result_simps)
  note pre = preflightD [OF g0(2) idle accepted_order(1) [OF prep(1)]]
  have requests: "\<exists>q. map_of rs (tk_id t) = Some q \<and> planned_request h inventory ?grants (wp_partitions g0) t q"
    if "t \<in> set (tp_tasks plan)" for t using pre that by blast
  then have "\<forall>t \<in> set (tp_tasks plan). writable_task h (wp_partitions g0) rs t"
    unfolding writable_task_def planned_request_def task_request_def by fastforce
  from schedule_runs [OF prep(1,2) this, of g "[]" "[]" "Suc (length (tp_tasks plan))"] pre obtain bs where
    bs: "schedule_batches (Suc (length (tp_tasks plan))) h plan (int_of_number (wa_parallel auth)) rs [] g [] = Some (Inr bs)"
      "good_schedule plan (int_of_number (wa_parallel auth)) rs {} bs" "[] \<notin> set bs"
      "distinct (map wq_task (concat bs))" "wq_task ` set (concat bs) = tk_id ` set (tp_tasks plan)" by auto
  have "\<exists>q. map_of rs (tk_id t) = Some q \<and> wq_task q = tk_id t \<and> wq_paths q = listed (tk_files t) \<and> wq_paths q \<noteq> []
      \<and> (\<exists>a \<in> set (wa_tasks auth). tg_task a = tk_id t \<and> tg_partition a = wq_partition q)
      \<and> (\<forall>p \<in> set (wq_paths q). is_testing_write_path p inventory \<and> partition_of (wa_partitions auth) (wq_partition q) p)"
    if "t \<in> set (tp_tasks plan)" for t
  proof -
    from requests [OF that] obtain q where q: "map_of rs (tk_id t) = Some q" "planned_request h inventory ?grants (wp_partitions g0) t q" by blast
    then have "acquirable h (wp_partitions g0) q" "list_all (\<lambda>p. is_testing_write_path p inventory) (wq_paths q)"
      by (simp_all add: planned_request_def)
    then have "wq_paths q \<noteq> []" "\<forall>p \<in> set (wq_paths q). is_testing_write_path p inventory \<and> partition_of (wa_partitions auth) (wq_partition q) p"
      using acquirable_scope(2) acquirable_partition [OF g0(1)] by (auto simp: list_all_iff)
    with q planned_requestD [OF q(2)] grants_given [of "wa_tasks auth" "tk_id t"] show ?thesis by blast
  qed
  with bs prepared show ?thesis by (simp add: testing_write_schedule_def)
qed

section \<open>A schedule\<close>

definition scheduled_plan :: traceable_plan where
  "scheduled_plan = \<lparr>tp_mode = TestingPlan, tp_accepted = [], tp_questions = [], tp_validation = [''v''],
     tp_tasks = map (\<lambda>(i, first, file). (task_example i first [file] [])\<lparr>tk_issues := []\<rparr>)
       [(''a'', [], ''test/a.ts''), (''b'', [''a''], ''test/b.ts''), (''c'', [], ''test/c.ts'')],
     tp_graph = Some [(''a'', ''b'')], tp_mappings = [], tp_links = [], tp_routing = [''a'', ''b'', ''c'']\<rparr>"

definition schedule_grants :: write_authorization where
  "schedule_grants = \<lparr>wa_partitions = [\<lparr>tw_id = ''w'', tw_paths = [''test/a.ts'', ''test/b.ts'', ''test/c.ts'']\<rparr>],
     wa_tasks = map (\<lambda>i. \<lparr>tg_task = i, tg_partition = ''w'', tg_exclusive = False\<rparr>) [''a'', ''b'', ''c''], wa_parallel = Fin 2\<rparr>"

definition schedule_inventory :: test_report where
  "schedule_inventory = test_inventory [''src/a.ts'', ''test/a.ts'', ''vitest.config.mts'', ''./lib/a.spec.tsx'']"

lemma schedule_inventory:
  "schedule_inventory = \<lparr>tr_framework = [''vitest.config.mts''], tr_directories = [''lib'', ''test''], tr_tests = [''lib/a.spec.tsx'', ''test/a.ts''],
     tr_sources = [''src/a.ts'']\<rparr>"
  "\<not> is_testing_write_path ''src/a.ts'' schedule_inventory" "\<not> is_testing_write_path ''test/../src/a.ts'' schedule_inventory"
  "is_testing_write_path ''src/test_a.py'' schedule_inventory"
  by code_simp+

definition scheduled_names :: "(schedule_error + write_request list list) option \<Rightarrow> string list list" where
  "scheduled_names r = (case r of Some (Inr bs) \<Rightarrow> map (map wq_task) bs | _ \<Rightarrow> [])"

lemma scheduled_plan_prepared: "\<exists>g rs. prepare_schedule plan_host scheduled_plan schedule_inventory schedule_grants = Inr (g, rs)"
proof -
  have "\<not> isl (prepare_schedule plan_host scheduled_plan schedule_inventory schedule_grants)" by code_simp
  then show ?thesis by (cases "prepare_schedule plan_host scheduled_plan schedule_inventory schedule_grants") auto
qed

lemma scheduled_plan_order:
  "scheduled_names (testing_write_schedule plan_host scheduled_plan schedule_inventory schedule_grants) = [[''a'', ''c''], [''b'']]"
  by code_simp

theorem testing_schedule_complete_witness:
  "\<exists>bs. testing_write_schedule plan_host scheduled_plan schedule_inventory schedule_grants = Some (Inr bs)
    \<and> map (map wq_task) bs = [[''a'', ''c''], [''b'']] \<and> distinct (map wq_task (concat bs))"
proof -
  from scheduled_plan_prepared obtain g rs where "prepare_schedule plan_host scheduled_plan schedule_inventory schedule_grants = Inr (g, rs)" by blast
  from testing_schedule_complete [OF this] obtain bs where
    "testing_write_schedule plan_host scheduled_plan schedule_inventory schedule_grants = Some (Inr bs)" "distinct (map wq_task (concat bs))" by blast
  with scheduled_plan_order show ?thesis by (simp add: scheduled_names_def)
qed

end
