(* ===== verification/Targeted_Verification.thy ===== *)
theory Targeted_Verification
  imports Canonical_Issues
begin

text \<open>
  Targeted verification of disputed issues: \<open>packages/workflow/src/nodes/verification/engine.ts\<close> and \<open>ladder.ts\<close>. An
  item climbs the deterministic rungs until one is conclusive; where none is, one question may go to a model, within the
  run's number of questions. Tools, model and sink are ports: functions of what they are sent, which may throw. The sink
  is told by what it already holds. \<open>together\<close> is its default, one group after the other.
\<close>

section \<open>The ladder\<close>

datatype verification_method =
    CitedLines | SymbolOrCallPath | RouteConfigMiddleware | DependencyOrImportPath | AllowlistedSafeTest | BoundedDeterministicCheck
  | SingleModelQuestion

datatype verdict = ConfirmedBy | RejectedBy | Inconclusive

datatype execution_policy = Allowlisted | DerivedRepositoryScript

datatype verification_error =
    InvalidItem | InvalidAttempt | InvalidResponse | InvalidItemBudget | InvalidModelBudget | GroupsInvalid | GroupAnswerCount
  | PortFailed string

record verification_item =
  vi_candidate :: string
  vi_severity :: severity
  vi_claim :: string
  vi_question :: string
  vi_cited :: "string list"
  vi_context :: "(string \<times> string) list"
  vi_symbols :: "string list"
  vi_routes :: "string list"
  vi_dependencies :: "string list"
  vi_test :: "string option"
  vi_policy :: "execution_policy option"

record verification_attempt =
  va_method :: verification_method
  va_verdict :: verdict
  va_evidence :: "string list"
  va_artifacts :: "string list"
  va_tools :: "string list"
  va_activity :: string
  va_confidence :: "number option"

type_synonym rung = "verification_item \<Rightarrow> verification_error + verification_attempt"

record verification_tools =
  vt_cited_lines :: rung
  vt_symbol :: rung
  vt_route :: rung
  vt_dependency :: rung
  vt_safe_test :: "execution_policy \<Rightarrow> string \<Rightarrow> rung"
  vt_bounded :: rung

definition ladder_calls :: "verification_item \<Rightarrow> verification_tools \<Rightarrow> rung list" where
  "ladder_calls item tools =
     [vt_cited_lines tools, vt_symbol tools, vt_route tools, vt_dependency tools]
     @ (case vi_test item of None \<Rightarrow> []
        | Some command \<Rightarrow> [vt_safe_test tools (case vi_policy item of None \<Rightarrow> DerivedRepositoryScript | Some p \<Rightarrow> p) command])
     @ [vt_bounded tools]"

definition unit_interval :: "number \<Rightarrow> bool" where
  "unit_interval c \<longleftrightarrow> num_finite c \<and> \<not> num_less c (num 0) \<and> \<not> num_less (num 1) c"

definition validate_attempt :: "verification_attempt \<Rightarrow> verification_error + unit" where
  "validate_attempt a =
     require (va_method a \<noteq> SingleModelQuestion \<and> \<not> blank (va_activity a)
       \<and> (case va_confidence a of None \<Rightarrow> True | Some c \<Rightarrow> unit_interval c)) InvalidAttempt"

fun climb :: "verification_item \<Rightarrow> rung list \<Rightarrow> verification_attempt list \<Rightarrow>
    verification_error + verification_attempt option \<times> verification_attempt list" where
  "climb item [] attempts = Inr (None, attempts)"
| "climb item (invoke # calls) attempts =
     result_bind (invoke item) (\<lambda>a. result_bind (validate_attempt a) (\<lambda>_.
       if va_verdict a \<noteq> Inconclusive then Inr (Some a, attempts @ [a]) else climb item calls (attempts @ [a])))"

definition run_ladder :: "verification_item \<Rightarrow> verification_tools \<Rightarrow> verification_error + verification_attempt option \<times> verification_attempt list" where
  "run_ladder item tools = climb item (ladder_calls item tools) []"

section \<open>Questions\<close>

record model_request =
  mq_candidate :: string
  mq_question :: string
  mq_claim :: string
  mq_context :: "(string \<times> string) list"
  mq_attempts :: "(verification_method \<times> string list \<times> string list) list"

record model_response =
  mr_outcome :: string
  mr_evidence :: "string list"
  mr_artifacts :: "string list"
  mr_activity :: string
  mr_confidence :: number
  mr_reason :: "string option"

record verification_model =
  vm_verify :: "model_request \<Rightarrow> verification_error + model_response"
  vm_fits :: "(model_request \<Rightarrow> verification_error + bool) option"
  vm_group :: "(model_request list \<Rightarrow> verification_error + model_request list list) option"
  vm_verify_group :: "(model_request list \<Rightarrow> verification_error + model_response list) option"

text \<open>\<open>escalateToVerification\<close>\<close>

record verification_objection =
  vo_cites :: bool
  vo_type :: evidence_type
  vo_resolved :: "string option"

definition escalate_to_verification :: "severity \<Rightarrow> verification_objection list \<Rightarrow> bool" where
  "escalate_to_verification severity objections \<longleftrightarrow> (severity = Critical \<or> severity = High)
     \<and> list_ex (\<lambda>o1. vo_cites o1 \<and> vo_type o1 \<noteq> Speculation \<and> vo_resolved o1 = None) objections"

record prepared_item =
  pi_item :: verification_item
  pi_resolved :: "verification_attempt option"
  pi_attempts :: "verification_attempt list"
  pi_request :: "model_request option"
  pi_limited :: bool

definition model_question :: "verification_item \<Rightarrow> verification_attempt list \<Rightarrow> model_request" where
  "model_question item attempts = \<lparr>mq_candidate = vi_candidate item, mq_question = vi_question item, mq_claim = vi_claim item,
     mq_context = vi_context item, mq_attempts = map (\<lambda>a. (va_method a, va_artifacts a, va_evidence a)) attempts\<rparr>"

definition context_limited :: "verification_model option \<Rightarrow> model_request option \<Rightarrow> verification_error + bool" where
  "context_limited model request =
     (case (request, model) of
        (Some q, Some m) \<Rightarrow> (case vm_fits m of None \<Rightarrow> Inr False | Some fits \<Rightarrow> result_bind (fits q) (\<lambda>b. Inr (\<not> b)))
      | _ \<Rightarrow> Inr False)"

definition prepare_item ::
  "verification_item \<Rightarrow> verification_tools \<Rightarrow> bool \<Rightarrow> verification_model option \<Rightarrow> verification_error + prepared_item" where
  "prepare_item item tools allow model =
     (if vi_cited item = [] \<or> blank (vi_question item) \<or> CHR 0x0A \<in> set (vi_question item) then Inl InvalidItem
      else result_bind (run_ladder item tools) (\<lambda>(resolved, attempts).
        let request = (if resolved \<noteq> None \<or> \<not> allow \<or> model = None then None else Some (model_question item attempts)) in
        result_bind (context_limited model request) (\<lambda>limited.
          Inr \<lparr>pi_item = item, pi_resolved = resolved, pi_attempts = attempts, pi_request = request, pi_limited = limited\<rparr>)))"

definition is_asked :: "prepared_item \<Rightarrow> bool" where
  "is_asked e \<longleftrightarrow> pi_request e \<noteq> None \<and> \<not> pi_limited e"

section \<open>Outcomes\<close>

record verification_operation =
  vo_id :: string
  vo_candidate :: string
  vo_round :: nat
  vo_disposition :: disposition
  vo_cited :: "string list"
  vo_reason :: string
  vo_result :: verification_outcome
  vo_method :: verification_method
  vo_evidence :: "string list"
  vo_artifacts :: "string list"
  vo_tools :: "string list"
  vo_activity :: string
  vo_confidence :: "number option"
  vo_said :: "string option"

record verification_result =
  vr_candidate :: string
  vr_outcome :: verification_outcome
  vr_method :: verification_method
  vr_reason :: "string option"
  vr_operation :: verification_operation
  vr_attempts :: "verification_attempt list"
  vr_calls :: nat
  vr_limited :: bool

fun method_text :: "verification_method \<Rightarrow> string" where
  "method_text CitedLines = ''cited_lines''"
| "method_text SymbolOrCallPath = ''symbol_or_call_path''"
| "method_text RouteConfigMiddleware = ''route_config_middleware''"
| "method_text DependencyOrImportPath = ''dependency_or_import_path''"
| "method_text AllowlistedSafeTest = ''allowlisted_safe_test''"
| "method_text BoundedDeterministicCheck = ''bounded_deterministic_check''"
| "method_text SingleModelQuestion = ''single_model_question''"

fun outcome_text :: "verification_outcome \<Rightarrow> string" where
  "outcome_text Confirmed = ''confirmed''"
| "outcome_text Refuted = ''rejected''"
| "outcome_text StillNeedsVerification = ''still_needs_verification''"

fun outcome_disposition :: "verification_outcome \<Rightarrow> disposition" where
  "outcome_disposition Confirmed = Accept"
| "outcome_disposition Refuted = Reject"
| "outcome_disposition StillNeedsVerification = NeedsVerification"

definition operation_for ::
  "verification_item \<Rightarrow> nat \<Rightarrow> verification_outcome \<Rightarrow> verification_method \<Rightarrow> string list \<Rightarrow> string list \<Rightarrow> string list \<Rightarrow> string \<Rightarrow>
     number option \<Rightarrow> string option \<Rightarrow> verification_operation" where
  "operation_for item rnd outcome method evidence artifacts tools activity confidence reason =
     \<lparr>vo_id = ''verification:'' @ nat_string rnd @ '':'' @ vi_candidate item, vo_candidate = vi_candidate item, vo_round = rnd,
      vo_disposition = outcome_disposition outcome, vo_cited = evidence,
      vo_reason = ''Verification '' @ outcome_text outcome @ '' via '' @ method_text method @ ''.'',
      vo_result = outcome, vo_method = method, vo_evidence = evidence, vo_artifacts = artifacts, vo_tools = tools,
      vo_activity = activity, vo_confidence = confidence, vo_said = reason\<rparr>"

text \<open>The three outcomes a response may name; any other text is refused.\<close>

definition response_outcome :: "string \<Rightarrow> verification_outcome option" where
  "response_outcome s = map_of [(''CONFIRMED'', Confirmed), (''REJECTED'', Refuted), (''STILL_NEEDS_VERIFICATION'', StillNeedsVerification)] s"

definition validate_response :: "model_response \<Rightarrow> verification_error + verification_outcome" where
  "validate_response r =
     (case response_outcome (mr_outcome r) of
        None \<Rightarrow> Inl InvalidResponse
      | Some outcome \<Rightarrow> if blank (mr_activity r) \<or> \<not> unit_interval (mr_confidence r) then Inl InvalidResponse else Inr outcome)"

definition verdict_outcome :: "verdict \<Rightarrow> verification_outcome" where
  "verdict_outcome v = (if v = ConfirmedBy then Confirmed else Refuted)"

text \<open>The result of a prepared item, before it is recorded.\<close>

definition settle :: "nat \<Rightarrow> prepared_item \<Rightarrow> model_response option \<Rightarrow> verification_error + verification_result" where
  "settle rnd e response =
     (let item = pi_item e;
          result = (\<lambda>outcome method evidence artifacts tools activity confidence reason calls.
            \<lparr>vr_candidate = vi_candidate item, vr_outcome = outcome, vr_method = method, vr_reason = reason,
             vr_operation = operation_for item rnd outcome method (if evidence = [] then vi_cited item else evidence) artifacts tools
               activity confidence reason,
             vr_attempts = pi_attempts e, vr_calls = calls, vr_limited = pi_limited e\<rparr>) in
      case pi_resolved e of
        Some a \<Rightarrow> Inr (result (verdict_outcome (va_verdict a)) (va_method a) (va_evidence a) (va_artifacts a) (va_tools a) (va_activity a)
          (va_confidence a) None 0)
      | None \<Rightarrow>
          (case response of
             Some r \<Rightarrow> result_bind (validate_response r) (\<lambda>outcome. Inr (result outcome SingleModelQuestion (mr_evidence r) (mr_artifacts r) []
               (mr_activity r) (Some (mr_confidence r)) (mr_reason r) 1))
           | None \<Rightarrow> Inr (result StillNeedsVerification (if pi_attempts e = [] then BoundedDeterministicCheck else va_method (last (pi_attempts e)))
               (vi_cited item) (concat (map va_artifacts (pi_attempts e))) (concat (map va_tools (pi_attempts e)))
               (if pi_attempts e = [] then ''verification:'' @ vi_candidate item else va_activity (last (pi_attempts e))) None None 0)))"

type_synonym verification_sink = "verification_operation list \<Rightarrow> verification_operation \<Rightarrow> verification_error option"

definition settle_item ::
  "verification_sink \<Rightarrow> nat \<Rightarrow> prepared_item \<Rightarrow> model_response option \<Rightarrow> verification_operation list \<Rightarrow>
     verification_operation list \<times> (verification_error + verification_result)" where
  "settle_item sink rnd e response held =
     (case settle rnd e response of
        Inl err \<Rightarrow> (held, Inl err)
      | Inr r \<Rightarrow> (case sink held (vr_operation r) of Some err \<Rightarrow> (held, Inl err) | None \<Rightarrow> (held @ [vr_operation r], Inr r)))"

definition verify_item ::
  "verification_item \<Rightarrow> verification_tools \<Rightarrow> bool \<Rightarrow> verification_model option \<Rightarrow> verification_sink \<Rightarrow> nat \<Rightarrow> verification_operation list \<Rightarrow>
     verification_operation list \<times> (verification_error + verification_result)" where
  "verify_item item tools allow model sink rnd held =
     (case prepare_item item tools allow model of
        Inl err \<Rightarrow> (held, Inl err)
      | Inr e \<Rightarrow>
          (case (pi_request e, model) of
             (Some q, Some m) \<Rightarrow>
               if pi_limited e then settle_item sink rnd e None held
               else (case vm_verify m q of Inl err \<Rightarrow> (held, Inl err) | Inr r \<Rightarrow> settle_item sink rnd e (Some r) held)
           | _ \<Rightarrow> settle_item sink rnd e None held))"

section \<open>A run\<close>

record verification_config =
  vc_items :: number
  vc_allow :: bool
  vc_calls :: "number option"
  vc_round :: nat

record verification_metrics =
  vx_items :: nat
  vx_resolved :: nat
  vx_calls :: nat
  vx_questions :: nat
  vx_deferred :: "string list"
  vx_limited :: "string list"
  vx_rungs :: "(verification_method \<times> nat) list"

text \<open>The questions go to the first items that need one; \<open>assigned\<close> counts them.\<close>

fun prepare_all ::
  "verification_tools \<Rightarrow> bool \<Rightarrow> int \<Rightarrow> verification_model option \<Rightarrow> int \<Rightarrow> verification_item list \<Rightarrow> verification_error + prepared_item list" where
  "prepare_all tools allow maximum model assigned [] = Inr []"
| "prepare_all tools allow maximum model assigned (item # items) =
     result_bind (prepare_item item tools (allow \<and> assigned < maximum) model) (\<lambda>e.
     result_bind (prepare_all tools allow maximum model (if is_asked e then assigned + 1 else assigned) items) (\<lambda>es. Inr (e # es)))"

definition asked_of :: "prepared_item list \<Rightarrow> model_request list" where
  "asked_of es = concat (map (\<lambda>e. case pi_request e of None \<Rightarrow> [] | Some q \<Rightarrow> if pi_limited e then [] else [q]) es)"

definition question_groups :: "verification_model option \<Rightarrow> model_request list \<Rightarrow> verification_error + model_request list list" where
  "question_groups model asked =
     (case model of
        None \<Rightarrow> Inr (map (\<lambda>q. [q]) asked)
      | Some m \<Rightarrow> (case (vm_group m, vm_verify_group m) of (Some gather, Some _) \<Rightarrow> gather asked | _ \<Rightarrow> Inr (map (\<lambda>q. [q]) asked)))"

definition groups_valid :: "model_request list \<Rightarrow> model_request list list \<Rightarrow> bool" where
  "groups_valid asked groups \<longleftrightarrow>
     (let grouped = map mq_candidate (concat groups) in
      length grouped = length asked \<and> length (uniq grouped) = length grouped \<and> list_all (\<lambda>q. mq_candidate q \<in> set grouped) asked)"

definition ask_group :: "verification_model option \<Rightarrow> model_request list \<Rightarrow> verification_error + model_response list" where
  "ask_group model g =
     (case (model, g) of
        (Some m, only # _) \<Rightarrow>
          result_bind (case vm_verify_group m of
              Some together \<Rightarrow> if length g = 1 then result_bind (vm_verify m only) (\<lambda>r. Inr [r]) else together g
            | None \<Rightarrow> result_bind (vm_verify m only) (\<lambda>r. Inr [r]))
            (\<lambda>replies. if length replies \<noteq> length g then Inl GroupAnswerCount else Inr replies)
      | _ \<Rightarrow> Inr [])"

definition responses_of :: "model_request list list \<Rightarrow> model_response list list \<Rightarrow> (string \<times> model_response) list" where
  "responses_of groups answers = concat (map2 (\<lambda>g a. zip (map mq_candidate g) a) groups answers)"

text \<open>The last entry of a candidate is the one the \<open>Map\<close> keeps.\<close>

definition response_to :: "(string \<times> model_response) list \<Rightarrow> string \<Rightarrow> model_response option" where
  "response_to rs i = map_of (rev rs) i"

fun settle_all ::
  "verification_sink \<Rightarrow> nat \<Rightarrow> (string \<times> model_response) list \<Rightarrow> prepared_item list \<Rightarrow> verification_operation list \<Rightarrow>
     verification_operation list \<times> (verification_error + verification_result list)" where
  "settle_all sink rnd rs [] held = (held, Inr [])"
| "settle_all sink rnd rs (e # es) held =
     (case settle_item sink rnd e (response_to rs (vi_candidate (pi_item e))) held of
        (held', Inl err) \<Rightarrow> (held', Inl err)
      | (held', Inr r) \<Rightarrow>
          (case settle_all sink rnd rs es held' of
             (held'', Inl err) \<Rightarrow> (held'', Inl err)
           | (held'', Inr results) \<Rightarrow> (held'', Inr (r # results))))"

definition all_methods :: "verification_method list" where
  "all_methods = [CitedLines, SymbolOrCallPath, RouteConfigMiddleware, DependencyOrImportPath, AllowlistedSafeTest, BoundedDeterministicCheck, SingleModelQuestion]"

definition metrics_of :: "verification_result list \<Rightarrow> nat \<Rightarrow> string list \<Rightarrow> verification_metrics" where
  "metrics_of results questions deferred =
     \<lparr>vx_items = length results, vx_resolved = length (filter (\<lambda>r. vr_outcome r \<noteq> StillNeedsVerification) results),
      vx_calls = sum_list (map vr_calls results), vx_questions = questions, vx_deferred = deferred,
      vx_limited = map vr_candidate (filter vr_limited results),
      vx_rungs = map (\<lambda>m. (m, length (filter (\<lambda>r. vr_method r = m) results))) all_methods\<rparr>"

definition model_budget :: "verification_config \<Rightarrow> number" where
  "model_budget c = (case vc_calls c of None \<Rightarrow> vc_items c | Some n \<Rightarrow> n)"

text \<open>All that happens before the first outcome is recorded.\<close>

definition prepare_run ::
  "verification_item list \<Rightarrow> verification_tools \<Rightarrow> verification_config \<Rightarrow> verification_model option \<Rightarrow>
     verification_error + prepared_item list \<times> model_request list list \<times> (string \<times> model_response) list" where
  "prepare_run items tools c model =
     (if \<not> safe_integer (vc_items c) \<or> int_of_number (vc_items c) < 0 then Inl InvalidItemBudget
      else if \<not> safe_integer (model_budget c) \<or> int_of_number (model_budget c) < 0 then Inl InvalidModelBudget
      else result_bind (prepare_all tools (vc_allow c) (int_of_number (model_budget c)) model 0 (take (nat (int_of_number (vc_items c))) items)) (\<lambda>es.
           result_bind (question_groups model (asked_of es)) (\<lambda>groups.
           if \<not> groups_valid (asked_of es) groups then Inl GroupsInvalid
           else result_bind (result_map (ask_group model) groups) (\<lambda>answers. Inr (es, groups, responses_of groups answers)))))"

definition verify_items ::
  "verification_item list \<Rightarrow> verification_tools \<Rightarrow> verification_config \<Rightarrow> verification_model option \<Rightarrow> verification_sink \<Rightarrow> verification_operation list \<Rightarrow>
     verification_operation list \<times> (verification_error + verification_result list \<times> verification_metrics)" where
  "verify_items items tools c model sink held =
     (case prepare_run items tools c model of
        Inl err \<Rightarrow> (held, Inl err)
      | Inr (es, groups, rs) \<Rightarrow>
          (case settle_all sink (vc_round c) rs es held of
             (held', Inl err) \<Rightarrow> (held', Inl err)
           | (held', Inr results) \<Rightarrow> (held', Inr (results,
               metrics_of results (length groups) (map vi_candidate (drop (nat (int_of_number (vc_items c))) items))))))"

section \<open>The rungs that were climbed\<close>

text \<open>The attempts are the answers of the first rungs, in order, up to the first conclusive one, or of all rungs where none is.\<close>

definition climbed :: "verification_item \<Rightarrow> rung list \<Rightarrow> verification_attempt list \<Rightarrow> verification_attempt option \<Rightarrow> bool" where
  "climbed item calls attempts resolved \<longleftrightarrow>
     length attempts \<le> length calls \<and> list_all2 (\<lambda>call a. call item = Inr a \<and> validate_attempt a = Inr ()) (take (length attempts) calls) attempts
     \<and> (case resolved of
          None \<Rightarrow> length attempts = length calls \<and> list_all (\<lambda>a. va_verdict a = Inconclusive) attempts
        | Some a \<Rightarrow> \<exists>before. attempts = before @ [a] \<and> va_verdict a \<noteq> Inconclusive \<and> list_all (\<lambda>b. va_verdict b = Inconclusive) before)"

lemma climb_climbed: "climb item calls acc = Inr (resolved, attempts) \<Longrightarrow> \<exists>new. attempts = acc @ new \<and> climbed item calls new resolved"
proof (induction calls arbitrary: acc)
  case Nil
  then show ?case by (simp add: climbed_def)
next
  case (Cons invoke calls)
  from Cons.prems obtain a where a: "invoke item = Inr a" "validate_attempt a = Inr ()" by (auto simp: result_simps)
  show ?case
  proof (cases "va_verdict a = Inconclusive")
    case False
    with Cons.prems a have "resolved = Some a" "attempts = acc @ [a]" by simp_all
    with a False show ?thesis by (auto simp: climbed_def)
  next
    case True
    with Cons.prems a have "climb item calls (acc @ [a]) = Inr (resolved, attempts)" by simp
    from Cons.IH [OF this] obtain new where new: "attempts = acc @ [a] @ new" "climbed item calls new resolved" by auto
    have "climbed item (invoke # calls) (a # new) resolved"
    proof (cases resolved)
      case None
      with new(2) have "length new = length calls" "list_all2 (\<lambda>call a. call item = Inr a \<and> validate_attempt a = Inr ()) calls new"
        "list_all (\<lambda>a. va_verdict a = Inconclusive) new" by (auto simp: climbed_def)
      with None a True show ?thesis by (simp add: climbed_def)
    next
      case (Some b)
      with new(2) obtain before where b: "new = before @ [b]" "va_verdict b \<noteq> Inconclusive" "list_all (\<lambda>b. va_verdict b = Inconclusive) before"
        by (auto simp: climbed_def)
      with True have "a # new = (a # before) @ [b]" "list_all (\<lambda>b. va_verdict b = Inconclusive) (a # before)" by simp_all
      with new(2) a b(2) Some show ?thesis unfolding climbed_def by auto
    qed
    with new(1) show ?thesis by auto
  qed
qed

definition prepared_ok :: "verification_tools \<Rightarrow> bool \<Rightarrow> verification_model option \<Rightarrow> prepared_item \<Rightarrow> bool" where
  "prepared_ok tools allow model e \<longleftrightarrow> vi_cited (pi_item e) \<noteq> [] \<and> climbed (pi_item e) (ladder_calls (pi_item e) tools) (pi_attempts e) (pi_resolved e)
     \<and> (case pi_request e of
          None \<Rightarrow> pi_resolved e \<noteq> None \<or> \<not> allow \<or> model = None
        | Some q \<Rightarrow> q = model_question (pi_item e) (pi_attempts e) \<and> pi_resolved e = None \<and> allow \<and> model \<noteq> None)"

lemma prepare_itemD: "prepare_item item tools allow model = Inr e \<Longrightarrow> pi_item e = item \<and> prepared_ok tools allow model e"
  unfolding prepare_item_def run_ladder_def
  by (auto simp: result_simps prepared_ok_def Let_def dest!: climb_climbed split: if_splits)

lemma prepare_allD:
  "prepare_all tools allow maximum model assigned items = Inr es \<Longrightarrow>
     map pi_item es = items \<and> (\<forall>e \<in> set es. \<exists>b. (b \<longrightarrow> allow) \<and> prepared_ok tools b model e)
     \<and> int (length (filter is_asked es)) \<le> max 0 (maximum - assigned)
     \<and> (allow \<and> model \<noteq> None \<and> (\<exists>e \<in> set es. pi_resolved e = None \<and> pi_request e = None) \<longrightarrow> maximum - assigned \<le> int (length (filter is_asked es)))"
proof (induction items arbitrary: assigned es)
  case Nil
  then show ?case by simp
next
  case (Cons item items)
  from Cons.prems obtain e es' where e: "prepare_item item tools (allow \<and> assigned < maximum) model = Inr e" "es = e # es'"
    and es': "prepare_all tools allow maximum model (if is_asked e then assigned + 1 else assigned) items = Inr es'"
    unfolding prepare_all.simps result_bind_Inr_iff by blast
  note first = prepare_itemD [OF e(1)]
  from first have asked: "is_asked e \<Longrightarrow> assigned < maximum" by (auto simp: prepared_ok_def is_asked_def split: option.splits)
  from first have over: "pi_resolved e = None \<and> pi_request e = None \<and> allow \<and> model \<noteq> None \<Longrightarrow> maximum \<le> assigned"
    by (auto simp: prepared_ok_def)
  have all: "\<exists>b. (b \<longrightarrow> allow) \<and> prepared_ok tools b model e"
    by (rule exI [of _ "allow \<and> assigned < maximum"]) (use first in simp)
  note rest = Cons.IH [OF es']
  show ?case
  proof (intro conjI impI)
    show "map pi_item es = item # items" using first rest e(2) by simp
    show "\<forall>e \<in> set es. \<exists>b. (b \<longrightarrow> allow) \<and> prepared_ok tools b model e" using all rest e(2) by simp
    show "int (length (filter is_asked es)) \<le> max 0 (maximum - assigned)" using rest asked e(2) by (auto split: if_splits)
    assume "allow \<and> model \<noteq> None \<and> (\<exists>e \<in> set es. pi_resolved e = None \<and> pi_request e = None)"
    with over rest e(2) show "maximum - assigned \<le> int (length (filter is_asked es))" by (cases "is_asked e") auto
  qed
qed

section \<open>Questions and answers\<close>

lemma asked_candidates:
  assumes "\<forall>e \<in> set es. \<exists>b. prepared_ok tools b model e"
  shows "map mq_candidate (asked_of es) = map (\<lambda>e. vi_candidate (pi_item e)) (filter is_asked es)"
    "asked_of es = map (\<lambda>e. model_question (pi_item e) (pi_attempts e)) (filter is_asked es)"
proof -
  have "(case pi_request e of None \<Rightarrow> [] | Some q \<Rightarrow> if pi_limited e then [] else [q])
      = (if is_asked e then [model_question (pi_item e) (pi_attempts e)] else [])" if "e \<in> set es" for e
    using assms that by (auto simp: is_asked_def prepared_ok_def split: option.splits)
  then show eq: "asked_of es = map (\<lambda>e. model_question (pi_item e) (pi_attempts e)) (filter is_asked es)"
    unfolding asked_of_def by (induction es) auto
  show "map mq_candidate (asked_of es) = map (\<lambda>e. vi_candidate (pi_item e)) (filter is_asked es)"
    unfolding eq by (simp add: model_question_def)
qed

text \<open>A model that groups questions puts the questions it is given in groups, and no others.\<close>

definition groups_given :: "verification_model option \<Rightarrow> bool" where
  "groups_given model \<longleftrightarrow> (\<forall>m gather asked groups. model = Some m \<and> vm_group m = Some gather \<and> gather asked = Inr groups \<longrightarrow> set (concat groups) \<subseteq> set asked)"

text \<open>The answer to a question: the reply at its place in the group it was put with.\<close>

definition answered :: "verification_model option \<Rightarrow> model_request \<Rightarrow> model_response \<Rightarrow> bool" where
  "answered model q r \<longleftrightarrow> (\<exists>g replies k. ask_group model g = Inr replies \<and> k < length g \<and> k < length replies \<and> g ! k = q \<and> replies ! k = r)"

lemma question_groups_given:
  assumes "question_groups model asked = Inr groups" "groups_given model"
  shows "set (concat groups) \<subseteq> set asked"
  using assms by (auto simp: question_groups_def groups_given_def split: option.splits)

lemma groups_cover:
  assumes "groups_valid asked groups" "distinct (map mq_candidate asked)"
  shows "set (map mq_candidate (concat groups)) = set (map mq_candidate asked)"
proof -
  let ?g = "map mq_candidate (concat groups)" and ?a = "map mq_candidate asked"
  have "length ?g = length ?a" "distinct ?g" "set ?a \<subseteq> set ?g"
    using assms(1) by (auto simp: groups_valid_def Let_def length_uniq_eq_iff list_all_iff)
  with distinct_card [OF assms(2)] distinct_card [of ?g] show ?thesis by (metis List.finite_set card_subset_eq)
qed

lemma responses_answer:
  assumes "result_map (ask_group model) groups = Inr answers" "(i, r) \<in> set (responses_of groups answers)"
  shows "\<exists>q \<in> set (concat groups). mq_candidate q = i \<and> answered model q r"
proof -
  from assms(1) have "list_all2 (\<lambda>g a. ask_group model g = Inr a) groups answers" by (simp add: result_map_Inr_iff)
  then show ?thesis using assms(2)
  proof (induction rule: list_all2_induct)
    case Nil
    then show ?case by (simp add: responses_of_def)
  next
    case (Cons g gs a as)
    from Cons.prems consider "(i, r) \<in> set (zip (map mq_candidate g) a)" | "(i, r) \<in> set (responses_of gs as)" by (auto simp: responses_of_def)
    then show ?case
    proof cases
      case 1
      then obtain k where k: "k < length g" "k < length a" "mq_candidate (g ! k) = i" "a ! k = r" by (auto simp: set_zip)
      with Cons.hyps(1) have "answered model (g ! k) r" unfolding answered_def by blast
      with k show ?thesis by auto
    next
      case 2
      with Cons.IH show ?thesis by auto
    qed
  qed
qed

lemma responses_all:
  assumes "result_map (ask_group model) groups = Inr answers" "model \<noteq> None" "q \<in> set (concat groups)"
  shows "\<exists>r. (mq_candidate q, r) \<in> set (responses_of groups answers)"
proof -
  from assms(1) have "list_all2 (\<lambda>g a. ask_group model g = Inr a) groups answers" by (simp add: result_map_Inr_iff)
  then show ?thesis using assms(3)
  proof (induction rule: list_all2_induct)
    case (Cons g gs a as)
    show ?case
    proof (cases "q \<in> set g")
      case True
      with Cons.hyps(1) assms(2) have "length a = length g"
        by (auto simp: ask_group_def result_simps split: option.splits list.splits if_splits)
      with True obtain k where "k < length g" "k < length a" "g ! k = q" by (auto simp: in_set_conv_nth)
      then have "(mq_candidate q, a ! k) \<in> set (zip (map mq_candidate g) a)" unfolding set_zip by (intro CollectI exI [of _ k]) auto
      then show ?thesis by (auto simp: responses_of_def)
    next
      case False
      with Cons.prems Cons.IH show ?thesis by (auto simp: responses_of_def)
    qed
  qed simp
qed

section \<open>Results\<close>

lemma settle_allD:
  "settle_all sink rnd rs es held = (held', Inr results) \<Longrightarrow>
     list_all2 (\<lambda>e r. settle rnd e (response_to rs (vi_candidate (pi_item e))) = Inr r) es results \<and> held' = held @ map vr_operation results"
proof (induction es arbitrary: held results)
  case Nil
  then show ?case by simp
next
  case (Cons e es)
  from Cons.prems obtain r rest where r: "settle rnd e (response_to rs (vi_candidate (pi_item e))) = Inr r" "results = r # rest"
    "settle_all sink rnd rs es (held @ [vr_operation r]) = (held', Inr rest)"
    by (auto simp: settle_item_def split: sum.splits option.splits prod.splits)
  from Cons.IH [OF r(3)] r(1,2) show ?case by simp
qed

text \<open>Whatever happens, the sink holds what it held, and after it the operations of the first items.\<close>

lemma settle_all_keeps: "\<exists>ops. fst (settle_all sink rnd rs es held) = held @ ops"
proof (induction es arbitrary: held)
  case (Cons e es)
  show ?case
  proof (cases "settle_item sink rnd e (response_to rs (vi_candidate (pi_item e))) held")
    case (Pair held1 res)
    then have "held1 = held \<or> (\<exists>o1. held1 = held @ [o1])" by (auto simp: settle_item_def split: sum.splits option.splits)
    then obtain ops1 where held1: "held1 = held @ ops1" by auto
    with Cons.IH [of held1] Pair show ?thesis by (auto split: sum.splits prod.splits)
  qed
qed simp

lemma verify_items_keeps: "\<exists>ops. fst (verify_items items tools c model sink held) = held @ ops"
proof (cases "prepare_run items tools c model")
  case (Inr p)
  obtain es groups rs where p: "p = (es, groups, rs)" by (cases p) auto
  from settle_all_keeps [of sink "vc_round c" rs es held] obtain ops where "fst (settle_all sink (vc_round c) rs es held) = held @ ops" by blast
  with Inr p show ?thesis by (auto simp: verify_items_def split: sum.splits prod.splits)
qed (simp add: verify_items_def)

definition justified :: "verification_model option \<Rightarrow> verification_tools \<Rightarrow> verification_item \<Rightarrow> verification_result \<Rightarrow> bool" where
  "justified model tools item r \<longleftrightarrow> vr_candidate r = vi_candidate item \<and>
     (\<exists>resolved. climbed item (ladder_calls item tools) (vr_attempts r) resolved \<and>
       (case resolved of
          Some a \<Rightarrow> vr_calls r = 0 \<and> vr_outcome r = verdict_outcome (va_verdict a) \<and> vr_method r = va_method a
        | None \<Rightarrow> (if vr_calls r = 0 then vr_outcome r = StillNeedsVerification
            else vr_calls r = 1 \<and> \<not> vr_limited r \<and> vr_method r = SingleModelQuestion
              \<and> (\<exists>reply. answered model (model_question item (vr_attempts r)) reply \<and> response_outcome (mr_outcome reply) = Some (vr_outcome r)))))"

definition recorded_for :: "nat \<Rightarrow> verification_item \<Rightarrow> verification_result \<Rightarrow> bool" where
  "recorded_for rnd item r \<longleftrightarrow> vo_candidate (vr_operation r) = vi_candidate item \<and> vo_round (vr_operation r) = rnd
     \<and> vo_disposition (vr_operation r) = outcome_disposition (vr_outcome r) \<and> vo_result (vr_operation r) = vr_outcome r
     \<and> vo_cited (vr_operation r) \<noteq> []"

lemma settleD:
  assumes "settle rnd e response = Inr r" "vi_cited (pi_item e) \<noteq> []"
  shows "recorded_for rnd (pi_item e) r" "vr_candidate r = vi_candidate (pi_item e)" "vr_attempts r = pi_attempts e" "vr_limited r = pi_limited e"
    "pi_resolved e = Some a \<Longrightarrow> vr_calls r = 0 \<and> vr_outcome r = verdict_outcome (va_verdict a) \<and> vr_method r = va_method a"
    "pi_resolved e = None \<Longrightarrow> response = None \<Longrightarrow> vr_calls r = 0 \<and> vr_outcome r = StillNeedsVerification"
    "pi_resolved e = None \<Longrightarrow> response = Some reply \<Longrightarrow>
       vr_calls r = 1 \<and> vr_method r = SingleModelQuestion \<and> response_outcome (mr_outcome reply) = Some (vr_outcome r)"
  using assms
  by (auto simp: settle_def Let_def recorded_for_def operation_for_def validate_response_def result_simps split: option.splits if_splits)

lemma prepare_runD:
  assumes "prepare_run items tools c model = Inr (es, groups, rs)"
  shows "prepare_all tools (vc_allow c) (int_of_number (model_budget c)) model 0 (take (nat (int_of_number (vc_items c))) items) = Inr es"
    "0 \<le> int_of_number (model_budget c)" "question_groups model (asked_of es) = Inr groups" "groups_valid (asked_of es) groups"
    "\<exists>answers. result_map (ask_group model) groups = Inr answers \<and> rs = responses_of groups answers"
  using assms by (auto simp: prepare_run_def result_simps split: if_splits)

text \<open>Who has a response: the items that were asked.\<close>

lemma response_of_asked:
  assumes prep: "\<forall>e \<in> set es. \<exists>b. prepared_ok tools b model e" and ids: "distinct (map (\<lambda>e. vi_candidate (pi_item e)) es)"
    and groups: "question_groups model (asked_of es) = Inr groups" "groups_valid (asked_of es) groups" "groups_given model"
    and answers: "result_map (ask_group model) groups = Inr answers" and e: "e \<in> set es"
  shows "is_asked e \<Longrightarrow> \<exists>r. response_to (responses_of groups answers) (vi_candidate (pi_item e)) = Some r"
    "response_to (responses_of groups answers) (vi_candidate (pi_item e)) = Some r \<Longrightarrow>
       is_asked e \<and> answered model (model_question (pi_item e) (pi_attempts e)) r"
proof -
  note asked = asked_candidates [OF prep]
  have dist: "distinct (map mq_candidate (asked_of es))" unfolding asked(1) using ids by (rule distinct_map_filter)
  note given = question_groups_given [OF groups(1,3)]
  {
    assume a: "is_asked e"
    have "vi_candidate (pi_item e) \<in> set (map mq_candidate (asked_of es))" unfolding asked(1) using a e by auto
    with groups_cover [OF groups(2) dist] obtain q where q: "q \<in> set (concat groups)" "mq_candidate q = vi_candidate (pi_item e)"
      by (metis (no_types, lifting) imageE list.set_map)
    from prep e a have "model \<noteq> None" by (auto simp: prepared_ok_def is_asked_def split: option.splits)
    from responses_all [OF answers this q(1)] q(2) obtain r where "(vi_candidate (pi_item e), r) \<in> set (responses_of groups answers)" by auto
    then show "\<exists>r. response_to (responses_of groups answers) (vi_candidate (pi_item e)) = Some r"
      unfolding response_to_def by (metis map_of_eq_None_iff not_None_eq set_rev image_eqI fst_conv)
  next
    assume "response_to (responses_of groups answers) (vi_candidate (pi_item e)) = Some r"
    then have "(vi_candidate (pi_item e), r) \<in> set (responses_of groups answers)" unfolding response_to_def by (metis map_of_SomeD set_rev)
    from responses_answer [OF answers this] obtain q where q: "q \<in> set (concat groups)" "mq_candidate q = vi_candidate (pi_item e)" "answered model q r" by blast
    from q(1) given have "q \<in> set (asked_of es)" by blast
    then obtain e' where e': "e' \<in> set es" "is_asked e'" "q = model_question (pi_item e') (pi_attempts e')" unfolding asked(2) by auto
    with q(2) have "vi_candidate (pi_item e') = vi_candidate (pi_item e)" by (simp add: model_question_def)
    with ids e e'(1) have "e' = e" by (metis (mono_tags, lifting) inj_onD distinct_map)
    with e' q(3) show "is_asked e \<and> answered model (model_question (pi_item e) (pi_attempts e)) r" by simp
  }
qed

lemma calls_counted: "list_all2 (\<lambda>e r. vr_calls r = (if is_asked e then 1 else 0)) es results \<Longrightarrow> sum_list (map vr_calls results) = length (filter is_asked es)"
  by (induction rule: list_all2_induct) auto

text \<open>How a prepared item is settled, given the responses of the run.\<close>

lemma settled_entry:
  assumes ok: "prepared_ok tools b model e" and set: "settle rnd e response = Inr r"
    and resp: "is_asked e \<Longrightarrow> \<exists>reply. response = Some reply"
      "\<And>reply. response = Some reply \<Longrightarrow> is_asked e \<and> answered model (model_question (pi_item e) (pi_attempts e)) reply"
  shows "justified model tools (pi_item e) r" "recorded_for rnd (pi_item e) r" "vr_calls r = (if is_asked e then 1 else 0)"
    "vr_outcome r = StillNeedsVerification \<and> vr_calls r = 0 \<and> \<not> vr_limited r \<and> pi_resolved e = None \<Longrightarrow> pi_request e = None"
proof -
  have cited: "vi_cited (pi_item e) \<noteq> []" and rungs: "climbed (pi_item e) (ladder_calls (pi_item e) tools) (pi_attempts e) (pi_resolved e)"
    using ok by (simp_all add: prepared_ok_def)
  note s = settleD [OF set cited]
  have unresolved: "is_asked e \<Longrightarrow> pi_resolved e = None" using ok by (auto simp: prepared_ok_def is_asked_def split: option.splits)
  show "recorded_for rnd (pi_item e) r" by (rule s(1))
  show calls: "vr_calls r = (if is_asked e then 1 else 0)"
  proof (cases "is_asked e")
    case True
    with resp(1) s(7) unresolved show ?thesis by auto
  next
    case False
    with resp(2) have "response = None" by (cases response) auto
    with False s(5,6) show ?thesis by (cases "pi_resolved e") auto
  qed
  show "justified model tools (pi_item e) r"
  proof (cases "pi_resolved e")
    case (Some a)
    with s(2,3) s(5) [OF Some] rungs show ?thesis by (auto simp: justified_def)
  next
    case None
    show ?thesis
    proof (cases response)
      case None
      with \<open>pi_resolved e = None\<close> s(2,3) s(6) rungs show ?thesis by (auto simp: justified_def)
    next
      case (Some reply)
      with resp(2) have "is_asked e" "answered model (model_question (pi_item e) (pi_attempts e)) reply" by blast+
      with \<open>pi_resolved e = None\<close> Some s(2-4) s(7) [OF \<open>pi_resolved e = None\<close> Some] rungs show ?thesis
        unfolding justified_def by (intro conjI exI [of _ None]) (auto simp: is_asked_def)
    qed
  qed
  show "pi_request e = None" if "vr_outcome r = StillNeedsVerification \<and> vr_calls r = 0 \<and> \<not> vr_limited r \<and> pi_resolved e = None"
    using that calls s(4) by (auto simp: is_asked_def split: if_splits)
qed

section \<open>A run of verification\<close>

text \<open>
  C38. Targeted verification of items with distinct candidates settles each selected item, in order, by the first thing
  that settles it: the outcome is that of the first conclusive rung, with no call of the model; where every rung is
  inconclusive, it is what the model answered to this item's question; otherwise the item still needs verification. The
  sink receives one operation for each item, in the same order, whose disposition is the outcome and which cites evidence.
  The model answers no more questions than the run allows, and an item is left without an answer only because its
  question does not fit, no question may be asked, or all allowed questions are spent.
\<close>

theorem verified_items_justified:
  assumes run: "verify_items items tools c model sink held = (held', Inr (results, metrics))"
    and groups: "groups_given model" and ids: "distinct (map vi_candidate items)"
  shows "list_all2 (\<lambda>item r. justified model tools item r \<and> recorded_for (vc_round c) item r) (take (nat (int_of_number (vc_items c))) items) results
    \<and> held' = held @ map vr_operation results
    \<and> int (vx_calls metrics) \<le> int_of_number (model_budget c) \<and> (vc_allow c \<or> vx_calls metrics = 0)
    \<and> (vc_allow c \<and> model \<noteq> None
        \<and> list_ex (\<lambda>r. list_all (\<lambda>a. va_verdict a = Inconclusive) (vr_attempts r) \<and> vr_calls r = 0 \<and> \<not> vr_limited r) results
        \<longrightarrow> int (vx_calls metrics) = int_of_number (model_budget c))"
proof -
  from run obtain es gs rs where prep: "prepare_run items tools c model = Inr (es, gs, rs)"
    and settled: "settle_all sink (vc_round c) rs es held = (held', Inr results)"
    and metrics: "metrics = metrics_of results (length gs) (map vi_candidate (drop (nat (int_of_number (vc_items c))) items))"
    by (auto simp: verify_items_def split: sum.splits prod.splits)
  note P = prepare_runD [OF prep]
  from P(5) obtain answers where answers: "result_map (ask_group model) gs = Inr answers" "rs = responses_of gs answers" by blast
  note A = prepare_allD [OF P(1)]
  let ?sel = "take (nat (int_of_number (vc_items c))) items"
  have sel: "map pi_item es = ?sel" and ok: "\<forall>e \<in> set es. \<exists>b. prepared_ok tools b model e" using A by blast+
  have dist: "distinct (map (\<lambda>e. vi_candidate (pi_item e)) es)"
  proof -
    have "map (\<lambda>e. vi_candidate (pi_item e)) es = map vi_candidate ?sel" by (simp flip: sel)
    also have "distinct \<dots>" using ids by (simp flip: take_map)
    finally show ?thesis .
  qed
  note S = settle_allD [OF settled]
  have entry: "justified model tools (pi_item e) r \<and> recorded_for (vc_round c) (pi_item e) r \<and> vr_calls r = (if is_asked e then 1 else 0)
      \<and> (vr_outcome r = StillNeedsVerification \<and> vr_calls r = 0 \<and> \<not> vr_limited r \<and> pi_resolved e = None \<longrightarrow> pi_request e = None)"
    if e: "e \<in> set es" and r: "settle (vc_round c) e (response_to rs (vi_candidate (pi_item e))) = Inr r" for e r
  proof -
    from ok e obtain b where b: "prepared_ok tools b model e" by blast
    from settled_entry [OF b r] response_of_asked [OF ok dist P(3,4) groups answers(1) e] answers(2) show ?thesis by blast
  qed
  have all: "list_all2 (\<lambda>e r. justified model tools (pi_item e) r \<and> recorded_for (vc_round c) (pi_item e) r \<and> vr_calls r = (if is_asked e then 1 else 0)
      \<and> (vr_outcome r = StillNeedsVerification \<and> vr_calls r = 0 \<and> \<not> vr_limited r \<and> pi_resolved e = None \<longrightarrow> pi_request e = None)) es results"
    using S entry by (auto simp: list_all2_conv_all_nth)
  have count: "vx_calls metrics = length (filter is_asked es)"
    unfolding metrics metrics_of_def using calls_counted [of es results] list_all2_mono [OF all] by simp
  show ?thesis
  proof (intro conjI impI)
    have "list_all2 (\<lambda>e r. justified model tools (pi_item e) r \<and> recorded_for (vc_round c) (pi_item e) r) es results"
      by (rule list_all2_mono [OF all]) simp
    then show "list_all2 (\<lambda>item r. justified model tools item r \<and> recorded_for (vc_round c) item r) ?sel results"
      unfolding sel [symmetric] by (simp add: list_all2_map1)
    show "held' = held @ map vr_operation results" using S by blast
    show "int (vx_calls metrics) \<le> int_of_number (model_budget c)" using count A P(2) by simp
    show "vc_allow c \<or> vx_calls metrics = 0"
    proof (cases "vc_allow c")
      case False
      have "\<not> is_asked e" if "e \<in> set es" for e
        using A that False by (auto simp: prepared_ok_def is_asked_def split: option.splits)
      then have "filter is_asked es = []" by (simp add: filter_empty_conv)
      with count show ?thesis by simp
    qed simp
    assume left: "vc_allow c \<and> model \<noteq> None
      \<and> list_ex (\<lambda>r. list_all (\<lambda>a. va_verdict a = Inconclusive) (vr_attempts r) \<and> vr_calls r = 0 \<and> \<not> vr_limited r) results"
    then obtain r where r: "r \<in> set results" "list_all (\<lambda>a. va_verdict a = Inconclusive) (vr_attempts r)" "vr_calls r = 0" "\<not> vr_limited r"
      by (auto simp: list_ex_iff)
    from list_all2_origin [OF conjunct1 [OF S] r(1)] obtain e where e: "e \<in> set es" "settle (vc_round c) e (response_to rs (vi_candidate (pi_item e))) = Inr r"
      by blast
    from ok e(1) obtain b where b: "prepared_ok tools b model e" by blast
    then have cited: "vi_cited (pi_item e) \<noteq> []" by (simp add: prepared_ok_def)
    note s = settleD [OF e(2) cited]
    have unresolved: "pi_resolved e = None"
      using b r(2) s(3) by (auto simp: prepared_ok_def climbed_def split: option.splits)
    moreover have "vr_outcome r = StillNeedsVerification" using s(6,7) [OF unresolved] r(3) by (cases "response_to rs (vi_candidate (pi_item e))") auto
    ultimately have "pi_request e = None" using entry [OF e] r(3,4) by blast
    with unresolved e(1) left A have "int_of_number (model_budget c) \<le> int (length (filter is_asked es))" by auto
    with count A P(2) show "int (vx_calls metrics) = int_of_number (model_budget c)" by simp
  qed
qed

section \<open>An example\<close>

definition attempt_example :: "verification_method \<Rightarrow> verdict \<Rightarrow> verification_attempt" where
  "attempt_example m v = \<lparr>va_method = m, va_verdict = v, va_evidence = [''e''], va_artifacts = [], va_tools = [], va_activity = ''t'', va_confidence = Some (Fin (1 / 2))\<rparr>"

definition item_example :: "string \<Rightarrow> verification_item" where
  "item_example i = \<lparr>vi_candidate = i, vi_severity = High, vi_claim = ''c'', vi_question = ''Is it so?'', vi_cited = [''f''], vi_context = [],
     vi_symbols = [], vi_routes = [], vi_dependencies = [], vi_test = None, vi_policy = None\<rparr>"

definition tools_example :: verification_tools where
  "tools_example = \<lparr>vt_cited_lines = (\<lambda>item. Inr (attempt_example CitedLines (if vi_candidate item = ''A'' then RejectedBy else Inconclusive))),
     vt_symbol = (\<lambda>item. Inr (attempt_example SymbolOrCallPath Inconclusive)), vt_route = (\<lambda>item. Inr (attempt_example RouteConfigMiddleware Inconclusive)),
     vt_dependency = (\<lambda>item. Inr (attempt_example DependencyOrImportPath Inconclusive)),
     vt_safe_test = (\<lambda>p cmd item. Inr (attempt_example AllowlistedSafeTest Inconclusive)),
     vt_bounded = (\<lambda>item. Inr (attempt_example BoundedDeterministicCheck Inconclusive))\<rparr>"

definition response_example :: model_response where
  "response_example = \<lparr>mr_outcome = ''CONFIRMED'', mr_evidence = [], mr_artifacts = [], mr_activity = ''q'', mr_confidence = Fin 1, mr_reason = None\<rparr>"

text \<open>A model that puts two questions in one group, in the reverse order.\<close>

definition model_example :: verification_model where
  "model_example = \<lparr>vm_verify = (\<lambda>q. Inr response_example), vm_fits = None, vm_group = Some (\<lambda>qs. Inr [rev qs]),
     vm_verify_group = Some (\<lambda>g. Inr (map (\<lambda>q. if mq_candidate q = ''B'' then response_example else response_example\<lparr>mr_outcome := ''REJECTED''\<rparr>) g))\<rparr>"

definition run_example :: "verification_operation list \<times> (verification_error + verification_result list \<times> verification_metrics)" where
  "run_example = verify_items (map item_example [''A'', ''B'', ''C'', ''D'', ''E'']) tools_example
     \<lparr>vc_items = num 4, vc_allow = True, vc_calls = Some (num 2), vc_round = 1\<rparr> (Some model_example) (\<lambda>held o1. None) []"

definition outcomes_of :: "'a \<times> ('b + verification_result list \<times> verification_metrics) \<Rightarrow> (string \<times> verification_outcome) list \<times> nat \<times> string list" where
  "outcomes_of r = (case snd r of Inl err \<Rightarrow> ([], 0, []) | Inr (results, m) \<Rightarrow> (map (\<lambda>r. (vr_candidate r, vr_outcome r)) results, vx_calls m, vx_deferred m))"

lemma run_example: "outcomes_of run_example
    = ([(''A'', Refuted), (''B'', Confirmed), (''C'', Refuted), (''D'', StillNeedsVerification)], 2, [''E''])"
  by code_simp

theorem verified_items_justified_witness:
  "\<exists>results metrics. snd run_example = Inr (results, metrics) \<and> fst run_example = map vr_operation results \<and> int (vx_calls metrics) = 2"
proof -
  obtain held' res where pair: "run_example = (held', res)" by fastforce
  have "res \<noteq> Inl err" for err using run_example unfolding pair outcomes_of_def by auto
  then obtain results metrics where res: "res = Inr (results, metrics)" by (cases res) auto
  have "groups_given (Some model_example)" by (auto simp: groups_given_def model_example_def)
  moreover have "distinct (map vi_candidate (map item_example [''A'', ''B'', ''C'', ''D'', ''E'']))" by (simp add: item_example_def)
  ultimately have "held' = [] @ map vr_operation results"
    using verified_items_justified [OF pair [unfolded res run_example_def]] by blast
  moreover have "vx_calls metrics = 2" using run_example unfolding pair res outcomes_of_def by simp
  ultimately show ?thesis unfolding pair res by simp
qed

end
