(* ===== verification/Seeded_Rng.thy ===== *)
theory Seeded_Rng
  imports "HOL-Library.Word" Prelude
begin

text \<open>
  The seeded generator of workflow order: \<open>packages/core/src/services/rng.ts\<close>. The bit operations of JavaScript on numbers
  are those of 32 bit words. The state is a number that only grows: it is an integer here, which is exact below
  2 to the 53rd, that is for the first four million draws. A draw below \<open>maximum\<close> multiplies before it divides: that is
  exact for a maximum up to 2 to the 21st, more than any list that is shuffled.
\<close>

unbundle bit_operations_syntax

datatype rng_error = EmptyRunId | EmptyActivityId | MaximumOutOfRange

record seeded_rng =
  sr_run :: string
  sr_state :: int

definition hash_char :: "char \<Rightarrow> 32 word \<Rightarrow> 32 word" where
  "hash_char c hash = (hash XOR word_of_nat (of_char c)) * 0x01000193"

definition hash_seed :: "string \<Rightarrow> string \<Rightarrow> 32 word" where
  "hash_seed run activity =
     fold hash_char (nat_string (length run) @ '':'' @ run @ nat_string (length activity) @ '':'' @ activity) 0x811c9dc5"

definition new_rng :: "string \<Rightarrow> string \<Rightarrow> rng_error + seeded_rng" where
  "new_rng run activity = (if run = [] then Inl EmptyRunId else Inr \<lparr>sr_run = run, sr_state = uint (hash_seed run activity)\<rparr>)"

definition for_activity :: "string \<Rightarrow> seeded_rng \<Rightarrow> rng_error + seeded_rng" where
  "for_activity activity r = (if activity = [] then Inl EmptyActivityId else new_rng (sr_run r) activity)"

definition mix_first :: "32 word \<Rightarrow> 32 word" where
  "mix_first v = (v XOR drop_bit 15 v) * (v OR 1)"

definition mix_second :: "32 word \<Rightarrow> 32 word" where
  "mix_second v = v XOR (v + (v XOR drop_bit 7 v) * (v OR 61))"

definition next_uint32 :: "seeded_rng \<Rightarrow> 32 word \<times> seeded_rng" where
  "next_uint32 r =
     (let state = sr_state r + 0x6d2b79f5; v = mix_second (mix_first (word_of_int state)) in
      (v XOR drop_bit 14 v, r\<lparr>sr_state := state\<rparr>))"

definition below :: "int \<Rightarrow> seeded_rng \<Rightarrow> int \<times> seeded_rng" where
  "below maximum r = (let (v, r') = next_uint32 r in ((uint v * maximum) div 2 ^ 32, r'))"

definition rng_int :: "int \<Rightarrow> seeded_rng \<Rightarrow> rng_error + int \<times> seeded_rng" where
  "rng_int maximum r = (if maximum \<le> 0 \<or> 2 ^ 32 < maximum then Inl MaximumOutOfRange else Inr (below maximum r))"

text \<open>The swaps of \<open>shuffle\<close>, from the last place down; its calls of \<open>int\<close> are within its range.\<close>

fun shuffle_from :: "nat \<Rightarrow> 'a list \<Rightarrow> seeded_rng \<Rightarrow> 'a list \<times> seeded_rng" where
  "shuffle_from 0 xs r = (xs, r)"
| "shuffle_from (Suc i) xs r =
     (let (k, r') = below (int i + 2) r; other = nat k in
      shuffle_from i (xs[Suc i := xs ! other, other := xs ! Suc i]) r')"

definition shuffle :: "'a list \<Rightarrow> seeded_rng \<Rightarrow> 'a list \<times> seeded_rng" where
  "shuffle xs r = shuffle_from (length xs - 1) xs r"

section \<open>Draws and shuffles\<close>

lemma below_range:
  assumes "0 < maximum"
  shows "0 \<le> fst (below maximum r)" "fst (below maximum r) < maximum"
proof -
  obtain v r' where v: "next_uint32 r = (v, r')" by fastforce
  have "uint v < 2 ^ 32" using uint_bounded [of v] by simp
  then have "uint v * maximum < maximum * 2 ^ 32" using assms by simp
  then have "uint v * maximum div 2 ^ 32 < maximum" by (simp add: div_less_iff_less_mult)
  then show "fst (below maximum r) < maximum" by (simp add: below_def v)
  have "0 \<le> uint v * maximum" using assms by simp
  then show "0 \<le> fst (below maximum r)" by (simp add: below_def v pos_imp_zdiv_nonneg_iff)
qed

lemma mset_shuffle_from: "i < length xs \<Longrightarrow> mset (fst (shuffle_from i xs r)) = mset xs"
proof (induction i arbitrary: xs r)
  case (Suc i)
  obtain k r' where k: "below (int i + 2) r = (k, r')" by fastforce
  with below_range [of "int i + 2" r] have "nat k < length xs" using Suc.prems by simp
  then have "mset (xs[Suc i := xs ! nat k, nat k := xs ! Suc i]) = mset xs" using Suc.prems by (intro mset_swap) simp_all
  with Suc.IH [of "xs[Suc i := xs ! nat k, nat k := xs ! Suc i]" r'] Suc.prems show ?case by (simp add: k Let_def)
qed simp

lemma mset_shuffle [simp]: "mset (fst (shuffle xs r)) = mset xs"
  by (cases xs) (simp_all add: shuffle_def mset_shuffle_from)

lemma set_shuffle [simp]: "set (fst (shuffle xs r)) = set xs"
  by (metis mset_shuffle set_mset_mset)

lemma length_shuffle [simp]: "length (fst (shuffle xs r)) = length xs"
  by (metis mset_shuffle size_mset)

lemma distinct_shuffle [simp]: "distinct (fst (shuffle xs r)) \<longleftrightarrow> distinct xs"
  by (metis mset_shuffle mset_eq_imp_distinct_iff)

text \<open>The bits of one run, as the code computes them.\<close>

lemma shuffle_example:
  "new_rng ''run'' ''a'' = Inr \<lparr>sr_run = ''run'', sr_state = 3773023617\<rparr>"
  "shuffle ''ABCDE'' \<lparr>sr_run = ''run'', sr_state = 3773023617\<rparr> = (''DACBE'', \<lparr>sr_run = ''run'', sr_state = 11099286869\<rparr>)"
  by code_simp+

end
