(* ===== verification/Peer_Review.thy ===== *)
theory Peer_Review
  imports Consensus Json Seeded_Rng
begin

text \<open>
  The rounds of peer review: \<open>packages/workflow/src/nodes/peer-review/round.ts\<close>, over the consensus rule and the seeded
  generator that shuffles what reviewers see. The reviewers' answers and the application of their operations to the
  board are ports. The claim of a candidate, which a view copies, is left out. The further fields of an operation are
  JSON values, checked as the code checks them. \<open>le\<close> is the order of \<open>localeCompare\<close>.
\<close>

section \<open>Data\<close>

datatype peer_error =
    RoundOutOfRange | LabelCapacityExceeded | RngRefused rng_error | ReviewFailed string | InvalidPeerProvenance | UnknownPeerOperation
  | PeerMergeSources | PeerTarget | PeerMissingFinding | PeerSplitTargets | PeerEvidenceMissing string | ConformityVoteFlip
  | DuplicatePeerOperation | PeerTargetExists | InvalidPeerRounds | ConsensusRefused consensus_error | ConsensusMissing | ApplyFailed string

record peer_operation =
  pr_id :: string
  pr_candidate :: string
  pr_author :: string
  pr_round :: number
  pr_type :: string
  pr_cited :: "string list"
  pr_fields :: "(string \<times> json) list"

record peer_source =
  ps_label :: string
  ps_ref :: string

record review_view =
  rv_candidate :: string
  rv_severity :: severity
  rv_blocker :: bool
  rv_sources :: "peer_source list"

record review_request =
  rr_reviewer :: string
  rr_round :: number
  rr_candidates :: "review_view list"

record round_dispatch =
  rd_round :: number
  rd_reviewer :: string
  rd_candidates :: "string list"
  rd_reasons :: "(string \<times> string) list"
  rd_presentation :: "(string \<times> peer_source list) list"

type_synonym review_board = "(string \<times> consensus_candidate) list"

type_synonym review_port = "review_request \<Rightarrow> peer_error + peer_operation list"

section \<open>What a reviewer sees\<close>

definition finding_author :: "string \<Rightarrow> string" where
  "finding_author i = first_part (CHR ''/'') i"

definition finding_rest :: "string \<Rightarrow> string" where
  "finding_rest i = join_with ''/'' (tl (split_on (CHR ''/'') i))"

definition label_pool :: "string list" where
  "label_pool = map (\<lambda>k. ''Auditor '' @ [char_of (65 + k :: nat)]) [0..<26]"

definition peer_ids :: "consensus_candidate \<Rightarrow> string \<Rightarrow> string list" where
  "peer_ids c reviewer = uniq (filter (\<lambda>a. a \<noteq> reviewer) (map finding_author (cc_findings c)))"

definition peer_source_of :: "(string \<times> string) list \<Rightarrow> string \<Rightarrow> string \<Rightarrow> peer_source option" where
  "peer_source_of labels reviewer i =
     (if finding_author i = reviewer then None
      else map_option (\<lambda>l. \<lparr>ps_label = l, ps_ref = l @ ''/'' @ finding_rest i\<rparr>) (map_of labels (finding_author i)))"

definition review_view_of :: "consensus_candidate \<Rightarrow> string \<Rightarrow> seeded_rng \<Rightarrow> peer_error + review_view \<times> seeded_rng" where
  "review_view_of c reviewer r0 =
     (let peers = peer_ids c reviewer in
      if length label_pool < length peers then Inl LabelCapacityExceeded
      else let (labels, r1) = shuffle (take (length peers) label_pool) r0; (order, r2) = shuffle peers r1;
               (sources, r3) = shuffle (List.map_filter (peer_source_of (zip order labels) reviewer) (cc_findings c)) r2 in
        Inr (\<lparr>rv_candidate = cc_id c, rv_severity = cc_severity c, rv_blocker = cc_blocker c, rv_sources = sources\<rparr>, r3))"

fun review_views :: "string \<Rightarrow> consensus_candidate list \<Rightarrow> seeded_rng \<Rightarrow> peer_error + review_view list \<times> seeded_rng" where
  "review_views reviewer [] r = Inr ([], r)"
| "review_views reviewer (c # cs) r =
     result_bind (review_view_of c reviewer r) (\<lambda>(v, r1). result_bind (review_views reviewer cs r1) (\<lambda>(vs, r2). Inr (v # vs, r2)))"

definition disputed :: "consensus_candidate \<Rightarrow> bool" where
  "disputed c \<longleftrightarrow> 1 < length (uniq (map cv_disposition (cc_votes c))) \<or> list_ex (\<lambda>v. cv_disposition v = NeedsVerification) (cc_votes c)
     \<or> cc_counter c \<noteq> [] \<or> list_ex (\<lambda>o1. ob_resolved_by o1 = None) (cc_objections c)"

definition unresolved_status :: "consensus_candidate \<Rightarrow> bool" where
  "unresolved_status c \<longleftrightarrow> cc_status c = ''open'' \<or> cc_status c = ''needs_verification''"

definition selection_reason :: "consensus_candidate \<Rightarrow> consensus_policy \<Rightarrow> int \<Rightarrow> nat \<Rightarrow> nat \<Rightarrow> string option" where
  "selection_reason c p rnd index auditors =
     (if rnd = 2 \<and> \<not> (1 \<le> cc_last_changed c \<or> disputed c) then None
      else if rnd = 3 \<and> \<not> unresolved_status c then None
      else if 1 < rnd then Some (if disputed c then ''disputed'' else ''changed_or_unresolved'')
      else if po_name p = FullPolicy then Some ''full_policy''
      else if po_name p = MinimalPolicy then
        (if disputed c \<or> is_high_risk c \<or> length (cc_findings c) = 1 \<or> cc_low_confidence c then Some ''minimal_risk_or_dispute'' else None)
      else if is_high_risk c then Some ''risk_weighted_all_auditors''
      else if num_less (num (int index)) (po_quorum p) \<and> index < auditors then Some ''risk_weighted_quorum'' else None)"

section \<open>A prepared round\<close>

text \<open>\<open>Object.fromEntries\<close> and the constructor of \<open>Map\<close>: the last entry of a key wins.\<close>

definition from_entries :: "('k \<times> 'v) list \<Rightarrow> ('k \<times> 'v) list" where
  "from_entries xs = fold (\<lambda>x. AList.update (fst x) (snd x)) xs []"

record prepared_review =
  pv_reviewer :: string
  pv_views :: "review_view list"
  pv_reasons :: "(string \<times> string) list"
  pv_request :: review_request
  pv_presented :: "(string \<times> consensus_candidate) list"

definition rng_for :: "seeded_rng \<Rightarrow> string \<Rightarrow> peer_error + seeded_rng" where
  "rng_for r activity = (case for_activity activity r of Inl e \<Rightarrow> Inl (RngRefused e) | Inr r' \<Rightarrow> Inr r')"

definition round_text :: "number \<Rightarrow> string" where
  "round_text rnd = nat_string (nat (int_of_number rnd))"

definition live_candidates :: "(string \<Rightarrow> string \<Rightarrow> bool) \<Rightarrow> review_board \<Rightarrow> consensus_candidate list" where
  "live_candidates le board =
     sort_by (on_key le cc_id) (filter (\<lambda>c. cc_status c \<noteq> ''merged'' \<and> cc_status c \<noteq> ''split'') (map snd board))"

definition prepare_review ::
  "seeded_rng \<Rightarrow> consensus_policy \<Rightarrow> number \<Rightarrow> nat \<Rightarrow> consensus_candidate list \<Rightarrow> nat \<times> auditor \<Rightarrow> peer_error + prepared_review" where
  "prepare_review r p rnd auditors all ia =
     (let reviewer = au_id (snd ia);
          selected = filter (\<lambda>c. selection_reason c p (int_of_number rnd) (fst ia) auditors \<noteq> None) all in
      result_bind (rng_for r (''peer-review:'' @ round_text rnd @ '':'' @ reviewer)) (\<lambda>r1.
      result_bind (review_views reviewer selected r1) (\<lambda>(vs, r2).
      let views = filter (\<lambda>v. rv_sources v \<noteq> []) (fst (shuffle vs r2));
          shown = filter (\<lambda>c. list_ex (\<lambda>v. rv_candidate v = cc_id c) views) selected in
      Inr \<lparr>pv_reviewer = reviewer, pv_views = views,
        pv_reasons = from_entries (map (\<lambda>c. (cc_id c, the (selection_reason c p (int_of_number rnd) (fst ia) auditors))) shown),
        pv_request = \<lparr>rr_reviewer = reviewer, rr_round = rnd, rr_candidates = views\<rparr>,
        pv_presented = from_entries (map (\<lambda>c. (cc_id c, c)) shown)\<rparr>)))"

section \<open>Checks of what a reviewer returns\<close>

definition text_of_json :: "json \<Rightarrow> string option" where
  "text_of_json j = (case j of JStr s \<Rightarrow> Some s | _ \<Rightarrow> None)"

definition texts_of_json :: "json \<Rightarrow> string list option" where
  "texts_of_json j = (case j of JArr xs \<Rightarrow> if list_all (\<lambda>x. text_of_json x \<noteq> None) xs then Some (map (\<lambda>x. the (text_of_json x)) xs) else None | _ \<Rightarrow> None)"

definition seed_of :: "json \<Rightarrow> (string \<times> string list) option" where
  "seed_of j =
     (case j of
        JObj fs \<Rightarrow>
          (case (Option.bind (map_of fs ''candidateId'') text_of_json, Option.bind (map_of fs ''sourceFindingIds'') texts_of_json) of
             (Some i, Some ids) \<Rightarrow> if blank i \<or> ids = [] \<or> list_ex blank ids then None else Some (i, ids)
           | _ \<Rightarrow> None)
      | _ \<Rightarrow> None)"

definition seeds :: "json option \<Rightarrow> peer_error + (string \<times> string list) list" where
  "seeds v =
     (case v of
        Some (JArr xs) \<Rightarrow> if list_all (\<lambda>x. seed_of x \<noteq> None) xs then Inr (map (\<lambda>x. the (seed_of x)) xs) else Inl PeerTarget
      | _ \<Rightarrow> Inl PeerTarget)"

definition field_of :: "peer_operation \<Rightarrow> string \<Rightarrow> json option" where
  "field_of o1 k = map_of (pr_fields o1) k"

definition single_seed :: "json option \<Rightarrow> peer_error + string \<times> string list" where
  "single_seed v = (case Option.bind v seed_of of None \<Rightarrow> Inl PeerTarget | Some s \<Rightarrow> Inr s)"

definition vote_types :: "(string \<times> disposition) list" where
  "vote_types = [(''accept'', Accept), (''reject'', Reject), (''needs_verification'', NeedsVerification)]"

definition peer_types :: "string list" where
  "peer_types = [''accept'', ''reject'', ''needs_verification'', ''merge'', ''split'', ''add_evidence'', ''add_counter_evidence'', ''change_severity'',
     ''change_blocker'', ''supplement_remediation'', ''supplement_verification'', ''add_missing_finding'']"

definition cited_types :: "string list" where
  "cited_types = [''accept'', ''reject'', ''needs_verification'', ''change_severity'', ''change_blocker'', ''add_evidence'', ''add_counter_evidence'',
     ''merge'', ''split'', ''add_missing_finding'']"

definition merge_sources_ok :: "json option \<Rightarrow> (string \<times> consensus_candidate) list \<Rightarrow> bool" where
  "merge_sources_ok v presented \<longleftrightarrow>
     (case Option.bind v texts_of_json of
        None \<Rightarrow> False
      | Some ids \<Rightarrow> 2 \<le> length ids \<and> length (uniq ids) = length ids \<and> list_all (\<lambda>i. map_of presented i \<noteq> None) ids)"

definition check_subject :: "peer_operation \<Rightarrow> string \<Rightarrow> (string \<times> consensus_candidate) list \<Rightarrow> peer_error + unit" where
  "check_subject o1 reviewer presented =
     (if pr_type o1 = ''merge'' then
        (if \<not> merge_sources_ok (field_of o1 ''sourceCandidateIds'') presented then Inl PeerMergeSources
         else result_bind (single_seed (field_of o1 ''candidate'')) (\<lambda>s. require (fst s = pr_candidate o1) PeerTarget))
      else if pr_type o1 = ''add_missing_finding'' then
        result_bind (single_seed (field_of o1 ''candidate'')) (\<lambda>s.
          require (fst s = pr_candidate o1 \<and> list_all (starts_with (reviewer @ ''/'')) (snd s)) PeerMissingFinding)
      else require (map_of presented (pr_candidate o1) \<noteq> None) InvalidPeerProvenance)"

definition check_split :: "peer_operation \<Rightarrow> peer_error + unit" where
  "check_split o1 =
     (if pr_type o1 \<noteq> ''split'' then Inr ()
      else result_bind (seeds (field_of o1 ''candidates'')) (\<lambda>ss.
        require (2 \<le> length ss \<and> length (uniq (map fst ss)) = length ss) PeerSplitTargets))"

definition prior_vote :: "string \<Rightarrow> consensus_candidate option \<Rightarrow> consensus_vote option" where
  "prior_vote reviewer c = find (\<lambda>v. cv_author v = reviewer) (rev (case c of None \<Rightarrow> [] | Some c \<Rightarrow> cc_votes c))"

definition check_vote :: "peer_operation \<Rightarrow> string \<Rightarrow> (string \<times> consensus_candidate) list \<Rightarrow> peer_error + unit" where
  "check_vote o1 reviewer presented =
     (case map_of vote_types (pr_type o1) of
        None \<Rightarrow> Inr ()
      | Some d \<Rightarrow>
          (case prior_vote reviewer (map_of presented (pr_candidate o1)) of
             None \<Rightarrow> Inr ()
           | Some prior \<Rightarrow> require (cv_disposition prior = d \<or> list_ex (\<lambda>i. i \<notin> set (cv_cited prior)) (pr_cited o1)) ConformityVoteFlip))"

definition validate_returned :: "peer_operation \<Rightarrow> string \<Rightarrow> number \<Rightarrow> (string \<times> consensus_candidate) list \<Rightarrow> peer_error + unit" where
  "validate_returned o1 reviewer rnd presented =
     result_bind (require (pr_author o1 = reviewer \<and> pr_round o1 = rnd \<and> \<not> blank (pr_id o1) \<and> \<not> blank (pr_candidate o1)) InvalidPeerProvenance) (\<lambda>_.
     result_bind (require (pr_type o1 \<in> set peer_types) UnknownPeerOperation) (\<lambda>_.
     result_bind (check_subject o1 reviewer presented) (\<lambda>_.
     result_bind (check_split o1) (\<lambda>_.
     result_bind (require (\<not> (pr_type o1 \<in> set cited_types \<and> pr_cited o1 = [])) (PeerEvidenceMissing (pr_type o1))) (\<lambda>_.
       check_vote o1 reviewer presented)))))"

definition target_ids :: "peer_operation \<Rightarrow> peer_error + string list" where
  "target_ids o1 =
     (if pr_type o1 = ''merge'' \<or> pr_type o1 = ''add_missing_finding'' then Inr [pr_candidate o1]
      else if pr_type o1 = ''split'' then result_bind (seeds (field_of o1 ''candidates'')) (\<lambda>ss. Inr (map fst ss))
      else Inr [])"

section \<open>A round\<close>

record round_state =
  rs_operations :: "peer_operation list"
  rs_dispatches :: "round_dispatch list"
  rs_created :: "string list"

definition check_returned ::
  "review_board \<Rightarrow> number \<Rightarrow> prepared_review \<Rightarrow> peer_operation list \<Rightarrow> peer_operation list \<Rightarrow> peer_operation \<Rightarrow> string list \<Rightarrow> peer_error + string list" where
  "check_returned board rnd v earlier returned o1 created =
     result_bind (validate_returned o1 (pv_reviewer v) rnd (pv_presented v)) (\<lambda>_.
     result_bind (require (\<not> (list_ex (\<lambda>b. pr_id b = pr_id o1) earlier \<or> 1 < length (filter (\<lambda>b. pr_id b = pr_id o1) returned))) DuplicatePeerOperation) (\<lambda>_.
     result_bind (target_ids o1) (\<lambda>ids.
     result_bind (require (\<not> list_ex (\<lambda>i. map_of board i \<noteq> None \<or> i \<in> set created) ids) PeerTargetExists) (\<lambda>_.
       Inr (fold set_add ids created)))))"

definition dispatch_record_of :: "number \<Rightarrow> prepared_review \<Rightarrow> round_dispatch" where
  "dispatch_record_of rnd v = \<lparr>rd_round = rnd, rd_reviewer = pv_reviewer v, rd_candidates = map rv_candidate (pv_views v), rd_reasons = pv_reasons v,
     rd_presentation = from_entries (map (\<lambda>w. (rv_candidate w, rv_sources w)) (pv_views v))\<rparr>"

definition answer_of :: "review_port \<Rightarrow> prepared_review \<Rightarrow> peer_error + peer_operation list" where
  "answer_of review v = (if pv_views v = [] then Inr [] else review (pv_request v))"

definition take_answer :: "review_board \<Rightarrow> number \<Rightarrow> review_port \<Rightarrow> prepared_review \<Rightarrow> round_state \<Rightarrow> peer_error + round_state" where
  "take_answer board rnd review v s =
     result_bind (answer_of review v) (\<lambda>returned.
     result_bind (result_fold (check_returned board rnd v (rs_operations s) returned) returned (rs_created s)) (\<lambda>created.
       Inr \<lparr>rs_operations = rs_operations s @ returned, rs_dispatches = rs_dispatches s @ [dispatch_record_of rnd v], rs_created = created\<rparr>))"

definition prepare_round ::
  "(string \<Rightarrow> string \<Rightarrow> bool) \<Rightarrow> seeded_rng \<Rightarrow> auditor list \<Rightarrow> consensus_policy \<Rightarrow> number \<Rightarrow> review_board \<Rightarrow> peer_error + prepared_review list" where
  "prepare_round le r auditors p rnd board =
     result_bind (rng_for r (''peer-review:'' @ round_text rnd @ '':reviewers'')) (\<lambda>r1.
       result_map (prepare_review r p rnd (length auditors) (live_candidates le board)) (enumerate 0 (fst (shuffle auditors r1))))"

definition peer_review_round ::
  "(string \<Rightarrow> string \<Rightarrow> bool) \<Rightarrow> seeded_rng \<Rightarrow> auditor list \<Rightarrow> review_port \<Rightarrow> consensus_policy \<Rightarrow> number \<Rightarrow> review_board \<Rightarrow>
     peer_error + peer_operation list \<times> round_dispatch list" where
  "peer_review_round le r auditors review p rnd board =
     (if \<not> safe_integer rnd \<or> int_of_number rnd < 1 \<or> 3 < int_of_number rnd then Inl RoundOutOfRange
      else if length auditors \<le> 1 then Inr ([], [])
      else result_bind (prepare_round le r auditors p rnd board) (\<lambda>prepared.
           result_bind (result_fold (take_answer board rnd review) prepared \<lparr>rs_operations = [], rs_dispatches = [], rs_created = []\<rparr>) (\<lambda>s.
             Inr (rs_operations s, rs_dispatches s))))"

section \<open>The rounds\<close>

record review_outcome =
  ro_board :: review_board
  ro_consensus :: consensus_state
  ro_operations :: "peer_operation list"
  ro_dispatches :: "round_dispatch list"
  ro_rounds :: nat

type_synonym apply_port = "review_board \<Rightarrow> peer_operation list \<Rightarrow> peer_error + review_board"

definition lift_consensus :: "consensus_error + 'a \<Rightarrow> peer_error + 'a" where
  "lift_consensus r = (case r of Inl e \<Rightarrow> Inl (ConsensusRefused e) | Inr x \<Rightarrow> Inr x)"

definition converged :: "consensus_state \<Rightarrow> bool" where
  "converged c \<longleftrightarrow> list_all (\<lambda>d. cn_outcome d \<noteq> OutVerify \<or> cn_reason d \<noteq> ''Consensus requirements are not yet satisfied.'') (co_candidates c)"

text \<open>The loop from one round on, with the rounds left.\<close>

fun review_rounds ::
  "(string \<Rightarrow> string \<Rightarrow> bool) \<Rightarrow> seeded_rng \<Rightarrow> auditor list \<Rightarrow> review_port \<Rightarrow> apply_port \<Rightarrow> consensus_policy \<Rightarrow> number \<Rightarrow>
     nat \<Rightarrow> nat \<Rightarrow> review_board \<Rightarrow> consensus_state option \<Rightarrow> peer_operation list \<Rightarrow> round_dispatch list \<Rightarrow> peer_error + review_outcome" where
  "review_rounds le r auditors review apply_ops p maximum 0 rnd board latest ops ds =
     (case latest of None \<Rightarrow> Inl ConsensusMissing
      | Some c \<Rightarrow> Inr \<lparr>ro_board = board, ro_consensus = c, ro_operations = ops, ro_dispatches = ds, ro_rounds = rnd - 1\<rparr>)"
| "review_rounds le r auditors review apply_ops p maximum (Suc left) rnd board latest ops ds =
     result_bind (peer_review_round le r auditors review p (num (int rnd)) board) (\<lambda>(new, shown).
     result_bind (apply_ops board new) (\<lambda>board'.
     result_bind (lift_consensus (compute_consensus le board' p auditors (num (int rnd)) (Some maximum))) (\<lambda>c.
       if converged c then Inr \<lparr>ro_board = board', ro_consensus = c, ro_operations = ops @ new, ro_dispatches = ds @ shown, ro_rounds = rnd\<rparr>
       else review_rounds le r auditors review apply_ops p maximum left (Suc rnd) board' (Some c) (ops @ new) (ds @ shown))))"

definition run_peer_review ::
  "(string \<Rightarrow> string \<Rightarrow> bool) \<Rightarrow> seeded_rng \<Rightarrow> auditor list \<Rightarrow> review_port \<Rightarrow> apply_port \<Rightarrow> consensus_policy option \<Rightarrow> number option \<Rightarrow> review_board \<Rightarrow>
     peer_error + review_outcome" where
  "run_peer_review le r auditors review apply_ops policy given board =
     (let p = (case policy of None \<Rightarrow> default_policy | Some p \<Rightarrow> p); maximum = (case given of None \<Rightarrow> num 3 | Some n \<Rightarrow> n) in
      if \<not> safe_integer maximum \<or> int_of_number maximum < 1 \<or> 3 < int_of_number maximum then Inl InvalidPeerRounds
      else if length auditors = 1 then
        result_bind (lift_consensus (compute_consensus le board p auditors (num 0) (Some maximum))) (\<lambda>c.
          Inr \<lparr>ro_board = board, ro_consensus = c, ro_operations = [], ro_dispatches = [], ro_rounds = 0\<rparr>)
      else review_rounds le r auditors review apply_ops p maximum (nat (int_of_number maximum)) 1 board None [] [])"

section \<open>Anonymous views\<close>





section \<open>Prepared reviews\<close>




section \<open>Operations of a round\<close>










section \<open>The rounds\<close>

text \<open>The specification of a review: rounds one after the other, each on the board that the one before left.\<close>

inductive reviewed ::
  "(string \<Rightarrow> string \<Rightarrow> bool) \<Rightarrow> seeded_rng \<Rightarrow> auditor list \<Rightarrow> review_port \<Rightarrow> apply_port \<Rightarrow> consensus_policy \<Rightarrow> review_board \<Rightarrow>
     nat \<Rightarrow> peer_operation list \<Rightarrow> round_dispatch list \<Rightarrow> review_board \<Rightarrow> bool"
  for le r auditors review apply_ops p board0 where
  unreviewed: "reviewed le r auditors review apply_ops p board0 0 [] [] board0"
| next_round: "reviewed le r auditors review apply_ops p board0 k ops ds board \<Longrightarrow>
    peer_review_round le r auditors review p (num (int (Suc k))) board = Inr (new, shown) \<Longrightarrow> apply_ops board new = Inr board' \<Longrightarrow>
    reviewed le r auditors review apply_ops p board0 (Suc k) (ops @ new) (ds @ shown) board'"

lemma review_rounds_reviewed:
  assumes "review_rounds le r auditors review apply_ops p maximum left (Suc k) board latest ops ds = Inr out"
    "reviewed le r auditors review apply_ops p board0 k ops ds board"
    "\<forall>c. latest = Some c \<longrightarrow> compute_consensus le board p auditors (num (int k)) (Some maximum) = Inr c"
  shows "reviewed le r auditors review apply_ops p board0 (ro_rounds out) (ro_operations out) (ro_dispatches out) (ro_board out)
    \<and> compute_consensus le (ro_board out) p auditors (num (int (ro_rounds out))) (Some maximum) = Inr (ro_consensus out)
    \<and> ro_rounds out \<le> k + left \<and> (ro_rounds out < k + left \<longrightarrow> converged (ro_consensus out))"
  using assms
proof (induction left arbitrary: k board latest ops ds)
  case 0
  then show ?case by (auto split: option.splits)
next
  case (Suc left)
  from Suc.prems(1) obtain new shown board' c where
    step: "peer_review_round le r auditors review p (num (int (Suc k))) board = Inr (new, shown)" "apply_ops board new = Inr board'"
      "compute_consensus le board' p auditors (num (int (Suc k))) (Some maximum) = Inr c"
    and out: "(if converged c then Inr \<lparr>ro_board = board', ro_consensus = c, ro_operations = ops @ new, ro_dispatches = ds @ shown, ro_rounds = Suc k\<rparr>
       else review_rounds le r auditors review apply_ops p maximum left (Suc (Suc k)) board' (Some c) (ops @ new) (ds @ shown)) = Inr out"
    by (auto simp: result_simps lift_consensus_def split: sum.splits simp del: if_split)
  note next_board = next_round [OF Suc.prems(2) step(1,2)]
  show ?case
  proof (cases "converged c")
    case True
    with out next_board step(3) show ?thesis by auto
  next
    case False
    with out have "review_rounds le r auditors review apply_ops p maximum left (Suc (Suc k)) board' (Some c) (ops @ new) (ds @ shown) = Inr out" by simp
    from Suc.IH [OF this next_board] step(3) show ?thesis by simp
  qed
qed

text \<open>
  C40. A peer review is a sequence of rounds, each on the board the one before left, and its result is the consensus of the
  last board at the last round. There are at most as many rounds as were asked for, and fewer only when no candidate is
  short of its consensus requirements; a single auditor has no round.
\<close>

theorem peer_review_is_rounds:
  assumes run: "run_peer_review le r auditors review apply_ops policy given board = Inr out"
    and p: "p = (case policy of None \<Rightarrow> default_policy | Some p \<Rightarrow> p)" and maximum: "maximum = (case given of None \<Rightarrow> num 3 | Some n \<Rightarrow> n)"
  shows "reviewed le r auditors review apply_ops p board (ro_rounds out) (ro_operations out) (ro_dispatches out) (ro_board out)
    \<and> compute_consensus le (ro_board out) p auditors (num (int (ro_rounds out))) (Some maximum) = Inr (ro_consensus out)
    \<and> int (ro_rounds out) \<le> int_of_number maximum
    \<and> (if length auditors = 1 then ro_rounds out = 0 else int (ro_rounds out) < int_of_number maximum \<longrightarrow> converged (ro_consensus out))"
proof (cases "length auditors = 1")
  case True
  from run True have "0 \<le> int_of_number maximum" "\<exists>c. compute_consensus le board p auditors (num 0) (Some maximum) = Inr c
      \<and> out = \<lparr>ro_board = board, ro_consensus = c, ro_operations = [], ro_dispatches = [], ro_rounds = 0\<rparr>"
    unfolding run_peer_review_def p maximum by (auto simp: result_simps lift_consensus_def Let_def split: if_splits sum.splits)
  with True unreviewed show ?thesis by auto
next
  case False
  with run have range: "1 \<le> int_of_number maximum"
    and rounds: "review_rounds le r auditors review apply_ops p maximum (nat (int_of_number maximum)) (Suc 0) board None [] [] = Inr out"
    unfolding run_peer_review_def p maximum by (auto simp: Let_def split: if_splits)
  from review_rounds_reviewed [OF rounds unreviewed] False range show ?thesis by auto
qed

section \<open>A review\<close>

definition peer_candidate :: "string \<Rightarrow> string list \<Rightarrow> consensus_candidate" where
  "peer_candidate i findings = \<lparr>cc_id = i, cc_findings = findings, cc_severity = Low, cc_blocker = False, cc_status = ''open'', cc_votes = [],
     cc_objections = [], cc_counter = [], cc_last_changed = 0, cc_category = None, cc_blast_radius = False, cc_low_confidence = False, cc_unresolved = []\<rparr>"

definition review_board_example :: review_board where
  "review_board_example = [(''x'', peer_candidate ''x'' [''ann/1'', ''bob/2/3'', ''cy/4''])]"

definition peer_auditors :: "auditor list" where
  "peer_auditors = [\<lparr>au_id = ''ann'', au_group = ''g''\<rparr>, \<lparr>au_id = ''bob'', au_group = ''h''\<rparr>]"

definition review_example :: review_port where
  "review_example q = Inr (map (\<lambda>v. \<lparr>pr_id = rr_reviewer q @ ''-'' @ rv_candidate v, pr_candidate = rv_candidate v, pr_author = rr_reviewer q,
     pr_round = rr_round q, pr_type = ''accept'', pr_cited = [''e''], pr_fields = []\<rparr>) (rr_candidates q))"

definition apply_example :: apply_port where
  "apply_example board ops = Inr (map (\<lambda>(k, c). (k, c\<lparr>cc_votes := cc_votes c @ map (\<lambda>o1. \<lparr>cv_author = pr_author o1, cv_disposition = Accept,
     cv_cited = pr_cited o1, cv_reason = ''r''\<rparr>) (filter (\<lambda>o1. pr_candidate o1 = k) ops)\<rparr>)) board)"

definition peer_rng :: seeded_rng where
  "peer_rng = \<lparr>sr_run = ''run'', sr_state = 0\<rparr>"





definition rounds_of :: "peer_error + review_outcome \<Rightarrow> nat option \<times> (string \<times> consensus_outcome) list" where
  "rounds_of res = (case res of Inl e \<Rightarrow> (None, []) | Inr out \<Rightarrow> (Some (ro_rounds out), map (\<lambda>d. (cn_id d, cn_outcome d)) (co_candidates (ro_consensus out))))"

lemma review_run_example:
  "rounds_of (run_peer_review (\<lambda>_ _. True) peer_rng peer_auditors review_example apply_example None None review_board_example)
    = (Some 1, [(''x'', OutAccepted)])"
  by code_simp

theorem peer_review_is_rounds_witness:
  "\<exists>out. run_peer_review (\<lambda>_ _. True) peer_rng peer_auditors review_example apply_example None None review_board_example = Inr out
    \<and> ro_rounds out = 1 \<and> converged (ro_consensus out)"
proof -
  let ?res = "run_peer_review (\<lambda>_ _. True) peer_rng peer_auditors review_example apply_example None None review_board_example"
  obtain out where res: "?res = Inr out"
  proof (cases ?res)
    case (Inl e)
    show ?thesis using review_run_example unfolding Inl rounds_of_def by simp
  qed (use that in simp)
  have one: "ro_rounds out = 1" using review_run_example unfolding res rounds_of_def by simp
  have "length peer_auditors \<noteq> 1" by (simp add: peer_auditors_def)
  with peer_review_is_rounds [OF res refl refl] one have "converged (ro_consensus out)" by simp
  with res one show ?thesis by blast
qed

end
