(* ===== verification/Spec2Isabelle.thy ===== *)
theory Spec2Isabelle
  imports Durability Runner_Properties Authored_Properties Graph_Store Batch_Lane_Properties Provider_Budget Canonical_Issues Preset_Graphs Write_Partitions
    Finding_Validation Plan_Repair Write_Schedule Targeted_Verification Peer_Review
begin

text \<open>
  A model of the core of Arbitra, the workspace of TypeScript packages that runs a graph of model calls over a
  repository: it finds issues, votes on them, plans their repair and executes the plan, and can be stopped and restarted
  at any point. This header says which theory models which part, how state and operations correspond to the code, what
  the lemmas show, and what is left out.

  How the parts interact. A configuration selects a shipped graph or a saved authored one; the graph is validated by its
  schema, its structure and the policies of its checkpoints, and turned into a plan, a topological order of its nodes.
  The runner dispatches the nodes of the plan as their predecessors complete. Every node runs inside an activity, whose
  attempts and results go to the journal of the run and whose outputs go to the artifact store; a restart projects the
  journal and replays what is kept. Gate and human nodes wait on checkpoints in the same store. Nodes that call a model
  go through the provider runtime, which reserves tokens from the run's budget, asks the rate scheduler for a lease, sends
  the request again where that is allowed, or hands it to the batch lane. The findings of the auditors are validated,
  collected on the issue board, voted on, decided by the consensus rule and made canonical; the planner's plan is checked
  against them and its order repaired, and its execution writes under leases on disjoint paths.

  The library. \<open>Prelude\<close> holds what all components share: computations that may throw as functions into
  \<open>'e + 'a\<close>, JavaScript strings, numbers, sets, maps and sorting, with the locale \<open>total_preorder\<close> of stable sorting.
  A \<open>Map\<close> of the source is an association list in insertion order. What the language leaves to the host
  (\<open>localeCompare\<close>, \<open>normalize\<close>, the digest, the text of a number) is the record \<open>js_host\<close> of \<open>Json\<close>. The
  interfaces between components are locales, each interpreted on the model's own definitions by the component that
  provides it.

  Running a graph.
  \<open>Json\<close> and \<open>Journal\<close> model \<open>persistence/src/canonical-json.ts\<close>, \<open>activity-id.ts\<close>, \<open>core/src/runner/events.ts\<close>,
  \<open>state-projection.ts\<close> and \<open>journal-load.ts\<close>: canonical text, identities, records and the two projections.
  \<open>Artifact_Store\<close> models \<open>persistence/src/artifact-store.ts\<close> over a file system with torn files and a second writer.
  \<open>Run_Store\<close> models \<open>persistence/src/journal.ts\<close> and \<open>runtime/src/run-store.ts\<close>, with appends that fail half way.
  \<open>Activity\<close> models \<open>core/src/activity.ts\<close>: a run's runtime is its journal, its artifacts and its memory of attempts.
  \<open>Graph_Plan\<close> models \<open>buildGraphPlan\<close>, and \<open>Runner\<close> the handle and the batches of
  \<open>core/src/runner/workflow-runner.ts\<close> as a step relation between awaits; \<open>Runner_Invariants\<close>, \<open>Runner_Recovery\<close> and
  \<open>Runner_Progress\<close> prove what holds in every reachable state, what a later run finds, and that every run ends, by a
  measure that each step decreases; \<open>Runner_Liveness\<close> that a run whose awaits all succeed ends \<open>COMPLETED\<close>. \<open>Durability\<close>, \<open>Runner_Properties\<close> and \<open>Examples\<close> state the properties.
  \<open>Checkpoints\<close> models \<open>graph-checkpoints.ts\<close> over its store port and \<open>runtime/src/graph-checkpoint-store.ts\<close>, which
  interprets the contract of that port; the version of a checkpoint is a digest of the sorted JSON text that
  \<open>Config_Json\<close> models after \<open>canonicalJson\<close> of \<open>core/src/config/config-store.ts\<close>.

  Calling providers.
  \<open>Token_Budget\<close>, \<open>Rate_Scheduler\<close>, \<open>Host_Suspends\<close>, \<open>Continuation\<close> and \<open>Provider_Runtime\<close> model \<open>token-budget.ts\<close>,
  \<open>scheduler.ts\<close>, \<open>suspend.ts\<close>, \<open>continuation/\<close> and \<open>runtime.ts\<close> of \<open>providers/src\<close>. \<open>Provider_Protocol\<close> gives the
  abstract protocol of the calls to budget, scheduler and transport and proves that the detailed loop follows it;
  \<open>Provider_Budget\<close> composes the loop with the durable budget. \<open>Batch_Lane\<close> models the durable records of
  \<open>batch/lane.ts\<close> and its serial sections, \<open>Batch_Lane_Process\<close> the memory of the process, and \<open>Batch_Lane_Safety\<close> and
  \<open>Batch_Lane_Properties\<close> what holds over every history in which no fault and no crash falls between the saves of a flush
  and no item is executed twice at a time.

  Graphs and configurations.
  \<open>Graph_Schema\<close>, \<open>Graph_Structure\<close> and \<open>Authored_Graphs\<close> model the three layers of the validator of authored graphs
  in \<open>workflow/src\<close> and \<open>runtime/src/authored-graphs.ts\<close>; \<open>Authored_Properties\<close> states what acceptance means.
  \<open>Graph_Store\<close> models the store of saved versions and \<open>Preset_Graphs\<close> the shipped graphs and their switches.

  From findings to a plan.
  \<open>Finding_Validation\<close>, \<open>Issue_Board\<close>, \<open>Consensus\<close> and \<open>Canonical_Issues\<close> model \<open>nodes/validate-findings.ts\<close>,
  \<open>core/src/issue-board\<close> with \<open>workflow/src/board-operation.ts\<close>, \<open>consensus/engine.ts\<close> and \<open>nodes/canonical-issues.ts\<close>;
  \<open>Peer_Review\<close> models the rounds of \<open>nodes/peer-review/round.ts\<close>, what a reviewer sees and what its answers may do, over
  the seeded generator of \<open>core/src/services/rng.ts\<close>, \<open>Seeded_Rng\<close>;
  \<open>Targeted_Verification\<close> models \<open>nodes/verification/engine.ts\<close> and \<open>ladder.ts\<close>, which settle what the votes leave open.
  \<open>Glob_Scopes\<close>, \<open>Task_Order\<close>, \<open>Plan_Traceability\<close> and \<open>Plan_Repair\<close> model \<open>nodes/planner/traceability.ts\<close>: the
  comparison of write scopes against the files they stand for, the order of the tasks with its searches and the count
  that finds a cycle, the check of a plan, and the repair whose result the check accepts. \<open>Write_Partitions\<close> models
  \<open>security/src/write-partitions.ts\<close>, and \<open>Write_Schedule\<close> \<open>runtime/src/testing-write-schedule.ts\<close> over both: an accepted
  testing plan is always scheduled, in batches whose tasks can write at the same time.

  Bounds and fuel. Loops of the source are structural recursions or have a measure. The cycle search of
  \<open>Graph_Structure\<close> has as fuel the number of nodes, as many as a path can visit, and \<open>accepted_graph_is_acyclic\<close> shows that it returns; the attempts of the
  provider runtime are bounded by the attempts left; the searches of \<open>Task_Order\<close> by the tasks not yet found; the visit
  of ready tasks by the positive degrees and the length of the queue; braces by the number of opening braces. The batches of \<open>Write_Schedule\<close> have one turn
  more than there are tasks as fuel, and \<open>testing_schedule_complete\<close> shows that this is enough. The limits
  of the source (three rounds of review, 64 alternatives of braces, 10 reported pairs, the batch sizes of the runner) are kept as they are; the draws of \<open>Seeded_Rng\<close>
  are exact for lists of up to 2 to the 21st elements.

  Conventions. Strings are lists of characters below 256, numbers that may be fractional or not finite are the type
  \<open>number\<close>, times are rationals. A clock, a hash, a transport, a repair by a model and a comparison of strings by locale
  are parameters. A promise is the point where it settles: what happens between two awaits is one step, and an
  interleaving is a sequence of steps. A search that the source memoises is written without the memo.
  Where an order of effects cannot be observed by what is modelled, the model takes one: the inputs of an executor are
  noted when it returns, the last status of a run is decided where the loop ends, calls that are sent together are
  answered one by one, and a trace sink that throws is left out. A stored budget that is refused has one error.

  Not modelled. The web application, the command line, the HTTP server and its routes present what the modelled parts
  compute. The transports, batch drivers, discovery and process handling of \<open>providers\<close> translate to and from foreign
  protocols and are parameters here, as are the file system and the clock. The orchestrator and the pipelines of
  \<open>runtime\<close> wire the modelled parts to prompts and to models, whose answers nothing in the code determines; their
  contexts, prompts and reports are text. The zod schemas of \<open>schemas\<close> are used as the shapes of the records. Traces,
  metrics, the evaluation corpus, the files of saved configurations, the scanner and the redaction of secrets, symbol indexing and the sandboxes of
  \<open>testing\<close> and \<open>tools\<close> are left out. The manifest lists each of these parts with its reason.
\<close>

end
